(* ===== verification/Base.thy ===== *)
theory Base
  imports Main "HOL-Library.Word"
begin

text \<open>
  The prelude of the development: the C library functions on characters and strings that the
  sources call, in the form every component uses them, and the generic list lemmas the
  component proofs share.

  A C string is the list of its bytes before the terminating NUL, so \<open>strlen\<close> is
  \<open>length\<close>, and a buffer of \<open>cap\<close> bytes that always holds a terminated string is a list
  shorter than \<open>cap\<close>. Sizes and offsets (\<open>size_t\<close>) are \<open>nat\<close>, each subtraction guarded
  as the code guards it.
\<close>

named_theorems ctype_simps "unfoldings of the character classes"
named_theorems inv_intros "introduction rules of the components' invariants"

type_synonym cstring = "char list"

abbreviation newline :: char where "newline \<equiv> CHR 0x0A"
abbreviation tab :: char where "tab \<equiv> CHR 0x09"
abbreviation nul :: char where "nul \<equiv> CHR 0x00"

section \<open>Characters\<close>

definition code :: "char \<Rightarrow> nat" where
  "code c = of_char c"

definition between :: "char \<Rightarrow> char \<Rightarrow> char \<Rightarrow> bool" where
  "between lo hi c \<longleftrightarrow> code lo \<le> code c \<and> code c \<le> code hi"

definition is_digit :: "char \<Rightarrow> bool" where
  "is_digit c \<longleftrightarrow> between (CHR ''0'') (CHR ''9'') c"

definition is_lower :: "char \<Rightarrow> bool" where
  "is_lower c \<longleftrightarrow> between (CHR ''a'') (CHR ''z'') c"

definition is_upper :: "char \<Rightarrow> bool" where
  "is_upper c \<longleftrightarrow> between (CHR ''A'') (CHR ''Z'') c"

definition is_alpha :: "char \<Rightarrow> bool" where
  "is_alpha c \<longleftrightarrow> is_lower c \<or> is_upper c"

definition is_alnum :: "char \<Rightarrow> bool" where
  "is_alnum c \<longleftrightarrow> is_alpha c \<or> is_digit c"

text \<open>\<open>isspace\<close> in the C locale: space, tab, newline, vertical tab, form feed, return.\<close>

definition is_space :: "char \<Rightarrow> bool" where
  "is_space c \<longleftrightarrow> c = CHR '' '' \<or> between (CHR 0x09) (CHR 0x0D) c"

lemmas char_class_defs [ctype_simps] =
  code_def between_def is_digit_def is_lower_def is_upper_def is_alpha_def is_alnum_def is_space_def

text \<open>The byte of a character, and the character of a byte.\<close>

definition byte_of :: "char \<Rightarrow> 8 word" where
  "byte_of c = word_of_nat (code c)"

definition char_of_byte :: "8 word \<Rightarrow> char" where
  "char_of_byte b = char_of (unat b)"

definition digit_char :: "nat \<Rightarrow> char" where
  "digit_char d = char_of (48 + d)"

lemma code_less [simp]: "code c < 256"
  unfolding code_def by (metis of_char_mod_256 mod_less_divisor zero_less_numeral)

lemma code_inj: "code c = code d \<Longrightarrow> c = d"
  by (simp add: code_def)

lemma char_of_byte_of [simp]: "char_of_byte (byte_of c) = c"
proof -
  have "unat (byte_of c) = code c"
    using code_less [of c] by (simp add: byte_of_def unat_of_nat)
  then show ?thesis by (simp add: char_of_byte_def code_def)
qed

lemma byte_of_char_of [simp]: "byte_of (char_of_byte b) = b"
proof -
  have "unat b < 2 ^ LENGTH(8)" by (rule unsigned_less)
  then have "unat b < 256" by simp
  then have "code (char_of_byte b) = unat b" by (simp add: code_def char_of_byte_def)
  then show ?thesis by (simp add: byte_of_def)
qed

section \<open>Buffers and strings\<close>

text \<open>The byte at an offset; at the end of the string it is the terminator.\<close>

definition char_at :: "cstring \<Rightarrow> nat \<Rightarrow> char" where
  "char_at s i = (if i < length s then s ! i else nul)"

text \<open>\<open>snprintf (buf, cap, "%s", s)\<close>: at most \<open>cap - 1\<close> bytes.\<close>

definition clip :: "nat \<Rightarrow> cstring \<Rightarrow> cstring" where
  "clip cap s = take (cap - 1) s"

definition prefix_of :: "cstring \<Rightarrow> cstring \<Rightarrow> bool" where
  "prefix_of p s \<longleftrightarrow> take (length p) s = p"

definition suffix_of :: "cstring \<Rightarrow> cstring \<Rightarrow> bool" where
  "suffix_of p s \<longleftrightarrow> length p \<le> length s \<and> drop (length s - length p) s = p"

text \<open>\<open>strchr\<close>: the offset of the first occurrence.\<close>

fun find_char :: "char \<Rightarrow> cstring \<Rightarrow> nat option" where
  "find_char c [] = None"
| "find_char c (x # xs) = (if x = c then Some 0 else map_option Suc (find_char c xs))"

text \<open>\<open>memmove\<close> up and down by one element: insertion and deletion in a text buffer.\<close>

definition insert_at :: "nat \<Rightarrow> 'a list \<Rightarrow> 'a list \<Rightarrow> 'a list" where
  "insert_at i ys xs = take i xs @ ys @ drop i xs"

definition delete_before :: "nat \<Rightarrow> 'a list \<Rightarrow> 'a list" where
  "delete_before i xs = take (i - 1) xs @ drop i xs"

text \<open>\<open>strcmp\<close>, which compares as unsigned bytes; true when the first sorts before the second.\<close>

fun str_less :: "cstring \<Rightarrow> cstring \<Rightarrow> bool" where
  "str_less [] ys = (ys \<noteq> [])"
| "str_less (x # xs) [] = False"
| "str_less (x # xs) (y # ys) = (code x < code y \<or> x = y \<and> str_less xs ys)"

lemma take_takeWhile: "n \<le> length (takeWhile P xs) \<Longrightarrow> take n (takeWhile P xs) = take n xs"
  by (induction xs arbitrary: n) (auto simp: take_Cons' split: if_splits)

lemma if_less_min: "(if a < b then a else b) = min a (b :: 'a :: linorder)"
  by (auto simp: min_def)

lemma char_at_less [simp]: "i < length s \<Longrightarrow> char_at s i = s ! i"
  by (simp add: char_at_def)

lemma char_at_Cons [simp]: "char_at (x # xs) 0 = x" "char_at (x # xs) (Suc i) = char_at xs i" "char_at [] i = nul"
  by (simp_all add: char_at_def)

lemma length_clip [simp]: "0 < cap \<Longrightarrow> length (clip cap s) < cap"
  by (auto simp: clip_def)

lemma clip_id [simp]: "length s < cap \<Longrightarrow> clip cap s = s"
  by (simp add: clip_def)

lemma length_insert_at [simp]: "i \<le> length xs \<Longrightarrow> length (insert_at i ys xs) = length xs + length ys"
  by (simp add: insert_at_def)

lemma length_delete_before [simp]:
  "0 < i \<Longrightarrow> i \<le> length xs \<Longrightarrow> length (delete_before i xs) = length xs - 1"
  by (simp add: delete_before_def)

lemma take_insert_at [simp]: "i \<le> length xs \<Longrightarrow> take i (insert_at i ys xs) = take i xs"
  by (simp add: insert_at_def)

lemma delete_insert_at [simp]:
  "i \<le> length xs \<Longrightarrow> delete_before (Suc i) (insert_at i [y] xs) = xs"
  by (simp add: delete_before_def insert_at_def)

lemma find_char_Some:
  "find_char c s = Some i \<Longrightarrow> i < length s \<and> s ! i = c \<and> c \<notin> set (take i s)"
  by (induction s arbitrary: i) (auto split: if_splits)

lemma find_char_None: "find_char c s = None \<longleftrightarrow> c \<notin> set s"
  by (induction s) auto

lemma find_char_none [simp]: "c \<notin> set s \<Longrightarrow> find_char c s = None"
  by (simp add: find_char_None)

lemma find_char_append:
  "c \<notin> set s \<Longrightarrow> find_char c (s @ c # t) = Some (length s)"
  by (induction s) auto

lemma append_char_eq:
  "a @ c # b = a' @ c # b' \<Longrightarrow> c \<notin> set a \<Longrightarrow> c \<notin> set a' \<Longrightarrow> a = a' \<and> b = b'"
proof (induction a arbitrary: a')
  case Nil
  then show ?case by (cases a') auto
next
  case (Cons x a)
  then show ?case by (cases a') auto
qed

lemma prefix_of_append [simp]: "prefix_of p (p @ s)"
  by (simp add: prefix_of_def)

lemma prefix_of_length: "prefix_of p s \<Longrightarrow> length p \<le> length s"
  unfolding prefix_of_def by (metis length_take min.cobounded1)

lemma suffix_of_append [simp]: "suffix_of p (s @ p)"
  by (simp add: suffix_of_def)

lemma suffix_ofD: "suffix_of p s \<Longrightarrow> s = take (length s - length p) s @ p"
  unfolding suffix_of_def by (metis append_take_drop_id)

lemma str_less_irrefl [simp]: "\<not> str_less s s"
  by (induction s) auto

lemma str_less_trans: "str_less a b \<Longrightarrow> str_less b c \<Longrightarrow> str_less a c"
proof (induction a b arbitrary: c rule: str_less.induct)
  case (1 ys)
  then show ?case by (cases c; cases ys) auto
next
  case (2 x xs)
  then show ?case by simp
next
  case (3 x xs y ys)
  then show ?case by (cases c) auto
qed

lemma str_less_total: "a \<noteq> b \<Longrightarrow> str_less a b \<or> str_less b a"
proof (induction a b rule: str_less.induct)
  case (1 ys)
  then show ?case by (cases ys) auto
next
  case (2 x xs)
  then show ?case by simp
next
  case (3 x xs y ys)
  then show ?case by (metis code_inj linorder_neqE_nat str_less.simps(3))
qed

section \<open>Decimal text\<close>

text \<open>\<open>%u\<close> of a number, and \<open>%02d\<close>.\<close>

fun dec :: "nat \<Rightarrow> cstring" where
  "dec n = (if n < 10 then [digit_char n] else dec (n div 10) @ [digit_char (n mod 10)])"

declare dec.simps [simp del]

definition dec2 :: "nat \<Rightarrow> cstring" where
  "dec2 n = (if n < 10 then CHR ''0'' # dec n else dec n)"

text \<open>The number a run of digits reads as.\<close>

definition digit_val :: "char \<Rightarrow> nat" where
  "digit_val c = code c - 48"

definition undec :: "cstring \<Rightarrow> nat" where
  "undec s = foldl (\<lambda>n c. 10 * n + digit_val c) 0 s"

lemma code_digit_char [simp]: "d < 10 \<Longrightarrow> code (digit_char d) = 48 + d"
  by (simp add: code_def digit_char_def)

lemma digit_val_char [simp]: "d < 10 \<Longrightarrow> digit_val (digit_char d) = d"
  by (simp add: digit_val_def)

lemma is_digit_digit_char [simp]: "d < 10 \<Longrightarrow> is_digit (digit_char d)"
  by (simp add: is_digit_def between_def) (simp add: code_def)

lemma undec_dec [simp]: "undec (dec n) = n"
proof (induction n rule: dec.induct)
  case (1 n)
  then show ?case
    by (cases "n < 10") (simp_all add: dec.simps [of n] undec_def)
qed

lemma dec_inj [simp]: "dec m = dec n \<longleftrightarrow> m = n"
  by (metis undec_dec)

lemma digits_dec: "c \<in> set (dec n) \<Longrightarrow> is_digit c"
proof (induction n rule: dec.induct)
  case (1 n)
  then show ?case by (cases "n < 10") (auto simp: dec.simps [of n])
qed

lemma dec_not_Nil [simp]: "dec n \<noteq> []"
  by (simp add: dec.simps [of n])

lemma undec_dec2 [simp]: "undec (dec2 n) = n"
proof (cases "n < 10")
  case True
  then show ?thesis by (simp add: dec2_def dec.simps [of n] undec_def) (simp add: digit_val_def code_def)
next
  case False
  then show ?thesis by (simp add: dec2_def)
qed

lemma dec2_inj [simp]: "dec2 m = dec2 n \<longleftrightarrow> m = n"
  by (metis undec_dec2)

lemma length_dec2: "n < 100 \<Longrightarrow> length (dec2 n) = 2"
  by (auto simp: dec2_def dec.simps [of n] dec.simps [of "n div 10"])

lemma digits_dec2: "c \<in> set (dec2 n) \<Longrightarrow> is_digit c"
  by (auto simp: dec2_def split: if_splits dest: digits_dec) (simp add: ctype_simps)

text \<open>A size below \<open>INT64_MAX\<close> is itself as a signed 64-bit integer.\<close>

lemma sint_small:
  assumes "n < 2 ^ 63"
  shows "sint (of_nat n :: 64 word) = int n"
proof -
  have "signed_take_bit 63 (int n) = int n" using assms by (intro signed_take_bit_int_eq_self) auto
  then show ?thesis by (simp add: signed_of_nat)
qed

text \<open>\<open>strtol\<close> in base ten: the number, saturated at the 32 bits of a long, and the text after it.\<close>

definition strtol10 :: "cstring \<Rightarrow> (int \<times> cstring) option" where
  "strtol10 s =
     (let s1 = dropWhile is_space s;
          (negative, s2) = (if s1 \<noteq> [] \<and> hd s1 = CHR ''-'' then (True, tl s1)
                            else if s1 \<noteq> [] \<and> hd s1 = CHR ''+'' then (False, tl s1) else (False, s1));
          ds = takeWhile is_digit s2; n = int (undec ds)
      in if ds = [] then None
         else Some (if negative then max (- (2 ^ 31)) (- n) else min (2 ^ 31 - 1) n, dropWhile is_digit s2))"

end
