(* ===== verification/Editor.thy ===== *)
theory Editor
  imports Base
begin

text \<open>
  The program editor's text buffer, \<^verbatim>\<open>src/shell/editor.c\<close>: a \<open>QDOS_PROGRAM_MAX\<close>-byte
  buffer with a cursor, insertion and deletion with automatic indent, one step of undo taken
  before each run of typing or deleting, and movement by characters and lines.

  \<open>ed_text\<close> holds the bytes \<open>text[0..len)\<close>, so the code's \<open>len\<close> is its length and
  the terminator at \<open>text[len]\<close> is implicit; the same for the undo copy and the name.
\<close>

section \<open>State\<close>

definition QDOS_PROGRAM_MAX :: nat where "QDOS_PROGRAM_MAX = 4096"
definition QDOS_PROGRAM_NAME_MAX :: nat where "QDOS_PROGRAM_NAME_MAX = 64"

datatype edit_op = OP_NONE | OP_INSERT | OP_DELETE

record editor =
  ed_text :: cstring
  ed_cursor :: nat
  ed_name :: cstring
  ed_dirty :: bool
  ed_undo_text :: cstring
  ed_undo_cursor :: nat
  ed_can_undo :: bool
  ed_last_op :: edit_op

section \<open>Operations\<close>

fun line_start :: "cstring \<Rightarrow> nat \<Rightarrow> nat" where
  "line_start t 0 = 0"
| "line_start t (Suc n) = (if char_at t n \<noteq> newline then line_start t n else Suc n)"

function line_end :: "cstring \<Rightarrow> nat \<Rightarrow> nat" where
  "line_end t off = (if off < length t \<and> char_at t off \<noteq> newline then line_end t (Suc off) else off)"
  by pat_completeness auto
termination
  by (relation "measure (\<lambda>(t, off). length t - off)") auto

declare line_end.simps [simp del]

definition checkpoint :: "edit_op \<Rightarrow> editor \<Rightarrow> editor" where
  "checkpoint op ed =
     (let ed' = (if op \<noteq> ed_last_op ed
                 then ed\<lparr>ed_undo_text := ed_text ed, ed_undo_cursor := ed_cursor ed, ed_can_undo := True\<rparr>
                 else ed)
      in ed'\<lparr>ed_last_op := op\<rparr>)"

definition put_char :: "char \<Rightarrow> editor \<Rightarrow> editor" where
  "put_char ch ed =
     (if length (ed_text ed) + 1 \<ge> QDOS_PROGRAM_MAX then ed
      else ed\<lparr>ed_text := insert_at (ed_cursor ed) [ch] (ed_text ed),
              ed_cursor := ed_cursor ed + 1, ed_dirty := True\<rparr>)"

definition delete_back :: "editor \<Rightarrow> editor" where
  "delete_back ed =
     ed\<lparr>ed_text := delete_before (ed_cursor ed) (ed_text ed),
        ed_cursor := ed_cursor ed - 1, ed_dirty := True\<rparr>"

definition blank :: "char \<Rightarrow> bool" where
  "blank ch \<longleftrightarrow> ch = CHR '' '' \<or> ch = tab"

definition new_program :: "cstring \<Rightarrow> cstring" where
  "new_program name = ''fn '' @ name @ ''( -- ) {'' @ [newline, tab, newline, CHR ''}'']"

definition qdos_editor_open :: "cstring \<Rightarrow> cstring option \<Rightarrow> editor" where
  "qdos_editor_open name source =
     (let ed = \<lparr>ed_text = [], ed_cursor = 0, ed_name = clip QDOS_PROGRAM_NAME_MAX name,
                ed_dirty = False, ed_undo_text = [], ed_undo_cursor = 0,
                ed_can_undo = False, ed_last_op = OP_NONE\<rparr>
      in case source of
           None \<Rightarrow>
             let t = clip QDOS_PROGRAM_MAX (new_program name)
             in ed\<lparr>ed_text := t, ed_cursor := length t - 2\<rparr>
         | Some src \<Rightarrow> ed\<lparr>ed_text := clip QDOS_PROGRAM_MAX src\<rparr>)"

definition only_blank_before :: "editor \<Rightarrow> bool" where
  "only_blank_before ed \<longleftrightarrow>
     list_all (\<lambda>i. blank (char_at (ed_text ed) i))
       [line_start (ed_text ed) (ed_cursor ed)..<ed_cursor ed]"

definition qdos_editor_insert :: "char \<Rightarrow> editor \<Rightarrow> editor" where
  "qdos_editor_insert ch ed0 =
     (let ed = checkpoint OP_INSERT ed0;
          ed = (if ch = CHR ''}'' \<and> ed_cursor ed > 0 \<and> char_at (ed_text ed) (ed_cursor ed - 1) = tab
                   \<and> only_blank_before ed
                then delete_back ed else ed)
      in put_char ch ed)"

definition qdos_editor_backspace :: "editor \<Rightarrow> editor" where
  "qdos_editor_backspace ed =
     (if ed_cursor ed = 0 then ed else delete_back (checkpoint OP_DELETE ed))"

text \<open>The two scans of \<open>qdos_editor_newline\<close>: the blanks a line opens with, and back over those before
  the cursor.\<close>

function scan_indent :: "cstring \<Rightarrow> nat \<Rightarrow> nat \<Rightarrow> nat \<Rightarrow> nat" where
  "scan_indent t start cur indent =
     (if start + indent < cur \<and> blank (char_at t (start + indent))
      then scan_indent t start cur (Suc indent) else indent)"
  by pat_completeness auto
termination
  by (relation "measure (\<lambda>(t, start, cur, indent). cur - (start + indent))") auto

declare scan_indent.simps [simp del]

fun scan_back :: "cstring \<Rightarrow> nat \<Rightarrow> nat \<Rightarrow> nat" where
  "scan_back t start 0 = 0"
| "scan_back t start (Suc n) =
     (if Suc n > start \<and> blank (char_at t n) then scan_back t start n else Suc n)"

definition qdos_editor_newline :: "editor \<Rightarrow> editor" where
  "qdos_editor_newline ed =
     (let t = ed_text ed;
          start = line_start t (ed_cursor ed);
          indent = scan_indent t start (ed_cursor ed) 0;
          back = scan_back t start (ed_cursor ed);
          opens = back > start \<and> char_at t (back - 1) = CHR ''{'';
          ed1 = put_char newline (checkpoint OP_INSERT (ed\<lparr>ed_last_op := OP_NONE\<rparr>));
          ed2 = fold (\<lambda>i e. put_char (char_at (ed_text e) (start + i)) e) [0..<indent] ed1
      in if opens then put_char tab ed2 else ed2)"

definition qdos_editor_undo :: "editor \<Rightarrow> bool \<times> editor" where
  "qdos_editor_undo ed =
     (if \<not> ed_can_undo ed then (False, ed)
      else (True, ed\<lparr>ed_text := ed_undo_text ed, ed_cursor := ed_undo_cursor ed,
                     ed_undo_text := ed_text ed, ed_undo_cursor := ed_cursor ed,
                     ed_last_op := OP_NONE, ed_dirty := True\<rparr>))"

text \<open>The offset \<open>qdos_editor_goto\<close> walks to, one line at a time, and on over its blanks.\<close>

fun goto_line :: "cstring \<Rightarrow> nat \<Rightarrow> nat \<Rightarrow> nat" where
  "goto_line t 0 at = at"
| "goto_line t (Suc n) at =
     (if at < length t
      then let e = line_end t at in goto_line t n (if e < length t then Suc e else e)
      else at)"

function skip_blank :: "cstring \<Rightarrow> nat \<Rightarrow> nat" where
  "skip_blank t at = (if at < length t \<and> blank (char_at t at) then skip_blank t (Suc at) else at)"
  by pat_completeness auto
termination
  by (relation "measure (\<lambda>(t, at). length t - at)") auto

declare skip_blank.simps [simp del]

definition qdos_editor_goto :: "nat \<Rightarrow> editor \<Rightarrow> editor" where
  "qdos_editor_goto line ed =
     ed\<lparr>ed_cursor := skip_blank (ed_text ed) (goto_line (ed_text ed) line 0), ed_last_op := OP_NONE\<rparr>"

text \<open>\<open>qdos_editor_move\<close> in its three parts: along the line, then a line up or a line down.\<close>

definition move_x :: "int \<Rightarrow> editor \<Rightarrow> editor" where
  "move_x dx ed =
     (if dx < 0 \<and> ed_cursor ed > 0 then ed\<lparr>ed_cursor := ed_cursor ed - 1\<rparr>
      else if dx > 0 \<and> ed_cursor ed < length (ed_text ed) then ed\<lparr>ed_cursor := ed_cursor ed + 1\<rparr>
      else ed)"

definition move_up :: "editor \<Rightarrow> editor" where
  "move_up ed =
     (let start = line_start (ed_text ed) (ed_cursor ed);
          col = ed_cursor ed - start
      in if start = 0 then ed
         else let prev = line_start (ed_text ed) (start - 1);
                  prev_len = (start - 1) - prev
              in ed\<lparr>ed_cursor := prev + (if col < prev_len then col else prev_len)\<rparr>)"

definition move_down :: "editor \<Rightarrow> editor" where
  "move_down ed =
     (let start = line_start (ed_text ed) (ed_cursor ed);
          col = ed_cursor ed - start;
          e = line_end (ed_text ed) (ed_cursor ed)
      in if e \<ge> length (ed_text ed) then ed
         else let nxt = e + 1;
                  next_len = line_end (ed_text ed) nxt - nxt
              in ed\<lparr>ed_cursor := nxt + (if col < next_len then col else next_len)\<rparr>)"

definition qdos_editor_move :: "int \<Rightarrow> int \<Rightarrow> editor \<Rightarrow> editor" where
  "qdos_editor_move dx dy ed0 =
     (let ed = move_x dx (ed0\<lparr>ed_last_op := OP_NONE\<rparr>)
      in if dy = 0 then ed else if dy < 0 then move_up ed else move_down ed)"

definition qdos_editor_lines :: "editor \<Rightarrow> nat" where
  "qdos_editor_lines ed = 1 + length (filter (\<lambda>c. c = newline) (ed_text ed))"

fun nth_line :: "cstring \<Rightarrow> nat \<Rightarrow> nat \<Rightarrow> nat option" where
  "nth_line t 0 at = Some at"
| "nth_line t (Suc n) at =
     (let e = line_end t at in if e \<ge> length t then None else nth_line t n (Suc e))"

definition qdos_editor_line :: "nat \<Rightarrow> editor \<Rightarrow> (nat \<times> nat) option" where
  "qdos_editor_line index ed =
     (case nth_line (ed_text ed) index 0 of
        None \<Rightarrow> None
      | Some at \<Rightarrow> Some (at, line_end (ed_text ed) at - at))"

definition qdos_editor_where :: "editor \<Rightarrow> nat \<times> nat" where
  "qdos_editor_where ed =
     (length (filter (\<lambda>c. c = newline) (take (ed_cursor ed) (ed_text ed))),
      ed_cursor ed - line_start (ed_text ed) (ed_cursor ed))"

section \<open>The two scans in closed form\<close>

abbreviation not_nl :: "char \<Rightarrow> bool" where "not_nl c \<equiv> c \<noteq> newline"

abbreviation newlines :: "cstring \<Rightarrow> nat" where
  "newlines s \<equiv> length (filter (\<lambda>c. c = newline) s)"

lemma line_start_eq:
  "n \<le> length t \<Longrightarrow> line_start t n = n - length (takeWhile not_nl (rev (take n t)))"
proof (induction n)
  case (Suc n)
  moreover have "length (takeWhile not_nl (rev (take n t))) \<le> n"
    by (metis length_rev length_take length_takeWhile_le min.absorb2 min.cobounded2 Suc.prems Suc_leD)
  ultimately show ?case by (auto simp: take_Suc_conv_app_nth Suc_diff_le)
qed simp

lemma line_start_le [simp]: "line_start t n \<le> n"
  by (induction n) auto

lemma line_end_eq: "line_end t off = off + length (takeWhile not_nl (drop off t))"
proof (induction t off rule: line_end.induct)
  case (1 t off)
  show ?case
  proof (cases "off < length t")
    case True
    then have "drop off t = t ! off # drop (Suc off) t" by (simp add: Cons_nth_drop_Suc)
    with True 1 show ?thesis by (simp add: line_end.simps [of t off])
  next
    case False
    then show ?thesis by (simp add: line_end.simps [of t off])
  qed
qed

lemma line_end_bound [simp]: "off \<le> length t \<Longrightarrow> line_end t off \<le> length t"
  by (metis add_le_cancel_left length_drop length_takeWhile_le le_add_diff_inverse line_end_eq)

lemma skip_blank_eq: "skip_blank t at = at + length (takeWhile blank (drop at t))"
proof (induction t at rule: skip_blank.induct)
  case (1 t at)
  show ?case
  proof (cases "at < length t")
    case True
    then have "drop at t = t ! at # drop (Suc at) t" by (simp add: Cons_nth_drop_Suc)
    with True 1 show ?thesis by (simp add: skip_blank.simps [of t at])
  next
    case False
    then show ?thesis by (simp add: skip_blank.simps [of t at])
  qed
qed

lemma skip_blank_bound [simp]: "at \<le> length t \<Longrightarrow> skip_blank t at \<le> length t"
  by (metis add_le_cancel_left length_drop length_takeWhile_le le_add_diff_inverse skip_blank_eq)

lemma blank_not_newline [simp]: "\<not> blank newline"
  by (simp add: blank_def)

section \<open>The text as lines\<close>

text \<open>The specification the line operations are proved against.\<close>

fun lines_of :: "cstring \<Rightarrow> cstring list" where
  "lines_of [] = [[]]"
| "lines_of (c # cs) =
     (if c = newline then [] # lines_of cs
      else (c # hd (lines_of cs)) # tl (lines_of cs))"

lemma lines_of_not_Nil [simp]: "lines_of t \<noteq> []"
  by (cases t) auto

lemma hd_lines_of: "hd (lines_of t) = takeWhile not_nl t"
  by (induction t) auto

lemma nth0_lines_of [simp]: "lines_of t ! 0 = takeWhile not_nl t"
  by (metis hd_conv_nth hd_lines_of lines_of_not_Nil)

lemma length_lines_of [simp]: "length (lines_of t) = Suc (newlines t)"
  by (induction t) auto

lemma lines_of_no_nl: "newline \<notin> set y \<Longrightarrow> lines_of y = [y]"
  by (induction y) auto

lemma lines_of_append: "lines_of (x @ newline # y) = lines_of x @ lines_of y"
  by (induction x) auto

lemma takeWhile_append_nl: "newline \<notin> set y \<Longrightarrow> takeWhile not_nl (y @ newline # r) = y"
  by (induction y) auto

lemma takeWhile_rev_nl:
  "newline \<notin> set y \<Longrightarrow> x = [] \<or> last x = newline \<Longrightarrow> takeWhile not_nl (rev (x @ y)) = rev y"
  by (cases x rule: rev_cases) (auto simp: takeWhile_append_nl [of "rev y"] takeWhile_eq_all_conv)

text \<open>A text cut at the start of the line an offset is on.\<close>

definition at_line :: "cstring \<Rightarrow> cstring \<Rightarrow> cstring \<Rightarrow> cstring \<Rightarrow> bool" where
  "at_line x y z t \<longleftrightarrow> t = x @ y @ z \<and> newline \<notin> set y \<and> (x = [] \<or> last x = newline)"

lemma at_line_exists:
  assumes "n \<le> length t"
  shows "\<exists>x y z. at_line x y z t \<and> length x + length y = n"
proof -
  define y where "y = rev (takeWhile not_nl (rev (take n t)))"
  define x where "x = rev (dropWhile not_nl (rev (take n t)))"
  have "take n t = x @ y"
    by (simp add: x_def y_def flip: rev_append)
  then have "t = x @ y @ drop n t" by (metis append.assoc append_take_drop_id)
  moreover have "newline \<notin> set y" by (auto simp: y_def dest: set_takeWhileD)
  moreover have "x = [] \<or> last x = newline"
    using hd_dropWhile [of not_nl "rev (take n t)"] by (auto simp: x_def last_rev)
  moreover have "length x + length y = n"
    using \<open>take n t = x @ y\<close> assms by (metis length_append length_take min.absorb2)
  ultimately show ?thesis unfolding at_line_def by blast
qed

lemma line_start_at_line:
  assumes "at_line x y z t"
  shows "line_start t (length x + length y) = length x"
proof -
  have "take (length x + length y) t = x @ y" using assms by (simp add: at_line_def)
  then show ?thesis using assms
    by (subst line_start_eq) (auto simp: at_line_def takeWhile_rev_nl simp del: rev_append)
qed

lemma where_at_line:
  assumes "at_line x y z (ed_text ed)" "ed_cursor ed = length x + length y"
  shows "qdos_editor_where ed = (newlines x, length y)"
proof -
  have "filter (\<lambda>c. c = newline) y = []"
    using assms(1) by (auto simp: at_line_def filter_empty_conv)
  then show ?thesis
    using assms line_start_at_line [OF assms(1)] by (simp add: qdos_editor_where_def at_line_def)
qed

lemma at_lineI:
  "newline \<notin> set y \<Longrightarrow> at_line (x @ [newline]) y z (x @ newline # y @ z)"
  by (simp add: at_line_def)

lemma nth_lines_at_line:
  assumes "at_line x y z t" "z = [] \<or> hd z = newline"
  shows "newlines x < length (lines_of t) \<and> lines_of t ! newlines x = y"
proof -
  have tail: "lines_of (y @ z) ! 0 = y"
    using assms by (cases z) (auto simp: at_line_def lines_of_no_nl takeWhile_append_nl)
  show ?thesis
  proof (cases x rule: rev_cases)
    case Nil
    then show ?thesis using tail assms(1) by (simp add: at_line_def)
  next
    case (snoc xs c)
    then have t: "t = xs @ newline # (y @ z)" and c: "c = newline"
      using assms(1) by (auto simp: at_line_def)
    from snoc c have "newlines x = length (lines_of xs)" by simp
    then show ?thesis using tail
      unfolding t lines_of_append by (simp add: nth_append)
  qed
qed

section \<open>The invariant\<close>

definition editor_inv :: "editor \<Rightarrow> bool" where
  "editor_inv ed \<longleftrightarrow>
     length (ed_text ed) < QDOS_PROGRAM_MAX \<and> ed_cursor ed \<le> length (ed_text ed) \<and>
     length (ed_undo_text ed) < QDOS_PROGRAM_MAX \<and> ed_undo_cursor ed \<le> length (ed_undo_text ed) \<and>
     length (ed_name ed) < QDOS_PROGRAM_NAME_MAX"

named_theorems editor_defs "definitions the invariant proofs unfold"

lemmas editor_state_defs [editor_defs] =
  editor_inv_def checkpoint_def put_char_def delete_back_def Let_def

lemma inv_checkpoint [inv_intros]: "editor_inv ed \<Longrightarrow> editor_inv (checkpoint op ed)"
  by (auto simp: editor_defs)

lemma inv_last_op [inv_intros]: "editor_inv ed \<Longrightarrow> editor_inv (ed\<lparr>ed_last_op := op\<rparr>)"
  by (auto simp: editor_defs)

lemma inv_cursor [inv_intros]:
  "editor_inv ed \<Longrightarrow> n \<le> length (ed_text ed) \<Longrightarrow> editor_inv (ed\<lparr>ed_cursor := n\<rparr>)"
  by (auto simp: editor_defs)

lemma inv_put_char [inv_intros]: "editor_inv ed \<Longrightarrow> editor_inv (put_char ch ed)"
  by (auto simp: editor_defs)

lemma inv_delete_back [inv_intros]: "editor_inv ed \<Longrightarrow> 0 < ed_cursor ed \<Longrightarrow> editor_inv (delete_back ed)"
  by (auto simp: editor_defs)

lemma inv_fold_put [inv_intros]:
  "editor_inv ed \<Longrightarrow> editor_inv (fold (\<lambda>i e. put_char (f i e) e) is ed)"
  by (induction "is" arbitrary: ed) (auto intro: inv_intros)

lemma cursor_checkpoint [simp]:
  "ed_cursor (checkpoint op ed) = ed_cursor ed" "ed_text (checkpoint op ed) = ed_text ed"
  "ed_last_op (checkpoint op ed) = op"
  by (auto simp: editor_defs)

lemma inv_open: "editor_inv (qdos_editor_open name src)"
  by (auto simp: editor_inv_def qdos_editor_open_def QDOS_PROGRAM_MAX_def QDOS_PROGRAM_NAME_MAX_def
      Let_def split: option.split)

lemma inv_insert [inv_intros]: "editor_inv ed \<Longrightarrow> editor_inv (qdos_editor_insert ch ed)"
  by (auto simp: qdos_editor_insert_def Let_def intro!: inv_intros)

lemma inv_backspace [inv_intros]: "editor_inv ed \<Longrightarrow> editor_inv (qdos_editor_backspace ed)"
  by (auto simp: qdos_editor_backspace_def intro!: inv_intros)

lemma inv_newline [inv_intros]: "editor_inv ed \<Longrightarrow> editor_inv (qdos_editor_newline ed)"
  by (auto simp: qdos_editor_newline_def Let_def intro!: inv_intros)

lemma inv_undo [inv_intros]: "editor_inv ed \<Longrightarrow> editor_inv (snd (qdos_editor_undo ed))"
  by (auto simp: editor_inv_def qdos_editor_undo_def)

lemma goto_line_bound [simp]: "at \<le> length t \<Longrightarrow> goto_line t n at \<le> length t"
  by (induction n arbitrary: at) (auto simp: Let_def Suc_le_eq)

lemma inv_goto [inv_intros]: "editor_inv ed \<Longrightarrow> editor_inv (qdos_editor_goto line ed)"
  by (auto simp: qdos_editor_goto_def editor_inv_def)

text \<open>Every offset \<open>qdos_editor_move\<close> computes stays inside the text.\<close>

lemma inv_move_x [inv_intros]: "editor_inv ed \<Longrightarrow> editor_inv (move_x dx ed)"
  by (auto simp: move_x_def editor_inv_def)

lemma inv_move_up [inv_intros]:
  assumes "editor_inv ed"
  shows "editor_inv (move_up ed)"
proof -
  let ?s = "line_start (ed_text ed) (ed_cursor ed)"
  let ?p = "line_start (ed_text ed) (?s - Suc 0)"
  have "?s \<le> ed_cursor ed" "?p \<le> ?s - Suc 0" by (rule line_start_le)+
  then have "?p + (?s - Suc ?p) \<le> ed_cursor ed" by arith
  then show ?thesis using assms by (auto simp: move_up_def Let_def editor_inv_def)
qed

lemma inv_move_down [inv_intros]:
  assumes "editor_inv ed"
  shows "editor_inv (move_down ed)"
proof (cases "line_end (ed_text ed) (ed_cursor ed) < length (ed_text ed)")
  case True
  let ?n = "Suc (line_end (ed_text ed) (ed_cursor ed))"
  have "line_end (ed_text ed) ?n \<le> length (ed_text ed)" using True by (intro line_end_bound) simp
  moreover have "?n \<le> line_end (ed_text ed) ?n" by (simp add: line_end_eq)
  ultimately show ?thesis using assms by (auto simp: move_down_def Let_def intro!: inv_cursor)
next
  case False
  then show ?thesis using assms by (simp add: move_down_def Let_def)
qed

lemma inv_move [inv_intros]: "editor_inv ed \<Longrightarrow> editor_inv (qdos_editor_move dx dy ed)"
  by (auto simp: qdos_editor_move_def Let_def intro!: inv_intros)

datatype editor_cmd =
  Insert char | Backspace | Newline | Undo | Goto nat | Move int int

fun editor_step :: "editor_cmd \<Rightarrow> editor \<Rightarrow> editor" where
  "editor_step (Insert ch) ed = qdos_editor_insert ch ed"
| "editor_step Backspace ed = qdos_editor_backspace ed"
| "editor_step Newline ed = qdos_editor_newline ed"
| "editor_step Undo ed = snd (qdos_editor_undo ed)"
| "editor_step (Goto line) ed = qdos_editor_goto line ed"
| "editor_step (Move dx dy) ed = qdos_editor_move dx dy ed"

lemma inv_step [inv_intros]: "editor_inv ed \<Longrightarrow> editor_inv (editor_step cmd ed)"
  by (cases cmd) (auto intro: inv_intros)

lemma inv_run: "editor_inv ed \<Longrightarrow> editor_inv (fold editor_step cmds ed)"
  by (induction cmds arbitrary: ed) (auto intro: inv_intros)

text \<open>
  C2. Whatever keys arrive, and in whatever order, the editor stays inside its buffers: the text
  and its undo copy are shorter than \<open>QDOS_PROGRAM_MAX\<close> (so the terminator fits), both cursors
  point into their texts, and the name fits its field.
\<close>

theorem editor_always_in_bounds:
  "editor_inv (fold editor_step cmds (qdos_editor_open name source))"
  by (rule inv_run [OF inv_open])

section \<open>Undo\<close>

lemma undo_fields_put [simp]:
  "ed_undo_text (put_char ch ed) = ed_undo_text ed" "ed_undo_cursor (put_char ch ed) = ed_undo_cursor ed"
  "ed_can_undo (put_char ch ed) = ed_can_undo ed" "ed_last_op (put_char ch ed) = ed_last_op ed"
  by (auto simp: put_char_def)

lemma undo_fields_delete [simp]:
  "ed_undo_text (delete_back ed) = ed_undo_text ed" "ed_undo_cursor (delete_back ed) = ed_undo_cursor ed"
  "ed_can_undo (delete_back ed) = ed_can_undo ed" "ed_last_op (delete_back ed) = ed_last_op ed"
  by (auto simp: delete_back_def)

text \<open>What the undo copy holds: the given text and cursor, in a run of the given kind.\<close>

definition holds_undo :: "cstring \<Rightarrow> nat \<Rightarrow> edit_op \<Rightarrow> editor \<Rightarrow> bool" where
  "holds_undo t c op ed \<longleftrightarrow>
     ed_can_undo ed \<and> ed_undo_text ed = t \<and> ed_undo_cursor ed = c \<and> ed_last_op ed = op"

lemma holds_undo_put [simp]: "holds_undo t c op (put_char ch ed) = holds_undo t c op ed"
  by (simp add: holds_undo_def)

lemma holds_undo_delete [simp]: "holds_undo t c op (delete_back ed) = holds_undo t c op ed"
  by (simp add: holds_undo_def)

lemma holds_undo_checkpoint:
  "op \<noteq> ed_last_op ed \<Longrightarrow> holds_undo (ed_text ed) (ed_cursor ed) op (checkpoint op ed)"
  by (simp add: holds_undo_def checkpoint_def Let_def)

lemma holds_undo_checkpoint_run: "holds_undo t c op ed \<Longrightarrow> holds_undo t c op (checkpoint op ed)"
  by (simp add: holds_undo_def checkpoint_def Let_def)

lemma holds_undo_insert:
  "holds_undo t c OP_INSERT (checkpoint OP_INSERT ed) \<Longrightarrow> holds_undo t c OP_INSERT (qdos_editor_insert ch ed)"
  by (simp add: qdos_editor_insert_def Let_def)

lemma holds_undo_inserts:
  "holds_undo t c OP_INSERT ed \<Longrightarrow> holds_undo t c OP_INSERT (fold qdos_editor_insert cs ed)"
  by (induction cs arbitrary: ed) (auto intro: holds_undo_insert holds_undo_checkpoint_run)

lemma undo_restores:
  "holds_undo t c op ed \<Longrightarrow>
   fst (qdos_editor_undo ed) \<and> ed_text (snd (qdos_editor_undo ed)) = t \<and> ed_cursor (snd (qdos_editor_undo ed)) = c"
  by (simp add: holds_undo_def qdos_editor_undo_def)

lemma holds_undo_fold_put:
  "holds_undo t c op (fold (\<lambda>i e. put_char (f i e) e) is ed) = holds_undo t c op ed"
  by (induction "is" arbitrary: ed) auto

text \<open>
  C3. One undo takes back a whole run of typing: after any number of characters typed one after
  another (closing braces that take an indent back among them), undo restores the text and the
  cursor as they were before the first.
\<close>

theorem undo_takes_back_typing_run:
  assumes "ed_last_op ed \<noteq> OP_INSERT" and "cs \<noteq> []"
  shows "fst (qdos_editor_undo (fold qdos_editor_insert cs ed)) \<and>
    ed_text (snd (qdos_editor_undo (fold qdos_editor_insert cs ed))) = ed_text ed \<and>
    ed_cursor (snd (qdos_editor_undo (fold qdos_editor_insert cs ed))) = ed_cursor ed"
proof -
  obtain ch rest where cs: "cs = ch # rest" using assms(2) by (cases cs) auto
  have "holds_undo (ed_text ed) (ed_cursor ed) OP_INSERT (checkpoint OP_INSERT ed)"
    using assms(1) by (intro holds_undo_checkpoint) simp
  then show ?thesis unfolding cs fold_simps comp_apply
    by (intro undo_restores [where op = OP_INSERT] holds_undo_inserts holds_undo_insert)
qed

lemma undo_takes_back_typing_run_witness:
  "ed_text (snd (qdos_editor_undo (fold qdos_editor_insert ''ab'' (qdos_editor_open ''p'' (Some ''x''))))) = ''x''"
proof -
  have "ed_last_op (qdos_editor_open ''p'' (Some ''x'')) \<noteq> OP_INSERT"
    and "ed_text (qdos_editor_open ''p'' (Some ''x'')) = ''x''" by code_simp+
  then show ?thesis using undo_takes_back_typing_run [of "qdos_editor_open ''p'' (Some ''x'')" "''ab''"]
    by (simp only: list.distinct simp_thms)
qed

text \<open>
  Enter is an undo step of its own even in the middle of typing: undo after it restores the
  text and cursor from just before it, the indent and the tab after an opening brace included,
  and a second undo is a redo.
\<close>

theorem newline_is_one_undo_step:
  "ed_text (snd (qdos_editor_undo (qdos_editor_newline ed))) = ed_text ed \<and>
   ed_cursor (snd (qdos_editor_undo (qdos_editor_newline ed))) = ed_cursor ed \<and>
   ed_text (snd (qdos_editor_undo (snd (qdos_editor_undo (qdos_editor_newline ed)))))
     = ed_text (qdos_editor_newline ed) \<and>
   ed_cursor (snd (qdos_editor_undo (snd (qdos_editor_undo (qdos_editor_newline ed)))))
     = ed_cursor (qdos_editor_newline ed)"
proof -
  have "holds_undo (ed_text ed) (ed_cursor ed) OP_INSERT
          (checkpoint OP_INSERT (ed\<lparr>ed_last_op := OP_NONE\<rparr>))"
    using holds_undo_checkpoint [of OP_INSERT "ed\<lparr>ed_last_op := OP_NONE\<rparr>"] by simp
  then have "holds_undo (ed_text ed) (ed_cursor ed) OP_INSERT (qdos_editor_newline ed)"
    by (simp add: qdos_editor_newline_def Let_def holds_undo_fold_put)
  then show ?thesis by (simp add: holds_undo_def qdos_editor_undo_def)
qed

section \<open>Lines\<close>

text \<open>The walk of \<open>goto\<close> and \<open>qdos_editor_line\<close> from the start of one line to the next.\<close>

lemma line_end_step:
  assumes "at_line x [] z t" "newline \<in> set z"
  shows "line_end t (length x) < length t \<and>
    (\<exists>z'. at_line (take (Suc (line_end t (length x))) t) [] z' t) \<and>
    newlines (take (Suc (line_end t (length x))) t) = Suc (newlines x) \<and>
    drop (Suc (line_end t (length x))) t = tl (dropWhile not_nl z)"
proof -
  obtain u v where z: "z = u @ newline # v" and u: "newline \<notin> set u"
    using assms(2) by (metis split_list_first)
  have t: "t = x @ u @ newline # v" using assms(1) z by (simp add: at_line_def)
  have e: "line_end t (length x) = length x + length u"
    using u by (simp add: line_end_eq t takeWhile_append_nl)
  have "filter (\<lambda>c. c = newline) u = []" using u by (auto simp: filter_empty_conv)
  moreover have "dropWhile not_nl z = newline # v" using u z by (induction u arbitrary: z) auto
  ultimately show ?thesis using assms(1) unfolding e by (auto simp: t at_line_def)
qed

lemma lines_of_dropWhile: "newline \<in> set z \<Longrightarrow> tl (lines_of z) = lines_of (tl (dropWhile not_nl z))"
  by (induction z) auto


lemma takeWhile_no_nl: "newline \<notin> set z \<Longrightarrow> takeWhile not_nl z = z"
  by (induction z) auto

lemma nth_line_spec:
  "at_line x [] z t \<Longrightarrow>
   (if n < length (lines_of z)
    then \<exists>x' z'. at_line x' [] z' t \<and> nth_line t n (length x) = Some (length x') \<and>
           newlines x' = newlines x + n \<and> lines_of z' ! 0 = lines_of z ! n
    else nth_line t n (length x) = None)"
proof (induction n arbitrary: x z)
  case 0
  then show ?case by auto
next
  case (Suc n)
  let ?x = "take (Suc (line_end t (length x))) t"
  show ?case
  proof (cases "newline \<in> set z")
    case True
    obtain z' where at: "at_line ?x [] z' t" and nl: "newlines ?x = Suc (newlines x)"
      and len: "line_end t (length x) < length t" "length ?x = Suc (line_end t (length x))"
      and drop: "drop (Suc (line_end t (length x))) t = tl (dropWhile not_nl z)"
      using line_end_step [OF Suc.prems True] by auto
    have "z' = drop (length ?x) t" using at unfolding at_line_def by (metis append_Nil append_eq_conv_conj)
    then have "lines_of z' = tl (lines_of z)"
      using drop lines_of_dropWhile [OF True] len(2) by simp
    then show ?thesis using Suc.IH [OF at] nl len by (auto simp: Let_def nth_tl)
  next
    case False
    then have "line_end t (length x) \<ge> length t" "newlines z = 0"
      using Suc.prems by (auto simp: line_end_eq at_line_def takeWhile_no_nl filter_empty_conv)
    then show ?thesis by (simp add: Let_def)
  qed
qed

lemma goto_line_spec:
  "at_line x [] z t \<Longrightarrow> goto_line t n (length x) =
     (case nth_line t n (length x) of Some at \<Rightarrow> at | None \<Rightarrow> length t)"
proof (induction n arbitrary: x z)
  case (Suc n)
  let ?x = "take (Suc (line_end t (length x))) t"
  show ?case
  proof (cases "newline \<in> set z")
    case True
    from line_end_step [OF Suc.prems True] obtain z' where "at_line ?x [] z' t"
      and "line_end t (length x) < length t" "length ?x = Suc (line_end t (length x))" by auto
    moreover from this(2) have "length x < length t" by (simp add: line_end_eq)
    ultimately show ?thesis using Suc.IH [of ?x z'] by (simp add: Let_def)
  next
    case False
    then have "line_end t (length x) = length t" "length x \<le> length t"
      using Suc.prems by (auto simp: line_end_eq at_line_def takeWhile_no_nl)
    moreover have "goto_line t n (length t) = length t" by (cases n) auto
    ultimately show ?thesis by (auto simp: Let_def)
  qed
qed simp

lemma at_line_Nil: "at_line [] [] t t"
  by (simp add: at_line_def)

text \<open>
  C5. The lines the editor shows are the text split at its newlines: there are as many as
  \<open>qdos_editor_lines\<close> counts, each one \<open>qdos_editor_line\<close> returns is that line's bytes in place,
  and past the last it returns nothing.
\<close>

theorem editor_lines_split_text:
  "qdos_editor_lines ed = length (lines_of (ed_text ed)) \<and>
   (case qdos_editor_line i ed of
      Some (at, len) \<Rightarrow> i < qdos_editor_lines ed \<and> take len (drop at (ed_text ed)) = lines_of (ed_text ed) ! i
    | None \<Rightarrow> qdos_editor_lines ed \<le> i)"
proof -
  let ?t = "ed_text ed"
  have lines: "qdos_editor_lines ed = length (lines_of ?t)" by (simp add: qdos_editor_lines_def)
  note spec = nth_line_spec [OF at_line_Nil, of i ?t]
  show ?thesis
  proof (cases "i < length (lines_of ?t)")
    case True
    then obtain x z where at: "at_line x [] z ?t" and nth: "nth_line ?t i 0 = Some (length x)"
      and line: "lines_of z ! 0 = lines_of ?t ! i" using spec by auto
    have "drop (length x) ?t = z" using at by (simp add: at_line_def)
    then have e: "line_end ?t (length x) - length x = length (takeWhile not_nl z)"
      by (simp add: line_end_eq)
    have "take (length (takeWhile not_nl z)) z = takeWhile not_nl z"
      by (metis takeWhile_eq_take)
    then have "take (line_end ?t (length x) - length x) (drop (length x) ?t) = lines_of ?t ! i"
      using e line \<open>drop (length x) ?t = z\<close> by simp
    then show ?thesis using True nth lines by (simp only: qdos_editor_line_def option.case prod.case simp_thms)
  next
    case False
    then show ?thesis using spec lines by (simp add: qdos_editor_line_def)
  qed
qed

text \<open>
  C6. \<open>goto\<close> puts the cursor on the line asked for, at its first character that is not a blank;
  a line past the end puts it at the end of the text.
\<close>

theorem goto_lands_on_line:
  "if line < qdos_editor_lines ed
   then qdos_editor_where (qdos_editor_goto line ed) =
          (line, length (takeWhile blank (lines_of (ed_text ed) ! line)))
   else ed_cursor (qdos_editor_goto line ed) = length (ed_text ed)"
proof -
  let ?t = "ed_text ed"
  note spec = nth_line_spec [OF at_line_Nil, of line ?t] and go = goto_line_spec [OF at_line_Nil, of ?t line]
  show ?thesis
  proof (cases "line < length (lines_of ?t)")
    case True
    then obtain x z where at: "at_line x [] z ?t" and nth: "nth_line ?t line 0 = Some (length x)"
      and nl: "newlines x = line" and ln: "lines_of z ! 0 = lines_of ?t ! line" using spec by auto
    let ?b = "takeWhile blank z"
    have "?b = takeWhile blank (takeWhile not_nl z)"
      by (induction z) (auto simp: blank_def)
    then have b: "?b = takeWhile blank (lines_of ?t ! line)" using ln by simp
    have "newline \<notin> set ?b" by (auto dest: set_takeWhileD)
    then have "at_line x ?b (dropWhile blank z) ?t" using at by (simp add: at_line_def)
    moreover have "skip_blank ?t (length x) = length x + length ?b"
      using at by (simp add: skip_blank_eq at_line_def)
    ultimately show ?thesis
      using where_at_line [of x ?b _ "qdos_editor_goto line ed"] nth go nl b True
      by (simp add: qdos_editor_goto_def qdos_editor_lines_def)
  next
    case False
    then have "goto_line ?t line 0 = length ?t" using spec go by simp
    then show ?thesis using False by (simp add: qdos_editor_goto_def qdos_editor_lines_def skip_blank_eq)
  qed
qed

lemma move_down_where:
  assumes "at_line x y z (ed_text ed)" "ed_cursor ed = length x + length y"
  shows "if newline \<in> set z
    then qdos_editor_where (move_down ed) = (Suc (newlines x),
           min (length y) (length (lines_of (ed_text ed) ! Suc (newlines x))))
    else move_down ed = ed"
proof (cases "newline \<in> set z")
  case True
  then obtain u v where z: "z = u @ newline # v" and u: "newline \<notin> set u"
    by (metis split_list_first)
  let ?x = "x @ y @ u @ [newline]" and ?w = "takeWhile not_nl v"
  have t: "ed_text ed = ?x @ v" using assms(1) z by (simp add: at_line_def)
  have nl: "newlines ?x = Suc (newlines x)"
    using assms(1) u by (auto simp: at_line_def filter_empty_conv)
  have line: "lines_of (ed_text ed) ! Suc (newlines x) = ?w"
  proof -
    have "lines_of (ed_text ed) = lines_of (x @ y @ u) @ lines_of v"
      using lines_of_append [of "x @ y @ u" v] t by simp
    then show ?thesis using nl by (simp add: nth_append)
  qed
  have e: "line_end (ed_text ed) (ed_cursor ed) = length (x @ y @ u)"
    using assms(1,2) u z by (simp add: line_end_eq at_line_def takeWhile_append_nl)
  have e2: "line_end (ed_text ed) (Suc (length (x @ y @ u))) = length ?x + length ?w"
    using t by (simp add: line_end_eq)
  let ?m = "min (length y) (length ?w)"
  have cur: "move_down ed = ed\<lparr>ed_cursor := length ?x + ?m\<rparr>"
    using e e2 t line_start_at_line [OF assms(1)] assms(2)
    by (simp add: move_down_def Let_def if_less_min)
  have len: "?m \<le> length v"
    using length_takeWhile_le [of not_nl v] by (auto simp: min_def)
  have "take ?m v = take ?m ?w" by (rule take_takeWhile [symmetric]) simp
  moreover have "newline \<notin> set (take ?m ?w)" by (auto dest!: in_set_takeD dest: set_takeWhileD)
  ultimately have "newline \<notin> set (take ?m v)" by (simp only: not_False_eq_True)
  then have "at_line ?x (take ?m v) (drop ?m v) (ed_text (move_down ed))"
    using t cur by (simp add: at_line_def)
  then have "qdos_editor_where (move_down ed) = (newlines ?x, length (take ?m v))"
    using cur len by (intro where_at_line) auto
  then show ?thesis using True nl line len by simp
next
  case False
  then have "line_end (ed_text ed) (ed_cursor ed) = length (ed_text ed)"
    using assms by (auto simp: line_end_eq at_line_def takeWhile_no_nl)
  then show ?thesis using False by (simp add: move_down_def Let_def)
qed

lemma move_up_where:
  assumes "at_line x y z (ed_text ed)" "ed_cursor ed = length x + length y"
  shows "if x \<noteq> []
    then qdos_editor_where (move_up ed) = (newlines x - 1,
           min (length y) (length (lines_of (ed_text ed) ! (newlines x - 1))))
    else move_up ed = ed"
proof (cases x rule: rev_cases)
  case Nil
  then show ?thesis using assms line_start_at_line [OF assms(1)] by (simp add: move_up_def)
next
  case (snoc xs c)
  then have c: "c = newline" using assms(1) by (auto simp: at_line_def)
  obtain x' w r where at: "at_line x' w r xs" and len: "length x' + length w = length xs"
    using at_line_exists [of "length xs" xs] by auto
  then have xs: "xs = x' @ w" and w: "newline \<notin> set w" "x' = [] \<or> last x' = newline"
    by (auto simp: at_line_def)
  have at': "at_line x' w (newline # y @ z) (ed_text ed)"
    using assms(1) snoc c xs w by (simp add: at_line_def)
  have nl: "newlines x - 1 = newlines x'" using snoc c xs w by (auto simp: filter_empty_conv)
  have line: "lines_of (ed_text ed) ! (newlines x - 1) = w"
    using nth_lines_at_line [OF at'] nl by simp
  let ?m = "min (length y) (length w)"
  have cur: "move_up ed = ed\<lparr>ed_cursor := length x' + ?m\<rparr>"
    using snoc xs line_start_at_line [OF assms(1)] line_start_at_line [OF at'] assms(2)
    by (simp add: move_up_def Let_def if_less_min)
  have "newline \<notin> set (take ?m w)" using w(1) by (meson in_set_takeD)
  then have "at_line x' (take ?m w) (drop ?m w @ newline # y @ z) (ed_text (move_up ed))"
    using at' cur by (simp add: at_line_def)
  then have "qdos_editor_where (move_up ed) = (newlines x', length (take ?m w))"
    using cur by (intro where_at_line) auto
  then show ?thesis using snoc nl line by simp
qed

text \<open>
  Moving down or up a line goes to the next or the previous one and keeps the column, or stops
  at the end of a line too short for it; from the last line down, or the first up, nothing moves.
\<close>

theorem vertical_move_keeps_column:
  assumes "editor_inv ed" and "qdos_editor_where ed = (line, col)"
  shows "(if Suc line < qdos_editor_lines ed
          then qdos_editor_where (qdos_editor_move 0 1 ed) =
                 (Suc line, min col (length (lines_of (ed_text ed) ! Suc line)))
          else qdos_editor_where (qdos_editor_move 0 1 ed) = (line, col)) \<and>
    (if 0 < line
     then qdos_editor_where (qdos_editor_move 0 (-1) ed) =
            (line - 1, min col (length (lines_of (ed_text ed) ! (line - 1))))
     else qdos_editor_where (qdos_editor_move 0 (-1) ed) = (line, col))"
proof -
  let ?ed = "ed\<lparr>ed_last_op := OP_NONE\<rparr>"
  obtain x y z where at: "at_line x y z (ed_text ed)" and cur: "ed_cursor ed = length x + length y"
    using at_line_exists [of "ed_cursor ed" "ed_text ed"] assms(1) by (auto simp: editor_inv_def)
  have wh: "newlines x = line" "length y = col" using where_at_line [OF at cur] assms(2) by auto
  have same: "qdos_editor_where ?ed = (line, col)"
    using assms(2) by (simp add: qdos_editor_where_def)
  have y: "filter (\<lambda>c. c = newline) y = []" using at by (auto simp: at_line_def filter_empty_conv)
  have down: "Suc line < qdos_editor_lines ed \<longleftrightarrow> newline \<in> set z"
    using at wh y by (auto simp: qdos_editor_lines_def at_line_def filter_empty_conv)
  have up: "0 < line \<longleftrightarrow> x \<noteq> []"
    using at wh by (cases x rule: rev_cases) (auto simp: at_line_def)
  have "qdos_editor_move 0 1 ed = move_down ?ed" "qdos_editor_move 0 (-1) ed = move_up ?ed"
    by (simp_all add: qdos_editor_move_def move_x_def)
  then show ?thesis
    using move_down_where [of x y z ?ed] move_up_where [of x y z ?ed] at cur wh same down up
    by (auto split: if_splits)
qed

lemma vertical_move_keeps_column_witness:
  "qdos_editor_where (qdos_editor_move 0 1
     (qdos_editor_goto 0 (qdos_editor_open ''p'' (Some [CHR ''a'', newline, CHR ''b''])))) = (1, 0)"
proof -
  let ?ed = "qdos_editor_goto 0 (qdos_editor_open ''p'' (Some [CHR ''a'', newline, CHR ''b'']))"
  have "editor_inv ?ed" by (intro inv_goto inv_open)
  moreover have "qdos_editor_where ?ed = (0, 0)" "qdos_editor_lines ?ed = 2" by code_simp+
  ultimately show ?thesis using vertical_move_keeps_column [of ?ed 0 0] by simp
qed

section \<open>Typing and deleting\<close>

text \<open>
  Typing a character puts it at the cursor and moves past it, and backspace then takes it
  away again, leaving text and cursor as they were; with the buffer full the key does nothing to the text.
  (A closing brace is the one key that may also take a tab back.)
\<close>

theorem backspace_undoes_insert:
  assumes "editor_inv ed" and "ch \<noteq> CHR ''}''"
  shows "if length (ed_text ed) + 1 < QDOS_PROGRAM_MAX
    then ed_text (qdos_editor_insert ch ed) = insert_at (ed_cursor ed) [ch] (ed_text ed) \<and>
         ed_cursor (qdos_editor_insert ch ed) = Suc (ed_cursor ed) \<and>
         ed_text (qdos_editor_backspace (qdos_editor_insert ch ed)) = ed_text ed \<and>
         ed_cursor (qdos_editor_backspace (qdos_editor_insert ch ed)) = ed_cursor ed
    else ed_text (qdos_editor_insert ch ed) = ed_text ed \<and> ed_cursor (qdos_editor_insert ch ed) = ed_cursor ed"
proof -
  have ins: "qdos_editor_insert ch ed = put_char ch (checkpoint OP_INSERT ed)"
    using assms(2) by (simp add: qdos_editor_insert_def Let_def)
  have "ed_cursor ed \<le> length (ed_text ed)" using assms(1) by (simp add: editor_inv_def)
  then show ?thesis unfolding ins
    by (auto simp: qdos_editor_backspace_def put_char_def delete_back_def)
qed

lemma backspace_undoes_insert_witness:
  "ed_text (qdos_editor_backspace (qdos_editor_insert (CHR ''a'') (qdos_editor_open ''p'' (Some ''xy'')))) = ''xy''"
proof -
  let ?ed = "qdos_editor_open ''p'' (Some ''xy'')"
  have "length (ed_text ?ed) + 1 < QDOS_PROGRAM_MAX" "ed_text ?ed = ''xy''" by code_simp+
  then show ?thesis using backspace_undoes_insert [OF inv_open [of "''p''" "Some ''xy''"], of "CHR ''a''"] by simp
qed

text \<open>
  A closing brace typed where the line so far is only blanks and ends in a tab takes that tab
  back and goes in its place, one level of indent out.
\<close>

theorem closing_brace_dedents:
  assumes "at_line x (b @ [tab]) z (ed_text ed)" and "ed_cursor ed = length x + length b + 1"
    and "list_all blank b" and "length (ed_text ed) < QDOS_PROGRAM_MAX"
  shows "ed_text (qdos_editor_insert (CHR ''}'') ed) = x @ b @ CHR ''}'' # z \<and>
    ed_cursor (qdos_editor_insert (CHR ''}'') ed) = length x + length b + 1"
proof -
  have t: "ed_text ed = x @ (b @ [tab]) @ z" using assms(1) by (simp add: at_line_def)
  have st: "line_start (ed_text ed) (ed_cursor ed) = length x"
    using line_start_at_line [OF assms(1)] assms(2) by (simp add: add.assoc)
  have "char_at (ed_text ed) (length x + i) = (b @ [tab]) ! i" if "i < length (b @ [tab])" for i
    using that t by (simp add: char_at_def nth_append)
  moreover have "blank c" if "c \<in> set (b @ [tab])" for c
    using that assms(3) by (auto simp: list_all_iff blank_def)
  ultimately have bl: "blank (char_at (ed_text ed) (length x + i))" if "i < length (b @ [tab])" for i
    using that by (metis nth_mem)
  have "only_blank_before ed"
    unfolding only_blank_before_def st list_all_iff
    using bl assms(2) by (auto simp: le_iff_add)
  moreover have "char_at (ed_text ed) (length x + length b) = tab" using t by (simp add: char_at_def nth_append)
  moreover have "delete_before (Suc (length x + length b)) (ed_text ed) = x @ b @ z"
    by (simp add: delete_before_def t)
  moreover have "only_blank_before (checkpoint OP_INSERT ed) = only_blank_before ed"
    by (simp add: only_blank_before_def)
  ultimately show ?thesis using assms(2,4) t
    by (simp add: qdos_editor_insert_def Let_def put_char_def delete_back_def insert_at_def)
qed

lemma closing_brace_dedents_witness:
  "ed_text (qdos_editor_insert (CHR ''}'') (qdos_editor_goto 1 (qdos_editor_open ''p'' (Some [CHR ''{'', newline, tab]))))
     = [CHR ''{'', newline, CHR ''}'']"
proof -
  let ?ed = "qdos_editor_goto 1 (qdos_editor_open ''p'' (Some [CHR ''{'', newline, tab]))"
  have "ed_text ?ed = [CHR ''{'', newline] @ ([] @ [tab]) @ []" "ed_cursor ?ed = 3"
    "length (ed_text ?ed) < QDOS_PROGRAM_MAX" by code_simp+
  then show ?thesis using closing_brace_dedents [of "[CHR ''{'', newline]" "[]" "[]" ?ed]
    by (simp add: at_line_def)
qed

end
