(* ===== verification/StoreName.thy ===== *)
theory StoreName
  imports Base
begin

text \<open>
  Names in the store: which names a store may hold (\<^verbatim>\<open>src/hal/storename.c\<close>), which names a
  program may have and the keys its parts are stored under (\<^verbatim>\<open>src/shell/storage.c\<close>), and
  which paths an upload may write (\<^verbatim>\<open>src/hal/serial_console.c\<close>).

  A function that fills a caller's buffer and returns a \<open>bool\<close> returns the text it left there,
  or \<open>None\<close> for false; \<open>cap\<close> is the size of that buffer.
\<close>

section \<open>Store names\<close>

definition component_ok :: "cstring \<Rightarrow> bool" where
  "component_ok s \<longleftrightarrow> s \<noteq> [] \<and> s \<noteq> ''.'' \<and> s \<noteq> ''..''"

definition qdos_store_name_ok :: "cstring \<Rightarrow> bool" where
  "qdos_store_name_ok name \<longleftrightarrow>
     name \<noteq> [] \<and> find_char (CHR 0x5C) name = None \<and>
     (case find_char (CHR ''/'') name of
        None \<Rightarrow> component_ok name
      | Some i \<Rightarrow>
          find_char (CHR ''/'') (drop (i + 1) name) = None \<and>
          component_ok (take i name) \<and> component_ok (drop (i + 1) name))"

section \<open>Program names and keys\<close>

definition NAME_MAX :: nat where "NAME_MAX = 64"

definition PROGRAM_SUFFIX :: cstring where "PROGRAM_SUFFIX = ''.qd''"
definition MODULE_PREFIX :: cstring where "MODULE_PREFIX = ''lib''"
definition MODULE_SUFFIX :: cstring where "MODULE_SUFFIX = ''.so''"
definition QDOS_APP_MAIN :: cstring where "QDOS_APP_MAIN = ''main.qd''"
definition DIR_MARK :: char where "DIR_MARK = CHR ''/''"

definition program_name_char :: "char \<Rightarrow> bool" where
  "program_name_char c \<longleftrightarrow> is_lower c \<or> is_upper c \<or> is_digit c \<or> c = CHR ''_''"

definition valid_program_name :: "cstring \<Rightarrow> bool" where
  "valid_program_name name \<longleftrightarrow>
     name \<noteq> [] \<and> list_all program_name_char name \<and> length name + length PROGRAM_SUFFIX < NAME_MAX"

text \<open>\<open>snprintf\<close> into a buffer, with the check that it all went in.\<close>

definition fits :: "nat \<Rightarrow> cstring \<Rightarrow> cstring option" where
  "fits cap s = (if s \<noteq> [] \<and> length s < cap then Some s else None)"

definition qdos_program_key :: "cstring \<Rightarrow> nat \<Rightarrow> cstring option" where
  "qdos_program_key name cap =
     (if \<not> valid_program_name name then None else fits cap (name @ PROGRAM_SUFFIX))"

definition qdos_app_key :: "cstring \<Rightarrow> cstring \<Rightarrow> nat \<Rightarrow> cstring option" where
  "qdos_app_key app leaf cap =
     (if \<not> valid_program_name app \<or> leaf = [] then None else fits cap (app @ ''/'' @ leaf))"

definition qdos_app_name :: "cstring \<Rightarrow> nat \<Rightarrow> cstring option" where
  "qdos_app_name entry cap =
     (if length entry < 2 \<or> last entry \<noteq> DIR_MARK \<or> length entry > cap then None
      else if valid_program_name (butlast entry) then Some (butlast entry) else None)"

definition qdos_module_name :: "cstring \<Rightarrow> nat \<Rightarrow> cstring option" where
  "qdos_module_name entry cap =
     (if length entry \<le> length MODULE_PREFIX + length MODULE_SUFFIX then None
      else if \<not> prefix_of MODULE_PREFIX entry then None
      else if \<not> suffix_of MODULE_SUFFIX entry then None
      else
        let stem = length entry - length MODULE_PREFIX - length MODULE_SUFFIX;
            out = take stem (drop (length MODULE_PREFIX) entry)
        in if stem \<ge> cap then None
           else if valid_program_name out then Some out else None)"

definition qdos_module_key :: "cstring \<Rightarrow> nat \<Rightarrow> cstring option" where
  "qdos_module_key name cap =
     (if \<not> valid_program_name name then None else fits cap (MODULE_PREFIX @ name @ MODULE_SUFFIX))"

definition qdos_program_name_ok :: "cstring \<Rightarrow> bool" where
  "qdos_program_name_ok name \<longleftrightarrow> valid_program_name name \<and> \<not> is_digit (char_at name 0)"

section \<open>Keys of values\<close>

definition QDOS_REGISTER_MAX :: int where "QDOS_REGISTER_MAX = 99"

definition qdos_register_key :: "int \<Rightarrow> nat \<Rightarrow> cstring option" where
  "qdos_register_key slot cap =
     (if slot < 0 \<or> slot > QDOS_REGISTER_MAX then None else fits cap (''reg'' @ dec2 (nat slot)))"

definition SESSION_KEY :: cstring where "SESSION_KEY = ''session''"
definition SESSION_LOST_KEY :: cstring where "SESSION_LOST_KEY = ''session.lost''"

definition session_key :: "nat \<Rightarrow> nat \<Rightarrow> cstring option" where
  "session_key index cap = fits cap (SESSION_KEY @ dec2 index)"

section \<open>Upload paths\<close>

definition segment_char :: "char \<Rightarrow> bool" where
  "segment_char c \<longleftrightarrow>
     is_lower c \<or> is_upper c \<or> is_digit c \<or> c = CHR ''.'' \<or> c = CHR ''_'' \<or> c = CHR ''-''"

definition good_segment :: "cstring \<Rightarrow> bool" where
  "good_segment p \<longleftrightarrow>
     \<not> (p = [] \<or> length p > 64 \<or> char_at p 0 = CHR ''.'') \<and> list_all segment_char p"

definition good_path :: "cstring \<Rightarrow> bool" where
  "good_path path =
     (case find_char (CHR ''/'') path of
        None \<Rightarrow> good_segment path
      | Some i \<Rightarrow>
          find_char (CHR ''/'') (drop (i + 1) path) = None \<and>
          good_segment (take i path) \<and> good_segment (drop (i + 1) path))"

section \<open>Lemmas\<close>

lemmas key_defs = qdos_program_key_def qdos_app_key_def qdos_module_key_def qdos_register_key_def
  session_key_def fits_def

lemma program_name_chars:
  "program_name_char c \<Longrightarrow> c \<noteq> CHR ''/'' \<and> c \<noteq> CHR ''.'' \<and> c \<noteq> CHR 0x5C \<and> c \<noteq> nul"
  by (auto simp: program_name_char_def ctype_simps)

lemma segment_chars: "segment_char c \<Longrightarrow> c \<noteq> CHR ''/'' \<and> c \<noteq> CHR 0x5C \<and> c \<noteq> nul"
  by (auto simp: segment_char_def ctype_simps)

lemma valid_program_name_no:
  "valid_program_name n \<Longrightarrow> CHR ''/'' \<notin> set n \<and> CHR ''.'' \<notin> set n \<and> CHR 0x5C \<notin> set n"
  by (auto simp: valid_program_name_def list_all_iff dest: program_name_chars)

lemma component_ok_valid: "valid_program_name n \<Longrightarrow> component_ok n"
  using valid_program_name_no [of n] by (auto simp: component_ok_def valid_program_name_def)

lemma component_ok_segment: "good_segment p \<Longrightarrow> component_ok p"
  by (auto simp: good_segment_def component_ok_def)

lemma good_segment_no: "good_segment p \<Longrightarrow> CHR ''/'' \<notin> set p \<and> CHR 0x5C \<notin> set p"
  by (auto simp: good_segment_def list_all_iff dest: segment_chars)

text \<open>A name with no slash in it, and a folder and a file in it.\<close>

lemma store_name_ok_plain:
  "CHR ''/'' \<notin> set n \<Longrightarrow> CHR 0x5C \<notin> set n \<Longrightarrow> qdos_store_name_ok n = component_ok n"
  by (auto simp: qdos_store_name_ok_def component_ok_def)

lemma store_name_ok_folder:
  assumes "CHR ''/'' \<notin> set a" "CHR ''/'' \<notin> set b" "CHR 0x5C \<notin> set a" "CHR 0x5C \<notin> set b"
  shows "qdos_store_name_ok (a @ CHR ''/'' # b) \<longleftrightarrow> component_ok a \<and> component_ok b"
  using assms by (simp add: qdos_store_name_ok_def find_char_append find_char_None)

lemma good_path_cases:
  assumes "good_path p"
  obtains (plain) "good_segment p" | (folder) a b where "p = a @ CHR ''/'' # b" "good_segment a" "good_segment b"
proof (cases "find_char (CHR ''/'') p")
  case None
  then show ?thesis using assms by (intro plain) (simp add: good_path_def)
next
  case (Some i)
  from find_char_Some [OF this] have "p = take i p @ CHR ''/'' # drop (i + 1) p"
    by (metis Suc_eq_plus1 id_take_nth_drop)
  then show ?thesis using assms folder Some by (simp add: good_path_def)
qed

section \<open>Properties\<close>

text \<open>
  Every path the upload protocol accepts is a name the store accepts, so an upload can
  neither leave the inbox nor make a file the shell cannot read back.
\<close>

theorem upload_path_is_store_name:
  assumes "good_path p"
  shows "qdos_store_name_ok p \<and> \<not> prefix_of ''/'' p \<and> \<not> prefix_of ''.'' p"
  using assms
proof (cases rule: good_path_cases)
  case plain
  then show ?thesis
    using good_segment_no [OF plain] store_name_ok_plain [of p] component_ok_segment [OF plain]
    by (cases p) (auto simp: prefix_of_def good_segment_def)
next
  case (folder a b)
  then show ?thesis
    using good_segment_no [OF folder(2)] good_segment_no [OF folder(3)] store_name_ok_folder [of a b]
      component_ok_segment [OF folder(2)] component_ok_segment [OF folder(3)]
    by (cases a) (auto simp: prefix_of_def good_segment_def)
qed

lemma upload_path_is_store_name_witness: "qdos_store_name_ok ''doom/main.qd''"
proof -
  have "good_path ''doom/main.qd''" by code_simp
  then show ?thesis by (rule upload_path_is_store_name [THEN conjunct1])
qed

lemma program_key_Some: "qdos_program_key n c = Some k \<Longrightarrow> valid_program_name n \<and> k = n @ ''.qd''"
  by (auto simp: key_defs PROGRAM_SUFFIX_def split: if_splits)

lemma app_key_Some: "qdos_app_key a l c = Some k \<Longrightarrow> valid_program_name a \<and> k = a @ CHR ''/'' # l"
  by (auto simp: key_defs split: if_splits)

lemma module_key_Some: "qdos_module_key n c = Some k \<Longrightarrow> valid_program_name n \<and> k = ''lib'' @ n @ ''.so''"
  by (auto simp: key_defs MODULE_PREFIX_def MODULE_SUFFIX_def split: if_splits)

lemma register_key_Some:
  "qdos_register_key i c = Some k \<Longrightarrow> 0 \<le> i \<and> i \<le> 99 \<and> k = ''reg'' @ dec2 (nat i)"
  by (auto simp: key_defs QDOS_REGISTER_MAX_def split: if_splits)

lemma session_key_Some: "session_key i c = Some k \<Longrightarrow> k = ''session'' @ dec2 i"
  by (auto simp: key_defs SESSION_KEY_def split: if_splits)

lemmas keys_Some = program_key_Some app_key_Some module_key_Some register_key_Some session_key_Some

lemma dec2_no: "CHR ''/'' \<notin> set (dec2 n)" "CHR ''.'' \<notin> set (dec2 n)" "CHR 0x5C \<notin> set (dec2 n)"
  by (auto dest!: digits_dec2 simp: ctype_simps)

text \<open>What the store holds, by the key each thing is stored under.\<close>

datatype stored =
  Program cstring | AppFile cstring cstring | Module cstring | Register int | SessionValue nat | SessionLost

fun key_of :: "nat \<Rightarrow> stored \<Rightarrow> cstring option" where
  "key_of cap (Program n) = qdos_program_key n cap"
| "key_of cap (AppFile a l) = qdos_app_key a l cap"
| "key_of cap (Module n) = qdos_module_key n cap"
| "key_of cap (Register i) = qdos_register_key i cap"
| "key_of cap (SessionValue i) = session_key i cap"
| "key_of cap SessionLost = Some SESSION_LOST_KEY"

lemma slash_key: "key_of c x = Some k \<Longrightarrow> CHR ''/'' \<in> set k \<longleftrightarrow> (\<exists>a l. x = AppFile a l)"
  by (cases x) (auto dest!: keys_Some valid_program_name_no simp: dec2_no SESSION_LOST_KEY_def)

text \<open>The part of a key after its first point tells the other kinds apart.\<close>

definition extension :: "cstring \<Rightarrow> cstring" where
  "extension k = dropWhile (\<lambda>c. c \<noteq> CHR ''.'') k"

lemma extension_append: "CHR ''.'' \<notin> set n \<Longrightarrow> extension (n @ CHR ''.'' # e) = CHR ''.'' # e"
  unfolding extension_def by (induction n) auto

lemma extension_none: "CHR ''.'' \<notin> set n \<Longrightarrow> extension n = []"
  unfolding extension_def by (induction n) auto

lemma extension_key:
  assumes "key_of c x = Some k"
  shows "(\<forall>n. x = Program n \<longrightarrow> extension k = ''.qd'') \<and> (\<forall>n. x = Module n \<longrightarrow> extension k = ''.so'') \<and>
    (\<forall>i. x = Register i \<longrightarrow> extension k = []) \<and> (\<forall>i. x = SessionValue i \<longrightarrow> extension k = []) \<and>
    (x = SessionLost \<longrightarrow> extension k = ''.lost'')"
proof (cases x)
  case (Program n)
  then show ?thesis using assms extension_append [of n "''qd''"]
    by (auto dest!: keys_Some valid_program_name_no)
next
  case (Module n)
  then show ?thesis using assms extension_append [of "''lib'' @ n" "''so''"]
    by (auto dest!: keys_Some valid_program_name_no)
next
  case (Register i)
  then show ?thesis using assms extension_none [of k] dec2_no by (auto dest!: keys_Some)
next
  case (SessionValue i)
  then show ?thesis using assms extension_none [of k] dec2_no by (auto dest!: keys_Some)
next
  case SessionLost
  then show ?thesis using assms by (auto simp: SESSION_LOST_KEY_def extension_def)
qed simp

lemma key_is_name:
  assumes "key_of c x = Some k"
    and "\<forall>a l. x = AppFile a l \<longrightarrow> component_ok l \<and> CHR ''/'' \<notin> set l \<and> CHR 0x5C \<notin> set l"
  shows "qdos_store_name_ok k"
proof -
  have plain: "qdos_store_name_ok k" if "CHR ''/'' \<notin> set k" "CHR 0x5C \<notin> set k" "2 < length k"
    using that by (auto simp: store_name_ok_plain component_ok_def)
  show ?thesis
  proof (cases x)
    case (AppFile a l)
    then show ?thesis using assms valid_program_name_no [of a] component_ok_valid [of a]
      by (auto dest!: app_key_Some simp: store_name_ok_folder)
  qed (use assms(1) plain in \<open>auto dest!: keys_Some valid_program_name_no
         simp: dec2_no SESSION_LOST_KEY_def valid_program_name_def Suc_le_eq\<close>)
qed

text \<open>
  The keys of programs, app files, modules, registers and the saved stack never collide:
  what is saved under one of them cannot overwrite anything else.
\<close>

theorem store_keys_never_collide:
  assumes "key_of c x = Some k" and "key_of c y = Some k"
  shows "x = y"
  using slash_key [OF assms(1)] slash_key [OF assms(2)] extension_key [OF assms(1)] extension_key [OF assms(2)] assms
  by (cases x; cases y) (auto dest!: keys_Some append_char_eq [where c = "CHR ''/''"] valid_program_name_no)

lemma store_keys_never_collide_witness: "key_of 128 (Register 1) = Some ''reg01'' \<and> Register 1 = Register 1"
proof -
  have "key_of 128 (Register 1) = Some ''reg01''" by code_simp
  from this store_keys_never_collide [OF this this] show ?thesis by (rule conjI)
qed

text \<open>
  What the store lists reads back as the name it was made from: a folder's listing as the app,
  a shared object's file name as the module, each exactly when the name is one a program may have.
\<close>

theorem listed_names_read_back:
  assumes "length n < cap"
  shows "qdos_app_name (n @ ''/'') cap = (if valid_program_name n then Some n else None) \<and>
    qdos_module_name (MODULE_PREFIX @ n @ MODULE_SUFFIX) cap = (if valid_program_name n then Some n else None) \<and>
    (valid_program_name n \<longrightarrow> qdos_module_key n 71 = Some (MODULE_PREFIX @ n @ MODULE_SUFFIX))"
proof -
  have "length n < 64" if "valid_program_name n" using that by (simp add: valid_program_name_def NAME_MAX_def)
  moreover have "suffix_of MODULE_SUFFIX (MODULE_PREFIX @ n @ MODULE_SUFFIX)"
    using suffix_of_append [of MODULE_SUFFIX "MODULE_PREFIX @ n"] by simp
  moreover have "n = [] \<Longrightarrow> \<not> valid_program_name n" by (simp add: valid_program_name_def)
  ultimately show ?thesis using assms
    by (auto simp: qdos_app_name_def DIR_MARK_def qdos_module_name_def qdos_module_key_def fits_def
        MODULE_PREFIX_def MODULE_SUFFIX_def Let_def prefix_of_def)
qed

lemma listed_names_read_back_witness:
  "qdos_app_name ''doom/'' 64 = Some ''doom'' \<and> qdos_module_name ''libdoom.so'' 64 = Some ''doom''"
proof -
  have v: "valid_program_name ''doom''" by code_simp
  have "length ''doom'' < 64" by simp
  from listed_names_read_back [OF this] v show ?thesis by (simp add: MODULE_PREFIX_def MODULE_SUFFIX_def)
qed

end
