(* ===== verification/Codec.thy ===== *)
theory Codec
  imports Base
begin

text \<open>
  The record a value is stored as, \<^verbatim>\<open>qdos_value_encode\<close> and \<^verbatim>\<open>qdos_value_decode\<close> of
  \<^verbatim>\<open>src/shell/storage.c\<close>: a sixteen-byte header (magic, version, type, three reserved
  bytes, an eight-byte payload least significant byte first) and, for a string or a complex
  number, what follows it.

  A double is its 64-bit pattern, which is all the code looks at (it copies the bytes). The
  character array \<open>s\<close> is the string it holds.
\<close>

type_synonym byte = "8 word"
type_synonym u64 = "64 word"

section \<open>Values\<close>

datatype qdos_value_type =
  VALUE_EMPTY | VALUE_INT | VALUE_FLOAT | VALUE_STRING | VALUE_COMPLEX | VALUE_D128

fun type_code :: "qdos_value_type \<Rightarrow> byte" where
  "type_code VALUE_EMPTY = 0"
| "type_code VALUE_INT = 1"
| "type_code VALUE_FLOAT = 2"
| "type_code VALUE_STRING = 3"
| "type_code VALUE_COMPLEX = 4"
| "type_code VALUE_D128 = 5"

record qdos_value =
  v_type :: qdos_value_type
  v_i :: u64
  v_f :: u64
  v_im :: u64
  v_s :: cstring

definition QDOS_VALUE_STRING_MAX :: nat where "QDOS_VALUE_STRING_MAX = 240"
definition QDOS_VALUE_ENCODED_MAX :: nat where "QDOS_VALUE_ENCODED_MAX = 16 + QDOS_VALUE_STRING_MAX"
definition HEADER_SIZE :: nat where "HEADER_SIZE = 16"
definition PAYLOAD_OFFSET :: nat where "PAYLOAD_OFFSET = 8"
definition STORE_MAGIC :: "byte list" where "STORE_MAGIC = map byte_of ''QDS''"
definition STORE_VERSION :: byte where "STORE_VERSION = 1"

text \<open>\<open>memset (value, 0, sizeof *value)\<close>.\<close>

definition zero_value :: qdos_value where
  "zero_value = \<lparr>v_type = VALUE_EMPTY, v_i = 0, v_f = 0, v_im = 0, v_s = []\<rparr>"

section \<open>Operations\<close>

definition put_u64 :: "u64 \<Rightarrow> byte list" where
  "put_u64 value = map (\<lambda>i. ucast (drop_bit (i * 8) value)) [0..<8]"

definition get_u64 :: "byte list \<Rightarrow> u64" where
  "get_u64 bs = fold (\<lambda>i value. or value (push_bit (i * 8) (ucast (bs ! i)))) [0..<8] 0"

definition header :: "qdos_value_type \<Rightarrow> u64 \<Rightarrow> byte list" where
  "header t payload = STORE_MAGIC @ [STORE_VERSION, type_code t, 0, 0, 0] @ put_u64 payload"

definition qdos_value_encode :: "qdos_value \<Rightarrow> byte list" where
  "qdos_value_encode v =
     (case v_type v of
        VALUE_EMPTY \<Rightarrow> header (v_type v) 0
      | VALUE_INT \<Rightarrow> header (v_type v) (v_i v)
      | VALUE_FLOAT \<Rightarrow> header (v_type v) (v_f v)
      | VALUE_COMPLEX \<Rightarrow> header (v_type v) (v_f v) @ put_u64 (v_im v)
      | _ \<Rightarrow>
          let len = min (length (v_s v)) (QDOS_VALUE_STRING_MAX - 1)
          in header (v_type v) (of_nat len) @ map byte_of (take len (v_s v)))"

text \<open>A string read back from bytes ends at the first NUL among them.\<close>

definition c_string :: "byte list \<Rightarrow> cstring" where
  "c_string bs = takeWhile (\<lambda>c. c \<noteq> nul) (map char_of_byte bs)"

definition qdos_value_decode :: "byte list \<Rightarrow> qdos_value option" where
  "qdos_value_decode bs =
     (if length bs < HEADER_SIZE then None
      else if take (length STORE_MAGIC) bs \<noteq> STORE_MAGIC \<or> bs ! 3 \<noteq> STORE_VERSION then None
      else
        let payload = get_u64 (drop PAYLOAD_OFFSET bs); tag = bs ! 4
        in if tag = type_code VALUE_EMPTY then Some zero_value
           else if tag = type_code VALUE_INT then
             Some (zero_value\<lparr>v_type := VALUE_INT, v_i := payload\<rparr>)
           else if tag = type_code VALUE_FLOAT then
             Some (zero_value\<lparr>v_type := VALUE_FLOAT, v_f := payload\<rparr>)
           else if tag = type_code VALUE_COMPLEX then
             (if length bs < HEADER_SIZE + 8 then None
              else Some (zero_value\<lparr>v_type := VALUE_COMPLEX, v_f := payload,
                                    v_im := get_u64 (drop HEADER_SIZE bs)\<rparr>))
           else if tag = type_code VALUE_D128 \<or> tag = type_code VALUE_STRING then
             (if unat payload \<ge> QDOS_VALUE_STRING_MAX \<or> length bs < HEADER_SIZE + unat payload then None
              else Some (zero_value\<lparr>v_type := (if tag = type_code VALUE_D128 then VALUE_D128 else VALUE_STRING),
                                    v_s := c_string (take (unat payload) (drop HEADER_SIZE bs))\<rparr>))
           else None)"

section \<open>Bytes of a word\<close>

lemma length_put_u64 [simp]: "length (put_u64 v) = 8"
  by (simp add: put_u64_def)

lemma bit_get_u64_step:
  "bit (fold (\<lambda>i value. or value (push_bit (i * 8) (ucast (bs ! i)))) [0..<n] (0::u64)) k \<longleftrightarrow>
     k < 64 \<and> k div 8 < n \<and> bit (bs ! (k div 8) :: byte) (k mod 8)"
proof (induction n)
  case (Suc n)
  have "bit (push_bit (n * 8) (ucast (bs ! n) :: u64)) k \<longleftrightarrow> k < 64 \<and> k div 8 = n \<and> bit (bs ! n :: byte) (k mod 8)"
  proof (cases "n * 8 \<le> k")
    case True
    then have "k div 8 = n \<longleftrightarrow> k - n * 8 < 8" and "k div 8 = n \<Longrightarrow> k - n * 8 = k mod 8"
      by (auto simp: minus_div_mult_eq_mod)
    moreover have "bit (bs ! n :: byte) j \<Longrightarrow> j < 8" for j using bit_imp_le_length [of "bs ! n" j] by simp
    ultimately show ?thesis using True by (auto simp: bit_simps)
  next
    case False
    then show ?thesis by (auto simp: bit_simps)
  qed
  then show ?case using Suc by (auto simp: bit_simps less_Suc_eq)
qed simp

lemma bit_get_u64: "bit (get_u64 bs) k \<longleftrightarrow> k < 64 \<and> bit (bs ! (k div 8)) (k mod 8)"
  unfolding get_u64_def bit_get_u64_step by auto

lemma bit_put_u64: "i < 8 \<Longrightarrow> j < 8 \<Longrightarrow> bit (put_u64 v ! i) j \<longleftrightarrow> bit v (i * 8 + j)"
  by (simp add: put_u64_def bit_simps add.commute)

lemma get_put_u64 [simp]: "get_u64 (put_u64 v @ rest) = v"
proof (rule bit_word_eqI)
  fix k :: nat
  assume "k < LENGTH(64)"
  then have "k div 8 < 8" "k mod 8 < 8" "k div 8 * 8 + k mod 8 = k" by auto
  then show "bit (get_u64 (put_u64 v @ rest)) k = bit v k"
    using \<open>k < LENGTH(64)\<close> by (simp add: bit_get_u64 bit_put_u64 nth_append)
qed

lemma get_u64_cong: "take 8 bs = take 8 cs \<Longrightarrow> get_u64 bs = get_u64 cs"
proof -
  assume eq: "take 8 bs = take 8 cs"
  have "bs ! i = cs ! i" if "i < 8" for i using that eq by (metis nth_take)
  then show ?thesis by (intro bit_word_eqI) (simp add: bit_get_u64)
qed

section \<open>Properties\<close>

lemmas codec_sizes = QDOS_VALUE_STRING_MAX_def QDOS_VALUE_ENCODED_MAX_def HEADER_SIZE_def PAYLOAD_OFFSET_def

lemma length_STORE_MAGIC [simp]: "length STORE_MAGIC = 3"
  by (simp add: STORE_MAGIC_def)

lemma length_header [simp]: "length (header t p) = 16"
  by (simp add: header_def)

lemma header_parts [simp]:
  "take 3 (header t p) = STORE_MAGIC" "header t p ! 3 = STORE_VERSION" "header t p ! 4 = type_code t"
  "drop 8 (header t p) = put_u64 p"
  by (simp_all add: header_def nth_append)

lemma decode_header:
  "qdos_value_decode (header t p @ rest) =
     (case t of
        VALUE_EMPTY \<Rightarrow> Some zero_value
      | VALUE_INT \<Rightarrow> Some (zero_value\<lparr>v_type := t, v_i := p\<rparr>)
      | VALUE_FLOAT \<Rightarrow> Some (zero_value\<lparr>v_type := t, v_f := p\<rparr>)
      | VALUE_COMPLEX \<Rightarrow>
          (if length rest < 8 then None else Some (zero_value\<lparr>v_type := t, v_f := p, v_im := get_u64 rest\<rparr>))
      | _ \<Rightarrow>
          (if unat p \<ge> 240 \<or> length rest < unat p then None
           else Some (zero_value\<lparr>v_type := t, v_s := c_string (take (unat p) rest)\<rparr>)))"
  by (cases t) (simp_all add: qdos_value_decode_def codec_sizes Let_def nth_append)

lemmas decode_header_only = decode_header [where rest = "[]", simplified]

lemma get_put_u64_only [simp]: "get_u64 (put_u64 v) = v"
  using get_put_u64 [of v "[]"] by simp

lemma c_string_bytes [simp]: "nul \<notin> set s \<Longrightarrow> c_string (map byte_of s) = s"
  by (simp add: c_string_def comp_def takeWhile_eq_all_conv) (metis takeWhile_eq_all_conv)

text \<open>What a value keeps of itself in its record: the fields its type has, a string cut to fit.\<close>

definition stored_part :: "qdos_value \<Rightarrow> qdos_value" where
  "stored_part v =
     (case v_type v of
        VALUE_EMPTY \<Rightarrow> zero_value
      | VALUE_INT \<Rightarrow> zero_value\<lparr>v_type := VALUE_INT, v_i := v_i v\<rparr>
      | VALUE_FLOAT \<Rightarrow> zero_value\<lparr>v_type := VALUE_FLOAT, v_f := v_f v\<rparr>
      | VALUE_COMPLEX \<Rightarrow> zero_value\<lparr>v_type := VALUE_COMPLEX, v_f := v_f v, v_im := v_im v\<rparr>
      | t \<Rightarrow> zero_value\<lparr>v_type := t, v_s := take 239 (v_s v)\<rparr>)"

lemma string_record:
  assumes "nul \<notin> set s" "n = min (length s) 239"
  shows "unat (of_nat n :: u64) = n" "length (map byte_of (take n s)) = n"
    "c_string (map byte_of (take n s)) = take 239 s"
proof -
  show "unat (of_nat n :: u64) = n" using assms(2) by (simp add: unat_of_nat)
  show "length (map byte_of (take n s)) = n" using assms(2) by simp
  have "nul \<notin> set (take n s)" using assms(1) by (meson in_set_takeD)
  then show "c_string (map byte_of (take n s)) = take 239 s" using assms(2) by (simp add: min_def)
qed

lemma decode_encode:
  assumes "nul \<notin> set (v_s v)"
  shows "qdos_value_decode (qdos_value_encode v) = Some (stored_part v)"
  using string_record [OF assms, of "min (length (v_s v)) 239"]
  by (cases "v_type v")
     (simp_all add: qdos_value_encode_def stored_part_def codec_sizes Let_def decode_header decode_header_only)

lemma length_encode: "length (qdos_value_encode v) \<le> QDOS_VALUE_ENCODED_MAX"
  by (cases "v_type v") (simp_all add: qdos_value_encode_def codec_sizes Let_def)

text \<open>
  C38. Every value the calculator stores reads back as it was: an integer and a float bit for bit,
  a complex number in both parts, text up to the 239 bytes a record holds; and a record is never
  longer than the buffer that writes it.
\<close>

theorem value_roundtrip:
  assumes "nul \<notin> set (v_s v)"
  shows "qdos_value_decode (qdos_value_encode v) = Some (stored_part v) \<and>
    length (qdos_value_encode v) \<le> QDOS_VALUE_ENCODED_MAX"
  using decode_encode [OF assms] length_encode by (rule conjI)

lemma value_roundtrip_witness:
  "qdos_value_decode (qdos_value_encode (zero_value\<lparr>v_type := VALUE_STRING, v_s := ''0.10''\<rparr>))
     = Some (zero_value\<lparr>v_type := VALUE_STRING, v_s := ''0.10''\<rparr>)"
proof -
  let ?v = "zero_value\<lparr>v_type := VALUE_STRING, v_s := ''0.10''\<rparr>"
  have "nul \<notin> set (v_s ?v)" and "stored_part ?v = ?v" by code_simp+
  then show ?thesis using value_roundtrip [of ?v] by simp
qed

lemma torn_decode:
  assumes "n < length (qdos_value_encode v)"
  shows "qdos_value_decode (take n (qdos_value_encode v)) = None"
proof (cases "n < 16")
  case True
  then have "length (take n (qdos_value_encode v)) < 16" by simp
  then show ?thesis by (simp only: qdos_value_decode_def HEADER_SIZE_def if_True)
next
  case False
  let ?m = "min (length (v_s v)) 239"
  have u: "unat (of_nat ?m :: u64) = ?m" by (simp add: unat_of_nat)
  have "min ?m (n - 16) < ?m" if "n < 16 + ?m" using that False by linarith
  then show ?thesis using False assms u
    by (cases "v_type v")
       (simp_all add: qdos_value_encode_def codec_sizes Let_def decode_header)
qed

text \<open>
  A record cut short anywhere, as a write the power died under leaves it, is refused: no proper
  prefix of a record reads back as a value.
\<close>

theorem torn_record_refused:
  assumes "n < length (qdos_value_encode v)"
  shows "qdos_value_decode (take n (qdos_value_encode v)) = None"
  using assms by (rule torn_decode)

lemma torn_record_refused_witness:
  "qdos_value_decode (take 17 (qdos_value_encode (zero_value\<lparr>v_type := VALUE_STRING, v_s := ''ab''\<rparr>))) = None"
proof -
  have "17 < length (qdos_value_encode (zero_value\<lparr>v_type := VALUE_STRING, v_s := ''ab''\<rparr>))" by code_simp
  then show ?thesis by (rule torn_record_refused)
qed

lemma c_string_props: "nul \<notin> set (c_string bs) \<and> length (c_string bs) \<le> length bs"
proof -
  have "length (takeWhile P (map char_of_byte bs)) \<le> length bs" for P
    by (rule order_trans [OF length_takeWhile_le]) simp
  then show ?thesis by (auto simp: c_string_def dest: set_takeWhileD)
qed

lemma decode_Some:
  assumes "qdos_value_decode bs = Some v"
  shows "nul \<notin> set (v_s v) \<and> length (v_s v) < 240 \<and> stored_part v = v"
proof -
  have "length (c_string (take n (drop 16 bs))) < 240 \<and> take 239 (c_string (take n (drop 16 bs))) = c_string (take n (drop 16 bs))"
    if "n < 240" for n
    using that c_string_props [of "take n (drop 16 bs)"] by auto
  moreover note c_string_props
  ultimately show ?thesis
    using assms by (auto simp: qdos_value_decode_def Let_def stored_part_def zero_value_def codec_sizes split: if_splits)
qed

text \<open>
  Whatever bytes are on the card, decoding them is safe and settled: a value read from them is
  one of the six types with its string inside the field, and writing it out again and reading that
  gives the same value.
\<close>

theorem decoded_value_is_stable:
  assumes "qdos_value_decode bs = Some v"
  shows "length (v_s v) < QDOS_VALUE_STRING_MAX \<and> qdos_value_decode (qdos_value_encode v) = Some v"
  using decode_Some [OF assms] decode_encode [of v] by (simp add: QDOS_VALUE_STRING_MAX_def)

lemma decoded_value_is_stable_witness:
  "qdos_value_decode (qdos_value_encode (zero_value\<lparr>v_type := VALUE_INT, v_i := 7\<rparr>)) =
     Some (zero_value\<lparr>v_type := VALUE_INT, v_i := 7\<rparr>)"
proof -
  have "qdos_value_decode [81, 68, 83, 1, 1, 9, 9, 9, 7, 0, 0, 0, 0, 0, 0, 0, 42] =
      Some (zero_value\<lparr>v_type := VALUE_INT, v_i := 7\<rparr>)" by code_simp
  then show ?thesis by (rule decoded_value_is_stable [THEN conjunct2])
qed

end
