(* ===== verification/FileStore.thy ===== *)
theory FileStore
  imports StoreName Codec "HOL-Library.AList"
begin

text \<open>
  The store: the interface the shell reaches it through (\<^verbatim>\<open>include/qdos/hal.h\<close>) and the
  backend that keeps it as files in three directories (\<^verbatim>\<open>src/hal/filestore.c\<close>).

  The file system is an association list from paths to nodes, in directory order, under the POSIX
  calls the backend makes. How many bytes of a write reach the medium before it fails or the power
  goes is \<open>room\<close>, an argument of the write.
\<close>

section \<open>The file system\<close>

datatype node = File "byte list" | Dir

type_synonym disk = "(cstring \<times> node) list"

text \<open>The path before its last slash.\<close>

definition parent_of :: "cstring \<Rightarrow> cstring" where
  "parent_of p = rev (tl (dropWhile (\<lambda>c. c \<noteq> CHR ''/'') (rev p)))"

definition posix_mkdir :: "cstring \<Rightarrow> disk \<Rightarrow> disk" where
  "posix_mkdir p d =
     (if map_of d p = None \<and> map_of d (parent_of p) = Some Dir then AList.update p Dir d else d)"

text \<open>\<open>fopen (path, "wb")\<close>, \<open>fwrite\<close> and \<open>fclose\<close>: \<open>None\<close> when the file cannot be opened,
  otherwise whether every byte went in, and the disk after.\<close>

definition posix_write :: "nat \<Rightarrow> cstring \<Rightarrow> byte list \<Rightarrow> disk \<Rightarrow> (bool \<times> disk) option" where
  "posix_write room p bs d =
     (if map_of d p = Some Dir \<or> map_of d (parent_of p) \<noteq> Some Dir then None
      else Some (length bs \<le> room, AList.update p (File (take room bs)) d))"

text \<open>What a directory holds: the last components of the paths directly under it.\<close>

definition under :: "cstring \<Rightarrow> cstring \<Rightarrow> bool" where
  "under root p \<longleftrightarrow> prefix_of (root @ ''/'') p \<and> length root + 1 < length p \<and>
     CHR ''/'' \<notin> set (drop (length root + 1) p)"

definition children :: "cstring \<Rightarrow> disk \<Rightarrow> cstring list" where
  "children root d = map (\<lambda>(p, n). drop (length root + 1) p) (filter (\<lambda>(p, n). under root p) d)"

datatype errno = ENOENT | EOTHER

text \<open>\<open>remove\<close>: a file, or a directory with nothing left in it.\<close>

definition posix_remove :: "cstring \<Rightarrow> disk \<Rightarrow> errno + disk" where
  "posix_remove p d =
     (case map_of d p of
        None \<Rightarrow> (case map_of d (parent_of p) of Some (File _) \<Rightarrow> Inl EOTHER | _ \<Rightarrow> Inl ENOENT)
      | Some (File _) \<Rightarrow> Inr (AList.delete p d)
      | Some Dir \<Rightarrow> if children p d = [] then Inr (AList.delete p d) else Inl EOTHER)"

section \<open>The interface\<close>

datatype store_result = STORE_OK | STORE_NOT_FOUND | STORE_TOO_BIG | STORE_IO_ERROR

datatype store_scope = SCOPE_SYSTEM | SCOPE_INBOX | SCOPE_USER

definition all_scopes :: "store_scope list" where
  "all_scopes = [SCOPE_SYSTEM, SCOPE_INBOX, SCOPE_USER]"

text \<open>
  The store's function pointers, over the backend's state; one the backend may leave NULL is an
  option. A read returns the bytes it filled the buffer with. A listing is the names the backend
  hands its visitor, in order; \<open>visit_all\<close> is the walk, which the visitor can stop.
\<close>

record 'd hal =
  store_read :: "store_scope \<Rightarrow> cstring \<Rightarrow> nat \<Rightarrow> 'd \<Rightarrow> store_result + byte list"
  store_write :: "cstring \<Rightarrow> byte list \<Rightarrow> 'd \<Rightarrow> store_result \<times> 'd"
  store_remove :: "(cstring \<Rightarrow> 'd \<Rightarrow> store_result \<times> 'd) option"
  store_list :: "(store_scope \<Rightarrow> cstring option \<Rightarrow> 'd \<Rightarrow> store_result + cstring list) option"

fun visit_all :: "(cstring \<Rightarrow> 's \<Rightarrow> 's \<times> bool) \<Rightarrow> cstring list \<Rightarrow> 's \<Rightarrow> 's" where
  "visit_all visit [] s = s"
| "visit_all visit (n # ns) s = (let (s', more) = visit n s in if more then visit_all visit ns s' else s')"

section \<open>The three directories\<close>

record filestore =
  fs_store_dir :: cstring
  fs_system_dir :: cstring
  fs_inbox_dir :: cstring

definition PATH_CAP :: nat where "PATH_CAP = 512"

fun dir_for :: "filestore \<Rightarrow> store_scope \<Rightarrow> cstring" where
  "dir_for fs SCOPE_SYSTEM = fs_system_dir fs"
| "dir_for fs SCOPE_INBOX = fs_inbox_dir fs"
| "dir_for fs SCOPE_USER = fs_store_dir fs"

definition store_path :: "cstring \<Rightarrow> cstring \<Rightarrow> nat \<Rightarrow> cstring option" where
  "store_path dir name cap =
     (if \<not> qdos_store_name_ok name then None else fits cap (dir @ ''/'' @ name))"

definition qdos_filestore_is_dir :: "cstring \<Rightarrow> cstring \<Rightarrow> disk \<Rightarrow> bool" where
  "qdos_filestore_is_dir dir name d =
     (if length (dir @ ''/'' @ name) \<ge> PATH_CAP then False else map_of d (dir @ ''/'' @ name) = Some Dir)"

text \<open>A directory opens for reading and gives nothing; a file longer than the buffer is too big.\<close>

definition qdos_filestore_read ::
    "filestore \<Rightarrow> store_scope \<Rightarrow> cstring \<Rightarrow> nat \<Rightarrow> disk \<Rightarrow> store_result + byte list" where
  "qdos_filestore_read fs scope name cap d =
     (case store_path (dir_for fs scope) name PATH_CAP of
        None \<Rightarrow> Inl STORE_IO_ERROR
      | Some path \<Rightarrow>
          (case map_of d path of
             None \<Rightarrow> Inl STORE_NOT_FOUND
           | Some Dir \<Rightarrow> Inr []
           | Some (File bs) \<Rightarrow>
               let got = take cap bs
               in if length got = cap \<and> length bs > cap then Inl STORE_TOO_BIG else Inr got))"

definition qdos_filestore_write ::
    "filestore \<Rightarrow> nat \<Rightarrow> cstring \<Rightarrow> byte list \<Rightarrow> disk \<Rightarrow> store_result \<times> disk" where
  "qdos_filestore_write fs room name bs d =
     (case store_path (fs_store_dir fs) name PATH_CAP of
        None \<Rightarrow> (STORE_IO_ERROR, d)
      | Some path \<Rightarrow>
          let d1 = posix_mkdir (fs_store_dir fs) d;
              d2 = (if find_char (CHR ''/'') name \<noteq> None then posix_mkdir (parent_of path) d1 else d1)
          in case posix_write room path bs d2 of
               None \<Rightarrow> (STORE_IO_ERROR, d2)
             | Some (ok, d3) \<Rightarrow> (if ok then STORE_OK else STORE_IO_ERROR, d3))"

definition qdos_filestore_remove :: "filestore \<Rightarrow> cstring \<Rightarrow> disk \<Rightarrow> store_result \<times> disk" where
  "qdos_filestore_remove fs name d =
     (case store_path (fs_store_dir fs) name PATH_CAP of
        None \<Rightarrow> (STORE_IO_ERROR, d)
      | Some path \<Rightarrow>
          (case posix_remove path d of
             Inr d' \<Rightarrow> (STORE_OK, d')
           | Inl ENOENT \<Rightarrow> (STORE_NOT_FOUND, d)
           | Inl EOTHER \<Rightarrow> (STORE_IO_ERROR, d)))"

definition qdos_filestore_path ::
    "filestore \<Rightarrow> store_scope \<Rightarrow> cstring \<Rightarrow> nat \<Rightarrow> cstring option" where
  "qdos_filestore_path fs scope name cap = store_path (dir_for fs scope) name cap"

text \<open>A listed name, with the mark on a folder; hidden and over-long ones are passed over.\<close>

definition list_name :: "cstring \<Rightarrow> disk \<Rightarrow> cstring \<Rightarrow> cstring option" where
  "list_name root d e =
     (if char_at e 0 = CHR ''.'' then None
      else fits 288 (e @ (if qdos_filestore_is_dir root e d then ''/'' else [])))"

definition qdos_filestore_list ::
    "filestore \<Rightarrow> store_scope \<Rightarrow> cstring option \<Rightarrow> disk \<Rightarrow> store_result + cstring list" where
  "qdos_filestore_list fs scope folder d =
     (let root = (case folder of
                    None \<Rightarrow> Some (clip PATH_CAP (dir_for fs scope))
                  | Some f \<Rightarrow> if f = [] then Some (clip PATH_CAP (dir_for fs scope))
                              else store_path (dir_for fs scope) f PATH_CAP)
      in case root of
           None \<Rightarrow> Inl STORE_IO_ERROR
         | Some r \<Rightarrow> if map_of d r \<noteq> Some Dir then Inl STORE_NOT_FOUND
                     else Inr (List.map_filter (list_name r d) (children r d)))"

definition filestore_hal :: "filestore \<Rightarrow> nat \<Rightarrow> disk hal" where
  "filestore_hal fs room =
     \<lparr>store_read = qdos_filestore_read fs, store_write = qdos_filestore_write fs room,
      store_remove = Some (qdos_filestore_remove fs), store_list = Some (qdos_filestore_list fs)\<rparr>"

section \<open>The laws a store keeps\<close>

text \<open>The folder a name is in: the name up to its slash.\<close>

definition folder_of :: "cstring \<Rightarrow> cstring" where
  "folder_of n = takeWhile (\<lambda>c. c \<noteq> CHR ''/'') n"

definition apart :: "cstring \<Rightarrow> cstring \<Rightarrow> bool" where
  "apart m n \<longleftrightarrow> m \<noteq> n \<and> m \<noteq> folder_of n"

text \<open>
  What the shell relies on of any backend: a write that succeeds is what a read gives back, whatever
  the size of the buffer; a write touches no other entry and no other scope, whether or not it
  succeeds; a read says how much there is the same way for every buffer.
\<close>

locale store_laws =
  fixes hal :: "'d hal" and ok :: "'d \<Rightarrow> bool"
  assumes ok_write: "ok d \<Longrightarrow> ok (snd (store_write hal n bs d))"
    and read_written: "ok d \<Longrightarrow> store_write hal n bs d = (STORE_OK, d') \<Longrightarrow>
      store_read hal SCOPE_USER n cap d' = (if length bs \<le> cap then Inr bs else Inl STORE_TOO_BIG)"
    and read_frame: "ok d \<Longrightarrow> scope \<noteq> SCOPE_USER \<or> apart m n \<Longrightarrow>
      store_read hal scope m cap (snd (store_write hal n bs d)) = store_read hal scope m cap d"
    and read_caps: "store_read hal scope n cap d = Inr bs \<Longrightarrow>
      store_read hal scope n cap' d = (if length bs \<le> cap' then Inr bs else Inl STORE_TOO_BIG)"
    and read_too_big: "store_read hal scope n cap d = Inl STORE_TOO_BIG \<Longrightarrow>
      \<exists>bs. cap < length bs \<and> (\<forall>cap' \<ge> length bs. store_read hal scope n cap' d = Inr bs)"

text \<open>
  A backend that can remove: what is removed reads as not there, and nothing else changes.
\<close>

locale store_removal = store_laws hal ok for hal :: "'d hal" and ok +
  fixes rm :: "cstring \<Rightarrow> 'd \<Rightarrow> store_result \<times> 'd"
  assumes has_remove: "store_remove hal = Some rm"
    and ok_remove: "ok d \<Longrightarrow> ok (snd (rm n d))"
    and read_removed: "ok d \<Longrightarrow> rm n d = (STORE_OK, d') \<Longrightarrow>
      store_read hal SCOPE_USER n cap d' = Inl STORE_NOT_FOUND"
    and remove_frame: "ok d \<Longrightarrow> scope \<noteq> SCOPE_USER \<or> m \<noteq> n \<Longrightarrow>
      store_read hal scope m cap (snd (rm n d)) = store_read hal scope m cap d"

text \<open>And one with folders: a folder goes only when nothing is left in it.\<close>

locale folder_removal = store_removal +
  assumes removed_folder: "ok d \<Longrightarrow> rm n d = (STORE_OK, d') \<Longrightarrow> CHR ''/'' \<notin> set l \<Longrightarrow> l \<noteq> [] \<Longrightarrow>
      store_read hal SCOPE_USER (n @ CHR ''/'' # l) cap d' \<in> {Inl STORE_NOT_FOUND, Inl STORE_IO_ERROR}"

section \<open>Paths\<close>

lemma dropWhile_rev_no: "c \<notin> set b \<Longrightarrow> dropWhile (\<lambda>x. x \<noteq> c) (rev b @ c # r) = c # r"
  by (induction b rule: rev_induct) auto

lemma parent_of_append: "CHR ''/'' \<notin> set b \<Longrightarrow> parent_of (a @ CHR ''/'' # b) = a"
  by (simp add: parent_of_def dropWhile_rev_no)

lemma folder_of_plain: "CHR ''/'' \<notin> set n \<Longrightarrow> folder_of n = n"
  unfolding folder_of_def by (induction n) auto

lemma folder_of_folder: "CHR ''/'' \<notin> set a \<Longrightarrow> folder_of (a @ CHR ''/'' # b) = a"
  unfolding folder_of_def by (induction a) auto

lemma store_name_cases:
  assumes "qdos_store_name_ok n"
  obtains (plain) "CHR ''/'' \<notin> set n" "n \<noteq> []"
    | (folder) a b where "n = a @ CHR ''/'' # b" "CHR ''/'' \<notin> set a" "CHR ''/'' \<notin> set b" "a \<noteq> []" "b \<noteq> []"
proof (cases "find_char (CHR ''/'') n")
  case None
  then show ?thesis using assms by (intro plain) (auto simp: find_char_None qdos_store_name_ok_def)
next
  case (Some i)
  note find_char_Some [OF this]
  then have "n = take i n @ CHR ''/'' # drop (i + 1) n"
    by (metis Suc_eq_plus1 id_take_nth_drop)
  then show ?thesis using assms Some find_char_Some [OF Some]
    by (intro folder) (auto simp: qdos_store_name_ok_def find_char_None component_ok_def)
qed

lemma store_path_Some: "store_path dir n cap = Some p \<Longrightarrow> qdos_store_name_ok n \<and> p = dir @ CHR ''/'' # n"
  by (auto simp: store_path_def fits_def split: if_splits)

text \<open>
  The deployment's directories: none is inside another or the same, and the user's exists.
\<close>

definition dirs_apart :: "filestore \<Rightarrow> bool" where
  "dirs_apart fs \<longleftrightarrow>
     (\<forall>s t. s \<noteq> t \<longrightarrow> dir_for fs s \<noteq> dir_for fs t \<and> \<not> prefix_of (dir_for fs s @ ''/'') (dir_for fs t))"

text \<open>The user's directory is there, and what is in a folder of it is in a folder.\<close>

definition folders_ok :: "filestore \<Rightarrow> disk \<Rightarrow> bool" where
  "folders_ok fs d \<longleftrightarrow>
     (\<forall>a b. CHR ''/'' \<notin> set b \<longrightarrow> b \<noteq> [] \<longrightarrow> map_of d (fs_store_dir fs @ CHR ''/'' # a @ CHR ''/'' # b) \<noteq> None \<longrightarrow>
        map_of d (fs_store_dir fs @ CHR ''/'' # a) = Some Dir)"

definition disk_ok :: "filestore \<Rightarrow> disk \<Rightarrow> bool" where
  "disk_ok fs d \<longleftrightarrow> map_of d (fs_store_dir fs) = Some Dir \<and> folders_ok fs d"

lemma map_of_mkdir:
  "map_of (posix_mkdir p d) q =
     (if q = p \<and> map_of d p = None \<and> map_of d (parent_of p) = Some Dir then Some Dir else map_of d q)"
  by (auto simp: posix_mkdir_def update_conv')

lemma map_of_write:
  "posix_write room p bs d = Some (done, d') \<Longrightarrow>
   map_of d' q = (if q = p then Some (File (take room bs)) else map_of d q) \<and> map_of d p \<noteq> Some Dir \<and>
   (done \<longleftrightarrow> length bs \<le> room)"
  by (auto simp: posix_write_def update_conv' split: if_splits)

text \<open>A write leaves every path as it was but the entry's own, and its folder's where that is made.\<close>

lemma map_of_filestore_write:
  assumes "disk_ok fs d" and "qdos_filestore_write fs room n bs d = (r, d')"
    and "q \<noteq> fs_store_dir fs @ CHR ''/'' # n"
    and "q \<noteq> fs_store_dir fs @ CHR ''/'' # folder_of n"
  shows "map_of d' q = map_of d q"
proof (cases "store_path (fs_store_dir fs) n PATH_CAP")
  case None
  then show ?thesis using assms(2) by (simp add: qdos_filestore_write_def)
next
  case (Some path)
  from store_path_Some [OF this] have n: "qdos_store_name_ok n" and path: "path = fs_store_dir fs @ CHR ''/'' # n"
    by auto
  have same: "posix_mkdir (fs_store_dir fs) d = d" using assms(1) by (simp add: posix_mkdir_def disk_ok_def)
  from n show ?thesis
  proof (cases rule: store_name_cases)
    case plain
    then show ?thesis using assms(2,3) Some path same
      by (auto simp: qdos_filestore_write_def Let_def split: option.splits dest!: map_of_write [where q = q])
  next
    case (folder a b)
    have par: "parent_of path = fs_store_dir fs @ CHR ''/'' # a"
      using parent_of_append [of b "fs_store_dir fs @ CHR ''/'' # a"] folder path by simp
    have "folder_of n = a" using folder folder_of_folder by simp
    then show ?thesis using assms(2-4) Some path same par
      by (auto simp: qdos_filestore_write_def Let_def map_of_mkdir split: option.splits if_splits dest!: map_of_write [where q = q])
  qed
qed

lemma filestore_write_OK:
  assumes "disk_ok fs d" and "qdos_filestore_write fs room n bs d = (STORE_OK, d')"
  shows "store_path (fs_store_dir fs) n PATH_CAP = Some (fs_store_dir fs @ CHR ''/'' # n) \<and>
    map_of d' (fs_store_dir fs @ CHR ''/'' # n) = Some (File bs) \<and> length bs \<le> room"
proof (cases "store_path (fs_store_dir fs) n PATH_CAP")
  case None
  then show ?thesis using assms(2) by (simp add: qdos_filestore_write_def)
next
  case (Some path)
  with store_path_Some [OF Some] assms(2) show ?thesis
    by (auto simp: qdos_filestore_write_def Let_def split: option.splits if_splits dest!: map_of_write [where q = path])
qed

lemma parent_of_file:
  "CHR ''/'' \<notin> set b \<Longrightarrow> parent_of (dir @ CHR ''/'' # a @ CHR ''/'' # b) = dir @ CHR ''/'' # a"
  using parent_of_append [of b "dir @ CHR ''/'' # a"] by simp

lemma folders_okD:
  "folders_ok fs d \<Longrightarrow> CHR ''/'' \<notin> set b \<Longrightarrow> b \<noteq> [] \<Longrightarrow> map_of d (fs_store_dir fs @ CHR ''/'' # a) \<noteq> Some Dir \<Longrightarrow>
     map_of d (fs_store_dir fs @ CHR ''/'' # a @ CHR ''/'' # b) = None"
  unfolding folders_ok_def by (drule spec [of _ a], drule spec [of _ b]) blast

text \<open>What keeps the shape: directories stay, and what is new has its parent.\<close>

lemma disk_ok_step:
  assumes "disk_ok fs d" "\<And>q. map_of d q = Some Dir \<Longrightarrow> map_of d' q = Some Dir"
    "\<And>q. map_of d' q \<noteq> None \<Longrightarrow> map_of d q = None \<Longrightarrow> map_of d' (parent_of q) = Some Dir"
  shows "disk_ok fs d'"
  unfolding disk_ok_def folders_ok_def
proof (intro conjI allI impI)
  show "map_of d' (fs_store_dir fs) = Some Dir" using assms(1,2) by (simp add: disk_ok_def)
  fix a b :: cstring
  let ?q = "fs_store_dir fs @ CHR ''/'' # a @ CHR ''/'' # b"
  assume b: "CHR ''/'' \<notin> set b" "b \<noteq> []" and q: "map_of d' ?q \<noteq> None"
  show "map_of d' (fs_store_dir fs @ CHR ''/'' # a) = Some Dir"
  proof (cases "map_of d ?q = None")
    case True
    then show ?thesis using assms(3) [OF q] parent_of_file [OF b(1)] by simp
  next
    case False
    then have "map_of d (fs_store_dir fs @ CHR ''/'' # a) = Some Dir"
      using folders_okD [OF conjunct2 [OF assms(1) [unfolded disk_ok_def]] b, of a] by argo
    then show ?thesis by (rule assms(2))
  qed
qed

lemma disk_ok_mkdir:
  assumes "disk_ok fs d"
  shows "disk_ok fs (posix_mkdir p d)"
  by (rule disk_ok_step [OF assms]) (auto simp: map_of_mkdir split: if_splits)

lemma disk_ok_posix_write:
  assumes "disk_ok fs d" "posix_write room p bs d = Some (r, d')"
  shows "disk_ok fs d'"
  by (rule disk_ok_step [OF assms(1)])
    (use assms(2) in \<open>auto simp: posix_write_def update_conv' split: if_splits\<close>)

lemma no_children:
  assumes "children p d = []" "CHR ''/'' \<notin> set b" "b \<noteq> []"
  shows "map_of d (p @ CHR ''/'' # b) = None"
proof (rule ccontr)
  assume "map_of d (p @ CHR ''/'' # b) \<noteq> None"
  then obtain n where "(p @ CHR ''/'' # b, n) \<in> set d" by (auto dest: map_of_SomeD)
  moreover have "under p (p @ CHR ''/'' # b)"
    using assms(2,3) by (auto simp: under_def prefix_of_def)
  ultimately show False using assms(1) by (auto simp: children_def filter_empty_conv)
qed

lemma disk_ok_write:
  assumes "disk_ok fs d"
  shows "disk_ok fs (snd (qdos_filestore_write fs room n bs d))"
  using disk_ok_mkdir [OF assms] disk_ok_mkdir [OF disk_ok_mkdir [OF assms]]
  by (auto simp: qdos_filestore_write_def Let_def assms split: option.splits intro: disk_ok_posix_write)

lemma filestore_read_cases:
  "qdos_filestore_read fs scope n cap d = Inr bs \<Longrightarrow>
     qdos_filestore_read fs scope n cap' d = (if length bs \<le> cap' then Inr bs else Inl STORE_TOO_BIG)"
  by (auto simp: qdos_filestore_read_def Let_def split: option.splits node.splits if_splits)

lemma filestore_read_too_big:
  "qdos_filestore_read fs scope n cap d = Inl STORE_TOO_BIG \<Longrightarrow>
     \<exists>bs. cap < length bs \<and> (\<forall>cap' \<ge> length bs. qdos_filestore_read fs scope n cap' d = Inr bs)"
  by (auto simp: qdos_filestore_read_def Let_def split: option.splits node.splits if_splits)

text \<open>Where an entry of one scope is, and where a write to the user's can reach.\<close>

lemma append_slash_eq:
  "a @ CHR ''/'' # m = b @ CHR ''/'' # n \<Longrightarrow> a = b \<or> prefix_of (a @ ''/'') b \<or> prefix_of (b @ ''/'') a"
proof (induction a arbitrary: b)
  case Nil
  then show ?case by (cases b) (auto simp: prefix_of_def)
next
  case (Cons x a)
  then show ?case by (cases b) (auto simp: prefix_of_def)
qed

lemma paths_apart:
  assumes "dirs_apart fs" "scope \<noteq> SCOPE_USER"
  shows "dir_for fs scope @ CHR ''/'' # m \<noteq> fs_store_dir fs @ CHR ''/'' # n"
proof
  assume "dir_for fs scope @ CHR ''/'' # m = fs_store_dir fs @ CHR ''/'' # n"
  from append_slash_eq [OF this] show False
    using assms unfolding dirs_apart_def by (metis dir_for.simps(3))
qed

lemma filestore_frame:
  assumes "dirs_apart fs" "disk_ok fs d" "scope \<noteq> SCOPE_USER \<or> apart m n"
  shows "qdos_filestore_read fs scope m cap (snd (qdos_filestore_write fs room n bs d)) =
    qdos_filestore_read fs scope m cap d"
proof -
  obtain r d' where w: "qdos_filestore_write fs room n bs d = (r, d')" by (cases "qdos_filestore_write fs room n bs d")
  have "map_of d' (dir_for fs scope @ CHR ''/'' # m) = map_of d (dir_for fs scope @ CHR ''/'' # m)"
    using assms(3)
  proof
    assume "scope \<noteq> SCOPE_USER"
    then show ?thesis using paths_apart [OF assms(1), of scope]
      by (intro map_of_filestore_write [OF assms(2) w]) auto
  next
    assume "apart m n"
    then show ?thesis
    proof (cases "scope = SCOPE_USER")
      case True
      with \<open>apart m n\<close> show ?thesis
        by (intro map_of_filestore_write [OF assms(2) w]) (auto simp: apart_def)
    next
      case False
      then show ?thesis using paths_apart [OF assms(1), of scope]
        by (intro map_of_filestore_write [OF assms(2) w]) auto
    qed
  qed
  moreover have "store_path (dir_for fs scope) m PATH_CAP = Some p \<Longrightarrow> p = dir_for fs scope @ CHR ''/'' # m" for p
    using store_path_Some by blast
  ultimately show ?thesis using w by (auto simp: qdos_filestore_read_def split: option.splits)
qed

lemma map_of_filestore_remove:
  "qdos_filestore_remove fs n d = (r, d') \<Longrightarrow>
     map_of d' q = (if r = STORE_OK \<and> q = fs_store_dir fs @ CHR ''/'' # n then None else map_of d q)"
  by (auto simp: qdos_filestore_remove_def posix_remove_def delete_conv' dest!: store_path_Some
      split: option.splits node.splits if_splits sum.splits errno.splits)

lemma filestore_removed_folder:
  assumes "disk_ok fs d" "qdos_filestore_remove fs n d = (STORE_OK, d')" "CHR ''/'' \<notin> set b" "b \<noteq> []"
  shows "map_of d (fs_store_dir fs @ CHR ''/'' # n @ CHR ''/'' # b) = None"
proof (cases "map_of d (fs_store_dir fs @ CHR ''/'' # n)")
  case None
  then show ?thesis using folders_okD [of fs d b n] assms(1,3,4) by (simp add: disk_ok_def)
next
  case (Some x)
  then show ?thesis
  proof (cases x)
    case Dir
    then have "children (fs_store_dir fs @ CHR ''/'' # n) d = []" using assms(2) Some
      by (auto simp: qdos_filestore_remove_def posix_remove_def dest!: store_path_Some
          split: option.splits sum.splits errno.splits if_splits)
    from no_children [OF this assms(3,4)] show ?thesis by simp
  qed (use folders_okD [of fs d b n] assms(1,3,4) Some in \<open>simp add: disk_ok_def\<close>)
qed

lemma disk_ok_remove:
  assumes "disk_ok fs d"
  shows "disk_ok fs (snd (qdos_filestore_remove fs n d))"
proof -
  obtain r d' where w: "qdos_filestore_remove fs n d = (r, d')" by (cases "qdos_filestore_remove fs n d")
  show ?thesis
  proof (cases "r = STORE_OK")
    case True
    from filestore_removed_folder [OF assms w [unfolded True]] show ?thesis
      using assms w True by (auto simp: disk_ok_def folders_ok_def map_of_filestore_remove [OF w])
  next
    case False
    then show ?thesis using assms w by (auto simp: disk_ok_def folders_ok_def map_of_filestore_remove [OF w])
  qed
qed

lemma filestore_removed:
  assumes "qdos_filestore_remove fs n d = (STORE_OK, d')"
  shows "qdos_filestore_read fs SCOPE_USER n cap d' = Inl STORE_NOT_FOUND"
proof (cases "store_path (fs_store_dir fs) n PATH_CAP")
  case None
  then show ?thesis using assms by (simp add: qdos_filestore_remove_def)
next
  case (Some p)
  from store_path_Some [OF this] map_of_filestore_remove [OF assms, of p] have "map_of d' p = None" by simp
  then show ?thesis using Some by (simp add: qdos_filestore_read_def)
qed

lemma filestore_remove_frame:
  assumes "dirs_apart fs" "scope \<noteq> SCOPE_USER \<or> m \<noteq> n"
  shows "qdos_filestore_read fs scope m cap (snd (qdos_filestore_remove fs n d)) = qdos_filestore_read fs scope m cap d"
proof -
  obtain r d' where w: "qdos_filestore_remove fs n d = (r, d')" by (cases "qdos_filestore_remove fs n d")
  have "dir_for fs scope @ CHR ''/'' # m \<noteq> fs_store_dir fs @ CHR ''/'' # n"
    using assms paths_apart [OF assms(1), of scope m n] by (cases "scope = SCOPE_USER") auto
  then have "map_of d' (dir_for fs scope @ CHR ''/'' # m) = map_of d (dir_for fs scope @ CHR ''/'' # m)"
    using map_of_filestore_remove [OF w] by auto
  moreover have "store_path (dir_for fs scope) m PATH_CAP = Some p \<Longrightarrow> p = dir_for fs scope @ CHR ''/'' # m" for p
    using store_path_Some by blast
  ultimately show ?thesis using w by (auto simp: qdos_filestore_read_def split: option.splits)
qed

lemmas filestore_laws = disk_ok_write filestore_frame filestore_read_cases filestore_read_too_big
  disk_ok_remove filestore_removed filestore_remove_frame

lemma filestore_read_written:
  assumes "disk_ok fs d" "qdos_filestore_write fs room n bs d = (STORE_OK, d')"
  shows "qdos_filestore_read fs SCOPE_USER n cap d' = (if length bs \<le> cap then Inr bs else Inl STORE_TOO_BIG)"
  using filestore_write_OK [OF assms] by (simp add: qdos_filestore_read_def Let_def)

lemma filestore_folder_gone:
  assumes "disk_ok fs d" "qdos_filestore_remove fs n d = (STORE_OK, d')" "CHR ''/'' \<notin> set l" "l \<noteq> []"
  shows "qdos_filestore_read fs SCOPE_USER (n @ CHR ''/'' # l) cap d' \<in> {Inl STORE_NOT_FOUND, Inl STORE_IO_ERROR}"
  using filestore_removed_folder [OF assms] map_of_filestore_remove [OF assms(2)]
  by (auto simp: qdos_filestore_read_def dest!: store_path_Some split: option.splits)

interpretation fstore: folder_removal "filestore_hal fs room" "\<lambda>d. dirs_apart fs \<and> disk_ok fs d"
    "qdos_filestore_remove fs" for fs room
proof unfold_locales
  fix d n d' l cap
  assume "dirs_apart fs \<and> disk_ok fs d" "qdos_filestore_remove fs n d = (STORE_OK, d')" "CHR ''/'' \<notin> set l" "l \<noteq> []"
  with filestore_folder_gone [of fs d n d' l cap]
  show "store_read (filestore_hal fs room) SCOPE_USER (n @ CHR ''/'' # l) cap d' \<in> {Inl STORE_NOT_FOUND, Inl STORE_IO_ERROR}"
    by (simp add: filestore_hal_def)
qed (auto simp: filestore_hal_def filestore_read_written split del: if_split
      intro: filestore_read_cases dest: filestore_laws)

end
