(* ===== verification/Values.thy ===== *)
theory Values
  imports FileStore
begin

text \<open>
  Values kept across a power-off (\<^verbatim>\<open>src/shell/storage.c\<close>): saving, loading and erasing one value
  under a key, and the session, the stack as it was when the machine went off. The store is any
  backend with the interface of FileStore; the lemmas hold for every one that keeps its laws, the
  properties for the file store.
\<close>

section \<open>One value\<close>

definition qdos_storage_save :: "'d hal \<Rightarrow> cstring \<Rightarrow> qdos_value \<Rightarrow> 'd \<Rightarrow> store_result \<times> 'd" where
  "qdos_storage_save hal key v d = store_write hal key (qdos_value_encode v) d"

definition qdos_storage_load :: "'d hal \<Rightarrow> cstring \<Rightarrow> 'd \<Rightarrow> store_result + qdos_value" where
  "qdos_storage_load hal key d =
     (case store_read hal SCOPE_USER key QDOS_VALUE_ENCODED_MAX d of
        Inl r \<Rightarrow> Inl r
      | Inr bs \<Rightarrow> (case qdos_value_decode bs of Some v \<Rightarrow> Inr v | None \<Rightarrow> Inl STORE_NOT_FOUND))"

definition qdos_storage_erase :: "'d hal \<Rightarrow> cstring \<Rightarrow> 'd \<Rightarrow> store_result \<times> 'd" where
  "qdos_storage_erase hal key d = qdos_storage_save hal key zero_value d"

section \<open>The stack\<close>

text \<open>
  A stack element, as the runtime holds one: a pointer is either a complex number the calculator
  made (\<^verbatim>\<open>src/shell/complex.c\<close>) or some other object.
\<close>

datatype ('p, 'q) element =
  ElInt u64 | ElFloat u64 | ElStr cstring | ElComplex u64 u64 | ElPtr 'p | ElD128 'q

text \<open>
  What the runtime and the processor do: the text of a decimal and back, and the comparison of two
  doubles \<open>fabs (a) <= 1e-13 * fabs (b)\<close> on their bit patterns; with the decimal mode and its
  conversion from a double.
\<close>

record 'q runtime =
  qd_d128_format :: "'q \<Rightarrow> cstring"
  qd_d128_parse :: "cstring \<Rightarrow> 'q option"
  negligible :: "u64 \<Rightarrow> u64 \<Rightarrow> bool"
  decimal_mode :: bool
  of_double :: "u64 \<Rightarrow> 'q"

fun qdos_cpx_of :: "('p, 'q) element \<Rightarrow> (u64 \<times> u64) option" where
  "qdos_cpx_of (ElComplex re im) = Some (re, im)"
| "qdos_cpx_of e = None"

text \<open>\<open>x == 0.0\<close> on a bit pattern: both zeros.\<close>

definition is_zero :: "u64 \<Rightarrow> bool" where
  "is_zero x \<longleftrightarrow> push_bit 1 x = 0"

definition qdos_cpx_push :: "'q runtime \<Rightarrow> u64 \<Rightarrow> u64 \<Rightarrow> ('p, 'q) element" where
  "qdos_cpx_push rt re im =
     (let im' = (if negligible rt im re then 0 else im);
          re' = (if negligible rt re im' then 0 else re)
      in if is_zero im' then (if decimal_mode rt then ElD128 (of_double rt re') else ElFloat re')
         else ElComplex re' im')"

section \<open>The session\<close>

definition SESSION_MAX :: nat where "SESSION_MAX = 64"

fun session_encode :: "'q runtime \<Rightarrow> ('p, 'q) element \<Rightarrow> qdos_value option" where
  "session_encode rt (ElInt i) = Some (zero_value\<lparr>v_type := VALUE_INT, v_i := i\<rparr>)"
| "session_encode rt (ElFloat f) = Some (zero_value\<lparr>v_type := VALUE_FLOAT, v_f := f\<rparr>)"
| "session_encode rt (ElStr s) =
     Some (zero_value\<lparr>v_type := VALUE_STRING, v_s := clip QDOS_VALUE_STRING_MAX s\<rparr>)"
| "session_encode rt (ElD128 q) =
     Some (zero_value\<lparr>v_type := VALUE_D128, v_s := clip QDOS_VALUE_STRING_MAX (qd_d128_format rt q)\<rparr>)"
| "session_encode rt e =
     (case qdos_cpx_of e of
        Some (re, im) \<Rightarrow> Some (zero_value\<lparr>v_type := VALUE_COMPLEX, v_f := re, v_im := im\<rparr>)
      | None \<Rightarrow> None)"

text \<open>How many of the values, from the bottom, come before the first with no encoding.\<close>

fun encodable :: "'q runtime \<Rightarrow> ('p, 'q) element list \<Rightarrow> nat" where
  "encodable rt [] = 0"
| "encodable rt (e # es) = (if session_encode rt e = None then 0 else Suc (encodable rt es))"

text \<open>The loop that writes the values, bottom first.\<close>

fun save_values :: "'d hal \<Rightarrow> 'q runtime \<Rightarrow> nat \<Rightarrow> ('p, 'q) element list \<Rightarrow> 'd \<Rightarrow> store_result \<times> 'd" where
  "save_values hal rt i [] d = (STORE_OK, d)"
| "save_values hal rt i (e # es) d =
     (case session_key i 32 of
        None \<Rightarrow> (STORE_IO_ERROR, d)
      | Some key \<Rightarrow>
          (case session_encode rt e of
             None \<Rightarrow> (STORE_IO_ERROR, d)
           | Some v \<Rightarrow>
               let (r, d1) = qdos_storage_save hal key v d
               in if r = STORE_OK then save_values hal rt (Suc i) es d1 else (r, d1)))"

definition int_value :: "nat \<Rightarrow> qdos_value" where
  "int_value n = zero_value\<lparr>v_type := VALUE_INT, v_i := of_nat n\<rparr>"

definition qdos_storage_save_session ::
    "'d hal \<Rightarrow> 'q runtime \<Rightarrow> ('p, 'q) element list \<Rightarrow> 'd \<Rightarrow> store_result \<times> 'd" where
  "qdos_storage_save_session hal rt st d =
     (let wanted = min (length st) SESSION_MAX;
          saved = encodable rt (take wanted st);
          (h, d1) = qdos_storage_save hal SESSION_KEY (int_value saved) d
      in if h \<noteq> STORE_OK then (h, d1)
         else
           let (r, d2) = save_values hal rt 0 (take saved st) d1
           in if r \<noteq> STORE_OK then (r, d2)
              else if saved < wanted then
                (STORE_OK, snd (qdos_storage_save hal SESSION_LOST_KEY (int_value (wanted - saved)) d2))
              else (STORE_OK, snd (qdos_storage_erase hal SESSION_LOST_KEY d2)))"

definition qdos_storage_session_lost :: "'d hal \<Rightarrow> 'd \<Rightarrow> nat" where
  "qdos_storage_session_lost hal d =
     (case qdos_storage_load hal SESSION_LOST_KEY d of
        Inl _ \<Rightarrow> 0
      | Inr v \<Rightarrow> if v_type v = VALUE_INT \<and> 0 <s v_i v then unat (v_i v) else 0)"

text \<open>What one value read back pushes; \<open>None\<close> is a stored decimal that does not parse.\<close>

fun push_value :: "'q runtime \<Rightarrow> qdos_value \<Rightarrow> ('p, 'q) element option" where
  "push_value rt v =
     (case v_type v of
        VALUE_INT \<Rightarrow> Some (ElInt (v_i v))
      | VALUE_FLOAT \<Rightarrow> Some (ElFloat (v_f v))
      | VALUE_STRING \<Rightarrow> Some (ElStr (v_s v))
      | VALUE_COMPLEX \<Rightarrow> Some (qdos_cpx_push rt (v_f v) (v_im v))
      | VALUE_D128 \<Rightarrow> map_option ElD128 (qd_d128_parse rt (v_s v))
      | VALUE_EMPTY \<Rightarrow> None)"

text \<open>The loop that reads \<open>k\<close> values from the \<open>i\<close>th on and pushes them; the stack as it leaves it.\<close>

fun restore_values ::
    "'d hal \<Rightarrow> 'q runtime \<Rightarrow> nat \<Rightarrow> nat \<Rightarrow> 'd \<Rightarrow> ('p, 'q) element list \<Rightarrow> store_result \<times> ('p, 'q) element list" where
  "restore_values hal rt i 0 d st = (STORE_OK, st)"
| "restore_values hal rt i (Suc k) d st =
     (case session_key i 32 of
        None \<Rightarrow> (STORE_IO_ERROR, st)
      | Some key \<Rightarrow>
          (case qdos_storage_load hal key d of
             Inl _ \<Rightarrow> (STORE_IO_ERROR, st)
           | Inr v \<Rightarrow>
               if v_type v = VALUE_EMPTY then (STORE_OK, st)
               else (case push_value rt v of
                       None \<Rightarrow> (STORE_IO_ERROR, st)
                     | Some e \<Rightarrow> restore_values hal rt (Suc i) k d (st @ [e]))))"

definition qdos_storage_restore_session ::
    "'d hal \<Rightarrow> 'q runtime \<Rightarrow> 'd \<Rightarrow> ('p, 'q) element list \<Rightarrow> store_result \<times> ('p, 'q) element list" where
  "qdos_storage_restore_session hal rt d st =
     (case qdos_storage_load hal SESSION_KEY d of
        Inl r \<Rightarrow> (r, st)
      | Inr count \<Rightarrow>
          if v_type count \<noteq> VALUE_INT \<or> v_i count <s 0 \<or> of_nat SESSION_MAX <s v_i count then (STORE_NOT_FOUND, st)
          else restore_values hal rt 0 (unat (v_i count)) d st)"

section \<open>Lemmas\<close>

lemma plain_apart: "CHR ''/'' \<notin> set n \<Longrightarrow> m \<noteq> n \<Longrightarrow> apart m n"
  by (simp add: apart_def folder_of_plain)

lemma session_key_eq: "i < 64 \<Longrightarrow> session_key i 32 = Some (SESSION_KEY @ dec2 i)"
  by (simp add: session_key_def fits_def SESSION_KEY_def length_dec2)

lemma session_key_plain: "CHR ''/'' \<notin> set (SESSION_KEY @ dec2 i)"
  by (auto simp: SESSION_KEY_def dec2_no)

lemma session_keys_differ:
  "SESSION_KEY @ dec2 i \<noteq> SESSION_KEY" "SESSION_KEY @ dec2 i \<noteq> SESSION_LOST_KEY"
  "SESSION_KEY \<noteq> SESSION_LOST_KEY"
proof -
  have "dec2 i \<noteq> []" by (simp add: dec2_def)
  then show "SESSION_KEY @ dec2 i \<noteq> SESSION_KEY" by simp
  have "CHR ''.'' \<notin> set (SESSION_KEY @ dec2 i)" by (auto simp: SESSION_KEY_def dec2_no)
  moreover have "CHR ''.'' \<in> set SESSION_LOST_KEY" by (simp add: SESSION_LOST_KEY_def)
  ultimately show "SESSION_KEY @ dec2 i \<noteq> SESSION_LOST_KEY" by metis
  show "SESSION_KEY \<noteq> SESSION_LOST_KEY" by (simp add: SESSION_KEY_def SESSION_LOST_KEY_def)
qed

lemma plain_session: "CHR ''/'' \<notin> set SESSION_KEY" "CHR ''/'' \<notin> set SESSION_LOST_KEY"
  by (simp_all add: SESSION_KEY_def SESSION_LOST_KEY_def)

lemmas session_keys = session_key_eq session_key_plain session_keys_differ session_keys_differ [symmetric] plain_session

lemma encodable_le: "encodable rt es \<le> length es"
  by (induction es) auto

lemma encodable_nth: "j < encodable rt es \<Longrightarrow> session_encode rt (es ! j) \<noteq> None"
proof (induction es arbitrary: j)
  case (Cons e es)
  then show ?case by (cases j) (auto split: if_splits)
qed simp

lemma encode_not_empty: "session_encode rt e = Some v \<Longrightarrow> v_type v \<noteq> VALUE_EMPTY"
  by (cases e) auto

text \<open>What an element is after the machine has been off, decimals aside as it was: text is cut to
  what a record holds.\<close>

fun comes_back :: "('p, 'q) element \<Rightarrow> ('p, 'q) element" where
  "comes_back (ElStr s) = ElStr (take 239 s)"
| "comes_back e = e"

text \<open>The runtime prints a decimal as it reads it, in no more than a record holds; and a value is one
  the calculator made: text without NULs, a complex number whose imaginary part counts and whose real part does or is
  nought.\<close>

definition runtime_ok :: "'q runtime \<Rightarrow> bool" where
  "runtime_ok rt \<longleftrightarrow>
     (\<forall>q. qd_d128_parse rt (qd_d128_format rt q) = Some q \<and> length (qd_d128_format rt q) < 240 \<and>
          nul \<notin> set (qd_d128_format rt q))"

fun made_here :: "'q runtime \<Rightarrow> ('p, 'q) element \<Rightarrow> bool" where
  "made_here rt (ElStr s) = (nul \<notin> set s)"
| "made_here rt (ElComplex re im) = (\<not> is_zero im \<and> \<not> negligible rt im re \<and> (negligible rt re im \<longrightarrow> re = 0))"
| "made_here rt e = True"

text \<open>Every complex number \<^verbatim>\<open>qdos_cpx_push\<close> makes is one, nothing but a nought being negligible beside nought.\<close>

lemma pushed_made_here:
  assumes "qdos_cpx_push rt a b = ElComplex re im" "\<And>x. negligible rt x 0 \<Longrightarrow> is_zero x"
  shows "made_here rt (ElComplex re im)"
  using assms by (auto simp: qdos_cpx_push_def Let_def is_zero_def split: if_splits)

lemma push_stored:
  assumes "runtime_ok rt" "made_here rt e" "session_encode rt e = Some v"
  shows "push_value rt (stored_part v) = Some (comes_back e) \<and> nul \<notin> set (v_s v) \<and> v_type (stored_part v) \<noteq> VALUE_EMPTY"
proof -
  have "nul \<notin> set s \<Longrightarrow> nul \<notin> set (take n s)" for s :: cstring and n by (auto dest: in_set_takeD)
  moreover have "runtime_ok rt \<Longrightarrow> take 239 (qd_d128_format rt q) = qd_d128_format rt q" for q
    unfolding runtime_ok_def by (drule spec [of _ q]) simp
  ultimately show ?thesis using assms
    by (cases e) (auto simp: stored_part_def zero_value_def clip_def QDOS_VALUE_STRING_MAX_def runtime_ok_def qdos_cpx_push_def)
qed

context store_laws
begin

lemma ok_save: "ok d \<Longrightarrow> ok (snd (qdos_storage_save hal k v d))"
  by (simp add: qdos_storage_save_def ok_write)

lemma save_load:
  assumes "ok d" "nul \<notin> set (v_s v)" "qdos_storage_save hal k v d = (STORE_OK, d')"
  shows "qdos_storage_load hal k d' = Inr (stored_part v)"
proof -
  have "store_read hal SCOPE_USER k QDOS_VALUE_ENCODED_MAX d' = Inr (qdos_value_encode v)"
    using read_written [OF assms(1) assms(3) [unfolded qdos_storage_save_def]] length_encode by simp
  then show ?thesis using decode_encode [OF assms(2)] by (simp add: qdos_storage_load_def)
qed

lemma load_frame:
  assumes "ok d" "apart m n"
  shows "qdos_storage_load hal m (snd (qdos_storage_save hal n v d)) = qdos_storage_load hal m d"
  using read_frame [OF assms(1), of SCOPE_USER m n] assms(2)
  by (simp add: qdos_storage_load_def qdos_storage_save_def)

lemma save_values_frame:
  assumes "ok d" "i + length es \<le> 64" "\<forall>j. i \<le> j \<longrightarrow> m \<noteq> SESSION_KEY @ dec2 j"
  shows "ok (snd (save_values hal rt i es d)) \<and>
    qdos_storage_load hal m (snd (save_values hal rt i es d)) = qdos_storage_load hal m d"
  using assms
proof (induction es arbitrary: i d)
  case (Cons e es)
  show ?case
  proof (cases "session_encode rt e")
    case (Some v)
    obtain r d1 where s: "qdos_storage_save hal (SESSION_KEY @ dec2 i) v d = (r, d1)"
      by (cases "qdos_storage_save hal (SESSION_KEY @ dec2 i) v d")
    have "apart m (SESSION_KEY @ dec2 i)" using Cons.prems by (intro plain_apart session_key_plain) auto
    then have "qdos_storage_load hal m d1 = qdos_storage_load hal m d" "ok d1"
      using load_frame [OF Cons.prems(1), of m "SESSION_KEY @ dec2 i" v] ok_save [OF Cons.prems(1), of "SESSION_KEY @ dec2 i" v] s by auto
    then show ?thesis using Cons.IH [of d1 "Suc i"] Cons.prems Some s by (auto simp: session_key_eq)
  qed (use Cons.prems in \<open>simp add: session_key_eq\<close>)
qed simp

lemma save_values_load:
  assumes "ok d" "i + length es \<le> 64" "save_values hal rt i es d = (STORE_OK, d')" "runtime_ok rt"
    "\<forall>e \<in> set es. made_here rt e" "j < length es"
  shows "\<exists>v. session_encode rt (es ! j) = Some v \<and>
    qdos_storage_load hal (SESSION_KEY @ dec2 (i + j)) d' = Inr (stored_part v)"
  using assms
proof (induction es arbitrary: i d j)
  case (Cons e es)
  from Cons.prems obtain v d1 where v: "session_encode rt e = Some v"
    and s: "qdos_storage_save hal (SESSION_KEY @ dec2 i) v d = (STORE_OK, d1)"
    and rest: "save_values hal rt (Suc i) es d1 = (STORE_OK, d')"
    by (auto simp: session_key_eq split: option.splits prod.splits if_splits)
  have ok1: "ok d1" using ok_save [OF Cons.prems(1), of _ v] s by (metis snd_conv)
  show ?case
  proof (cases j)
    case 0
    have "\<forall>j. Suc i \<le> j \<longrightarrow> SESSION_KEY @ dec2 i \<noteq> SESSION_KEY @ dec2 j" by simp
    from save_values_frame [OF ok1 _ this, of es rt] Cons.prems(2) rest
    have "qdos_storage_load hal (SESSION_KEY @ dec2 i) d' = qdos_storage_load hal (SESSION_KEY @ dec2 i) d1" by simp
    moreover have "nul \<notin> set (v_s v)" using push_stored [OF Cons.prems(4) _ v] Cons.prems(5) by simp
    ultimately show ?thesis using save_load [OF Cons.prems(1) _ s] v 0 by simp
  next
    case (Suc j')
    then show ?thesis using Cons.IH [OF ok1 _ rest Cons.prems(4), of j'] Cons.prems by auto
  qed
qed simp

lemma restore_loaded:
  assumes "i + length es \<le> 64"
    "\<And>j. j < length es \<Longrightarrow> \<exists>v. qdos_storage_load hal (SESSION_KEY @ dec2 (i + j)) d = Inr v \<and>
       v_type v \<noteq> VALUE_EMPTY \<and> push_value rt v = Some (es ! j)"
  shows "restore_values hal rt i (length es) d st = (STORE_OK, st @ es)"
  using assms
proof (induction es arbitrary: i st)
  case (Cons e es)
  from Cons.prems(2) [of 0] obtain v where
    v: "qdos_storage_load hal (SESSION_KEY @ dec2 i) d = Inr v" "v_type v \<noteq> VALUE_EMPTY" "push_value rt v = Some e" by auto
  have "restore_values hal rt (Suc i) (length es) d (st @ [e]) = (STORE_OK, (st @ [e]) @ es)"
    using Cons.prems(1) Cons.prems(2) [of "Suc _"] by (intro Cons.IH) auto
  then show ?case using v Cons.prems(1) by (simp add: session_key_eq del: push_value.simps)
qed simp


lemma lost_count:
  assumes "ok d" "qdos_storage_save hal SESSION_LOST_KEY v d = (STORE_OK, d')" "v = int_value n \<or> v = zero_value \<and> n = 0" "n < 2 ^ 63"
  shows "qdos_storage_session_lost hal d' = n"
proof -
  have "qdos_storage_load hal SESSION_LOST_KEY d' = Inr (stored_part v)"
    using assms by (intro save_load [OF assms(1) _ assms(2)]) (auto simp: int_value_def zero_value_def)
  moreover have "unat (of_nat n :: u64) = n" using assms(4) by (simp add: unat_of_nat)
  moreover have "n = 0 \<or> 0 <s (of_nat n :: u64)"
    using sint_small [OF assms(4)] by (auto simp: word_sless_alt)
  ultimately show ?thesis using assms(3)
    by (auto simp: qdos_storage_session_lost_def stored_part_def int_value_def zero_value_def)
qed


lemma session_roundtrip:
  assumes "ok d" "runtime_ok rt" "\<forall>e \<in> set st. made_here rt e"
    and saved: "qdos_storage_save_session hal rt st d = (STORE_OK, d')"
    and n: "n = encodable rt (take 64 st)"
  shows "qdos_storage_restore_session hal rt d' [] = (STORE_OK, map comes_back (take n st))"
proof -
  let ?w = "min (length st) 64"
  have "take ?w st = take 64 st" by (simp add: min_def)
  then have n': "encodable rt (take ?w st) = n" using n by simp
  have nle: "n \<le> 64" "n \<le> length st" using encodable_le [of rt "take 64 st"] n by auto
  from saved obtain d1 d2 k v where
    h: "qdos_storage_save hal SESSION_KEY (int_value n) d = (STORE_OK, d1)" and
    vals: "save_values hal rt 0 (take n st) d1 = (STORE_OK, d2)" and
    d': "d' = snd (qdos_storage_save hal SESSION_LOST_KEY v d2)"
    by (auto simp: qdos_storage_save_session_def SESSION_MAX_def n' Let_def qdos_storage_erase_def
        split: prod.splits if_splits)
  have ok1: "ok d1" using ok_save [OF assms(1)] h by (metis snd_conv)
  have len: "0 + length (take n st) \<le> 64" using nle by simp
  have ok2: "ok d2" and head2: "qdos_storage_load hal SESSION_KEY d2 = qdos_storage_load hal SESSION_KEY d1"
    using save_values_frame [OF ok1 len, of SESSION_KEY rt] vals session_keys by auto
  have keep: "qdos_storage_load hal m d' = qdos_storage_load hal m d2" if "m \<noteq> SESSION_LOST_KEY" for m
    unfolding d' by (rule load_frame [OF ok2 plain_apart]) (use that session_keys in auto)
  have "nul \<notin> set (v_s (int_value n))" by (simp add: int_value_def zero_value_def)
  from save_load [OF assms(1) this h] have head: "qdos_storage_load hal SESSION_KEY d' = Inr (int_value n)"
    using keep [of SESSION_KEY] head2 session_keys
    by (simp add: stored_part_def int_value_def)
  have made: "\<forall>e \<in> set (take n st). made_here rt e" using assms(3) by (auto dest: in_set_takeD)
  have "restore_values hal rt 0 (length (map comes_back (take n st))) d' [] = (STORE_OK, [] @ map comes_back (take n st))"
  proof (rule restore_loaded)
    show "0 + length (map comes_back (take n st)) \<le> 64" using nle by simp
    fix j assume j: "j < length (map comes_back (take n st))"
    from save_values_load [OF ok1 len vals assms(2) made, of j] j obtain v where
      v: "session_encode rt (take n st ! j) = Some v"
         "qdos_storage_load hal (SESSION_KEY @ dec2 (0 + j)) d2 = Inr (stored_part v)" by auto
    have "made_here rt (take n st ! j)" using made j by (metis length_map nth_mem)
    from push_stored [OF assms(2) this v(1)] v(2) keep [of "SESSION_KEY @ dec2 (0 + j)"] session_keys j
    show "\<exists>v. qdos_storage_load hal (SESSION_KEY @ dec2 (0 + j)) d' = Inr v \<and>
        v_type v \<noteq> VALUE_EMPTY \<and> push_value rt v = Some (map comes_back (take n st) ! j)"
      by (auto simp del: push_value.simps)
  qed
  moreover have "unat (of_nat n :: u64) = n" using nle by (simp add: unat_of_nat)
  moreover have "sint (of_nat n :: u64) = int n" using nle by (intro sint_small) simp
  ultimately show ?thesis using head nle
    by (simp add: qdos_storage_restore_session_def int_value_def SESSION_MAX_def word_sless_alt zero_value_def)
qed

end

section \<open>Properties\<close>

text \<open>The directories of the device (\<^verbatim>\<open>esp32/main/hal_esp32.c\<close>) and a card just formatted.\<close>

definition esp32_dirs :: filestore where
  "esp32_dirs = \<lparr>fs_store_dir = ''/data/user'', fs_system_dir = ''/system'', fs_inbox_dir = ''/data/inbox''\<rparr>"

definition esp32_disk :: disk where
  "esp32_disk = [(''/system'', Dir), (''/data'', Dir), (''/data/inbox'', Dir), (''/data/user'', Dir)]"

lemma esp32_dirs_apart: "dirs_apart esp32_dirs"
  unfolding dirs_apart_def by (intro allI; case_tac s; case_tac t) (simp_all add: esp32_dirs_def prefix_of_def)

lemma esp32_disk_ok: "disk_ok esp32_dirs esp32_disk"
  unfolding disk_ok_def
proof
  show "folders_ok esp32_dirs esp32_disk"
    unfolding folders_ok_def by (simp add: esp32_dirs_def esp32_disk_def)
qed (simp add: esp32_dirs_def esp32_disk_def)

text \<open>
  C4. The session survives a power-off: when saving the stack to the file store succeeds, restoring
  it into an empty stack succeeds and gives every value back in order, up to the first that has no
  encoding or the sixty-fourth; integers, floats, complex numbers and decimals exactly, text up to
  the 239 bytes a record holds.
\<close>

theorem session_survives_power_off:
  assumes "dirs_apart fs" and "disk_ok fs d" and "runtime_ok rt" and "\<forall>e \<in> set st. made_here rt e"
    and "qdos_storage_save_session (filestore_hal fs room) rt st d = (STORE_OK, d')"
  shows "qdos_storage_restore_session (filestore_hal fs room) rt d' [] =
    (STORE_OK, map comes_back (take (encodable rt (take 64 st)) st))"
  using assms by (intro fstore.session_roundtrip) auto

definition test_runtime :: "bool runtime" where
  "test_runtime = \<lparr>qd_d128_format = (\<lambda>q. if q then ''0.1'' else ''2''), qd_d128_parse = (\<lambda>s. Some (s = ''0.1'')),
     negligible = (\<lambda>a b. False), decimal_mode = False, of_double = (\<lambda>x. False)\<rparr>"

lemma test_runtime_ok: "runtime_ok test_runtime"
  by (simp add: runtime_ok_def test_runtime_def)

lemma session_survives_power_off_witness:
  "\<exists>d'. qdos_storage_restore_session (filestore_hal esp32_dirs 4096) test_runtime d' [] =
     (STORE_OK, [ElInt 7, ElStr ''hi'', ElD128 True, ElComplex 1 2 :: (unit, bool) element])"
proof -
  let ?st = "[ElInt 7, ElStr ''hi'', ElD128 True, ElComplex 1 2, ElPtr (), ElInt 9] :: (unit, bool) element list"
  obtain r d' where s: "qdos_storage_save_session (filestore_hal esp32_dirs 4096) test_runtime ?st esp32_disk = (r, d')"
    by (cases "qdos_storage_save_session (filestore_hal esp32_dirs 4096) test_runtime ?st esp32_disk")
  have "fst (qdos_storage_save_session (filestore_hal esp32_dirs 4096) test_runtime ?st esp32_disk) = STORE_OK"
    by code_simp
  with s have "qdos_storage_save_session (filestore_hal esp32_dirs 4096) test_runtime ?st esp32_disk = (STORE_OK, d')" by simp
  moreover have "\<forall>e \<in> set ?st. made_here test_runtime e" by code_simp
  ultimately have "qdos_storage_restore_session (filestore_hal esp32_dirs 4096) test_runtime d' [] =
      (STORE_OK, map comes_back (take (encodable test_runtime (take 64 ?st)) ?st))"
    by (intro session_survives_power_off [OF esp32_dirs_apart esp32_disk_ok test_runtime_ok])
  moreover have "map comes_back (take (encodable test_runtime (take 64 ?st)) ?st) =
      [ElInt 7, ElStr ''hi'', ElD128 True, ElComplex 1 2]" by code_simp
  ultimately show ?thesis by (intro exI [of _ d']) (simp only:)
qed

lemma load_at:
  assumes "store_path (fs_store_dir fs) k PATH_CAP = Some path"
  shows "qdos_storage_load (filestore_hal fs room) k d =
    (case map_of d path of
       Some (File bs) \<Rightarrow>
         if QDOS_VALUE_ENCODED_MAX < length bs then Inl STORE_TOO_BIG
         else (case qdos_value_decode bs of Some v \<Rightarrow> Inr v | None \<Rightarrow> Inl STORE_NOT_FOUND)
     | _ \<Rightarrow> Inl STORE_NOT_FOUND)"
proof -
  have "qdos_value_decode [] = None" by (simp add: qdos_value_decode_def HEADER_SIZE_def)
  then show ?thesis using assms
    by (auto simp: qdos_storage_load_def filestore_hal_def qdos_filestore_read_def Let_def split: option.splits node.splits)
qed

text \<open>
  C22. Power lost at any point of saving a value leaves one of three things to read back: the new
  value, the old one, or nothing; never a value that was not saved there. Only a save that is
  reported as done leaves the new value, and it always does.
\<close>

theorem interrupted_save_is_never_misread:
  assumes "nul \<notin> set (v_s v)"
    and "qdos_storage_save (filestore_hal fs room) k v d = (r, d')"
  shows "(r = STORE_OK \<and> qdos_storage_load (filestore_hal fs room) k d' = Inr (stored_part v)) \<or>
    (r = STORE_IO_ERROR \<and> qdos_storage_load (filestore_hal fs room) k d' \<in>
       {qdos_storage_load (filestore_hal fs room) k d, Inl STORE_NOT_FOUND})"
proof -
  from assms(2) have w: "qdos_filestore_write fs room k (qdos_value_encode v) d = (r, d')"
    by (simp add: qdos_storage_save_def filestore_hal_def)
  show ?thesis
  proof (cases "store_path (fs_store_dir fs) k PATH_CAP")
    case None
    then show ?thesis using w by (simp add: qdos_filestore_write_def)
  next
    case (Some path)
    define d1 where "d1 = posix_mkdir (fs_store_dir fs) d"
    define d2 where "d2 = (if find_char (CHR ''/'') k \<noteq> None then posix_mkdir (parent_of path) d1 else d1)"
    have mk: "map_of d2 path = map_of d path \<or> map_of d2 path = Some Dir"
      by (auto simp: d1_def d2_def map_of_mkdir)
    have w2: "(case posix_write room path (qdos_value_encode v) d2 of None \<Rightarrow> (STORE_IO_ERROR, d2)
        | Some (ok, d3) \<Rightarrow> (if ok then STORE_OK else STORE_IO_ERROR, d3)) = (r, d')"
      using w by (simp only: qdos_filestore_write_def Some option.case Let_def d1_def d2_def)
    show ?thesis
    proof (cases "posix_write room path (qdos_value_encode v) d2")
      case None
      with w2 have "r = STORE_IO_ERROR" "d' = d2" by simp_all
      then show ?thesis using mk load_at [OF Some] by auto
    next
      case (Some p)
      then obtain allin d3 where p: "posix_write room path (qdos_value_encode v) d2 = Some (allin, d3)" by (cases p) auto
      with w2 have r: "r = (if allin then STORE_OK else STORE_IO_ERROR)" "d' = d3" by simp_all
      note at = load_at [OF \<open>store_path _ _ _ = Some path\<close>]
      from map_of_write [OF p, of path]
      have m: "map_of d3 path = Some (File (take room (qdos_value_encode v)))" "allin \<longleftrightarrow> length (qdos_value_encode v) \<le> room"
        by auto
      show ?thesis
        using m r at length_encode [of v] decode_encode [OF assms(1)] torn_decode [of room v] by auto
    qed
  qed
qed

lemma interrupted_save_is_never_misread_witness:
  "qdos_storage_load (filestore_hal esp32_dirs 20) ''reg01''
     (snd (qdos_storage_save (filestore_hal esp32_dirs 20) ''reg01'' (zero_value\<lparr>v_type := VALUE_STRING, v_s := ''0123456789''\<rparr>) esp32_disk))
   = Inl STORE_NOT_FOUND"
proof -
  let ?v = "zero_value\<lparr>v_type := VALUE_STRING, v_s := ''0123456789''\<rparr>"
  let ?h = "filestore_hal esp32_dirs 20"
  have "nul \<notin> set (v_s ?v)" by code_simp
  moreover have "fst (qdos_storage_save ?h ''reg01'' ?v esp32_disk) = STORE_IO_ERROR" by code_simp
  moreover have "qdos_storage_load ?h ''reg01'' esp32_disk = Inl STORE_NOT_FOUND" by code_simp
  ultimately show ?thesis
    using interrupted_save_is_never_misread [of ?v esp32_dirs 20 "''reg01''" esp32_disk]
    by (cases "qdos_storage_save ?h ''reg01'' ?v esp32_disk") fastforce
qed

section \<open>Saving succeeds where there is room\<close>

definition no_folder_on :: "filestore \<Rightarrow> disk \<Rightarrow> cstring \<Rightarrow> bool" where
  "no_folder_on fs d k \<longleftrightarrow> map_of d (fs_store_dir fs @ CHR ''/'' # k) \<noteq> Some Dir"

lemma plain_key_ok:
  "CHR ''/'' \<notin> set k \<Longrightarrow> CHR 0x5C \<notin> set k \<Longrightarrow> 2 < length k \<Longrightarrow> qdos_store_name_ok k"
  by (auto simp: store_name_ok_plain component_ok_def)

lemma plain_save:
  assumes "disk_ok fs d" "CHR ''/'' \<notin> set k" "CHR 0x5C \<notin> set k" "2 < length k" "length k \<le> 20"
    "length (fs_store_dir fs) \<le> 490" "QDOS_VALUE_ENCODED_MAX \<le> room" "no_folder_on fs d k"
  shows "\<exists>d'. qdos_storage_save (filestore_hal fs room) k v d = (STORE_OK, d') \<and> disk_ok fs d' \<and>
    (\<forall>m. no_folder_on fs d m \<longrightarrow> no_folder_on fs d' m)"
proof -
  have path: "store_path (fs_store_dir fs) k PATH_CAP = Some (fs_store_dir fs @ CHR ''/'' # k)"
    using plain_key_ok assms by (simp add: store_path_def fits_def PATH_CAP_def)
  have same: "posix_mkdir (fs_store_dir fs) d = d" using assms(1) by (simp add: posix_mkdir_def disk_ok_def)
  have par: "parent_of (fs_store_dir fs @ CHR ''/'' # k) = fs_store_dir fs" using assms(2) by (rule parent_of_append)
  let ?bs = "qdos_value_encode v"
  have "length ?bs \<le> room" using length_encode [of v] assms(7) by simp
  then have "posix_write room (fs_store_dir fs @ CHR ''/'' # k) ?bs d =
      Some (True, AList.update (fs_store_dir fs @ CHR ''/'' # k) (File ?bs) d)"
    using assms(1,8) par by (simp add: posix_write_def disk_ok_def no_folder_on_def)
  then have w: "qdos_storage_save (filestore_hal fs room) k v d =
      (STORE_OK, AList.update (fs_store_dir fs @ CHR ''/'' # k) (File ?bs) d)"
    using path same assms(2) by (simp add: qdos_storage_save_def filestore_hal_def qdos_filestore_write_def)
  moreover from w have "disk_ok fs (AList.update (fs_store_dir fs @ CHR ''/'' # k) (File ?bs) d)"
    using disk_ok_write [OF assms(1), of room k ?bs] by (simp add: qdos_storage_save_def filestore_hal_def)
  ultimately show ?thesis by (auto simp: no_folder_on_def update_conv')
qed

lemma session_names:
  "CHR 0x5C \<notin> set (SESSION_KEY @ dec2 i)" "2 < length (SESSION_KEY @ dec2 i)"
  "CHR 0x5C \<notin> set SESSION_KEY" "2 < length SESSION_KEY" "length SESSION_KEY \<le> 20"
  "CHR 0x5C \<notin> set SESSION_LOST_KEY" "2 < length SESSION_LOST_KEY" "length SESSION_LOST_KEY \<le> 20"
  "i < 64 \<Longrightarrow> length (SESSION_KEY @ dec2 i) \<le> 20"
  by (auto simp: SESSION_KEY_def SESSION_LOST_KEY_def dec2_no length_dec2)

lemma save_values_succeeds:
  assumes "disk_ok fs d" "length (fs_store_dir fs) \<le> 490" "QDOS_VALUE_ENCODED_MAX \<le> room"
    "i + length es \<le> 64" "\<forall>j. no_folder_on fs d (SESSION_KEY @ dec2 j)"
    "\<forall>e \<in> set es. session_encode rt e \<noteq> None"
  shows "\<exists>d'. save_values (filestore_hal fs room) rt i es d = (STORE_OK, d') \<and> disk_ok fs d' \<and>
    (\<forall>m. no_folder_on fs d m \<longrightarrow> no_folder_on fs d' m)"
  using assms
proof (induction es arbitrary: i d)
  case (Cons e es)
  from Cons.prems(6) obtain v where v: "session_encode rt e = Some v" by auto
  from Cons.prems plain_save [of fs d "SESSION_KEY @ dec2 i" room v] session_names session_keys
  obtain d1 where d1: "qdos_storage_save (filestore_hal fs room) (SESSION_KEY @ dec2 i) v d = (STORE_OK, d1)"
    "disk_ok fs d1" "\<forall>m. no_folder_on fs d m \<longrightarrow> no_folder_on fs d1 m" by auto
  have "\<exists>d'. save_values (filestore_hal fs room) rt (Suc i) es d1 = (STORE_OK, d') \<and> disk_ok fs d' \<and>
      (\<forall>m. no_folder_on fs d1 m \<longrightarrow> no_folder_on fs d' m)"
    using Cons.prems d1 by (intro Cons.IH) auto
  then show ?case using d1 v Cons.prems(4) by (auto simp: session_key_eq)
qed simp

text \<open>
  Saving the session succeeds whenever there is room for a record and no folder has the name of
  one of the session's keys, and then the count of values left behind, which the next start owns up
  to, is exactly how many of the values wanted were not saved.
\<close>

theorem session_save_owns_up:
  assumes "dirs_apart fs" and "disk_ok fs d" and "length (fs_store_dir fs) \<le> 490" and "QDOS_VALUE_ENCODED_MAX \<le> room"
    and "\<forall>j. no_folder_on fs d (SESSION_KEY @ dec2 j)"
    and "no_folder_on fs d SESSION_KEY" and "no_folder_on fs d SESSION_LOST_KEY"
  shows "\<exists>d'. qdos_storage_save_session (filestore_hal fs room) rt st d = (STORE_OK, d') \<and>
    qdos_storage_session_lost (filestore_hal fs room) d' = min (length st) 64 - encodable rt (take 64 st)"
proof -
  let ?h = "filestore_hal fs room" and ?n = "encodable rt (take 64 st)" and ?w = "min (length st) 64"
  have tk: "take ?w st = take 64 st" by (simp add: min_def)
  have "?n \<le> length (take 64 st)" by (rule encodable_le)
  then have nle: "?n \<le> ?w" by (simp add: min.commute)
  note small = assms(3,4)
  obtain d1 where d1: "qdos_storage_save ?h SESSION_KEY (int_value ?n) d = (STORE_OK, d1)" "disk_ok fs d1"
    "\<forall>m. no_folder_on fs d m \<longrightarrow> no_folder_on fs d1 m"
    using plain_save [OF assms(2) _ _ _ _ small assms(6)] session_names session_keys by metis
  have enc: "\<forall>e \<in> set (take ?n st). session_encode rt e \<noteq> None"
  proof
    fix e assume "e \<in> set (take ?n st)"
    then obtain j where "j < ?n" "e = st ! j" using nle by (auto simp: in_set_conv_nth)
    then show "session_encode rt e \<noteq> None" using encodable_nth [of j rt "take 64 st"] nle by simp
  qed
  obtain d2 where d2: "save_values ?h rt 0 (take ?n st) d1 = (STORE_OK, d2)" "disk_ok fs d2"
    "\<forall>m. no_folder_on fs d1 m \<longrightarrow> no_folder_on fs d2 m"
    using save_values_succeeds [OF d1(2) small _ _ enc, of 0] d1(3) assms(5) nle by auto
  define v where "v = (if ?n < ?w then int_value (?w - ?n) else zero_value)"
  obtain d3 where d3: "qdos_storage_save ?h SESSION_LOST_KEY v d2 = (STORE_OK, d3)"
    using plain_save [OF d2(2) _ _ _ _ small] session_names session_keys d1(3) d2(3) assms(7) by metis
  have "qdos_storage_save_session ?h rt st d = (STORE_OK, d3)"
    using d1(1) d2(1) d3 by (auto simp: qdos_storage_save_session_def SESSION_MAX_def tk v_def qdos_storage_erase_def Let_def)
  moreover have "qdos_storage_session_lost ?h d3 = ?w - ?n"
    using assms(1) d2(2) d3 nle by (intro fstore.lost_count [where v = v]) (auto simp: v_def)
  ultimately show ?thesis by blast
qed

lemma session_save_owns_up_witness:
  "\<exists>d'. qdos_storage_save_session (filestore_hal esp32_dirs 4096) test_runtime [ElInt 1, ElPtr (), ElInt 2 :: (unit, bool) element]
       esp32_disk = (STORE_OK, d') \<and>
     qdos_storage_session_lost (filestore_hal esp32_dirs 4096) d' = 2"
proof -
  have none: "no_folder_on esp32_dirs esp32_disk k" if "CHR ''/'' \<notin> set k" for k
    using that by (auto simp: no_folder_on_def esp32_dirs_def esp32_disk_def)
  have "length (fs_store_dir esp32_dirs) \<le> 490" "QDOS_VALUE_ENCODED_MAX \<le> 4096"
    by (simp_all add: esp32_dirs_def QDOS_VALUE_ENCODED_MAX_def QDOS_VALUE_STRING_MAX_def)
  from session_save_owns_up [OF esp32_dirs_apart esp32_disk_ok this, of test_runtime "[ElInt 1, ElPtr (), ElInt 2]"]
  show ?thesis using none session_keys by (simp add: numeral_2_eq_2)
qed

lemma register_plain: "CHR ''/'' \<notin> set (''reg'' @ dec2 i)"
  by (auto simp: dec2_no)

text \<open>
  A register keeps what was stored in it, whatever is stored in the others: a store that
  succeeds is recalled, in the type it was stored in, and every other register recalls what it did.
\<close>

theorem registers_are_independent:
  assumes "dirs_apart fs" and "disk_ok fs d" and "nul \<notin> set (v_s v)"
    and "qdos_register_key i 32 = Some k" and "qdos_register_key j 32 = Some m"
    and "qdos_storage_save (filestore_hal fs room) k v d = (STORE_OK, d')"
  shows "qdos_storage_load (filestore_hal fs room) m d' =
    (if i = j then Inr (stored_part v) else qdos_storage_load (filestore_hal fs room) m d)"
proof (cases "i = j")
  case True
  then show ?thesis using assms fstore.save_load [OF _ assms(3,6)] by simp
next
  case False
  from register_key_Some [OF assms(4)] register_key_Some [OF assms(5)] False
  have "apart m k" by (intro plain_apart) (auto simp: dec2_no)
  then show ?thesis using False fstore.load_frame [of fs d m k room v] assms(1,2,6) by simp
qed

lemma registers_are_independent_witness:
  "\<exists>d'. qdos_storage_load (filestore_hal esp32_dirs 4096) ''reg07'' d' = Inr (zero_value\<lparr>v_type := VALUE_INT, v_i := 5\<rparr>)"
proof -
  let ?h = "filestore_hal esp32_dirs 4096" and ?v = "zero_value\<lparr>v_type := VALUE_INT, v_i := 5\<rparr>"
  have "fst (qdos_storage_save ?h ''reg07'' ?v esp32_disk) = STORE_OK" by code_simp
  then obtain d' where d': "qdos_storage_save ?h ''reg07'' ?v esp32_disk = (STORE_OK, d')"
    by (cases "qdos_storage_save ?h ''reg07'' ?v esp32_disk") simp
  have k: "qdos_register_key 7 32 = Some ''reg07''" by code_simp
  have v: "nul \<notin> set (v_s ?v)" "stored_part ?v = ?v" by code_simp+
  from registers_are_independent [OF esp32_dirs_apart esp32_disk_ok v(1) k k d'] v(2) show ?thesis by auto
qed

end
