(* ===== verification/Programs.thy ===== *)
theory Programs
  imports Values "HOL-Library.Code_Target_Nat"
begin

text \<open>
  Programs and apps in the store (\<^verbatim>\<open>src/shell/storage.c\<close>): where a source is kept, saving and
  loading one, erasing, copying under another name, listing and restoring. The store is any backend
  with the interface of FileStore.
\<close>

section \<open>Sources\<close>

definition QDOS_PROGRAM_CAP :: nat where "QDOS_PROGRAM_CAP = 4096"
definition KEY_CAP :: nat where "KEY_CAP = 128"

definition qdos_app_exists :: "'d hal \<Rightarrow> cstring \<Rightarrow> 'd \<Rightarrow> bool" where
  "qdos_app_exists hal name d =
     (case qdos_app_key name QDOS_APP_MAIN KEY_CAP of
        None \<Rightarrow> False
      | Some key \<Rightarrow>
          list_ex (\<lambda>scope.
            (case store_read hal scope key 1 d of
               Inl r \<Rightarrow> r = STORE_TOO_BIG
             | Inr bs \<Rightarrow> 0 < length bs)) all_scopes)"

definition source_key :: "'d hal \<Rightarrow> cstring \<Rightarrow> nat \<Rightarrow> 'd \<Rightarrow> cstring option" where
  "source_key hal name cap d =
     (if qdos_app_exists hal name d then qdos_app_key name QDOS_APP_MAIN cap
      else qdos_program_key name cap)"

definition qdos_program_save :: "'d hal \<Rightarrow> cstring \<Rightarrow> cstring \<Rightarrow> 'd \<Rightarrow> store_result \<times> 'd" where
  "qdos_program_save hal name source d =
     (case source_key hal name KEY_CAP d of
        None \<Rightarrow> (STORE_IO_ERROR, d)
      | Some key \<Rightarrow>
          let len = min (length source) QDOS_PROGRAM_CAP
          in if len = 0 \<or> len = QDOS_PROGRAM_CAP then (STORE_TOO_BIG, d)
             else store_write hal key (map byte_of source) d)"

definition qdos_program_load ::
    "'d hal \<Rightarrow> store_scope \<Rightarrow> cstring \<Rightarrow> nat \<Rightarrow> 'd \<Rightarrow> store_result + cstring" where
  "qdos_program_load hal scope name cap d =
     (case source_key hal name KEY_CAP d of
        None \<Rightarrow> Inl STORE_IO_ERROR
      | Some key \<Rightarrow>
          if cap = 0 then Inl STORE_IO_ERROR
          else (case store_read hal scope key (cap - 1) d of
                  Inl r \<Rightarrow> Inl r
                | Inr bs \<Rightarrow> if 0 < length bs then Inr (c_string bs) else Inl STORE_NOT_FOUND))"

definition qdos_program_in_scope :: "'d hal \<Rightarrow> store_scope \<Rightarrow> cstring \<Rightarrow> 'd \<Rightarrow> bool" where
  "qdos_program_in_scope hal scope name d =
     (case qdos_program_load hal scope name QDOS_PROGRAM_CAP d of Inr _ \<Rightarrow> True | Inl _ \<Rightarrow> False)"

definition qdos_program_is_system :: "'d hal \<Rightarrow> cstring \<Rightarrow> 'd \<Rightarrow> bool" where
  "qdos_program_is_system hal name d = qdos_program_in_scope hal SCOPE_SYSTEM name d"

definition qdos_program_is_user :: "'d hal \<Rightarrow> cstring \<Rightarrow> 'd \<Rightarrow> bool" where
  "qdos_program_is_user hal name d = qdos_program_in_scope hal SCOPE_USER name d"

definition qdos_program_is_inbox :: "'d hal \<Rightarrow> cstring \<Rightarrow> 'd \<Rightarrow> bool" where
  "qdos_program_is_inbox hal name d = qdos_program_in_scope hal SCOPE_INBOX name d"

definition qdos_program_is_readonly :: "'d hal \<Rightarrow> cstring \<Rightarrow> 'd \<Rightarrow> bool" where
  "qdos_program_is_readonly hal name d \<longleftrightarrow>
     qdos_program_in_scope hal SCOPE_SYSTEM name d \<or> qdos_program_in_scope hal SCOPE_INBOX name d"

section \<open>Folders\<close>

definition APP_FILES_MAX :: nat where "APP_FILES_MAX = 32"
definition COPY_MAX :: nat where "COPY_MAX = 16 * 1024 * 1024"

text \<open>The walk over a folder's files: each once, none of its folders, at most so many.\<close>

definition collect_leaf :: "cstring \<Rightarrow> cstring list \<Rightarrow> cstring list \<times> bool" where
  "collect_leaf entry w =
     (let len = length entry
      in if len = 0 \<or> len \<ge> NAME_MAX \<or> last entry = DIR_MARK then (w, True)
         else if entry \<in> set w then (w, True)
         else if length w \<ge> APP_FILES_MAX then (w, False)
         else (w @ [entry], True))"

text \<open>One call of \<open>store_list\<close>: a listing that fails visits nothing.\<close>

definition list_visit ::
    "'d hal \<Rightarrow> store_scope \<Rightarrow> cstring option \<Rightarrow> (cstring \<Rightarrow> 's \<Rightarrow> 's \<times> bool) \<Rightarrow> 'd \<Rightarrow> 's \<Rightarrow> 's" where
  "list_visit hal scope folder visit d s =
     (case store_list hal of
        None \<Rightarrow> s
      | Some ls \<Rightarrow> (case ls scope folder d of Inl _ \<Rightarrow> s | Inr names \<Rightarrow> visit_all visit names s))"

text \<open>The loop that removes the files walked.\<close>

fun remove_leaves ::
    "(cstring \<Rightarrow> 'd \<Rightarrow> store_result \<times> 'd) \<Rightarrow> cstring \<Rightarrow> cstring list \<Rightarrow> 'd \<Rightarrow> 'd" where
  "remove_leaves rm name [] d = d"
| "remove_leaves rm name (l # ls) d =
     (case qdos_app_key name l KEY_CAP of
        None \<Rightarrow> remove_leaves rm name ls d
      | Some key \<Rightarrow> remove_leaves rm name ls (snd (rm key d)))"

definition remove_folder ::
    "'d hal \<Rightarrow> (cstring \<Rightarrow> 'd \<Rightarrow> store_result \<times> 'd) \<Rightarrow> cstring \<Rightarrow> 'd \<Rightarrow> store_result \<times> 'd" where
  "remove_folder hal rm name d =
     (let walk = list_visit hal SCOPE_USER (Some name) collect_leaf d []
      in rm name (remove_leaves rm name walk d))"

definition qdos_program_erase :: "'d hal \<Rightarrow> cstring \<Rightarrow> 'd \<Rightarrow> store_result \<times> 'd" where
  "qdos_program_erase hal name d =
     (case source_key hal name KEY_CAP d of
        None \<Rightarrow> (STORE_IO_ERROR, d)
      | Some key \<Rightarrow>
          (case store_remove hal of
             None \<Rightarrow> store_write hal key [] d
           | Some rm \<Rightarrow>
               if \<not> qdos_app_exists hal name d \<or> qdos_program_is_readonly hal name d then rm key d
               else remove_folder hal rm name d))"

section \<open>Renaming the word in a source\<close>

definition word_char :: "char \<Rightarrow> bool" where
  "word_char c \<longleftrightarrow> is_lower c \<or> is_upper c \<or> is_digit c \<or> c = CHR ''_''"

text \<open>
  The loops over one run of the source, each giving the length of it: a line comment, the inside of a
  block comment with its end, the inside of a string with its closing quote, a word.
\<close>

fun line_comment :: "cstring \<Rightarrow> nat" where
  "line_comment [] = 0"
| "line_comment (c # cs) = (if c = newline then 0 else Suc (line_comment cs))"

fun block_comment :: "cstring \<Rightarrow> nat" where
  "block_comment [] = 0"
| "block_comment (c # cs) =
     (if c = CHR ''*'' \<and> char_at cs 0 = CHR ''/'' then 2 else Suc (block_comment cs))"

fun string_rest :: "cstring \<Rightarrow> nat" where
  "string_rest [] = 0"
| "string_rest [c] = 1"
| "string_rest (c # d # cs) =
     (if c = CHR 0x22 then 1
      else if c = CHR 0x5C then 2 + string_rest cs
      else Suc (string_rest (d # cs)))"

fun word_run :: "cstring \<Rightarrow> nat" where
  "word_run [] = 0"
| "word_run (c # cs) = (if word_char c then Suc (word_run cs) else 0)"

text \<open>How much of the source the next step takes, from its first characters.\<close>

definition run_length :: "cstring \<Rightarrow> nat" where
  "run_length p =
     (if char_at p 0 = CHR ''/'' \<and> char_at p 1 = CHR ''/'' then line_comment p
      else if char_at p 0 = CHR ''/'' \<and> char_at p 1 = CHR ''*'' then 2 + block_comment (drop 2 p)
      else if char_at p 0 = CHR 0x22 then 1 + string_rest (drop 1 p)
      else if word_char (char_at p 0) then word_run p
      else 1)"

definition is_word_run :: "cstring \<Rightarrow> bool" where
  "is_word_run p \<longleftrightarrow>
     \<not> (char_at p 0 = CHR ''/'' \<and> char_at p 1 = CHR ''/'') \<and>
     \<not> (char_at p 0 = CHR ''/'' \<and> char_at p 1 = CHR ''*'') \<and>
     char_at p 0 \<noteq> CHR 0x22 \<and> word_char (char_at p 0)"

text \<open>
  The main loop: \<open>before\<close> is what of the source is behind, \<open>p\<close> what is ahead and \<open>out\<close> what has
  been written. Another module's scope, or a name inside one, is not the word.
\<close>

definition scoped_run :: "cstring \<Rightarrow> cstring \<Rightarrow> bool" where
  "scoped_run before rest \<longleftrightarrow>
     (2 \<le> length before \<and> before ! (length before - 1) = CHR '':'' \<and> before ! (length before - 2) = CHR '':'') \<or>
     (char_at rest 0 = CHR '':'' \<and> char_at rest 1 = CHR '':'')"

lemma run_length_pos: "p \<noteq> [] \<Longrightarrow> 0 < run_length p"
  by (cases p) (auto simp: run_length_def char_at_def)

function rename_from :: "cstring \<Rightarrow> cstring \<Rightarrow> nat \<Rightarrow> cstring \<Rightarrow> cstring \<Rightarrow> cstring \<Rightarrow> cstring option" where
  "rename_from from to cap before [] out = Some out"
| "rename_from from to cap before (c # cs) out =
     (let p = c # cs;
          n = run_length p;
          run = take n p;
          rest = drop n p;
          put = (if is_word_run p \<and> \<not> scoped_run before rest \<and> run = from then to else run)
      in if length out + length put \<ge> cap then None
         else rename_from from to cap (before @ run) rest (out @ put))"
  by pat_completeness auto
termination
  by (relation "measure (\<lambda>(f, t, cap, b, p, out). length p)") (simp_all add: run_length_pos)

definition qdos_source_rename :: "cstring \<Rightarrow> cstring \<Rightarrow> cstring \<Rightarrow> nat \<Rightarrow> cstring option" where
  "qdos_source_rename src from to cap = rename_from from to cap [] src []"

section \<open>Copying\<close>

definition NEAREST :: "store_scope list" where
  "NEAREST = [SCOPE_USER, SCOPE_INBOX, SCOPE_SYSTEM]"

text \<open>One scope: the buffer doubles until the entry fits or is too large to copy.\<close>

function read_scope :: "'d hal \<Rightarrow> store_scope \<Rightarrow> cstring \<Rightarrow> nat \<Rightarrow> 'd \<Rightarrow> byte list option" where
  "read_scope hal scope key cap d =
     (if cap = 0 \<or> cap > COPY_MAX then None
      else (case store_read hal scope key cap d of
              Inr bs \<Rightarrow> if 0 < length bs then Some bs else None
            | Inl r \<Rightarrow> if r \<noteq> STORE_TOO_BIG then None else read_scope hal scope key (cap * 2) d))"
  by pat_completeness auto
termination
  by (relation "measure (\<lambda>(hal, scope, key, cap, d). COPY_MAX + 1 - cap)") auto

declare read_scope.simps [simp del]

fun read_whole :: "'d hal \<Rightarrow> cstring \<Rightarrow> store_scope list \<Rightarrow> 'd \<Rightarrow> byte list option" where
  "read_whole hal key [] d = None"
| "read_whole hal key (s # ss) d =
     (case read_scope hal s key QDOS_PROGRAM_CAP d of
        Some bs \<Rightarrow> Some bs
      | None \<Rightarrow> read_whole hal key ss d)"

text \<open>Every file of a folder, wherever it is.\<close>

definition walk_app :: "'d hal \<Rightarrow> cstring \<Rightarrow> 'd \<Rightarrow> cstring list" where
  "walk_app hal app d = fold (\<lambda>scope w. list_visit hal scope (Some app) collect_leaf d w) all_scopes []"

fun copy_leaves :: "'d hal \<Rightarrow> cstring \<Rightarrow> cstring \<Rightarrow> cstring list \<Rightarrow> 'd \<Rightarrow> store_result \<times> 'd" where
  "copy_leaves hal from to [] d = (STORE_OK, d)"
| "copy_leaves hal from to (l # ls) d =
     (case (qdos_app_key from l KEY_CAP, qdos_app_key to l KEY_CAP) of
        (Some src, Some dst) \<Rightarrow>
          (case read_whole hal src NEAREST d of
             None \<Rightarrow> copy_leaves hal from to ls d
           | Some bs \<Rightarrow>
               let (r, d1) = store_write hal dst bs d
               in if r = STORE_OK then copy_leaves hal from to ls d1 else (r, d1))
      | _ \<Rightarrow> (STORE_IO_ERROR, d))"

definition copy_app :: "'d hal \<Rightarrow> cstring \<Rightarrow> cstring \<Rightarrow> 'd \<Rightarrow> store_result \<times> 'd" where
  "copy_app hal from to d =
     (let (r, d1) = copy_leaves hal from to (walk_app hal from d) d;
          result = (if r = STORE_OK \<and> \<not> qdos_app_exists hal to d1 then STORE_IO_ERROR else r)
      in if result = STORE_OK then (STORE_OK, d1)
         else (case store_remove hal of
                 None \<Rightarrow> (result, d1)
               | Some rm \<Rightarrow> (result, snd (remove_folder hal rm to d1))))"

text \<open>The source from the nearest scope that has it.\<close>

fun load_nearest :: "'d hal \<Rightarrow> store_scope list \<Rightarrow> cstring \<Rightarrow> 'd \<Rightarrow> cstring option" where
  "load_nearest hal [] name d = None"
| "load_nearest hal (s # ss) name d =
     (case qdos_program_load hal s name QDOS_PROGRAM_CAP d of
        Inr source \<Rightarrow> Some source
      | Inl _ \<Rightarrow> load_nearest hal ss name d)"

definition qdos_program_copy :: "'d hal \<Rightarrow> cstring \<Rightarrow> cstring \<Rightarrow> 'd \<Rightarrow> store_result \<times> 'd" where
  "qdos_program_copy hal from to d =
     (if \<not> valid_program_name to \<or> store_list hal = None then (STORE_IO_ERROR, d)
      else if qdos_app_exists hal from d then copy_app hal from to d
      else (case load_nearest hal NEAREST from d of
              None \<Rightarrow> (STORE_NOT_FOUND, d)
            | Some source \<Rightarrow>
                (case qdos_source_rename source from to QDOS_PROGRAM_CAP of
                   None \<Rightarrow> (STORE_TOO_BIG, d)
                 | Some renamed \<Rightarrow>
                     (case qdos_program_key to KEY_CAP of
                        None \<Rightarrow> (STORE_IO_ERROR, d)
                      | Some key \<Rightarrow> store_write hal key (map byte_of renamed) d))))"

section \<open>An app's other files\<close>

text \<open>\<open>qsort\<close> with a comparison.\<close>

fun insert_by :: "('a \<Rightarrow> 'a \<Rightarrow> bool) \<Rightarrow> 'a \<Rightarrow> 'a list \<Rightarrow> 'a list" where
  "insert_by before x [] = [x]"
| "insert_by before x (y # ys) = (if before y x then y # insert_by before x ys else x # y # ys)"

definition qsort :: "('a \<Rightarrow> 'a \<Rightarrow> bool) \<Rightarrow> 'a list \<Rightarrow> 'a list" where
  "qsort before xs = foldr (insert_by before) xs []"

definition other_source :: "cstring \<Rightarrow> bool" where
  "other_source leaf \<longleftrightarrow>
     length leaf > length PROGRAM_SUFFIX \<and> suffix_of PROGRAM_SUFFIX leaf \<and> leaf \<noteq> QDOS_APP_MAIN"

definition qdos_app_sources :: "'d hal \<Rightarrow> cstring \<Rightarrow> nat \<Rightarrow> 'd \<Rightarrow> cstring list" where
  "qdos_app_sources hal app cap d =
     (if store_list hal = None then []
      else qsort str_less (take cap (filter other_source (walk_app hal app d))))"

fun app_file_from :: "'d hal \<Rightarrow> store_scope list \<Rightarrow> cstring \<Rightarrow> nat \<Rightarrow> 'd \<Rightarrow> store_result + cstring" where
  "app_file_from hal [] key cap d = Inl STORE_NOT_FOUND"
| "app_file_from hal (s # ss) key cap d =
     (case store_read hal s key (cap - 1) d of
        Inr bs \<Rightarrow> if 0 < length bs then Inr (c_string bs) else app_file_from hal ss key cap d
      | Inl r \<Rightarrow> if r = STORE_TOO_BIG then Inl r else app_file_from hal ss key cap d)"

definition qdos_app_file_load ::
    "'d hal \<Rightarrow> cstring \<Rightarrow> cstring \<Rightarrow> nat \<Rightarrow> 'd \<Rightarrow> store_result + cstring" where
  "qdos_app_file_load hal app leaf cap d =
     (if cap = 0 then Inl STORE_IO_ERROR
      else (case qdos_app_key app leaf KEY_CAP of
              None \<Rightarrow> Inl STORE_IO_ERROR
            | Some key \<Rightarrow> app_file_from hal NEAREST key cap d))"

section \<open>The list of programs\<close>

record program_entry =
  e_name :: cstring
  e_system :: bool
  e_inbox :: bool
  e_user :: bool
  e_app :: bool

fun mark_origin :: "store_scope \<Rightarrow> program_entry \<Rightarrow> program_entry" where
  "mark_origin SCOPE_SYSTEM e = e\<lparr>e_system := True\<rparr>"
| "mark_origin SCOPE_INBOX e = e\<lparr>e_inbox := True\<rparr>"
| "mark_origin SCOPE_USER e = e\<lparr>e_user := True\<rparr>"

text \<open>The name a listed entry has as a program, and whether it is an app.\<close>

definition stem_of :: "cstring \<Rightarrow> cstring option" where
  "stem_of entry =
     (let len = length entry; n = len - length PROGRAM_SUFFIX
      in if len \<le> length PROGRAM_SUFFIX \<or> \<not> suffix_of PROGRAM_SUFFIX entry then None
         else if n \<ge> NAME_MAX then None
         else Some (take n entry))"

definition entry_name :: "cstring \<Rightarrow> (cstring \<times> bool) option" where
  "entry_name entry =
     (case qdos_app_name entry NAME_MAX of
        Some n \<Rightarrow> Some (n, True)
      | None \<Rightarrow> map_option (\<lambda>n. (n, False)) (stem_of entry))"

text \<open>Marks the first entry of that name; \<open>None\<close> when there is none.\<close>

fun mark_named :: "cstring \<Rightarrow> store_scope \<Rightarrow> program_entry list \<Rightarrow> program_entry list option" where
  "mark_named name scope [] = None"
| "mark_named name scope (e # es) =
     (if e_name e = name then Some (mark_origin scope e # es)
      else map_option ((#) e) (mark_named name scope es))"

definition gather_one ::
    "'d hal \<Rightarrow> 'd \<Rightarrow> nat \<Rightarrow> store_scope \<Rightarrow> cstring \<Rightarrow> program_entry list \<Rightarrow> program_entry list \<times> bool" where
  "gather_one hal d cap scope entry w =
     (case entry_name entry of
        None \<Rightarrow> (w, True)
      | Some (name, app) \<Rightarrow>
          (case qdos_program_load hal scope name QDOS_PROGRAM_CAP d of
             Inl _ \<Rightarrow> (w, True)
           | Inr _ \<Rightarrow>
               (case mark_named name scope w of
                  Some w' \<Rightarrow> (w', True)
                | None \<Rightarrow>
                    if length w \<ge> cap then (w, False)
                    else (w @ [mark_origin scope
                       \<lparr>e_name = clip NAME_MAX name, e_system = False, e_inbox = False, e_user = False, e_app = app\<rparr>], True))))"

definition entry_rank :: "program_entry \<Rightarrow> nat" where
  "entry_rank e = (if e_user e then 0 else if e_inbox e then 1 else 2)"

definition entry_before :: "program_entry \<Rightarrow> program_entry \<Rightarrow> bool" where
  "entry_before a b =
     (if entry_rank a \<noteq> entry_rank b then entry_rank a < entry_rank b else str_less (e_name a) (e_name b))"

definition qdos_programs_gather :: "'d hal \<Rightarrow> nat \<Rightarrow> 'd \<Rightarrow> program_entry list" where
  "qdos_programs_gather hal cap d =
     (if store_list hal = None \<or> cap = 0 then []
      else qsort entry_before
             (fold (\<lambda>scope w. list_visit hal scope None (gather_one hal d cap scope) d w) all_scopes []))"

section \<open>Declaring stored programs at start\<close>

text \<open>The interpreter, as the runtime gives it: evaluation guarded against a crash, the word the last
  evaluation declared, and its stack.\<close>

record 'i interp =
  guarded_eval :: "cstring \<Rightarrow> 'i \<Rightarrow> bool \<times> 'i"
  last_declared :: "'i \<Rightarrow> cstring option"
  depth :: "'i \<Rightarrow> nat"
  pop :: "'i \<Rightarrow> 'i option"

definition restore_one ::
    "'d hal \<Rightarrow> 'd \<Rightarrow> 'i interp \<Rightarrow> store_scope \<Rightarrow> cstring \<Rightarrow> 'i \<times> nat \<Rightarrow> ('i \<times> nat) \<times> bool" where
  "restore_one hal d it scope entry w =
     (if entry \<noteq> [] \<and> last entry = DIR_MARK then (w, True)
      else (case stem_of entry of
              None \<Rightarrow> (w, True)
            | Some name \<Rightarrow>
                (case qdos_program_load hal scope name QDOS_PROGRAM_CAP d of
                   Inl _ \<Rightarrow> (w, True)
                 | Inr source \<Rightarrow>
                     let (ok, i') = guarded_eval it source (fst w)
                     in ((i', if ok \<and> last_declared it i' \<noteq> None then snd w + 1 else snd w), True))))"

text \<open>The loop that pops back to the depth before, \<open>n\<close> pops at most.\<close>

fun trim :: "'i interp \<Rightarrow> nat \<Rightarrow> nat \<Rightarrow> 'i \<Rightarrow> 'i" where
  "trim it before 0 i = i"
| "trim it before (Suc n) i =
     (if depth it i > before then (case pop it i of Some i' \<Rightarrow> trim it before n i' | None \<Rightarrow> i) else i)"

definition qdos_programs_restore ::
    "'d hal \<Rightarrow> store_scope \<Rightarrow> 'i interp \<Rightarrow> 'd \<Rightarrow> 'i \<Rightarrow> int \<times> 'i" where
  "qdos_programs_restore hal scope it d i =
     (if store_list hal = None then (-1, i)
      else
        let before = depth it i;
            (i', declared) = list_visit hal scope None (restore_one hal d it scope) d (i, 0)
        in (int declared, trim it before (depth it i') i'))"

section \<open>Where a source is\<close>

definition main_key :: "cstring \<Rightarrow> cstring" where
  "main_key n = n @ ''/'' @ QDOS_APP_MAIN"

definition loose_key :: "cstring \<Rightarrow> cstring" where
  "loose_key n = n @ PROGRAM_SUFFIX"

lemma valid_length: "valid_program_name n \<Longrightarrow> length n < 61"
  by (auto simp: valid_program_name_def NAME_MAX_def PROGRAM_SUFFIX_def)

lemma app_key_eq: "qdos_app_key n QDOS_APP_MAIN KEY_CAP = (if valid_program_name n then Some (main_key n) else None)"
  using valid_length [of n] by (cases "valid_program_name n") (simp_all add: qdos_app_key_def fits_def QDOS_APP_MAIN_def main_key_def KEY_CAP_def)

lemma program_key_eq: "qdos_program_key n KEY_CAP = (if valid_program_name n then Some (loose_key n) else None)"
  using valid_length [of n] by (cases "valid_program_name n") (simp_all add: qdos_program_key_def fits_def PROGRAM_SUFFIX_def loose_key_def KEY_CAP_def)

lemma source_key_eq:
  "source_key hal n KEY_CAP d =
     (if \<not> valid_program_name n then None
      else Some (if qdos_app_exists hal n d then main_key n else loose_key n))"
  by (simp add: source_key_def app_key_eq program_key_eq)

lemma folder_of_main: "valid_program_name n \<Longrightarrow> folder_of (main_key n) = n"
  using valid_program_name_no [of n] by (simp add: main_key_def folder_of_folder)

lemma folder_of_loose: "valid_program_name n \<Longrightarrow> folder_of (loose_key n) = loose_key n"
  using valid_program_name_no [of n] by (intro folder_of_plain) (simp add: loose_key_def PROGRAM_SUFFIX_def)

lemma key_chars:
  "valid_program_name n \<Longrightarrow> CHR ''/'' \<in> set (main_key n)"
  "valid_program_name n \<Longrightarrow> CHR ''/'' \<notin> set (loose_key n)"
  "CHR ''.'' \<in> set (main_key n)" "CHR ''.'' \<in> set (loose_key n)"
  using valid_program_name_no [of n] by (auto simp: main_key_def loose_key_def PROGRAM_SUFFIX_def QDOS_APP_MAIN_def)

lemma keys_differ:
  assumes "valid_program_name n" "valid_program_name m"
  shows "main_key m \<noteq> loose_key n" "loose_key m \<noteq> main_key n" "main_key m \<noteq> n" "loose_key m \<noteq> n"
    "main_key m = main_key n \<longleftrightarrow> m = n" "loose_key m = loose_key n \<longleftrightarrow> m = n"
proof -
  show "main_key m \<noteq> loose_key n" using key_chars(1) [OF assms(2)] key_chars(2) [OF assms(1)] by metis
  show "loose_key m \<noteq> main_key n" using key_chars(1) [OF assms(1)] key_chars(2) [OF assms(2)] by metis
  show "main_key m \<noteq> n" using key_chars(3) [of m] valid_program_name_no [OF assms(1)] by metis
  show "loose_key m \<noteq> n" using key_chars(4) [of m] valid_program_name_no [OF assms(1)] by metis
qed (simp_all add: main_key_def loose_key_def)

lemma source_keys_apart:
  assumes "valid_program_name n" "valid_program_name m" "k = main_key n \<or> k = loose_key n"
  shows "m \<noteq> n \<Longrightarrow> apart (main_key m) k" "m \<noteq> n \<Longrightarrow> apart (loose_key m) k"
    "k = loose_key n \<Longrightarrow> apart (main_key m) k"
  using assms(3) keys_differ [OF assms(1,2)] folder_of_main [OF assms(1)] folder_of_loose [OF assms(1)]
  by (auto simp: apart_def)

lemma app_exists_eq:
  assumes "valid_program_name n"
  shows "qdos_app_exists hal n d \<longleftrightarrow>
     (\<exists>s. case store_read hal s (main_key n) 1 d of Inl r \<Rightarrow> r = STORE_TOO_BIG | Inr bs \<Rightarrow> 0 < length bs)"
proof -
  have "(\<exists>s \<in> set all_scopes. P s) \<longleftrightarrow> (\<exists>s. P s)" for P
    unfolding all_scopes_def by (metis store_scope.exhaust list.set_intros)
  then show ?thesis using assms by (simp add: qdos_app_exists_def app_key_eq list_ex_iff)
qed

lemma app_exists_invalid: "\<not> valid_program_name n \<Longrightarrow> \<not> qdos_app_exists hal n d"
  by (simp add: qdos_app_exists_def app_key_eq)

lemma app_exists_cong:
  assumes "valid_program_name n \<Longrightarrow> (\<And>s. store_read hal s (main_key n) 1 d' = store_read hal s (main_key n) 1 d)"
  shows "qdos_app_exists hal n d' = qdos_app_exists hal n d"
  using assms app_exists_invalid [of n hal] app_exists_eq [of n hal] by (cases "valid_program_name n") auto

lemma program_load_eq:
  "0 < cap \<Longrightarrow> valid_program_name n \<Longrightarrow> qdos_program_load hal s n cap d =
     (case store_read hal s (if qdos_app_exists hal n d then main_key n else loose_key n) (cap - 1) d of
        Inl r \<Rightarrow> Inl r
      | Inr bs \<Rightarrow> if 0 < length bs then Inr (c_string bs) else Inl STORE_NOT_FOUND)"
  by (simp add: qdos_program_load_def source_key_eq)

lemma program_load_cong:
  assumes "qdos_app_exists hal n d' = qdos_app_exists hal n d"
    and "valid_program_name n \<Longrightarrow> (\<And>cap. store_read hal s (if qdos_app_exists hal n d then main_key n else loose_key n) cap d' =
       store_read hal s (if qdos_app_exists hal n d then main_key n else loose_key n) cap d)"
  shows "qdos_program_load hal s n cap d' = qdos_program_load hal s n cap d"
  using assms by (cases "valid_program_name n") (simp_all add: qdos_program_load_def source_key_eq)

context store_laws
begin

text \<open>A write to one program's source, whether or not it succeeds, leaves every other's.\<close>

lemma write_other_program:
  assumes "ok d" "valid_program_name n" "k = main_key n \<or> k = loose_key n" "m \<noteq> n"
  shows "qdos_program_load hal s m cap (snd (store_write hal k bs d)) = qdos_program_load hal s m cap d \<and>
    qdos_app_exists hal m (snd (store_write hal k bs d)) = qdos_app_exists hal m d"
proof -
  have "qdos_app_exists hal m (snd (store_write hal k bs d)) = qdos_app_exists hal m d"
    using source_keys_apart [OF assms(2) _ assms(3), of m] assms(1,4)
    by (intro app_exists_cong read_frame) auto
  then show ?thesis using source_keys_apart [OF assms(2) _ assms(3), of m] assms(1,4)
    by (intro conjI program_load_cong read_frame) auto
qed

lemma main_there:
  assumes "ok d" "valid_program_name n" "store_write hal (main_key n) bs d = (STORE_OK, d')" "bs \<noteq> []"
  shows "qdos_app_exists hal n d'"
proof -
  have "store_read hal SCOPE_USER (main_key n) 1 d' = (if length bs \<le> 1 then Inr bs else Inl STORE_TOO_BIG)"
    using read_written [OF assms(1,3)] .
  then show ?thesis using assms(2,4) by (subst app_exists_eq) (auto intro!: exI [of _ SCOPE_USER])
qed

lemma program_save_split:
  assumes "qdos_program_save hal n src d = (STORE_OK, d')"
  obtains k where "valid_program_name n" "k = (if qdos_app_exists hal n d then main_key n else loose_key n)"
    "src \<noteq> []" "length src < 4096" "store_write hal k (map byte_of src) d = (STORE_OK, d')"
  using assms by (auto simp: qdos_program_save_def source_key_eq Let_def QDOS_PROGRAM_CAP_def min_def split: if_splits)

lemma app_exists_after_save:
  assumes "ok d" "qdos_program_save hal n src d = (STORE_OK, d')"
  shows "qdos_app_exists hal n d' = qdos_app_exists hal n d"
proof -
  from program_save_split [OF assms(2)] obtain k where k: "valid_program_name n"
    "k = (if qdos_app_exists hal n d then main_key n else loose_key n)" "src \<noteq> []"
    "store_write hal k (map byte_of src) d = (STORE_OK, d')" by metis
  show ?thesis
  proof (cases "qdos_app_exists hal n d")
    case True
    then show ?thesis using main_there [OF assms(1) k(1), of "map byte_of src" d'] k by simp
  next
    case False
    then have "apart (main_key n) k" using k source_keys_apart(3) [OF k(1) k(1), of k] by simp
    then show ?thesis using read_frame [OF assms(1), of _ "main_key n" k 1 "map byte_of src"] k(4)
      by (intro app_exists_cong) auto
  qed
qed

lemma save_then_load:
  assumes "ok d" "nul \<notin> set src" "length src < cap" "qdos_program_save hal n src d = (STORE_OK, d')"
  shows "qdos_program_load hal SCOPE_USER n cap d' = Inr src"
proof -
  from program_save_split [OF assms(4)] obtain k where k: "valid_program_name n"
    "k = (if qdos_app_exists hal n d then main_key n else loose_key n)" "src \<noteq> []"
    "store_write hal k (map byte_of src) d = (STORE_OK, d')" by metis
  from read_written [OF assms(1) k(4), of "cap - 1"] assms(3) k(3)
  have "store_read hal SCOPE_USER k (cap - 1) d' = Inr (map byte_of src)" by auto
  then show ?thesis using k app_exists_after_save [OF assms(1,4)] assms(2,3)
    by (simp add: program_load_eq)
qed

end

section \<open>Erasing\<close>

lemma app_leaf_key: "qdos_app_key n l c = Some k \<Longrightarrow> k = n @ CHR ''/'' # l"
  by (drule app_key_Some) simp

lemma leaf_not_other:
  assumes "valid_program_name n" "valid_program_name m" "m \<noteq> n"
  shows "main_key m \<noteq> n @ CHR ''/'' # l" "loose_key m \<noteq> n @ CHR ''/'' # l"
proof -
  show "main_key m \<noteq> n @ CHR ''/'' # l"
    using assms valid_program_name_no [of n] valid_program_name_no [of m]
    by (auto simp: main_key_def dest: append_char_eq)
  have "CHR ''/'' \<notin> set (loose_key m)" using assms(2) by (rule key_chars)
  then show "loose_key m \<noteq> n @ CHR ''/'' # l" by auto
qed

context store_removal
begin

lemma remove_other:
  assumes "ok d" "valid_program_name n" "m \<noteq> n" "k = n \<or> k = loose_key n \<or> (\<exists>l. k = n @ CHR ''/'' # l)"
  shows "qdos_program_load hal s m cap (snd (rm k d)) = qdos_program_load hal s m cap d \<and>
    qdos_app_exists hal m (snd (rm k d)) = qdos_app_exists hal m d"
proof -
  have ne: "valid_program_name m \<Longrightarrow> main_key m \<noteq> k \<and> loose_key m \<noteq> k"
    using keys_differ [of n m] leaf_not_other [of n m] assms(2-4) by blast
  then have "qdos_app_exists hal m (snd (rm k d)) = qdos_app_exists hal m d"
    using assms(1) by (intro app_exists_cong remove_frame) auto
  then show ?thesis using ne assms(1) by (intro conjI program_load_cong remove_frame) auto
qed

lemma remove_leaves_other:
  assumes "ok d" "valid_program_name n" "m \<noteq> n"
  shows "ok (remove_leaves rm n ls d) \<and>
    qdos_program_load hal s m cap (remove_leaves rm n ls d) = qdos_program_load hal s m cap d \<and>
    qdos_app_exists hal m (remove_leaves rm n ls d) = qdos_app_exists hal m d"
  using assms(1)
proof (induction ls arbitrary: d)
  case (Cons l ls)
  then show ?case using ok_remove [of d] remove_other [OF _ assms(2,3), of d]
    by (auto split: option.split dest!: app_leaf_key)
qed simp

lemma remove_leaves_scope:
  assumes "ok d" "s \<noteq> SCOPE_USER"
  shows "ok (remove_leaves rm n ls d) \<and>
    store_read hal s m cap (remove_leaves rm n ls d) = store_read hal s m cap d"
  using assms(1)
proof (induction ls arbitrary: d)
  case (Cons l ls)
  then show ?case using ok_remove [of d] remove_frame [of d s m] assms(2) by (auto split: option.split)
qed simp

lemma erase_other:
  assumes "ok d" "m \<noteq> n"
  shows "qdos_program_load hal s m cap (snd (qdos_program_erase hal n d)) = qdos_program_load hal s m cap d"
proof (cases "valid_program_name n")
  case True
  then show ?thesis
    using remove_other [OF _ True assms(2), of d] remove_leaves_other [OF assms(1) True assms(2)] assms(1)
      remove_other [OF _ True assms(2), of "remove_leaves rm n ls d" for ls]
    by (auto simp: qdos_program_erase_def source_key_eq has_remove remove_folder_def Let_def main_key_def)
qed (simp add: qdos_program_erase_def source_key_eq)

lemma erase_scope:
  assumes "ok d" "s \<noteq> SCOPE_USER"
  shows "store_read hal s m cap (snd (qdos_program_erase hal n d)) = store_read hal s m cap d"
  using assms remove_frame [of _ s m] remove_leaves_scope [of d s]
  by (auto simp: qdos_program_erase_def source_key_eq has_remove remove_folder_def Let_def)

end

context folder_removal
begin

lemma ok_remove_leaves: "ok d \<Longrightarrow> ok (remove_leaves rm n ls d)"
  by (induction ls arbitrary: d) (auto split: option.split simp: ok_remove)

lemma erase_gone:
  assumes "ok d" "source_key hal n KEY_CAP d = Some k" "qdos_program_erase hal n d = (STORE_OK, d')"
  shows "store_read hal SCOPE_USER k cap d' \<in> {Inl STORE_NOT_FOUND, Inl STORE_IO_ERROR}"
proof (cases "\<not> qdos_app_exists hal n d \<or> qdos_program_is_readonly hal n d")
  case True
  then have "rm k d = (STORE_OK, d')" using assms(2,3) by (simp add: qdos_program_erase_def has_remove)
  then show ?thesis using read_removed [OF assms(1)] by simp
next
  case False
  then obtain ls where "rm n (remove_leaves rm n ls d) = (STORE_OK, d')"
    using assms(2,3) by (auto simp: qdos_program_erase_def has_remove remove_folder_def Let_def)
  from removed_folder [OF ok_remove_leaves [OF assms(1)] this, of QDOS_APP_MAIN cap]
  have "store_read hal SCOPE_USER (main_key n) cap d' \<in> {Inl STORE_NOT_FOUND, Inl STORE_IO_ERROR}"
    by (simp add: main_key_def QDOS_APP_MAIN_def)
  moreover have "k = main_key n" using False assms(2) by (simp add: source_key_eq split: if_splits)
  ultimately show ?thesis by simp
qed

lemma erase_reverts:
  assumes "ok d" "qdos_program_is_readonly hal n d" "qdos_program_erase hal n d = (STORE_OK, d')"
  shows "\<not> qdos_program_is_user hal n d' \<and>
    (s \<noteq> SCOPE_USER \<longrightarrow> qdos_program_load hal s n cap d' = qdos_program_load hal s n cap d)"
proof -
  have v: "valid_program_name n"
    using assms(3) by (auto simp: qdos_program_erase_def source_key_eq split: if_splits)
  define k where "k = (if qdos_app_exists hal n d then main_key n else loose_key n)"
  have k: "source_key hal n KEY_CAP d = Some k" using v by (simp add: source_key_eq k_def)
  then have rmk: "rm k d = (STORE_OK, d')" using assms(2,3) by (simp add: qdos_program_erase_def has_remove)
  have same: "s \<noteq> SCOPE_USER \<Longrightarrow> store_read hal s m cap d' = store_read hal s m cap d" for s m cap
    using remove_frame [OF assms(1), of s m k cap] rmk by simp
  have "qdos_app_exists hal n d' = qdos_app_exists hal n d"
  proof (cases "qdos_app_exists hal n d")
    case True
    from assms(2) obtain s where s: "s \<noteq> SCOPE_USER" "qdos_program_in_scope hal s n d"
      by (auto simp: qdos_program_is_readonly_def)
    then obtain bs where bs: "store_read hal s (main_key n) (QDOS_PROGRAM_CAP - 1) d = Inr bs" "bs \<noteq> []"
      using True v by (auto simp: qdos_program_in_scope_def program_load_eq QDOS_PROGRAM_CAP_def split: sum.splits if_splits)
    from read_caps [OF bs(1), of 1] same [OF s(1)] have "store_read hal s (main_key n) 1 d' =
        (if length bs \<le> 1 then Inr bs else Inl STORE_TOO_BIG)" by simp
    then have "qdos_app_exists hal n d'" using bs(2) v by (auto simp: app_exists_eq intro!: exI [of _ s])
    then show ?thesis using True by simp
  next
    case False
    then have "main_key n \<noteq> k" using keys_differ [OF v v] by (simp add: k_def)
    then show ?thesis using remove_frame [OF assms(1), of _ "main_key n" k] rmk
      by (intro app_exists_cong) auto
  qed
  moreover have "store_read hal SCOPE_USER k c d' = Inl STORE_NOT_FOUND" for c
    using read_removed [OF assms(1) rmk] .
  ultimately show ?thesis using v same
    by (auto simp: qdos_program_is_user_def qdos_program_in_scope_def program_load_eq QDOS_PROGRAM_CAP_def k_def
        intro!: program_load_cong)
qed

end

section \<open>Copying an app\<close>

lemma visit_all_inv:
  assumes "P s" "\<And>n s. n \<in> set ns \<Longrightarrow> P s \<Longrightarrow> P (fst (visit n s))"
  shows "P (visit_all visit ns s)"
  using assms
proof (induction ns arbitrary: s)
  case (Cons n ns)
  obtain s' more where v: "visit n s = (s', more)" by (cases "visit n s")
  then show ?case using Cons.IH [of s'] Cons.prems(1) Cons.prems(2) [of n s] Cons.prems(2) by auto
qed simp

lemma list_visit_inv:
  assumes "P s" "\<And>n s. P s \<Longrightarrow> P (fst (visit n s))"
  shows "P (list_visit hal scope folder visit d s)"
  using assms by (auto simp: list_visit_def split: option.split sum.split intro: visit_all_inv)

definition leaves_ok :: "cstring list \<Rightarrow> bool" where
  "leaves_ok w \<longleftrightarrow> distinct w \<and> [] \<notin> set w \<and> length w \<le> APP_FILES_MAX"

lemma collect_leaves_ok: "leaves_ok w \<Longrightarrow> leaves_ok (fst (collect_leaf e w))"
  by (auto simp: collect_leaf_def leaves_ok_def Let_def)

lemma walk_app_ok: "leaves_ok (walk_app hal app d)"
proof -
  have "leaves_ok []" by (simp add: leaves_ok_def)
  moreover have "leaves_ok w \<Longrightarrow> leaves_ok (list_visit hal s (Some app) collect_leaf d w)" for s w
    by (rule list_visit_inv) (auto intro: collect_leaves_ok)
  ultimately show ?thesis by (simp add: walk_app_def all_scopes_def)
qed

lemma read_scope_cong:
  assumes "\<And>c. store_read hal s k c d' = store_read hal s k c d"
  shows "read_scope hal s k cap d' = read_scope hal s k cap d"
  using assms
proof (induction hal s k cap d rule: read_scope.induct)
  case (1 hal s k cap d)
  then show ?case
    by (simp add: read_scope.simps [of hal s k cap d'] read_scope.simps [of hal s k cap d] split: sum.split)
qed

lemma read_whole_cong:
  assumes "\<And>s c. s \<in> set ss \<Longrightarrow> store_read hal s k c d' = store_read hal s k c d"
  shows "read_whole hal k ss d' = read_whole hal k ss d"
  using assms by (induction ss) (auto simp: read_scope_cong [of hal _ k d' d] split: option.split)

lemma copy_cap: "COPY_MAX = 4096 * 2 ^ 12"
  by (simp add: COPY_MAX_def)

text \<open>An entry no larger than a copy carries is read whole.\<close>

lemma read_scope_all:
  assumes "\<And>c. store_read hal s k c d = (if length bs \<le> c then Inr bs else Inl STORE_TOO_BIG)"
    and "bs \<noteq> []" "length bs \<le> COPY_MAX" "j \<le> 12"
  shows "read_scope hal s k (4096 * 2 ^ j) d = Some bs"
  using assms(4)
proof (induction "12 - j" arbitrary: j)
  case 0
  then have "j = 12" by simp
  then show ?case using assms(1-3) by (simp add: read_scope.simps copy_cap)
next
  case (Suc x)
  then have "j < 12" "x = 12 - Suc j" by auto
  with Suc.hyps(1) [of "Suc j"] have "read_scope hal s k (4096 * 2 ^ Suc j) d = Some bs" by simp
  moreover have "4096 * 2 ^ j \<le> COPY_MAX"
    unfolding copy_cap using \<open>j < 12\<close> by (intro mult_le_mono power_increasing) auto
  ultimately show ?case using assms(1,2)
    by (subst read_scope.simps) (simp add: mult.commute [of _ 2] mult.left_commute [of _ 2])
qed

lemma read_scope_bound:
  assumes "\<And>c bs. store_read hal s k c d = Inr bs \<Longrightarrow> length bs \<le> c" "read_scope hal s k cap d = Some bs"
  shows "bs \<noteq> [] \<and> length bs \<le> COPY_MAX"
  using assms
proof (induction hal s k cap d rule: read_scope.induct)
  case (1 hal s k cap d)
  from 1(3) show ?case using 1(1) 1(2) [of cap]
    by (auto simp: read_scope.simps [of hal s k cap d] dest!: 1(2) split: sum.splits if_splits)
qed

lemma from_not_to:
  assumes "valid_program_name n" "valid_program_name m" "m \<noteq> n"
  shows "apart (m @ CHR ''/'' # l') (n @ CHR ''/'' # l)"
  using assms valid_program_name_no [of n] valid_program_name_no [of m]
  by (auto simp: apart_def folder_of_folder dest: append_char_eq)

lemma leaves_apart:
  assumes "valid_program_name n" "l' \<noteq> l"
  shows "apart (n @ CHR ''/'' # l') (n @ CHR ''/'' # l)"
  using assms valid_program_name_no [of n] by (auto simp: apart_def folder_of_folder)

context store_laws
begin

lemma read_bound: "store_read hal s k c d = Inr bs \<Longrightarrow> length bs \<le> c"
  using read_caps [of s k c d bs c] by (auto split: if_splits)

lemma read_whole_bound: "read_whole hal k ss d = Some bs \<Longrightarrow> bs \<noteq> [] \<and> length bs \<le> COPY_MAX"
proof (induction ss)
  case (Cons s ss)
  then show ?case using read_scope_bound [of hal s k d QDOS_PROGRAM_CAP bs] read_bound
    by (simp split: option.splits)
qed simp

lemma read_whole_written:
  assumes "ok d" "store_write hal k bs d = (STORE_OK, d')" "bs \<noteq> []" "length bs \<le> COPY_MAX"
  shows "read_whole hal k NEAREST d' = Some bs"
  using read_scope_all [of hal SCOPE_USER k d' bs 0] read_written [OF assms(1,2)] assms(3,4)
  by (simp add: NEAREST_def QDOS_PROGRAM_CAP_def)

lemma copied_leaves:
  assumes "ok d" "valid_program_name from" "valid_program_name to" "from \<noteq> to" "distinct ls"
    "copy_leaves hal from to ls d = (r, d')"
  shows "ok d' \<and> (r = STORE_OK \<longrightarrow> (\<forall>l \<in> set ls. \<forall>bs. read_whole hal (from @ CHR ''/'' # l) NEAREST d = Some bs \<longrightarrow>
      read_whole hal (to @ CHR ''/'' # l) NEAREST d' = Some bs)) \<and>
    (\<forall>m s c. (\<forall>l \<in> set ls. apart m (to @ CHR ''/'' # l)) \<longrightarrow> store_read hal s m c d' = store_read hal s m c d)"
  using assms(1,5,6)
proof (induction ls arbitrary: d)
  case (Cons l ls)
  show ?case
  proof (cases "qdos_app_key from l KEY_CAP = None \<or> qdos_app_key to l KEY_CAP = None")
    case True
    then show ?thesis using Cons.prems by (auto split: option.splits)
  next
    case False
    then obtain k1 k2 where "qdos_app_key from l KEY_CAP = Some k1" "qdos_app_key to l KEY_CAP = Some k2" by auto
    with app_leaf_key [OF this(1)] app_leaf_key [OF this(2)] have src: "qdos_app_key from l KEY_CAP = Some (from @ CHR ''/'' # l)"
      and dst: "qdos_app_key to l KEY_CAP = Some (to @ CHR ''/'' # l)" by simp_all
    show ?thesis
    proof (cases "read_whole hal (from @ CHR ''/'' # l) NEAREST d")
      case None
      then have "copy_leaves hal from to ls d = (r, d')" using Cons.prems src dst by simp
      from Cons.IH [OF Cons.prems(1) _ this] Cons.prems(2) None show ?thesis by auto
    next
      case (Some bs)
      obtain r1 d1 where w: "store_write hal (to @ CHR ''/'' # l) bs d = (r1, d1)" by (cases "store_write hal (to @ CHR ''/'' # l) bs d")
      have ok1: "ok d1" using ok_write [OF Cons.prems(1)] w by (metis snd_conv)
      have frame: "apart m (to @ CHR ''/'' # l) \<Longrightarrow> store_read hal s m c d1 = store_read hal s m c d" for m s c
        using read_frame [OF Cons.prems(1), of s m "to @ CHR ''/'' # l" c bs] w by simp
      show ?thesis
      proof (cases "r1 = STORE_OK")
        case False
        then have "r = r1" "d' = d1" using Cons.prems src dst Some w by auto
        then show ?thesis using False ok1 frame by auto
      next
        case True
        then have rest: "copy_leaves hal from to ls d1 = (r, d')" using Cons.prems src dst Some w by simp
        note IH = Cons.IH [OF ok1 _ rest]
        have "read_whole hal (to @ CHR ''/'' # l) NEAREST d1 = Some bs"
          using read_whole_bound [OF Some] w True by (intro read_whole_written [OF Cons.prems(1)]) auto
        moreover have "read_whole hal (to @ CHR ''/'' # l) NEAREST d' = read_whole hal (to @ CHR ''/'' # l) NEAREST d1"
        proof (rule read_whole_cong)
          have "\<forall>l' \<in> set ls. apart (to @ CHR ''/'' # l) (to @ CHR ''/'' # l')"
            using Cons.prems(2) by (auto intro!: leaves_apart [OF assms(3)])
          then show "store_read hal s (to @ CHR ''/'' # l) c d' = store_read hal s (to @ CHR ''/'' # l) c d1" for s c
            using IH Cons.prems(2) by auto
        qed
        moreover have "read_whole hal (from @ CHR ''/'' # l') NEAREST d1 = read_whole hal (from @ CHR ''/'' # l') NEAREST d" for l'
          by (rule read_whole_cong) (rule frame [OF from_not_to [OF assms(3,2,4)]])
        ultimately show ?thesis using IH Cons.prems(2) Some frame by auto
      qed
    qed
  qed
qed simp

end

section \<open>The list of programs\<close>

lemma mset_insert_by [simp]: "set (insert_by le x xs) = insert x (set xs)"
  by (induction xs) auto

lemma set_qsort [simp]: "set (qsort le xs) = set xs"
  unfolding qsort_def by (induction xs) auto

lemma length_insert_by [simp]: "length (insert_by le x xs) = Suc (length xs)"
  by (induction xs) auto

lemma length_qsort [simp]: "length (qsort le xs) = length xs"
  unfolding qsort_def by (induction xs) auto

lemma distinct_insert_by: "distinct (map f (insert_by le x xs)) \<longleftrightarrow> distinct (map f (x # xs))"
  by (induction xs) auto

lemma distinct_qsort [simp]: "distinct (map f (qsort le xs)) = distinct (map f xs)"
proof (induction xs)
  case (Cons x xs)
  have "set (map f (qsort le xs)) = set (map f xs)" by simp
  then show ?case using Cons by (simp add: qsort_def distinct_insert_by)
qed (simp add: qsort_def)

text \<open>A comparison that is a strict order, total where it is used, sorts.\<close>

definition weak_order :: "('a \<Rightarrow> 'a \<Rightarrow> bool) \<Rightarrow> bool" where
  "weak_order lt \<longleftrightarrow>
     (\<forall>a. \<not> lt a a) \<and> (\<forall>a b c. lt a b \<longrightarrow> lt b c \<longrightarrow> lt a c) \<and> (\<forall>a b c. lt a b \<longrightarrow> \<not> lt c b \<longrightarrow> lt a c)"

lemma weak_orderD:
  assumes "weak_order lt"
  shows "\<not> lt a a" "lt a b \<Longrightarrow> lt b c \<Longrightarrow> lt a c" "lt a b \<Longrightarrow> \<not> lt c b \<Longrightarrow> lt a c"
  using assms unfolding weak_order_def by blast+

lemma sorted_insert_by:
  assumes "sorted_wrt (\<lambda>a b. \<not> lt b a) xs" and lt: "weak_order lt"
  shows "sorted_wrt (\<lambda>a b. \<not> lt b a) (insert_by lt x xs)"
  using assms(1)
proof (induction xs)
  case (Cons y ys)
  show ?case
  proof (cases "lt y x")
    case True
    then have "\<not> lt x y" using weak_orderD [OF lt] by blast
    then show ?thesis using Cons True by auto
  next
    case False
    have "\<not> lt z x" if "z \<in> set ys" for z
      using that Cons.prems False weak_orderD(3) [OF lt, of z x y] by auto
    then show ?thesis using Cons.prems False by simp
  qed
qed simp

lemma sorted_qsort:
  assumes "weak_order lt"
  shows "sorted_wrt (\<lambda>a b. \<not> lt b a) (qsort lt xs)"
proof (induction xs)
  case (Cons x xs)
  then show ?case using sorted_insert_by [OF _ assms, of "qsort lt xs" x] by (simp add: qsort_def)
qed (simp add: qsort_def)

lemma str_less_neg_trans: "str_less a b \<Longrightarrow> \<not> str_less c b \<Longrightarrow> str_less a c"
  using str_less_total [of c b] str_less_trans [of a b c] by blast

lemma entry_before_order: "weak_order entry_before"
  unfolding weak_order_def entry_before_def
  by (auto split: if_splits dest: str_less_trans str_less_neg_trans)

text \<open>What the walk keeps: names once each, and every mark true.\<close>

definition entry_true :: "'d hal \<Rightarrow> 'd \<Rightarrow> program_entry \<Rightarrow> bool" where
  "entry_true hal d e \<longleftrightarrow>
     (e_system e \<or> e_inbox e \<or> e_user e) \<and>
     (e_system e \<longrightarrow> qdos_program_is_system hal (e_name e) d) \<and>
     (e_inbox e \<longrightarrow> qdos_program_is_inbox hal (e_name e) d) \<and>
     (e_user e \<longrightarrow> qdos_program_is_user hal (e_name e) d)"

definition gathered_ok :: "'d hal \<Rightarrow> 'd \<Rightarrow> nat \<Rightarrow> program_entry list \<Rightarrow> bool" where
  "gathered_ok hal d cap w \<longleftrightarrow>
     distinct (map e_name w) \<and> length w \<le> cap \<and> (\<forall>e \<in> set w. entry_true hal d e)"

lemma mark_named_Some:
  "mark_named n s w = Some w' \<Longrightarrow>
     map e_name w' = map e_name w \<and> length w' = length w \<and>
     (\<forall>e' \<in> set w'. e' \<in> set w \<or> (\<exists>e \<in> set w. e_name e = n \<and> e' = mark_origin s e))"
proof (induction w arbitrary: w')
  case (Cons e w)
  have nm: "e_name (mark_origin s x) = e_name x" for x by (cases s) auto
  show ?case
  proof (cases "e_name e = n")
    case True
    then show ?thesis using Cons.prems nm by auto
  next
    case False
    then obtain w2 where "mark_named n s w = Some w2" "w' = e # w2" using Cons.prems by auto
    then show ?thesis using Cons.IH by auto
  qed
qed simp

lemma mark_named_None: "mark_named n s w = None \<longleftrightarrow> n \<notin> e_name ` set w"
  by (induction w) auto

lemma name_mark_origin [simp]: "e_name (mark_origin s e) = e_name e"
  by (cases s) auto

lemma mark_true:
  assumes "entry_true hal d e" "qdos_program_in_scope hal s (e_name e) d"
  shows "entry_true hal d (mark_origin s e)"
  using assms by (cases s) (auto simp: entry_true_def qdos_program_is_system_def qdos_program_is_inbox_def qdos_program_is_user_def)

lemma loads_valid: "qdos_program_load hal s n cap d = Inr src \<Longrightarrow> valid_program_name n"
  by (auto simp: qdos_program_load_def source_key_eq split: if_splits)

lemma clip_valid: "valid_program_name n \<Longrightarrow> clip NAME_MAX n = n"
  using valid_length [of n] by (simp add: NAME_MAX_def)

lemma gather_one_ok:
  assumes "gathered_ok hal d cap w"
  shows "gathered_ok hal d cap (fst (gather_one hal d cap s entry w))"
proof (cases "entry_name entry")
  case None
  then show ?thesis using assms by (simp add: gather_one_def)
next
  case (Some p)
  obtain n app where p: "p = (n, app)" by (cases p)
  show ?thesis
  proof (cases "qdos_program_load hal s n QDOS_PROGRAM_CAP d")
    case (Inl r)
    then show ?thesis using assms Some p by (simp add: gather_one_def)
  next
    case (Inr src)
    then have inn: "qdos_program_in_scope hal s n d" by (simp add: qdos_program_in_scope_def)
    show ?thesis
    proof (cases "mark_named n s w")
      case (Some w')
      from mark_named_Some [OF this] assms inn mark_true [of hal d _ s]
      have "gathered_ok hal d cap w'" by (auto simp: gathered_ok_def)
      then show ?thesis using Some \<open>entry_name entry = Some p\<close> p Inr by (simp add: gather_one_def)
    next
      case None
      let ?e = "mark_origin s \<lparr>e_name = clip NAME_MAX n, e_system = False, e_inbox = False, e_user = False, e_app = app\<rparr>"
      have "e_name ?e = n" using clip_valid [OF loads_valid [OF Inr]] by simp
      moreover have "entry_true hal d ?e" using inn clip_valid [OF loads_valid [OF Inr]]
        by (cases s) (auto simp: entry_true_def qdos_program_is_system_def qdos_program_is_inbox_def qdos_program_is_user_def)
      moreover have "n \<notin> e_name ` set w" using None mark_named_None by blast
      moreover have "fst (gather_one hal d cap s entry w) = (if length w \<ge> cap then w else w @ [?e])"
        using None \<open>entry_name entry = Some p\<close> p Inr by (simp add: gather_one_def)
      ultimately show ?thesis using assms by (auto simp: gathered_ok_def)
    qed
  qed
qed

definition gather_all :: "'d hal \<Rightarrow> nat \<Rightarrow> 'd \<Rightarrow> program_entry list" where
  "gather_all hal cap d =
     fold (\<lambda>scope w. list_visit hal scope None (gather_one hal d cap scope) d w) all_scopes []"

lemma gather_all_ok: "gathered_ok hal d cap (gather_all hal cap d)"
proof -
  have "gathered_ok hal d cap []" by (simp add: gathered_ok_def)
  moreover have "gathered_ok hal d cap w \<Longrightarrow>
      gathered_ok hal d cap (list_visit hal s None (gather_one hal d cap s) d w)" for s w
    by (rule list_visit_inv) (auto intro: gather_one_ok)
  ultimately show ?thesis by (simp add: gather_all_def all_scopes_def)
qed

text \<open>
  The list of programs is sound for every store: each name once, at most as many as there is
  room for, sorted with the user's own first and by name within a scope, and every mark on an entry
  true: an entry marked as the user's, the inbox's or the firmware's is a program that loads there.
\<close>

theorem gathered_list_is_sound:
  shows "distinct (map e_name (qdos_programs_gather hal cap d)) \<and>
    length (qdos_programs_gather hal cap d) \<le> cap \<and>
    sorted_wrt (\<lambda>a b. \<not> entry_before b a) (qdos_programs_gather hal cap d) \<and>
    list_all (entry_true hal d) (qdos_programs_gather hal cap d)"
  using gather_all_ok [of hal d cap, unfolded gather_all_def] sorted_qsort [OF entry_before_order]
  by (simp add: qdos_programs_gather_def gathered_ok_def list_all_iff)

section \<open>Properties of the store's programs\<close>

text \<open>
  A program that is saved is what is loaded back, byte for byte, and nothing else changes:
  whether or not the save succeeds, every other program reads in every scope as it did.
\<close>

theorem saved_program_loads_back:
  assumes "dirs_apart fs" and "disk_ok fs d" and "nul \<notin> set src" and "length src < cap"
    and "qdos_program_save (filestore_hal fs room) n src d = (r, d')"
  shows "(r = STORE_OK \<longrightarrow> qdos_program_load (filestore_hal fs room) SCOPE_USER n cap d' = Inr src) \<and>
    (m \<noteq> n \<longrightarrow> qdos_program_load (filestore_hal fs room) s m c d' = qdos_program_load (filestore_hal fs room) s m c d)"
proof (intro conjI impI)
  let ?h = "filestore_hal fs room"
  assume "r = STORE_OK"
  then show "qdos_program_load ?h SCOPE_USER n cap d' = Inr src"
    using assms by (intro fstore.save_then_load [of fs d src cap room n d']) auto
next
  let ?h = "filestore_hal fs room"
  assume "m \<noteq> n"
  moreover have "d' = d \<or> (\<exists>k. valid_program_name n \<and> (k = main_key n \<or> k = loose_key n) \<and>
      d' = snd (store_write ?h k (map byte_of src) d))"
    using assms(5) by (auto simp: qdos_program_save_def source_key_eq Let_def split: if_splits dest: arg_cong [of _ _ snd])
  ultimately show "qdos_program_load ?h s m c d' = qdos_program_load ?h s m c d"
    using fstore.write_other_program [of fs d n _ m room s c] assms(1,2) by auto
qed

lemma saved_program_loads_back_witness:
  "\<exists>d'. qdos_program_load (filestore_hal esp32_dirs 4096) SCOPE_USER ''sq'' 4096 d' = Inr ''fn sq() { dup * }''"
proof -
  let ?h = "filestore_hal esp32_dirs 4096" and ?src = "''fn sq() { dup * }''"
  obtain r d' where w: "qdos_program_save ?h ''sq'' ?src esp32_disk = (r, d')"
    by (cases "qdos_program_save ?h ''sq'' ?src esp32_disk")
  have "fst (qdos_program_save ?h ''sq'' ?src esp32_disk) = STORE_OK" by code_simp
  with w have "r = STORE_OK" by simp
  then show ?thesis
    using saved_program_loads_back [OF esp32_dirs_apart esp32_disk_ok _ _ w, of 4096] by auto
qed

text \<open>
  Erasing the user's copy of a program the firmware ships or a PC uploaded goes back to that
  one: the user's copy no longer loads, and the read-only copies load exactly as they did.
\<close>

theorem erase_reverts_to_shipped:
  assumes "dirs_apart fs" and "disk_ok fs d" and "qdos_program_is_readonly (filestore_hal fs room) n d"
    and "qdos_program_erase (filestore_hal fs room) n d = (STORE_OK, d')"
  shows "\<not> qdos_program_is_user (filestore_hal fs room) n d' \<and>
    (s \<noteq> SCOPE_USER \<longrightarrow> qdos_program_load (filestore_hal fs room) s n cap d' =
       qdos_program_load (filestore_hal fs room) s n cap d)"
  using fstore.erase_reverts [OF _ assms(3,4)] assms(1,2) by simp

definition shipped_disk :: disk where
  "shipped_disk = esp32_disk @ [(''/system/sq.qd'', File (map byte_of ''fn sq() { dup * }'')),
     (''/data/user/sq.qd'', File (map byte_of ''fn sq() { 2 pow }''))]"

lemma shipped_disk_ok: "disk_ok esp32_dirs shipped_disk"
  unfolding disk_ok_def
proof
  show "folders_ok esp32_dirs shipped_disk"
    unfolding folders_ok_def
  proof (intro allI impI)
    fix a b :: cstring
    assume b: "CHR ''/'' \<notin> set b" "b \<noteq> []"
      and q: "map_of shipped_disk (fs_store_dir esp32_dirs @ CHR ''/'' # a @ CHR ''/'' # b) \<noteq> None"
    have "a @ CHR ''/'' # b \<noteq> ''sq.qd''"
    proof
      assume "a @ CHR ''/'' # b = ''sq.qd''"
      then have "CHR ''/'' \<in> set ''sq.qd''" by (metis in_set_conv_decomp)
      then show False by simp
    qed
    then show "map_of shipped_disk (fs_store_dir esp32_dirs @ CHR ''/'' # a) = Some Dir"
      using q by (simp add: esp32_dirs_def shipped_disk_def esp32_disk_def split: if_splits)
  qed
qed (simp add: esp32_dirs_def shipped_disk_def esp32_disk_def)

lemma erase_reverts_to_shipped_witness:
  "\<exists>d'. \<not> qdos_program_is_user (filestore_hal esp32_dirs 4096) ''sq'' d' \<and>
    qdos_program_load (filestore_hal esp32_dirs 4096) SCOPE_SYSTEM ''sq'' 99 d' = Inr ''fn sq() { dup * }''"
proof -
  let ?h = "filestore_hal esp32_dirs 4096"
  obtain r d' where w: "qdos_program_erase ?h ''sq'' shipped_disk = (r, d')"
    by (cases "qdos_program_erase ?h ''sq'' shipped_disk")
  have "fst (qdos_program_erase ?h ''sq'' shipped_disk) = STORE_OK" by code_simp
  with w have w': "qdos_program_erase ?h ''sq'' shipped_disk = (STORE_OK, d')" by simp
  have ro: "qdos_program_is_readonly ?h ''sq'' shipped_disk" by code_simp
  have "qdos_program_load ?h SCOPE_SYSTEM ''sq'' 99 shipped_disk = Inr ''fn sq() { dup * }''" by code_simp
  then show ?thesis
    using erase_reverts_to_shipped [OF esp32_dirs_apart shipped_disk_ok ro w', of SCOPE_SYSTEM 99] by auto
qed

text \<open>
  Erasing succeeds only when the source is gone: after it the entry the source was in does not
  read any more, an app's folder with everything in it included; and no other program changes in any
  scope, whether or not the erase succeeds.
\<close>

theorem erased_program_is_gone:
  assumes "dirs_apart fs" and "disk_ok fs d"
    and "source_key (filestore_hal fs room) n KEY_CAP d = Some k"
    and "qdos_program_erase (filestore_hal fs room) n d = (r, d')"
  shows "(r = STORE_OK \<longrightarrow> store_read (filestore_hal fs room) SCOPE_USER k cap d' \<in> {Inl STORE_NOT_FOUND, Inl STORE_IO_ERROR}) \<and>
    (m \<noteq> n \<longrightarrow> qdos_program_load (filestore_hal fs room) s m c d' = qdos_program_load (filestore_hal fs room) s m c d)"
proof (intro conjI impI)
  assume "r = STORE_OK"
  then show "store_read (filestore_hal fs room) SCOPE_USER k cap d' \<in> {Inl STORE_NOT_FOUND, Inl STORE_IO_ERROR}"
    using fstore.erase_gone [OF _ assms(3), of d'] assms(1,2,4) by simp
next
  assume "m \<noteq> n"
  then show "qdos_program_load (filestore_hal fs room) s m c d' = qdos_program_load (filestore_hal fs room) s m c d"
    using fstore.erase_other [of fs d m n room s c] assms(1,2,4) by simp
qed

lemma erased_program_is_gone_witness:
  "\<exists>d'. store_read (filestore_hal esp32_dirs 4096) SCOPE_USER ''sq.qd'' 99 d' \<in> {Inl STORE_NOT_FOUND, Inl STORE_IO_ERROR}"
proof -
  let ?h = "filestore_hal esp32_dirs 4096"
  obtain r d' where w: "qdos_program_erase ?h ''sq'' shipped_disk = (r, d')"
    by (cases "qdos_program_erase ?h ''sq'' shipped_disk")
  have "fst (qdos_program_erase ?h ''sq'' shipped_disk) = STORE_OK" by code_simp
  with w have "r = STORE_OK" by simp
  moreover have "source_key ?h ''sq'' KEY_CAP shipped_disk = Some ''sq.qd''" by code_simp
  ultimately show ?thesis
    using erased_program_is_gone [OF esp32_dirs_apart shipped_disk_ok _ w, of "''sq.qd''" 99] by auto
qed


definition app_disk :: disk where
  "app_disk = esp32_disk @ [(''/system/doom'', Dir), (''/system/doom/main.qd'', File (map byte_of ''use w'')),
     (''/system/doom/w.qd'', File (map byte_of ''fn w() {}''))]"

lemma app_disk_ok: "disk_ok esp32_dirs app_disk"
  unfolding disk_ok_def folders_ok_def by (simp add: esp32_dirs_def app_disk_def esp32_disk_def)


section \<open>Declaring stored programs\<close>

lemma trim_depth:
  assumes "\<And>i. 0 < depth it i \<Longrightarrow> \<exists>i'. pop it i = Some i' \<and> depth it i' = depth it i - 1"
    and "depth it i \<le> n"
  shows "depth it (trim it before n i) = min before (depth it i)"
  using assms(2)
proof (induction n arbitrary: i)
  case (Suc n)
  show ?case
  proof (cases "before < depth it i")
    case True
    then obtain i' where "pop it i = Some i'" "depth it i' = depth it i - 1" using assms(1) [of i] by auto
    then show ?thesis using True Suc by simp
  qed simp
qed simp

text \<open>
  Reloading stored programs never leaves anything on the stack: whatever the programs did when
  they were evaluated, the stack afterwards is no deeper than it was before, and no value that was
  there before is popped unless a program took it.
\<close>

theorem restore_leaves_no_values:
  assumes "\<And>i. 0 < depth it i \<Longrightarrow> \<exists>i'. pop it i = Some i' \<and> depth it i' = depth it i - 1"
    and "qdos_programs_restore hal scope it d i = (n, i')"
  shows "depth it i' \<le> depth it i \<and>
    (store_list hal \<noteq> None \<longrightarrow> depth it i' =
       min (depth it i) (depth it (fst (list_visit hal scope None (restore_one hal d it scope) d (i, 0)))))"
  using assms(2) trim_depth [OF assms(1) order_refl]
  by (auto simp: qdos_programs_restore_def Let_def split: if_splits prod.splits)

text \<open>An interpreter that leaves one value for every source it runs.\<close>

definition test_interp :: "cstring list interp" where
  "test_interp = \<lparr>guarded_eval = (\<lambda>s i. (True, s # i)), last_declared = (\<lambda>i. Some ''f''), depth = length,
     pop = (\<lambda>i. case i of [] \<Rightarrow> None | _ # r \<Rightarrow> Some r)\<rparr>"

lemma restore_leaves_no_values_witness:
  "length (snd (qdos_programs_restore (filestore_hal esp32_dirs 9) SCOPE_SYSTEM test_interp shipped_disk [''1''])) \<le> 1 \<and>
   fst (qdos_programs_restore (filestore_hal esp32_dirs 9) SCOPE_SYSTEM test_interp shipped_disk [''1'']) = 1"
proof -
  have "0 < depth test_interp i \<Longrightarrow> \<exists>i'. pop test_interp i = Some i' \<and> depth test_interp i' = depth test_interp i - 1" for i
    by (cases i) (simp_all add: test_interp_def)
  from restore_leaves_no_values [OF this]
  have "depth test_interp (snd (qdos_programs_restore (filestore_hal esp32_dirs 9) SCOPE_SYSTEM test_interp shipped_disk [''1'']))
      \<le> depth test_interp [''1'']" by (metis prod.collapse)
  moreover have "fst (qdos_programs_restore (filestore_hal esp32_dirs 9) SCOPE_SYSTEM test_interp shipped_disk [''1'']) = 1"
    by code_simp
  ultimately show ?thesis by (simp add: test_interp_def)
qed

end
