(* ===== verification/Rename.thy ===== *)
theory Rename
  imports Programs
begin

text \<open>
  Renaming a word throughout a source (\<^verbatim>\<open>qdos_source_rename\<close> in \<^verbatim>\<open>src/shell/storage.c\<close>, defined
  in Programs): what the one pass over the source computes, as a substitution on the runs it splits
  the source into, and that renaming back undoes it.
\<close>

section \<open>The runs of a source\<close>

text \<open>Each run with what is before it and after it.\<close>

function runs :: "cstring \<Rightarrow> cstring \<Rightarrow> (cstring \<times> cstring \<times> cstring) list" where
  "runs before [] = []"
| "runs before (c # cs) =
     (let n = run_length (c # cs)
      in (before, take n (c # cs), drop n (c # cs)) # runs (before @ take n (c # cs)) (drop n (c # cs)))"
  by pat_completeness auto
termination
  by (relation "measure (\<lambda>(b, p). length p)") (simp_all add: run_length_pos)

text \<open>A run that is a word of its own, and what becomes of a run.\<close>

fun own_word :: "cstring \<times> cstring \<times> cstring \<Rightarrow> bool" where
  "own_word (b, r, t) \<longleftrightarrow> is_word_run (r @ t) \<and> \<not> scoped_run b t"

fun renamed_run :: "cstring \<Rightarrow> cstring \<Rightarrow> cstring \<times> cstring \<times> cstring \<Rightarrow> cstring" where
  "renamed_run from to (b, r, t) = (if own_word (b, r, t) \<and> r = from then to else r)"

definition substituted :: "cstring \<Rightarrow> cstring \<Rightarrow> cstring \<Rightarrow> cstring \<Rightarrow> cstring" where
  "substituted from to before p = concat (map (renamed_run from to) (runs before p))"

definition uses_word :: "cstring \<Rightarrow> cstring \<Rightarrow> bool" where
  "uses_word w src \<longleftrightarrow> (\<exists>x \<in> set (runs [] src). own_word x \<and> fst (snd x) = w)"

lemma runs_concat: "concat (map (\<lambda>(b, r, t). r) (runs before p)) = p"
  by (induction before p rule: runs.induct) (simp_all add: Let_def)

lemma substituted_Cons:
  "p \<noteq> [] \<Longrightarrow> substituted from to before p =
     (let n = run_length p; run = take n p; rest = drop n p
      in (if is_word_run p \<and> \<not> scoped_run before rest \<and> run = from then to else run) @
         substituted from to (before @ run) rest)"
  by (cases p) (simp_all add: substituted_def Let_def)

lemma substituted_Nil [simp]: "substituted from to before [] = []"
  by (simp add: substituted_def)

lemma rename_from_eq:
  "rename_from from to cap before p out =
     (if p = [] \<or> length (out @ substituted from to before p) < cap then Some (out @ substituted from to before p) else None)"
proof (induction "from" to cap before p out rule: rename_from.induct)
  case (2 "from" to cap before c cs out)
  let ?p = "c # cs"
  define n where "n = run_length ?p"
  define put where "put = (if is_word_run ?p \<and> \<not> scoped_run before (drop n ?p) \<and> take n ?p = from then to else take n ?p)"
  have s: "substituted from to before ?p = put @ substituted from to (before @ take n ?p) (drop n ?p)"
    by (subst substituted_Cons) (simp_all add: Let_def n_def put_def)
  have step: "rename_from from to cap before ?p out = (if length out + length put \<ge> cap then None
      else rename_from from to cap (before @ take n ?p) (drop n ?p) (out @ put))"
    by (simp only: rename_from.simps Let_def n_def put_def)
  show ?case
  proof (cases "length out + length put \<ge> cap")
    case True
    then show ?thesis by (simp add: s step del: rename_from.simps)
  next
    case False
    note nf = False [unfolded put_def n_def]
    from False have "rename_from from to cap before ?p out = rename_from from to cap (before @ take n ?p) (drop n ?p) (out @ put)"
      by (simp add: step del: rename_from.simps)
    also have "\<dots> = (if drop n ?p = [] \<or> length ((out @ put) @ substituted from to (before @ take n ?p) (drop n ?p)) < cap
        then Some ((out @ put) @ substituted from to (before @ take n ?p) (drop n ?p)) else None)"
      using 2 [OF refl refl refl refl refl nf] by (simp only: n_def put_def)
    finally show ?thesis using False by (auto simp: s simp del: rename_from.simps)
  qed
qed simp


lemma same_word: "substituted w w before p = p"
proof (induction before p rule: runs.induct)
  case (2 before c cs)
  have "(if P \<and> Q \<and> x = w then w else x) = x" for P Q and x :: cstring by simp
  then show ?case using 2 by (subst substituted_Cons) (simp_all only: Let_def append_take_drop_id list.simps not_False_eq_True)
qed simp

section \<open>Renaming back\<close>

text \<open>What the pass sees of the text around a run: the same characters, or both of a word.\<close>

definition like :: "char \<Rightarrow> char \<Rightarrow> bool" where
  "like x y \<longleftrightarrow> x = y \<or> word_char x \<and> word_char y"

definition look :: "cstring \<Rightarrow> cstring \<Rightarrow> bool" where
  "look p q \<longleftrightarrow> (p = [] \<longleftrightarrow> q = []) \<and> like (char_at p 0) (char_at q 0) \<and>
     (\<not> word_char (char_at p 0) \<longrightarrow> like (char_at p 1) (char_at q 1))"

definition a_word :: "cstring \<Rightarrow> bool" where
  "a_word w \<longleftrightarrow> w \<noteq> [] \<and> list_all word_char w"

lemma not_word [simp]: "\<not> word_char (CHR '':'')" "\<not> word_char (CHR ''/'')" "\<not> word_char (CHR ''*'')"
  "\<not> word_char (CHR 0x22)" "\<not> word_char newline" "\<not> word_char nul"
  by (simp_all add: word_char_def ctype_simps)

lemma like_refl [simp]: "like x x" by (simp add: like_def)

lemma like_eq: "like x y \<Longrightarrow> \<not> word_char c \<Longrightarrow> x = c \<longleftrightarrow> y = c"
  by (auto simp: like_def)

lemma like_word: "like x y \<Longrightarrow> word_char x \<longleftrightarrow> word_char y"
  by (auto simp: like_def)

lemma scoped_alt:
  "scoped_run b t \<longleftrightarrow> (char_at (rev b) 0 = CHR '':'' \<and> char_at (rev b) 1 = CHR '':'') \<or>
     (char_at t 0 = CHR '':'' \<and> char_at t 1 = CHR '':'')"
proof -
  have "(2 \<le> length b \<and> b ! (length b - 1) = CHR '':'' \<and> b ! (length b - 2) = CHR '':'') \<longleftrightarrow>
      (char_at (rev b) 0 = CHR '':'' \<and> char_at (rev b) 1 = CHR '':'')"
    by (cases "2 \<le> length b") (auto simp: char_at_def rev_nth numeral_2_eq_2)
  then show ?thesis by (simp add: scoped_run_def)
qed

lemma scoped_look:
  assumes "look (rev b) (rev b')" "look t t'"
  shows "scoped_run b t = scoped_run b' t'"
proof -
  have "(char_at p 0 = CHR '':'' \<and> char_at p 1 = CHR '':'') = (char_at q 0 = CHR '':'' \<and> char_at q 1 = CHR '':'')"
    if "look p q" for p q
    using that like_eq [of "char_at p 0" "char_at q 0" "CHR '':''"] like_eq [of "char_at p 1" "char_at q 1" "CHR '':''"]
    by (auto simp: look_def)
  from this [OF assms(1)] this [OF assms(2)] show ?thesis by (simp add: scoped_alt)
qed

lemma word_run_append: "list_all word_char w \<Longrightarrow> \<not> word_char (char_at t 0) \<Longrightarrow> word_run (w @ t) = length w"
proof (induction w)
  case Nil
  then show ?case by (cases t) auto
qed simp

lemma word_run_split:
  "list_all word_char (take (word_run p) p) \<and> \<not> word_char (char_at (drop (word_run p) p) 0) \<and> word_run p \<le> length p"
  by (induction p) auto

lemma line_comment_append:
  "line_comment p = n \<Longrightarrow> (t = [] \<or> char_at t 0 = newline) \<Longrightarrow> line_comment (take n p @ t) = n"
proof (induction p arbitrary: n)
  case Nil
  then show ?case by (cases t) auto
next
  case (Cons c p)
  then show ?case by (cases t) (auto split: if_splits)
qed

lemma line_comment_rest: "drop (line_comment p) p = [] \<or> char_at (drop (line_comment p) p) 0 = newline"
  by (induction p) auto

lemma block_comment_append:
  "block_comment p = n \<Longrightarrow> (drop n p = [] \<longrightarrow> t = []) \<Longrightarrow> block_comment (take n p @ t) = n"
proof (induction p arbitrary: n)
  case (Cons c p)
  show ?case
  proof (cases "c = CHR ''*'' \<and> char_at p 0 = CHR ''/''")
    case True
    then show ?thesis using Cons.prems by (cases p) auto
  next
    case False
    then obtain m where n: "n = Suc m" "block_comment p = m" using Cons.prems by auto
    have "block_comment (take m p @ t) = m" using Cons n by auto
    moreover have "char_at (take m p @ t) 0 = char_at p 0" using n Cons.prems by (cases p; cases m) (auto split: if_splits)
    ultimately show ?thesis using False n by auto
  qed
qed auto

lemma string_rest_append:
  "string_rest p = n \<Longrightarrow> (drop n p = [] \<longrightarrow> t = []) \<Longrightarrow> string_rest (take n p @ t) = n"
proof (induction p arbitrary: n rule: string_rest.induct)
  case (3 c d p)
  show ?case
  proof (cases "c = CHR 0x22")
    case True
    then show ?thesis using 3 by (cases t) auto
  next
    case False
    show ?thesis
    proof (cases "c = CHR 0x5C")
      case True
      then show ?thesis using 3 False by auto
    next
      case False
      then obtain m where m: "n = Suc m" "string_rest (d # p) = m" using 3 \<open>c \<noteq> CHR 0x22\<close> by auto
      have "0 < m" using m(2) by (cases p) auto
      then obtain k where "m = Suc k" by (cases m) auto
      then have "take n (c # d # p) @ t = c # d # (take k p @ t)" "take m (d # p) @ t = d # (take k p @ t)"
        using m by auto
      then show ?thesis using 3(2) [OF \<open>c \<noteq> CHR 0x22\<close> False m(2)] False \<open>c \<noteq> CHR 0x22\<close> m 3(4) by auto
    qed
  qed
qed auto

lemma string_rest_le: "string_rest p \<le> length p"
  by (induction p rule: string_rest.induct) auto

text \<open>A run is the same run whatever follows it, as long as that looks the same.\<close>

lemma run_length_word: "is_word_run p \<Longrightarrow> run_length p = word_run p"
  by (auto simp: is_word_run_def run_length_def)

lemma starts_word:
  assumes "a_word w"
  shows "is_word_run (w @ t)"
  using assms by (cases w) (auto simp: a_word_def is_word_run_def)

lemma word_run_again:
  assumes "a_word w" "\<not> word_char (char_at t 0)"
  shows "run_length (w @ t) = length w"
  using word_run_append [of w t] assms run_length_word [OF starts_word [OF assms(1)]]
  by (simp add: a_word_def)

lemma word_run_a_word: "is_word_run p \<Longrightarrow> a_word (take (run_length p) p)"
proof -
  assume w: "is_word_run p"
  then have "p \<noteq> []" by (auto simp: is_word_run_def)
  then show ?thesis using word_run_split [of p] run_length_pos [of p] run_length_word [OF w] by (simp add: a_word_def)
qed

lemma char_at_take: "i < n \<Longrightarrow> n \<le> length p \<Longrightarrow> char_at (take n p @ t) i = char_at p i"
  by (simp add: char_at_def nth_append)

lemma other_run_again:
  assumes "p \<noteq> []" "\<not> is_word_run p" "look (drop (run_length p) p) t"
  shows "run_length (take (run_length p) p @ t) = run_length p \<and> \<not> is_word_run (take (run_length p) p @ t)"
proof -
  let ?n = "run_length p" and ?q = "take (run_length p) p @ t"
  obtain c cs where p: "p = c # cs" using assms(1) by (cases p) auto
  have nil: "drop ?n p = [] \<longrightarrow> t = []" using assms(3) by (simp add: look_def)
  have lk: "like (char_at (drop ?n p) 0) (char_at t 0)" using assms(3) by (simp add: look_def)
  consider (line) "c = CHR ''/''" "char_at cs 0 = CHR ''/''" | (block) "c = CHR ''/''" "char_at cs 0 = CHR ''*''"
    | (str) "c = CHR 0x22" | (one) "\<not> (c = CHR ''/'' \<and> char_at cs 0 = CHR ''/'')" "\<not> (c = CHR ''/'' \<and> char_at cs 0 = CHR ''*'')"
      "c \<noteq> CHR 0x22" "\<not> word_char c"
    using assms(2) p by (auto simp: is_word_run_def)
  then show ?thesis
  proof cases
    case line
    then obtain cs' where cs: "cs = CHR ''/'' # cs'" by (cases cs) auto
    have n: "?n = line_comment p" using line p by (simp add: run_length_def)
    have "t = [] \<or> char_at t 0 = newline"
      using line_comment_rest [of p] nil lk like_eq [OF lk, of newline] n by auto
    then have "line_comment ?q = ?n" using line_comment_append [of p ?n t] n by simp
    moreover obtain r where "?q = CHR ''/'' # CHR ''/'' # r" using n line p cs by auto
    ultimately show ?thesis by (simp add: run_length_def is_word_run_def)
  next
    case block
    then obtain cs' where cs: "cs = CHR ''*'' # cs'" by (cases cs) auto
    have n: "?n = 2 + block_comment cs'" using block p cs by (simp add: run_length_def)
    then have "?q = CHR ''/'' # CHR ''*'' # (take (block_comment cs') cs' @ t)" using block p cs by simp
    moreover have "block_comment (take (block_comment cs') cs' @ t) = block_comment cs'"
      using nil n p cs by (intro block_comment_append) auto
    ultimately show ?thesis using n by (simp add: run_length_def is_word_run_def)
  next
    case str
    have n: "?n = 1 + string_rest cs" using str p by (simp add: run_length_def)
    then have "?q = CHR 0x22 # (take (string_rest cs) cs @ t)" using str p by simp
    moreover have "string_rest (take (string_rest cs) cs @ t) = string_rest cs"
      using nil n p by (intro string_rest_append) auto
    ultimately show ?thesis using n by (simp add: run_length_def is_word_run_def)
  next
    case one
    have n: "?n = 1" using one p by (auto simp: run_length_def)
    then have q: "?q = c # t" using p by simp
    have "char_at cs 0 = x \<longleftrightarrow> char_at t 0 = x" if "\<not> word_char x" for x
      using like_eq [OF lk that] n p by simp
    then have "\<not> (c = CHR ''/'' \<and> char_at t 0 = CHR ''/'')" "\<not> (c = CHR ''/'' \<and> char_at t 0 = CHR ''*'')"
      using one by auto
    then have "run_length ?q = 1" unfolding q using one(3,4) by (auto simp: run_length_def)
    then show ?thesis unfolding n using one(4) q n by (simp add: is_word_run_def)
  qed
qed

lemma block_comment_le: "block_comment p \<le> length p"
proof (induction p)
  case (Cons c p)
  then show ?case by (cases p) auto
qed simp

lemma line_comment_le: "line_comment p \<le> length p"
  by (induction p) auto

lemma run_length_le:
  assumes "p \<noteq> []"
  shows "run_length p \<le> length p"
proof -
  have 1: "line_comment p \<le> length p" by (rule line_comment_le)
  have 2: "2 + block_comment (drop 2 p) \<le> length p" if "char_at p 0 = CHR ''/''" "char_at p 1 = CHR ''*''"
    using that block_comment_le [of "drop 2 p"] by (cases p; cases "tl p") (auto simp: char_at_def)
  have 3: "1 + string_rest (drop 1 p) \<le> length p"
    using assms string_rest_le [of "drop 1 p"] by (cases p) auto
  have 4: "word_run p \<le> length p" using word_run_split [of p] by simp
  have 5: "1 \<le> length p" using assms by (cases p) auto
  show ?thesis unfolding run_length_def using 1 2 3 4 5 by (simp split del: if_split split: if_splits)
qed

text \<open>One step of the pass on a text and on its renaming.\<close>

lemma look_step:
  assumes p: "p \<noteq> []" and t: "look (drop (run_length p) p) t" and put: "put = take (run_length p) p \<or> is_word_run p \<and> a_word put"
  shows "look p (put @ t)"
proof (cases "is_word_run p")
  case True
  then have w: "a_word put" using put word_run_a_word by auto
  from True have "word_char (char_at p 0)" by (simp add: is_word_run_def)
  moreover have "word_char (char_at (put @ t) 0)" "put \<noteq> []" using w by (cases put; simp add: a_word_def)+
  ultimately show ?thesis using p by (simp add: look_def like_def)
next
  case False
  then have put: "put = take (run_length p) p" using put by simp
  obtain c cs where c: "p = c # cs" using p by (cases p) auto
  obtain n where n: "run_length p = Suc n" using run_length_pos [OF p] by (cases "run_length p") auto
  have "like (char_at cs 0) (char_at (take n cs @ t) 0)"
    using t n c by (cases n; cases cs) (auto simp: look_def)
  then show ?thesis using c n put by (simp add: look_def)
qed

lemma look_back_step:
  assumes p: "p \<noteq> []" and b: "look (rev b) (rev b')" and put: "put = take (run_length p) p \<or> is_word_run p \<and> a_word put"
  shows "look (rev (b @ take (run_length p) p)) (rev (b' @ put))"
proof (cases "is_word_run p")
  case True
  have "word_char (char_at (rev (x @ w)) 0)" if "a_word w" for w x
    using that by (cases w rule: rev_cases) (auto simp: a_word_def)
  moreover have "a_word put" "a_word (take (run_length p) p)" using True put word_run_a_word by auto
  moreover have "rev (x @ w) \<noteq> []" if "a_word w" for w x using that by (simp add: a_word_def)
  ultimately show ?thesis by (simp only: look_def like_def simp_thms)
next
  case False
  let ?r = "take (run_length p) p"
  have "?r \<noteq> []" using p run_length_pos [OF p] by auto
  then obtain x r where r: "rev ?r = x # r" by (cases "rev ?r") auto
  have "like (char_at (r @ rev b) 0) (char_at (r @ rev b') 0)" using b by (cases r) (simp_all add: look_def)
  then show ?thesis using False put r by (simp add: look_def)
qed

lemma rename_step:
  assumes "p \<noteq> []" "look (drop (run_length p) p) t" "put = take (run_length p) p \<or> is_word_run p \<and> a_word put"
  shows "run_length (put @ t) = length put \<and> is_word_run (put @ t) = is_word_run p"
proof (cases "is_word_run p")
  case True
  then have w: "a_word put" using assms(3) word_run_a_word by auto
  have "\<not> word_char (char_at (drop (run_length p) p) 0)"
    using word_run_split [of p] run_length_word [OF True] by simp
  then have "\<not> word_char (char_at t 0)" using assms(2) like_word by (auto simp: look_def)
  then show ?thesis using word_run_again [OF w] starts_word [OF w] True by simp
next
  case False
  then show ?thesis using other_run_again [OF assms(1) False assms(2)] assms(3) run_length_le [OF assms(1)] by auto
qed

lemma renamed_looks:
  assumes "a_word from" "a_word to"
  shows "look p (substituted from to b p)"
proof (induction b p rule: runs.induct)
  case (1 b)
  then show ?case by (simp add: look_def)
next
  case (2 b c cs)
  let ?p = "c # cs" and ?n = "run_length (c # cs)"
  let ?put = "if is_word_run ?p \<and> \<not> scoped_run b (drop ?n ?p) \<and> take ?n ?p = from then to else take ?n ?p"
  have "look ?p (?put @ substituted from to (b @ take ?n ?p) (drop ?n ?p))"
    by (rule look_step) (use 2 assms in auto)
  then show ?case by (subst substituted_Cons) (simp_all only: Let_def list.simps not_False_eq_True)
qed

lemma rename_back:
  assumes "a_word from" "a_word to" "look (rev b) (rev b')"
    and "\<forall>x \<in> set (runs b p). own_word x \<longrightarrow> fst (snd x) \<noteq> to"
  shows "substituted to from b' (substituted from to b p) = p"
  using assms(3,4)
proof (induction b p arbitrary: b' rule: runs.induct)
  case (2 b c cs)
  let ?p = "c # cs" and ?n = "run_length (c # cs)"
  define run where "run = take ?n ?p"
  define rest where "rest = drop ?n ?p"
  define put where "put = (if is_word_run ?p \<and> \<not> scoped_run b rest \<and> run = from then to else run)"
  define t where "t = substituted from to (b @ run) rest"
  have q: "substituted from to b ?p = put @ t"
    by (subst substituted_Cons) (simp_all only: Let_def put_def t_def run_def rest_def list.simps not_False_eq_True)
  have put: "put = take ?n ?p \<or> is_word_run ?p \<and> a_word put" using assms(2) by (auto simp: put_def run_def)
  have lt: "look (drop ?n ?p) t" unfolding t_def rest_def by (rule renamed_looks [OF assms(1,2)])
  from rename_step [OF _ lt put] have n: "run_length (put @ t) = length put" and w: "is_word_run (put @ t) = is_word_run ?p"
    by simp_all
  have runs: "runs b ?p = (b, run, rest) # runs (b @ run) rest" by (simp add: run_def rest_def Let_def)
  have IH: "substituted to from (b' @ put) t = rest"
    unfolding t_def run_def rest_def
  proof (rule 2(1) [OF refl])
    show "look (rev (b @ take ?n ?p)) (rev (b' @ put))" by (rule look_back_step [OF _ 2(2) put]) simp
    show "\<forall>x \<in> set (runs (b @ take ?n ?p) (drop ?n ?p)). own_word x \<longrightarrow> fst (snd x) \<noteq> to"
      using 2(3) runs by (simp add: run_def rest_def)
  qed
  have sc: "scoped_run b' t = scoped_run b rest"
    using scoped_look [OF 2(2) lt] by (simp add: rest_def)
  have "run @ rest = ?p" by (simp add: run_def rest_def)
  have nw: "is_word_run ?p \<Longrightarrow> \<not> scoped_run b rest \<Longrightarrow> run \<noteq> to"
    using 2(3) runs \<open>run @ rest = ?p\<close> by simp
  have "put @ t \<noteq> []" using q put lt run_length_pos [of ?p] by (auto simp: a_word_def)
  then have "substituted to from b' (put @ t) =
      (if is_word_run ?p \<and> \<not> scoped_run b rest \<and> put = to then from else put) @ rest"
    using n w sc IH by (simp add: substituted_Cons Let_def)
  also have "\<dots> = run @ rest" using nw by (auto simp: put_def)
  finally show ?case using q \<open>run @ rest = ?p\<close> by simp
qed simp

text \<open>
  Renaming is undone by renaming back: when a source does not already use the new name as a word
  of its own, renaming the old word to it and then back gives the source byte for byte, so a rename
  neither merges two words nor touches a comment, a string or another module's name.
\<close>

theorem rename_back_restores:
  assumes "a_word from" and "a_word to" and "\<not> uses_word to src"
    and "qdos_source_rename src from to cap = Some renamed" and "length src < cap"
  shows "qdos_source_rename renamed to from cap = Some src"
proof -
  have r: "renamed = substituted from to [] src"
    using assms(4) by (auto simp: qdos_source_rename_def rename_from_eq split: if_splits)
  have "substituted to from [] renamed = src" unfolding r
    by (rule rename_back [OF assms(1,2)]) (use assms(3) in \<open>auto simp: look_def uses_word_def\<close>)
  then show ?thesis using assms(5) by (simp add: qdos_source_rename_def rename_from_eq)
qed

lemma rename_back_restores_witness:
  "qdos_source_rename ''fn cube(x) { m::sq cube /* sq */ }'' ''cube'' ''sq'' 99 = Some ''fn sq(x) { m::sq sq /* sq */ }''"
proof -
  let ?src = "''fn sq(x) { m::sq sq /* sq */ }''"
  have "a_word ''sq''" "a_word ''cube''" "\<not> uses_word ''cube'' ?src"
    "qdos_source_rename ?src ''sq'' ''cube'' 99 = Some ''fn cube(x) { m::sq cube /* sq */ }''" "length ?src < 99"
    by code_simp+
  then show ?thesis by (rule rename_back_restores)
qed

end
