(* ===== verification/Infix.thy ===== *)
theory Infix
  imports Base "HOL-Library.Code_Target_Nat"
begin

text \<open>
  Formulas (\<^verbatim>\<open>src/shell/infix.c\<close>): how many results a line of RPN leaves, and the translation of a
  formula as it is written on paper into the RPN the machine runs.

  The parser's pointers into the text are the text from there on. A function of the parser returns
  whether it succeeded with the parser after it; the mutually recursive ones count their calls down,
  and \<open>None\<close> is the count run out, which the lemmas show never happens from the count the top
  level starts with.
\<close>

section \<open>What a word does to the stack\<close>

record word_effect =
  we_name :: cstring
  we_takes :: int
  we_leaves :: int

fun effects :: "int \<Rightarrow> int \<Rightarrow> cstring list \<Rightarrow> word_effect list" where
  "effects t l ns = map (\<lambda>n. \<lparr>we_name = n, we_takes = t, we_leaves = l\<rparr>) ns"

text \<open>The table, in the order the code has it, rows of the same effect together.\<close>

definition EFFECTS :: "word_effect list" where
  "EFFECTS =
     effects 0 1 [''x'', ''y'', ''t'', ''theta'', ''pi'', ''e'', ''i''] @
     effects 1 1 [''sin'', ''cos'', ''tan'', ''asin'', ''acos'', ''atan'', ''sinh'', ''cosh'', ''tanh'', ''asinh'',
       ''acosh'', ''atanh'', ''ln'', ''log'', ''log10'', ''log2'', ''exp'', ''exp2'', ''alog'', ''sqrt'', ''cbrt'',
       ''sq'', ''cb'', ''abs'', ''inv'', ''neg'', ''fac'', ''floor'', ''ceil'', ''round'', ''trunc'', ''real'', ''imag'',
       ''conj'', ''angle''] @
     effects 2 1 [''+'', ''-'', ''*'', ''/'', ''%'', ''plus'', ''minus'', ''multiply'', ''divide'', ''pow'', ''modulo'',
       ''fmod'', ''min'', ''max'', ''fmin'', ''fmax'', ''hypot'', ''atan2''] @
     effects 1 2 [''dup''] @ effects 1 0 [''drop''] @ effects 2 2 [''swap''] @ effects 2 3 [''over''] @
     effects 3 3 [''rot''] @ effects 2 1 [''nip''] @ effects 2 4 [''dup2''] @ effects 2 2 [''percent''] @
     effects 0 1 [''lastx''] @ effects 1 0 [''print''] @ effects 0 0 [''nl''] @ effects 3 1 [''within''] @
     effects 2 1 [''<'', ''>'', ''<='', ''>='', ''=='', ''!='', ''and'', ''or''] @ effects 1 1 [''not'']"

definition effect_of :: "cstring \<Rightarrow> word_effect option" where
  "effect_of name = List.find (\<lambda>e. we_name e = name) EFFECTS"

definition qdos_word_effect :: "cstring \<Rightarrow> (int \<times> int) option" where
  "qdos_word_effect name =
     (case effect_of name of None \<Rightarrow> None | Some e \<Rightarrow> Some (we_takes e, we_leaves e))"

definition name_start :: "char \<Rightarrow> bool" where
  "name_start ch \<longleftrightarrow> is_alpha ch \<or> ch = CHR ''_''"

definition name_char :: "char \<Rightarrow> bool" where
  "name_char ch \<longleftrightarrow> is_alnum ch \<or> ch = CHR ''_'' \<or> ch = CHR '':''"

section \<open>Numbers in RPN\<close>

text \<open>
  How many characters \<open>strtod\<close> reads of a text that starts with a digit, a point or a minus: a decimal
  or hexadecimal floating constant. Nothing is read when there are no digits.
\<close>

definition is_xdigit :: "char \<Rightarrow> bool" where
  "is_xdigit c \<longleftrightarrow> is_digit c \<or> between (CHR ''a'') (CHR ''f'') c \<or> between (CHR ''A'') (CHR ''F'') c"

definition digits_len :: "(char \<Rightarrow> bool) \<Rightarrow> cstring \<Rightarrow> nat" where
  "digits_len P s = length (takeWhile P s)"

text \<open>Digits with a point among them, and an exponent only where digits follow.\<close>

definition mantissa_len :: "(char \<Rightarrow> bool) \<Rightarrow> cstring \<Rightarrow> nat" where
  "mantissa_len P s =
     (let a = digits_len P s
      in if char_at s a = CHR ''.'' then
           let b = digits_len P (drop (a + 1) s) in if a + b = 0 then 0 else a + 1 + b
         else a)"

definition exponent_len :: "char \<Rightarrow> char \<Rightarrow> cstring \<Rightarrow> nat" where
  "exponent_len e E s =
     (if char_at s 0 = e \<or> char_at s 0 = E then
        let sign = (if char_at s 1 = CHR ''+'' \<or> char_at s 1 = CHR ''-'' then 1 else 0);
            n = digits_len is_digit (drop (1 + sign) s)
        in if n = 0 then 0 else 1 + sign + n
      else 0)"

definition strtod_len :: "cstring \<Rightarrow> nat" where
  "strtod_len s =
     (let sign = (if char_at s 0 = CHR ''-'' \<or> char_at s 0 = CHR ''+'' then 1 else 0);
          t = drop sign s;
          hex = char_at t 0 = CHR ''0'' \<and> (char_at t 1 = CHR ''x'' \<or> char_at t 1 = CHR ''X'') \<and>
                mantissa_len is_xdigit (drop 2 t) \<noteq> 0
      in if hex then
           let m = mantissa_len is_xdigit (drop 2 t)
           in sign + 2 + m + exponent_len (CHR ''p'') (CHR ''P'') (drop (2 + m) t)
         else
           let m = mantissa_len is_digit t
           in if m = 0 then 0 else sign + m + exponent_len (CHR ''e'') (CHR ''E'') (drop m t))"

definition is_number :: "cstring \<Rightarrow> bool" where
  "is_number token =
     (let i = (if char_at token 0 = CHR ''-'' then 1 else 0)
      in if i \<ge> length token \<or> \<not> (is_digit (char_at token i) \<or> char_at token i = CHR ''.'') then False
         else if length token \<ge> 64 then False
         else strtod_len token = length token)"

section \<open>The results of RPN\<close>

definition QDOS_RPN_NOT :: int where "QDOS_RPN_NOT = -1"
definition QDOS_RPN_UNKNOWN :: int where "QDOS_RPN_UNKNOWN = -2"

definition is_name :: "cstring \<Rightarrow> bool" where
  "is_name token \<longleftrightarrow> name_start (char_at token 0) \<and> list_all name_char (drop 1 token)"

text \<open>One token: the depth after it, or the answer for the whole line.\<close>

definition rpn_token :: "cstring \<Rightarrow> int \<Rightarrow> int + int" where
  "rpn_token token depth =
     (if is_number token then Inr (depth + 1)
      else (case effect_of token of
              Some e \<Rightarrow> if depth < we_takes e then Inl QDOS_RPN_NOT
                        else Inr (depth + (we_leaves e - we_takes e))
            | None \<Rightarrow>
                if is_name token then Inl QDOS_RPN_UNKNOWN
                else if token = ''->'' \<or> token = ''--'' then Inl QDOS_RPN_UNKNOWN
                else if list_ex (\<lambda>c. c \<in> set ''()^,+-*/'') token then Inl QDOS_RPN_NOT
                else if is_digit (char_at token 0) \<or> char_at token 0 \<in> {CHR ''.'', CHR ''-'', CHR ''+''} then Inl QDOS_RPN_NOT
                else Inl QDOS_RPN_UNKNOWN))"

lemma dropWhile_shorter: "length (dropWhile P s) \<le> length s"
  by (rule length_dropWhile_le)

function rpn_from :: "int \<Rightarrow> cstring \<Rightarrow> int" where
  "rpn_from depth p =
     (let p1 = dropWhile is_space p;
          token = takeWhile (\<lambda>c. \<not> is_space c) p1;
          rest = dropWhile (\<lambda>c. \<not> is_space c) p1
      in if token = [] then depth
         else (case rpn_token token depth of Inl answer \<Rightarrow> answer | Inr d \<Rightarrow> rpn_from d rest))"
  by pat_completeness auto
termination
proof (relation "measure (\<lambda>(d, p). length p)", simp_all)
  fix p :: cstring
  let ?p1 = "dropWhile is_space p"
  assume "takeWhile (\<lambda>c. \<not> is_space c) ?p1 \<noteq> []"
  moreover have "length ?p1 = length (takeWhile (\<lambda>c. \<not> is_space c) ?p1) + length (dropWhile (\<lambda>c. \<not> is_space c) ?p1)"
    by (metis length_append takeWhile_dropWhile_id)
  moreover have "length ?p1 \<le> length p" by (rule dropWhile_shorter)
  moreover have "0 < length (takeWhile (\<lambda>c. \<not> is_space c) ?p1)" using calculation(1) by simp
  ultimately show "length (dropWhile (\<lambda>c. \<not> is_space c) ?p1) < length p" by linarith
qed

declare rpn_from.simps [simp del]

definition qdos_rpn_results :: "cstring \<Rightarrow> int" where
  "qdos_rpn_results body = rpn_from 0 body"

section \<open>The parser's state\<close>

datatype tok_kind = TOK_END | TOK_NUMBER | TOK_NAME | TOK_OP

record parser =
  ps_p :: cstring
  ps_kind :: tok_kind
  ps_text :: cstring
  ps_len :: nat
  ps_op :: char
  ps_last_op :: char
  ps_out :: cstring
  ps_cap :: nat
  ps_error :: cstring
  ps_error_cap :: nat
  ps_failed :: bool
  ps_depth :: nat

definition INFIX_DEPTH_MAX :: nat where "INFIX_DEPTH_MAX = 32"

definition fail :: "cstring \<Rightarrow> parser \<Rightarrow> bool \<times> parser" where
  "fail why ps =
     (False, if ps_failed ps then ps else ps\<lparr>ps_error := clip (ps_error_cap ps) why, ps_failed := True\<rparr>)"

definition emit :: "cstring \<Rightarrow> parser \<Rightarrow> bool \<times> parser" where
  "emit text ps =
     (if length (ps_out ps) + length text + 2 > ps_cap ps then fail ''TOO LONG'' ps
      else (True, ps\<lparr>ps_out := ps_out ps @ (if ps_out ps \<noteq> [] then '' '' else []) @ text\<rparr>))"

definition emit_word :: "cstring \<Rightarrow> parser \<Rightarrow> bool \<times> parser" where
  "emit_word word ps = emit word ps"

definition word_operator :: "cstring \<Rightarrow> char" where
  "word_operator text =
     (case map_of [(''plus'', CHR ''+''), (''minus'', CHR ''-''), (''multiply'', CHR ''*''),
                   (''divide'', CHR ''/''), (''pow'', CHR ''^'')] text of
        Some op \<Rightarrow> op | None \<Rightarrow> nul)"

definition skip_space :: "cstring \<Rightarrow> cstring" where
  "skip_space p = dropWhile is_space p"

section \<open>Tokens\<close>

text \<open>The length of a number at the front of a text: an exponent only where digits follow.\<close>

definition number_len :: "cstring \<Rightarrow> nat" where
  "number_len p =
     (let a = digits_len is_digit p;
          b = (if char_at p a = CHR ''.'' then a + 1 + digits_len is_digit (drop (a + 1) p) else a);
          c = drop b p
      in if (char_at c 0 = CHR ''e'' \<or> char_at c 0 = CHR ''E'') \<and>
            (is_digit (char_at c 1) \<or>
             ((char_at c 1 = CHR ''-'' \<or> char_at c 1 = CHR ''+'') \<and> is_digit (char_at c 2)))
         then b + 2 + digits_len is_digit (drop 2 c)
         else b)"

definition next_token :: "parser \<Rightarrow> parser" where
  "next_token ps0 =
     (let ps = ps0\<lparr>ps_last_op := (if ps_kind ps0 = TOK_OP then ps_op ps0 else nul)\<rparr>;
          p = skip_space (ps_p ps0);
          ps = ps\<lparr>ps_text := p\<rparr>
      in if p = [] then ps\<lparr>ps_kind := TOK_END, ps_len := 0, ps_p := p\<rparr>
         else if is_digit (char_at p 0) \<or> (char_at p 0 = CHR ''.'' \<and> is_digit (char_at p 1)) then
           let n = number_len p in ps\<lparr>ps_kind := TOK_NUMBER, ps_len := n, ps_p := drop n p\<rparr>
         else if name_start (char_at p 0) then
           let n = digits_len name_char p;
               rest = drop n p;
               op = (if char_at (skip_space rest) 0 = CHR ''('' then nul else word_operator (take n p))
           in ps\<lparr>ps_len := n, ps_p := rest, ps_op := op,
                 ps_kind := (if op \<noteq> nul then TOK_OP else TOK_NAME)\<rparr>
         else if char_at p 0 \<in> set ''+-*/^(),!'' then
           ps\<lparr>ps_kind := TOK_OP, ps_op := char_at p 0, ps_len := 1, ps_p := drop 1 p\<rparr>
         else
           let ps = snd (fail (clip 32 (''CANNOT READ '' @ [CHR 0x27, char_at p 0, CHR 0x27])) ps)
           in ps\<lparr>ps_kind := TOK_END, ps_len := 0\<rparr>)"

definition is_op :: "char \<Rightarrow> parser \<Rightarrow> bool" where
  "is_op op ps \<longleftrightarrow> ps_kind ps = TOK_OP \<and> ps_op ps = op"

definition starts_value :: "parser \<Rightarrow> bool" where
  "starts_value ps \<longleftrightarrow> ps_kind ps = TOK_NUMBER \<or> ps_kind ps = TOK_NAME \<or> is_op (CHR ''('') ps"

definition token_text :: "parser \<Rightarrow> cstring" where
  "token_text ps = take (ps_len ps) (ps_text ps)"

definition name_is :: "cstring list \<Rightarrow> parser \<Rightarrow> bool" where
  "name_is names ps \<longleftrightarrow> list_ex (\<lambda>n. n = token_text ps) names"

definition is_postfix :: "parser \<Rightarrow> bool" where
  "is_postfix ps \<longleftrightarrow>
     (if is_op (CHR ''!'') ps then True
      else ps_kind ps = TOK_NAME \<and> char_at (skip_space (ps_p ps)) 0 \<noteq> CHR ''('' \<and>
           name_is [''sq'', ''cb'', ''inv'', ''fac''] ps)"

section \<open>Values\<close>

text \<open>The text of a number as it goes into the RPN: a nought before a bare point and after one with no
  digits, and a point where there was neither point nor exponent.\<close>

fun number_chars :: "cstring \<Rightarrow> cstring \<Rightarrow> bool \<Rightarrow> bool \<Rightarrow> cstring \<times> bool \<times> bool" where
  "number_chars [] text point exponent = (text, point, exponent)"
| "number_chars (c # cs) text point exponent =
     (let is_e = (c = CHR ''e'' \<or> c = CHR ''E'');
          text1 = (if is_e \<and> text \<noteq> [] \<and> last text = CHR ''.'' then text @ ''0'' else text)
      in number_chars cs (text1 @ [c]) (point \<or> c = CHR ''.'') (exponent \<or> is_e))"

definition number_text :: "cstring \<Rightarrow> cstring" where
  "number_text tok =
     (let (text, point, exponent) = number_chars tok (if char_at tok 0 = CHR ''.'' then ''0'' else []) False False;
          text = (if text \<noteq> [] \<and> last text = CHR ''.'' then text @ ''0'' else text)
      in if \<not> point \<and> \<not> exponent then text @ ''.0'' else text)"

definition number :: "parser \<Rightarrow> bool \<times> parser" where
  "number ps =
     (if ps_len ps + 4 > 64 then fail ''NUMBER TOO LONG'' ps
      else emit (number_text (token_text ps)) (next_token ps))"

section \<open>The grammar\<close>

type_synonym step = "(bool \<times> parser) option"

text \<open>The \<open>&&\<close> of two steps.\<close>

definition and_then :: "step \<Rightarrow> (parser \<Rightarrow> step) \<Rightarrow> step" where
  "and_then r f = (case r of None \<Rightarrow> None | Some (ok, ps) \<Rightarrow> if ok then f ps else Some (False, ps))"

definition nothing_here :: "parser \<Rightarrow> bool \<times> parser" where
  "nothing_here ps =
     fail (clip 32
       (if ps_last_op ps \<noteq> nul \<and> ps_last_op ps \<noteq> CHR ''('' \<and> ps_last_op ps \<noteq> CHR '','' then
          ''NOTHING AFTER '' @ [ps_last_op ps]
        else if ps_kind ps = TOK_END then ''NOTHING TO WORK OUT''
        else ''NOTHING BEFORE '' @ [ps_op ps])) ps"

definition deeper :: "parser \<Rightarrow> parser" where
  "deeper ps = ps\<lparr>ps_depth := ps_depth ps + 1\<rparr>"

definition shallower :: "parser \<Rightarrow> parser" where
  "shallower ps = ps\<lparr>ps_depth := ps_depth ps - 1\<rparr>"

fun p_sum :: "nat \<Rightarrow> parser \<Rightarrow> step"
  and sum_loop :: "nat \<Rightarrow> parser \<Rightarrow> step"
  and p_product :: "nat \<Rightarrow> parser \<Rightarrow> step"
  and product_loop :: "nat \<Rightarrow> parser \<Rightarrow> step"
  and p_unary :: "nat \<Rightarrow> parser \<Rightarrow> step"
  and p_power :: "nat \<Rightarrow> parser \<Rightarrow> step"
  and p_postfix :: "nat \<Rightarrow> parser \<Rightarrow> step"
  and postfix_loop :: "nat \<Rightarrow> parser \<Rightarrow> step"
  and p_primary :: "nat \<Rightarrow> parser \<Rightarrow> step"
  and p_call :: "nat \<Rightarrow> parser \<Rightarrow> step"
  and args_loop :: "nat \<Rightarrow> parser \<Rightarrow> step" where
  "p_sum 0 ps = None"
| "p_sum (Suc n) ps = and_then (p_product n ps) (sum_loop n)"
| "sum_loop 0 ps = None"
| "sum_loop (Suc n) ps =
     (if is_op (CHR ''+'') ps \<or> is_op (CHR ''-'') ps then
        and_then (and_then (p_product n (next_token ps))
            (\<lambda>ps1. Some (emit_word (if ps_op ps = CHR ''+'' then ''+'' else ''-'') ps1)))
          (sum_loop n)
      else Some (True, ps))"
| "p_product 0 ps = None"
| "p_product (Suc n) ps = and_then (p_unary n ps) (product_loop n)"
| "product_loop 0 ps = None"
| "product_loop (Suc n) ps =
     (if is_op (CHR ''*'') ps \<or> is_op (CHR ''/'') ps then
        and_then (and_then (p_unary n (next_token ps))
            (\<lambda>ps1. Some (emit_word (if ps_op ps = CHR ''*'' then ''*'' else ''divide'') ps1)))
          (product_loop n)
      else if ps_kind ps = TOK_NAME \<or> is_op (CHR ''('') ps then
        and_then (and_then (p_power n ps) (\<lambda>ps1. Some (emit_word ''*'' ps1))) (product_loop n)
      else Some (True, ps))"
| "p_unary 0 ps = None"
| "p_unary (Suc n) ps =
     (let ps = deeper ps
      in if ps_depth ps > INFIX_DEPTH_MAX then Some (fail ''TOO DEEP'' ps)
         else
           map_option (\<lambda>(ok, ps). (ok, shallower ps))
             (if is_op (CHR ''-'') ps then
                and_then (p_unary n (next_token ps)) (\<lambda>ps1. Some (emit_word ''neg'' ps1))
              else if is_op (CHR ''+'') ps then p_unary n (next_token ps)
              else p_power n ps))"
| "p_power 0 ps = None"
| "p_power (Suc n) ps =
     and_then (p_postfix n ps) (\<lambda>ps1.
       if \<not> is_op (CHR ''^'') ps1 then Some (True, ps1)
       else and_then (p_unary n (next_token ps1)) (\<lambda>ps2. Some (emit_word ''pow'' ps2)))"
| "p_postfix 0 ps = None"
| "p_postfix (Suc n) ps = and_then (p_primary n ps) (postfix_loop n)"
| "postfix_loop 0 ps = None"
| "postfix_loop (Suc n) ps =
     (if is_postfix ps then
        let bang = is_op (CHR ''!'') ps; name = clip 8 (token_text ps)
        in and_then (Some (emit_word (if bang then ''fac'' else name) (next_token ps))) (postfix_loop n)
      else Some (True, ps))"
| "p_primary 0 ps = None"
| "p_primary (Suc n) ps =
     (if ps_failed ps then Some (False, ps)
      else if ps_kind ps = TOK_NUMBER then Some (number ps)
      else if ps_kind ps = TOK_NAME then p_call n ps
      else if is_op (CHR ''('') ps then
        let ps = deeper ps
        in if ps_depth ps > INFIX_DEPTH_MAX then Some (fail ''TOO DEEP'' ps)
           else and_then (p_sum n (next_token ps)) (\<lambda>ps1.
                  if \<not> is_op (CHR '')'') ps1 then Some (fail ''MISSING )'' ps1)
                  else Some (True, next_token (shallower ps1)))
      else Some (nothing_here ps))"
| "p_call 0 ps = None"
| "p_call (Suc n) ps =
     (if ps_len ps \<ge> 64 then Some (fail ''NAME TOO LONG'' ps)
      else
        let name = token_text ps; ps = next_token ps
        in if is_op (CHR ''('') ps then
             let ps = next_token ps
             in and_then
                  (if \<not> is_op (CHR '')'') ps then and_then (p_sum n ps) (args_loop n) else Some (True, ps))
                  (\<lambda>ps1. if \<not> is_op (CHR '')'') ps1 then Some (fail ''MISSING )'' ps1)
                         else Some (emit_word name (next_token ps1)))
           else
             (case effect_of name of
                Some e \<Rightarrow>
                  if we_takes e > 0 then
                    (if we_takes e \<noteq> 1 \<or> we_leaves e \<noteq> 1 \<or> \<not> starts_value ps
                     then Some (fail (clip 80 (name @ '' NEEDS (...)'')) ps)
                     else and_then (p_unary n ps) (\<lambda>ps1. Some (emit_word name ps1)))
                  else Some (emit_word name ps)
              | None \<Rightarrow> Some (emit_word name ps)))"
| "args_loop 0 ps = None"
| "args_loop (Suc n) ps =
     (if is_op (CHR '','') ps then and_then (p_sum n (next_token ps)) (args_loop n) else Some (True, ps))"

text \<open>The results, separated by commas; the count is how many have been read.\<close>

fun results_loop :: "nat \<Rightarrow> nat \<Rightarrow> nat \<Rightarrow> parser \<Rightarrow> (nat option \<times> parser) option" where
  "results_loop 0 n count ps = None"
| "results_loop (Suc k) n count ps =
     (case p_sum n ps of
        None \<Rightarrow> None
      | Some (ok, ps1) \<Rightarrow>
          if \<not> ok then Some (None, ps1)
          else if \<not> is_op (CHR '','') ps1 then Some (Some (count + 1), ps1)
          else results_loop k n (count + 1) (next_token ps1))"

definition start_parser :: "cstring \<Rightarrow> nat \<Rightarrow> nat \<Rightarrow> parser" where
  "start_parser text cap error_cap =
     \<lparr>ps_p = text, ps_kind = TOK_END, ps_text = [], ps_len = 0, ps_op = nul, ps_last_op = nul, ps_out = [],
      ps_cap = cap, ps_error = [], ps_error_cap = error_cap, ps_failed = False, ps_depth = 0\<rparr>"

text \<open>The count of calls that is always enough for a text of so many characters.\<close>

definition fuel_for :: "cstring \<Rightarrow> nat" where
  "fuel_for text = 16 * (length text + 2)"

text \<open>The number of results, when there was no error, with the text left in the buffers.\<close>

definition qdos_infix_to_rpn :: "cstring \<Rightarrow> nat \<Rightarrow> nat \<Rightarrow> (nat option \<times> cstring \<times> cstring) option" where
  "qdos_infix_to_rpn text cap error_cap =
     (case results_loop (length text + 2) (fuel_for text) 0 (next_token (start_parser text cap error_cap)) of
        None \<Rightarrow> None
      | Some (None, ps) \<Rightarrow> Some (None, ps_out ps, ps_error ps)
      | Some (Some count, ps) \<Rightarrow>
          if ps_kind ps \<noteq> TOK_END then
            let ps = snd (fail (clip 40 (''UNEXPECTED '' @ take (min 12 (ps_len ps)) (ps_text ps))) ps)
            in Some (None, ps_out ps, ps_error ps)
          else if ps_failed ps then Some (None, ps_out ps, ps_error ps)
          else Some (Some count, ps_out ps, ps_error ps))"

section \<open>The parser always answers\<close>

text \<open>What is left to read: every token taken makes it smaller.\<close>

definition unread :: "parser \<Rightarrow> nat" where
  "unread ps = length (ps_p ps) + (if ps_kind ps = TOK_END then 0 else 1)"

text \<open>The buffers hold what is written to them, and the first error is the one reported.\<close>

definition buffers_ok :: "parser \<Rightarrow> bool" where
  "buffers_ok ps \<longleftrightarrow>
     (ps_out ps = [] \<or> length (ps_out ps) < ps_cap ps) \<and>
     (if ps_failed ps then \<exists>why. why \<noteq> [] \<and> ps_error ps = clip (ps_error_cap ps) why else ps_error ps = [])"

definition extends :: "parser \<Rightarrow> parser \<Rightarrow> bool" where
  "extends ps ps' \<longleftrightarrow>
     ps_cap ps' = ps_cap ps \<and> ps_error_cap ps' = ps_error_cap ps \<and> (buffers_ok ps \<longrightarrow> buffers_ok ps') \<and>
     (ps_failed ps \<longrightarrow> ps_failed ps')"

lemma extends_refl [simp]: "extends ps ps"
  by (simp add: extends_def)

lemma extends_trans: "extends a b \<Longrightarrow> extends b c \<Longrightarrow> extends a c"
  by (simp add: extends_def)

lemma extends_fail: "why \<noteq> [] \<Longrightarrow> fail why ps = (ok, ps') \<Longrightarrow> extends ps ps' \<and> \<not> ok \<and> ps_failed ps' \<and> unread ps' = unread ps \<and> ps_depth ps' = ps_depth ps"
  by (auto simp: fail_def extends_def buffers_ok_def unread_def)

lemma extends_emit: "emit t ps = (ok, ps') \<Longrightarrow>
    extends ps ps' \<and> (\<not> ok \<longrightarrow> ps_failed ps') \<and> unread ps' = unread ps \<and> ps_depth ps' = ps_depth ps"
  by (auto simp: emit_def dest!: extends_fail [rotated] split: if_splits) (auto simp: extends_def buffers_ok_def unread_def)

lemma depth_simps [simp]:
  "ps_depth (deeper ps) = ps_depth ps + 1" "ps_depth (shallower ps) = ps_depth ps - 1"
  "unread (deeper ps) = unread ps" "unread (shallower ps) = unread ps"
  "ps_failed (deeper ps) = ps_failed ps" "ps_failed (shallower ps) = ps_failed ps"
  "extends ps (deeper ps)" "extends ps (shallower ps)"
  by (simp_all add: deeper_def shallower_def unread_def extends_def buffers_ok_def)

lemma kind_simps [simp]:
  "ps_kind (deeper ps) = ps_kind ps" "ps_kind (shallower ps) = ps_kind ps"
  "is_op c (deeper ps) = is_op c ps" "is_op c (shallower ps) = is_op c ps"
  by (simp_all add: deeper_def shallower_def is_op_def)

lemma digits_len_pos: "P (char_at p 0) \<Longrightarrow> p \<noteq> [] \<Longrightarrow> 0 < digits_len P p"
  by (cases p) (auto simp: digits_len_def)

lemma number_len_pos:
  assumes "p \<noteq> []" "is_digit (char_at p 0) \<or> (char_at p 0 = CHR ''.'' \<and> is_digit (char_at p 1))"
  shows "0 < number_len p"
proof -
  have "\<not> is_digit (CHR ''.'')" by (simp add: ctype_simps)
  then have "0 < digits_len is_digit p \<or> (digits_len is_digit p = 0 \<and> char_at p (digits_len is_digit p) = CHR ''.'')"
    using assms digits_len_pos [of is_digit p] by (cases p) (auto simp: digits_len_def)
  then show ?thesis by (auto simp: number_len_def Let_def)
qed

lemma skip_space_le: "length (skip_space p) \<le> length p"
  by (simp add: skip_space_def length_dropWhile_le)

lemma next_fields [simp]:
  "ps_cap (next_token ps) = ps_cap ps" "ps_error_cap (next_token ps) = ps_error_cap ps"
  "ps_out (next_token ps) = ps_out ps" "ps_depth (next_token ps) = ps_depth ps"
  by (simp_all add: next_token_def Let_def fail_def)

lemma extends_next [simp]: "extends ps (next_token ps)"
proof -
  have "\<exists>why. why \<noteq> [] \<and> clip 32 (''CANNOT READ '' @ s) = why \<and> clip n why = clip n (clip 32 (''CANNOT READ '' @ s))" for s n
    by (simp add: clip_def)
  then show ?thesis
    by (auto simp: extends_def buffers_ok_def next_token_def Let_def fail_def)
qed

lemma unread_next:
  assumes "ps_kind ps \<noteq> TOK_END"
  shows "unread (next_token ps) < unread ps"
proof -
  define p where "p = skip_space (ps_p ps)"
  define num where "num \<longleftrightarrow> is_digit (char_at p 0) \<or> (char_at p 0 = CHR ''.'' \<and> is_digit (char_at p 1))"
  define punct where "punct \<longleftrightarrow> char_at p 0 \<in> set ''+-*/^(),!''"
  have le: "length p \<le> length (ps_p ps)" unfolding p_def by (rule skip_space_le)
  have shorter: "0 < n \<Longrightarrow> p \<noteq> [] \<Longrightarrow> length (drop n p) < length (ps_p ps)" for n
    using le by (cases p) auto
  have n: "num \<Longrightarrow> p \<noteq> [] \<Longrightarrow> 0 < number_len p"
    using number_len_pos by (simp add: num_def)
  have c: "name_start (char_at p 0) \<Longrightarrow> p \<noteq> [] \<Longrightarrow> 0 < digits_len name_char p"
    by (intro digits_len_pos) (auto simp: name_start_def name_char_def is_alnum_def)
  show ?thesis
    using assms le shorter [of 1] shorter [OF n] shorter [OF c]
    unfolding next_token_def Let_def p_def [symmetric]
    unfolding num_def [symmetric] punct_def [symmetric]
    by (cases "p = []"; cases num; cases "name_start (char_at p 0)"; cases punct) (simp_all add: unread_def fail_def)
qed

lemma unread_next_op: "is_op c ps \<Longrightarrow> unread (next_token ps) < unread ps"
  by (rule unread_next) (simp add: is_op_def)

lemma unread_pos: "ps_kind ps \<noteq> TOK_END \<Longrightarrow> 0 < unread ps"
  by (simp add: unread_def)

text \<open>
  What every function of the parser does: it answers, and on success it has taken something and left
  the depth of brackets as it found it.
\<close>

definition answers :: "bool \<Rightarrow> parser \<Rightarrow> step \<Rightarrow> bool" where
  "answers strict ps r \<longleftrightarrow>
     (case r of
        None \<Rightarrow> False
      | Some (ok, ps') \<Rightarrow> extends ps ps' \<and>
          (ok \<longrightarrow> (strict \<longrightarrow> unread ps' < unread ps) \<and> unread ps' \<le> unread ps \<and> ps_depth ps' = ps_depth ps) \<and>
          (\<not> ok \<longrightarrow> ps_failed ps'))"

lemma answersE:
  assumes "answers s ps r"
  obtains ok ps' where "r = Some (ok, ps')" "extends ps ps'"
    "ok \<Longrightarrow> s \<Longrightarrow> unread ps' < unread ps" "ok \<Longrightarrow> unread ps' \<le> unread ps" "ok \<Longrightarrow> ps_depth ps' = ps_depth ps"
    "\<not> ok \<Longrightarrow> ps_failed ps'"
  using assms by (auto simp: answers_def split: option.splits)

lemma answers_mono: "answers True ps r \<Longrightarrow> answers False ps r"
  by (auto simp: answers_def split: option.splits)

lemma answers_True [simp]: "answers False ps (Some (True, ps))"
  by (simp add: answers_def)

lemma answers_fail: "why \<noteq> [] \<Longrightarrow> answers b ps (Some (fail why ps))"
  using extends_fail [of why ps] by (cases "fail why ps") (auto simp: answers_def)

lemma answers_emit: "answers False ps (Some (emit t ps))"
  using extends_emit [of t ps] by (cases "emit t ps") (auto simp: answers_def)

lemma answers_step:
  assumes "extends ps ps1" "unread ps1 < unread ps" "ps_depth ps1 = ps_depth ps" "answers False ps1 r"
  shows "answers True ps r"
  using assms(4) by (rule answersE) (use assms(1-3) in \<open>auto simp: answers_def intro: extends_trans\<close>)

lemma answers_and_then:
  assumes "answers a ps r" "\<And>ps'. extends ps ps' \<Longrightarrow> unread ps' \<le> unread ps \<Longrightarrow> (a \<Longrightarrow> unread ps' < unread ps) \<Longrightarrow> answers b ps' (f ps')"
  shows "answers (a \<or> b) ps (and_then r f)"
  using assms(1)
proof (rule answersE)
  fix ok ps'
  assume r: "r = Some (ok, ps')" "extends ps ps'" "ok \<Longrightarrow> a \<Longrightarrow> unread ps' < unread ps"
    "ok \<Longrightarrow> unread ps' \<le> unread ps" "ok \<Longrightarrow> ps_depth ps' = ps_depth ps" "\<not> ok \<Longrightarrow> ps_failed ps'"
  show ?thesis
  proof (cases ok)
    case True
    with r have "answers b ps' (f ps')" by (intro assms(2)) auto
    then show ?thesis
    proof (rule answersE)
      fix ok2 ps2
      assume f: "f ps' = Some (ok2, ps2)" "extends ps' ps2" "ok2 \<Longrightarrow> b \<Longrightarrow> unread ps2 < unread ps'"
        "ok2 \<Longrightarrow> unread ps2 \<le> unread ps'" "ok2 \<Longrightarrow> ps_depth ps2 = ps_depth ps'" "\<not> ok2 \<Longrightarrow> ps_failed ps2"
      show ?thesis using r f True extends_trans [OF r(2) f(2)]
        by (simp add: answers_def and_then_def) (metis le_less_trans le_trans less_le_trans)
    qed
  next
    case False
    then show ?thesis using r by (simp add: answers_def and_then_def)
  qed
qed

lemma answers_loop:
  assumes "answers True ps r" "\<And>ps'. unread ps' < unread ps \<Longrightarrow> answers False ps' (f ps')"
  shows "answers True ps (and_then r f)"
  using answers_and_then [OF assms(1), of False f] assms(2) by simp

lemma answers_then_emit:
  assumes "answers a ps r"
  shows "answers a ps (and_then r (\<lambda>ps1. Some (emit_word (w ps1) ps1)))"
  using answers_and_then [OF assms, of False] answers_emit by (simp add: emit_word_def)

lemma answers_number: "ps_kind ps = TOK_NUMBER \<Longrightarrow> answers True ps (Some (number ps))"
  using unread_next [of ps] by (auto simp: number_def intro!: answers_fail answers_step [OF extends_next] answers_emit)

lemma answers_nothing: "answers b ps (Some (nothing_here ps))"
  unfolding nothing_here_def by (rule answers_fail) (simp add: clip_def)

lemma answers_next:
  assumes "ps_kind ps \<noteq> TOK_END" "answers False (next_token ps) r"
  shows "answers True ps r"
  using answers_step [OF extends_next unread_next [OF assms(1)] _ assms(2)] by simp

lemma is_op_kind: "is_op c ps \<Longrightarrow> ps_kind ps \<noteq> TOK_END"
  by (simp add: is_op_def)

lemma answers_brackets:
  assumes "answers True ps1 r" "extends ps ps1" "unread ps1 < unread ps" "ps_depth ps1 = Suc (ps_depth ps)"
  shows "answers True ps (and_then r (\<lambda>ps2. if \<not> is_op (CHR '')'') ps2 then Some (fail ''MISSING )'' ps2)
           else Some (True, next_token (shallower ps2))))"
  using assms(1)
proof (rule answersE)
  fix ok ps2
  assume r: "r = Some (ok, ps2)" "extends ps1 ps2" "ok \<Longrightarrow> True \<Longrightarrow> unread ps2 < unread ps1"
    "ok \<Longrightarrow> ps_depth ps2 = ps_depth ps1" "\<not> ok \<Longrightarrow> ps_failed ps2"
  have e: "extends ps ps2" using extends_trans [OF assms(2) r(2)] .
  consider "\<not> ok" | "ok" "is_op (CHR '')'') ps2" | "ok" "\<not> is_op (CHR '')'') ps2" by blast
  then show ?thesis
  proof cases
    case 2
    then have "is_op (CHR '')'') (shallower ps2)" by simp
    from unread_next_op [OF this] have "unread (next_token (shallower ps2)) < unread ps2" by simp
    moreover have "extends ps (next_token (shallower ps2))" using e by (meson depth_simps(8) extends_next extends_trans)
    ultimately show ?thesis using 2 r assms(3,4) by (simp add: answers_def and_then_def)
  next
    case 3
    obtain x y where f: "fail ''MISSING )'' ps2 = (x, y)" by (cases "fail ''MISSING )'' ps2")
    from extends_fail [OF _ f] have "extends ps2 y" "ps_failed y" "\<not> x" by simp_all
    then show ?thesis using 3 r extends_trans [OF e] f by (simp add: answers_def and_then_def)
  qed (use r e in \<open>simp add: answers_def and_then_def\<close>)
qed

lemma answers_deeper:
  assumes "answers True (deeper ps) r"
  shows "answers True ps (map_option (\<lambda>(ok, ps). (ok, shallower ps)) r)"
  using assms
proof (rule answersE)
  fix ok ps2
  assume r: "r = Some (ok, ps2)" "extends (deeper ps) ps2" "ok \<Longrightarrow> True \<Longrightarrow> unread ps2 < unread (deeper ps)"
    "ok \<Longrightarrow> ps_depth ps2 = ps_depth (deeper ps)" "\<not> ok \<Longrightarrow> ps_failed ps2"
  have "extends ps (shallower ps2)" using r(2) by (meson depth_simps(7,8) extends_trans)
  then show ?thesis using r by (auto simp: answers_def)
qed

text \<open>The counts of calls each function needs for what is left to read.\<close>

lemma all_answer:
  "(\<forall>ps. 12 * unread ps + 11 \<le> n \<longrightarrow> answers True ps (p_sum n ps)) \<and>
   (\<forall>ps. 12 * unread ps + 1 \<le> n \<longrightarrow> answers False ps (sum_loop n ps)) \<and>
   (\<forall>ps. 12 * unread ps + 10 \<le> n \<longrightarrow> answers True ps (p_product n ps)) \<and>
   (\<forall>ps. 12 * unread ps + 9 \<le> n \<longrightarrow> answers False ps (product_loop n ps)) \<and>
   (\<forall>ps. 12 * unread ps + 9 \<le> n \<longrightarrow> answers True ps (p_unary n ps)) \<and>
   (\<forall>ps. 12 * unread ps + 8 \<le> n \<longrightarrow> answers True ps (p_power n ps)) \<and>
   (\<forall>ps. 12 * unread ps + 7 \<le> n \<longrightarrow> answers True ps (p_postfix n ps)) \<and>
   (\<forall>ps. 12 * unread ps + 1 \<le> n \<longrightarrow> answers False ps (postfix_loop n ps)) \<and>
   (\<forall>ps. 12 * unread ps + 6 \<le> n \<longrightarrow> answers True ps (p_primary n ps)) \<and>
   (\<forall>ps. 12 * unread ps + 5 \<le> n \<longrightarrow> ps_kind ps = TOK_NAME \<longrightarrow> answers True ps (p_call n ps)) \<and>
   (\<forall>ps. 12 * unread ps + 1 \<le> n \<longrightarrow> answers False ps (args_loop n ps))"
proof (induction n)
  case (Suc n)
  then have IH:
    "\<And>ps. 12 * unread ps + 11 \<le> n \<Longrightarrow> answers True ps (p_sum n ps)"
    "\<And>ps. 12 * unread ps + 1 \<le> n \<Longrightarrow> answers False ps (sum_loop n ps)"
    "\<And>ps. 12 * unread ps + 10 \<le> n \<Longrightarrow> answers True ps (p_product n ps)"
    "\<And>ps. 12 * unread ps + 9 \<le> n \<Longrightarrow> answers False ps (product_loop n ps)"
    "\<And>ps. 12 * unread ps + 9 \<le> n \<Longrightarrow> answers True ps (p_unary n ps)"
    "\<And>ps. 12 * unread ps + 8 \<le> n \<Longrightarrow> answers True ps (p_power n ps)"
    "\<And>ps. 12 * unread ps + 7 \<le> n \<Longrightarrow> answers True ps (p_postfix n ps)"
    "\<And>ps. 12 * unread ps + 1 \<le> n \<Longrightarrow> answers False ps (postfix_loop n ps)"
    "\<And>ps. 12 * unread ps + 6 \<le> n \<Longrightarrow> answers True ps (p_primary n ps)"
    "\<And>ps. 12 * unread ps + 5 \<le> n \<Longrightarrow> ps_kind ps = TOK_NAME \<Longrightarrow> answers True ps (p_call n ps)"
    "\<And>ps. 12 * unread ps + 1 \<le> n \<Longrightarrow> answers False ps (args_loop n ps)"
    by blast+
  have sum: "answers True ps (p_sum (Suc n) ps)" if "12 * unread ps + 11 \<le> Suc n" for ps
    unfolding p_sum.simps using that by (intro answers_loop IH(3)) (auto intro!: IH(2))
  have opt: "answers True ps (and_then (and_then (g (next_token ps)) (\<lambda>ps1. Some (emit_word (w ps1) ps1))) f)"
    if "ps_kind ps \<noteq> TOK_END" "answers True (next_token ps) (g (next_token ps))"
      "\<And>ps'. unread ps' < unread ps \<Longrightarrow> answers False ps' (f ps')" for ps g w f
  proof -
    have "answers True (next_token ps) (and_then (and_then (g (next_token ps)) (\<lambda>ps1. Some (emit_word (w ps1) ps1))) f)"
      using unread_next [OF that(1)] by (intro answers_loop answers_then_emit that) auto
    then show ?thesis by (intro answers_next [OF that(1)] answers_mono)
  qed
  have suml: "answers False ps (sum_loop (Suc n) ps)" if "12 * unread ps + 1 \<le> Suc n" for ps
  proof (cases "is_op (CHR ''+'') ps \<or> is_op (CHR ''-'') ps")
    case True
    then have k: "ps_kind ps \<noteq> TOK_END" using is_op_kind by blast
    have "answers True ps (sum_loop (Suc n) ps)"
      unfolding sum_loop.simps using True unread_next [OF k] that
      by (simp only: if_True) (intro opt [where g = "p_product n"] k IH(3), auto intro!: IH(2))
    then show ?thesis by (rule answers_mono)
  qed simp
  have product: "answers True ps (p_product (Suc n) ps)" if "12 * unread ps + 10 \<le> Suc n" for ps
    unfolding p_product.simps using that by (intro answers_loop IH(5)) (auto intro!: IH(4))
  have productl: "answers False ps (product_loop (Suc n) ps)" if "12 * unread ps + 9 \<le> Suc n" for ps
  proof (cases "is_op (CHR ''*'') ps \<or> is_op (CHR ''/'') ps")
    case True
    then have k: "ps_kind ps \<noteq> TOK_END" using is_op_kind by blast
    have "answers True ps (product_loop (Suc n) ps)"
      unfolding product_loop.simps using True unread_next [OF k] that
      by (simp only: if_True) (intro opt [where g = "p_unary n"] k IH(5), auto intro!: IH(4))
    then show ?thesis by (rule answers_mono)
  next
    case no: False
    show ?thesis
    proof (cases "ps_kind ps = TOK_NAME \<or> is_op (CHR ''('') ps")
      case True
      have "answers True ps (and_then (and_then (p_power n ps) (\<lambda>ps1. Some (emit_word ''*'' ps1))) (product_loop n))"
        using that by (intro answers_loop answers_then_emit IH(6)) (auto intro!: IH(4))
      then show ?thesis using no True by (simp add: answers_mono)
    qed (use no in simp)
  qed
  have unary: "answers True ps (p_unary (Suc n) ps)" if "12 * unread ps + 9 \<le> Suc n" for ps
  proof -
    have 1: "answers True (deeper ps) (and_then (p_unary n (next_token (deeper ps))) (\<lambda>ps1. Some (emit_word ''neg'' ps1)))"
      if "is_op (CHR ''-'') ps"
    proof -
      have k: "ps_kind (deeper ps) \<noteq> TOK_END" using is_op_kind [OF that] by simp
      show ?thesis using unread_next [OF k] \<open>12 * unread ps + 9 \<le> Suc n\<close>
        by (intro answers_next [OF k] answers_mono [OF answers_then_emit] IH(5)) auto
    qed
    have 2: "answers True (deeper ps) (p_unary n (next_token (deeper ps)))" if "is_op (CHR ''+'') ps"
    proof -
      have k: "ps_kind (deeper ps) \<noteq> TOK_END" using is_op_kind [OF that] by simp
      show ?thesis using unread_next [OF k] \<open>12 * unread ps + 9 \<le> Suc n\<close>
        by (intro answers_next [OF k] answers_mono IH(5)) auto
    qed
    have 3: "answers True (deeper ps) (p_power n (deeper ps))" using that by (intro IH(6)) auto
    have "answers True ps (Some (fail ''TOO DEEP'' (deeper ps)))"
      using extends_fail [of "''TOO DEEP''" "deeper ps"] extends_trans [OF depth_simps(7)]
      by (cases "fail ''TOO DEEP'' (deeper ps)") (auto simp: answers_def)
    then show ?thesis using 1 2 3 by (auto simp: Let_def intro!: answers_deeper)
  qed
  have power: "answers True ps (p_power (Suc n) ps)" if "12 * unread ps + 8 \<le> Suc n" for ps
    unfolding p_power.simps
  proof (intro answers_loop IH(7))
    fix ps1 assume lt: "unread ps1 < unread ps"
    show "answers False ps1 (if \<not> is_op (CHR ''^'') ps1 then Some (True, ps1)
        else and_then (p_unary n (next_token ps1)) (\<lambda>ps2. Some (emit_word ''pow'' ps2)))"
    proof (cases "is_op (CHR ''^'') ps1")
      case True
      then have k: "ps_kind ps1 \<noteq> TOK_END" using is_op_kind by blast
      show ?thesis using True unread_next [OF k] lt that
        by (simp only: not_True_eq_False if_False)
           (intro answers_mono [OF answers_next [OF k]] answers_mono [OF answers_then_emit] IH(5), auto)
    qed simp
  qed (use that in auto)
  have postfix: "answers True ps (p_postfix (Suc n) ps)" if "12 * unread ps + 7 \<le> Suc n" for ps
    unfolding p_postfix.simps using that by (intro answers_loop IH(9)) (auto intro!: IH(8))
  have postfixl: "answers False ps (postfix_loop (Suc n) ps)" if "12 * unread ps + 1 \<le> Suc n" for ps
  proof (cases "is_postfix ps")
    case True
    then have k: "ps_kind ps \<noteq> TOK_END" by (auto simp: is_postfix_def is_op_def split: if_splits)
    have "answers True ps (and_then (Some (emit_word w (next_token ps))) (postfix_loop n))" for w
    proof (intro answers_next [OF k])
      show "answers False (next_token ps) (and_then (Some (emit_word w (next_token ps))) (postfix_loop n))"
        using answers_and_then [of False "next_token ps" "Some (emit_word w (next_token ps))" False "postfix_loop n"]
          answers_emit [of "next_token ps" w] unread_next [OF k] that IH(8) by (simp add: emit_word_def)
    qed
    then show ?thesis using True by (simp add: Let_def answers_mono)
  qed simp
  have call: "answers True ps (p_call (Suc n) ps)" if "12 * unread ps + 5 \<le> Suc n" "ps_kind ps = TOK_NAME" for ps
  proof -
    let ?ps1 = "next_token ps" and ?ps2 = "next_token (next_token ps)"
    have k: "ps_kind ps \<noteq> TOK_END" using that(2) by simp
    have lt: "unread ?ps1 < unread ps" by (rule unread_next [OF k])
    have ex2: "extends ps ?ps2" by (rule extends_trans [OF extends_next extends_next])
    have args: "answers True ps (and_then
        (if \<not> is_op (CHR '')'') ?ps2 then and_then (p_sum n ?ps2) (args_loop n) else Some (True, ?ps2))
        (\<lambda>ps1. if \<not> is_op (CHR '')'') ps1 then Some (fail ''MISSING )'' ps1)
                else Some (emit_word w (next_token ps1))))" if "is_op (CHR ''('') ?ps1" for w
    proof -
      have k2: "ps_kind ?ps1 \<noteq> TOK_END" using is_op_kind [OF that] .
      have lt2: "unread ?ps2 < unread ?ps1" by (rule unread_next [OF k2])
      have in_brackets: "answers False ?ps2 (if \<not> is_op (CHR '')'') ?ps2 then and_then (p_sum n ?ps2) (args_loop n) else Some (True, ?ps2))"
        using lt lt2 \<open>12 * unread ps + 5 \<le> Suc n\<close>
        by (auto intro!: answers_mono [OF answers_loop] IH(1) IH(11))
      have close: "answers False ps' (if \<not> is_op (CHR '')'') ps' then Some (fail ''MISSING )'' ps')
          else Some (emit_word w (next_token ps')))" for ps'
        using answers_next [of ps' "Some (emit_word w (next_token ps'))"] answers_emit [of "next_token ps'" w] is_op_kind [of _ ps']
        by (auto simp: emit_word_def intro: answers_mono answers_fail)
      show ?thesis
        using answers_and_then [OF in_brackets, of False] close lt lt2 ex2
        by (intro answers_step [OF ex2]) (auto simp del: emit_word_def)
    qed
    have word: "answers True ps (Some (emit_word w ?ps1))" for w
      using answers_next [OF k] answers_emit [of ?ps1 w] by (simp add: emit_word_def)
    have one: "answers True ps (and_then (p_unary n ?ps1) (\<lambda>ps1. Some (emit_word w ps1)))" for w
      using lt that by (intro answers_next [OF k] answers_mono [OF answers_then_emit] IH(5)) auto
    have bad: "answers True ps (Some (fail (clip 80 (w @ '' NEEDS (...)'')) ?ps1))" for w
      by (intro answers_next [OF k] answers_fail) (simp add: clip_def)
    have long: "answers True ps (Some (fail ''NAME TOO LONG'' ps))" by (rule answers_fail) simp
    show ?thesis using args word one bad long by (auto simp: Let_def split: option.split)
  qed
  have primary: "answers True ps (p_primary (Suc n) ps)" if "12 * unread ps + 6 \<le> Suc n" for ps
  proof -
    have paren: "answers True ps (and_then (p_sum n (next_token (deeper ps))) (\<lambda>ps1.
        if \<not> is_op (CHR '')'') ps1 then Some (fail ''MISSING )'' ps1) else Some (True, next_token (shallower ps1))))"
      if "is_op (CHR ''('') ps"
    proof (rule answers_brackets)
      have "ps_kind (deeper ps) \<noteq> TOK_END" using is_op_kind [OF that] by simp
      from unread_next [OF this] show "unread (next_token (deeper ps)) < unread ps" by simp
      then show "answers True (next_token (deeper ps)) (p_sum n (next_token (deeper ps)))"
        using \<open>12 * unread ps + 6 \<le> Suc n\<close> by (intro IH(1)) auto
      show "extends ps (next_token (deeper ps))" by (rule extends_trans [OF depth_simps(7) extends_next])
    qed simp
    have deep: "answers True ps (Some (fail ''TOO DEEP'' (deeper ps)))"
      using extends_fail [of "''TOO DEEP''" "deeper ps"] extends_trans [OF depth_simps(7)]
      by (cases "fail ''TOO DEEP'' (deeper ps)") (auto simp: answers_def)
    have failed: "ps_failed ps \<Longrightarrow> answers True ps (Some (False, ps))" by (simp add: answers_def)
    show ?thesis using paren deep failed answers_number [of ps] answers_nothing [of True ps] IH(10) [of ps] that
      by (auto simp: Let_def)
  qed
  have argsl: "answers False ps (args_loop (Suc n) ps)" if "12 * unread ps + 1 \<le> Suc n" for ps
  proof (cases "is_op (CHR '','') ps")
    case True
    then have k: "ps_kind ps \<noteq> TOK_END" using is_op_kind by blast
    have "answers True (next_token ps) (and_then (p_sum n (next_token ps)) (args_loop n))"
      using unread_next [OF k] that by (intro answers_loop IH(1)) (auto intro!: IH(11))
    then show ?thesis using True by (simp add: answers_mono [OF answers_next [OF k]] answers_mono)
  qed simp
  show ?case using sum suml product productl unary power postfix postfixl primary call argsl by blast
qed simp

lemma sum_answers: "12 * unread ps + 11 \<le> n \<Longrightarrow> answers True ps (p_sum n ps)"
  using all_answer by blast

lemma results_answer:
  assumes "unread ps < k" "12 * unread ps + 11 \<le> n"
  shows "\<exists>c ps'. results_loop k n count ps = Some (c, ps') \<and> extends ps ps' \<and>
    (case c of None \<Rightarrow> ps_failed ps' | Some m \<Rightarrow> count < m)"
  using assms
proof (induction k arbitrary: count ps)
  case (Suc k)
  from sum_answers [OF Suc.prems(2)] show ?case
  proof (rule answersE)
    fix ok ps1
    assume r: "p_sum n ps = Some (ok, ps1)" "extends ps ps1" "ok \<Longrightarrow> True \<Longrightarrow> unread ps1 < unread ps"
      "\<not> ok \<Longrightarrow> ps_failed ps1"
    show ?thesis
    proof (cases "ok \<and> is_op (CHR '','') ps1")
      case True
      then have lt: "unread (next_token ps1) < unread ps" using r(3) unread_next_op [of "CHR '',''" ps1] by simp
      have "extends ps (next_token ps1)" by (rule extends_trans [OF r(2) extends_next])
      moreover obtain c ps' where "results_loop k n (count + 1) (next_token ps1) = Some (c, ps')"
        "extends (next_token ps1) ps'" "case c of None \<Rightarrow> ps_failed ps' | Some m \<Rightarrow> count + 1 < m"
        using Suc.IH [of "next_token ps1" "count + 1"] lt Suc.prems by auto
      ultimately show ?thesis using True r
        by (auto intro: extends_trans split: option.splits)
    next
      case False
      then show ?thesis using r by auto
    qed
  qed
qed simp

lemma unread_start: "unread (next_token (start_parser text cap ecap)) \<le> length text + 1"
proof -
  have "unread (next_token ((start_parser text cap ecap)\<lparr>ps_kind := TOK_NUMBER\<rparr>)) <
      unread ((start_parser text cap ecap)\<lparr>ps_kind := TOK_NUMBER\<rparr>)"
    by (rule unread_next) simp
  moreover have "unread (next_token ((start_parser text cap ecap)\<lparr>ps_kind := TOK_NUMBER\<rparr>)) =
      unread (next_token (start_parser text cap ecap))"
    by (simp add: unread_def next_token_def Let_def fail_def start_parser_def)
  ultimately show ?thesis by (simp add: unread_def start_parser_def)
qed

text \<open>
  C39. A formula always gets an answer, whatever its text and however small the buffers: the parser
  never runs out of calls, what it writes fits its buffer with the terminator, and it either
  translates the whole text, into at least one result and with no error reported, or says why not.
\<close>

theorem formula_always_answered:
  "\<exists>res out err. qdos_infix_to_rpn text cap ecap = Some (res, out, err) \<and>
     (out = [] \<or> length out < cap) \<and>
     (case res of None \<Rightarrow> \<exists>why. why \<noteq> [] \<and> err = clip ecap why | Some n \<Rightarrow> err = [] \<and> 0 < n)"
proof -
  let ?ps = "next_token (start_parser text cap ecap)"
  have "buffers_ok (start_parser text cap ecap)" by (simp add: buffers_ok_def start_parser_def)
  then have ok: "buffers_ok ?ps" using extends_next [of "start_parser text cap ecap"] by (simp add: extends_def)
  have "12 * unread ?ps + 11 \<le> fuel_for text" using unread_start [of "text" cap ecap] by (simp add: fuel_for_def)
  with results_answer [of ?ps "length text + 2" "fuel_for text" 0] unread_start [of "text" cap ecap]
  obtain c ps' where r: "results_loop (length text + 2) (fuel_for text) 0 ?ps = Some (c, ps')" "extends ?ps ps'"
    "case c of None \<Rightarrow> ps_failed ps' | Some m \<Rightarrow> 0 < m" by fastforce
  have caps: "ps_cap ps' = cap" "ps_error_cap ps' = ecap" using r(2) by (auto simp: extends_def start_parser_def)
  have ok': "buffers_ok ps'" using ok r(2) by (simp add: extends_def)
  show ?thesis
  proof (cases c)
    case None
    then show ?thesis using r ok' caps by (simp add: qdos_infix_to_rpn_def buffers_ok_def)
  next
    case (Some m)
    show ?thesis
    proof (cases "ps_kind ps' = TOK_END")
      case True
      then show ?thesis using Some r ok' caps by (auto simp: qdos_infix_to_rpn_def buffers_ok_def split: if_splits)
    next
      case False
      let ?why = "clip 40 (''UNEXPECTED '' @ take (min 12 (ps_len ps')) (ps_text ps'))"
      have ne: "?why \<noteq> []" by (simp add: clip_def)
      obtain x y where f: "fail ?why ps' = (x, y)" by (cases "fail ?why ps'")
      from extends_fail [OF ne f] have "extends ps' y" "ps_failed y" by simp_all
      then have "buffers_ok y" "ps_failed y" "ps_cap y = cap" "ps_error_cap y = ecap"
        using ok' caps by (auto simp: extends_def)
      then show ?thesis using Some r False f by (simp add: qdos_infix_to_rpn_def buffers_ok_def Let_def)
    qed
  qed
qed

end
