(* ===== verification/Formula.thy ===== *)
theory Formula
  imports Infix
begin

text \<open>
  What the formula translator of Infix means: every formula, printed the way it is written on paper
  with brackets only where precedence needs them, is translated into its values and operations in
  postfix order.
\<close>

section \<open>More calls change nothing\<close>

definition sooner :: "step \<Rightarrow> step \<Rightarrow> bool" where
  "sooner r r' \<longleftrightarrow> r = None \<or> r' = r"

lemma sooner_refl [simp]: "sooner r r"
  by (simp add: sooner_def)

lemma sooner_None [simp]: "sooner None r"
  by (simp add: sooner_def)

lemma sooner_and_then:
  "sooner r r' \<Longrightarrow> (\<And>ps. sooner (f ps) (f' ps)) \<Longrightarrow> sooner (and_then r f) (and_then r' f')"
  by (auto simp: sooner_def and_then_def split: option.split)

lemma sooner_map: "sooner r r' \<Longrightarrow> sooner (map_option g r) (map_option g r')"
  by (auto simp: sooner_def)

lemma sooner_if:
  "(c \<Longrightarrow> sooner a a') \<Longrightarrow> (\<not> c \<Longrightarrow> sooner b b') \<Longrightarrow> sooner (if c then a else b) (if c then a' else b')"
  by simp

lemma sooner_case:
  "(x = None \<Longrightarrow> sooner a a') \<Longrightarrow> (\<And>e. x = Some e \<Longrightarrow> sooner (b e) (b' e)) \<Longrightarrow>
   sooner (case x of None \<Rightarrow> a | Some e \<Rightarrow> b e) (case x of None \<Rightarrow> a' | Some e \<Rightarrow> b' e)"
  by (cases x) simp_all

lemmas sooner_rules = sooner_if sooner_case sooner_and_then sooner_map sooner_refl

lemma all_sooner:
  "sooner (p_sum n ps) (p_sum (Suc n) ps) \<and> sooner (sum_loop n ps) (sum_loop (Suc n) ps) \<and>
   sooner (p_product n ps) (p_product (Suc n) ps) \<and> sooner (product_loop n ps) (product_loop (Suc n) ps) \<and>
   sooner (p_unary n ps) (p_unary (Suc n) ps) \<and> sooner (p_power n ps) (p_power (Suc n) ps) \<and>
   sooner (p_postfix n ps) (p_postfix (Suc n) ps) \<and> sooner (postfix_loop n ps) (postfix_loop (Suc n) ps) \<and>
   sooner (p_primary n ps) (p_primary (Suc n) ps) \<and> sooner (p_call n ps) (p_call (Suc n) ps) \<and>
   sooner (args_loop n ps) (args_loop (Suc n) ps)"
proof (induction n arbitrary: ps)
  case (Suc n)
  have "sooner (p_sum n ps) (p_sum (Suc n) ps)" "sooner (sum_loop n ps) (sum_loop (Suc n) ps)"
    "sooner (p_product n ps) (p_product (Suc n) ps)" "sooner (product_loop n ps) (product_loop (Suc n) ps)"
    "sooner (p_unary n ps) (p_unary (Suc n) ps)" "sooner (p_power n ps) (p_power (Suc n) ps)"
    "sooner (p_postfix n ps) (p_postfix (Suc n) ps)" "sooner (postfix_loop n ps) (postfix_loop (Suc n) ps)"
    "sooner (p_primary n ps) (p_primary (Suc n) ps)" "sooner (p_call n ps) (p_call (Suc n) ps)"
    "sooner (args_loop n ps) (args_loop (Suc n) ps)" for ps
    using Suc by blast+
  note IH = this
  show ?case
  proof (intro conjI)
    show "sooner (p_sum (Suc n) ps) (p_sum (Suc (Suc n)) ps)"
      by (subst p_sum.simps(2) [of n], subst p_sum.simps(2) [of "Suc n"], (unfold Let_def)?, intro sooner_rules IH)
    show "sooner (sum_loop (Suc n) ps) (sum_loop (Suc (Suc n)) ps)"
      by (subst sum_loop.simps(2) [of n], subst sum_loop.simps(2) [of "Suc n"], (unfold Let_def)?, intro sooner_rules IH)
    show "sooner (p_product (Suc n) ps) (p_product (Suc (Suc n)) ps)"
      by (subst p_product.simps(2) [of n], subst p_product.simps(2) [of "Suc n"], (unfold Let_def)?, intro sooner_rules IH)
    show "sooner (product_loop (Suc n) ps) (product_loop (Suc (Suc n)) ps)"
      by (subst product_loop.simps(2) [of n], subst product_loop.simps(2) [of "Suc n"], (unfold Let_def)?, intro sooner_rules IH)
    show "sooner (p_unary (Suc n) ps) (p_unary (Suc (Suc n)) ps)"
      by (subst p_unary.simps(2) [of n], subst p_unary.simps(2) [of "Suc n"], (unfold Let_def)?, intro sooner_rules IH)
    show "sooner (p_power (Suc n) ps) (p_power (Suc (Suc n)) ps)"
      by (subst p_power.simps(2) [of n], subst p_power.simps(2) [of "Suc n"], (unfold Let_def)?, intro sooner_rules IH)
    show "sooner (p_postfix (Suc n) ps) (p_postfix (Suc (Suc n)) ps)"
      by (subst p_postfix.simps(2) [of n], subst p_postfix.simps(2) [of "Suc n"], (unfold Let_def)?, intro sooner_rules IH)
    show "sooner (postfix_loop (Suc n) ps) (postfix_loop (Suc (Suc n)) ps)"
      by (subst postfix_loop.simps(2) [of n], subst postfix_loop.simps(2) [of "Suc n"], (unfold Let_def)?, intro sooner_rules IH)
    show "sooner (p_primary (Suc n) ps) (p_primary (Suc (Suc n)) ps)"
      by (subst p_primary.simps(2) [of n], subst p_primary.simps(2) [of "Suc n"], (unfold Let_def)?, intro sooner_rules IH)
    show "sooner (p_call (Suc n) ps) (p_call (Suc (Suc n)) ps)"
      by (subst p_call.simps(2) [of n], subst p_call.simps(2) [of "Suc n"], (unfold Let_def)?, intro sooner_rules IH)
    show "sooner (args_loop (Suc n) ps) (args_loop (Suc (Suc n)) ps)"
      by (subst args_loop.simps(2) [of n], subst args_loop.simps(2) [of "Suc n"], (unfold Let_def)?, intro sooner_rules IH)
  qed
qed simp

lemma sum_stable:
  assumes "p_sum n ps = Some r" "n \<le> m"
  shows "p_sum m ps = Some r"
  using assms(2)
proof (induction m rule: dec_induct)
  case (step m)
  then show ?case using all_sooner [of m ps] by (simp add: sooner_def del: p_sum.simps)
qed (use assms(1) in simp)

section \<open>Reading a text\<close>

text \<open>The words written so far and the text that writing more of them makes.\<close>

definition append_words :: "cstring \<Rightarrow> cstring list \<Rightarrow> cstring" where
  "append_words out ws = foldl (\<lambda>o' w. o' @ (if o' \<noteq> [] then '' '' else []) @ w) out ws"

lemma append_words_simps [simp]:
  "append_words out [] = out"
  "append_words out (w # ws) = append_words (out @ (if out \<noteq> [] then '' '' else []) @ w) ws"
  "append_words out (us @ ws) = append_words (append_words out us) ws"
  by (simp_all add: append_words_def)

lemma length_append_words: "length out \<le> length (append_words out ws)"
proof (induction ws arbitrary: out)
  case (Cons w ws)
  from Cons [of "out @ (if out \<noteq> [] then '' '' else []) @ w"] show ?case by simp
qed simp

text \<open>A parser that has just taken the first token of a text, with the rest of its state.\<close>

definition sees :: "cstring \<Rightarrow> cstring \<Rightarrow> nat \<Rightarrow> nat \<Rightarrow> parser \<Rightarrow> bool" where
  "sees s out dp cap ps \<longleftrightarrow>
     (\<exists>ps0. ps = next_token ps0 \<and> ps_p ps0 = s \<and> ps_out ps0 = out \<and> ps_depth ps0 = dp \<and>
        ps_cap ps0 = cap \<and> \<not> ps_failed ps0)"

lemma sees_next: "ps_p ps = s \<Longrightarrow> ps_out ps = out \<Longrightarrow> ps_depth ps = dp \<Longrightarrow> ps_cap ps = cap \<Longrightarrow> \<not> ps_failed ps \<Longrightarrow>
    sees s out dp cap (next_token ps)"
  by (auto simp: sees_def)

lemma sees_fields: "sees s out dp cap ps \<Longrightarrow> ps_out ps = out \<and> ps_depth ps = dp \<and> ps_cap ps = cap"
  by (auto simp: sees_def)

lemma next_out: "next_token (ps\<lparr>ps_out := out\<rparr>) = (next_token ps)\<lparr>ps_out := out\<rparr>"
  by (simp add: next_token_def Let_def fail_def)

lemma next_depth: "next_token (ps\<lparr>ps_depth := dp\<rparr>) = (next_token ps)\<lparr>ps_depth := dp\<rparr>"
  by (simp add: next_token_def Let_def fail_def)

lemma sees_out:
  assumes "sees s out dp cap ps"
  shows "sees s out' dp cap (ps\<lparr>ps_out := out'\<rparr>)"
proof -
  from assms obtain ps0 where "ps = next_token ps0" "ps_p ps0 = s" "ps_depth ps0 = dp" "ps_cap ps0 = cap" "\<not> ps_failed ps0"
    by (auto simp: sees_def)
  then show ?thesis unfolding sees_def by (intro exI [of _ "ps0\<lparr>ps_out := out'\<rparr>"]) (simp add: next_out)
qed

lemma sees_depth:
  assumes "sees s out dp cap ps"
  shows "sees s out dp' cap (ps\<lparr>ps_depth := dp'\<rparr>)"
proof -
  from assms obtain ps0 where "ps = next_token ps0" "ps_p ps0 = s" "ps_out ps0 = out" "ps_cap ps0 = cap" "\<not> ps_failed ps0"
    by (auto simp: sees_def)
  then show ?thesis unfolding sees_def by (intro exI [of _ "ps0\<lparr>ps_depth := dp'\<rparr>"]) (simp add: next_depth)
qed

lemma sees_deeper: "sees s out dp cap ps \<Longrightarrow> sees s out (dp + 1) cap (deeper ps)"
  using sees_depth [of s out dp cap ps "dp + 1"] by (simp add: deeper_def sees_fields)

lemma sees_shallower: "sees s out dp cap ps \<Longrightarrow> sees s out (dp - 1) cap (shallower ps)"
  using sees_depth [of s out dp cap ps "dp - 1"] by (simp add: shallower_def sees_fields)

lemma sees_emit:
  assumes "sees s out dp cap ps" "length (append_words out [w]) + 2 \<le> cap"
  shows "\<exists>ps'. emit w ps = (True, ps') \<and> sees s (append_words out [w]) dp cap ps'"
  using assms sees_out [OF assms(1)] sees_fields [OF assms(1)] by (auto simp: emit_def)

text \<open>What the first token is.\<close>

definition punct :: "char \<Rightarrow> bool" where
  "punct c \<longleftrightarrow> c \<in> set ''+-*/^(),!''"

lemma punct_not: "punct c \<Longrightarrow> \<not> is_space c \<and> \<not> is_digit c \<and> c \<noteq> CHR ''.'' \<and> \<not> name_start c \<and> \<not> name_char c \<and>
    c \<noteq> CHR ''e'' \<and> c \<noteq> CHR ''E'' \<and> c \<noteq> nul"
  unfolding punct_def by (auto simp: name_start_def name_char_def ctype_simps)

lemma skip_punct: "punct c \<Longrightarrow> skip_space (c # s) = c # s"
  using punct_not by (simp add: skip_space_def)

lemma sees_punct:
  assumes "sees (c # s) out dp cap ps" "punct c"
  shows "is_op d ps = (d = c)" "ps_kind ps = TOK_OP" "ps_op ps = c" "ps_p ps = s" "\<not> ps_failed ps"
    "sees s out dp cap (next_token ps)"
proof -
  from assms(1) obtain ps0 where ps0: "ps = next_token ps0" "ps_p ps0 = c # s" "ps_out ps0 = out" "ps_depth ps0 = dp"
    "ps_cap ps0 = cap" "\<not> ps_failed ps0"
    by (auto simp: sees_def)
  have "ps_kind ps = TOK_OP \<and> ps_op ps = c \<and> ps_p ps = s \<and> \<not> ps_failed ps \<and> ps_out ps = out \<and> ps_depth ps = dp \<and> ps_cap ps = cap"
    unfolding ps0(1) next_token_def Let_def ps0(2) skip_punct [OF assms(2)]
    using ps0 punct_not [OF assms(2)] assms(2) [unfolded punct_def] by (simp del: list.set)
  then show "is_op d ps = (d = c)" "ps_kind ps = TOK_OP" "ps_op ps = c" "ps_p ps = s" "\<not> ps_failed ps"
    "sees s out dp cap (next_token ps)"
    by (auto simp: is_op_def intro!: sees_next)
qed

lemma sees_end:
  assumes "sees [] out dp cap ps"
  shows "ps_kind ps = TOK_END" "\<not> ps_failed ps" "\<not> is_op c ps"
  using assms by (auto simp: sees_def next_token_def Let_def skip_space_def is_op_def)

text \<open>The characters that can follow a value.\<close>

definition follow :: "cstring \<Rightarrow> cstring \<Rightarrow> bool" where
  "follow cs r \<longleftrightarrow> r = [] \<or> hd r \<in> set cs"

lemma follow_op:
  assumes "sees r out dp cap ps" "follow cs r" "\<forall>c \<in> set cs. punct c"
  shows "\<not> ps_failed ps" "ps_kind ps \<noteq> TOK_NAME" "ps_kind ps \<noteq> TOK_NUMBER"
    "is_op d ps \<longleftrightarrow> r \<noteq> [] \<and> d = hd r"
proof -
  have "\<not> ps_failed ps \<and> ps_kind ps \<noteq> TOK_NAME \<and> ps_kind ps \<noteq> TOK_NUMBER \<and> (is_op d ps \<longleftrightarrow> r \<noteq> [] \<and> d = hd r)"
  proof (cases r)
    case Nil
    then show ?thesis using sees_end [of out dp cap ps] assms(1) by auto
  next
    case (Cons c s)
    then have "punct c" using assms(2,3) by (auto simp: follow_def)
    then show ?thesis using sees_punct [of c s out dp cap ps] assms(1) Cons by auto
  qed
  then show "\<not> ps_failed ps" "ps_kind ps \<noteq> TOK_NAME" "ps_kind ps \<noteq> TOK_NUMBER" "is_op d ps \<longleftrightarrow> r \<noteq> [] \<and> d = hd r"
    by blast+
qed

section \<open>Numbers and names in a text\<close>

definition after_value :: cstring where "after_value = ''+-*/^),!''"

lemma after_punct: "\<forall>c \<in> set after_value. punct c"
  by (auto simp: after_value_def punct_def)

definition num_ok :: "cstring \<Rightarrow> bool" where
  "num_ok d \<longleftrightarrow> d \<noteq> [] \<and> (is_digit (char_at d 0) \<or> (char_at d 0 = CHR ''.'' \<and> is_digit (char_at d 1))) \<and>
     number_len d = length d \<and> length d \<le> 60"

definition name_ok :: "cstring \<Rightarrow> bool" where
  "name_ok v \<longleftrightarrow> is_name v \<and> v \<noteq> [] \<and> length v < 64"

text \<open>A name that is a value: not a function of something, not an operator's word.\<close>

definition var_ok :: "cstring \<Rightarrow> bool" where
  "var_ok v \<longleftrightarrow> name_ok v \<and> word_operator v = nul \<and> (case effect_of v of None \<Rightarrow> True | Some e \<Rightarrow> we_takes e \<le> 0)"

lemma follow_char: "follow after_value r \<Longrightarrow> char_at r 0 = nul \<or> punct (char_at r 0)"
  using after_punct by (cases r) (auto simp: follow_def char_at_def)

lemma nul_not: "\<not> is_digit nul \<and> \<not> name_char nul \<and> \<not> name_start nul \<and> \<not> is_space nul"
  by (simp add: name_char_def name_start_def ctype_simps)

lemma follow_not:
  assumes "follow after_value r"
  shows "\<not> is_digit (char_at r 0)" "char_at r 0 \<noteq> CHR ''.''" "char_at r 0 \<noteq> CHR ''e''" "char_at r 0 \<noteq> CHR ''E''"
    "\<not> name_char (char_at r 0)"
  using follow_char [OF assms] punct_not [of "char_at r 0"] nul_not by auto

lemma digits_len_append:
  "\<not> P (char_at r 0) \<or> r = [] \<Longrightarrow> digits_len P (s @ r) = digits_len P s"
proof (induction s)
  case Nil
  then show ?case by (cases r) (auto simp: digits_len_def)
qed (simp add: digits_len_def)

lemma digits_len_le: "digits_len P s \<le> length s"
  by (simp add: digits_len_def length_takeWhile_le)

lemma char_at_append: "char_at (s @ r) i = (if i < length s then char_at s i else char_at r (i - length s))"
  by (cases "i < length s") (auto simp: char_at_def nth_append)

lemma char_at_end: "length s \<le> i \<Longrightarrow> char_at s i = nul"
  by (simp add: char_at_def)

text \<open>A number read with something after it that cannot continue it is the same number.\<close>

lemma number_len_append:
  assumes "num_ok d" "follow after_value r"
  shows "number_len (d @ r) = length d"
proof -
  note r = follow_not [OF assms(2)]
  have P: "digits_len is_digit (s @ r) = digits_len is_digit s" for s using r by (intro digits_len_append) simp
  define a where "a = digits_len is_digit d"
  define b where "b = (if char_at d a = CHR ''.'' then a + 1 + digits_len is_digit (drop (a + 1) d) else a)"
  define c where "c = drop b d"
  have ale: "a \<le> length d" by (simp add: a_def digits_len_le)
  have pt: "char_at (d @ r) a = CHR ''.'' \<longleftrightarrow> char_at d a = CHR ''.''"
    using r(2) ale char_at_end [of d a] by (cases "a < length d") (auto simp: char_at_append)
  have alt: "char_at d a = CHR ''.'' \<Longrightarrow> a < length d" using char_at_end [of d a] by (cases "a < length d") auto
  have b': "b = (if char_at (d @ r) a = CHR ''.'' then a + 1 + digits_len is_digit (drop (a + 1) (d @ r)) else a)"
    using pt alt P [of "drop (a + 1) d"] by (auto simp: b_def)
  have ble: "b \<le> length d" using ale alt digits_len_le [of is_digit "drop (a + 1) d"] by (auto simp: b_def)
  define E where "E = (\<lambda>c. (char_at c 0 = CHR ''e'' \<or> char_at c 0 = CHR ''E'') \<and>
            (is_digit (char_at c 1) \<or>
             ((char_at c 1 = CHR ''-'' \<or> char_at c 1 = CHR ''+'') \<and> is_digit (char_at c 2))))"
  have n: "number_len d = (if E c then b + 2 + digits_len is_digit (drop 2 c) else b)"
    by (simp add: number_len_def Let_def a_def b_def c_def E_def)
  have n': "number_len (d @ r) = (if E (drop b (d @ r)) then b + 2 + digits_len is_digit (drop 2 (drop b (d @ r))) else b)"
    unfolding number_len_def Let_def P [of d] a_def [symmetric] b' [symmetric] E_def ..
  have drop: "drop b (d @ r) = c @ r" using ble by (simp add: c_def)
  have len: "number_len d = length d" using assms(1) by (simp add: num_ok_def)
  show ?thesis
  proof (cases "b = length d")
    case True
    then have "c = []" by (simp add: c_def)
    then have "\<not> E (c @ r)" using r by (simp add: E_def)
    then show ?thesis using n' drop True by simp
  next
    case False
    then have Ec: "E c" using n len by (auto split: if_splits)
    have "2 \<le> length c"
    proof (rule ccontr)
      assume "\<not> 2 \<le> length c"
      then have "char_at c 1 = nul" by (simp add: char_at_def)
      then show False using Ec nul_not by (simp add: E_def)
    qed
    moreover have "2 < length c \<or> is_digit (char_at c 1)" using Ec nul_not
      by (cases "2 < length c") (auto simp: E_def char_at_def)
    ultimately have "E (c @ r)" using Ec by (auto simp: E_def char_at_append)
    then show ?thesis using n n' len Ec drop P [of "drop 2 c"] \<open>2 \<le> length c\<close> by simp
  qed
qed

lemma digit_not_space: "is_digit c \<Longrightarrow> \<not> is_space c" "name_start c \<Longrightarrow> \<not> is_space c" "\<not> is_space (CHR ''.'')"
  "name_start c \<Longrightarrow> \<not> is_digit c" "\<not> name_start (CHR ''.'')"
  by (auto simp: name_start_def ctype_simps)

lemma sees_number:
  assumes "sees (d @ r) out dp cap ps" "num_ok d" "follow after_value r"
  shows "ps_kind ps = TOK_NUMBER" "token_text ps = d" "ps_len ps = length d" "\<not> ps_failed ps"
    "sees r out dp cap (next_token ps)"
proof -
  from assms(1) obtain ps0 where ps0: "ps = next_token ps0" "ps_p ps0 = d @ r" "ps_out ps0 = out" "ps_depth ps0 = dp"
    "ps_cap ps0 = cap" "\<not> ps_failed ps0"
    by (auto simp: sees_def)
  obtain x xs where d: "d = x # xs" using assms(2) by (cases d) (auto simp: num_ok_def)
  have sp: "skip_space (d @ r) = d @ r"
    using assms(2) d digit_not_space by (auto simp: num_ok_def skip_space_def)
  have st: "is_digit (char_at (d @ r) 0) \<or> (char_at (d @ r) 0 = CHR ''.'' \<and> is_digit (char_at (d @ r) 1))"
    using assms(2) d nul_not by (auto simp: num_ok_def char_at_append char_at_end)
  have "ps_kind ps = TOK_NUMBER \<and> ps_text ps = d @ r \<and> ps_len ps = length d \<and> ps_p ps = r \<and> \<not> ps_failed ps \<and>
      ps_out ps = out \<and> ps_depth ps = dp \<and> ps_cap ps = cap"
    unfolding ps0(1) next_token_def Let_def ps0(2) sp number_len_append [OF assms(2,3)]
    using ps0 st d by simp
  then show "ps_kind ps = TOK_NUMBER" "token_text ps = d" "ps_len ps = length d" "\<not> ps_failed ps"
    "sees r out dp cap (next_token ps)"
    by (auto simp: token_text_def intro!: sees_next)
qed

lemma sees_name:
  assumes "sees (v @ r) out dp cap ps" "name_ok v" "follow after_value r \<and> word_operator v = nul \<or> hd r = CHR ''('' \<and> r \<noteq> []"
  shows "ps_kind ps = TOK_NAME" "token_text ps = v" "ps_len ps = length v" "ps_p ps = r" "\<not> ps_failed ps"
    "sees r out dp cap (next_token ps)"
proof -
  from assms(1) obtain ps0 where ps0: "ps = next_token ps0" "ps_p ps0 = v @ r" "ps_out ps0 = out" "ps_depth ps0 = dp"
    "ps_cap ps0 = cap" "\<not> ps_failed ps0"
    by (auto simp: sees_def)
  have all: "list_all name_char v"
    using assms(2) by (cases v) (auto simp: name_ok_def is_name_def name_start_def name_char_def is_alnum_def)
  obtain x xs where v: "v = x # xs" using assms(2) by (cases v) (auto simp: name_ok_def)
  have x: "name_start x" using assms(2) v by (simp add: name_ok_def is_name_def)
  have xp: "x \<noteq> CHR ''.''" using x digit_not_space(5) by auto
  have sp: "skip_space (v @ r) = v @ r" using x v digit_not_space by (simp add: skip_space_def)
  have "\<not> name_char (CHR ''('')" by (simp add: name_char_def ctype_simps)
  then have nc: "\<not> name_char (char_at r 0)" using assms(3) follow_not(5) [of r] by (cases r) auto
  have len: "digits_len name_char (v @ r) = length v"
  proof -
    have "digits_len name_char (v @ r) = digits_len name_char v" using nc by (intro digits_len_append) simp
    moreover have "takeWhile name_char v = v" using all by (simp add: list_all_iff takeWhile_eq_all_conv)
    ultimately show ?thesis by (simp add: digits_len_def)
  qed
  have "\<not> is_space (CHR ''('')" by (simp add: ctype_simps)
  then have op: "(if char_at (skip_space r) 0 = CHR ''('' then nul else word_operator v) = nul"
    using assms(3) by (cases r) (auto simp: skip_space_def)
  have "ps_kind ps = TOK_NAME \<and> ps_text ps = v @ r \<and> ps_len ps = length v \<and> ps_p ps = r \<and> \<not> ps_failed ps \<and>
      ps_out ps = out \<and> ps_depth ps = dp \<and> ps_cap ps = cap"
    unfolding ps0(1) next_token_def Let_def ps0(2) sp len
    using ps0 x v op [unfolded v] digit_not_space(4) [OF x] xp by (auto split: if_splits)
  then show "ps_kind ps = TOK_NAME" "token_text ps = v" "ps_len ps = length v" "ps_p ps = r" "\<not> ps_failed ps"
    "sees r out dp cap (next_token ps)"
    by (auto simp: token_text_def intro!: sees_next)
qed

section \<open>Parsing, from enough calls on\<close>

definition parses :: "(nat \<Rightarrow> parser \<Rightarrow> step) \<Rightarrow> parser \<Rightarrow> parser \<Rightarrow> bool" where
  "parses f ps ps' \<longleftrightarrow> (\<exists>n0. \<forall>n \<ge> n0. f n ps = Some (True, ps'))"

lemma parsesI: "(\<And>n. n0 \<le> n \<Longrightarrow> f n ps = Some (True, ps')) \<Longrightarrow> parses f ps ps'"
  unfolding parses_def by blast

lemma parses_Suc:
  assumes "\<And>n. f (Suc n) ps = g n ps1" "parses g ps1 ps'"
  shows "parses f ps ps'"
proof -
  from assms(2) obtain n0 where n0: "\<And>n. n0 \<le> n \<Longrightarrow> g n ps1 = Some (True, ps')" by (auto simp: parses_def)
  show ?thesis
  proof (rule parsesI [of "Suc n0"])
    fix n assume "Suc n0 \<le> n"
    then obtain m where "n = Suc m" "n0 \<le> m" by (cases n) auto
    then show "f n ps = Some (True, ps')" using assms(1) n0 by simp
  qed
qed

lemma parses_and_then:
  assumes "parses f ps ps1" "parses g ps1 ps2"
  shows "parses (\<lambda>n ps. and_then (f n ps) (g n)) ps ps2"
proof -
  from assms obtain n1 n2 where "\<And>n. n1 \<le> n \<Longrightarrow> f n ps = Some (True, ps1)" "\<And>n. n2 \<le> n \<Longrightarrow> g n ps1 = Some (True, ps2)"
    by (auto simp: parses_def)
  then show ?thesis by (intro parsesI [of "max n1 n2"]) (simp add: and_then_def)
qed

lemma parses_const: "g ps = (True, ps') \<Longrightarrow> parses (\<lambda>n ps. Some (g ps)) ps ps'"
  by (auto simp: parses_def)

lemmas no_unfold = p_sum.simps sum_loop.simps p_product.simps product_loop.simps p_unary.simps p_power.simps
  p_postfix.simps postfix_loop.simps p_primary.simps p_call.simps args_loop.simps

text \<open>
  What it is for a text to parse as a value of each kind, writing the words \<open>ws\<close>, from any state that
  sees it with something after it that cannot continue it. The loops are stated by what they lead to.
\<close>

definition roomy :: "cstring \<Rightarrow> cstring list \<Rightarrow> nat \<Rightarrow> bool" where
  "roomy out ws cap \<longleftrightarrow> length (append_words out ws) + 2 \<le> cap"

definition value_text :: "nat \<Rightarrow> cstring \<Rightarrow> (nat \<Rightarrow> parser \<Rightarrow> step) \<Rightarrow> cstring \<Rightarrow> cstring list \<Rightarrow> bool" where
  "value_text dn stop f s ws \<longleftrightarrow>
     (\<forall>ps r out dp cap. sees (s @ r) out dp cap ps \<longrightarrow> follow stop r \<longrightarrow> dp + dn \<le> INFIX_DEPTH_MAX \<longrightarrow> roomy out ws cap \<longrightarrow>
        (\<exists>ps'. parses f ps ps' \<and> sees r (append_words out ws) dp cap ps'))"

definition chain_text :: "nat \<Rightarrow> cstring \<Rightarrow> (nat \<Rightarrow> parser \<Rightarrow> step) \<Rightarrow> (nat \<Rightarrow> parser \<Rightarrow> step) \<Rightarrow> cstring \<Rightarrow> cstring list \<Rightarrow> bool" where
  "chain_text dn stop f loop s ws \<longleftrightarrow>
     (\<forall>ps r out dp cap. sees (s @ r) out dp cap ps \<longrightarrow> follow stop r \<longrightarrow> dp + dn \<le> INFIX_DEPTH_MAX \<longrightarrow> roomy out ws cap \<longrightarrow>
        (\<exists>ps1. sees r (append_words out ws) dp cap ps1 \<and> (\<forall>ps2. parses loop ps1 ps2 \<longrightarrow> parses f ps ps2)))"

text \<open>What a text does not begin with.\<close>

definition begins_not :: "cstring \<Rightarrow> cstring \<Rightarrow> bool" where
  "begins_not cs s \<longleftrightarrow> (\<forall>r out dp cap ps. sees (s @ r) out dp cap ps \<longrightarrow> follow after_value r \<longrightarrow> (\<forall>c \<in> set cs. \<not> is_op c ps))"

abbreviation stop0 :: cstring where "stop0 \<equiv> ''),''"
abbreviation stop1 :: cstring where "stop1 \<equiv> ''),+-''"
abbreviation stop2 :: cstring where "stop2 \<equiv> ''),+-*/''"
abbreviation stop4 :: cstring where "stop4 \<equiv> ''),+-*/^!''"

abbreviation "is_primary dn s ws \<equiv> value_text dn stop4 p_primary s ws"
abbreviation "is_factor dn s ws \<equiv> chain_text dn stop4 p_postfix postfix_loop s ws"
abbreviation "is_power dn s ws \<equiv> value_text dn stop2 p_power s ws"
abbreviation "is_unary dn s ws \<equiv> value_text dn stop2 p_unary s ws"
abbreviation "is_product dn s ws \<equiv> chain_text dn stop2 p_product product_loop s ws"
abbreviation "is_sum dn s ws \<equiv> chain_text dn stop1 p_sum sum_loop s ws"

lemma follow_mono: "follow cs r \<Longrightarrow> set cs \<subseteq> set cs' \<Longrightarrow> follow cs' r"
  by (auto simp: follow_def)

lemma stops_punct: "\<forall>c \<in> set stop0. punct c" "\<forall>c \<in> set stop1. punct c" "\<forall>c \<in> set stop2. punct c" "\<forall>c \<in> set stop4. punct c"
  by (auto simp: punct_def)

lemma roomy_part: "roomy out (us @ ws) cap \<Longrightarrow> roomy out us cap"
  using length_append_words [of "append_words out us" ws] by (simp add: roomy_def)

lemma not_postfix: "follow stop2 r \<Longrightarrow> sees r out dp cap ps \<Longrightarrow> \<not> is_postfix ps"
  using follow_op [OF _ _ stops_punct(3), of r out dp cap ps] by (auto simp: is_postfix_def follow_def)

text \<open>From one kind to the next.\<close>

lemma factor_of_primary:
  assumes "is_primary dn s ws"
  shows "is_factor dn s ws"
  unfolding chain_text_def
proof (intro allI impI)
  fix ps r out dp cap
  assume "sees (s @ r) out dp cap ps" "follow stop4 r" "dp + dn \<le> INFIX_DEPTH_MAX" "roomy out ws cap"
  with assms obtain ps1 where ps1: "parses p_primary ps ps1" "sees r (append_words out ws) dp cap ps1"
    unfolding value_text_def by blast
  have "parses p_postfix ps ps2" if "parses postfix_loop ps1 ps2" for ps2
    by (rule parses_Suc [OF _ parses_and_then [OF ps1(1) that]]) simp
  with ps1(2) show "\<exists>ps1. sees r (append_words out ws) dp cap ps1 \<and> (\<forall>ps2. parses postfix_loop ps1 ps2 \<longrightarrow> parses p_postfix ps ps2)"
    by blast
qed

lemma postfix_stops: "\<not> is_postfix ps \<Longrightarrow> parses postfix_loop ps ps"
  by (rule parsesI [of 1]) (case_tac n; simp)

lemma factor_value:
  assumes "is_factor dn s ws" "sees (s @ r) out dp cap ps" "follow stop4 r" "dp + dn \<le> INFIX_DEPTH_MAX" "roomy out ws cap"
    "\<not> follow ''!'' r \<or> r = []"
  shows "\<exists>ps1. parses p_postfix ps ps1 \<and> sees r (append_words out ws) dp cap ps1"
proof -
  from assms obtain ps1 where ps1: "sees r (append_words out ws) dp cap ps1" "\<And>ps2. parses postfix_loop ps1 ps2 \<Longrightarrow> parses p_postfix ps ps2"
    unfolding chain_text_def by blast
  have "\<not> is_postfix ps1"
    using follow_op [OF ps1(1) assms(3) stops_punct(4)] assms(6) by (auto simp: is_postfix_def follow_def)
  then show ?thesis using ps1 postfix_stops by blast
qed

lemma power_of_factor:
  assumes "is_factor dn s ws"
  shows "is_power dn s ws"
  unfolding value_text_def
proof (intro allI impI)
  fix ps r out dp cap
  assume a: "sees (s @ r) out dp cap ps" "follow stop2 r" "dp + dn \<le> INFIX_DEPTH_MAX" "roomy out ws cap"
  have st: "follow stop4 r" using a(2) by (rule follow_mono) auto
  from factor_value [OF assms a(1) st a(3,4)] a(2)
  obtain ps1 where ps1: "parses p_postfix ps ps1" "sees r (append_words out ws) dp cap ps1" by (auto simp: follow_def)
  have "\<not> is_op (CHR ''^'') ps1" using follow_op [OF ps1(2) a(2) stops_punct(3)] a(2) by (auto simp: follow_def)
  then have "parses (\<lambda>n ps1. if \<not> is_op (CHR ''^'') ps1 then Some (True, ps1)
       else and_then (p_unary n (next_token ps1)) (\<lambda>ps2. Some (emit_word ''pow'' ps2))) ps1 ps1"
    by (intro parsesI) simp
  from parses_Suc [OF _ parses_and_then [OF ps1(1) this], of p_power ps] have "parses p_power ps ps1" by simp
  with ps1(2) show "\<exists>ps'. parses p_power ps ps' \<and> sees r (append_words out ws) dp cap ps'" by blast
qed

lemma emit_parses:
  assumes "sees r out dp cap ps" "roomy out [w] cap"
  shows "\<exists>ps'. emit_word w ps = (True, ps') \<and> sees r (append_words out [w]) dp cap ps'"
  using sees_emit [OF assms(1)] assms(2) by (simp add: roomy_def emit_word_def)

lemma emit_after:
  assumes "parses f ps ps1" "sees r out dp cap ps1" "roomy out [w] cap"
  shows "\<exists>ps'. parses (\<lambda>n ps. and_then (f n ps) (\<lambda>ps1. Some (emit_word w ps1))) ps ps' \<and> sees r (append_words out [w]) dp cap ps'"
proof -
  from emit_parses [OF assms(2,3)] obtain ps' where "emit_word w ps1 = (True, ps')" "sees r (append_words out [w]) dp cap ps'" by blast
  then show ?thesis using parses_and_then [OF assms(1) parses_const] by blast
qed

lemma roomy_split: "roomy out (us @ ws) cap \<Longrightarrow> roomy (append_words out us) ws cap"
  by (simp add: roomy_def)

lemma unary_of_power:
  assumes "is_power dn s ws" "begins_not ''+-'' s"
  shows "is_unary (dn + 1) s ws"
  unfolding value_text_def
proof (intro allI impI)
  fix ps r out dp cap
  assume a: "sees (s @ r) out dp cap ps" "follow stop2 r" "dp + (dn + 1) \<le> INFIX_DEPTH_MAX" "roomy out ws cap"
  have "(dp + 1) + dn \<le> INFIX_DEPTH_MAX" using a(3) by simp
  with assms(1) sees_deeper [OF a(1)] a(2,4) obtain ps1 where
    ps1: "parses p_power (deeper ps) ps1" "sees r (append_words out ws) (dp + 1) cap ps1"
    unfolding value_text_def by blast
  have no: "\<not> is_op (CHR ''-'') ps" "\<not> is_op (CHR ''+'') ps" using assms(2) a(1) follow_mono [OF a(2), of after_value]
    by (auto simp: begins_not_def after_value_def)
  have d: "\<not> ps_depth (deeper ps) > INFIX_DEPTH_MAX" using sees_fields [OF a(1)] a(3) by simp
  from ps1(1) obtain n0 where n0: "\<And>n. n0 \<le> n \<Longrightarrow> p_power n (deeper ps) = Some (True, ps1)" by (auto simp: parses_def)
  have "parses p_unary ps (shallower ps1)"
  proof (rule parsesI [of "Suc n0"])
    fix n assume "Suc n0 \<le> n"
    then obtain m where "n = Suc m" "n0 \<le> m" by (cases n) auto
    then show "p_unary n ps = Some (True, shallower ps1)" using n0 no d by (simp add: Let_def del: depth_simps)
  qed
  with sees_shallower [OF ps1(2)] show "\<exists>ps'. parses p_unary ps ps' \<and> sees r (append_words out ws) dp cap ps'" by auto
qed

lemma unary_neg:
  assumes "is_unary dn s ws"
  shows "is_unary (dn + 1) (''-'' @ s) (ws @ [''neg''])"
  unfolding value_text_def
proof (intro allI impI)
  fix ps r out dp cap
  assume a: "sees ((''-'' @ s) @ r) out dp cap ps" "follow stop2 r" "dp + (dn + 1) \<le> INFIX_DEPTH_MAX" "roomy out (ws @ [''neg'']) cap"
  have p: "punct (CHR ''-'')" by (simp add: punct_def)
  from a(1) have "sees (CHR ''-'' # s @ r) out (dp + 1) cap (deeper ps)" using sees_deeper by fastforce
  note see = sees_punct [OF this p]
  have "(dp + 1) + dn \<le> INFIX_DEPTH_MAX" using a(3) by simp
  with assms see(6) a(2) roomy_part [OF a(4)] obtain ps1 where
    ps1: "parses p_unary (next_token (deeper ps)) ps1" "sees r (append_words out ws) (dp + 1) cap ps1"
    unfolding value_text_def by blast
  from emit_after [OF ps1 roomy_split [OF a(4)]] obtain ps2 where
    ps2: "parses (\<lambda>n ps. and_then (p_unary n ps) (\<lambda>ps1. Some (emit_word ''neg'' ps1))) (next_token (deeper ps)) ps2"
      "sees r (append_words out (ws @ [''neg''])) (dp + 1) cap ps2" by auto
  have d: "\<not> ps_depth (deeper ps) > INFIX_DEPTH_MAX" using sees_fields [OF a(1)] a(3) by simp
  from ps2(1) obtain n0 where n0: "\<And>n. n0 \<le> n \<Longrightarrow>
      and_then (p_unary n (next_token (deeper ps))) (\<lambda>ps1. Some (emit_word ''neg'' ps1)) = Some (True, ps2)" by (auto simp: parses_def)
  have "parses p_unary ps (shallower ps2)"
  proof (rule parsesI [of "Suc n0"])
    fix n assume "Suc n0 \<le> n"
    then obtain m where m: "n = Suc m" "n0 \<le> m" by (cases n) auto
    show "p_unary n ps = Some (True, shallower ps2)"
      unfolding m(1) p_unary.simps Let_def using n0 [OF m(2)] see(1) d by simp
  qed
  with sees_shallower [OF ps2(2)] show "\<exists>ps'. parses p_unary ps ps' \<and> sees r (append_words out (ws @ [''neg''])) dp cap ps'" by auto
qed

lemma sum_loop_stops:
  assumes "\<not> is_op (CHR ''+'') ps" "\<not> is_op (CHR ''-'') ps"
  shows "parses sum_loop ps ps"
proof (rule parsesI [of 1])
  fix n :: nat assume "1 \<le> n"
  then obtain m where "n = Suc m" by (cases n) auto
  then show "sum_loop n ps = Some (True, ps)" using assms by (simp only: sum_loop.simps) simp
qed

lemma product_loop_stops:
  assumes "\<not> is_op (CHR ''*'') ps" "\<not> is_op (CHR ''/'') ps" "\<not> is_op (CHR ''('') ps" "ps_kind ps \<noteq> TOK_NAME"
  shows "parses product_loop ps ps"
proof (rule parsesI [of 1])
  fix n :: nat assume "1 \<le> n"
  then obtain m where "n = Suc m" by (cases n) auto
  then show "product_loop n ps = Some (True, ps)" using assms by (simp only: product_loop.simps) simp
qed

lemma sum_loop_op:
  assumes "is_op c ps" "c \<in> set ''+-''"
  shows "sum_loop (Suc n) ps = and_then (and_then (p_product n (next_token ps)) (\<lambda>ps1. Some (emit_word [c] ps1))) (sum_loop n)"
proof -
  from assms have "is_op (CHR ''+'') ps \<or> is_op (CHR ''-'') ps" "(if ps_op ps = CHR ''+'' then ''+'' else ''-'') = [c]"
    by (auto simp: is_op_def)
  then show ?thesis by (simp only: sum_loop.simps if_True)
qed

definition op_word :: "char \<Rightarrow> cstring" where
  "op_word c = (if c = CHR ''/'' then ''divide'' else if c = CHR ''^'' then ''pow'' else [c])"

lemma product_loop_op:
  assumes "is_op c ps" "c \<in> set ''*/''"
  shows "product_loop (Suc n) ps = and_then (and_then (p_unary n (next_token ps)) (\<lambda>ps1. Some (emit_word (op_word c) ps1))) (product_loop n)"
proof -
  from assms have "is_op (CHR ''*'') ps \<or> is_op (CHR ''/'') ps" "(if ps_op ps = CHR ''*'' then ''*'' else ''divide'') = op_word c"
    by (auto simp: is_op_def op_word_def)
  then show ?thesis by (simp only: product_loop.simps if_True)
qed

lemma product_of_unary:
  assumes "is_unary dn s ws"
  shows "is_product dn s ws"
  unfolding chain_text_def
proof (intro allI impI)
  fix ps r out dp cap
  assume "sees (s @ r) out dp cap ps" "follow stop2 r" "dp + dn \<le> INFIX_DEPTH_MAX" "roomy out ws cap"
  with assms obtain ps1 where ps1: "parses p_unary ps ps1" "sees r (append_words out ws) dp cap ps1"
    unfolding value_text_def by blast
  have "parses p_product ps ps2" if "parses product_loop ps1 ps2" for ps2
    by (rule parses_Suc [OF _ parses_and_then [OF ps1(1) that]]) (rule p_product.simps(2))
  with ps1(2) show "\<exists>ps1. sees r (append_words out ws) dp cap ps1 \<and> (\<forall>ps2. parses product_loop ps1 ps2 \<longrightarrow> parses p_product ps ps2)"
    by blast
qed

lemma product_value:
  assumes "is_product dn s ws" "sees (s @ r) out dp cap ps" "follow stop1 r" "dp + dn \<le> INFIX_DEPTH_MAX" "roomy out ws cap"
  shows "\<exists>ps1. parses p_product ps ps1 \<and> sees r (append_words out ws) dp cap ps1"
proof -
  have "follow stop2 r" using assms(3) by (rule follow_mono) auto
  with assms obtain ps1 where ps1: "sees r (append_words out ws) dp cap ps1" "\<And>ps2. parses product_loop ps1 ps2 \<Longrightarrow> parses p_product ps ps2"
    unfolding chain_text_def by blast
  note op = follow_op [OF ps1(1) assms(3) stops_punct(2)]
  have "parses product_loop ps1 ps1" using op(2) assms(3) by (intro product_loop_stops) (auto simp: op(4) follow_def)
  then show ?thesis using ps1 by blast
qed

lemma sum_of_product:
  assumes "is_product dn s ws"
  shows "is_sum dn s ws"
  unfolding chain_text_def
proof (intro allI impI)
  fix ps r out dp cap
  assume "sees (s @ r) out dp cap ps" "follow stop1 r" "dp + dn \<le> INFIX_DEPTH_MAX" "roomy out ws cap"
  from product_value [OF assms this] obtain ps1 where ps1: "parses p_product ps ps1" "sees r (append_words out ws) dp cap ps1" by blast
  have "parses p_sum ps ps2" if "parses sum_loop ps1 ps2" for ps2
    by (rule parses_Suc [OF _ parses_and_then [OF ps1(1) that]]) (rule p_sum.simps(2))
  with ps1(2) show "\<exists>ps1. sees r (append_words out ws) dp cap ps1 \<and> (\<forall>ps2. parses sum_loop ps1 ps2 \<longrightarrow> parses p_sum ps ps2)"
    by blast
qed

lemma sum_value:
  assumes "is_sum dn s ws" "sees (s @ r) out dp cap ps" "follow stop0 r" "dp + dn \<le> INFIX_DEPTH_MAX" "roomy out ws cap"
  shows "\<exists>ps1. parses p_sum ps ps1 \<and> sees r (append_words out ws) dp cap ps1"
proof -
  have "follow stop1 r" using assms(3) by (rule follow_mono) auto
  with assms obtain ps1 where ps1: "sees r (append_words out ws) dp cap ps1" "\<And>ps2. parses sum_loop ps1 ps2 \<Longrightarrow> parses p_sum ps ps2"
    unfolding chain_text_def by blast
  note op = follow_op [OF ps1(1) assms(3) stops_punct(1)]
  have "parses sum_loop ps1 ps1" using assms(3) by (intro sum_loop_stops) (auto simp: op(4) follow_def)
  then show ?thesis using ps1 by blast
qed


lemma sum_add:
  assumes "is_sum da a us" "is_product db b ws" "c \<in> set ''+-''"
  shows "is_sum (max da db) (a @ [c] @ b) (us @ ws @ [[c]])"
  unfolding chain_text_def
proof (intro allI impI)
  fix ps r out dp cap
  assume a: "sees ((a @ [c] @ b) @ r) out dp cap ps" "follow stop1 r" "dp + max da db \<le> INFIX_DEPTH_MAX" "roomy out (us @ ws @ [[c]]) cap"
  have p: "punct c" using assms(3) by (auto simp: punct_def)
  have "follow stop1 (c # b @ r)" using assms(3) by (auto simp: follow_def)
  moreover have "sees (a @ c # b @ r) out dp cap ps" using a(1) by simp
  moreover have "dp + da \<le> INFIX_DEPTH_MAX" using a(3) by simp
  ultimately obtain ps1 where ps1: "sees (c # b @ r) (append_words out us) dp cap ps1"
    "\<And>ps2. parses sum_loop ps1 ps2 \<Longrightarrow> parses p_sum ps ps2"
    using assms(1) roomy_part [OF a(4)] unfolding chain_text_def by blast
  note see = sees_punct [OF ps1(1) p]
  have room: "roomy (append_words out us) (ws @ [[c]]) cap" by (rule roomy_split [OF a(4)])
  have "dp + db \<le> INFIX_DEPTH_MAX" using a(3) by simp
  from product_value [OF assms(2) see(6) a(2) this roomy_part [OF room]]
  obtain ps2 where ps2: "parses p_product (next_token ps1) ps2" "sees r (append_words (append_words out us) ws) dp cap ps2" by auto
  from emit_after [OF ps2 roomy_split [OF room]] obtain ps3 where
    ps3: "parses (\<lambda>n ps. and_then (p_product n ps) (\<lambda>ps1. Some (emit_word [c] ps1))) (next_token ps1) ps3"
      "sees r (append_words out (us @ ws @ [[c]])) dp cap ps3" by auto
  have "parses p_sum ps ps4" if "parses sum_loop ps3 ps4" for ps4
    by (rule ps1(2), rule parses_Suc [OF _ parses_and_then [OF ps3(1) that]], rule sum_loop_op) (use see(1) assms(3) in auto)
  with ps3(2) show "\<exists>ps1. sees r (append_words out (us @ ws @ [[c]])) dp cap ps1 \<and> (\<forall>ps2. parses sum_loop ps1 ps2 \<longrightarrow> parses p_sum ps ps2)"
    by blast
qed

lemma product_mul:
  assumes "is_product da a us" "is_unary db b ws" "c \<in> set ''*/''"
  shows "is_product (max da db) (a @ [c] @ b) (us @ ws @ [op_word c])"
  unfolding chain_text_def
proof (intro allI impI)
  fix ps r out dp cap
  let ?w = "op_word c"
  assume a: "sees ((a @ [c] @ b) @ r) out dp cap ps" "follow stop2 r" "dp + max da db \<le> INFIX_DEPTH_MAX" "roomy out (us @ ws @ [?w]) cap"
  have p: "punct c" using assms(3) by (auto simp: punct_def)
  have "follow stop2 (c # b @ r)" using assms(3) by (auto simp: follow_def)
  moreover have "sees (a @ c # b @ r) out dp cap ps" using a(1) by simp
  moreover have "dp + da \<le> INFIX_DEPTH_MAX" using a(3) by simp
  ultimately obtain ps1 where ps1: "sees (c # b @ r) (append_words out us) dp cap ps1"
    "\<And>ps2. parses product_loop ps1 ps2 \<Longrightarrow> parses p_product ps ps2"
    using assms(1) roomy_part [OF a(4)] unfolding chain_text_def by blast
  note see = sees_punct [OF ps1(1) p]
  have room: "roomy (append_words out us) (ws @ [?w]) cap" by (rule roomy_split [OF a(4)])
  have "dp + db \<le> INFIX_DEPTH_MAX" using a(3) by simp
  with assms(2) see(6) a(2) roomy_part [OF room]
  obtain ps2 where ps2: "parses p_unary (next_token ps1) ps2" "sees r (append_words (append_words out us) ws) dp cap ps2"
    unfolding value_text_def by blast
  from emit_after [OF ps2 roomy_split [OF room]] obtain ps3 where
    ps3: "parses (\<lambda>n ps. and_then (p_unary n ps) (\<lambda>ps1. Some (emit_word ?w ps1))) (next_token ps1) ps3"
      "sees r (append_words out (us @ ws @ [?w])) dp cap ps3" by auto
  have "parses p_product ps ps4" if "parses product_loop ps3 ps4" for ps4
    by (rule ps1(2), rule parses_Suc [OF _ parses_and_then [OF ps3(1) that]], rule product_loop_op) (use see(1) assms(3) in auto)
  with ps3(2) show "\<exists>ps1. sees r (append_words out (us @ ws @ [?w])) dp cap ps1 \<and> (\<forall>ps2. parses product_loop ps1 ps2 \<longrightarrow> parses p_product ps ps2)"
    by blast
qed

lemma factor_fac:
  assumes "is_factor dn s ws"
  shows "is_factor dn (s @ ''!'') (ws @ [''fac''])"
  unfolding chain_text_def
proof (intro allI impI)
  fix ps r out dp cap
  assume a: "sees ((s @ ''!'') @ r) out dp cap ps" "follow stop4 r" "dp + dn \<le> INFIX_DEPTH_MAX" "roomy out (ws @ [''fac'']) cap"
  have "follow stop4 (CHR ''!'' # r)" by (simp add: follow_def)
  moreover have "sees (s @ CHR ''!'' # r) out dp cap ps" using a(1) by simp
  ultimately obtain ps1 where ps1: "sees (CHR ''!'' # r) (append_words out ws) dp cap ps1"
    "\<And>ps2. parses postfix_loop ps1 ps2 \<Longrightarrow> parses p_postfix ps ps2"
    using assms a(3) roomy_part [OF a(4)] unfolding chain_text_def by blast
  have "punct (CHR ''!'')" by (simp add: punct_def)
  note see = sees_punct [OF ps1(1) this]
  from emit_parses [OF see(6) roomy_split [OF a(4)]] obtain ps2 where
    ps2: "emit_word ''fac'' (next_token ps1) = (True, ps2)" "sees r (append_words out (ws @ [''fac''])) dp cap ps2" by auto
  have "parses p_postfix ps ps4" if "parses postfix_loop ps2 ps4" for ps4
  proof (rule ps1(2), rule parses_Suc [OF _ that])
    fix n
    have "is_postfix ps1" "is_op (CHR ''!'') ps1" using see(1) by (auto simp: is_postfix_def)
    then show "postfix_loop (Suc n) ps1 = postfix_loop n ps2"
      by (simp only: postfix_loop.simps Let_def if_True ps2(1) and_then_def option.case prod.case)
  qed
  with ps2(2) show "\<exists>ps1. sees r (append_words out (ws @ [''fac''])) dp cap ps1 \<and> (\<forall>ps2. parses postfix_loop ps1 ps2 \<longrightarrow> parses p_postfix ps ps2)"
    by blast
qed

lemma power_pow:
  assumes "is_factor da a us" "is_unary db b ws"
  shows "is_power (max da db) (a @ ''^'' @ b) (us @ ws @ [''pow''])"
  unfolding value_text_def
proof (intro allI impI)
  fix ps r out dp cap
  assume a: "sees ((a @ ''^'' @ b) @ r) out dp cap ps" "follow stop2 r" "dp + max da db \<le> INFIX_DEPTH_MAX" "roomy out (us @ ws @ [''pow'']) cap"
  have st: "follow stop4 (CHR ''^'' # b @ r)" "\<not> follow ''!'' (CHR ''^'' # b @ r) \<or> CHR ''^'' # b @ r = []"
    by (simp_all add: follow_def)
  have s: "sees (a @ CHR ''^'' # b @ r) out dp cap ps" using a(1) by simp
  have "dp + da \<le> INFIX_DEPTH_MAX" "dp + db \<le> INFIX_DEPTH_MAX" using a(3) by simp_all
  from factor_value [OF assms(1) s st(1) this(1) roomy_part [OF a(4)] st(2)] obtain ps1 where
    ps1: "parses p_postfix ps ps1" "sees (CHR ''^'' # b @ r) (append_words out us) dp cap ps1" by blast
  have "punct (CHR ''^'')" by (simp add: punct_def)
  note see = sees_punct [OF ps1(2) this]
  have room: "roomy (append_words out us) (ws @ [''pow'']) cap" by (rule roomy_split [OF a(4)])
  from assms(2) see(6) a(2) \<open>dp + db \<le> INFIX_DEPTH_MAX\<close> roomy_part [OF room] obtain ps2 where
    ps2: "parses p_unary (next_token ps1) ps2" "sees r (append_words (append_words out us) ws) dp cap ps2"
    unfolding value_text_def by blast
  from emit_after [OF ps2 roomy_split [OF room]] obtain ps3 where
    ps3: "parses (\<lambda>n ps. and_then (p_unary n ps) (\<lambda>ps1. Some (emit_word ''pow'' ps1))) (next_token ps1) ps3"
      "sees r (append_words out (us @ ws @ [''pow''])) dp cap ps3" by auto
  have "parses (\<lambda>n ps1. if \<not> is_op (CHR ''^'') ps1 then Some (True, ps1)
       else and_then (p_unary n (next_token ps1)) (\<lambda>ps2. Some (emit_word ''pow'' ps2))) ps1 ps3"
    using ps3(1) see(1) by (simp add: parses_def)
  from parses_Suc [OF _ parses_and_then [OF ps1(1) this], of p_power ps] have "parses p_power ps ps3" by simp
  with ps3(2) show "\<exists>ps'. parses p_power ps ps' \<and> sees r (append_words out (us @ ws @ [''pow''])) dp cap ps'" by blast
qed

lemma primary_paren:
  assumes "is_sum dn s ws"
  shows "is_primary (dn + 1) (''('' @ s @ '')'') ws"
  unfolding value_text_def
proof (intro allI impI)
  fix ps r out dp cap
  assume a: "sees ((''('' @ s @ '')'') @ r) out dp cap ps" "follow stop4 r" "dp + (dn + 1) \<le> INFIX_DEPTH_MAX" "roomy out ws cap"
  have p: "punct (CHR ''('')" "punct (CHR '')'')" by (simp_all add: punct_def)
  from a(1) have "sees (CHR ''('' # s @ '')'' @ r) out (dp + 1) cap (deeper ps)" using sees_deeper by fastforce
  note see = sees_punct [OF this p(1)]
  have st: "follow stop0 ('')'' @ r)" by (simp add: follow_def)
  have "(dp + 1) + dn \<le> INFIX_DEPTH_MAX" using a(3) by simp
  from sum_value [OF assms see(6) st this a(4)] obtain ps1 where
    ps1: "parses p_sum (next_token (deeper ps)) ps1" "sees (CHR '')'' # r) (append_words out ws) (dp + 1) cap ps1" by auto
  from sees_shallower [OF ps1(2)] have ps2: "sees (CHR '')'' # r) (append_words out ws) dp cap (shallower ps1)" by simp
  note see1 = sees_punct [OF ps1(2) p(2)] and see2 = sees_punct [OF ps2 p(2)]
  have d: "\<not> ps_depth (deeper ps) > INFIX_DEPTH_MAX" using sees_fields [OF a(1)] a(3) by simp
  have "parses (\<lambda>n ps1. if \<not> is_op (CHR '')'') ps1 then Some (fail ''MISSING )'' ps1)
                  else Some (True, next_token (shallower ps1))) ps1 (next_token (shallower ps1))"
    using see1(1) by (intro parsesI) simp
  from parses_and_then [OF ps1(1) this] have
    "parses p_primary ps (next_token (shallower ps1))"
  proof (rule parses_Suc [rotated])
    fix n
    have "\<not> ps_failed ps" "ps_kind ps = TOK_OP" "is_op (CHR ''('') ps" using see by simp_all
    then show "p_primary (Suc n) ps = and_then (p_sum n (next_token (deeper ps))) (\<lambda>ps1. if \<not> is_op (CHR '')'') ps1 then Some (fail ''MISSING )'' ps1)
                  else Some (True, next_token (shallower ps1)))"
      using d by (simp only: p_primary.simps Let_def if_False if_True tok_kind.simps)
  qed
  with see2(6) show "\<exists>ps'. parses p_primary ps ps' \<and> sees r (append_words out ws) dp cap ps'" by blast
qed

lemma follow_after: "follow stop4 r \<Longrightarrow> follow after_value r"
  by (auto simp: follow_def after_value_def)

lemma primary_number:
  assumes "num_ok d"
  shows "is_primary 0 d [number_text d]"
  unfolding value_text_def
proof (intro allI impI)
  fix ps r out dp cap
  assume a: "sees (d @ r) out dp cap ps" "follow stop4 r" "dp + 0 \<le> INFIX_DEPTH_MAX" "roomy out [number_text d] cap"
  note see = sees_number [OF a(1) assms follow_after [OF a(2)]]
  from emit_parses [OF see(5) a(4)] obtain ps' where
    ps': "emit_word (number_text d) (next_token ps) = (True, ps')" "sees r (append_words out [number_text d]) dp cap ps'" by blast
  have "length d \<le> 60" using assms by (simp add: num_ok_def)
  then have "number ps = (True, ps')" using see ps'(1) by (simp add: number_def emit_word_def)
  then have "parses p_primary ps ps'"
    by (intro parsesI [of 1], case_tac n) (simp_all only: p_primary.simps see if_False if_True, simp_all)
  with ps'(2) show "\<exists>ps'. parses p_primary ps ps' \<and> sees r (append_words out [number_text d]) dp cap ps'" by blast
qed

lemma primary_call_name:
  assumes "parses p_call ps ps'" "\<not> ps_failed ps" "ps_kind ps = TOK_NAME"
  shows "parses p_primary ps ps'"
  by (rule parses_Suc [OF _ assms(1)]) (simp only: p_primary.simps assms(2,3) if_False if_True tok_kind.simps simp_thms)

lemma primary_var:
  assumes "var_ok v"
  shows "is_primary 0 v [v]"
  unfolding value_text_def
proof (intro allI impI)
  fix ps r out dp cap
  assume a: "sees (v @ r) out dp cap ps" "follow stop4 r" "dp + 0 \<le> INFIX_DEPTH_MAX" "roomy out [v] cap"
  have v: "name_ok v" "word_operator v = nul" using assms by (auto simp: var_ok_def)
  have fl: "follow after_value r" by (rule follow_after [OF a(2)])
  have see: "ps_kind ps = TOK_NAME" "token_text ps = v" "ps_len ps = length v" "\<not> ps_failed ps" "sees r out dp cap (next_token ps)"
    using sees_name [OF a(1) v(1)] fl v(2) by blast+
  from emit_parses [OF see(5) a(4)] obtain ps' where
    ps': "emit_word v (next_token ps) = (True, ps')" "sees r (append_words out [v]) dp cap ps'" by blast
  have no: "\<not> is_op (CHR ''('') (next_token ps)" "\<not> 64 \<le> length v"
    using follow_op [OF see(5) a(2) stops_punct(4)] a(2) v(1) by (auto simp: follow_def name_ok_def)
  have e: "effect_of v = None \<or> (\<exists>e. effect_of v = Some e \<and> \<not> we_takes e > 0)"
    using assms by (auto simp: var_ok_def split: option.splits)
  have "p_call (Suc n) ps = Some (True, ps')" for n
    using no e ps'(1) by (auto simp only: p_call.simps see Let_def if_False option.case)
  then have "parses p_call ps ps'" by (intro parsesI [of 1], case_tac n) auto
  then have "parses p_primary ps ps'" using see by (intro primary_call_name) auto
  with ps'(2) show "\<exists>ps'. parses p_primary ps ps' \<and> sees r (append_words out [v]) dp cap ps'" by blast
qed

text \<open>Calls.\<close>

definition commas :: "cstring list \<Rightarrow> cstring" where
  "commas ss = concat (map (\<lambda>s. CHR '','' # s) ss)"

lemma args_parse:
  assumes "list_all2 (is_sum dn) ss wss" "sees (commas ss @ '')'' @ r) out dp cap ps" "dp + dn \<le> INFIX_DEPTH_MAX"
    "roomy out (concat wss) cap"
  shows "\<exists>ps'. parses args_loop ps ps' \<and> sees ('')'' @ r) (append_words out (concat wss)) dp cap ps'"
  using assms
proof (induction ss wss arbitrary: out ps rule: list_all2_induct)
  case Nil
  have "punct (CHR '')'')" by (simp add: punct_def)
  from Nil have "sees (CHR '')'' # r) out dp cap ps" by (simp add: commas_def)
  note see = sees_punct [OF this \<open>punct (CHR '')'')\<close>]
  have "parses args_loop ps ps"
  proof (rule parsesI [of 1])
    fix n :: nat assume "1 \<le> n"
    then obtain m where "n = Suc m" by (cases n) auto
    then show "args_loop n ps = Some (True, ps)" using see(1) by (simp only: args_loop.simps) simp
  qed
  then show ?case using Nil by (auto simp: commas_def)
next
  case (Cons s ss ws wss)
  have p: "punct (CHR '','')" by (simp add: punct_def)
  have "sees (CHR '','' # s @ commas ss @ '')'' @ r) out dp cap ps" using Cons.prems(1) by (simp add: commas_def)
  note see = sees_punct [OF this p]
  have st: "follow stop0 (commas ss @ '')'' @ r)" by (cases ss) (auto simp: follow_def commas_def)
  have room: "roomy out ws cap" using Cons.prems(3) roomy_part by simp
  from sum_value [OF Cons.hyps(1) see(6) st Cons.prems(2) room] obtain ps1 where
    ps1: "parses p_sum (next_token ps) ps1" "sees (commas ss @ '')'' @ r) (append_words out ws) dp cap ps1" by blast
  have "roomy (append_words out ws) (concat wss) cap" using Cons.prems(3) by (simp add: roomy_def)
  from Cons.IH [OF ps1(2) Cons.prems(2) this] obtain ps2 where
    ps2: "parses args_loop ps1 ps2" "sees ('')'' @ r) (append_words out (concat (ws # wss))) dp cap ps2" by auto
  have "parses args_loop ps ps2"
    by (rule parses_Suc [OF _ parses_and_then [OF ps1(1) ps2(1)]]) (use see(1) in \<open>simp only: args_loop.simps simp_thms if_True\<close>)
  then show ?case using ps2(2) by blast
qed

lemma primary_call:
  assumes "name_ok f" "list_all2 (is_sum dn) ss wss" "\<forall>s \<in> set ss. begins_not '')'' s"
  shows "is_primary dn (f @ ''('' @ (case ss of [] \<Rightarrow> [] | s # ss' \<Rightarrow> s @ commas ss') @ '')'') (concat wss @ [f])"
  unfolding value_text_def
proof (intro allI impI)
  fix ps r out dp cap
  let ?args = "case ss of [] \<Rightarrow> [] | s # ss' \<Rightarrow> s @ commas ss'"
  assume a: "sees ((f @ ''('' @ ?args @ '')'') @ r) out dp cap ps" "follow stop4 r" "dp + dn \<le> INFIX_DEPTH_MAX"
    "roomy out (concat wss @ [f]) cap"
  have p: "punct (CHR ''('')" "punct (CHR '')'')" by (simp_all add: punct_def)
  have s: "sees (f @ CHR ''('' # ?args @ '')'' @ r) out dp cap ps" using a(1) by simp
  have see: "ps_kind ps = TOK_NAME" "token_text ps = f" "ps_len ps = length f" "\<not> ps_failed ps"
    "sees (CHR ''('' # ?args @ '')'' @ r) out dp cap (next_token ps)"
    using sees_name [OF s assms(1)] by simp_all
  note see2 = sees_punct [OF see(5) p(1)]
  let ?ps2 = "next_token (next_token ps)"
  let ?F = "\<lambda>n ps. if \<not> is_op (CHR '')'') ps then and_then (p_sum n ps) (args_loop n) else Some (True, ps)"
  have "\<exists>ps3. parses ?F ?ps2 ps3 \<and> sees ('')'' @ r) (append_words out (concat wss)) dp cap ps3"
  proof (cases ss)
    case Nil
    then have "wss = []" "sees (CHR '')'' # r) out dp cap ?ps2" using assms(2) see2(6) by auto
    with sees_punct [OF this(2) p(2)] show ?thesis by (intro exI [of _ ?ps2]) (auto simp: parses_def)
  next
    case (Cons s1 ss')
    then obtain ws wss' where w: "wss = ws # wss'" "is_sum dn s1 ws" "list_all2 (is_sum dn) ss' wss'"
      using assms(2) by (auto simp: list_all2_Cons1)
    have s1: "sees (s1 @ commas ss' @ '')'' @ r) out dp cap ?ps2" using see2(6) Cons by simp
    have st: "follow stop0 (commas ss' @ '')'' @ r)" by (cases ss') (auto simp: follow_def commas_def)
    then have "follow after_value (commas ss' @ '')'' @ r)" by (auto simp: follow_def after_value_def)
    then have no: "\<not> is_op (CHR '')'') ?ps2" using assms(3) s1 Cons unfolding begins_not_def by fastforce
    have room: "roomy out ws cap" using a(4) w(1) roomy_part by simp
    from sum_value [OF w(2) s1 st a(3) room] obtain ps1 where
      ps1: "parses p_sum ?ps2 ps1" "sees (commas ss' @ '')'' @ r) (append_words out ws) dp cap ps1" by blast
    have "roomy (append_words out ws) (concat wss') cap" using a(4) w(1) roomy_part by (simp add: roomy_def)
    from args_parse [OF w(3) ps1(2) a(3) this] obtain ps3 where
      ps3: "parses args_loop ps1 ps3" "sees ('')'' @ r) (append_words out (concat wss)) dp cap ps3" using w(1) by auto
    have "parses ?F ?ps2 ps3" using parses_and_then [OF ps1(1) ps3(1)] no by (simp add: parses_def)
    then show ?thesis using ps3(2) by blast
  qed
  then obtain ps3 where ps3: "parses ?F ?ps2 ps3" "sees (CHR '')'' # r) (append_words out (concat wss)) dp cap ps3" by auto
  note see3 = sees_punct [OF ps3(2) p(2)]
  from emit_parses [OF see3(6) roomy_split [OF a(4)]] obtain ps' where
    ps': "emit_word f (next_token ps3) = (True, ps')" "sees r (append_words out (concat wss @ [f])) dp cap ps'" by auto
  let ?close = "\<lambda>ps1. if \<not> is_op (CHR '')'') ps1 then Some (fail ''MISSING )'' ps1) else Some (emit_word f (next_token ps1))"
  have "parses (\<lambda>n ps1. ?close ps1) ps3 ps'" using see3(1) ps'(1) by (intro parsesI) simp
  from parses_and_then [OF ps3(1) this] have "parses p_call ps ps'"
  proof (rule parses_Suc [rotated])
    fix n
    have "\<not> 64 \<le> length f" using assms(1) by (simp add: name_ok_def)
    then show "p_call (Suc n) ps = and_then (?F n ?ps2) ?close"
      using see2(1) by (simp only: p_call.simps see(2,3) Let_def if_False if_True simp_thms)
  qed
  then have "parses p_primary ps ps'" using see by (intro primary_call_name) auto
  with ps'(2) show "\<exists>ps'. parses p_primary ps ps' \<and> sees r (append_words out (concat wss @ [f])) dp cap ps'" by blast
qed

section \<open>Formulas on paper\<close>

datatype expr =
    Num cstring
  | Var cstring
  | Call cstring "expr list"
  | Fac expr
  | Neg expr
  | Bin char expr expr

text \<open>How tightly each binds: 0 a sum, 1 a product, 2 a sign, 3 a power, 4 a value.\<close>

fun level :: "expr \<Rightarrow> nat" where
  "level (Bin c a b) = (if c \<in> set ''+-'' then 0 else if c \<in> set ''*/'' then 1 else 3)"
| "level (Neg a) = 2"
| "level e = 4"

definition bracket :: "bool \<Rightarrow> cstring \<Rightarrow> cstring" where
  "bracket b s = (if b then ''('' @ s @ '')'' else s)"

text \<open>A formula as it is written, with brackets where an operand binds less tightly than it must.\<close>

fun written :: "expr \<Rightarrow> cstring" where
  "written (Num d) = d"
| "written (Var v) = v"
| "written (Call f args) =
     f @ ''('' @ (case map written args of [] \<Rightarrow> [] | s # ss \<Rightarrow> s @ commas ss) @ '')''"
| "written (Fac a) = bracket (level a < 4) (written a) @ ''!''"
| "written (Neg a) = ''-'' @ bracket (level a < 2) (written a)"
| "written (Bin c a b) =
     (if c \<in> set ''+-'' then written a @ [c] @ bracket (level b < 1) (written b)
      else if c \<in> set ''*/'' then bracket (level a < 1) (written a) @ [c] @ bracket (level b < 2) (written b)
      else bracket (level a < 4) (written a) @ ''^'' @ bracket (level b < 2) (written b))"

text \<open>Its RPN: operands first, then what is done to them.\<close>

fun rpn :: "expr \<Rightarrow> cstring list" where
  "rpn (Num d) = [number_text d]"
| "rpn (Var v) = [v]"
| "rpn (Call f args) = concat (map rpn args) @ [f]"
| "rpn (Fac a) = rpn a @ [''fac'']"
| "rpn (Neg a) = rpn a @ [''neg'']"
| "rpn (Bin c a b) = rpn a @ rpn b @ [op_word c]"

fun well_formed :: "expr \<Rightarrow> bool" where
  "well_formed (Num d) = num_ok d"
| "well_formed (Var v) = var_ok v"
| "well_formed (Call f args) = (name_ok f \<and> list_all well_formed args)"
| "well_formed (Fac a) = well_formed a"
| "well_formed (Neg a) = well_formed a"
| "well_formed (Bin c a b) = (c \<in> set ''+-*/^'' \<and> well_formed a \<and> well_formed b)"

text \<open>How deep the parser goes for it: one for each sign and value under way, one for each bracket.\<close>

definition as_value :: "nat \<Rightarrow> nat \<Rightarrow> nat" where
  "as_value l n = (if l < 4 then n + 1 else n - 1)"

definition as_operand :: "nat \<Rightarrow> nat \<Rightarrow> nat \<Rightarrow> nat" where
  "as_operand k l n = (if l < k then n + 2 else n)"

fun deep :: "expr \<Rightarrow> nat" where
  "deep (Num d) = 1"
| "deep (Var v) = 1"
| "deep (Call f args) = foldr max (map deep args) 0 + 1"
| "deep (Fac a) = as_value (level a) (deep a) + 1"
| "deep (Neg a) = as_operand 2 (level a) (deep a) + 1"
| "deep (Bin c a b) =
     (if c \<in> set ''+-'' then max (deep a) (as_operand 1 (level b) (deep b))
      else if c \<in> set ''*/'' then max (as_operand 1 (level a) (deep a)) (as_operand 2 (level b) (deep b))
      else max (as_value (level a) (deep a)) (as_operand 2 (level b) (deep b)) + 1)"

section \<open>Every formula parses\<close>

lemma value_mono: "value_text dn stop f s ws \<Longrightarrow> dn \<le> dn' \<Longrightarrow> value_text dn' stop f s ws"
  unfolding value_text_def by (meson add_left_mono le_trans)

lemma chain_mono: "chain_text dn stop f loop s ws \<Longrightarrow> dn \<le> dn' \<Longrightarrow> chain_text dn' stop f loop s ws"
  unfolding chain_text_def by (meson add_left_mono le_trans)

definition parses_at :: "nat \<Rightarrow> nat \<Rightarrow> cstring \<Rightarrow> cstring list \<Rightarrow> bool" where
  "parses_at l n s ws \<longleftrightarrow>
     is_sum n s ws \<and> (1 \<le> l \<longrightarrow> is_product n s ws) \<and> (2 \<le> l \<longrightarrow> is_unary n s ws) \<and>
     (4 \<le> l \<longrightarrow> is_factor (n - 1) s ws) \<and> begins_not '')'' s \<and> (3 \<le> l \<longrightarrow> begins_not ''+-'' s)"

lemma begins_paren: "begins_not ''+-)'' (''('' @ s)"
  unfolding begins_not_def
proof (intro allI impI ballI)
  fix r out dp cap ps c
  assume "sees ((''('' @ s) @ r) out dp cap ps" "c \<in> set ''+-)''"
  moreover have "punct (CHR ''('')" by (simp add: punct_def)
  ultimately show "\<not> is_op c ps" using sees_punct(1) [of "CHR ''(''" "s @ r"] by auto
qed

lemma begins_sub: "begins_not cs s \<Longrightarrow> set cs' \<subseteq> set cs \<Longrightarrow> begins_not cs' s"
  unfolding begins_not_def by blast

lemma begins_value:
  assumes "is_factor n s ws" "begins_not ''+-)'' s"
  shows "parses_at 4 (n + 1) s ws"
proof -
  have "is_unary (n + 1) s ws"
    by (rule unary_of_power [OF power_of_factor [OF assms(1)]]) (rule begins_sub [OF assms(2)], auto)
  then show ?thesis using assms begins_sub [OF assms(2), of "'')''"] begins_sub [OF assms(2), of "''+-''"]
    by (simp add: parses_at_def product_of_unary sum_of_product)
qed

lemma parses_bracket:
  assumes "is_sum n s ws"
  shows "parses_at 4 (n + 2) (''('' @ s @ '')'') ws"
  using begins_value [OF factor_of_primary [OF primary_paren [OF assms]] begins_paren] by simp

lemma bracket_value:
  assumes "parses_at l n s ws"
  shows "is_factor (as_value l n) (bracket (l < 4) s) ws" "begins_not ''+-)'' (bracket (l < 4) s)"
proof -
  show "is_factor (as_value l n) (bracket (l < 4) s) ws"
    using assms parses_bracket [of n s ws] by (auto simp: parses_at_def as_value_def bracket_def)
  show "begins_not ''+-)'' (bracket (l < 4) s)"
  proof (cases "l < 4")
    case True
    then show ?thesis using begins_paren [of "s @ '')''"] by (simp add: bracket_def)
  next
    case False
    then have "begins_not '')'' s" "begins_not ''+-'' s" using assms by (auto simp: parses_at_def)
    then show ?thesis using False by (simp add: bracket_def begins_not_def)
  qed
qed

lemma bracket_operand:
  assumes "parses_at l n s ws" "k \<le> 2"
  shows "1 \<le> k \<longrightarrow> is_product (as_operand k l n) (bracket (l < k) s) ws"
    "k = 2 \<longrightarrow> is_unary (as_operand k l n) (bracket (l < k) s) ws"
    "begins_not '')'' (bracket (l < k) s)"
  using assms parses_bracket [of n s ws] by (auto simp: parses_at_def as_operand_def bracket_def)

lemma begins_append:
  assumes "begins_not cs a" "c \<in> set after_value"
  shows "begins_not cs (a @ c # b)"
  using assms by (auto simp: begins_not_def follow_def)

lemma begins_num: "num_ok d \<Longrightarrow> begins_not cs d"
  unfolding begins_not_def using sees_number(1) by (fastforce simp: is_op_def)

lemma begins_var: "var_ok v \<Longrightarrow> begins_not cs v"
  unfolding begins_not_def var_ok_def using sees_name(1) by (fastforce simp: is_op_def)

lemma begins_call: "name_ok f \<Longrightarrow> begins_not cs (f @ ''('' @ s)"
  unfolding begins_not_def using sees_name(1) [of f "CHR ''('' # _"] by (fastforce simp: is_op_def)

lemma begins_minus: "begins_not '')'' (''-'' @ s)"
  unfolding begins_not_def
proof (intro allI impI ballI)
  fix r out dp cap ps c
  assume "sees ((''-'' @ s) @ r) out dp cap ps" "c \<in> set '')''"
  moreover have "punct (CHR ''-'')" by (simp add: punct_def)
  ultimately show "\<not> is_op c ps" using sees_punct(1) [of "CHR ''-''" "s @ r"] by auto
qed

lemma deep_arg: "a \<in> set args \<Longrightarrow> deep a \<le> foldr max (map deep args) 0"
  by (induction args) auto

theorem written_parses: "well_formed e \<Longrightarrow> parses_at (level e) (deep e) (written e) (rpn e)"
proof (induction e)
  case (Num d)
  then have "is_factor 0 d [number_text d]" using factor_of_primary [OF primary_number] by simp
  then show ?case using begins_value [of 0 d] begins_num Num by simp
next
  case (Var v)
  then have "is_factor 0 v [v]" using factor_of_primary [OF primary_var] by simp
  then show ?case using begins_value [of 0 v] begins_var Var by simp
next
  case (Call f args)
  let ?n = "foldr max (map deep args) 0"
  have args: "\<forall>a \<in> set args. parses_at (level a) (deep a) (written a) (rpn a)"
    using Call by (auto simp: list_all_iff)
  then have "list_all2 (is_sum ?n) (map written args) (map rpn args)"
    using chain_mono [OF _ deep_arg] by (simp add: list_all2_conv_all_nth parses_at_def) (meson chain_mono deep_arg nth_mem)
  moreover have "\<forall>s \<in> set (map written args). begins_not '')'' s" using args by (auto simp: parses_at_def)
  ultimately have "is_factor ?n (written (Call f args)) (rpn (Call f args))"
    using factor_of_primary [OF primary_call] Call.prems by simp
  then show ?case using begins_value begins_call Call.prems by simp
next
  case (Fac a)
  then have a: "parses_at (level a) (deep a) (written a) (rpn a)" by simp
  have "is_factor (as_value (level a) (deep a)) (written (Fac a)) (rpn (Fac a))"
    using factor_fac [OF bracket_value(1) [OF a]] by simp
  moreover have "begins_not ''+-)'' (written (Fac a))"
    using begins_append [OF bracket_value(2) [OF a], of "CHR ''!''" "[]"] by (simp add: after_value_def)
  ultimately show ?case using begins_value by simp
next
  case (Neg a)
  then have a: "parses_at (level a) (deep a) (written a) (rpn a)" by simp
  have "is_unary (deep (Neg a)) (written (Neg a)) (rpn (Neg a))"
    using unary_neg bracket_operand(2) [OF a, of 2] by simp
  then show ?case using begins_minus by (simp add: parses_at_def product_of_unary sum_of_product)
next
  case (Bin c a b)
  then have a: "parses_at (level a) (deep a) (written a) (rpn a)"
    and b: "parses_at (level b) (deep b) (written b) (rpn b)" and c: "c \<in> set ''+-*/^''" by simp_all
  consider "c \<in> set ''+-''" | "c \<in> set ''*/''" | "c = CHR ''^''" using c by auto
  then show ?case
  proof cases
    case 1
    have "is_sum (deep (Bin c a b)) (written (Bin c a b)) (rpn (Bin c a b))"
      using sum_add [of "deep a" "written a" "rpn a" "as_operand 1 (level b) (deep b)" "bracket (level b < 1) (written b)" "rpn b" c]
        a bracket_operand(1) [OF b, of 1] 1 by (auto simp: parses_at_def op_word_def)
    moreover have "begins_not '')'' (written (Bin c a b))"
      using a 1 begins_append [of "'')''" "written a" c] by (auto simp: parses_at_def after_value_def)
    ultimately show ?thesis using 1 by (simp add: parses_at_def)
  next
    case 2
    have "is_product (deep (Bin c a b)) (written (Bin c a b)) (rpn (Bin c a b))"
      using product_mul [of "as_operand 1 (level a) (deep a)" "bracket (level a < 1) (written a)" "rpn a"
          "as_operand 2 (level b) (deep b)" "bracket (level b < 2) (written b)" "rpn b" c]
        bracket_operand(1) [OF a, of 1] bracket_operand(2) [OF b, of 2] 2 by auto
    moreover have "begins_not '')'' (written (Bin c a b))"
      using bracket_operand(3) [OF a, of 1] 2 begins_append [of "'')''" "bracket (level a < 1) (written a)" c]
      by (auto simp: after_value_def)
    ultimately show ?thesis using 2 by (auto simp: parses_at_def sum_of_product)
  next
    case 3
    let ?n = "max (as_value (level a) (deep a)) (as_operand 2 (level b) (deep b))"
    have p: "is_power ?n (written (Bin c a b)) (rpn (Bin c a b))"
      using power_pow [OF bracket_value(1) [OF a], of "as_operand 2 (level b) (deep b)" "bracket (level b < 2) (written b)" "rpn b"]
        bracket_operand(2) [OF b, of 2] 3 by (simp add: op_word_def)
    have bg: "begins_not ''+-)'' (written (Bin c a b))"
      using begins_append [OF bracket_value(2) [OF a], of "CHR ''^''"] 3 by (simp add: after_value_def)
    have "is_unary (?n + 1) (written (Bin c a b)) (rpn (Bin c a b))"
      by (rule unary_of_power [OF p]) (rule begins_sub [OF bg], auto)
    then show ?thesis using 3 begins_sub [OF bg, of "'')''"] begins_sub [OF bg, of "''+-''"]
      by (simp add: parses_at_def product_of_unary sum_of_product)
  qed
qed

lemma sum_at:
  assumes "parses p_sum ps ps'" "12 * unread ps + 11 \<le> n"
  shows "p_sum n ps = Some (True, ps')" "unread ps' < unread ps" "extends ps ps'"
proof -
  from assms(1) obtain n0 where n0: "\<And>n. n0 \<le> n \<Longrightarrow> p_sum n ps = Some (True, ps')" by (auto simp: parses_def)
  from sum_answers [OF assms(2)] obtain ok ps1 where r: "p_sum n ps = Some (ok, ps1)" "extends ps ps1"
    "ok \<Longrightarrow> unread ps1 < unread ps" by (rule answersE) blast
  have "p_sum (max n n0) ps = Some (ok, ps1)" by (rule sum_stable [OF r(1)]) simp
  with n0 [of "max n n0"] have "ok" "ps1 = ps'" by auto
  with r show "p_sum n ps = Some (True, ps')" "unread ps' < unread ps" "extends ps ps'" by auto
qed

lemma results_parse:
  assumes "list_all2 (is_sum INFIX_DEPTH_MAX) ss wss" "is_sum INFIX_DEPTH_MAX s ws"
    "sees (s @ commas ss) out 0 cap ps" "roomy out (ws @ concat wss) cap" "unread ps < k" "12 * unread ps + 11 \<le> n"
  shows "\<exists>ps'. results_loop k n count ps = Some (Some (count + 1 + length ss), ps') \<and>
    sees [] (append_words out (ws @ concat wss)) 0 cap ps' \<and> extends ps ps'"
  using assms
proof (induction ss wss arbitrary: s ws out ps k count rule: list_all2_induct)
  case Nil
  then obtain k' where k: "k = Suc k'" by (cases k) auto
  have "sees (s @ []) out 0 cap ps" "roomy out ws cap" "follow stop0 []" using Nil by (auto simp: commas_def follow_def)
  from sum_value [OF Nil(1) this(1,3) _ this(2)] obtain ps1 where
    ps1: "parses p_sum ps ps1" "sees [] (append_words out ws) 0 cap ps1" by auto
  note at = sum_at [OF ps1(1) Nil(5)]
  have "\<not> is_op (CHR '','') ps1" using sees_end(3) [OF ps1(2)] .
  then show ?case using at ps1(2) k by simp
next
  case (Cons s2 ss ws2 wss)
  then obtain k' where k: "k = Suc k'" by (cases k) auto
  have p: "punct (CHR '','')" by (simp add: punct_def)
  have st: "follow stop0 (commas (s2 # ss))" by (simp add: commas_def follow_def)
  have "roomy out ws cap" using Cons.prems(3) roomy_part by blast
  from sum_value [OF Cons.prems(1,2) st _ this] obtain ps1 where
    ps1: "parses p_sum ps ps1" "sees (commas (s2 # ss)) (append_words out ws) 0 cap ps1" by auto
  note at = sum_at [OF ps1(1) Cons.prems(5)]
  from ps1(2) have "sees (CHR '','' # s2 @ commas ss) (append_words out ws) 0 cap ps1" by (simp add: commas_def)
  note see = sees_punct [OF this p]
  have lt: "unread (next_token ps1) < unread ps" using at(2) unread_next_op [of "CHR '',''" ps1] see(1) by simp
  have "roomy (append_words out ws) (ws2 @ concat wss) cap" using Cons.prems(3) roomy_split by simp
  from Cons.IH [OF Cons.hyps(1) see(6) this, of k' "count + 1"] lt Cons.prems(4,5) k obtain ps' where
    "results_loop k' n (count + 1) (next_token ps1) = Some (Some (count + 1 + 1 + length ss), ps')"
    "sees [] (append_words out (ws @ concat (ws2 # wss))) 0 cap ps'" "extends (next_token ps1) ps'" by auto
  moreover have "extends ps (next_token ps1)" by (rule extends_trans [OF at(3) extends_next])
  ultimately show ?case using at(1) see(1) k by (auto intro: extends_trans)
qed



end
