(* ===== verification/Keys.thy ===== *)
theory Keys
  imports Base
begin

text \<open>
  The keys of the machine (\<^verbatim>\<open>include/qdos/keys.h\<close>). A key is its number, since the numbers are
  what applications and modules are built against; \<open>qdos_keys\<close> lists the enumerators in the order
  they are declared in.
\<close>

type_synonym qdos_key = nat

abbreviation (input) QDOS_KEY_NONE :: qdos_key where "QDOS_KEY_NONE \<equiv> 0"
abbreviation (input) QDOS_KEY_0 :: qdos_key where "QDOS_KEY_0 \<equiv> 1"
abbreviation (input) QDOS_KEY_1 :: qdos_key where "QDOS_KEY_1 \<equiv> 2"
abbreviation (input) QDOS_KEY_2 :: qdos_key where "QDOS_KEY_2 \<equiv> 3"
abbreviation (input) QDOS_KEY_3 :: qdos_key where "QDOS_KEY_3 \<equiv> 4"
abbreviation (input) QDOS_KEY_4 :: qdos_key where "QDOS_KEY_4 \<equiv> 5"
abbreviation (input) QDOS_KEY_5 :: qdos_key where "QDOS_KEY_5 \<equiv> 6"
abbreviation (input) QDOS_KEY_6 :: qdos_key where "QDOS_KEY_6 \<equiv> 7"
abbreviation (input) QDOS_KEY_7 :: qdos_key where "QDOS_KEY_7 \<equiv> 8"
abbreviation (input) QDOS_KEY_8 :: qdos_key where "QDOS_KEY_8 \<equiv> 9"
abbreviation (input) QDOS_KEY_9 :: qdos_key where "QDOS_KEY_9 \<equiv> 10"
abbreviation (input) QDOS_KEY_DOT :: qdos_key where "QDOS_KEY_DOT \<equiv> 11"
abbreviation (input) QDOS_KEY_ADD :: qdos_key where "QDOS_KEY_ADD \<equiv> 12"
abbreviation (input) QDOS_KEY_SUB :: qdos_key where "QDOS_KEY_SUB \<equiv> 13"
abbreviation (input) QDOS_KEY_MUL :: qdos_key where "QDOS_KEY_MUL \<equiv> 14"
abbreviation (input) QDOS_KEY_DIV :: qdos_key where "QDOS_KEY_DIV \<equiv> 15"
abbreviation (input) QDOS_KEY_DUP :: qdos_key where "QDOS_KEY_DUP \<equiv> 16"
abbreviation (input) QDOS_KEY_DROP :: qdos_key where "QDOS_KEY_DROP \<equiv> 17"
abbreviation (input) QDOS_KEY_SWAP :: qdos_key where "QDOS_KEY_SWAP \<equiv> 18"
abbreviation (input) QDOS_KEY_NEG :: qdos_key where "QDOS_KEY_NEG \<equiv> 19"
abbreviation (input) QDOS_KEY_SIN :: qdos_key where "QDOS_KEY_SIN \<equiv> 20"
abbreviation (input) QDOS_KEY_COS :: qdos_key where "QDOS_KEY_COS \<equiv> 21"
abbreviation (input) QDOS_KEY_TAN :: qdos_key where "QDOS_KEY_TAN \<equiv> 22"
abbreviation (input) QDOS_KEY_LN :: qdos_key where "QDOS_KEY_LN \<equiv> 23"
abbreviation (input) QDOS_KEY_LOG :: qdos_key where "QDOS_KEY_LOG \<equiv> 24"
abbreviation (input) QDOS_KEY_SQRT :: qdos_key where "QDOS_KEY_SQRT \<equiv> 25"
abbreviation (input) QDOS_KEY_SQ :: qdos_key where "QDOS_KEY_SQ \<equiv> 26"
abbreviation (input) QDOS_KEY_POW :: qdos_key where "QDOS_KEY_POW \<equiv> 27"
abbreviation (input) QDOS_KEY_INV :: qdos_key where "QDOS_KEY_INV \<equiv> 28"
abbreviation (input) QDOS_KEY_ABS :: qdos_key where "QDOS_KEY_ABS \<equiv> 29"
abbreviation (input) QDOS_KEY_FLOOR :: qdos_key where "QDOS_KEY_FLOOR \<equiv> 30"
abbreviation (input) QDOS_KEY_CEIL :: qdos_key where "QDOS_KEY_CEIL \<equiv> 31"
abbreviation (input) QDOS_KEY_ROUND :: qdos_key where "QDOS_KEY_ROUND \<equiv> 32"
abbreviation (input) QDOS_KEY_MOD :: qdos_key where "QDOS_KEY_MOD \<equiv> 33"
abbreviation (input) QDOS_KEY_ROT :: qdos_key where "QDOS_KEY_ROT \<equiv> 34"
abbreviation (input) QDOS_KEY_OVER :: qdos_key where "QDOS_KEY_OVER \<equiv> 35"
abbreviation (input) QDOS_KEY_ENTER :: qdos_key where "QDOS_KEY_ENTER \<equiv> 36"
abbreviation (input) QDOS_KEY_BACKSPACE :: qdos_key where "QDOS_KEY_BACKSPACE \<equiv> 37"
abbreviation (input) QDOS_KEY_TAB :: qdos_key where "QDOS_KEY_TAB \<equiv> 38"
abbreviation (input) QDOS_KEY_CLEAR :: qdos_key where "QDOS_KEY_CLEAR \<equiv> 39"
abbreviation (input) QDOS_KEY_POWER :: qdos_key where "QDOS_KEY_POWER \<equiv> 40"
abbreviation (input) QDOS_KEY_UP :: qdos_key where "QDOS_KEY_UP \<equiv> 41"
abbreviation (input) QDOS_KEY_DOWN :: qdos_key where "QDOS_KEY_DOWN \<equiv> 42"
abbreviation (input) QDOS_KEY_LEFT :: qdos_key where "QDOS_KEY_LEFT \<equiv> 43"
abbreviation (input) QDOS_KEY_RIGHT :: qdos_key where "QDOS_KEY_RIGHT \<equiv> 44"
abbreviation (input) QDOS_KEY_LIST :: qdos_key where "QDOS_KEY_LIST \<equiv> 45"
abbreviation (input) QDOS_KEY_SAVE :: qdos_key where "QDOS_KEY_SAVE \<equiv> 46"
abbreviation (input) QDOS_KEY_OPEN :: qdos_key where "QDOS_KEY_OPEN \<equiv> 47"
abbreviation (input) QDOS_KEY_CHECK :: qdos_key where "QDOS_KEY_CHECK \<equiv> 48"
abbreviation (input) QDOS_KEY_CATALOG :: qdos_key where "QDOS_KEY_CATALOG \<equiv> 49"
abbreviation (input) QDOS_KEY_ABOUT :: qdos_key where "QDOS_KEY_ABOUT \<equiv> 50"
abbreviation (input) QDOS_KEY_SETTINGS :: qdos_key where "QDOS_KEY_SETTINGS \<equiv> 51"
abbreviation (input) QDOS_KEY_DEBUG :: qdos_key where "QDOS_KEY_DEBUG \<equiv> 52"
abbreviation (input) QDOS_KEY_UNDO :: qdos_key where "QDOS_KEY_UNDO \<equiv> 53"
abbreviation (input) QDOS_KEY_ANGLE :: qdos_key where "QDOS_KEY_ANGLE \<equiv> 54"
abbreviation (input) QDOS_KEY_STO :: qdos_key where "QDOS_KEY_STO \<equiv> 55"
abbreviation (input) QDOS_KEY_RCL :: qdos_key where "QDOS_KEY_RCL \<equiv> 56"
abbreviation (input) QDOS_KEY_SOFT1 :: qdos_key where "QDOS_KEY_SOFT1 \<equiv> 57"
abbreviation (input) QDOS_KEY_SOFT2 :: qdos_key where "QDOS_KEY_SOFT2 \<equiv> 58"
abbreviation (input) QDOS_KEY_SOFT3 :: qdos_key where "QDOS_KEY_SOFT3 \<equiv> 59"
abbreviation (input) QDOS_KEY_SOFT4 :: qdos_key where "QDOS_KEY_SOFT4 \<equiv> 60"
abbreviation (input) QDOS_KEY_SOFT5 :: qdos_key where "QDOS_KEY_SOFT5 \<equiv> 61"
abbreviation (input) QDOS_KEY_CHAR :: qdos_key where "QDOS_KEY_CHAR \<equiv> 62"
abbreviation (input) QDOS_KEY_ASIN :: qdos_key where "QDOS_KEY_ASIN \<equiv> 63"
abbreviation (input) QDOS_KEY_ACOS :: qdos_key where "QDOS_KEY_ACOS \<equiv> 64"
abbreviation (input) QDOS_KEY_ATAN :: qdos_key where "QDOS_KEY_ATAN \<equiv> 65"
abbreviation (input) QDOS_KEY_EXP :: qdos_key where "QDOS_KEY_EXP \<equiv> 66"
abbreviation (input) QDOS_KEY_TRACE :: qdos_key where "QDOS_KEY_TRACE \<equiv> 67"
abbreviation (input) QDOS_KEY_FIT :: qdos_key where "QDOS_KEY_FIT \<equiv> 68"
abbreviation (input) QDOS_KEY_STD :: qdos_key where "QDOS_KEY_STD \<equiv> 69"
abbreviation (input) QDOS_KEY_GRAPH :: qdos_key where "QDOS_KEY_GRAPH \<equiv> 70"
abbreviation (input) QDOS_KEY_TOGGLE :: qdos_key where "QDOS_KEY_TOGGLE \<equiv> 71"
abbreviation (input) QDOS_KEY_VAR_X :: qdos_key where "QDOS_KEY_VAR_X \<equiv> 72"
abbreviation (input) QDOS_KEY_VAR_Y :: qdos_key where "QDOS_KEY_VAR_Y \<equiv> 73"
abbreviation (input) QDOS_KEY_VAR_T :: qdos_key where "QDOS_KEY_VAR_T \<equiv> 74"
abbreviation (input) QDOS_KEY_VAR_THETA :: qdos_key where "QDOS_KEY_VAR_THETA \<equiv> 75"
abbreviation (input) QDOS_KEY_ZOOM :: qdos_key where "QDOS_KEY_ZOOM \<equiv> 76"
abbreviation (input) QDOS_KEY_CALC :: qdos_key where "QDOS_KEY_CALC \<equiv> 77"
abbreviation (input) QDOS_KEY_MENU :: qdos_key where "QDOS_KEY_MENU \<equiv> 78"
abbreviation (input) QDOS_KEY_TBL_START :: qdos_key where "QDOS_KEY_TBL_START \<equiv> 79"
abbreviation (input) QDOS_KEY_TBL_STEP :: qdos_key where "QDOS_KEY_TBL_STEP \<equiv> 80"
abbreviation (input) QDOS_KEY_STATPLOT :: qdos_key where "QDOS_KEY_STATPLOT \<equiv> 81"
abbreviation (input) QDOS_KEY_LIST_CLEAR :: qdos_key where "QDOS_KEY_LIST_CLEAR \<equiv> 82"
abbreviation (input) QDOS_KEY_TO_Y :: qdos_key where "QDOS_KEY_TO_Y \<equiv> 83"
abbreviation (input) QDOS_KEY_MODE :: qdos_key where "QDOS_KEY_MODE \<equiv> 84"
abbreviation (input) QDOS_KEY_PI :: qdos_key where "QDOS_KEY_PI \<equiv> 85"
abbreviation (input) QDOS_KEY_E :: qdos_key where "QDOS_KEY_E \<equiv> 86"
abbreviation (input) QDOS_KEY_NEW :: qdos_key where "QDOS_KEY_NEW \<equiv> 87"
abbreviation (input) QDOS_KEY_RUN :: qdos_key where "QDOS_KEY_RUN \<equiv> 88"
abbreviation (input) QDOS_KEY_COMPLEX :: qdos_key where "QDOS_KEY_COMPLEX \<equiv> 89"
abbreviation (input) QDOS_KEY_I :: qdos_key where "QDOS_KEY_I \<equiv> 90"
abbreviation (input) QDOS_KEY_EE :: qdos_key where "QDOS_KEY_EE \<equiv> 91"
abbreviation (input) QDOS_KEY_CLEAR_STACK :: qdos_key where "QDOS_KEY_CLEAR_STACK \<equiv> 92"
abbreviation (input) QDOS_KEY_ALOG :: qdos_key where "QDOS_KEY_ALOG \<equiv> 93"
abbreviation (input) QDOS_KEY_FACT :: qdos_key where "QDOS_KEY_FACT \<equiv> 94"
abbreviation (input) QDOS_KEY_ROLLD :: qdos_key where "QDOS_KEY_ROLLD \<equiv> 95"
abbreviation (input) QDOS_KEY_LASTX :: qdos_key where "QDOS_KEY_LASTX \<equiv> 96"

definition qdos_keys :: "qdos_key list" where
  "qdos_keys = [QDOS_KEY_NONE, QDOS_KEY_0, QDOS_KEY_1, QDOS_KEY_2, QDOS_KEY_3, QDOS_KEY_4, QDOS_KEY_5,
     QDOS_KEY_6, QDOS_KEY_7, QDOS_KEY_8, QDOS_KEY_9, QDOS_KEY_DOT, QDOS_KEY_ADD, QDOS_KEY_SUB,
     QDOS_KEY_MUL, QDOS_KEY_DIV, QDOS_KEY_DUP, QDOS_KEY_DROP, QDOS_KEY_SWAP, QDOS_KEY_NEG,
     QDOS_KEY_SIN, QDOS_KEY_COS, QDOS_KEY_TAN, QDOS_KEY_LN, QDOS_KEY_LOG, QDOS_KEY_SQRT,
     QDOS_KEY_SQ, QDOS_KEY_POW, QDOS_KEY_INV, QDOS_KEY_ABS, QDOS_KEY_FLOOR, QDOS_KEY_CEIL,
     QDOS_KEY_ROUND, QDOS_KEY_MOD, QDOS_KEY_ROT, QDOS_KEY_OVER, QDOS_KEY_ENTER, QDOS_KEY_BACKSPACE,
     QDOS_KEY_TAB, QDOS_KEY_CLEAR, QDOS_KEY_POWER, QDOS_KEY_UP, QDOS_KEY_DOWN, QDOS_KEY_LEFT,
     QDOS_KEY_RIGHT, QDOS_KEY_LIST, QDOS_KEY_SAVE, QDOS_KEY_OPEN, QDOS_KEY_CHECK, QDOS_KEY_CATALOG,
     QDOS_KEY_ABOUT, QDOS_KEY_SETTINGS, QDOS_KEY_DEBUG, QDOS_KEY_UNDO, QDOS_KEY_ANGLE, QDOS_KEY_STO,
     QDOS_KEY_RCL, QDOS_KEY_SOFT1, QDOS_KEY_SOFT2, QDOS_KEY_SOFT3, QDOS_KEY_SOFT4, QDOS_KEY_SOFT5,
     QDOS_KEY_CHAR, QDOS_KEY_ASIN, QDOS_KEY_ACOS, QDOS_KEY_ATAN, QDOS_KEY_EXP, QDOS_KEY_TRACE,
     QDOS_KEY_FIT, QDOS_KEY_STD, QDOS_KEY_GRAPH, QDOS_KEY_TOGGLE, QDOS_KEY_VAR_X, QDOS_KEY_VAR_Y,
     QDOS_KEY_VAR_T, QDOS_KEY_VAR_THETA, QDOS_KEY_ZOOM, QDOS_KEY_CALC, QDOS_KEY_MENU,
     QDOS_KEY_TBL_START, QDOS_KEY_TBL_STEP, QDOS_KEY_STATPLOT, QDOS_KEY_LIST_CLEAR, QDOS_KEY_TO_Y,
     QDOS_KEY_MODE, QDOS_KEY_PI, QDOS_KEY_E, QDOS_KEY_NEW, QDOS_KEY_RUN, QDOS_KEY_COMPLEX,
     QDOS_KEY_I, QDOS_KEY_EE, QDOS_KEY_CLEAR_STACK, QDOS_KEY_ALOG, QDOS_KEY_FACT, QDOS_KEY_ROLLD,
     QDOS_KEY_LASTX]"

text \<open>The runs of keys that stand for words.\<close>

abbreviation (input) QDOS_KEY_FN_FIRST :: qdos_key where "QDOS_KEY_FN_FIRST \<equiv> QDOS_KEY_SIN"
abbreviation (input) QDOS_KEY_FN_LAST :: qdos_key where "QDOS_KEY_FN_LAST \<equiv> QDOS_KEY_OVER"
abbreviation (input) QDOS_KEY_FN2_FIRST :: qdos_key where "QDOS_KEY_FN2_FIRST \<equiv> QDOS_KEY_ASIN"
abbreviation (input) QDOS_KEY_FN2_LAST :: qdos_key where "QDOS_KEY_FN2_LAST \<equiv> QDOS_KEY_EXP"
abbreviation (input) QDOS_KEY_FN3_FIRST :: qdos_key where "QDOS_KEY_FN3_FIRST \<equiv> QDOS_KEY_ALOG"
abbreviation (input) QDOS_KEY_FN3_LAST :: qdos_key where "QDOS_KEY_FN3_LAST \<equiv> QDOS_KEY_LASTX"

record qdos_key_event =
  ev_key :: qdos_key
  ev_ch :: char

abbreviation (input) key_event :: "qdos_key \<Rightarrow> qdos_key_event" where
  "key_event k \<equiv> \<lparr>ev_key = k, ev_ch = nul\<rparr>"

text \<open>The numbers above are those of the enumeration: every key is its place in it.\<close>

lemma qdos_keys_numbers: "qdos_keys = [0..<97]"
  by (simp add: qdos_keys_def upt_rec)

end
