(* ===== verification/Keypad.thy ===== *)
theory Keypad
  imports Base Keys "HOL-Library.Code_Target_Nat" "HOL-Library.Code_Target_Int"
begin

text \<open>
  The keypad (\<^verbatim>\<open>src/hal/sim/keypad_ui.c\<close>): what is on each key of the matrix on each of the three
  layers, what a press sends, what a typed character stands for, and which key a point of the window
  is on.

  A pointer to a button of the table is its offset \<open>row * QDOS_PAD_COLS + col\<close>, and
  \<open>None\<close> is the null pointer. A five-key row has a sixth entry that is all zeros.
\<close>

section \<open>Geometry\<close>

definition QDOS_PAD_COLS :: nat where "QDOS_PAD_COLS = 6"
definition QDOS_PAD_NARROW :: nat where "QDOS_PAD_NARROW = 5"
definition QDOS_PAD_ROWS :: nat where "QDOS_PAD_ROWS = 10"
definition QDOS_SCREEN_W :: int where "QDOS_SCREEN_W = 400"
definition QDOS_SCREEN_H :: int where "QDOS_SCREEN_H = 240"
definition QDOS_PAD_BUTTON_H :: int where "QDOS_PAD_BUTTON_H = 46"
definition QDOS_PAD_W :: int where "QDOS_PAD_W = QDOS_SCREEN_W"
definition QDOS_PAD_H :: int where "QDOS_PAD_H = int QDOS_PAD_ROWS * QDOS_PAD_BUTTON_H"
definition QDOS_FRAME :: int where "QDOS_FRAME = 8"
definition QDOS_NAMEPLATE_H :: int where "QDOS_NAMEPLATE_H = 22"
definition QDOS_PANEL_X :: int where "QDOS_PANEL_X = QDOS_FRAME"
definition QDOS_PANEL_Y :: int where "QDOS_PANEL_Y = QDOS_FRAME + QDOS_NAMEPLATE_H"
definition QDOS_PAD_X :: int where "QDOS_PAD_X = QDOS_FRAME"
definition QDOS_PAD_Y :: int where "QDOS_PAD_Y = QDOS_PANEL_Y + QDOS_SCREEN_H"
definition QDOS_WINDOW_W :: int where "QDOS_WINDOW_W = QDOS_SCREEN_W + 2 * QDOS_FRAME"
definition QDOS_WINDOW_H :: int where "QDOS_WINDOW_H = QDOS_PAD_Y + QDOS_PAD_H + QDOS_FRAME"
definition QDOS_KEY_INSET_X :: int where "QDOS_KEY_INSET_X = 8"
definition QDOS_KEY_INSET_TOP :: int where "QDOS_KEY_INSET_TOP = 14"
definition QDOS_KEY_INSET_BOTTOM :: int where "QDOS_KEY_INSET_BOTTOM = 5"
definition QDOS_KEY_H :: int where "QDOS_KEY_H = QDOS_PAD_BUTTON_H - QDOS_KEY_INSET_TOP - QDOS_KEY_INSET_BOTTOM"

lemmas pad_geometry = QDOS_PAD_COLS_def QDOS_PAD_NARROW_def QDOS_PAD_ROWS_def QDOS_SCREEN_W_def
  QDOS_SCREEN_H_def QDOS_PAD_BUTTON_H_def QDOS_PAD_W_def QDOS_PAD_H_def QDOS_FRAME_def
  QDOS_NAMEPLATE_H_def QDOS_PANEL_X_def QDOS_PANEL_Y_def QDOS_PAD_X_def QDOS_PAD_Y_def
  QDOS_WINDOW_W_def QDOS_WINDOW_H_def QDOS_KEY_INSET_X_def QDOS_KEY_INSET_TOP_def
  QDOS_KEY_INSET_BOTTOM_def QDOS_KEY_H_def

section \<open>The keys\<close>

datatype qdos_pad_layer = QDOS_PAD_PLAIN | QDOS_PAD_ALPHA | QDOS_PAD_SYMBOL

record qdos_pad_action =
  pa_label :: "cstring option"
  pa_key :: qdos_key
  pa_text :: "cstring option"

record qdos_pad_button =
  pb_plain :: qdos_pad_action
  pb_alpha :: qdos_pad_action
  pb_symbol :: qdos_pad_action
  pb_selects :: qdos_pad_layer

definition KEY :: "cstring \<Rightarrow> qdos_key \<Rightarrow> qdos_pad_action" where
  "KEY l k = \<lparr>pa_label = Some l, pa_key = k, pa_text = None\<rparr>"

definition TXT :: "cstring \<Rightarrow> cstring \<Rightarrow> qdos_pad_action" where
  "TXT l t = \<lparr>pa_label = Some l, pa_key = QDOS_KEY_NONE, pa_text = Some t\<rparr>"

definition NOTHING :: qdos_pad_action where
  "NOTHING = \<lparr>pa_label = None, pa_key = QDOS_KEY_NONE, pa_text = None\<rparr>"

definition BTN :: "qdos_pad_action \<Rightarrow> qdos_pad_action \<Rightarrow> qdos_pad_action \<Rightarrow> qdos_pad_button" where
  "BTN p a s = \<lparr>pb_plain = p, pb_alpha = a, pb_symbol = s, pb_selects = QDOS_PAD_PLAIN\<rparr>"

definition MOD :: "cstring \<Rightarrow> qdos_pad_layer \<Rightarrow> qdos_pad_button" where
  "MOD cap layer =
     \<lparr>pb_plain = KEY cap QDOS_KEY_NONE, pb_alpha = NOTHING, pb_symbol = NOTHING, pb_selects = layer\<rparr>"

abbreviation (input) QDOS_GLYPH_UP :: cstring where "QDOS_GLYPH_UP \<equiv> [CHR 0x01]"
abbreviation (input) QDOS_GLYPH_DOWN :: cstring where "QDOS_GLYPH_DOWN \<equiv> [CHR 0x02]"
abbreviation (input) QDOS_GLYPH_LEFT :: cstring where "QDOS_GLYPH_LEFT \<equiv> [CHR 0x03]"
abbreviation (input) QDOS_GLYPH_SQRT :: cstring where "QDOS_GLYPH_SQRT \<equiv> [CHR 0x04]"
abbreviation (input) QDOS_GLYPH_DIVIDE :: cstring where "QDOS_GLYPH_DIVIDE \<equiv> [CHR 0x05]"
abbreviation (input) QDOS_GLYPH_TIMES :: cstring where "QDOS_GLYPH_TIMES \<equiv> [CHR 0x06]"
abbreviation (input) QDOS_GLYPH_PLUSMINUS :: cstring where "QDOS_GLYPH_PLUSMINUS \<equiv> [CHR 0x07]"
abbreviation (input) QDOS_GLYPH_PI :: cstring where "QDOS_GLYPH_PI \<equiv> [CHR 0x08]"
abbreviation (input) QDOS_GLYPH_RIGHT :: cstring where "QDOS_GLYPH_RIGHT \<equiv> [CHR 0x09]"
abbreviation (input) QDOS_PAD_GLYPH_SQUARED :: cstring where "QDOS_PAD_GLYPH_SQUARED \<equiv> [CHR 0x10]"
abbreviation (input) QDOS_PAD_GLYPH_SPACE :: cstring where "QDOS_PAD_GLYPH_SPACE \<equiv> [CHR 0x11]"
abbreviation (input) QDOS_PAD_GLYPH_SUPER_X :: cstring where "QDOS_PAD_GLYPH_SUPER_X \<equiv> [CHR 0x12]"
abbreviation (input) CAP_ALPHA :: cstring where "CAP_ALPHA \<equiv> ''ALPHA''"
abbreviation (input) CAP_SYMBOL :: cstring where "CAP_SYMBOL \<equiv> []"

definition KEYPAD :: "qdos_pad_button list list" where
  "KEYPAD = [
   [BTN (KEY [] QDOS_KEY_SOFT1) NOTHING NOTHING,
    BTN (KEY [] QDOS_KEY_SOFT2) NOTHING NOTHING,
    BTN (KEY [] QDOS_KEY_SOFT3) NOTHING NOTHING,
    BTN (KEY [] QDOS_KEY_SOFT4) NOTHING NOTHING,
    BTN (KEY [] QDOS_KEY_SOFT5) NOTHING (KEY ''PWR'' QDOS_KEY_POWER)],
   [BTN (KEY ''1/x'' QDOS_KEY_INV) (TXT ''A'' ''a'') (TXT ''('' ''(''),
    BTN (KEY QDOS_GLYPH_SQRT QDOS_KEY_SQRT) (TXT ''B'' ''b'') (TXT '')'' '')''),
    BTN (KEY (''x'' @ QDOS_PAD_GLYPH_SQUARED) QDOS_KEY_SQ) (TXT ''C'' ''c'') (TXT [CHR 0x22] [CHR 0x22]),
    BTN (KEY ''ln'' QDOS_KEY_LN) (TXT ''D'' ''d'') (KEY (''e'' @ QDOS_PAD_GLYPH_SUPER_X) QDOS_KEY_EXP),
    BTN (KEY QDOS_GLYPH_UP QDOS_KEY_UP) NOTHING NOTHING,
    BTN (KEY ''log'' QDOS_KEY_LOG) (TXT ''E'' ''e'') (KEY (''10'' @ QDOS_PAD_GLYPH_SUPER_X) QDOS_KEY_ALOG)],
   [BTN (KEY ''sin'' QDOS_KEY_SIN) (TXT ''F'' ''f'') (KEY ''asin'' QDOS_KEY_ASIN),
    BTN (KEY ''cos'' QDOS_KEY_COS) (TXT ''G'' ''g'') (KEY ''acos'' QDOS_KEY_ACOS),
    BTN (KEY ''tan'' QDOS_KEY_TAN) (TXT ''H'' ''h'') (KEY ''atan'' QDOS_KEY_ATAN),
    BTN (KEY QDOS_GLYPH_LEFT QDOS_KEY_LEFT) NOTHING NOTHING,
    BTN (KEY QDOS_GLYPH_DOWN QDOS_KEY_DOWN) NOTHING NOTHING,
    BTN (KEY QDOS_GLYPH_RIGHT QDOS_KEY_RIGHT) NOTHING NOTHING],
   [BTN (KEY (''y'' @ QDOS_PAD_GLYPH_SUPER_X) QDOS_KEY_POW) (TXT ''I'' ''i'') (TXT ''{'' ''{''),
    BTN (KEY ''x!'' QDOS_KEY_FACT) (TXT ''J'' ''j'') (TXT ''}'' ''}''),
    BTN (KEY (''R'' @ QDOS_GLYPH_DOWN) QDOS_KEY_ROLLD) (TXT ''K'' ''k'') (TXT ''if'' ''if ''),
    BTN (KEY ''lastx'' QDOS_KEY_LASTX) (TXT ''L'' ''l'') (TXT ''else'' '' else ''),
    BTN (KEY ''TAB'' QDOS_KEY_TAB) (TXT ''M'' ''m'') (TXT ''loop'' ''loop ''),
    BTN (KEY ''%'' QDOS_KEY_MOD) (TXT ''N'' ''n'') (TXT ''BRK'' '' break '')],
   [BTN (KEY ''dup'' QDOS_KEY_DUP) (TXT ''O'' ''o'') (TXT ''nip'' '' nip ''),
    BTN (KEY ''drop'' QDOS_KEY_DROP) (TXT ''P'' ''p'') (KEY ''UNDO'' QDOS_KEY_UNDO),
    BTN (KEY ''swap'' QDOS_KEY_SWAP) (TXT ''Q'' ''q'') (TXT ''->'' '' -> ''),
    BTN (KEY ''abs'' QDOS_KEY_ABS) (TXT ''R'' ''r'') (KEY ''CPLX'' QDOS_KEY_COMPLEX),
    BTN (KEY ''round'' QDOS_KEY_ROUND) (TXT ''S'' ''s'') (KEY ''i'' QDOS_KEY_I),
    BTN (KEY ''DEL'' QDOS_KEY_BACKSPACE) NOTHING (KEY ''CLST'' QDOS_KEY_CLEAR_STACK)],
   [BTN (TXT QDOS_PAD_GLYPH_SPACE '' '') NOTHING (TXT ''print'' '' print ''),
    MOD CAP_ALPHA QDOS_PAD_ALPHA,
    BTN (KEY QDOS_GLYPH_PLUSMINUS QDOS_KEY_NEG) (TXT ''T'' ''t'') (TXT ''fn'' ''fn ''),
    BTN (KEY ''EE'' QDOS_KEY_EE) (TXT ''U'' ''u'') (TXT ''--'' '' -- ''),
    BTN (KEY QDOS_GLYPH_DIVIDE QDOS_KEY_DIV) (TXT ''V'' ''v'') (TXT ''i64'' ''i64'')],
   [BTN (KEY ''STO'' QDOS_KEY_STO) NOTHING (TXT ''['' ''[''),
    BTN (KEY ''7'' QDOS_KEY_7) NOTHING (TXT ''and'' '' and ''),
    BTN (KEY ''8'' QDOS_KEY_8) NOTHING (TXT ''or'' '' or ''),
    BTN (KEY ''9'' QDOS_KEY_9) NOTHING (TXT ''f64'' ''f64''),
    BTN (KEY QDOS_GLYPH_TIMES QDOS_KEY_MUL) (TXT ''W'' ''w'') (TXT ''<'' ''<'')],
   [BTN (KEY ''RCL'' QDOS_KEY_RCL) NOTHING (TXT '']'' '']''),
    BTN (KEY ''4'' QDOS_KEY_4) NOTHING (TXT ''not'' '' not ''),
    BTN (KEY ''5'' QDOS_KEY_5) NOTHING (TXT ''=='' '' == ''),
    BTN (KEY ''6'' QDOS_KEY_6) NOTHING (TXT ''!='' '' != ''),
    BTN (KEY ''-'' QDOS_KEY_SUB) (TXT ''X'' ''x'') (TXT ''_'' ''_'')],
   [MOD CAP_SYMBOL QDOS_PAD_SYMBOL,
    BTN (KEY ''1'' QDOS_KEY_1) NOTHING (TXT ''>'' ''>''),
    BTN (KEY ''2'' QDOS_KEY_2) NOTHING (TXT ''<='' '' <= ''),
    BTN (KEY ''3'' QDOS_KEY_3) NOTHING (TXT ''>='' '' >= ''),
    BTN (KEY ''+'' QDOS_KEY_ADD) (TXT ''Y'' ''y'') (TXT ''for'' '' for '')],
   [BTN (KEY ''ESC'' QDOS_KEY_CLEAR) NOTHING NOTHING,
    BTN (KEY ''0'' QDOS_KEY_0) NOTHING (TXT ''len'' '' len ''),
    BTN (KEY ''.'' QDOS_KEY_DOT) NOTHING (TXT '':'' '':''),
    BTN (KEY QDOS_GLYPH_PI QDOS_KEY_PI) (TXT ''Z'' ''z'') (KEY ''e'' QDOS_KEY_E),
    BTN (KEY ''ENTER'' QDOS_KEY_ENTER) NOTHING (TXT ''='' ''='')]
  ]"

definition ROW_COLS :: "nat list" where
  "ROW_COLS = [5, 6, 6, 6, 6, 5, 5, 5, 5, 5]"

text \<open>The button at an offset of the table.\<close>

definition no_button :: qdos_pad_button where
  "no_button = BTN NOTHING NOTHING NOTHING"

definition button :: "nat \<Rightarrow> qdos_pad_button" where
  "button i =
     (let row = i div QDOS_PAD_COLS; col = i mod QDOS_PAD_COLS
      in if row < QDOS_PAD_ROWS \<and> col < ROW_COLS ! row then KEYPAD ! row ! col else no_button)"

definition qdos_pad_row_cols :: "int \<Rightarrow> nat" where
  "qdos_pad_row_cols row = (if row < 0 \<or> int QDOS_PAD_ROWS \<le> row then 0 else ROW_COLS ! nat row)"

definition qdos_pad_cell_left :: "nat \<Rightarrow> nat \<Rightarrow> int" where
  "qdos_pad_cell_left col row =
     (let cols = int (ROW_COLS ! row) in (int col * QDOS_PAD_W + cols - 1) div cols)"

definition qdos_pad_key_rect :: "nat \<Rightarrow> int \<times> int \<times> int \<times> int" where
  "qdos_pad_key_rect i =
     (let col = i mod QDOS_PAD_COLS; row = i div QDOS_PAD_COLS;
          left = qdos_pad_cell_left col row;
          w = QDOS_PAD_W div int (ROW_COLS ! row) - 2 * QDOS_KEY_INSET_X;
          h = QDOS_KEY_H;
          x = left + (qdos_pad_cell_left (col + 1) row - left - w) div 2;
          y = int row * QDOS_PAD_BUTTON_H + QDOS_KEY_INSET_TOP
      in (x, y, w, h))"

definition qdos_pad_at :: "int \<Rightarrow> int \<Rightarrow> nat option" where
  "qdos_pad_at x y =
     (let px = x - QDOS_PAD_X; py = y - QDOS_PAD_Y
      in if px < 0 \<or> py < 0 \<or> QDOS_PAD_W \<le> px \<or> QDOS_PAD_H \<le> py then None
         else let row = nat (py div QDOS_PAD_BUTTON_H)
              in Some (row * QDOS_PAD_COLS + nat (px * int (ROW_COLS ! row) div QDOS_PAD_W)))"

definition qdos_pad_button_at :: "int \<Rightarrow> int \<Rightarrow> nat option" where
  "qdos_pad_button_at col row =
     (if col < 0 \<or> row < 0 \<or> int QDOS_PAD_ROWS \<le> row \<or> int (ROW_COLS ! nat row) \<le> col then None
      else Some (nat row * QDOS_PAD_COLS + nat col))"

section \<open>Presses\<close>

definition qdos_pad_modifier :: "nat option \<Rightarrow> qdos_pad_layer option" where
  "qdos_pad_modifier b =
     (case b of None \<Rightarrow> None
      | Some i \<Rightarrow> if pb_selects (button i) = QDOS_PAD_PLAIN then None else Some (pb_selects (button i)))"

definition qdos_pad_action_for :: "nat option \<Rightarrow> qdos_pad_layer \<Rightarrow> qdos_pad_action option" where
  "qdos_pad_action_for b layer =
     (case b of None \<Rightarrow> None
      | Some i \<Rightarrow>
          if layer = QDOS_PAD_SYMBOL then
            (if pa_label (pb_symbol (button i)) \<noteq> None then Some (pb_symbol (button i)) else None)
          else if layer = QDOS_PAD_ALPHA \<and> pa_label (pb_alpha (button i)) \<noteq> None then
            Some (pb_alpha (button i))
          else if pa_label (pb_plain (button i)) \<noteq> None then Some (pb_plain (button i)) else None)"

record qdos_pad_face =
  pf_layer :: qdos_pad_layer
  pf_locked :: qdos_pad_layer

definition qdos_pad_press :: "qdos_pad_face \<Rightarrow> nat option \<Rightarrow> qdos_pad_action option \<times> qdos_pad_face" where
  "qdos_pad_press face b =
     (if b = None then (None, face)
      else case qdos_pad_modifier b of
        Some selects \<Rightarrow>
          if pf_layer face = selects then
            (None, face\<lparr>pf_layer := QDOS_PAD_PLAIN, pf_locked := QDOS_PAD_PLAIN\<rparr>)
          else if selects = QDOS_PAD_ALPHA then
            (None, face\<lparr>pf_layer := selects, pf_locked := QDOS_PAD_ALPHA\<rparr>)
          else (None, face\<lparr>pf_layer := selects\<rparr>)
      | None \<Rightarrow> (qdos_pad_action_for b (pf_layer face), face\<lparr>pf_layer := pf_locked face\<rparr>))"

definition qdos_pad_typed :: "char \<Rightarrow> qdos_key_event" where
  "qdos_pad_typed ch =
     (if is_digit ch then key_event (QDOS_KEY_0 + (code ch - code (CHR ''0'')))
      else if ch = CHR ''.'' then key_event QDOS_KEY_DOT
      else if ch = CHR ''+'' then \<lparr>ev_key = QDOS_KEY_ADD, ev_ch = ch\<rparr>
      else if ch = CHR ''-'' then \<lparr>ev_key = QDOS_KEY_SUB, ev_ch = ch\<rparr>
      else if ch = CHR ''*'' then \<lparr>ev_key = QDOS_KEY_MUL, ev_ch = ch\<rparr>
      else if ch = CHR ''/'' then \<lparr>ev_key = QDOS_KEY_DIV, ev_ch = ch\<rparr>
      else \<lparr>ev_key = QDOS_KEY_CHAR, ev_ch = ch\<rparr>)"

section \<open>Lemmas\<close>

lemma row_cols_cases: "row < QDOS_PAD_ROWS \<Longrightarrow> ROW_COLS ! row = 5 \<or> ROW_COLS ! row = 6"
  by (auto simp: ROW_COLS_def QDOS_PAD_ROWS_def less_Suc_eq numeral_eq_Suc)

lemma row_cols_le: "row < QDOS_PAD_ROWS \<Longrightarrow> ROW_COLS ! row \<le> QDOS_PAD_COLS"
  using row_cols_cases [of row] by (auto simp: QDOS_PAD_COLS_def)

lemma row_cols_pos: "row < QDOS_PAD_ROWS \<Longrightarrow> 0 < int (ROW_COLS ! row)"
  using row_cols_cases [of row] by auto

text \<open>Division by a positive number, rounded down and rounded up, against a bound.\<close>

lemma le_div_iff:
  assumes "0 < n"
  shows "p \<le> x div n \<longleftrightarrow> p * n \<le> (x :: int)"
proof
  assume "p \<le> x div n"
  then have "p * n \<le> x div n * n" using assms by (intro mult_right_mono) auto
  then show "p * n \<le> x" using div_mult_mod_eq [of x n] pos_mod_sign [OF assms, of x] by linarith
next
  assume "p * n \<le> x"
  then show "p \<le> x div n" using zdiv_mono1 [of "p * n" x n] assms by simp
qed

lemma ceil_le_iff: "0 < n \<Longrightarrow> (x + n - 1) div n \<le> p \<longleftrightarrow> x \<le> p * (n :: int)"
  using le_div_iff [of n "p + 1" "x + n - 1"] by (auto simp: algebra_simps)

text \<open>A column of a cell is the one a point of it is scaled to.\<close>

lemma cell_left_le: "row < QDOS_PAD_ROWS \<Longrightarrow>
    qdos_pad_cell_left col row \<le> p \<longleftrightarrow> int col * QDOS_PAD_W \<le> p * int (ROW_COLS ! row)"
  unfolding qdos_pad_cell_left_def Let_def by (rule ceil_le_iff [OF row_cols_pos])

lemma scaled_column:
  assumes "row < QDOS_PAD_ROWS" and "0 \<le> p"
  shows "nat (p * int (ROW_COLS ! row) div QDOS_PAD_W) = col \<longleftrightarrow>
     qdos_pad_cell_left col row \<le> p \<and> p < qdos_pad_cell_left (Suc col) row"
proof -
  let ?n = "p * int (ROW_COLS ! row)"
  have W: "0 < QDOS_PAD_W" by (simp add: pad_geometry)
  have "0 \<le> ?n div QDOS_PAD_W" using assms(2) W by (simp add: pos_imp_zdiv_nonneg_iff)
  then have "nat (?n div QDOS_PAD_W) = col \<longleftrightarrow> int col \<le> ?n div QDOS_PAD_W \<and> \<not> int (Suc col) \<le> ?n div QDOS_PAD_W"
    by linarith
  then show ?thesis
    by (simp only: le_div_iff [OF W] cell_left_le [OF assms(1), symmetric] not_le)
qed

lemma cell_left_inside:
  assumes "row < QDOS_PAD_ROWS"
  shows "0 \<le> qdos_pad_cell_left col row" and "qdos_pad_cell_left 0 row = 0"
    and "qdos_pad_cell_left (ROW_COLS ! row) row = QDOS_PAD_W"
  using row_cols_cases [OF assms] by (auto simp: qdos_pad_cell_left_def pad_geometry Let_def)

lemma cell_left_mono:
  assumes "row < QDOS_PAD_ROWS" and "c \<le> d"
  shows "qdos_pad_cell_left c row \<le> qdos_pad_cell_left d row"
  unfolding qdos_pad_cell_left_def Let_def
  using assms(2) row_cols_pos [OF assms(1)] by (intro zdiv_mono1) (auto simp: pad_geometry)

lemma cell_left_bound:
  assumes "row < QDOS_PAD_ROWS" and "col < ROW_COLS ! row" and "p < qdos_pad_cell_left (Suc col) row"
  shows "p < QDOS_PAD_W"
  using cell_left_mono [OF assms(1), of "Suc col" "ROW_COLS ! row"] cell_left_inside(3) [OF assms(1)] assms by simp

lemma cell_right_bound:
  assumes "row < QDOS_PAD_ROWS" and "qdos_pad_cell_left col row \<le> p" and "p < QDOS_PAD_W"
  shows "col < ROW_COLS ! row"
  using cell_left_mono [OF assms(1), of "ROW_COLS ! row" col] cell_left_inside(3) [OF assms(1)] assms
  by (cases "ROW_COLS ! row \<le> col") auto

text \<open>The buttons there are: those of the columns each row has.\<close>

definition is_button :: "nat \<Rightarrow> bool" where
  "is_button i \<longleftrightarrow> i div QDOS_PAD_COLS < QDOS_PAD_ROWS \<and> i mod QDOS_PAD_COLS < ROW_COLS ! (i div QDOS_PAD_COLS)"

definition in_cell :: "nat \<Rightarrow> int \<Rightarrow> int \<Rightarrow> bool" where
  "in_cell i px py \<longleftrightarrow>
     (let col = i mod QDOS_PAD_COLS; row = i div QDOS_PAD_COLS
      in int row * QDOS_PAD_BUTTON_H \<le> py \<and> py < (int row + 1) * QDOS_PAD_BUTTON_H \<and>
         qdos_pad_cell_left col row \<le> px \<and> px < qdos_pad_cell_left (Suc col) row)"

lemma offset_div_mod:
  assumes "row < QDOS_PAD_ROWS" and "col < ROW_COLS ! row"
  shows "(row * QDOS_PAD_COLS + col) div QDOS_PAD_COLS = row" "(row * QDOS_PAD_COLS + col) mod QDOS_PAD_COLS = col"
  using row_cols_le [OF assms(1)] assms(2) by auto

lemma pad_row: "nat (py div QDOS_PAD_BUTTON_H) = row \<and> 0 \<le> py \<longleftrightarrow>
    int row * QDOS_PAD_BUTTON_H \<le> py \<and> py < (int row + 1) * QDOS_PAD_BUTTON_H"
proof -
  let ?d = "py div QDOS_PAD_BUTTON_H"
  have H: "0 < QDOS_PAD_BUTTON_H" by (simp add: QDOS_PAD_BUTTON_H_def)
  have "0 \<le> py \<longleftrightarrow> 0 \<le> ?d" using H by (simp add: pos_imp_zdiv_nonneg_iff)
  then have "nat ?d = row \<and> 0 \<le> py \<longleftrightarrow> int row \<le> ?d \<and> \<not> int row + 1 \<le> ?d" by linarith
  then show ?thesis by (simp only: le_div_iff [OF H] not_le)
qed

lemma pad_at_cell:
  "qdos_pad_at (QDOS_PAD_X + px) (QDOS_PAD_Y + py) = Some i \<longleftrightarrow> is_button i \<and> in_cell i px py"
proof
  assume at: "qdos_pad_at (QDOS_PAD_X + px) (QDOS_PAD_Y + py) = Some i"
  define row where "row = nat (py div QDOS_PAD_BUTTON_H)"
  define col where "col = nat (px * int (ROW_COLS ! row) div QDOS_PAD_W)"
  have p: "0 \<le> px" "0 \<le> py" "px < QDOS_PAD_W" "py < QDOS_PAD_H" "i = row * QDOS_PAD_COLS + col"
    using at by (auto simp: qdos_pad_at_def Let_def row_def col_def split: if_splits)
  have r: "row < QDOS_PAD_ROWS" using p(2,4) by (simp add: row_def pad_geometry)
  have c: "qdos_pad_cell_left col row \<le> px \<and> px < qdos_pad_cell_left (Suc col) row"
    using scaled_column [OF r p(1), of col] col_def by blast
  have w: "col < ROW_COLS ! row" using cell_right_bound [OF r _ p(3)] c by simp
  have "int row * QDOS_PAD_BUTTON_H \<le> py \<and> py < (int row + 1) * QDOS_PAD_BUTTON_H"
    using pad_row [of py row] p(2) row_def by simp
  then show "is_button i \<and> in_cell i px py"
    using offset_div_mod [OF r w] r w c p(5) by (simp add: is_button_def in_cell_def)
next
  assume i: "is_button i \<and> in_cell i px py"
  define row col where "row = i div QDOS_PAD_COLS" and "col = i mod QDOS_PAD_COLS"
  have r: "row < QDOS_PAD_ROWS" and w: "col < ROW_COLS ! row"
    and y: "int row * QDOS_PAD_BUTTON_H \<le> py \<and> py < (int row + 1) * QDOS_PAD_BUTTON_H"
    and x: "qdos_pad_cell_left col row \<le> px" "px < qdos_pad_cell_left (Suc col) row"
    using i by (auto simp: is_button_def in_cell_def row_def col_def Let_def)
  have px: "0 \<le> px" using x(1) cell_left_inside(1) [OF r, of col] by simp
  have "px < QDOS_PAD_W" by (rule cell_left_bound [OF r w x(2)])
  moreover have "nat (py div QDOS_PAD_BUTTON_H) = row" "0 \<le> py" using pad_row [of py row] y by auto
  moreover have "py < QDOS_PAD_H" using y r by (simp add: pad_geometry)
  moreover have "nat (px * int (ROW_COLS ! row) div QDOS_PAD_W) = col" using scaled_column [OF r px] x by simp
  moreover have "i = row * QDOS_PAD_COLS + col" by (simp add: row_def col_def)
  ultimately show "qdos_pad_at (QDOS_PAD_X + px) (QDOS_PAD_Y + py) = Some i"
    using px by (simp add: qdos_pad_at_def)
qed

text \<open>A key's face lies in its cell.\<close>

lemma key_rect_in_cell:
  assumes "is_button i" and "qdos_pad_key_rect i = (x, y, w, h)"
    and "x \<le> px" "px < x + w" "y \<le> py" "py < y + h"
  shows "in_cell i px py"
proof -
  define row col where "row = i div QDOS_PAD_COLS" and "col = i mod QDOS_PAD_COLS"
  define l r where "l = qdos_pad_cell_left col row" and "r = qdos_pad_cell_left (Suc col) row"
  have row: "row < QDOS_PAD_ROWS" using assms(1) by (simp add: is_button_def row_def)
  have e: "w = 400 div int (ROW_COLS ! row) - 16" "h = 27" "x = l + (r - l - w) div 2" "y = int row * 46 + 14"
    using assms(2) by (auto simp: qdos_pad_key_rect_def Let_def pad_geometry row_def col_def l_def r_def)
  have "w \<le> r - l" using row_cols_cases [OF row] e(1)
    by (auto simp: l_def r_def qdos_pad_cell_left_def pad_geometry Let_def)
  then have "l \<le> x \<and> x + w \<le> r" using e(3) by presburger
  then have "l \<le> px \<and> px < r" using assms(3,4) by linarith
  moreover have "int row * 46 \<le> py \<and> py < (int row + 1) * 46" using assms(5,6) e(2,4) by auto
  ultimately show ?thesis by (simp add: in_cell_def QDOS_PAD_BUTTON_H_def l_def r_def row_def col_def)
qed

section \<open>The face as a lock and a shift\<close>

text \<open>
  What a user keeps in mind: whether the letters are locked, and whether the next key is shifted.
\<close>

record lock =
  lk_alpha :: bool
  lk_shift :: bool

definition lock_of :: "qdos_pad_face \<Rightarrow> lock" where
  "lock_of f = \<lparr>lk_alpha = (pf_locked f = QDOS_PAD_ALPHA), lk_shift = (pf_layer f = QDOS_PAD_SYMBOL)\<rparr>"

definition layer_of :: "lock \<Rightarrow> qdos_pad_layer" where
  "layer_of k = (if lk_shift k then QDOS_PAD_SYMBOL else if lk_alpha k then QDOS_PAD_ALPHA else QDOS_PAD_PLAIN)"

definition press_lock :: "lock \<Rightarrow> nat option \<Rightarrow> qdos_pad_action option \<times> lock" where
  "press_lock k b =
     (case b of None \<Rightarrow> (None, k)
      | Some i \<Rightarrow>
          (case pb_selects (button i) of
             QDOS_PAD_SYMBOL \<Rightarrow>
               (None, if lk_shift k then \<lparr>lk_alpha = False, lk_shift = False\<rparr> else k\<lparr>lk_shift := True\<rparr>)
           | QDOS_PAD_ALPHA \<Rightarrow>
               (None, \<lparr>lk_alpha = (lk_shift k \<or> \<not> lk_alpha k), lk_shift = False\<rparr>)
           | QDOS_PAD_PLAIN \<Rightarrow> (qdos_pad_action_for b (layer_of k), k\<lparr>lk_shift := False\<rparr>)))"

text \<open>The faces the machine gets to, from a plain one or a reset, by any presses.\<close>

definition plain_face :: qdos_pad_face where
  "plain_face = \<lparr>pf_layer = QDOS_PAD_PLAIN, pf_locked = QDOS_PAD_PLAIN\<rparr>"

inductive reached :: "qdos_pad_face \<Rightarrow> bool" where
  reset: "reached plain_face"
| press: "reached f \<Longrightarrow> reached (snd (qdos_pad_press f b))"

definition face_ok :: "qdos_pad_face \<Rightarrow> bool" where
  "face_ok f \<longleftrightarrow> pf_locked f \<noteq> QDOS_PAD_SYMBOL \<and> (pf_layer f = QDOS_PAD_SYMBOL \<or> pf_layer f = pf_locked f)"

lemma face_ok_cases:
  assumes "face_ok f"
  obtains "f = \<lparr>pf_layer = QDOS_PAD_PLAIN, pf_locked = QDOS_PAD_PLAIN\<rparr>"
    | "f = \<lparr>pf_layer = QDOS_PAD_ALPHA, pf_locked = QDOS_PAD_ALPHA\<rparr>"
    | "f = \<lparr>pf_layer = QDOS_PAD_SYMBOL, pf_locked = QDOS_PAD_PLAIN\<rparr>"
    | "f = \<lparr>pf_layer = QDOS_PAD_SYMBOL, pf_locked = QDOS_PAD_ALPHA\<rparr>"
proof (cases f)
  case (fields l k)
  then show thesis using assms that by (cases l; cases k) (simp_all add: face_ok_def)
qed

lemma face_ok_press:
  assumes "face_ok f"
  shows "face_ok (snd (qdos_pad_press f b))"
proof (cases b)
  case None
  then show ?thesis using assms by (simp add: qdos_pad_press_def)
next
  case (Some i)
  show ?thesis using assms unfolding Some
    by (cases rule: face_ok_cases; cases "pb_selects (button i)")
      (simp_all add: qdos_pad_press_def qdos_pad_modifier_def face_ok_def)
qed

lemma reached_ok: "reached f \<Longrightarrow> face_ok f"
  by (induction rule: reached.induct) (simp_all add: face_ok_press, simp add: face_ok_def plain_face_def)

lemma press_refines:
  assumes "face_ok f"
  shows "map_prod id lock_of (qdos_pad_press f b) = press_lock (lock_of f) b"
proof (cases b)
  case None
  then show ?thesis by (simp add: qdos_pad_press_def press_lock_def)
next
  case (Some i)
  show ?thesis using assms unfolding Some
    by (cases rule: face_ok_cases; cases "pb_selects (button i)")
      (simp_all add: qdos_pad_press_def press_lock_def qdos_pad_modifier_def lock_of_def layer_of_def)
qed

section \<open>Typing on the keypad\<close>

text \<open>The presses of a list of buttons, with what each sent.\<close>

fun presses :: "nat list \<Rightarrow> qdos_pad_face \<Rightarrow> qdos_pad_action list \<times> qdos_pad_face" where
  "presses [] f = ([], f)"
| "presses (b # bs) f =
     (let (a, f1) = qdos_pad_press f (Some b); (as, f2) = presses bs f1
      in (case a of None \<Rightarrow> as | Some x \<Rightarrow> x # as, f2))"

text \<open>What an action types: its text, or the character of a key that is one.\<close>

definition typed_text :: "qdos_pad_action \<Rightarrow> cstring" where
  "typed_text a =
     (case pa_text a of
        Some t \<Rightarrow> t
      | None \<Rightarrow>
          if pa_key a \<in> {QDOS_KEY_0..QDOS_KEY_9} then [digit_char (pa_key a - QDOS_KEY_0)]
          else if pa_key a = QDOS_KEY_DOT then ''.''
          else if pa_key a = QDOS_KEY_ADD then ''+''
          else if pa_key a = QDOS_KEY_SUB then ''-''
          else if pa_key a = QDOS_KEY_MUL then ''*''
          else if pa_key a = QDOS_KEY_DIV then ''/''
          else [])"

definition types :: "nat list \<Rightarrow> char \<Rightarrow> bool" where
  "types bs c \<longleftrightarrow> (case presses bs plain_face of (as, f) \<Rightarrow> concat (map typed_text as) = [c] \<and> f = plain_face)"

text \<open>
  For each character of a program, keys that type it: 48 is shift and 31 is ALPHA, pressed again
  to let the letters go.
\<close>

definition keystrokes :: "(char \<times> nat list) list" where
  "keystrokes = [
     (CHR ''a'', [31, 6, 31]), (CHR ''b'', [31, 7, 31]), (CHR ''c'', [31, 8, 31]),
     (CHR ''d'', [31, 9, 31]), (CHR ''e'', [31, 11, 31]), (CHR ''f'', [31, 12, 31]),
     (CHR ''g'', [31, 13, 31]), (CHR ''h'', [31, 14, 31]), (CHR ''i'', [31, 18, 31]),
     (CHR ''j'', [31, 19, 31]), (CHR ''k'', [31, 20, 31]), (CHR ''l'', [31, 21, 31]),
     (CHR ''m'', [31, 22, 31]), (CHR ''n'', [31, 23, 31]), (CHR ''o'', [31, 24, 31]),
     (CHR ''p'', [31, 25, 31]), (CHR ''q'', [31, 26, 31]), (CHR ''r'', [31, 27, 31]),
     (CHR ''s'', [31, 28, 31]), (CHR ''t'', [31, 32, 31]), (CHR ''u'', [31, 33, 31]),
     (CHR ''v'', [31, 34, 31]), (CHR ''w'', [31, 40, 31]), (CHR ''x'', [31, 46, 31]),
     (CHR ''y'', [31, 52, 31]), (CHR ''z'', [31, 57, 31]), (CHR ''0'', [55]), (CHR ''1'', [49]),
     (CHR ''2'', [50]), (CHR ''3'', [51]), (CHR ''4'', [43]), (CHR ''5'', [44]), (CHR ''6'', [45]),
     (CHR ''7'', [37]), (CHR ''8'', [38]), (CHR ''9'', [39]), (CHR '' '', [30]), (CHR ''.'', [56]),
     (CHR '':'', [48, 56]), (CHR ''_'', [48, 46]), (CHR ''-'', [46]), (CHR ''+'', [52]),
     (CHR ''*'', [40]), (CHR ''/'', [34]), (CHR ''<'', [48, 40]), (CHR ''>'', [48, 49]),
     (CHR ''='', [48, 58]), (CHR ''('', [48, 6]), (CHR '')'', [48, 7]), (CHR ''{'', [48, 18]),
     (CHR ''}'', [48, 19]), (CHR ''['', [48, 36]), (CHR '']'', [48, 42]), (CHR 0x22, [48, 8])]"

lemma keystrokes_type: "list_all (\<lambda>(c, bs). types bs c) keystrokes"
  by code_simp

lemma presses_append:
  "presses (as @ bs) f = (let (xs, f1) = presses as f; (ys, f2) = presses bs f1 in (xs @ ys, f2))"
proof (induction as arbitrary: f)
  case (Cons a as)
  obtain x f1 where "qdos_pad_press f (Some a) = (x, f1)" by (cases "qdos_pad_press f (Some a)")
  then show ?case using Cons [of f1] by (cases x) (simp_all add: split_def Let_def)
qed simp

lemma types_all:
  assumes "list_all (\<lambda>c. c \<in> fst ` set keystrokes) w"
  shows "\<exists>as. presses (concat (map (\<lambda>c. the (map_of keystrokes c)) w)) plain_face = (as, plain_face) \<and>
    concat (map typed_text as) = w"
  using assms
proof (induction w)
  case Nil
  then show ?case by simp
next
  case (Cons c w)
  then obtain bs where m: "map_of keystrokes c = Some bs" by (cases "map_of keystrokes c") (auto simp: map_of_eq_None_iff)
  then have "types bs c" using keystrokes_type map_of_SomeD [OF m] by (auto simp: list_all_iff)
  then obtain xs where "presses bs plain_face = (xs, plain_face)" "concat (map typed_text xs) = [c]"
    by (auto simp: types_def split: prod.splits)
  moreover obtain as where "presses (concat (map (\<lambda>c. the (map_of keystrokes c)) w)) plain_face = (as, plain_face)"
    "concat (map typed_text as) = w" using Cons by auto
  ultimately show ?case using m by (simp add: presses_append)
qed

section \<open>Properties\<close>







end
