(* ===== verification/PadFont.thy ===== *)
theory PadFont
  imports Base "HOL-Library.Code_Target_Nat" "HOL-Library.Code_Target_Int"
begin

text \<open>
  The metrics of the keycap font (\<^verbatim>\<open>src/hal/sim/padfont.c\<close>): for each face and each code
  the size of the glyph's bitmap, where it sits, how far it moves the pen and where its coverage
  begins. The coverage bytes themselves are left a parameter of what draws with them.
\<close>

datatype qdos_padface = QDOS_PADFACE_CAP | QDOS_PADFACE_SHIFT

record qdos_padglyph =
  gl_w :: nat
  gl_h :: nat
  gl_bx :: int
  gl_by :: int
  gl_advance :: int
  gl_offset :: nat

definition G :: "nat \<Rightarrow> nat \<Rightarrow> int \<Rightarrow> int \<Rightarrow> int \<Rightarrow> nat \<Rightarrow> qdos_padglyph" where
  "G w h bx by adv off =
     \<lparr>gl_w = w, gl_h = h, gl_bx = bx, gl_by = by, gl_advance = adv, gl_offset = off\<rparr>"

definition QDOS_PADFONT_FIRST :: nat where "QDOS_PADFONT_FIRST = 1"
definition QDOS_PADFONT_LAST :: nat where "QDOS_PADFONT_LAST = 126"

definition GLYPHS_CAP :: "qdos_padglyph list" where
  "GLYPHS_CAP = [
     G 6 10 2 (-10) 10 0, G 6 11 2 (-10) 10 60, G 10 6 0 (-7) 10 126, G 8 12 0 (-11) 8 186,
     G 8 8 1 (-8) 10 282, G 8 8 1 (-8) 10 346, G 8 9 1 (-9) 10 410, G 9 9 0 (-8) 9 482,
     G 10 6 0 (-7) 10 563, G 0 0 0 0 0 0, G 0 0 0 0 0 0, G 0 0 0 0 0 0, G 0 0 0 0 0 0,
     G 0 0 0 0 0 0, G 0 0 0 0 0 0, G 5 6 0 (-10) 5 623, G 8 5 0 (-2) 8 653, G 5 5 0 (-9) 5 693,
     G 0 0 0 0 0 0, G 0 0 0 0 0 0, G 0 0 0 0 0 0, G 0 0 0 0 0 0, G 0 0 0 0 0 0, G 0 0 0 0 0 0,
     G 0 0 0 0 0 0, G 0 0 0 0 0 0, G 0 0 0 0 0 0, G 0 0 0 0 0 0, G 0 0 0 0 0 0, G 0 0 0 0 0 0,
     G 0 0 0 0 0 0, G 0 0 0 0 4 718, G 3 10 1 (-10) 5 718, G 4 5 1 (-10) 6 748,
     G 9 10 0 (-10) 10 768, G 8 12 0 (-10) 8 858, G 12 11 0 (-10) 12 954, G 10 11 0 (-10) 10 1086,
     G 2 5 1 (-10) 4 1196, G 4 12 1 (-10) 5 1206, G 5 12 0 (-10) 5 1254, G 6 7 0 (-10) 6 1314,
     G 8 9 1 (-9) 10 1356, G 4 5 0 (-3) 4 1428, G 5 3 0 (-5) 5 1448, G 3 3 1 (-3) 4 1463,
     G 5 12 0 (-10) 4 1472, G 8 11 0 (-10) 8 1532, G 7 10 1 (-10) 8 1620, G 8 10 0 (-10) 8 1690,
     G 8 11 0 (-10) 8 1770, G 8 10 0 (-10) 8 1858, G 8 11 0 (-10) 8 1938, G 8 11 0 (-10) 8 2026,
     G 8 10 0 (-10) 8 2114, G 8 11 0 (-10) 8 2194, G 8 11 0 (-10) 8 2282, G 3 8 1 (-8) 5 2370,
     G 4 10 0 (-8) 5 2394, G 8 8 1 (-8) 10 2434, G 8 6 1 (-7) 10 2498, G 8 8 1 (-8) 10 2546,
     G 7 10 0 (-10) 7 2610, G 11 13 0 (-10) 12 2680, G 9 10 0 (-10) 9 2823, G 8 10 1 (-10) 9 2913,
     G 8 11 0 (-10) 9 2993, G 9 10 1 (-10) 10 3081, G 7 10 1 (-10) 8 3171, G 7 10 1 (-10) 8 3241,
     G 9 11 0 (-10) 10 3311, G 8 10 1 (-10) 10 3410, G 3 10 1 (-10) 4 3490,
     G 5 13 (-1) (-10) 4 3520, G 9 10 1 (-10) 9 3585, G 7 10 1 (-10) 7 3675,
     G 10 10 1 (-10) 12 3745, G 8 10 1 (-10) 10 3845, G 10 11 0 (-10) 10 3925,
     G 8 10 1 (-10) 9 4035, G 10 12 0 (-10) 10 4115, G 8 10 1 (-10) 9 4235, G 8 11 0 (-10) 8 4315,
     G 8 10 0 (-10) 8 4403, G 8 11 1 (-10) 10 4483, G 9 10 0 (-10) 9 4571, G 13 10 0 (-10) 13 4661,
     G 9 10 0 (-10) 9 4791, G 10 10 (-1) (-10) 8 4881, G 8 10 0 (-10) 8 4981,
     G 4 12 1 (-10) 5 5061, G 5 12 0 (-10) 4 5109, G 5 12 0 (-10) 5 5169, G 8 5 1 (-10) 10 5229,
     G 6 3 0 1 6 5269, G 4 3 0 (-11) 6 5287, G 7 9 0 (-8) 8 5299, G 8 11 0 (-10) 8 5362,
     G 7 9 0 (-8) 7 5450, G 8 11 0 (-10) 8 5513, G 8 9 0 (-8) 8 5601, G 6 10 0 (-10) 5 5673,
     G 8 11 0 (-8) 8 5733, G 8 10 0 (-10) 8 5821, G 4 10 0 (-10) 4 5901, G 5 13 (-1) (-10) 4 5941,
     G 8 10 0 (-10) 8 6006, G 4 10 0 (-10) 4 6086, G 12 8 0 (-8) 12 6126, G 8 8 0 (-8) 8 6222,
     G 8 9 0 (-8) 8 6286, G 8 11 0 (-8) 8 6358, G 8 11 0 (-8) 8 6446, G 6 8 0 (-8) 6 6534,
     G 7 9 0 (-8) 7 6582, G 6 10 0 (-10) 6 6645, G 8 9 0 (-8) 8 6705, G 8 8 0 (-8) 8 6777,
     G 11 8 0 (-8) 11 6841, G 8 8 0 (-8) 8 6929, G 8 11 0 (-8) 8 6993, G 7 8 0 (-8) 7 7081,
     G 6 13 1 (-10) 8 7137, G 2 14 1 (-10) 4 7215, G 6 13 1 (-10) 8 7243, G 8 4 1 (-6) 10 7321]"

definition GLYPHS_SHIFT :: "qdos_padglyph list" where
  "GLYPHS_SHIFT = [
     G 5 8 1 (-8) 8 0, G 5 9 1 (-8) 8 40, G 8 6 0 (-6) 8 85, G 7 10 0 (-9) 6 133,
     G 7 6 0 (-6) 8 203, G 6 6 1 (-6) 8 245, G 7 7 0 (-7) 8 281, G 7 7 0 (-6) 7 330,
     G 8 6 0 (-6) 8 379, G 0 0 0 0 0 0, G 0 0 0 0 0 0, G 0 0 0 0 0 0, G 0 0 0 0 0 0, G 0 0 0 0 0 0,
     G 0 0 0 0 0 0, G 4 5 0 (-8) 4 427, G 6 4 0 (-1) 6 447, G 4 4 0 (-7) 4 471, G 0 0 0 0 0 0,
     G 0 0 0 0 0 0, G 0 0 0 0 0 0, G 0 0 0 0 0 0, G 0 0 0 0 0 0, G 0 0 0 0 0 0, G 0 0 0 0 0 0,
     G 0 0 0 0 0 0, G 0 0 0 0 0 0, G 0 0 0 0 0 0, G 0 0 0 0 0 0, G 0 0 0 0 0 0, G 0 0 0 0 0 0,
     G 0 0 0 0 3 487, G 2 8 1 (-8) 4 487, G 4 4 0 (-8) 5 503, G 7 8 0 (-8) 8 519,
     G 6 10 0 (-8) 6 575, G 9 9 0 (-8) 9 635, G 8 9 0 (-8) 8 716, G 2 4 0 (-8) 3 788,
     G 4 10 0 (-8) 4 796, G 4 10 0 (-8) 4 836, G 5 6 0 (-8) 5 876, G 7 7 0 (-7) 8 906,
     G 3 4 0 (-2) 3 955, G 4 2 0 (-4) 4 967, G 3 2 0 (-2) 3 975, G 4 9 0 (-8) 3 981,
     G 6 9 0 (-8) 6 1017, G 5 8 1 (-8) 6 1071, G 6 8 0 (-8) 6 1111, G 6 9 0 (-8) 6 1159,
     G 6 8 0 (-8) 6 1213, G 6 9 0 (-8) 6 1261, G 6 9 0 (-8) 6 1315, G 6 8 0 (-8) 6 1369,
     G 6 9 0 (-8) 6 1417, G 6 9 0 (-8) 6 1471, G 2 6 1 (-6) 4 1525, G 3 8 0 (-6) 4 1537,
     G 7 6 0 (-6) 8 1561, G 7 4 0 (-5) 8 1603, G 7 6 0 (-6) 8 1631, G 5 8 0 (-8) 5 1673,
     G 9 10 0 (-8) 9 1713, G 7 8 0 (-8) 7 1803, G 7 8 0 (-8) 7 1859, G 7 9 0 (-8) 7 1915,
     G 7 8 0 (-8) 7 1978, G 6 8 0 (-8) 6 2034, G 6 8 0 (-8) 6 2082, G 7 9 0 (-8) 7 2130,
     G 7 8 0 (-8) 8 2193, G 3 8 0 (-8) 3 2249, G 4 10 (-1) (-8) 3 2273, G 8 8 0 (-8) 7 2313,
     G 6 8 0 (-8) 6 2377, G 9 8 0 (-8) 9 2425, G 7 8 0 (-8) 8 2497, G 8 9 0 (-8) 8 2553,
     G 7 8 0 (-8) 7 2625, G 8 10 0 (-8) 8 2681, G 7 8 0 (-8) 7 2761, G 6 9 0 (-8) 6 2817,
     G 7 8 0 (-8) 6 2871, G 7 9 0 (-8) 7 2927, G 7 8 0 (-8) 7 2990, G 10 8 0 (-8) 10 3046,
     G 7 8 0 (-8) 7 3126, G 8 8 (-1) (-8) 7 3182, G 7 8 0 (-8) 7 3246, G 4 10 0 (-8) 4 3302,
     G 4 9 0 (-8) 3 3342, G 4 10 0 (-8) 4 3378, G 7 4 0 (-8) 8 3418, G 5 2 0 1 4 3446,
     G 3 2 0 (-8) 4 3456, G 6 7 0 (-6) 6 3462, G 7 9 0 (-8) 6 3504, G 5 7 0 (-6) 5 3567,
     G 6 9 0 (-8) 6 3602, G 6 7 0 (-6) 6 3656, G 4 8 0 (-8) 4 3698, G 6 9 0 (-6) 6 3730,
     G 6 8 0 (-8) 6 3784, G 3 8 0 (-8) 3 3832, G 4 11 (-1) (-8) 3 3856, G 7 8 0 (-8) 6 3900,
     G 3 8 0 (-8) 3 3956, G 9 6 0 (-6) 9 3980, G 6 6 0 (-6) 6 4034, G 6 7 0 (-6) 6 4070,
     G 7 9 0 (-6) 6 4112, G 6 9 0 (-6) 6 4175, G 5 6 0 (-6) 4 4229, G 5 7 0 (-6) 5 4259,
     G 5 8 0 (-8) 4 4294, G 6 7 0 (-6) 6 4334, G 6 6 0 (-6) 6 4376, G 8 6 0 (-6) 8 4412,
     G 6 6 0 (-6) 6 4460, G 6 9 0 (-6) 6 4496, G 5 6 0 (-6) 5 4550, G 5 10 1 (-8) 6 4580,
     G 2 11 1 (-8) 3 4630, G 5 10 1 (-8) 6 4652, G 7 3 0 (-5) 8 4702]"

definition qdos_padfont_glyph :: "qdos_padface \<Rightarrow> char \<Rightarrow> qdos_padglyph option" where
  "qdos_padfont_glyph face ch =
     (if code ch < QDOS_PADFONT_FIRST \<or> QDOS_PADFONT_LAST < code ch then None
      else Some ((if face = QDOS_PADFACE_SHIFT then GLYPHS_SHIFT else GLYPHS_CAP) ! (code ch - QDOS_PADFONT_FIRST)))"

fun qdos_padfont_cap_height :: "qdos_padface \<Rightarrow> int" where
  "qdos_padfont_cap_height QDOS_PADFACE_CAP = 10"
| "qdos_padfont_cap_height QDOS_PADFACE_SHIFT = 8"

fun qdos_padfont_advance :: "qdos_padface \<Rightarrow> cstring \<Rightarrow> int" where
  "qdos_padfont_advance face [] = 0"
| "qdos_padfont_advance face (c # cs) =
     (case qdos_padfont_glyph face c of None \<Rightarrow> 0 | Some g \<Rightarrow> gl_advance g) + qdos_padfont_advance face cs"

text \<open>What a blob of coverage must hold for a face: a byte for each pixel of each glyph.\<close>

definition holds_glyphs :: "nat \<Rightarrow> qdos_padglyph list \<Rightarrow> bool" where
  "holds_glyphs n gs \<longleftrightarrow> list_all (\<lambda>g. gl_offset g + gl_w g * gl_h g \<le> n) gs"

lemma length_glyphs: "length GLYPHS_CAP = 126" "length GLYPHS_SHIFT = 126"
  by (simp_all add: GLYPHS_CAP_def GLYPHS_SHIFT_def)

lemma glyph_in_table:
  "qdos_padfont_glyph face ch = Some g \<Longrightarrow> g \<in> set (if face = QDOS_PADFACE_SHIFT then GLYPHS_SHIFT else GLYPHS_CAP)"
  by (auto simp: qdos_padfont_glyph_def QDOS_PADFONT_FIRST_def QDOS_PADFONT_LAST_def length_glyphs
      split: if_splits intro!: nth_mem)

lemma glyphs_held: "holds_glyphs 7353 GLYPHS_CAP" "holds_glyphs 4723 GLYPHS_SHIFT"
  by code_simp+

end
