(* ===== verification/PadDraw.thy ===== *)
theory PadDraw
  imports Keypad PadFont "HOL-Library.Signed_Division"
begin

text \<open>
  Drawing the keypad and its case (\<^verbatim>\<open>src/hal/sim/keypad_ui.c\<close>) into an RGB buffer.

  A drawing command takes the bytes of the buffer to the bytes it leaves, or to \<open>None\<close> where a
  write, or a read of the font's coverage, would be out of range. The buffer and the coverage
  blobs are the caller's, an argument of the commands. Coordinates are \<open>int\<close>, and \<open>/\<close> is
  C's division, towards zero.
\<close>

type_synonym colour = "8 word list"
type_synonym draw = "8 word list \<Rightarrow> 8 word list option"

definition then_draw :: "draw \<Rightarrow> draw \<Rightarrow> draw" where
  "then_draw f g buf = (case f buf of None \<Rightarrow> None | Some buf' \<Rightarrow> g buf')"

fun for_each :: "'a list \<Rightarrow> ('a \<Rightarrow> draw) \<Rightarrow> draw" where
  "for_each [] f = Some"
| "for_each (x # xs) f = then_draw (f x) (for_each xs f)"

definition in_turn :: "draw list \<Rightarrow> draw" where
  "in_turn ds = for_each ds (\<lambda>d. d)"

text \<open>The rows or columns of a loop from \<open>a\<close> to below \<open>b\<close>.\<close>

abbreviation (input) rows :: "int \<Rightarrow> int \<Rightarrow> int list" where
  "rows a b \<equiv> [a..b - 1]"

section \<open>Pixels\<close>

record canvas =
  cv_stride :: int
  cv_left :: int
  cv_right :: int
  cv_top :: int
  cv_bottom :: int

definition inside :: "canvas \<Rightarrow> int \<Rightarrow> int \<Rightarrow> bool" where
  "inside cv x y \<longleftrightarrow> cv_left cv \<le> x \<and> x < cv_right cv \<and> cv_top cv \<le> y \<and> y < cv_bottom cv"

text \<open>The three bytes of a pixel, changed in place.\<close>

definition pixel_at :: "canvas \<Rightarrow> int \<Rightarrow> int \<Rightarrow> int" where
  "pixel_at cv x y = (y * cv_stride cv + x) * 3"

definition on_pixel :: "canvas \<Rightarrow> int \<Rightarrow> int \<Rightarrow> (colour \<Rightarrow> colour) \<Rightarrow> draw" where
  "on_pixel cv x y f buf =
     (if \<not> inside cv x y then Some buf
      else let at = pixel_at cv x y
           in if at < 0 \<or> int (length buf) < at + 3 then None
              else let p = f [buf ! nat at, buf ! nat (at + 1), buf ! nat (at + 2)]
                   in Some (buf[nat at := p ! 0, nat (at + 1) := p ! 1, nat (at + 2) := p ! 2]))"

definition byte_of_int :: "int \<Rightarrow> 8 word" where
  "byte_of_int n = word_of_int n"

definition px :: "canvas \<Rightarrow> int \<Rightarrow> int \<Rightarrow> colour \<Rightarrow> draw" where
  "px cv x y c = on_pixel cv x y (\<lambda>p. c)"

definition px_shade :: "canvas \<Rightarrow> int \<Rightarrow> int \<Rightarrow> int \<Rightarrow> draw" where
  "px_shade cv x y percent = on_pixel cv x y (map (\<lambda>b. byte_of_int (uint b * percent sdiv 100)))"

definition mix :: "colour \<Rightarrow> colour \<Rightarrow> int \<Rightarrow> int \<Rightarrow> colour" where
  "mix a b num den = map2 (\<lambda>p q. byte_of_int (uint p + (uint q - uint p) * num sdiv den)) a b"

definition px_blend :: "canvas \<Rightarrow> int \<Rightarrow> int \<Rightarrow> colour \<Rightarrow> int \<Rightarrow> draw" where
  "px_blend cv x y c alpha =
     (if alpha \<le> 0 then Some
      else if 255 \<le> alpha then px cv x y c
      else on_pixel cv x y (\<lambda>p. map2 (\<lambda>a b. byte_of_int ((uint a * alpha + uint b * (255 - alpha)) sdiv 255)) c p))"

section \<open>Shapes\<close>

definition fill :: "canvas \<Rightarrow> int \<Rightarrow> int \<Rightarrow> int \<Rightarrow> int \<Rightarrow> colour \<Rightarrow> draw" where
  "fill cv x0 y0 w h c = for_each (rows y0 (y0 + h)) (\<lambda>y. for_each (rows x0 (x0 + w)) (\<lambda>x. px cv x y c))"

definition gradient :: "canvas \<Rightarrow> int \<Rightarrow> int \<Rightarrow> int \<Rightarrow> int \<Rightarrow> colour \<Rightarrow> colour \<Rightarrow> draw" where
  "gradient cv x0 y0 w h upper lower =
     for_each (rows 0 h) (\<lambda>y. fill cv x0 (y0 + y) w 1 (mix upper lower y (if 1 < h then h - 1 else 1)))"

definition CORNER :: "int list" where "CORNER = [3, 1, 0]"

text \<open>
  How far in a row starts. A row just outside the shape reads the table before its start: what is
  found there is \<open>stray\<close>, an argument.
\<close>

definition inset_at :: "int \<Rightarrow> int \<Rightarrow> int \<Rightarrow> int" where
  "inset_at stray row h =
     (let nearest = (if row < h - 1 - row then row else h - 1 - row)
      in if nearest < int (length CORNER) then if nearest < 0 then stray else CORNER ! nat nearest else 0)"

definition rounded_gradient :: "int \<Rightarrow> canvas \<Rightarrow> int \<Rightarrow> int \<Rightarrow> int \<Rightarrow> int \<Rightarrow> colour \<Rightarrow> colour \<Rightarrow> draw" where
  "rounded_gradient stray cv x0 y0 w h upper lower =
     for_each (rows 0 h) (\<lambda>y.
       let k = inset_at stray y h
       in fill cv (x0 + k) (y0 + y) (w - 2 * k) 1 (mix upper lower y (if 1 < h then h - 1 else 1)))"

definition rounded_outline :: "int \<Rightarrow> canvas \<Rightarrow> int \<Rightarrow> int \<Rightarrow> int \<Rightarrow> int \<Rightarrow> colour \<Rightarrow> draw" where
  "rounded_outline stray cv x0 y0 w h c =
     for_each (rows 0 h) (\<lambda>y.
       let k = inset_at stray y h; above = inset_at stray (y - 1) h; below = inset_at stray (y + 1) h
       in in_turn [
            if y = 0 \<or> k < above then fill cv (x0 + k) (y0 + y) (w - 2 * k) 1 c else Some,
            if y = h - 1 \<or> k < below then fill cv (x0 + k) (y0 + y) (w - 2 * k) 1 c
            else in_turn [px cv (x0 + k) (y0 + y) c, px cv (x0 + w - 1 - k) (y0 + y) c]])"

definition rounded_shade :: "int \<Rightarrow> canvas \<Rightarrow> int \<Rightarrow> int \<Rightarrow> int \<Rightarrow> int \<Rightarrow> int \<Rightarrow> draw" where
  "rounded_shade stray cv x0 y0 w h percent =
     for_each (rows 0 h) (\<lambda>y.
       let k = inset_at stray y h
       in for_each (rows (x0 + k) (x0 + w - k)) (\<lambda>x. px_shade cv x (y0 + y) percent))"

definition rounded_outline_blend ::
    "int \<Rightarrow> canvas \<Rightarrow> int \<Rightarrow> int \<Rightarrow> int \<Rightarrow> int \<Rightarrow> colour \<Rightarrow> int \<Rightarrow> draw" where
  "rounded_outline_blend stray cv x0 y0 w h c alpha =
     for_each (rows 0 h) (\<lambda>y.
       let k = inset_at stray y h
       in if y = 0 \<or> y = h - 1 \<or> k < inset_at stray (y - 1) h \<or> k < inset_at stray (y + 1) h then
            for_each (rows (x0 + k) (x0 + w - k)) (\<lambda>x. px_blend cv x (y0 + y) c alpha)
          else in_turn [px_blend cv (x0 + k) (y0 + y) c alpha, px_blend cv (x0 + w - 1 - k) (y0 + y) c alpha])"

section \<open>Text\<close>

text \<open>The byte of coverage at an offset, for what blends with it.\<close>

definition covered :: "8 word list \<Rightarrow> nat \<Rightarrow> (int \<Rightarrow> draw) \<Rightarrow> draw" where
  "covered blob i f = (if i < length blob then f (uint (blob ! i)) else (\<lambda>buf. None))"

fun label_from ::
    "(qdos_padface \<Rightarrow> 8 word list) \<Rightarrow> canvas \<Rightarrow> qdos_padface \<Rightarrow> int \<Rightarrow> int \<Rightarrow> cstring \<Rightarrow> colour \<Rightarrow> draw" where
  "label_from coverage cv face pen baseline [] c = Some"
| "label_from coverage cv face pen baseline (ch # cs) c =
     (case qdos_padfont_glyph face ch of
        None \<Rightarrow> label_from coverage cv face pen baseline cs c
      | Some g \<Rightarrow>
          then_draw
            (for_each [0..<gl_h g] (\<lambda>gy. for_each [0..<gl_w g] (\<lambda>gx.
               covered (coverage face) (gl_offset g + gy * gl_w g + gx)
                 (px_blend cv (pen + gl_bx g + int gx) (baseline + gl_by g + int gy) c))))
            (label_from coverage cv face (pen + gl_advance g) baseline cs c))"

section \<open>Colours\<close>

definition FRAME_TOP :: colour where "FRAME_TOP = [0x33, 0x36, 0x33]"
definition FRAME_BOTTOM :: colour where "FRAME_BOTTOM = [0x1C, 0x1E, 0x1C]"
definition CASE_TOP :: colour where "CASE_TOP = [0x26, 0x28, 0x26]"
definition CASE_BOTTOM :: colour where "CASE_BOTTOM = [0x15, 0x16, 0x15]"
definition BEZEL_SEAM :: colour where "BEZEL_SEAM = [0x08, 0x09, 0x08]"
definition BEZEL_LIGHT :: colour where "BEZEL_LIGHT = [0x3C, 0x3F, 0x3C]"
definition FACE_TOP :: colour where "FACE_TOP = [0x5B, 0x5F, 0x5A]"
definition FACE_BOTTOM :: colour where "FACE_BOTTOM = [0x2F, 0x32, 0x2F]"
definition DIGIT_TOP :: colour where "DIGIT_TOP = [0x6A, 0x6E, 0x68]"
definition DIGIT_BOTTOM :: colour where "DIGIT_BOTTOM = [0x3B, 0x3F, 0x3A]"
definition SOFT_TOP :: colour where "SOFT_TOP = [0x44, 0x48, 0x46]"
definition SOFT_BOTTOM :: colour where "SOFT_BOTTOM = [0x25, 0x28, 0x27]"
definition OP_TOP :: colour where "OP_TOP = [0x4C, 0x54, 0x5D]"
definition OP_BOTTOM :: colour where "OP_BOTTOM = [0x2A, 0x2F, 0x35]"
definition SHIFT_TOP :: colour where "SHIFT_TOP = [0xBB, 0x9A, 0xF7]"
definition SHIFT_BOTTOM :: colour where "SHIFT_BOTTOM = [0x87, 0x6F, 0xB2]"
definition SHIFT_INK :: colour where "SHIFT_INK = [0xBB, 0x9A, 0xF7]"
definition SHIFT_INK_DIM :: colour where "SHIFT_INK_DIM = [0x63, 0x52, 0x83]"
definition ALPHA_INK :: colour where "ALPHA_INK = [0x7C, 0xD6, 0xBE]"
definition ALPHA_INK_DIM :: colour where "ALPHA_INK_DIM = [0x45, 0x7A, 0x6C]"
definition ENTER_TOP :: colour where "ENTER_TOP = [0x6C, 0x70, 0x6B]"
definition ENTER_BOTTOM :: colour where "ENTER_BOTTOM = [0x3C, 0x40, 0x3B]"
definition LIVE_TOP :: colour where "LIVE_TOP = [0x37, 0x6C, 0x60]"
definition LIVE_BOTTOM :: colour where "LIVE_BOTTOM = [0x1A, 0x38, 0x31]"
definition NAMEPLATE_INK :: colour where "NAMEPLATE_INK = [0xA6, 0xAC, 0xA4]"
definition KEYLINE :: colour where "KEYLINE = [0x0D, 0x0E, 0x0D]"
definition TEXT :: colour where "TEXT = [0xE8, 0xEB, 0xE4]"
definition TEXT_DIM :: colour where "TEXT_DIM = [0x6B, 0x6F, 0x6A]"
definition WHITE :: colour where "WHITE = [0xFF, 0xFF, 0xFF]"
definition RIPPLE :: colour where "RIPPLE = [0xD8, 0xF0, 0xE4]"

definition BEZEL_H :: int where "BEZEL_H = 3"
definition RIM_W :: int where "RIM_W = 3"

datatype key_group =
  GROUP_PLAIN | GROUP_SOFT | GROUP_DIGIT | GROUP_OP | GROUP_ENTER | GROUP_SHIFT | GROUP_ALPHA

definition group_of :: "nat \<Rightarrow> nat \<Rightarrow> key_group" where
  "group_of b row =
     (let key = pa_key (pb_plain (button b))
      in if row = 0 then GROUP_SOFT
         else if qdos_pad_modifier (Some b) = Some QDOS_PAD_SYMBOL then GROUP_SHIFT
         else if qdos_pad_modifier (Some b) = Some QDOS_PAD_ALPHA then GROUP_ALPHA
         else if key \<in> {QDOS_KEY_0, QDOS_KEY_1, QDOS_KEY_2, QDOS_KEY_3, QDOS_KEY_4, QDOS_KEY_5, QDOS_KEY_6,
                  QDOS_KEY_7, QDOS_KEY_8, QDOS_KEY_9, QDOS_KEY_DOT} then GROUP_DIGIT
         else if key \<in> {QDOS_KEY_ADD, QDOS_KEY_SUB, QDOS_KEY_MUL, QDOS_KEY_DIV} then GROUP_OP
         else if key = QDOS_KEY_ENTER then GROUP_ENTER
         else GROUP_PLAIN)"

datatype key_tint = TINT_NONE | TINT_SOFT | TINT_FULL

definition face_colours :: "key_group \<Rightarrow> key_tint \<Rightarrow> colour \<times> colour" where
  "face_colours grp tint =
     (let (base_top, base_bottom) =
            (case grp of
               GROUP_SOFT \<Rightarrow> (SOFT_TOP, SOFT_BOTTOM)
             | GROUP_DIGIT \<Rightarrow> (DIGIT_TOP, DIGIT_BOTTOM)
             | GROUP_OP \<Rightarrow> (OP_TOP, OP_BOTTOM)
             | GROUP_ENTER \<Rightarrow> (ENTER_TOP, ENTER_BOTTOM)
             | GROUP_SHIFT \<Rightarrow> (SHIFT_TOP, SHIFT_BOTTOM)
             | GROUP_ALPHA \<Rightarrow> (LIVE_TOP, LIVE_BOTTOM)
             | GROUP_PLAIN \<Rightarrow> (FACE_TOP, FACE_BOTTOM));
          den = (if tint = TINT_FULL then 1 else 4)
      in if tint = TINT_NONE then (base_top, base_bottom)
         else if grp = GROUP_SHIFT \<or> grp = GROUP_ALPHA then (mix base_top WHITE 1 3, mix base_bottom WHITE 1 3)
         else (mix base_top LIVE_TOP 1 den, mix base_bottom LIVE_BOTTOM 1 den))"

section \<open>The pad\<close>

definition draw_case :: "canvas \<Rightarrow> draw" where
  "draw_case cv = in_turn [
     gradient cv (cv_left cv) (cv_top cv + BEZEL_H) QDOS_PAD_W (QDOS_PAD_H - BEZEL_H) CASE_TOP CASE_BOTTOM,
     fill cv (cv_left cv) (cv_top cv) QDOS_PAD_W 1 BEZEL_SEAM,
     fill cv (cv_left cv) (cv_top cv + 1) QDOS_PAD_W 1 BEZEL_LIGHT,
     fill cv (cv_left cv) (cv_top cv + 2) QDOS_PAD_W 1 (mix BEZEL_LIGHT CASE_TOP 1 2),
     for_each (rows 0 RIM_W) (\<lambda>i.
       let shade = 62 + i * 12
       in in_turn [
            for_each (rows (cv_top cv + BEZEL_H) (cv_bottom cv)) (\<lambda>y.
              in_turn [px_shade cv (cv_left cv + i) y shade,
                       px_shade cv (cv_left cv + QDOS_PAD_W - 1 - i) y shade]),
            for_each (rows (cv_left cv) (cv_left cv + QDOS_PAD_W)) (\<lambda>x.
              px_shade cv x (cv_bottom cv - 1 - i) shade)])]"

definition draw_key ::
    "int \<Rightarrow> canvas \<Rightarrow> int \<Rightarrow> int \<Rightarrow> int \<Rightarrow> int \<Rightarrow> key_group \<Rightarrow> key_tint \<Rightarrow> bool \<Rightarrow> draw" where
  "draw_key stray cv x y w h grp tint pressed =
     (let (face_top, face_bottom) = face_colours grp tint;
          grad_top = (if pressed then mix face_bottom KEYLINE 1 5 else face_top);
          grad_bottom = (if pressed then mix face_top KEYLINE 2 5 else face_bottom);
          edge_top = (if pressed then mix grad_top KEYLINE 1 2 else mix face_top WHITE 1 4);
          edge_bottom = (if pressed then mix grad_bottom WHITE 1 8 else mix face_bottom KEYLINE 1 3);
          inset = CORNER ! 1
      in in_turn [
           if pressed then rounded_shade stray cv x (y + 1) w h 88
           else in_turn [rounded_shade stray cv (x - 1) (y + 3) (w + 2) h 84, rounded_shade stray cv x (y + 2) w h 66],
           rounded_outline stray cv x y w h KEYLINE,
           rounded_gradient stray cv (x + 1) (y + 1) (w - 2) (h - 2) grad_top grad_bottom,
           fill cv (x + 1 + inset) (y + 1) (w - 2 - 2 * inset) 1 edge_top,
           fill cv (x + 1 + inset) (y + h - 2) (w - 2 - 2 * inset) 1 edge_bottom])"

definition face_of :: "nat \<Rightarrow> qdos_pad_layer \<Rightarrow> qdos_pad_action option" where
  "face_of b layer =
     (if qdos_pad_modifier (Some b) \<noteq> None then Some (pb_plain (button b)) else qdos_pad_action_for (Some b) layer)"

definition QDOS_KEY_TRAVEL :: int where "QDOS_KEY_TRAVEL = 2"
definition QDOS_SHIFT_LABEL_BASELINE :: int where "QDOS_SHIFT_LABEL_BASELINE = 10"

definition tint_of :: "nat \<Rightarrow> qdos_pad_layer \<Rightarrow> key_tint" where
  "tint_of b layer =
     (let changed = layer = QDOS_PAD_ALPHA \<and> pa_label (pb_alpha (button b)) \<noteq> None \<or>
            layer = QDOS_PAD_SYMBOL \<and> pa_label (pb_symbol (button b)) \<noteq> None
      in if qdos_pad_modifier (Some b) = Some layer then TINT_FULL
         else if changed then TINT_SOFT else TINT_NONE)"

text \<open>The legends printed on the case above a key: its letter at the right, its shift at the left.\<close>

definition draw_legends ::
    "(qdos_padface \<Rightarrow> 8 word list) \<Rightarrow> canvas \<Rightarrow> int \<Rightarrow> int \<Rightarrow> qdos_pad_layer \<Rightarrow> nat \<Rightarrow> nat \<Rightarrow> nat \<Rightarrow> draw" where
  "draw_legends coverage cv x0 y0 layer b col row =
     (let left = qdos_pad_cell_left col row;
          right = qdos_pad_cell_left (col + 1) row;
          baseline = y0 + int row * QDOS_PAD_BUTTON_H + QDOS_SHIFT_LABEL_BASELINE;
          letter = (if qdos_pad_modifier (Some b) \<noteq> None then None else pa_label (pb_alpha (button b)));
          lw = (case letter of None \<Rightarrow> 0 | Some l \<Rightarrow> qdos_padfont_advance QDOS_PADFACE_SHIFT l)
      in in_turn [
           case letter of None \<Rightarrow> Some
           | Some l \<Rightarrow>
               label_from coverage cv QDOS_PADFACE_SHIFT (x0 + right - QDOS_KEY_INSET_X - lw) baseline l
                 (if layer = QDOS_PAD_ALPHA then ALPHA_INK else ALPHA_INK_DIM),
           case pa_label (pb_symbol (button b)) of None \<Rightarrow> Some
           | Some s \<Rightarrow>
               let sw = qdos_padfont_advance QDOS_PADFACE_SHIFT s;
                   room = right - left - (if letter \<noteq> None then 2 * (lw + QDOS_KEY_INSET_X) else 0);
                   sx = x0 + left + (if letter \<noteq> None then lw + QDOS_KEY_INSET_X else 0) + (room - sw) sdiv 2
               in label_from coverage cv QDOS_PADFACE_SHIFT sx baseline s
                    (if layer = QDOS_PAD_SYMBOL then SHIFT_INK else SHIFT_INK_DIM)])"

definition draw_cap ::
    "(qdos_padface \<Rightarrow> 8 word list) \<Rightarrow> canvas \<Rightarrow> int \<Rightarrow> int \<Rightarrow> int \<Rightarrow> int \<Rightarrow> qdos_pad_layer \<Rightarrow> nat \<Rightarrow> draw" where
  "draw_cap coverage cv x y kw kh layer b =
     (let shown = face_of b layer
      in case (case shown of Some a \<Rightarrow> pa_label a | None \<Rightarrow> pa_label (pb_plain (button b))) of
           None \<Rightarrow> Some
         | Some t \<Rightarrow>
             let width = qdos_padfont_advance QDOS_PADFACE_CAP t;
                 cap = qdos_padfont_cap_height QDOS_PADFACE_CAP
             in label_from coverage cv QDOS_PADFACE_CAP (x + (kw - width) sdiv 2) (y + (kh + cap) sdiv 2) t
                  (if shown \<noteq> None then TEXT else TEXT_DIM))"

definition draw_button ::
    "(qdos_padface \<Rightarrow> 8 word list) \<Rightarrow> int \<Rightarrow> canvas \<Rightarrow> int \<Rightarrow> int \<Rightarrow> qdos_pad_layer \<Rightarrow> nat option \<Rightarrow> nat \<Rightarrow> nat \<Rightarrow> draw" where
  "draw_button coverage stray cv x0 y0 layer pressed row col =
     (let b = row * QDOS_PAD_COLS + col;
          down = (pressed = Some b);
          (kx, ky, kw, kh) = qdos_pad_key_rect b;
          x = kx + x0;
          y = ky + y0 + (if down then QDOS_KEY_TRAVEL else 0)
      in in_turn [
           draw_legends coverage cv x0 y0 layer b col row,
           draw_key stray cv x y kw kh (group_of b row) (tint_of b layer) down,
           draw_cap coverage cv x y kw kh layer b])"

definition pad_canvas :: "int \<Rightarrow> int \<Rightarrow> int \<Rightarrow> canvas" where
  "pad_canvas stride_px x0 y0 =
     \<lparr>cv_stride = stride_px, cv_left = x0, cv_right = x0 + QDOS_PAD_W, cv_top = y0, cv_bottom = y0 + QDOS_PAD_H\<rparr>"

definition qdos_pad_draw ::
    "(qdos_padface \<Rightarrow> 8 word list) \<Rightarrow> int \<Rightarrow> int \<Rightarrow> int \<Rightarrow> int \<Rightarrow> qdos_pad_layer \<Rightarrow> nat option \<Rightarrow> draw" where
  "qdos_pad_draw coverage stray stride_px x0 y0 layer pressed =
     (let cv = pad_canvas stride_px x0 y0
      in in_turn [
           draw_case cv,
           for_each [0..<QDOS_PAD_ROWS] (\<lambda>row. for_each [0..<ROW_COLS ! row] (\<lambda>col.
             draw_button coverage stray cv x0 y0 layer pressed row col))])"

section \<open>The ring of a press\<close>

definition QDOS_RIPPLE_REACH :: int where "QDOS_RIPPLE_REACH = 10"

definition qdos_pad_draw_ripple :: "int \<Rightarrow> int \<Rightarrow> int \<Rightarrow> int \<Rightarrow> nat option \<Rightarrow> int \<Rightarrow> draw" where
  "qdos_pad_draw_ripple stray stride_px x0 y0 b progress =
     (if b = None \<or> progress < 0 \<or> 256 \<le> progress then Some
      else let cv = pad_canvas stride_px x0 y0;
               (kx, ky, w, h) = qdos_pad_key_rect (the b);
               x = kx + x0;
               y = ky + y0;
               left = 255 - progress;
               grow = 1 + (255 - left * left sdiv 255) * QDOS_RIPPLE_REACH sdiv 255;
               alpha = left * left sdiv 255 * 3 sdiv 4
           in in_turn [
                rounded_outline_blend stray cv (x - grow) (y - grow) (w + 2 * grow) (h + 2 * grow) RIPPLE alpha,
                rounded_outline_blend stray cv (x - grow + 1) (y - grow + 1) (w + 2 * grow - 2) (h + 2 * grow - 2)
                  RIPPLE (alpha sdiv 3)])"

section \<open>The case around the panel and the pad\<close>

definition QDOS_NAMEPLATE :: cstring where "QDOS_NAMEPLATE = ''r8 One''"

definition qdos_frame_draw :: "(qdos_padface \<Rightarrow> 8 word list) \<Rightarrow> int \<Rightarrow> draw" where
  "qdos_frame_draw coverage stride_px =
     (let cv = \<lparr>cv_stride = stride_px, cv_left = 0, cv_right = QDOS_WINDOW_W, cv_top = 0, cv_bottom = QDOS_WINDOW_H\<rparr>;
          rx = QDOS_PANEL_X - 1;
          ry = QDOS_PANEL_Y - 1;
          rw = QDOS_SCREEN_W + 2;
          rh = QDOS_SCREEN_H + QDOS_PAD_H + 2;
          lit = mix FRAME_TOP WHITE 1 5;
          fallen = mix FRAME_BOTTOM BEZEL_SEAM 1 2
      in in_turn [
           for_each (rows 0 QDOS_WINDOW_H) (\<lambda>y.
             let c = mix FRAME_TOP FRAME_BOTTOM y (QDOS_WINDOW_H - 1)
             in if y < ry \<or> ry + rh \<le> y then fill cv 0 y QDOS_WINDOW_W 1 c
                else in_turn [fill cv 0 y rx 1 c, fill cv (rx + rw) y (QDOS_WINDOW_W - rx - rw) 1 c]),
           fill cv 0 0 QDOS_WINDOW_W 1 lit,
           fill cv 0 0 1 QDOS_WINDOW_H lit,
           fill cv 0 (QDOS_WINDOW_H - 1) QDOS_WINDOW_W 1 fallen,
           fill cv (QDOS_WINDOW_W - 1) 0 1 QDOS_WINDOW_H fallen,
           fill cv rx ry rw 1 BEZEL_SEAM,
           fill cv rx (ry + rh - 1) rw 1 BEZEL_SEAM,
           fill cv rx ry 1 rh BEZEL_SEAM,
           fill cv (rx + rw - 1) ry 1 rh BEZEL_SEAM,
           label_from coverage cv QDOS_PADFACE_CAP QDOS_PANEL_X
             ((QDOS_PANEL_Y - 1 + qdos_padfont_cap_height QDOS_PADFACE_CAP) sdiv 2) QDOS_NAMEPLATE NAMEPLATE_INK])"

section \<open>What every drawing keeps\<close>

text \<open>
  A property of drawing commands that doing nothing has, that one after another keeps, and that a
  change of a pixel has where the pixel is one it allows. Shapes, text and the pad's parts then
  have it.
\<close>

locale drawing_rule =
  fixes good :: "draw \<Rightarrow> bool" and cv :: canvas and allowed :: "int \<Rightarrow> int \<Rightarrow> bool"
  assumes good_nothing: "good Some"
    and good_then: "good f \<Longrightarrow> good g \<Longrightarrow> good (then_draw f g)"
    and good_pixel: "(inside cv x y \<Longrightarrow> allowed x y) \<Longrightarrow> good (on_pixel cv x y u)"
begin

lemma good_for_each: "(\<And>x. x \<in> set xs \<Longrightarrow> good (f x)) \<Longrightarrow> good (for_each xs f)"
  by (induction xs) (simp_all add: good_nothing good_then)

lemma good_in_turn: "list_all good ds \<Longrightarrow> good (in_turn ds)"
  unfolding in_turn_def by (rule good_for_each) (simp add: list_all_iff)

lemma good_px: "(inside cv x y \<Longrightarrow> allowed x y) \<Longrightarrow> good (px cv x y c)"
  unfolding px_def by (rule good_pixel)

lemma good_blend: "(inside cv x y \<Longrightarrow> allowed x y) \<Longrightarrow> good (px_blend cv x y c a)"
  by (auto simp: px_blend_def good_nothing intro: good_px good_pixel)

lemma good_fill:
  assumes "\<And>x y. x0 \<le> x \<Longrightarrow> x < x0 + w \<Longrightarrow> y0 \<le> y \<Longrightarrow> y < y0 + h \<Longrightarrow> inside cv x y \<Longrightarrow> allowed x y"
  shows "good (fill cv x0 y0 w h c)"
  unfolding fill_def by (intro good_for_each good_px assms) auto

lemma good_label:
  assumes "\<And>face. holds_glyphs (length (coverage face)) (if face = QDOS_PADFACE_SHIFT then GLYPHS_SHIFT else GLYPHS_CAP)"
    and "\<And>x y ch g. ch \<in> set s \<Longrightarrow> qdos_padfont_glyph face ch = Some g \<Longrightarrow> y < baseline + gl_by g + int (gl_h g) \<Longrightarrow>
      inside cv x y \<Longrightarrow> allowed x y"
  shows "good (label_from coverage cv face pen baseline s c)"
  using assms(2)
proof (induction s arbitrary: pen)
  case Nil
  then show ?case by (simp add: good_nothing)
next
  case (Cons ch cs)
  have rest: "good (label_from coverage cv face p baseline cs c)" for p
    by (rule Cons.IH) (rule Cons.prems [OF list.set_intros(2)])
  show ?case
  proof (cases "qdos_padfont_glyph face ch")
    case None
    then show ?thesis using rest by simp
  next
    case (Some g)
    have held: "gl_offset g + gl_w g * gl_h g \<le> length (coverage face)"
      using assms(1) [of face] glyph_in_table [OF Some] by (auto simp: holds_glyphs_def list_all_iff split: if_splits)
    have "good (covered (coverage face) (gl_offset g + gy * gl_w g + gx)
        (px_blend cv (pen + gl_bx g + int gx) (baseline + gl_by g + int gy) c))"
      if gy: "gy < gl_h g" and gx: "gx < gl_w g" for gx gy
    proof -
      have "gy * gl_w g + gl_w g \<le> gl_h g * gl_w g"
        using mult_le_mono1 [of "Suc gy" "gl_h g" "gl_w g"] gy by simp
      then have "gl_offset g + gy * gl_w g + gx < length (coverage face)"
        using held gx by (simp add: mult.commute)
      moreover have "allowed x (baseline + gl_by g + int gy)" if "inside cv x (baseline + gl_by g + int gy)" for x
        using Cons.prems [of ch g "baseline + gl_by g + int gy" x] Some gy that by simp
      ultimately show ?thesis by (auto simp: covered_def intro!: good_blend)
    qed
    then show ?thesis using Some rest by (auto intro!: good_then good_for_each)
  qed
qed

end

text \<open>Where the whole canvas is allowed, everything that draws on it has the property.\<close>

locale pad_drawing = drawing_rule +
  assumes whole: "inside cv x y \<Longrightarrow> allowed x y"
begin

lemma good_shade: "good (px_shade cv x y s)"
  unfolding px_shade_def by (rule good_pixel) (rule whole)

lemmas good_all = good_nothing good_then good_for_each good_in_turn good_shade
  good_px [OF whole] good_blend [OF whole] good_fill [OF whole]

lemma good_shapes:
  "good (gradient cv x y w h c d)" "good (rounded_gradient stray cv x y w h c d)"
  "good (rounded_outline stray cv x y w h c)" "good (rounded_shade stray cv x y w h s)"
  "good (rounded_outline_blend stray cv x y w h c a)"
  unfolding gradient_def rounded_gradient_def rounded_outline_def rounded_shade_def rounded_outline_blend_def Let_def
  by (auto intro!: good_all)

lemma good_case: "good (draw_case cv)"
  unfolding draw_case_def Let_def by (auto intro!: good_all good_shapes)

lemma good_key: "good (draw_key stray cv x y w h grp tint down)"
  unfolding draw_key_def Let_def by (auto intro!: good_all good_shapes split: prod.split)

lemma good_button:
  assumes "\<And>face. holds_glyphs (length (coverage face)) (if face = QDOS_PADFACE_SHIFT then GLYPHS_SHIFT else GLYPHS_CAP)"
  shows "good (draw_button coverage stray cv x0 y0 layer pressed row col)"
proof -
  have label: "good (label_from coverage cv face pen baseline s c)" for face pen baseline s c
    by (rule good_label [OF assms]) (rule whole)
  have "good (draw_legends coverage cv x0 y0 layer b col row)" for b
    unfolding draw_legends_def Let_def
    by (intro good_in_turn) (simp add: label good_nothing split: option.split)
  moreover have "good (draw_cap coverage cv x y kw kh layer b)" for x y kw kh b
    unfolding draw_cap_def Let_def by (simp add: label good_nothing split: option.split)
  ultimately show ?thesis
    unfolding draw_button_def Let_def by (cases "qdos_pad_key_rect (row * QDOS_PAD_COLS + col)") (simp add: good_in_turn good_key)
qed

end

section \<open>Drawing within bounds\<close>

text \<open>
  A canvas fits a buffer when the rectangle is on the rows of it. What is drawn keeps the rest of
  the buffer: it succeeds, and every byte of a pixel that is not allowed is as it was.
\<close>

definition fits_in :: "canvas \<Rightarrow> 8 word list \<Rightarrow> bool" where
  "fits_in cv buf \<longleftrightarrow> 0 \<le> cv_left cv \<and> cv_right cv \<le> cv_stride cv \<and> 0 \<le> cv_top cv \<and>
     cv_bottom cv * cv_stride cv * 3 \<le> int (length buf)"

definition at_pixel :: "canvas \<Rightarrow> 8 word list \<Rightarrow> int \<Rightarrow> int \<Rightarrow> colour" where
  "at_pixel cv buf x y = map (\<lambda>c. buf ! nat (pixel_at cv x y + c)) [0, 1, 2]"

definition on_row :: "canvas \<Rightarrow> int \<Rightarrow> int \<Rightarrow> bool" where
  "on_row cv x y \<longleftrightarrow> 0 \<le> x \<and> x < cv_stride cv \<and> 0 \<le> y"

definition untouched :: "canvas \<Rightarrow> (int \<Rightarrow> int \<Rightarrow> bool) \<Rightarrow> 8 word list \<Rightarrow> 8 word list \<Rightarrow> bool" where
  "untouched cv allowed buf buf' \<longleftrightarrow> length buf' = length buf \<and>
     (\<forall>x y. on_row cv x y \<longrightarrow> \<not> allowed x y \<longrightarrow> at_pixel cv buf' x y = at_pixel cv buf x y)"

definition keeps :: "canvas \<Rightarrow> (int \<Rightarrow> int \<Rightarrow> bool) \<Rightarrow> draw \<Rightarrow> bool" where
  "keeps cv allowed f \<longleftrightarrow>
     (\<forall>buf. fits_in cv buf \<longrightarrow> (\<exists>buf'. f buf = Some buf' \<and> untouched cv allowed buf buf'))"

lemma fits_in_length: "fits_in cv buf \<Longrightarrow> length buf' = length buf \<Longrightarrow> fits_in cv buf'"
  by (simp add: fits_in_def)

lemma inside_on_row: "fits_in cv buf \<Longrightarrow> inside cv x y \<Longrightarrow> on_row cv x y"
  by (auto simp: fits_in_def inside_def on_row_def)

lemma inside_in_range:
  assumes "fits_in cv buf" and "inside cv x y"
  shows "0 \<le> pixel_at cv x y" and "pixel_at cv x y + 3 \<le> int (length buf)"
proof -
  have b: "0 \<le> x" "x < cv_stride cv" "0 \<le> y" "y + 1 \<le> cv_bottom cv"
    using assms by (auto simp: fits_in_def inside_def)
  then show "0 \<le> pixel_at cv x y" by (simp add: pixel_at_def)
  have "(y + 1) * cv_stride cv \<le> cv_bottom cv * cv_stride cv" using b by (intro mult_right_mono) auto
  then show "pixel_at cv x y + 3 \<le> int (length buf)"
    using assms(1) b(2) by (simp add: fits_in_def pixel_at_def algebra_simps)
qed

lemma pixel_at_inj:
  assumes "on_row cv x y" and "on_row cv x' y'" and "pixel_at cv x y = pixel_at cv x' y'"
  shows "x = x' \<and> y = y'"
proof -
  have e: "x + y * cv_stride cv = x' + y' * cv_stride cv" using assms(3) by (simp add: pixel_at_def algebra_simps)
  have "(x + y * cv_stride cv) mod cv_stride cv = x" "(x' + y' * cv_stride cv) mod cv_stride cv = x'"
    using assms(1,2) by (simp_all add: on_row_def)
  with e have "x = x'" by simp
  moreover have "cv_stride cv \<noteq> 0" using assms(1) by (auto simp: on_row_def)
  ultimately show ?thesis using e by simp
qed

text \<open>A change of a pixel leaves the others alone, and depends on nothing but the pixel.\<close>

lemma on_pixel_outside: "\<not> inside cv x y \<Longrightarrow> on_pixel cv x y f buf = Some buf"
  by (simp add: on_pixel_def)

lemma on_pixel_inside:
  assumes "fits_in cv buf" and "inside cv x y"
  obtains buf' where "on_pixel cv x y f buf = Some buf'" and "length buf' = length buf"
    and "at_pixel cv buf' x y = [f (at_pixel cv buf x y) ! 0, f (at_pixel cv buf x y) ! 1, f (at_pixel cv buf x y) ! 2]"
    and "\<And>x' y'. on_row cv x' y' \<Longrightarrow> x' \<noteq> x \<or> y' \<noteq> y \<Longrightarrow> at_pixel cv buf' x' y' = at_pixel cv buf x' y'"
proof -
  let ?at = "pixel_at cv x y" and ?p = "f (at_pixel cv buf x y)"
  note r = inside_in_range [OF assms]
  obtain n where n: "?at = int n" using r(1) by (elim nonneg_int_cases)
  have i: "nat ?at = n" "nat (?at + 1) = n + 1" "nat (?at + 2) = n + 2" by (simp_all add: n nat_add_distrib)
  have l: "n + 2 < length buf" using r(2) n by simp
  let ?buf = "buf[n := ?p ! 0, n + 1 := ?p ! 1, n + 2 := ?p ! 2]"
  have "at_pixel cv buf x y = [buf ! n, buf ! (n + 1), buf ! (n + 2)]"
    unfolding at_pixel_def by (simp only: list.map i add_0_right)
  then have "on_pixel cv x y f buf = Some ?buf"
    using r assms(2) by (simp add: on_pixel_def Let_def i)
  moreover have "at_pixel cv ?buf x y = [?p ! 0, ?p ! 1, ?p ! 2]"
    using l unfolding at_pixel_def by (simp only: list.map i add_0_right) simp
  moreover have "at_pixel cv ?buf x' y' = at_pixel cv buf x' y'" if "on_row cv x' y'" "x' \<noteq> x \<or> y' \<noteq> y" for x' y'
  proof -
    have ne: "pixel_at cv x' y' \<noteq> ?at" using pixel_at_inj [OF that(1) inside_on_row [OF assms]] that(2) by auto
    have "0 \<le> y' * cv_stride cv + x'" using that(1) by (simp add: on_row_def)
    then obtain m where m: "y' * cv_stride cv + x' = int m" by (elim nonneg_int_cases)
    have nk: "(y * cv_stride cv + x) * 3 = int n" using n by (simp add: pixel_at_def)
    have "0 \<le> y * cv_stride cv + x" using inside_on_row [OF assms] by (simp add: on_row_def)
    then obtain k where k: "y * cv_stride cv + x = int k" by (elim nonneg_int_cases)
    have n3: "n = k * 3" using nk unfolding k by linarith
    have m3: "pixel_at cv x' y' = int m * 3" by (simp add: pixel_at_def m)
    have "m \<noteq> k" using ne m k by (simp add: pixel_at_def)
    have j: "nat (pixel_at cv x' y' + c) \<noteq> d" if "c \<in> {0, 1, 2}" "d \<in> {n, n + 1, n + 2}" for c d
    proof -
      have "\<exists>i<3. nat (pixel_at cv x' y' + c) = m * 3 + i" using that(1) unfolding m3
        by (auto simp: nat_add_distrib nat_mult_distrib)
      then obtain i where "i < 3" "nat (pixel_at cv x' y' + c) = m * 3 + i" by auto
      moreover have "\<exists>i<3. d = k * 3 + i" using that(2) n3 by auto
      then obtain i' where "i' < 3" "d = k * 3 + i'" by auto
      ultimately show ?thesis using \<open>m \<noteq> k\<close> by linarith
    qed
    have "?buf ! nat (pixel_at cv x' y' + c) = buf ! nat (pixel_at cv x' y' + c)" if "c \<in> {0, 1, 2}" for c
      using j [OF that, of n] j [OF that, of "n + 1"] j [OF that, of "n + 2"] by simp
    then show ?thesis by (simp only: at_pixel_def [of _ _ x' y']) (intro map_cong refl; simp)
  qed
  ultimately show ?thesis by (intro that [of ?buf]) simp_all
qed

lemma keeps_pixel:
  assumes "inside cv x y \<Longrightarrow> allowed x y"
  shows "keeps cv allowed (on_pixel cv x y f)"
  unfolding keeps_def
proof (intro allI impI)
  fix buf
  assume fit: "fits_in cv buf"
  show "\<exists>buf'. on_pixel cv x y f buf = Some buf' \<and> untouched cv allowed buf buf'"
  proof (cases "inside cv x y")
    case True
    then obtain buf' where "on_pixel cv x y f buf = Some buf'" "length buf' = length buf"
      "\<And>x' y'. on_row cv x' y' \<Longrightarrow> x' \<noteq> x \<or> y' \<noteq> y \<Longrightarrow> at_pixel cv buf' x' y' = at_pixel cv buf x' y'"
      using on_pixel_inside [OF fit, of x y f] by blast
    moreover from this have "untouched cv allowed buf buf'" using assms True by (auto simp: untouched_def)
    ultimately show ?thesis by blast
  next
    case False
    then show ?thesis by (simp add: on_pixel_outside untouched_def)
  qed
qed

lemma keeps_then:
  assumes "keeps cv allowed f" and "keeps cv allowed g"
  shows "keeps cv allowed (then_draw f g)"
  unfolding keeps_def
proof (intro allI impI)
  fix buf
  assume fit: "fits_in cv buf"
  obtain b1 where b1: "f buf = Some b1" "untouched cv allowed buf b1"
    using assms(1) fit by (auto simp: keeps_def)
  then have "fits_in cv b1" using fit by (auto simp: untouched_def intro: fits_in_length)
  then obtain b2 where b2: "g b1 = Some b2" "untouched cv allowed b1 b2"
    using assms(2) by (auto simp: keeps_def)
  have "untouched cv allowed buf b2" using b1(2) b2(2) by (simp add: untouched_def)
  then show "\<exists>b. then_draw f g buf = Some b \<and> untouched cv allowed buf b" by (simp add: then_draw_def b1 b2)
qed

lemma keeps_nothing: "keeps cv allowed Some"
  by (simp add: keeps_def untouched_def)

interpretation drawn: drawing_rule "keeps cv allowed" cv allowed for cv allowed
  by unfold_locales (fact keeps_nothing, fact keeps_then, fact keeps_pixel)

interpretation padded: pad_drawing "keeps cv (inside cv)" cv "inside cv" for cv
  by unfold_locales

section \<open>Painting over\<close>

text \<open>
  Two buffers that agree on the pixels of \<open>S\<close> agree on those of \<open>T\<close> after the command.
\<close>

definition agree :: "canvas \<Rightarrow> (int \<Rightarrow> int \<Rightarrow> bool) \<Rightarrow> 8 word list \<Rightarrow> 8 word list \<Rightarrow> bool" where
  "agree cv S b1 b2 \<longleftrightarrow> (\<forall>x y. on_row cv x y \<longrightarrow> S x y \<longrightarrow> at_pixel cv b1 x y = at_pixel cv b2 x y)"

definition paints :: "canvas \<Rightarrow> (int \<Rightarrow> int \<Rightarrow> bool) \<Rightarrow> (int \<Rightarrow> int \<Rightarrow> bool) \<Rightarrow> draw \<Rightarrow> bool" where
  "paints cv S T f \<longleftrightarrow>
     (\<forall>b1 b2. fits_in cv b1 \<longrightarrow> fits_in cv b2 \<longrightarrow> agree cv S b1 b2 \<longrightarrow>
        (\<exists>c1 c2. f b1 = Some c1 \<and> f b2 = Some c2 \<and> fits_in cv c1 \<and> fits_in cv c2 \<and> agree cv T c1 c2))"

lemma paints_then: "paints cv S T f \<Longrightarrow> paints cv T U g \<Longrightarrow> paints cv S U (then_draw f g)"
  unfolding paints_def then_draw_def by fastforce

lemma paints_nothing: "paints cv S S Some"
  by (simp add: paints_def)

lemma paints_conseq:
  assumes "paints cv S T f" and "\<And>x y. S x y \<Longrightarrow> S' x y" and "\<And>x y. T' x y \<Longrightarrow> T x y"
  shows "paints cv S' T' f"
  unfolding paints_def
proof (intro allI impI)
  fix b1 b2
  assume b: "fits_in cv b1" "fits_in cv b2" "agree cv S' b1 b2"
  then have "agree cv S b1 b2" using assms(2) by (auto simp: agree_def)
  then obtain c1 c2 where "f b1 = Some c1" "f b2 = Some c2" "fits_in cv c1" "fits_in cv c2" "agree cv T c1 c2"
    using assms(1) b(1,2) unfolding paints_def by blast
  moreover from this have "agree cv T' c1 c2" using assms(3) by (auto simp: agree_def)
  ultimately show "\<exists>c1 c2. f b1 = Some c1 \<and> f b2 = Some c2 \<and> fits_in cv c1 \<and> fits_in cv c2 \<and> agree cv T' c1 c2"
    by blast
qed

lemmas paints_weaken = paints_conseq [OF _ asm_rl]

lemma paints_pixel:
  assumes "inside cv x y \<Longrightarrow> S x y \<or> (\<forall>p q. u p = u q)"
  shows "paints cv S (\<lambda>x' y'. S x' y' \<or> inside cv x y \<and> x' = x \<and> y' = y) (on_pixel cv x y u)"
  unfolding paints_def
proof (intro allI impI)
  fix b1 b2
  assume fit: "fits_in cv b1" "fits_in cv b2" and ag: "agree cv S b1 b2"
  show "\<exists>c1 c2. on_pixel cv x y u b1 = Some c1 \<and> on_pixel cv x y u b2 = Some c2 \<and> fits_in cv c1 \<and> fits_in cv c2 \<and>
      agree cv (\<lambda>x' y'. S x' y' \<or> inside cv x y \<and> x' = x \<and> y' = y) c1 c2"
  proof (cases "inside cv x y")
    case True
    obtain c1 where c1: "on_pixel cv x y u b1 = Some c1" "length c1 = length b1"
      "at_pixel cv c1 x y = map ((!) (u (at_pixel cv b1 x y))) [0, 1, 2]"
      "\<And>x' y'. on_row cv x' y' \<Longrightarrow> x' \<noteq> x \<or> y' \<noteq> y \<Longrightarrow> at_pixel cv c1 x' y' = at_pixel cv b1 x' y'"
      using on_pixel_inside [OF fit(1) True, of u] by auto
    obtain c2 where c2: "on_pixel cv x y u b2 = Some c2" "length c2 = length b2"
      "at_pixel cv c2 x y = map ((!) (u (at_pixel cv b2 x y))) [0, 1, 2]"
      "\<And>x' y'. on_row cv x' y' \<Longrightarrow> x' \<noteq> x \<or> y' \<noteq> y \<Longrightarrow> at_pixel cv c2 x' y' = at_pixel cv b2 x' y'"
      using on_pixel_inside [OF fit(2) True, of u] by auto
    have "u (at_pixel cv b1 x y) = u (at_pixel cv b2 x y)"
      using assms True ag inside_on_row [OF fit(1) True] by (auto simp: agree_def)
    then have "at_pixel cv c1 x y = at_pixel cv c2 x y" using c1(3) c2(3) by simp
    then have "agree cv (\<lambda>x' y'. S x' y' \<or> inside cv x y \<and> x' = x \<and> y' = y) c1 c2"
      using c1(4) c2(4) ag unfolding agree_def by metis
    then show ?thesis using c1(1,2) c2(1,2) fit by (auto intro: fits_in_length)
  next
    case False
    then show ?thesis using fit ag by (simp add: on_pixel_outside)
  qed
qed

lemma paints_same: "(inside cv x y \<Longrightarrow> S x y) \<Longrightarrow> paints cv S S (on_pixel cv x y u)"
  by (rule paints_weaken [OF paints_pixel]) auto

interpretation painted: drawing_rule "paints cv S S" cv S for cv S
  by unfold_locales (fact paints_nothing, fact paints_then, fact paints_same)

interpretation repainted: pad_drawing "paints cv (inside cv) (inside cv)" cv "inside cv" for cv
  by unfold_locales

text \<open>A fill paints its rectangle, whatever was there.\<close>

lemma paints_for_each:
  assumes "\<And>i U. i \<in> set is \<Longrightarrow> paints cv U (\<lambda>x y. U x y \<or> P i x y) (f i)"
  shows "paints cv S (\<lambda>x y. S x y \<or> (\<exists>i \<in> set is. P i x y)) (for_each is f)"
  using assms
proof (induction "is" arbitrary: S)
  case Nil
  then show ?case by (simp add: paints_nothing)
next
  case (Cons i "is")
  have "paints cv S (\<lambda>x y. (S x y \<or> P i x y) \<or> (\<exists>i \<in> set is. P i x y)) (for_each (i # is) f)"
    unfolding for_each.simps
    by (rule paints_then, rule Cons.prems, simp, rule Cons.IH, rule Cons.prems, simp)
  then show ?case by (rule paints_weaken) auto
qed

definition rect :: "canvas \<Rightarrow> int \<Rightarrow> int \<Rightarrow> int \<Rightarrow> int \<Rightarrow> int \<Rightarrow> int \<Rightarrow> bool" where
  "rect cv x0 y0 w h x y \<longleftrightarrow> inside cv x y \<and> x0 \<le> x \<and> x < x0 + w \<and> y0 \<le> y \<and> y < y0 + h"

lemma paints_px: "paints cv S (\<lambda>x' y'. S x' y' \<or> inside cv x y \<and> x' = x \<and> y' = y) (px cv x y c)"
  unfolding px_def by (rule paints_pixel) simp

lemma paints_fill: "paints cv S (\<lambda>x y. S x y \<or> rect cv x0 y0 w h x y) (fill cv x0 y0 w h c)"
proof -
  have "paints cv S (\<lambda>x y. S x y \<or> (\<exists>y' \<in> set (rows y0 (y0 + h)). \<exists>x' \<in> set (rows x0 (x0 + w)).
      inside cv x' y' \<and> x = x' \<and> y = y')) (fill cv x0 y0 w h c)"
    unfolding fill_def by (intro paints_for_each paints_px)
  then show ?thesis by (rule paints_weaken) (auto simp: rect_def)
qed

lemma paints_gradient: "paints cv S (\<lambda>x y. S x y \<or> rect cv x0 y0 w h x y) (gradient cv x0 y0 w h c d)"
proof -
  have "paints cv S (\<lambda>x y. S x y \<or> (\<exists>r \<in> set (rows 0 h). rect cv x0 (y0 + r) w 1 x y)) (gradient cv x0 y0 w h c d)"
    unfolding gradient_def by (intro paints_for_each paints_fill)
  then show ?thesis
  proof (rule paints_weaken)
    fix x y
    assume "S x y \<or> rect cv x0 y0 w h x y"
    then show "S x y \<or> (\<exists>r \<in> set (rows 0 h). rect cv x0 (y0 + r) w 1 x y)"
      by (auto simp: rect_def intro!: bexI [of _ "y - y0"])
  qed
qed

lemma paints_case:
  assumes "cv_right cv = cv_left cv + QDOS_PAD_W" and "cv_bottom cv = cv_top cv + QDOS_PAD_H"
  shows "paints cv (\<lambda>x y. False) (inside cv) (draw_case cv)"
proof -
  note step = paints_then [OF paints_fill]
  have rest: "paints cv (inside cv) (inside cv)
     (then_draw (for_each (rows 0 RIM_W) (\<lambda>i. let shade = 62 + i * 12
       in in_turn [
            for_each (rows (cv_top cv + BEZEL_H) (cv_bottom cv)) (\<lambda>y.
              in_turn [px_shade cv (cv_left cv + i) y shade, px_shade cv (cv_left cv + QDOS_PAD_W - 1 - i) y shade]),
            for_each (rows (cv_left cv) (cv_left cv + QDOS_PAD_W)) (\<lambda>x. px_shade cv x (cv_bottom cv - 1 - i) shade)])) Some)"
    unfolding Let_def by (auto intro!: repainted.good_all)
  show ?thesis
    unfolding draw_case_def in_turn_def [of "_ # _ # _ # _ # _"] for_each.simps
    by (rule paints_then [OF paints_gradient], rule step, rule step, rule step, rule paints_conseq [OF rest])
      (use assms in \<open>auto simp: inside_def rect_def BEZEL_H_def\<close>)
qed

section \<open>The read before the table\<close>

lemma for_each_cong: "(\<And>x. x \<in> set xs \<Longrightarrow> f x = g x) \<Longrightarrow> for_each xs f = for_each xs g"
  by (induction xs) simp_all

lemma inset_stray: "0 \<le> row \<Longrightarrow> row < h \<Longrightarrow> inset_at s row h = inset_at t row h"
  by (simp add: inset_at_def Let_def)

lemma shapes_ignore_stray:
  "rounded_gradient s = rounded_gradient t" "rounded_shade s = rounded_shade t"
  unfolding rounded_gradient_def [abs_def] rounded_shade_def [abs_def]
  by (intro ext for_each_cong [THEN fun_cong], use inset_stray [of _ _ s t] in simp)+

text \<open>Where the stray byte is read, the other half of the condition decides.\<close>

lemma outlines_ignore_stray:
  "rounded_outline s = rounded_outline t" "rounded_outline_blend s = rounded_outline_blend t"
proof -
  have k: "inset_at s y h = inset_at t y h"
    and above: "y = 0 \<or> a < inset_at s (y - 1) h \<longleftrightarrow> y = 0 \<or> a < inset_at t (y - 1) h"
    and below: "y = h - 1 \<or> a < inset_at s (y + 1) h \<longleftrightarrow> y = h - 1 \<or> a < inset_at t (y + 1) h"
    if "0 \<le> y" "y < h" for y h a
  proof -
    have "y = 0 \<or> 0 < y" "y = h - 1 \<or> y + 1 < h" using that by auto
    then show "inset_at s y h = inset_at t y h"
      "y = 0 \<or> a < inset_at s (y - 1) h \<longleftrightarrow> y = 0 \<or> a < inset_at t (y - 1) h"
      "y = h - 1 \<or> a < inset_at s (y + 1) h \<longleftrightarrow> y = h - 1 \<or> a < inset_at t (y + 1) h"
      using that inset_stray [of y h s t] inset_stray [of "y - 1" h s t] inset_stray [of "y + 1" h s t] by auto
  qed
  show "rounded_outline s = rounded_outline t"
    unfolding rounded_outline_def [abs_def] Let_def
    by (intro ext for_each_cong [THEN fun_cong]) (simp only: set_upto atLeastAtMost_iff, simp add: k above below)
  have both: "y = 0 \<or> y = h - 1 \<or> a < inset_at s (y - 1) h \<or> a < inset_at s (y + 1) h \<longleftrightarrow>
      y = 0 \<or> y = h - 1 \<or> a < inset_at t (y - 1) h \<or> a < inset_at t (y + 1) h"
    if "0 \<le> y" "y < h" for y h a
    using above [OF that, of a] below [OF that, of a] by blast
  show "rounded_outline_blend s = rounded_outline_blend t"
    unfolding rounded_outline_blend_def [abs_def] Let_def
    by (intro ext for_each_cong [THEN fun_cong]) (simp only: set_upto atLeastAtMost_iff, simp add: k both)
qed

section \<open>Properties\<close>

text \<open>The blobs the font comes with are long enough for its tables.\<close>

definition font_ok :: "(qdos_padface \<Rightarrow> 8 word list) \<Rightarrow> bool" where
  "font_ok coverage \<longleftrightarrow>
     7353 \<le> length (coverage QDOS_PADFACE_CAP) \<and> 4723 \<le> length (coverage QDOS_PADFACE_SHIFT)"

lemma font_ok_holds:
  "font_ok coverage \<Longrightarrow> holds_glyphs (length (coverage face)) (if face = QDOS_PADFACE_SHIFT then GLYPHS_SHIFT else GLYPHS_CAP)"
  using glyphs_held by (cases face) (fastforce simp: font_ok_def holds_glyphs_def list_all_iff)+

lemma pad_draw_keeps: "font_ok coverage \<Longrightarrow>
    keeps (pad_canvas stride x0 y0) (inside (pad_canvas stride x0 y0)) (qdos_pad_draw coverage stray stride x0 y0 layer pressed)"
  unfolding qdos_pad_draw_def Let_def
  by (auto intro!: padded.good_all padded.good_case padded.good_button font_ok_holds)

lemma ripple_keeps:
  "keeps (pad_canvas stride x0 y0) (inside (pad_canvas stride x0 y0)) (qdos_pad_draw_ripple stray stride x0 y0 b progress)"
  unfolding qdos_pad_draw_ripple_def Let_def
  by (auto intro!: padded.good_all padded.good_shapes split: prod.split)


definition blank_font :: "qdos_padface \<Rightarrow> 8 word list" where
  "blank_font face = replicate 7353 0"

definition blank_window :: "8 word list" where
  "blank_window = replicate (nat (QDOS_WINDOW_W * QDOS_WINDOW_H * 3)) 0"

lemma blank_font_ok: "font_ok blank_font"
  by (simp add: font_ok_def blank_font_def)

lemma blank_window_fits: "fits_in (pad_canvas QDOS_WINDOW_W QDOS_PAD_X QDOS_PAD_Y) blank_window"
  by (simp add: fits_in_def pad_canvas_def blank_window_def pad_geometry)


text \<open>
  A redraw leaves nothing of what was there: whatever two buffers held before, the pad's
  rectangle looks the same in both after it is drawn.
\<close>

theorem pad_redraw_is_complete:
  assumes "font_ok coverage" and "fits_in (pad_canvas stride x0 y0) b1" and "fits_in (pad_canvas stride x0 y0) b2"
    and "qdos_pad_draw coverage stray stride x0 y0 layer pressed b1 = Some c1"
    and "qdos_pad_draw coverage stray stride x0 y0 layer pressed b2 = Some c2"
    and "inside (pad_canvas stride x0 y0) x y"
  shows "at_pixel (pad_canvas stride x0 y0) c1 x y = at_pixel (pad_canvas stride x0 y0) c2 x y"
proof -
  let ?cv = "pad_canvas stride x0 y0"
  have "paints ?cv (inside ?cv) (inside ?cv)
      (then_draw (for_each [0..<QDOS_PAD_ROWS] (\<lambda>row. for_each [0..<ROW_COLS ! row] (\<lambda>col.
         draw_button coverage stray ?cv x0 y0 layer pressed row col))) Some)"
    by (auto intro!: repainted.good_all repainted.good_button font_ok_holds assms(1))
  moreover have "paints ?cv (\<lambda>x y. False) (inside ?cv) (draw_case ?cv)"
    by (rule paints_case) (simp_all add: pad_canvas_def)
  ultimately have "paints ?cv (\<lambda>x y. False) (inside ?cv) (qdos_pad_draw coverage stray stride x0 y0 layer pressed)"
    by (simp add: qdos_pad_draw_def Let_def in_turn_def paints_then)
  then have "agree ?cv (inside ?cv) c1 c2"
    using assms(2-5) by (fastforce simp: paints_def agree_def)
  then show ?thesis using assms(6) inside_on_row [OF assms(2,6)] by (simp add: agree_def)
qed

definition white_window :: "8 word list" where
  "white_window = replicate (nat (QDOS_WINDOW_W * QDOS_WINDOW_H * 3)) 0xFF"

lemma pad_redraw_is_complete_witness:
  "\<exists>c1 c2. qdos_pad_draw blank_font 0 QDOS_WINDOW_W QDOS_PAD_X QDOS_PAD_Y QDOS_PAD_PLAIN None blank_window = Some c1 \<and>
     qdos_pad_draw blank_font 0 QDOS_WINDOW_W QDOS_PAD_X QDOS_PAD_Y QDOS_PAD_PLAIN None white_window = Some c2 \<and>
     at_pixel (pad_canvas QDOS_WINDOW_W QDOS_PAD_X QDOS_PAD_Y) c1 100 400 =
     at_pixel (pad_canvas QDOS_WINDOW_W QDOS_PAD_X QDOS_PAD_Y) c2 100 400"
proof -
  let ?cv = "pad_canvas QDOS_WINDOW_W QDOS_PAD_X QDOS_PAD_Y"
  let ?draw = "qdos_pad_draw blank_font 0 QDOS_WINDOW_W QDOS_PAD_X QDOS_PAD_Y QDOS_PAD_PLAIN None"
  have fits: "fits_in ?cv white_window"
    by (simp add: fits_in_def pad_canvas_def white_window_def pad_geometry)
  obtain c1 c2 where "?draw blank_window = Some c1" "?draw white_window = Some c2"
    using pad_draw_keeps [OF blank_font_ok] blank_window_fits fits unfolding keeps_def by blast
  moreover have "inside ?cv 100 400" by (simp add: inside_def pad_canvas_def pad_geometry)
  ultimately show ?thesis using pad_redraw_is_complete [OF blank_font_ok blank_window_fits fits] by blast
qed

definition on_border :: "int \<Rightarrow> int \<Rightarrow> bool" where
  "on_border x y \<longleftrightarrow>
     \<not> (QDOS_PANEL_X \<le> x \<and> x < QDOS_PANEL_X + QDOS_SCREEN_W \<and>
        QDOS_PANEL_Y \<le> y \<and> y < QDOS_PANEL_Y + QDOS_SCREEN_H + QDOS_PAD_H)"

definition window_canvas :: "int \<Rightarrow> canvas" where
  "window_canvas stride_px =
     \<lparr>cv_stride = stride_px, cv_left = 0, cv_right = QDOS_WINDOW_W, cv_top = 0, cv_bottom = QDOS_WINDOW_H\<rparr>"

text \<open>No letter of the name comes down to the glass.\<close>

lemma nameplate_clears_the_glass:
  "list_all (\<lambda>ch. case qdos_padfont_glyph QDOS_PADFACE_CAP ch of None \<Rightarrow> True
     | Some g \<Rightarrow> 19 + gl_by g + int (gl_h g) \<le> 30) QDOS_NAMEPLATE"
  by code_simp

lemma frame_keeps:
  assumes "font_ok coverage"
  shows "keeps (window_canvas stride) on_border (qdos_frame_draw coverage stride)"
proof -
  let ?cv = "window_canvas stride"
  have label: "keeps ?cv on_border (label_from coverage ?cv QDOS_PADFACE_CAP pen 19 QDOS_NAMEPLATE c)" for pen c
  proof (rule drawn.good_label)
    fix face
    show "holds_glyphs (length (coverage face)) (if face = QDOS_PADFACE_SHIFT then GLYPHS_SHIFT else GLYPHS_CAP)"
      by (rule font_ok_holds [OF assms])
  next
    fix x y ch g
    assume "ch \<in> set QDOS_NAMEPLATE" "qdos_padfont_glyph QDOS_PADFACE_CAP ch = Some g" "y < 19 + gl_by g + int (gl_h g)"
    then have "y < 30" using nameplate_clears_the_glass by (fastforce simp: list_all_iff)
    then show "on_border x y" by (simp add: on_border_def pad_geometry)
  qed
  have fill: "keeps ?cv on_border (fill ?cv x0 y0 w h c)"
    if "x0 + w \<le> 8 \<or> 408 \<le> x0 \<or> y0 + h \<le> 30 \<or> 730 \<le> y0" for x0 y0 w h c
    by (rule drawn.good_fill) (use that in \<open>auto simp: on_border_def pad_geometry\<close>)
  show ?thesis
    unfolding qdos_frame_draw_def Let_def window_canvas_def [symmetric]
  proof (rule drawn.good_in_turn, simp only: list.pred_inject, intro conjI TrueI)
    show "keeps ?cv on_border (label_from coverage ?cv QDOS_PADFACE_CAP QDOS_PANEL_X
        ((QDOS_PANEL_Y - 1 + qdos_padfont_cap_height QDOS_PADFACE_CAP) sdiv 2) QDOS_NAMEPLATE NAMEPLATE_INK)"
      using label by (simp add: pad_geometry signed_divide_int_def)
  qed (auto simp: pad_geometry intro!: drawn.good_for_each drawn.good_in_turn fill)
qed

lemma frame_inside:
  assumes "font_ok coverage"
  shows "keeps (window_canvas stride) (inside (window_canvas stride)) (qdos_frame_draw coverage stride)"
proof -
  have "keeps cv (inside cv) (label_from coverage cv face pen baseline s c)" for cv face pen baseline s c
    by (rule drawn.good_label [OF font_ok_holds [OF assms]])
  then show ?thesis
    unfolding qdos_frame_draw_def Let_def window_canvas_def [symmetric] by (auto intro!: padded.good_all)
qed

text \<open>
  Drawing the case around the panel and the keypad changes neither of them, and stays in the
  window, the name on it included.
\<close>

theorem frame_leaves_the_panel_alone:
  assumes "font_ok coverage" and "fits_in (window_canvas stride) buf"
  shows "\<exists>buf'. qdos_frame_draw coverage stride buf = Some buf' \<and>
     untouched (window_canvas stride) (\<lambda>x y. inside (window_canvas stride) x y \<and> on_border x y) buf buf'"
  using frame_keeps [OF assms(1), of stride] frame_inside [OF assms(1), of stride] assms(2)
  by (fastforce simp: keeps_def untouched_def)

lemma frame_leaves_the_panel_alone_witness:
  "\<exists>buf'. qdos_frame_draw blank_font QDOS_WINDOW_W blank_window = Some buf' \<and> length buf' = length blank_window"
proof -
  have "fits_in (window_canvas QDOS_WINDOW_W) blank_window"
    by (simp add: fits_in_def window_canvas_def blank_window_def pad_geometry)
  from frame_leaves_the_panel_alone [OF blank_font_ok this] show ?thesis by (auto simp: untouched_def)
qed

text \<open>
  The outline of a key reads the table of insets one place before its start, on its first row
  and on its last; whatever is there, nothing that is drawn depends on it.
\<close>

theorem drawing_ignores_the_stray_read:
  "inset_at stray (- 1) QDOS_KEY_H = stray \<and> inset_at stray QDOS_KEY_H QDOS_KEY_H = stray \<and>
   qdos_pad_draw coverage stray = qdos_pad_draw coverage stray' \<and>
   qdos_pad_draw_ripple stray = qdos_pad_draw_ripple stray'"
proof (intro conjI)
  note same = shapes_ignore_stray [of stray stray'] outlines_ignore_stray [of stray stray']
  have "draw_key stray = draw_key stray'" unfolding draw_key_def [abs_def] same by (rule refl)
  then have "draw_button coverage stray = draw_button coverage stray'" by (intro ext) (simp add: draw_button_def)
  then show "qdos_pad_draw coverage stray = qdos_pad_draw coverage stray'" by (intro ext) (simp add: qdos_pad_draw_def)
  show "qdos_pad_draw_ripple stray = qdos_pad_draw_ripple stray'" unfolding qdos_pad_draw_ripple_def [abs_def] same by (rule refl)
qed (simp_all add: inset_at_def pad_geometry CORNER_def)

end
