(* ===== verification/Serial.thy ===== *)
theory Serial
  imports FileStore Keypad
begin

text \<open>
  The serial console (\<^verbatim>\<open>src/hal/serial_console.c\<close>): bytes from a terminal taken apart into
  keys, escape sequences and upload commands, and the uploads carried out on the inbox directory.

  The port is what is still to arrive on it: chunks of bytes, and silences longer than the code
  waits for, until it is gone. What the code sends is a log of events. The state also has what the
  code cannot see: how many bytes the medium has room for, whether closing a file loses its tail, and
  after how many changes of the disk the power goes, from when on the disk stays as it is.
\<close>

section \<open>CRC-32\<close>

unbundle bit_operations_syntax

definition crc_bit :: "32 word \<Rightarrow> 32 word" where
  "crc_bit crc = drop_bit 1 crc XOR (0xEDB88320 AND (0 - (crc AND 1)))"

definition crc_byte :: "32 word \<Rightarrow> byte \<Rightarrow> 32 word" where
  "crc_byte crc b = (crc_bit ^^ 8) (crc XOR ucast b)"

definition qdos_serial_crc32 :: "32 word \<Rightarrow> byte list \<Rightarrow> 32 word" where
  "qdos_serial_crc32 crc buf = NOT (foldl crc_byte (NOT crc) buf)"

section \<open>The port\<close>

datatype arrival = Bytes "byte list" | Quiet

datatype event = Pressed qdos_key_event | Written cstring | Touched

record serial =
  sr_port :: "arrival list"
  sr_after_cr :: bool
  sr_inbox :: cstring
  sr_ulong :: nat
  sr_log :: "event list"
  sr_disk :: disk
  sr_room :: nat
  sr_flush :: "nat option"
  sr_power :: nat
  sr_refuses :: bool

text \<open>
  The read callback: up to \<open>cap\<close> bytes, none once the wait is over, \<open>None\<close> when the port is
  gone. A read that waits for ever sits out the silences.
\<close>

fun port_read :: "nat \<Rightarrow> bool \<Rightarrow> arrival list \<Rightarrow> byte list option \<times> arrival list" where
  "port_read cap forever [] = (None, [])"
| "port_read cap forever (Quiet # p) = (if forever then port_read cap forever p else (Some [], p))"
| "port_read cap forever (Bytes bs # p) =
     (if bs = [] then port_read cap forever p
      else (Some (take cap bs), if length bs \<le> cap then p else Bytes (drop cap bs) # p))"

definition serial_read :: "nat \<Rightarrow> bool \<Rightarrow> serial \<Rightarrow> byte list option \<times> serial" where
  "serial_read cap forever s = (let (r, p) = port_read cap forever (sr_port s) in (r, s\<lparr>sr_port := p\<rparr>))"

datatype got = Got byte | Timeout | Gone

definition read_byte :: "bool \<Rightarrow> serial \<Rightarrow> got \<times> serial" where
  "read_byte forever s =
     (case serial_read 1 forever s of
        (None, s') \<Rightarrow> (Gone, s')
      | (Some [], s') \<Rightarrow> (Timeout, s')
      | (Some (b # _), s') \<Rightarrow> (Got b, s'))"

definition say :: "event \<Rightarrow> serial \<Rightarrow> serial" where
  "say e s = s\<lparr>sr_log := sr_log s @ [e]\<rparr>"

definition send_key :: "qdos_key \<Rightarrow> serial \<Rightarrow> serial" where
  "send_key k = say (Pressed (key_event k))"

definition CMD_MAX :: nat where "CMD_MAX = 160"
definition UPLOAD_PATH_CAP :: nat where "UPLOAD_PATH_CAP = 256"
definition SIZE_MAX_BYTES :: nat where "SIZE_MAX_BYTES = 8 * 1024 * 1024"

definition reply :: "cstring \<Rightarrow> serial \<Rightarrow> serial" where
  "reply t = say (Written (''QDUP '' @ clip (CMD_MAX + 8 - 5 - 1) t @ [newline]))"

section \<open>Escape sequences\<close>

definition SEQUENCE_MAP :: "(cstring \<times> qdos_key) list" where
  "SEQUENCE_MAP = [
     (''[A'', QDOS_KEY_UP),
     (''[B'', QDOS_KEY_DOWN),
     (''[C'', QDOS_KEY_RIGHT),
     (''[D'', QDOS_KEY_LEFT),
     (''OA'', QDOS_KEY_UP),
     (''OB'', QDOS_KEY_DOWN),
     (''OC'', QDOS_KEY_RIGHT),
     (''OD'', QDOS_KEY_LEFT),
     (''OP'', QDOS_KEY_SOFT1),
     (''OQ'', QDOS_KEY_SOFT2),
     (''OR'', QDOS_KEY_SOFT3),
     (''OS'', QDOS_KEY_SOFT4),
     (''[11~'', QDOS_KEY_SOFT1),
     (''[12~'', QDOS_KEY_SOFT2),
     (''[13~'', QDOS_KEY_SOFT3),
     (''[14~'', QDOS_KEY_SOFT4),
     (''[15~'', QDOS_KEY_SOFT5),
     (''[21~'', QDOS_KEY_POWER),
     (''[3~'', QDOS_KEY_BACKSPACE)]"

text \<open>The bytes of a C string read as text: up to the first NUL.\<close>

definition c_text :: "byte list \<Rightarrow> cstring" where
  "c_text bs = takeWhile (\<lambda>c. c \<noteq> nul) (map char_of_byte bs)"

definition port_size :: "arrival list \<Rightarrow> nat" where
  "port_size p = sum_list (map (\<lambda>a. case a of Bytes bs \<Rightarrow> Suc (length bs) | Quiet \<Rightarrow> 1) p)"

lemma port_size_simps [simp]:
  "port_size [] = 0" "port_size (Quiet # p) = Suc (port_size p)"
  "port_size (Bytes bs # p) = Suc (length bs + port_size p)"
  by (simp_all add: port_size_def)

lemma port_read_size: "port_read cap forever p = (Some bs, p') \<Longrightarrow> 0 < cap \<Longrightarrow> port_size p' < port_size p"
  by (induction cap forever p rule: port_read.induct) (auto split: if_splits)

lemma read_byte_size: "read_byte forever s = (Got b, s') \<Longrightarrow> port_size (sr_port s') < port_size (sr_port s)"
  by (auto simp: read_byte_def serial_read_def dest: port_read_size split: prod.splits option.splits list.splits)

text \<open>The body of a sequence, at most seven bytes of it kept, up to its final byte.\<close>

function sequence_body :: "byte list \<Rightarrow> serial \<Rightarrow> byte list option \<times> serial" where
  "sequence_body body s =
     (case read_byte False s of
        (Got b, s') \<Rightarrow>
          let body' = (if length body + 1 < 8 then body @ [b] else body)
          in if 0x40 \<le> b \<and> b \<le> 0x7E then (Some body', s') else sequence_body body' s'
      | (_, s') \<Rightarrow> (None, s'))"
  by pat_completeness auto
termination by (relation "measure (\<lambda>(body, s). port_size (sr_port s))") (auto dest: read_byte_size [OF sym])

definition sequence_key :: "char \<Rightarrow> byte list \<Rightarrow> qdos_key option" where
  "sequence_key intro body = map_of SEQUENCE_MAP (intro # c_text body)"

definition sequence :: "char \<Rightarrow> serial \<Rightarrow> serial" where
  "sequence intro s =
     (case sequence_body [] s of
        (None, s') \<Rightarrow> s'
      | (Some body, s') \<Rightarrow>
          (case sequence_key intro body of None \<Rightarrow> s' | Some k \<Rightarrow> send_key k s'))"

section \<open>Changes of the disk\<close>

text \<open>
  The file a path names, as the system resolves it: the segments between the slashes, an empty one or a dot staying where
  it is and two dots going up. The disk is by such paths.
\<close>

definition segment_taken :: "cstring list \<Rightarrow> cstring \<Rightarrow> cstring list" where
  "segment_taken ds seg = (if seg = [] \<or> seg = ''.'' then ds else if seg = ''..'' then butlast ds else ds @ [seg])"

fun segments :: "cstring list \<Rightarrow> cstring \<Rightarrow> cstring \<Rightarrow> cstring list" where
  "segments ds seg [] = segment_taken ds seg"
| "segments ds seg (c # cs) = (if c = CHR ''/'' then segments (segment_taken ds seg) [] cs else segments ds (seg @ [c]) cs)"

definition real_path :: "cstring \<Rightarrow> cstring" where
  "real_path p = concat (map (\<lambda>seg. CHR ''/'' # seg) (segments [] [] p))"

text \<open>A change that happens if the power is still on.\<close>

definition on_disk :: "(disk \<Rightarrow> disk) \<Rightarrow> serial \<Rightarrow> serial" where
  "on_disk f s = (if sr_power s = 0 then s else s\<lparr>sr_disk := f (sr_disk s), sr_power := sr_power s - 1\<rparr>)"

definition file_bytes :: "cstring \<Rightarrow> disk \<Rightarrow> byte list" where
  "file_bytes p d = (case map_of d p of Some (File bs) \<Rightarrow> bs | _ \<Rightarrow> [])"

definition is_file :: "cstring \<Rightarrow> disk \<Rightarrow> bool" where
  "is_file p d \<longleftrightarrow> (case map_of d p of Some (File _) \<Rightarrow> True | _ \<Rightarrow> False)"

text \<open>\<open>mkdir\<close>, with whether the directory is there or something by its name was.\<close>

definition serial_mkdir :: "cstring \<Rightarrow> serial \<Rightarrow> bool \<times> serial" where
  "serial_mkdir path s =
     (let p = real_path path
      in if map_of (sr_disk s) p \<noteq> None then (True, s)
         else (map_of (sr_disk s) (parent_of p) = Some Dir, on_disk (posix_mkdir p) s))"

text \<open>\<open>fopen (path, "wb")\<close> empties or makes the file; \<open>fwrite\<close> appends what there is room for.\<close>

definition serial_open :: "cstring \<Rightarrow> serial \<Rightarrow> bool \<times> serial" where
  "serial_open path s =
     (let p = real_path path
      in if map_of (sr_disk s) p = Some Dir \<or> map_of (sr_disk s) (parent_of p) \<noteq> Some Dir then (False, s)
         else (True, on_disk (AList.update p (File [])) s))"

definition serial_append :: "cstring \<Rightarrow> byte list \<Rightarrow> serial \<Rightarrow> bool \<times> serial" where
  "serial_append path bs s =
     (let p = real_path path; room = sr_room s
      in (length bs \<le> room,
          on_disk (\<lambda>d. AList.update p (File (file_bytes p d @ take room bs)) d) (s\<lparr>sr_room := room - length bs\<rparr>)))"

definition serial_close :: "cstring \<Rightarrow> serial \<Rightarrow> bool \<times> serial" where
  "serial_close path s =
     (let p = real_path path
      in case sr_flush s of
           None \<Rightarrow> (True, s)
         | Some k \<Rightarrow> (False, on_disk (\<lambda>d. AList.update p (File (take k (file_bytes p d))) d) s))"

definition serial_unlink :: "cstring \<Rightarrow> serial \<Rightarrow> bool \<times> serial" where
  "serial_unlink path s =
     (let p = real_path path in if is_file p (sr_disk s) then (True, on_disk (AList.delete p) s) else (False, s))"

definition serial_rmdir :: "cstring \<Rightarrow> serial \<Rightarrow> bool \<times> serial" where
  "serial_rmdir path s =
     (let p = real_path path
      in if map_of (sr_disk s) p = Some Dir \<and> children p (sr_disk s) = [] then (True, on_disk (AList.delete p) s)
         else (False, s))"

text \<open>\<open>rename\<close> as FAT has it, which will not rename over anything; and a medium may refuse it.\<close>

definition serial_rename :: "cstring \<Rightarrow> cstring \<Rightarrow> serial \<Rightarrow> bool \<times> serial" where
  "serial_rename part dest s =
     (let p = real_path part; q = real_path dest
      in if \<not> sr_refuses s \<and> is_file p (sr_disk s) \<and> map_of (sr_disk s) q = None \<and> map_of (sr_disk s) (parent_of q) = Some Dir then
           (True, on_disk (\<lambda>d. AList.update q (File (file_bytes p d)) (AList.delete p d)) s)
         else (False, s))"

section \<open>Numbers in a command\<close>

definition hex_val :: "char \<Rightarrow> nat option" where
  "hex_val c =
     (if is_digit c then Some (code c - 48)
      else if between (CHR ''a'') (CHR ''f'') c then Some (code c - 87)
      else if between (CHR ''A'') (CHR ''F'') c then Some (code c - 55) else None)"

definition digit_in :: "nat \<Rightarrow> char \<Rightarrow> bool" where
  "digit_in base c \<longleftrightarrow> (case hex_val c of None \<Rightarrow> False | Some v \<Rightarrow> v < base)"

text \<open>
  \<open>strtoul\<close>: the value and how much of the text it read, nothing when there was no number. Blanks,
  a sign, and \<open>0x\<close> before a hexadecimal digit are read over; what does not fit is the greatest value,
  and a sign turns the value round.
\<close>

definition strtoul :: "nat \<Rightarrow> nat \<Rightarrow> cstring \<Rightarrow> nat \<times> nat" where
  "strtoul w base s =
     (let blanks = length (takeWhile is_space s);
          s1 = drop blanks s;
          sign = (if char_at s1 0 = CHR ''-'' \<or> char_at s1 0 = CHR ''+'' then 1 else 0);
          s2 = drop sign s1;
          pre = (if base = 16 \<and> char_at s2 0 = CHR ''0'' \<and> (char_at s2 1 = CHR ''x'' \<or> char_at s2 1 = CHR ''X'') \<and>
                    digit_in 16 (char_at s2 2) then 2 else 0);
          ds = takeWhile (digit_in base) (drop pre s2);
          n = foldl (\<lambda>v c. v * base + the (hex_val c)) 0 ds
      in if ds = [] then (0, 0)
         else (if 2 ^ w \<le> n then 2 ^ w - 1
               else if char_at s1 0 = CHR ''-'' then (2 ^ w - n) mod 2 ^ w else n,
               blanks + sign + pre + length ds))"

section \<open>Uploads\<close>

definition full_path :: "serial \<Rightarrow> cstring \<Rightarrow> cstring option" where
  "full_path s path = fits UPLOAD_PATH_CAP (sr_inbox s @ ''/'' @ path)"

text \<open>What a PUT asks for, or what is wrong with it: the size, the checksum, the path and where it goes.\<close>

definition put_request :: "serial \<Rightarrow> cstring \<Rightarrow> cstring + nat \<times> nat \<times> cstring \<times> cstring" where
  "put_request s args =
     (let (bytes, e) = strtoul (sr_ulong s) 10 args
      in if e = 0 \<or> char_at args e \<noteq> CHR '' '' \<or> SIZE_MAX_BYTES < bytes then Inl ''ERR SIZE''
         else
           let args = drop (e + 1) args; (want, e) = strtoul (sr_ulong s) 16 args
           in if e = 0 \<or> char_at args e \<noteq> CHR '' '' then Inl ''ERR CRC''
              else
                let path = drop (e + 1) args
                in case (if good_path path then full_path s path else None) of
                     None \<Rightarrow> Inl ''ERR PATH''
                   | Some dest \<Rightarrow>
                       if UPLOAD_PATH_CAP + 8 \<le> length (dest @ ''.part'') then Inl ''ERR PATH''
                       else Inr (bytes, want, path, dest))"

text \<open>The app's folder, made on its first file.\<close>

definition upload_folder :: "serial \<Rightarrow> cstring \<Rightarrow> cstring option" where
  "upload_folder s path =
     (case find_char (CHR ''/'') path of
        None \<Rightarrow> None
      | Some i \<Rightarrow> Some (clip UPLOAD_PATH_CAP (sr_inbox s @ ''/'' @ take i path)))"

definition make_folder :: "cstring \<Rightarrow> serial \<Rightarrow> bool \<times> serial" where
  "make_folder path s = (case upload_folder s path of None \<Rightarrow> (True, s) | Some dir \<Rightarrow> serial_mkdir dir s)"

definition CHUNK :: nat where "CHUNK = 512"

text \<open>The rest of a file that cannot be written, read so that it does not arrive as keys.\<close>

function skip_rest :: "nat \<Rightarrow> serial \<Rightarrow> nat \<times> serial" where
  "skip_rest left s =
     (if left = 0 then (left, s)
      else case serial_read (min left CHUNK) False s of
             (Some (b # bs), s') \<Rightarrow> skip_rest (left - length (b # bs)) s'
           | (_, s') \<Rightarrow> (left, s'))"
  by pat_completeness auto
termination by (relation "measure fst") auto

function receive :: "nat \<Rightarrow> 32 word \<Rightarrow> cstring \<Rightarrow> serial \<Rightarrow> nat \<times> 32 word \<times> bool \<times> serial" where
  "receive left crc part s =
     (if left = 0 then (left, crc, True, s)
      else case serial_read (min left CHUNK) False s of
             (Some (b # bs), s1) \<Rightarrow>
               let crc' = qdos_serial_crc32 crc (b # bs);
                   (ok, s2) = serial_append part (b # bs) s1;
                   left' = left - length (b # bs)
               in if ok then receive left' crc' part s2
                  else let (l, s3) = skip_rest left' s2 in (l, crc', False, s3)
           | (_, s1) \<Rightarrow> (left, crc, False, s1))"
  by pat_completeness auto
termination by (relation "measure fst") auto

fun hex_digit :: "nat \<Rightarrow> char" where
  "hex_digit d = (if d < 10 then digit_char d else char_of (87 + d))"

text \<open>\<open>%08lx\<close>.\<close>

definition hex8 :: "32 word \<Rightarrow> cstring" where
  "hex8 w = map (\<lambda>i. hex_digit (unat (drop_bit (4 * i) w AND 15))) (rev [0..<8])"

text \<open>The checked file put in place of the one there was.\<close>

definition publish :: "cstring \<Rightarrow> cstring \<Rightarrow> serial \<Rightarrow> serial" where
  "publish part dest s =
     (let (_, s1) = serial_unlink dest s; (ok, s2) = serial_rename part dest s1
      in if ok then reply ''OK'' (say Touched s2)
         else reply ''ERR RENAME'' (snd (serial_unlink part s2)))"

definition put_file :: "nat \<Rightarrow> nat \<Rightarrow> cstring \<Rightarrow> cstring \<Rightarrow> serial \<Rightarrow> serial" where
  "put_file bytes want part dest s =
     (case serial_open part s of
        (False, s1) \<Rightarrow> reply ''ERR OPEN'' s1
      | (True, s1) \<Rightarrow>
          let (left, crc, ok, s2) = receive bytes 0 part (reply ''READY'' s1);
              (closed, s3) = serial_close part s2
          in if \<not> (closed \<and> ok) \<or> 0 < left then
               reply (if 0 < left then ''ERR SHORT'' else ''ERR WRITE'') (snd (serial_unlink part s3))
             else if crc \<noteq> of_nat want then
               reply (''ERR CRC '' @ hex8 crc) (snd (serial_unlink part s3))
             else publish part dest s3)"

definition put :: "cstring \<Rightarrow> serial \<Rightarrow> serial" where
  "put args s =
     (case put_request s args of
        Inl err \<Rightarrow> reply err s
      | Inr (bytes, want, path, dest) \<Rightarrow>
          (case make_folder path s of
             (False, s1) \<Rightarrow> reply ''ERR MKDIR'' s1
           | (True, s1) \<Rightarrow> put_file bytes want (dest @ ''.part'') dest s1))"

fun unlink_all :: "cstring \<Rightarrow> cstring list \<Rightarrow> serial \<Rightarrow> serial" where
  "unlink_all full [] s = s"
| "unlink_all full (n # ns) s =
     (let inner = full @ ''/'' @ n
      in if char_at n 0 \<noteq> CHR ''.'' \<and> length inner < UPLOAD_PATH_CAP + 72 then
           unlink_all full ns (snd (serial_unlink inner s))
         else unlink_all full ns s)"

definition del :: "cstring \<Rightarrow> serial \<Rightarrow> serial" where
  "del path s =
     (case (if good_path path then full_path s path else None) of
        None \<Rightarrow> reply ''ERR PATH'' s
      | Some full \<Rightarrow>
          (case map_of (sr_disk s) (real_path full) of
             None \<Rightarrow> reply ''ERR MISSING'' s
           | Some Dir \<Rightarrow>
               let (ok, s1) = serial_rmdir full (unlink_all full (children (real_path full) (sr_disk s)) s)
               in if ok then reply ''OK'' (say Touched s1) else reply ''ERR RMDIR'' s1
           | Some (File _) \<Rightarrow>
               let (ok, s1) = serial_unlink full s
               in if ok then reply ''OK'' (say Touched s1) else reply ''ERR UNLINK'' s1))"

text \<open>The entries of a directory, a folder's own handed to \<open>inner\<close>.\<close>

fun list_entries :: "(cstring \<Rightarrow> serial \<Rightarrow> serial) \<Rightarrow> cstring \<Rightarrow> cstring list \<Rightarrow> serial \<Rightarrow> serial" where
  "list_entries inner rel [] s = s"
| "list_entries inner rel (n # ns) s =
     (let path = rel @ (if rel \<noteq> [] then ''/'' else []) @ n;
          abs = sr_inbox s @ ''/'' @ path
      in list_entries inner rel ns
           (if char_at n 0 = CHR ''.'' \<or> UPLOAD_PATH_CAP \<le> length path \<or> UPLOAD_PATH_CAP * 2 \<le> length abs then s
            else case map_of (sr_disk s) (real_path abs) of
                   None \<Rightarrow> s
                 | Some Dir \<Rightarrow> if rel = [] then inner path s else s
                 | Some (File bs) \<Rightarrow> reply (''F '' @ dec (length bs) @ '' '' @ path) s))"

definition list_with :: "(cstring \<Rightarrow> serial \<Rightarrow> serial) \<Rightarrow> cstring \<Rightarrow> serial \<Rightarrow> serial" where
  "list_with inner rel s =
     (let full = clip UPLOAD_PATH_CAP (sr_inbox s @ (if rel \<noteq> [] then ''/'' else []) @ rel)
      in if map_of (sr_disk s) (real_path full) = Some Dir then list_entries inner rel (children (real_path full) (sr_disk s)) s else s)"

text \<open>The call on a folder never gets to a call of its own: only the inbox itself has folders listed.\<close>

definition list_dir :: "cstring \<Rightarrow> serial \<Rightarrow> serial" where
  "list_dir rel = list_with (list_with (\<lambda>_ s. s)) rel"

section \<open>Commands\<close>

function command_line :: "byte list \<Rightarrow> serial \<Rightarrow> byte list option \<times> serial" where
  "command_line line s =
     (case read_byte False s of
        (Got b, s') \<Rightarrow>
          if b = 0x0A \<or> b = 0x0D then (Some line, s')
          else if CMD_MAX \<le> length line + 1 then (None, reply ''ERR LONG'' s')
          else command_line (line @ [b]) s'
      | (_, s') \<Rightarrow> (None, s'))"
  by pat_completeness auto
termination by (relation "measure (\<lambda>(line, s). port_size (sr_port s))") (auto dest: read_byte_size [OF sym])

definition serve :: "cstring \<Rightarrow> serial \<Rightarrow> serial" where
  "serve line s =
     (if prefix_of ''PUT '' line then put (drop 4 line) s
      else if prefix_of ''DEL '' line then del (drop 4 line) s
      else if line = ''LS'' then reply ''OK'' (list_dir [] s)
      else if line = ''HELLO'' then reply ''OK'' s
      else reply ''ERR COMMAND'' s)"

definition command :: "serial \<Rightarrow> serial" where
  "command s = (case command_line [] s of (None, s') \<Rightarrow> s' | (Some line, s') \<Rightarrow> serve (c_text line) s')"

section \<open>One step of the console\<close>

definition escape :: "serial \<Rightarrow> serial" where
  "escape s =
     (case read_byte False s of
        (Got b, s') \<Rightarrow>
          if char_of_byte b = CHR ''['' \<or> char_of_byte b = CHR ''O'' then sequence (char_of_byte b) s'
          else send_key QDOS_KEY_CLEAR s'
      | (_, s') \<Rightarrow> send_key QDOS_KEY_CLEAR s')"

definition on_byte :: "byte \<Rightarrow> serial \<Rightarrow> serial" where
  "on_byte b s =
     (if b = 0x0D \<or> b = 0x0A then send_key QDOS_KEY_ENTER s
      else if b = 0x7F \<or> b = 0x08 then send_key QDOS_KEY_BACKSPACE s
      else if b = 0x09 then send_key QDOS_KEY_TAB s
      else if b = 0x02 then command s
      else if b = 0x1B then escape s
      else if 0x20 \<le> b \<and> b < 0x7F then say (Pressed (qdos_pad_typed (char_of_byte b))) s
      else s)"

definition qdos_serial_step :: "serial \<Rightarrow> bool \<times> serial" where
  "qdos_serial_step s =
     (case read_byte True s of
        (Gone, s1) \<Rightarrow> (False, s1)
      | (Timeout, s1) \<Rightarrow> (True, s1)
      | (Got b, s1) \<Rightarrow>
          let was_cr = sr_after_cr s1; s2 = s1\<lparr>sr_after_cr := (b = 0x0D)\<rparr>
          in if b = 0x0A \<and> was_cr then (True, s2) else (True, on_byte b s2))"

declare sequence_body.simps [simp del] skip_rest.simps [simp del] receive.simps [simp del] command_line.simps [simp del]

lemma nothing_left [simp]: "skip_rest 0 s = (0, s)" "receive 0 crc part s = (0, crc, True, s)"
  by (simp_all add: skip_rest.simps [of 0] receive.simps [of 0])

section \<open>What a part of the console may change\<close>

text \<open>
  The disk is the same but for the paths of \<open>P\<close>, the inbox is where it was, and nothing is put back
  on the port.
\<close>

definition same_but :: "cstring set \<Rightarrow> serial \<Rightarrow> serial \<Rightarrow> bool" where
  "same_but P s s' \<longleftrightarrow> sr_inbox s' = sr_inbox s \<and> sr_ulong s' = sr_ulong s \<and> sr_refuses s' = sr_refuses s \<and> sr_power s' \<le> sr_power s \<and>
     port_size (sr_port s') \<le> port_size (sr_port s) \<and> (\<forall>q. q \<notin> P \<longrightarrow> map_of (sr_disk s') q = map_of (sr_disk s) q)"

named_theorems serial_frames "what the operations on the disk may change"

lemma same_but_refl [simp]: "same_but P s s"
  by (simp add: same_but_def)

lemma same_but_trans: "same_but P s t \<Longrightarrow> same_but P t u \<Longrightarrow> same_but P s u"
  by (simp add: same_but_def)

lemma same_but_mono: "same_but P s t \<Longrightarrow> P \<subseteq> R \<Longrightarrow> same_but R s t"
  by (auto simp: same_but_def)

lemma same_but_say [serial_frames]: "same_but P s (say e t) \<longleftrightarrow> same_but P s t"
  by (simp add: same_but_def say_def)

lemma same_but_reply [serial_frames]: "same_but P s (reply x t) \<longleftrightarrow> same_but P s t"
  by (simp add: reply_def same_but_say)

lemma same_but_send [serial_frames]: "same_but P s (send_key k t) \<longleftrightarrow> same_but P s t"
  by (simp add: send_key_def same_but_say)

lemma same_but_disk:
  "(\<And>d q. q \<notin> P \<Longrightarrow> map_of (f d) q = map_of d q) \<Longrightarrow> same_but P s (on_disk f s)"
  by (simp add: same_but_def on_disk_def)

lemma port_read_le: "port_read cap forever p = (r, p') \<Longrightarrow> port_size p' \<le> port_size p"
  by (induction cap forever p rule: port_read.induct) (auto split: if_splits)

lemma same_but_serial_read: "serial_read cap forever s = (r, s') \<Longrightarrow> same_but P s s'"
  by (auto simp: serial_read_def same_but_def dest: port_read_le split: prod.splits)

lemma same_but_read_byte: "read_byte forever s = (r, s') \<Longrightarrow> same_but P s s'"
  unfolding read_byte_def by (auto dest: same_but_serial_read split: prod.splits option.splits list.splits)

lemma map_of_delete: "map_of (AList.delete p d) q = (if q = p then None else map_of d q)"
  by (simp add: delete_conv')

lemma same_but_mkdir: "real_path p \<in> P \<Longrightarrow> serial_mkdir p s = (r, s') \<Longrightarrow> same_but P s s'"
  unfolding serial_mkdir_def Let_def
  by (auto intro!: same_but_disk same_but_refl simp: map_of_mkdir split: if_splits)

lemma same_but_open: "real_path p \<in> P \<Longrightarrow> serial_open p s = (r, s') \<Longrightarrow> same_but P s s'"
  by (auto simp: serial_open_def Let_def same_but_def on_disk_def update_conv' split: if_splits)

lemma same_but_append: "real_path p \<in> P \<Longrightarrow> serial_append p bs s = (r, s') \<Longrightarrow> same_but P s s'"
  unfolding serial_append_def Let_def prod.inject
  by (clarify, cases "sr_power s = 0") (auto simp: same_but_def on_disk_def update_conv')

lemma same_but_close: "real_path p \<in> P \<Longrightarrow> serial_close p s = (r, s') \<Longrightarrow> same_but P s s'"
  by (auto simp: serial_close_def Let_def same_but_def on_disk_def update_conv' split: option.splits if_splits)

lemma same_but_unlink: "real_path p \<in> P \<Longrightarrow> serial_unlink p s = (r, s') \<Longrightarrow> same_but P s s'"
  by (auto simp: serial_unlink_def Let_def same_but_def on_disk_def map_of_delete split: if_splits)

lemma same_but_rmdir: "real_path p \<in> P \<Longrightarrow> serial_rmdir p s = (r, s') \<Longrightarrow> same_but P s s'"
  by (auto simp: serial_rmdir_def Let_def same_but_def on_disk_def map_of_delete split: if_splits)

lemma same_but_rename: "real_path p \<in> P \<Longrightarrow> real_path q \<in> P \<Longrightarrow> serial_rename p q s = (r, s') \<Longrightarrow> same_but P s s'"
  by (auto simp: serial_rename_def Let_def same_but_def on_disk_def map_of_delete update_conv' split: if_splits)

lemmas same_but_ops = same_but_serial_read same_but_read_byte same_but_mkdir same_but_open same_but_append
  same_but_close same_but_unlink same_but_rmdir same_but_rename

lemma same_but_skip: "skip_rest left s = (l, s') \<Longrightarrow> same_but P s s'"
proof (induction left s arbitrary: l s' rule: skip_rest.induct)
  case (1 left s)
  note [simp] = skip_rest.simps [of left s]
  show ?case
  proof (cases "left = 0")
    case True
    then show ?thesis using "1.prems" by (simp add: same_but_refl)
  next
    case False
    obtain r s1 where r: "serial_read (min left CHUNK) False s = (r, s1)" by (cases "serial_read (min left CHUNK) False s")
    note f = same_but_serial_read [OF r, of P]
    show ?thesis
    proof (cases "r = None \<or> r = Some []")
      case True
      then show ?thesis using "1.prems" False r f by auto
    next
      case more: False
      then obtain b bs where bs: "r = Some (b # bs)" by (cases r) (auto, metis neq_Nil_conv)
      then show ?thesis using "1.IH" [OF False r [symmetric] bs refl] "1.prems" False r f
        by (auto intro: same_but_trans)
    qed
  qed
qed

text \<open>What was received is in the part file, if the power held.\<close>

lemma crc32_append: "qdos_serial_crc32 crc (xs @ ys) = qdos_serial_crc32 (qdos_serial_crc32 crc xs) ys"
  by (simp add: qdos_serial_crc32_def)

lemma append_content:
  assumes "serial_append part bs s = (True, s')" and "0 < sr_power s \<longrightarrow> map_of (sr_disk s) (real_path part) = Some (File old)"
  shows "0 < sr_power s' \<longrightarrow> map_of (sr_disk s') (real_path part) = Some (File (old @ bs))"
  using assms by (auto simp: serial_append_def Let_def on_disk_def file_bytes_def update_conv' split: if_splits)

definition received :: "cstring \<Rightarrow> byte list \<Rightarrow> serial \<Rightarrow> bool" where
  "received part bs s \<longleftrightarrow> (0 < sr_power s \<longrightarrow> map_of (sr_disk s) (real_path part) = Some (File bs))"

lemma received_read: "received part bs s \<Longrightarrow> serial_read cap forever s = (r, s') \<Longrightarrow> received part bs s'"
  by (auto simp: serial_read_def received_def split: prod.splits)

lemma received_append: "received part old s \<Longrightarrow> serial_append part bs s = (True, s') \<Longrightarrow> received part (old @ bs) s'"
  using append_content [of part bs s s' old] by (simp add: received_def)

lemma read_at_most: "serial_read cap forever s = (Some bs, s') \<Longrightarrow> length bs \<le> cap"
proof -
  have "port_read cap forever p = (Some bs, p') \<Longrightarrow> length bs \<le> cap" for p p'
    by (induction cap forever p rule: port_read.induct) (auto split: if_splits)
  then show "serial_read cap forever s = (Some bs, s') \<Longrightarrow> length bs \<le> cap"
    by (auto simp: serial_read_def split: prod.splits)
qed

text \<open>What was received is in the part file, if the power held.\<close>

lemma receive_spec:
  assumes "receive left crc part s = (left', crc', ok, s')" and "received part old s"
  shows "same_but {real_path part} s s' \<and>
    (ok \<longrightarrow> left' = 0 \<and> (\<exists>bs. length bs = left \<and> crc' = qdos_serial_crc32 crc bs \<and> received part (old @ bs) s'))"
  using assms
proof (induction left crc part s arbitrary: old rule: receive.induct)
  case (1 left crc part s)
  note [simp] = receive.simps [of left crc part s]
  show ?case
  proof (cases "left = 0")
    case True
    then show ?thesis using "1.prems" by (auto simp: same_but_refl qdos_serial_crc32_def)
  next
    case False
    obtain r s1 where r: "serial_read (min left CHUNK) False s = (r, s1)" by (cases "serial_read (min left CHUNK) False s")
    note f1 = same_but_serial_read [OF r, of "{real_path part}"] and d1 = received_read [OF "1.prems"(2) r]
    show ?thesis
    proof (cases "r = None \<or> r = Some []")
      case True
      then show ?thesis using "1.prems" False r f1 by auto
    next
      case more: False
      then obtain b bs where bs: "r = Some (b # bs)" by (cases r) (auto, metis neq_Nil_conv)
      let ?crc = "qdos_serial_crc32 crc (b # bs)" and ?left = "left - length (b # bs)"
      obtain k s2 where k: "serial_append part (b # bs) s1 = (k, s2)" by (cases "serial_append part (b # bs) s1")
      have f2: "same_but {real_path part} s s2" by (rule same_but_trans [OF f1 same_but_append [OF _ k]]) simp
      show ?thesis
      proof (cases k)
        case True
        have go: "receive ?left ?crc part s2 = (left', crc', ok, s')"
          using "1.prems"(1) False r k bs True by (simp add: Let_def)
        have d2: "received part (old @ b # bs) s2" using received_append [OF d1] k True by simp
        have "same_but {real_path part} s2 s' \<and> (ok \<longrightarrow> left' = 0 \<and>
            (\<exists>cs. length cs = ?left \<and> crc' = qdos_serial_crc32 ?crc cs \<and> received part ((old @ b # bs) @ cs) s'))"
          by (rule "1.IH" [OF False r [symmetric] bs refl refl refl k [symmetric] refl True go d2])
        moreover have "length (b # bs) \<le> left" using read_at_most [of "min left CHUNK" False s "b # bs" s1] r bs by simp
        ultimately show ?thesis using f2
          by (auto intro: same_but_trans simp: crc32_append [symmetric] intro!: exI [of _ "(b # bs) @ cs" for cs])
      next
        case no: False
        obtain l s3 where s: "skip_rest ?left s2 = (l, s3)" by (cases "skip_rest ?left s2")
        then have "s' = s3" "\<not> ok" using "1.prems"(1) False r k bs no by (simp_all add: Let_def)
        then show ?thesis using same_but_trans [OF f2 same_but_skip [OF s]] by simp
      qed
    qed
  qed
qed

text \<open>Everything an upload does is under the inbox.\<close>

definition inside_inbox :: "serial \<Rightarrow> cstring set" where
  "inside_inbox s = {q. prefix_of (real_path (sr_inbox s) @ ''/'') q}"

text \<open>A path joined to another: what comes after a slash only adds to it, when it is a name that does not start with a dot.\<close>

definition plain_name :: "cstring \<Rightarrow> bool" where
  "plain_name n \<longleftrightarrow> n \<noteq> [] \<and> char_at n 0 \<noteq> CHR ''.'' \<and> CHR ''/'' \<notin> set n"

lemma segments_join: "segments ds seg (xs @ CHR ''/'' # ys) = segments (segments ds seg xs) [] ys"
  by (induction xs arbitrary: ds seg) simp_all

lemma segments_name: "CHR ''/'' \<notin> set n \<Longrightarrow> segments ds seg n = segment_taken ds (seg @ n)"
  by (induction n arbitrary: seg) auto

lemma real_join: "plain_name n \<Longrightarrow> real_path (d @ CHR ''/'' # n) = real_path d @ CHR ''/'' # n"
  unfolding real_path_def segments_join by (auto simp: plain_name_def segments_name segment_taken_def)

lemma real_empty: "real_path (d @ CHR ''/'' # []) = real_path d"
  unfolding real_path_def segments_join by (simp add: segment_taken_def)

lemma plain_segment: "good_segment p \<Longrightarrow> plain_name p \<and> plain_name (p @ ''.part'')"
  using good_segment_no [of p] by (cases p) (auto simp: plain_name_def good_segment_def)

lemma real_good:
  assumes "good_path path"
  shows "real_path (d @ CHR ''/'' # path) = real_path d @ CHR ''/'' # path"
    and "real_path (d @ CHR ''/'' # path @ ''.part'') = real_path d @ CHR ''/'' # path @ ''.part''"
  using assms
proof (atomize (full), cases rule: good_path_cases)
  case plain
  then show "real_path (d @ CHR ''/'' # path) = real_path d @ CHR ''/'' # path \<and>
      real_path (d @ CHR ''/'' # path @ ''.part'') = real_path d @ CHR ''/'' # path @ ''.part''"
    using plain_segment [of path] by (simp add: real_join)
next
  case (folder a b)
  have "real_path (d @ CHR ''/'' # a) = real_path d @ CHR ''/'' # a" using plain_segment [OF folder(2)] by (simp add: real_join)
  moreover have "real_path ((d @ CHR ''/'' # a) @ CHR ''/'' # b) = real_path (d @ CHR ''/'' # a) @ CHR ''/'' # b"
    "real_path ((d @ CHR ''/'' # a) @ CHR ''/'' # b @ ''.part'') = real_path (d @ CHR ''/'' # a) @ CHR ''/'' # b @ ''.part''"
    using plain_segment [OF folder(3)] by (blast intro: real_join)+
  ultimately show "real_path (d @ CHR ''/'' # path) = real_path d @ CHR ''/'' # path \<and>
      real_path (d @ CHR ''/'' # path @ ''.part'') = real_path d @ CHR ''/'' # path @ ''.part''"
    using folder(1) by simp
qed

lemma full_path_inside: "full_path s path = Some dest \<Longrightarrow> dest = sr_inbox s @ ''/'' @ path \<and> length dest < UPLOAD_PATH_CAP"
  by (auto simp: full_path_def fits_def split: if_splits)

lemma inside_inboxI: "real_path (sr_inbox s) @ CHR ''/'' # q \<in> inside_inbox s"
  using prefix_of_append [of "real_path (sr_inbox s) @ ''/''" q] by (simp add: inside_inbox_def)

lemma put_request_dest:
  assumes "put_request s args = Inr (bytes, want, path, dest)"
  shows "dest = sr_inbox s @ ''/'' @ path \<and> length dest < UPLOAD_PATH_CAP \<and> good_path path"
  using assms full_path_inside [of s path dest] unfolding put_request_def
  by (auto simp: Let_def split: prod.splits if_splits option.splits dest: full_path_inside)

lemma put_request_real:
  assumes "put_request s args = Inr (bytes, want, path, dest)"
  shows "real_path dest = real_path (sr_inbox s) @ CHR ''/'' # path"
    "real_path (dest @ ''.part'') = real_path (sr_inbox s) @ CHR ''/'' # path @ ''.part''"
  using put_request_dest [OF assms] real_good [of path "sr_inbox s"] by simp_all

lemma upload_folder_eq:
  assumes "put_request s args = Inr (bytes, want, path, dest)" and "upload_folder s path = Some dir"
  shows "\<exists>a b. path = a @ CHR ''/'' # b \<and> real_path dir = real_path (sr_inbox s) @ CHR ''/'' # a"
proof -
  obtain i where i: "find_char (CHR ''/'') path = Some i"
    "dir = clip UPLOAD_PATH_CAP (sr_inbox s @ ''/'' @ take i path)"
    using assms(2) by (auto simp: upload_folder_def split: option.splits)
  note d = put_request_dest [OF assms(1)]
  have "length (sr_inbox s @ ''/'' @ take i path) < UPLOAD_PATH_CAP" using d by auto
  then have dir: "dir = sr_inbox s @ CHR ''/'' # take i path" using i(2) by simp
  have "good_segment (take i path)" using d i(1) by (simp add: good_path_def)
  then have "real_path dir = real_path (sr_inbox s) @ CHR ''/'' # take i path"
    unfolding dir using plain_segment real_join by blast
  moreover have "path = take i path @ CHR ''/'' # drop (i + 1) path"
    using find_char_Some [OF i(1)] by (metis Suc_eq_plus1 id_take_nth_drop)
  ultimately show ?thesis by blast
qed

lemma same_but_receive: "receive left crc part s = (l, c, k, s') \<Longrightarrow> real_path part \<in> P \<Longrightarrow> same_but P s s'"
proof (induction left crc part s rule: receive.induct)
  case (1 left crc part s)
  note [simp] = receive.simps [of left crc part s]
  show ?case
  proof (cases "left = 0")
    case True
    then show ?thesis using "1.prems" by (simp add: same_but_refl)
  next
    case False
    obtain r s1 where r: "serial_read (min left CHUNK) False s = (r, s1)" by (cases "serial_read (min left CHUNK) False s")
    note f1 = same_but_serial_read [OF r, of P]
    show ?thesis
    proof (cases "r = None \<or> r = Some []")
      case True
      then show ?thesis using "1.prems" False r f1 by auto
    next
      case more: False
      then obtain b bs where bs: "r = Some (b # bs)" by (cases r) (auto, metis neq_Nil_conv)
      obtain k' s2 where k: "serial_append part (b # bs) s1 = (k', s2)" by (cases "serial_append part (b # bs) s1")
      have f2: "same_but P s s2" by (rule same_but_trans [OF f1 same_but_append [OF "1.prems"(2) k]])
      obtain l' s3 where s: "skip_rest (left - length (b # bs)) s2 = (l', s3)" by (cases "skip_rest (left - length (b # bs)) s2")
      show ?thesis
        using "1.IH" [OF False r [symmetric] bs refl refl refl k [symmetric] refl] "1.prems" False r k bs f2
          same_but_skip [OF s, of P] s
        by (cases k') (auto simp: Let_def intro: same_but_trans)
    qed
  qed
qed

text \<open>The same with the state the operation starts from reached by operations before it.\<close>

lemma same_but_snd:
  assumes "same_but P s t"
  shows "real_path p \<in> P \<Longrightarrow> same_but P s (snd (serial_unlink p t))" "real_path p \<in> P \<Longrightarrow> same_but P s (snd (serial_open p t))"
    "real_path p \<in> P \<Longrightarrow> same_but P s (snd (serial_close p t))" "real_path p \<in> P \<Longrightarrow> same_but P s (snd (serial_mkdir p t))"
    "real_path p \<in> P \<Longrightarrow> same_but P s (snd (serial_rmdir p t))" "real_path p \<in> P \<Longrightarrow> real_path q \<in> P \<Longrightarrow> same_but P s (snd (serial_rename p q t))"
    "real_path p \<in> P \<Longrightarrow> same_but P s (snd (snd (snd (receive n c p t))))" "same_but P s (snd (read_byte forever t))"
  by (rule same_but_trans [OF assms], metis same_but_ops same_but_receive prod.collapse)+

lemma same_but_publish: "real_path part \<in> P \<Longrightarrow> real_path dest \<in> P \<Longrightarrow> same_but P s t \<Longrightarrow> same_but P s (publish part dest t)"
  unfolding publish_def by (simp add: Let_def split_def serial_frames same_but_snd)

lemma same_but_put_file:
  "real_path part \<in> P \<Longrightarrow> real_path dest \<in> P \<Longrightarrow> same_but P s t \<Longrightarrow> same_but P s (put_file bytes want part dest t)"
  unfolding put_file_def
  by (auto simp: Let_def split_def serial_frames same_but_snd same_but_publish split: bool.split prod.split)

lemma same_but_put: "same_but (inside_inbox s) s (put args s)"
proof (cases "put_request s args")
  case (Inl err)
  then show ?thesis by (simp add: put_def serial_frames)
next
  case (Inr r)
  obtain bytes want path dest where r: "put_request s args = Inr (bytes, want, path, dest)" using Inr by (cases r) auto
  have d: "real_path dest \<in> inside_inbox s" "real_path (dest @ ''.part'') \<in> inside_inbox s"
    unfolding put_request_real [OF r] by (rule inside_inboxI)+
  obtain k s1 where m: "make_folder path s = (k, s1)" by (cases "make_folder path s")
  have "same_but (inside_inbox s) s s1"
  proof (cases "upload_folder s path")
    case None
    then show ?thesis using m by (simp add: make_folder_def)
  next
    case (Some dir)
    have "real_path dir \<in> inside_inbox s" using upload_folder_eq [OF r Some] inside_inboxI [of s] by force
    then show ?thesis using m Some same_but_mkdir by (simp add: make_folder_def)
  qed
  then show ?thesis using r m d by (cases k) (simp_all add: put_def serial_frames same_but_put_file)
qed

lemma same_but_unlink_all:
  "(\<And>n. n \<in> set ns \<Longrightarrow> char_at n 0 \<noteq> CHR ''.'' \<Longrightarrow> real_path (full @ CHR ''/'' # n) \<in> P) \<Longrightarrow> same_but P s t \<Longrightarrow>
    same_but P s (unlink_all full ns t)"
  by (induction full ns t rule: unlink_all.induct) (auto simp: Let_def same_but_snd)

lemma same_but_del: "same_but (inside_inbox s) s (del path s)"
proof (cases "if good_path path then full_path s path else None")
  case None
  then show ?thesis by (simp add: del_def serial_frames)
next
  case (Some full)
  then have e: "full = sr_inbox s @ ''/'' @ path" using full_path_inside [of s path full] by (simp split: if_splits)
  have path: "good_path path" using Some by (simp split: if_splits)
  have full: "real_path full = real_path (sr_inbox s) @ CHR ''/'' # path" using real_good(1) [OF path, of "sr_inbox s"] e by simp
  have m: "real_path full \<in> inside_inbox s" unfolding full by (rule inside_inboxI)
  have "real_path (full @ CHR ''/'' # n) \<in> inside_inbox s"
    if "n \<in> set (children d (sr_disk s))" "char_at n 0 \<noteq> CHR ''.''" for n d
  proof (cases "n = []")
    case True
    then show ?thesis using m real_empty [of full] by simp
  next
    case False
    moreover have "CHR ''/'' \<notin> set n" using that(1) by (auto simp: children_def under_def)
    ultimately have "plain_name n" using that(2) by (simp add: plain_name_def)
    from real_join [OF this, of full] show ?thesis using inside_inboxI [of s "path @ CHR ''/'' # n"] full by simp
  qed
  then have "same_but (inside_inbox s) s (unlink_all full (children (real_path full) (sr_disk s)) s)"
    by (intro same_but_unlink_all) auto
  then show ?thesis using Some m
    by (simp add: del_def Let_def split_def serial_frames same_but_snd split: option.split node.split)
qed

lemma same_but_list_entries:
  assumes "\<And>path t. same_but P t (inner path t)"
  shows "same_but P t (list_entries inner rel ns t)"
proof (induction ns arbitrary: t)
  case (Cons n ns)
  have "same_but P t (if c then t else case f of None \<Rightarrow> t
      | Some Dir \<Rightarrow> if rel = [] then inner path t else t | Some (File bs) \<Rightarrow> reply (text bs) t)" for c f path "text"
    using assms by (simp add: serial_frames split: option.split node.split)
  then show ?case unfolding list_entries.simps Let_def by (rule same_but_trans) (rule Cons.IH)
qed simp

lemma same_but_list_dir: "same_but P t (list_dir rel t)"
  unfolding list_dir_def list_with_def
  by (auto simp: Let_def intro!: same_but_list_entries)

lemma same_but_body: "sequence_body body s = (r, s') \<Longrightarrow> same_but P s s'"
proof (induction body s arbitrary: r s' rule: sequence_body.induct)
  case (1 body s)
  obtain g s1 where g: "read_byte False s = (g, s1)" by (cases "read_byte False s")
  note same_but_read_byte [OF g, of P]
  then show ?case using "1.IH" [OF g [symmetric] _ refl] "1.prems" g
    by (cases g) (auto simp: sequence_body.simps [of body s] Let_def split: if_splits intro: same_but_trans)
qed

lemma same_but_line: "command_line line s = (r, s') \<Longrightarrow> same_but P s s'"
proof (induction line s arbitrary: r s' rule: command_line.induct)
  case (1 line s)
  obtain g s1 where g: "read_byte False s = (g, s1)" by (cases "read_byte False s")
  note same_but_read_byte [OF g, of P]
  then show ?case using "1.IH" [OF g [symmetric]] "1.prems" g
    by (cases g) (auto simp: command_line.simps [of line s] serial_frames split: if_splits intro: same_but_trans)
qed

lemma inbox_kept: "same_but P s t \<Longrightarrow> inside_inbox t = inside_inbox s"
  by (simp add: same_but_def inside_inbox_def)

lemma same_but_command: "same_but (inside_inbox s) s (command s)"
proof -
  obtain r s1 where l: "command_line [] s = (r, s1)" by (cases "command_line [] s")
  have f: "same_but (inside_inbox s) s s1" by (rule same_but_line [OF l])
  have "same_but (inside_inbox s) s1 (serve line s1)" for line
    using same_but_put [of s1] same_but_del [of s1] inbox_kept [OF f]
    by (simp add: serve_def serial_frames same_but_list_dir)
  then show ?thesis using f l by (cases r) (auto simp: command_def intro: same_but_trans)
qed

lemma same_but_escape: "same_but P s (escape s)"
proof -
  obtain g s1 where g: "read_byte False s = (g, s1)" by (cases "read_byte False s")
  have f: "same_but P s s1" by (rule same_but_read_byte [OF g])
  have "same_but P s1 (sequence c s1)" for c
    using same_but_body by (auto simp: sequence_def serial_frames split: prod.split option.split)
  then show ?thesis using f g by (cases g) (auto simp: escape_def serial_frames intro: same_but_trans)
qed

lemma same_but_step: "same_but (inside_inbox s) s (snd (qdos_serial_step s))"
proof -
  obtain g s1 where g: "read_byte True s = (g, s1)" by (cases "read_byte True s")
  have f: "same_but (inside_inbox s) s s1" by (rule same_but_read_byte [OF g])
  have "same_but (inside_inbox s) s (s1\<lparr>sr_after_cr := c\<rparr>)" for c using f by (simp add: same_but_def)
  moreover have "same_but (inside_inbox t) t (on_byte b t)" for b t
    by (simp add: on_byte_def serial_frames same_but_command same_but_escape)
  ultimately have "same_but (inside_inbox s) s (on_byte b (s1\<lparr>sr_after_cr := c\<rparr>))" for b c
    using inbox_kept by (metis same_but_trans)
  then show ?thesis using f g \<open>\<And>c. same_but _ _ (s1\<lparr>sr_after_cr := c\<rparr>)\<close>
    by (cases g) (simp_all add: qdos_serial_step_def Let_def)
qed

section \<open>Putting a file in place\<close>

definition answered_ok :: "serial \<Rightarrow> bool" where
  "answered_ok s \<longleftrightarrow> sr_log s \<noteq> [] \<and> last (sr_log s) = Written (''QDUP OK'' @ [newline])"

lemma answered_reply:
  "answered_ok (reply ''OK'' s)" "\<not> answered_ok (reply (CHR ''E'' # t) s)"
  by (simp_all add: answered_ok_def reply_def say_def clip_def CMD_MAX_def)

lemma reply_state [simp]:
  "sr_disk (reply t s) = sr_disk s" "sr_power (reply t s) = sr_power s" "sr_disk (say e s) = sr_disk s"
  "sr_power (say e s) = sr_power s"
  by (simp_all add: reply_def say_def)

lemma received_frame:
  "received part bs s \<Longrightarrow> same_but P s t \<Longrightarrow> real_path part \<notin> P \<Longrightarrow> received part bs t"
  by (auto simp: received_def same_but_def)

lemma publish_spec:
  assumes "received part bs s" and "real_path part \<noteq> real_path dest"
    and "parent_of (real_path dest) \<notin> {real_path part, real_path dest}"
    and "map_of (sr_disk s) (parent_of (real_path dest)) = Some Dir"
  defines "s' \<equiv> publish part dest s"
    and "at_dest \<equiv> \<lambda>s. map_of (sr_disk s) (real_path dest)"
  shows "(at_dest s' = at_dest s \<or> at_dest s' = Some (File bs) \<or>
      at_dest s' = None \<and> (sr_refuses s \<or> 0 < sr_power s \<and> map_of (sr_disk s') (real_path part) = Some (File bs))) \<and>
    (0 < sr_power s' \<longrightarrow> (if answered_ok s' then at_dest s' = Some (File bs)
       else at_dest s' = at_dest s \<or> at_dest s' = None \<and> sr_refuses s))"
proof -
  obtain k1 s1 where u: "serial_unlink dest s = (k1, s1)" by (cases "serial_unlink dest s")
  obtain k2 s2 where r: "serial_rename part dest s1 = (k2, s2)" by (cases "serial_rename part dest s1")
  have f1: "same_but {real_path dest} s s1" by (rule same_but_unlink [OF _ u]) simp
  have got: "received part bs s1" by (rule received_frame [OF assms(1) f1]) (use assms(2) in simp)
  have dir: "map_of (sr_disk s1) (parent_of (real_path dest)) = Some Dir" using f1 assms(3,4) by (simp add: same_but_def)
  have there: "map_of (sr_disk s1) (real_path part) = map_of (sr_disk s) (real_path part)" using f1 assms(2) by (simp add: same_but_def)
  have refuses: "sr_refuses s1 = sr_refuses s" using f1 by (simp add: same_but_def)
  have d1: "at_dest s1 = at_dest s \<or> at_dest s1 = None \<and> 0 < sr_power s"
    "at_dest s1 \<noteq> None \<longrightarrow> 0 < sr_power s1 \<longrightarrow> at_dest s1 = at_dest s"
    using u by (auto simp: at_dest_def serial_unlink_def Let_def on_disk_def map_of_delete split: if_splits)
  show ?thesis
  proof (cases k2)
    case True
    then have s': "s' = reply ''OK'' (say Touched s2)" using u r by (simp add: s'_def publish_def Let_def)
    have "0 < sr_power s1 \<Longrightarrow> at_dest s2 = Some (File bs)"
      using r True got
      by (auto simp: at_dest_def serial_rename_def Let_def on_disk_def update_conv' file_bytes_def received_def split: if_splits)
    moreover have "sr_power s1 = 0 \<Longrightarrow> sr_disk s2 = sr_disk s1 \<and> sr_power s2 = 0"
      using r True by (auto simp: serial_rename_def Let_def on_disk_def split: if_splits)
    moreover have "0 < sr_power s \<Longrightarrow> map_of (sr_disk s1) (real_path part) = Some (File bs)"
      using there assms(1) by (simp add: received_def)
    ultimately show ?thesis
      using s' d1 answered_reply(1) [of "say Touched s2"] by (cases "sr_power s1 = 0") (auto simp: at_dest_def)
  next
    case False
    then have s2: "s2 = s1" using r by (auto simp: serial_rename_def Let_def split: if_splits)
    obtain k3 s3 where u3: "serial_unlink part s1 = (k3, s3)" by (cases "serial_unlink part s1")
    have s': "s' = reply ''ERR RENAME'' s3" using u r u3 False s2 by (simp add: s'_def publish_def Let_def)
    have f3: "same_but {real_path part} s1 s3" by (rule same_but_unlink [OF _ u3]) simp
    then have d3: "at_dest s3 = at_dest s1" "sr_power s3 \<le> sr_power s1"
      using assms(2) by (auto simp: same_but_def at_dest_def)
    have kept: "0 < sr_power s1 \<Longrightarrow> \<not> sr_refuses s \<Longrightarrow> at_dest s1 = at_dest s"
      using r False got dir d1(2) refuses
      by (auto simp: at_dest_def serial_rename_def Let_def is_file_def received_def split: if_splits)
    have cut: "sr_power s1 = 0 \<Longrightarrow> 0 < sr_power s \<Longrightarrow> map_of (sr_disk s3) (real_path part) = Some (File bs)"
      using u3 there assms(1) by (auto simp: received_def serial_unlink_def Let_def on_disk_def split: if_splits)
    have "at_dest s' = at_dest s1" "sr_power s' = sr_power s3" "\<not> answered_ok s'" "sr_disk s' = sr_disk s3"
      using s' d3 answered_reply(2) by (auto simp: at_dest_def)
    then show ?thesis using d1 d3(2) kept cut by (cases "sr_power s1 = 0") auto
  qed
qed

lemma open_spec:
  assumes "serial_open part s = (True, s1)"
  shows "received part [] s1" and "map_of (sr_disk s) (parent_of (real_path part)) = Some Dir"
  using assms by (auto simp: serial_open_def Let_def received_def on_disk_def update_conv' split: if_splits)

lemma received_close: "received part bs s \<Longrightarrow> serial_close part s = (True, s') \<Longrightarrow> received part bs s'"
  by (auto simp: serial_close_def Let_def split: option.splits)

text \<open>
  What may be at the destination after a file is put there, or is not: the file asked for, whole; what there was; or, where the
  power went between taking the old one away and putting the new one in its place, nothing, the new one still whole beside it. A
  medium that refuses the rename loses both.
\<close>

definition checked :: "nat \<Rightarrow> nat \<Rightarrow> node option \<Rightarrow> bool" where
  "checked bytes want n \<longleftrightarrow> (\<exists>bs. n = Some (File bs) \<and> length bs = bytes \<and> qdos_serial_crc32 0 bs = of_nat want)"

definition placed :: "nat \<Rightarrow> nat \<Rightarrow> cstring \<Rightarrow> serial \<Rightarrow> serial \<Rightarrow> bool" where
  "placed bytes want dest s s' \<longleftrightarrow>
     (let there = map_of (sr_disk s') (real_path dest); old = (there = map_of (sr_disk s) (real_path dest));
          beside = map_of (sr_disk s') (real_path (dest @ ''.part''))
      in (checked bytes want there \<or> old \<or> there = None \<and> (sr_refuses s \<or> checked bytes want beside)) \<and>
         (0 < sr_power s' \<longrightarrow> (if answered_ok s' then checked bytes want there else old \<or> there = None \<and> sr_refuses s)))"

lemma placed_old:
  "map_of (sr_disk s') (real_path dest) = map_of (sr_disk s) (real_path dest) \<Longrightarrow> \<not> answered_ok s' \<Longrightarrow> placed bytes want dest s s'"
  by (simp add: placed_def)

lemma placed_frame:
  assumes "placed bytes want dest t s'" and "same_but P s t" and "real_path dest \<notin> P"
  shows "placed bytes want dest s s'"
proof -
  have same: "map_of (sr_disk t) (real_path dest) = map_of (sr_disk s) (real_path dest)" "sr_refuses t = sr_refuses s"
    using assms(2,3) by (simp_all add: same_but_def)
  show ?thesis using assms(1) unfolding placed_def Let_def same .
qed

lemma put_file_places:
  assumes "part = dest @ ''.part''" and "real_path part \<noteq> real_path dest" and "parent_of (real_path part) = parent_of (real_path dest)"
    and "parent_of (real_path dest) \<notin> {real_path part, real_path dest}"
  shows "placed bytes want dest s (put_file bytes want part dest s)"
proof -
  obtain k1 s1 where o: "serial_open part s = (k1, s1)" by (cases "serial_open part s")
  have f1: "same_but {real_path part} s s1" by (rule same_but_open [OF _ o]) simp
  show ?thesis
  proof (cases k1)
    case False
    then show ?thesis using o f1 assms(2)
      by (intro placed_old) (simp_all add: put_file_def answered_reply same_but_def)
  next
    case True
    let ?s = "reply ''READY'' s1"
    obtain left crc ok s2 where r: "receive bytes 0 part ?s = (left, crc, ok, s2)" by (cases "receive bytes 0 part ?s")
    obtain closed s3 where c: "serial_close part s2 = (closed, s3)" by (cases "serial_close part s2")
    have got1: "received part [] ?s" and par: "map_of (sr_disk s) (parent_of (real_path dest)) = Some Dir"
      using open_spec [of part s s1] o True assms(3) by (auto simp: received_def)
    note spec = receive_spec [OF r got1]
    have f3: "same_but {real_path part} s s3"
    proof -
      have "same_but {real_path part} s ?s" using f1 by (simp add: serial_frames)
      moreover have "same_but {real_path part} ?s s2" using spec by simp
      moreover have "same_but {real_path part} s2 s3" by (rule same_but_close [OF _ c]) simp
      ultimately show ?thesis by (blast intro: same_but_trans)
    qed
    have same3: "map_of (sr_disk s3) (real_path dest) = map_of (sr_disk s) (real_path dest)"
      using f3 assms(2) by (simp add: same_but_def)
    have fail: "placed bytes want dest s (reply (CHR ''E'' # t) (snd (serial_unlink part s3)))" for t
      using same_but_snd(1) [OF f3, of part] assms(2)
      by (intro placed_old) (simp_all add: answered_reply same_but_def)
    show ?thesis
    proof (cases "closed \<and> ok \<and> left = 0 \<and> crc = of_nat want")
      case False
      then show ?thesis using o True r c fail by (auto simp: put_file_def Let_def)
    next
      case ok: True
      then obtain bs where bs: "length bs = bytes" "crc = qdos_serial_crc32 0 bs" "received part bs s2" using spec by auto
      then have good: "checked bytes want (Some (File bs))" using ok by (simp add: checked_def)
      have "received part bs s3" by (rule received_close [OF bs(3)]) (use c ok in simp)
      moreover have "map_of (sr_disk s3) (parent_of (real_path dest)) = Some Dir" using f3 par assms(4) by (simp add: same_but_def)
      ultimately have "placed bytes want dest s3 (publish part dest s3)"
        using publish_spec [of part bs s3 dest] assms(2,4) good unfolding placed_def Let_def assms(1) by auto
      moreover have "put_file bytes want part dest s = publish part dest s3"
        using o True r c ok by (simp add: put_file_def Let_def)
      ultimately show ?thesis using placed_frame [OF _ f3] assms(2) by auto
    qed
  qed
qed

lemma parent_of_path:
  assumes "good_path path"
  shows "parent_of (d @ CHR ''/'' # path @ ''.part'') = parent_of (d @ CHR ''/'' # path)"
    and "length (parent_of (d @ CHR ''/'' # path)) < length (d @ CHR ''/'' # path)"
  using assms
proof (atomize (full), cases rule: good_path_cases)
  case plain
  have "CHR ''/'' \<notin> set path" "CHR ''/'' \<notin> set (path @ ''.part'')" using good_segment_no [OF plain] by auto
  from parent_of_append [OF this(1), of d] parent_of_append [OF this(2), of d]
  show "parent_of (d @ CHR ''/'' # path @ ''.part'') = parent_of (d @ CHR ''/'' # path) \<and>
      length (parent_of (d @ CHR ''/'' # path)) < length (d @ CHR ''/'' # path)" by simp
next
  case (folder a b)
  have b: "CHR ''/'' \<notin> set b" "CHR ''/'' \<notin> set (b @ ''.part'')" using good_segment_no [OF folder(3)] by auto
  from parent_of_append [OF b(1), of "d @ CHR ''/'' # a"] parent_of_append [OF b(2), of "d @ CHR ''/'' # a"]
  show "parent_of (d @ CHR ''/'' # path @ ''.part'') = parent_of (d @ CHR ''/'' # path) \<and>
      length (parent_of (d @ CHR ''/'' # path)) < length (d @ CHR ''/'' # path)"
    using folder(1) by simp
qed

lemma folder_is_not_dest:
  assumes "put_request s args = Inr (bytes, want, path, dest)" and "upload_folder s path = Some dir"
  shows "real_path dir \<noteq> real_path dest"
  using upload_folder_eq [OF assms] put_request_real(1) [OF assms(1)] by force

lemma put_places:
  assumes "put_request s args = Inr (bytes, want, path, dest)"
  shows "placed bytes want dest s (put args s)"
proof -
  obtain k s1 where m: "make_folder path s = (k, s1)" by (cases "make_folder path s")
  have f: "same_but (- {real_path dest}) s s1"
    using m folder_is_not_dest [OF assms] same_but_mkdir [of _ "- {real_path dest}"]
    by (auto simp: make_folder_def split: option.splits)
  show ?thesis
  proof (cases k)
    case False
    then have "put args s = reply ''ERR MKDIR'' s1" using assms m by (simp add: put_def)
    moreover have "map_of (sr_disk s1) (real_path dest) = map_of (sr_disk s) (real_path dest)" using f by (simp add: same_but_def)
    ultimately show ?thesis by (simp add: placed_old answered_reply)
  next
    case True
    note d = put_request_real [OF assms]
    have path: "good_path path" using put_request_dest [OF assms] by simp
    have "placed bytes want dest s1 (put_file bytes want (dest @ ''.part'') dest s1)"
    proof (rule put_file_places)
      show "parent_of (real_path (dest @ ''.part'')) = parent_of (real_path dest)" unfolding d using parent_of_path(1) [OF path] by simp
      have "length (parent_of (real_path dest)) < length (real_path dest)" unfolding d using parent_of_path(2) [OF path] by simp
      moreover have "length (real_path dest) < length (real_path (dest @ ''.part''))" unfolding d by simp
      ultimately show "parent_of (real_path dest) \<notin> {real_path (dest @ ''.part''), real_path dest}" by auto
      show "real_path (dest @ ''.part'') \<noteq> real_path dest" unfolding d by simp
    qed simp
    then show ?thesis using placed_frame [OF _ f] assms m True by (simp add: put_def)
  qed
qed

section \<open>What the console reads\<close>

text \<open>The bytes still to arrive, however they are cut into chunks and whatever silences are between.\<close>

definition port_bytes :: "arrival list \<Rightarrow> byte list" where
  "port_bytes p = concat (map (\<lambda>a. case a of Bytes bs \<Rightarrow> bs | Quiet \<Rightarrow> []) p)"

lemma port_read_one:
  "port_bytes p = b # bs \<Longrightarrow> \<exists>p'. port_read 1 True p = (Some [b], p') \<and> port_bytes p' = bs"
proof (induction p)
  case (Cons a p)
  show ?case
  proof (cases a)
    case (Bytes cs)
    then show ?thesis using Cons
      by (cases cs; cases "tl cs") (auto simp: port_bytes_def)
  next
    case Quiet
    then show ?thesis using Cons by (simp add: port_bytes_def)
  qed
qed (simp add: port_bytes_def)

lemma read_byte_one:
  assumes "port_bytes (sr_port s) = b # bs"
  obtains p where "read_byte True s = (Got b, s\<lparr>sr_port := p\<rparr>)" and "port_bytes p = bs"
  using port_read_one [OF assms] by (auto simp: read_byte_def serial_read_def)

definition after_step :: "serial \<Rightarrow> serial" where
  "after_step s = snd (qdos_serial_step s)"

abbreviation (input) CR :: byte where "CR \<equiv> 0x0D"
abbreviation (input) LF :: byte where "LF \<equiv> 0x0A"

definition printable :: "byte \<Rightarrow> bool" where
  "printable b \<longleftrightarrow> 0x20 \<le> b \<and> b < 0x7F"

definition typed_key :: "byte \<Rightarrow> event" where
  "typed_key b = Pressed (qdos_pad_typed (char_of_byte b))"

definition enter_key :: event where
  "enter_key = Pressed (key_event QDOS_KEY_ENTER)"

text \<open>Two steps of the log are one: what is left to read, what was said, and whether a CR came last.\<close>

definition reads :: "byte list \<Rightarrow> bool \<Rightarrow> event list \<Rightarrow> serial \<Rightarrow> bool" where
  "reads bs cr log s \<longleftrightarrow> port_bytes (sr_port s) = bs \<and> sr_after_cr s = cr \<and> sr_log s = log"

lemma reads_printable:
  assumes "reads (b # bs) cr log s" and "printable b"
  shows "reads bs False (log @ [typed_key b]) (after_step s)"
proof -
  obtain p where p: "read_byte True s = (Got b, s\<lparr>sr_port := p\<rparr>)" "port_bytes p = bs"
    using assms(1) read_byte_one [of s b bs] by (auto simp: reads_def)
  have "b \<noteq> CR \<and> b \<noteq> LF \<and> b \<noteq> 0x7F \<and> b \<noteq> 0x08 \<and> b \<noteq> 0x09 \<and> b \<noteq> 0x02 \<and> b \<noteq> 0x1B"
    using assms(2) by (auto simp: printable_def)
  then show ?thesis using p assms
    by (simp add: reads_def after_step_def qdos_serial_step_def on_byte_def say_def typed_key_def printable_def Let_def)
qed

lemma reads_cr:
  assumes "reads (CR # bs) cr log s"
  shows "reads bs True (log @ [enter_key]) (after_step s)"
proof -
  obtain p where p: "read_byte True s = (Got CR, s\<lparr>sr_port := p\<rparr>)" "port_bytes p = bs"
    using assms(1) read_byte_one [of s CR bs] by (auto simp: reads_def)
  then show ?thesis using assms
    by (simp add: reads_def after_step_def qdos_serial_step_def on_byte_def say_def send_key_def enter_key_def Let_def)
qed

lemma reads_lf:
  assumes "reads (LF # bs) cr log s"
  shows "reads bs False (if cr then log else log @ [enter_key]) (after_step s)"
proof -
  obtain p where p: "read_byte True s = (Got LF, s\<lparr>sr_port := p\<rparr>)" "port_bytes p = bs"
    using assms(1) read_byte_one [of s LF bs] by (auto simp: reads_def)
  then show ?thesis using assms
    by (simp add: reads_def after_step_def qdos_serial_step_def on_byte_def say_def send_key_def enter_key_def Let_def)
qed

lemma reads_line:
  assumes "reads (l @ rest) cr log s" and "list_all printable l"
  shows "reads rest (if l = [] then cr else False) (log @ map typed_key l) ((after_step ^^ length l) s)"
  using assms
proof (induction l arbitrary: s cr log)
  case (Cons b l)
  have "reads (l @ rest) False (log @ [typed_key b]) (after_step s)"
    using reads_printable [of b "l @ rest" cr log s] Cons.prems by simp
  from Cons.IH [OF this] Cons.prems(2) show ?case by (simp add: funpow_Suc_right del: funpow.simps)
qed simp

definition line_end_ok :: "byte list \<Rightarrow> bool" where
  "line_end_ok t \<longleftrightarrow> t = [CR] \<or> t = [LF] \<or> t = [CR, LF]"

text \<open>A line's end is one Enter, and leaves the console ready for the next line.\<close>

lemma reads_end:
  assumes "reads (t @ rest) cr log s" and "line_end_ok t" and "cr \<longrightarrow> t = [CR]"
  shows "\<exists>cr'. (cr' \<longrightarrow> t = [CR]) \<and> reads rest cr' (log @ [enter_key]) ((after_step ^^ length t) s)"
  using assms(2) unfolding line_end_ok_def
proof (elim disjE)
  assume t: "t = [CR]"
  then show ?thesis using reads_cr [of rest cr log s] assms(1) by (intro exI [of _ True]) simp
next
  assume t: "t = [LF]"
  then show ?thesis using reads_lf [of rest cr log s] assms(1,3) by (intro exI [of _ False]) simp
next
  assume t: "t = [CR, LF]"
  then have "reads (LF # rest) True (log @ [enter_key]) (after_step s)" using reads_cr [of "LF # rest" cr log s] assms(1) by simp
  from reads_lf [OF this] show ?thesis using t by (intro exI [of _ False]) simp
qed

definition typed_lines :: "byte list list \<Rightarrow> event list" where
  "typed_lines ls = concat (map (\<lambda>l. map typed_key l @ [enter_key]) ls)"

lemma reads_lines:
  assumes "reads (concat (map (\<lambda>l. l @ t) ls)) cr log s" and "line_end_ok t" and "cr \<longrightarrow> t = [CR]"
    and "list_all (list_all printable) ls"
  shows "sr_log ((after_step ^^ length (concat (map (\<lambda>l. l @ t) ls))) s) = log @ typed_lines ls"
  using assms
proof (induction ls arbitrary: s cr log)
  case Nil
  then show ?case by (simp add: reads_def typed_lines_def)
next
  case (Cons l ls)
  let ?rest = "concat (map (\<lambda>l. l @ t) ls)" and ?s1 = "(after_step ^^ length l) s"
  have "reads (t @ ?rest) (if l = [] then cr else False) (log @ map typed_key l) ?s1"
    using reads_line [of l "t @ ?rest" cr log s] Cons.prems by simp
  moreover have "(if l = [] then cr else False) \<longrightarrow> t = [CR]" using Cons.prems(3) by simp
  ultimately obtain cr' where "cr' \<longrightarrow> t = [CR]"
    "reads ?rest cr' ((log @ map typed_key l) @ [enter_key]) ((after_step ^^ length t) ?s1)"
    using reads_end [of t ?rest "if l = [] then cr else False" "log @ map typed_key l" ?s1] Cons.prems(2) by blast
  from Cons.IH [OF this(2) Cons.prems(2) this(1)] Cons.prems(4)
  have "sr_log ((after_step ^^ length ?rest) ((after_step ^^ length t) ?s1)) = log @ typed_lines (l # ls)"
    by (simp add: typed_lines_def)
  moreover have "length (concat (map (\<lambda>l. l @ t) (l # ls))) = length ?rest + (length t + length l)" by simp
  ultimately show ?case by (simp only: funpow_add o_apply)
qed

section \<open>The checksum\<close>

lemma crc_bit_cases: "crc_bit x = (if odd x then drop_bit 1 x XOR 0xEDB88320 else drop_bit 1 x)"
  by (auto simp: crc_bit_def and_one_eq odd_iff_mod_2_eq_one)

text \<open>The polynomial's top bit tells what was shifted out, so no two registers come to the same.\<close>

lemma crc_bit_inj: "crc_bit x = crc_bit y \<longleftrightarrow> x = y"
proof
  assume e: "crc_bit x = crc_bit y"
  have top: "bit (crc_bit z) 31 = odd z" for z
    using bit_imp_le_length [of z 32] by (auto simp: crc_bit_cases bit_simps)
  then have o: "odd x = odd y" using e by metis
  have "drop_bit 1 x = drop_bit 1 y"
  proof (cases "odd x")
    case True
    then have "(drop_bit 1 x XOR 0xEDB88320) XOR 0xEDB88320 = (drop_bit 1 y XOR 0xEDB88320) XOR 0xEDB88320"
      using e o by (simp add: crc_bit_cases)
    then show ?thesis by (simp only: xor.assoc xor_self_eq xor.right_neutral)
  qed (use e o in \<open>simp add: crc_bit_cases\<close>)
  then have "bit x (Suc n) = bit y (Suc n)" for n by (metis bit_drop_bit_eq plus_1_eq_Suc comp_apply)
  moreover have "bit x 0 = bit y 0" using o by (simp add: bit_0)
  ultimately have "bit x n = bit y n" for n by (cases n) auto
  then show "x = y" by (intro bit_word_eqI) simp
qed simp

lemma crc_byte_inj: "crc_byte c a = crc_byte d a \<longleftrightarrow> c = d" "crc_byte c a = crc_byte c b \<longleftrightarrow> a = b"
proof -
  have p: "(crc_bit ^^ n) x = (crc_bit ^^ n) y \<longleftrightarrow> x = y" for n x y
    by (induction n) (simp_all only: funpow.simps id_apply o_apply crc_bit_inj)
  have x: "c XOR u = d XOR u \<longleftrightarrow> c = d" for c d u :: "32 word"
  proof
    assume "c XOR u = d XOR u"
    then have "(c XOR u) XOR u = (d XOR u) XOR u" by (rule arg_cong)
    then show "c = d" by (simp only: xor.assoc xor_self_eq xor.right_neutral)
  qed simp
  show "crc_byte c a = crc_byte d a \<longleftrightarrow> c = d" unfolding crc_byte_def by (simp only: p x)
  have "c XOR ucast a = c XOR ucast b \<longleftrightarrow> (ucast a :: 32 word) = ucast b"
    unfolding xor.commute [of c] by (rule x)
  also have "\<dots> \<longleftrightarrow> a = b"
  proof
    assume "(ucast a :: 32 word) = ucast b"
    then have e: "bit (ucast a :: 32 word) n = bit (ucast b :: 32 word) n" for n by simp
    have "n < 8 \<Longrightarrow> bit a n = bit b n" for n using e [of n] by (simp add: bit_ucast_iff)
    then show "a = b" by (intro bit_word_eqI) simp
  qed simp
  finally show "crc_byte c a = crc_byte c b \<longleftrightarrow> a = b" unfolding crc_byte_def by (simp only: p)
qed

lemma crc_foldl_inj: "foldl crc_byte c xs = foldl crc_byte d xs \<longleftrightarrow> c = d"
  by (induction xs arbitrary: c d) (simp_all add: crc_byte_inj)

section \<open>Steps and what is on the port\<close>

lemma port_read_forever:
  "port_read 1 True p = (r, p') \<Longrightarrow> (r = None \<and> p' = []) \<or> (\<exists>b. r = Some [b])"
proof (induction p)
  case (Cons a p)
  show ?case
  proof (cases a)
    case (Bytes bs)
    then show ?thesis using Cons by (cases bs) auto
  qed (use Cons in simp)
qed simp

lemma same_but_on_byte: "same_but (inside_inbox t) t (on_byte b t)"
  by (simp add: on_byte_def serial_frames same_but_command same_but_escape)

lemma step_shrinks:
  assumes "sr_port s \<noteq> []"
  shows "port_size (sr_port (after_step s)) < port_size (sr_port s)"
proof -
  obtain r p where r: "port_read 1 True (sr_port s) = (r, p)" by (cases "port_read 1 True (sr_port s)")
  from port_read_forever [OF r] show ?thesis
  proof
    assume "r = None \<and> p = []"
    moreover have "0 < port_size (sr_port s)" using assms by (cases "sr_port s"; cases "hd (sr_port s)") auto
    ultimately show ?thesis
      using r by (simp add: after_step_def qdos_serial_step_def read_byte_def serial_read_def)
  next
    assume "\<exists>b. r = Some [b]"
    then obtain b where b: "r = Some [b]" by blast
    have g: "read_byte True s = (Got b, s\<lparr>sr_port := p\<rparr>)" using r b by (simp add: read_byte_def serial_read_def)
    have "port_size p < port_size (sr_port s)" using read_byte_size [OF g] by simp
    moreover have "port_size (sr_port (on_byte b (s\<lparr>sr_port := p, sr_after_cr := c\<rparr>))) \<le> port_size p" for c
      using same_but_on_byte [of "s\<lparr>sr_port := p, sr_after_cr := c\<rparr>" b] by (simp add: same_but_def)
    ultimately show ?thesis
      using g by (auto simp: after_step_def qdos_serial_step_def Let_def intro: le_less_trans)
  qed
qed

lemma steps_shrink: "port_size (sr_port ((after_step ^^ n) s)) \<le> port_size (sr_port s) - n"
proof (induction n)
  case (Suc n)
  let ?t = "(after_step ^^ n) s"
  show ?case
  proof (cases "sr_port ?t = []")
    case True
    have "port_size (sr_port (after_step ?t)) \<le> port_size (sr_port ?t)"
      using same_but_step [of ?t] by (simp add: same_but_def after_step_def)
    then show ?thesis using True by simp
  next
    case False
    then show ?thesis using step_shrinks [OF False] Suc by simp
  qed
qed simp

lemma port_size_zero: "port_size p = 0 \<longleftrightarrow> p = []"
  by (cases p; cases "hd p") auto

section \<open>Properties\<close>


definition inbox_disk :: disk where
  "inbox_disk = [(''/i'', Dir), (''/i/a.qd'', File [1, 2])]"

definition port_of :: "arrival list \<Rightarrow> serial" where
  "port_of p = \<lparr>sr_port = p, sr_after_cr = False, sr_inbox = ''/i'', sr_ulong = 32, sr_log = [],
     sr_disk = inbox_disk, sr_room = 4096, sr_flush = None, sr_power = 100, sr_refuses = False\<rparr>"


text \<open>
  C24. Nothing that arrives on the port, in any number of steps, can change a file outside the inbox, paths being
  resolved as the system does, so that no \<^verbatim>\<open>..\<close> of a command leads out of it.
\<close>

theorem console_stays_in_the_inbox:
  assumes "\<not> prefix_of (real_path (sr_inbox s) @ ''/'') q"
  shows "map_of (sr_disk ((after_step ^^ n) s)) q = map_of (sr_disk s) q"
proof -
  have "same_but (inside_inbox s) s ((after_step ^^ n) s)"
  proof (induction n)
    case (Suc n)
    have "same_but (inside_inbox s) ((after_step ^^ n) s) (after_step ((after_step ^^ n) s))"
      using same_but_step [of "(after_step ^^ n) s"] inbox_kept [OF Suc] by (simp only: after_step_def)
    then show ?case using same_but_trans [OF Suc] by simp
  qed simp
  then show ?thesis using assms by (simp add: same_but_def inside_inbox_def)
qed

lemma console_stays_in_the_inbox_witness:
  "let s = (port_of [Bytes (0x02 # map byte_of ''DEL ../b'' @ [LF])])\<lparr>sr_disk := inbox_disk @ [(''/b'', File [7])]\<rparr>
   in real_path (sr_inbox s @ ''/../b'') = ''/b'' \<and> map_of (sr_disk ((after_step ^^ 5) s)) ''/b'' = Some (File [7])"
proof -
  let ?s = "(port_of [Bytes (0x02 # map byte_of ''DEL ../b'' @ [LF])])\<lparr>sr_disk := inbox_disk @ [(''/b'', File [7])]\<rparr>"
  have "real_path (sr_inbox ?s) = ''/i''" "real_path (sr_inbox ?s @ ''/../b'') = ''/b''"
    by (simp_all add: port_of_def real_path_def segment_taken_def)
  moreover from this have "\<not> prefix_of (real_path (sr_inbox ?s) @ ''/'') ''/b''" by (simp add: prefix_of_def)
  from console_stays_in_the_inbox [OF this, of 5]
  have "map_of (sr_disk ((after_step ^^ 5) ?s)) ''/b'' = Some (File [7])" by (simp add: inbox_disk_def)
  ultimately show ?thesis by (simp only: Let_def simp_thms)
qed

text \<open>
  What is typed on a terminal reaches the shell as it was typed: lines of printable characters
  come as their keys with one Enter after each, whether the terminal ends them with CR, LF or CR LF,
  and however the bytes are cut into chunks.
\<close>

theorem typed_lines_arrive:
  assumes "port_bytes (sr_port s) = concat (map (\<lambda>l. l @ t) ls)" and "line_end_ok t" and "\<not> sr_after_cr s"
    and "list_all (list_all printable) ls"
  shows "sr_log ((after_step ^^ length (port_bytes (sr_port s))) s) = sr_log s @ typed_lines ls"
  using reads_lines [of t ls False "sr_log s" s] assms by (simp add: reads_def)

lemma typed_lines_arrive_witness:
  "sr_log ((after_step ^^ 8) (port_of [Bytes [0x31, CR], Quiet, Bytes [LF, CR, LF, 0x78, CR], Bytes [LF]])) =
     [Pressed (key_event QDOS_KEY_1), enter_key, enter_key, Pressed \<lparr>ev_key = QDOS_KEY_CHAR, ev_ch = CHR ''x''\<rparr>, enter_key]"
proof -
  let ?s = "port_of [Bytes [0x31, CR], Quiet, Bytes [LF, CR, LF, 0x78, CR], Bytes [LF]]"
  have "port_bytes (sr_port ?s) = concat (map (\<lambda>l. l @ [CR, LF]) [[0x31], [], [0x78]])"
    "line_end_ok [CR, LF]" "\<not> sr_after_cr ?s" "list_all (list_all printable) [[0x31], [], [0x78 :: byte]]"
    by code_simp+
  from typed_lines_arrive [OF this] have "sr_log ((after_step ^^ length (port_bytes (sr_port ?s))) ?s) =
      sr_log ?s @ typed_lines [[0x31], [], [0x78]]" .
  moreover have "length (port_bytes (sr_port ?s)) = 8" "sr_log ?s = []"
    "typed_lines [[0x31], [], [0x78]] = [Pressed (key_event QDOS_KEY_1), enter_key, enter_key,
       Pressed \<lparr>ev_key = QDOS_KEY_CHAR, ev_ch = CHR ''x''\<rparr>, enter_key]" by code_simp+
  ultimately show ?thesis by simp
qed

text \<open>
  C40. A byte that arrives wrong is always caught: two files that differ in one byte have different
  checksums, and a checksum is the same however the file is cut into chunks.
\<close>

theorem one_wrong_byte_is_caught:
  "(qdos_serial_crc32 crc (xs @ [a] @ ys) = qdos_serial_crc32 crc (xs @ [b] @ ys) \<longleftrightarrow> a = b) \<and>
   qdos_serial_crc32 (qdos_serial_crc32 crc xs) ys = qdos_serial_crc32 crc (xs @ ys)"
  by (simp add: qdos_serial_crc32_def crc_foldl_inj crc_byte_inj)

text \<open>
  No input can hang the console: every step takes something off the port while there is any, so
  after as many steps as it has bytes and silences it is at its end, and says so.
\<close>

theorem console_always_drains:
  "fst (qdos_serial_step ((after_step ^^ port_size (sr_port s)) s)) = False"
proof -
  have "sr_port ((after_step ^^ port_size (sr_port s)) s) = []"
    using steps_shrink [of "port_size (sr_port s)" s] by (simp add: port_size_zero)
  then show ?thesis by (simp add: qdos_serial_step_def read_byte_def serial_read_def)
qed

section \<open>What the model shows\<close>

text \<open>A line too long for a command is refused before its end, and what is left of it is typed.\<close>

lemma long_command_types_its_tail:
  "sr_log ((after_step ^^ 3) (port_of [Bytes (0x02 # replicate 160 0x78 @ [0x31, CR])])) =
     [Written (''QDUP ERR LONG'' @ [newline]), Pressed (key_event QDOS_KEY_1), Pressed (key_event QDOS_KEY_ENTER)]"
  by code_simp

text \<open>
  An upload destroys a stored file that has the name of its part file, itself a path an upload may
  write, and answers OK.
\<close>

lemma part_file_destroys_a_stored_file:
  "let s = (port_of [])\<lparr>sr_disk := inbox_disk @ [(''/i/a.qd.part'', File [7])]\<rparr>
   in good_path ''a.qd.part'' \<and> answered_ok (put ''0 0 a.qd'' s) \<and>
      map_of (sr_disk (put ''0 0 a.qd'' s)) ''/i/a.qd.part'' = None"
  by code_simp

text \<open>Where the medium refuses the rename, the old file is gone already, and the new one, whole and checked, is deleted.\<close>

lemma refused_rename_loses_both:
  "let s = (port_of [])\<lparr>sr_refuses := True\<rparr>; s' = put ''0 0 a.qd'' s
   in map_of (sr_disk s) ''/i/a.qd'' = Some (File [1, 2]) \<and> map_of (sr_disk s') ''/i/a.qd'' = None \<and>
      map_of (sr_disk s') ''/i/a.qd.part'' = None \<and> \<not> answered_ok s'"
  by code_simp

end
