(* ===== verification/Shell.thy ===== *)
theory Shell
  imports Keys Values Editor
begin

text \<open>
  The shell's state (\<^verbatim>\<open>src/shell/shell.c\<close>), the evaluation that survives a fatal error
  (\<^verbatim>\<open>src/shell/guarded.c\<close>), and what every part of the shell reports through: the message
  line and the log. The record holds the part of \<^verbatim>\<open>struct qdos_shell\<close> that the
  calculator, the input line and the log use; the interpreter's stack is \<open>sh_stack\<close>, bottom first
  as its array is, and everything else in the machine is \<open>sh_world\<close>.
\<close>

section \<open>The state\<close>

datatype qdos_mode =
    QDOS_MODE_CALC | QDOS_MODE_LINE | QDOS_MODE_LIST | QDOS_MODE_EDIT | QDOS_MODE_ABOUT | QDOS_MODE_SETTINGS
  | QDOS_MODE_DEBUG | QDOS_MODE_GRAPH | QDOS_MODE_GRAPH3 | QDOS_MODE_PLOT | QDOS_MODE_PLOT_EDIT
  | QDOS_MODE_MENU | QDOS_MODE_WINDOW | QDOS_MODE_TABLE | QDOS_MODE_STAT | QDOS_MODE_RESULT | QDOS_MODE_OUTPUT

datatype field_target =
    FIELD_NONE | FIELD_WINDOW | FIELD_TRACE_X | FIELD_CALC | FIELD_TABLE_START | FIELD_TABLE_STEP
  | FIELD_STAT | FIELD_NAME | FIELD_ASK | FIELD_TEXT

datatype register_wait = REGISTER_IDLE | REGISTER_STORING | REGISTER_RECALLING

definition QDOS_CELL_W :: nat where "QDOS_CELL_W = 16"
definition QDOS_COLS :: nat where "QDOS_COLS = 400 div QDOS_CELL_W"
definition QDOS_SMALL_FONT_W :: nat where "QDOS_SMALL_FONT_W = 8"
definition MESSAGE_COLS :: nat where "MESSAGE_COLS = 400 div QDOS_SMALL_FONT_W"
definition INPUT_MAX :: nat where "INPUT_MAX = 256"
definition ENTRY_MAX :: nat where "ENTRY_MAX = 64"
definition HISTORY_MAX :: nat where "HISTORY_MAX = 16"
definition LOG_LINES :: nat where "LOG_LINES = 48"
definition QDOS_LINE_WORDS :: nat where "QDOS_LINE_WORDS = 64"
definition UNDO_MAX :: nat where "UNDO_MAX = nat QDOS_REGISTER_MAX"
definition QDOS_ELIDED :: char where "QDOS_ELIDED = CHR ''~''"

record ('p, 'q, 'w) shell =
  sh_stack :: "('p, 'q) element list"
  sh_world :: 'w
  sh_mode :: qdos_mode
  sh_field :: field_target
  sh_entry :: cstring
  sh_input :: cstring
  sh_cursor :: nat
  sh_line_minus :: bool
  sh_line_once :: bool
  sh_history :: "cstring list"
  sh_history_at :: nat
  sh_line_word :: "cstring list"
  sh_log :: "cstring list"
  sh_log_count :: nat
  sh_message :: cstring
  sh_message_is_error :: bool
  sh_undo :: "qdos_value list"
  sh_undo_ready :: bool
  sh_undo_exact :: bool
  sh_undo_prev :: "qdos_value list"
  sh_undo_prev_ready :: bool
  sh_undo_prev_exact :: bool
  sh_stack_sel :: nat
  sh_last_x :: qdos_value
  sh_has_last_x :: bool
  sh_register_wait :: register_wait
  sh_output_first :: nat
  sh_output_count :: nat
  sh_output_top :: nat
  sh_output_from :: qdos_mode
  sh_finite_only :: bool
  sh_evaluating :: bool
  sh_recovered :: bool
  sh_printed :: cstring

text \<open>
  The machine around it: the runtime, what \<^verbatim>\<open>qd_interp_eval\<close> does, whose words may
  call back into the shell and so get the whole of it, and what the interpreter and the keypad
  report. An evaluation gives what it returned, or \<open>Fatal\<close> when the runtime jumped out of it,
  and what it left in the pipe.
\<close>

datatype outcome = Returned bool | Fatal

record ('p, 'q, 'w) machine =
  mc_rt :: "'q runtime"
  qd_interp_eval :: "cstring \<Rightarrow> ('p, 'q, 'w) shell \<Rightarrow> outcome \<times> cstring \<times> ('p, 'q, 'w) shell"
  qd_interp_error :: "('p, 'q, 'w) shell \<Rightarrow> cstring"
  qd_interp_last_declared :: "('p, 'q, 'w) shell \<Rightarrow> cstring option"
  qd_interp_words :: "('p, 'q, 'w) shell \<Rightarrow> cstring list"
  value_text :: "('p, 'q) element \<Rightarrow> cstring"
  d128_is_finite :: "'q \<Rightarrow> bool"
  strtod_is_finite :: "cstring \<Rightarrow> bool"
  modifier_reset :: "('w \<Rightarrow> 'w) option"

section \<open>Guarded evaluation\<close>

definition OUTPUT_MAX :: nat where "OUTPUT_MAX = 512"

text \<open>
  An evaluation inside an evaluation is the outer one's to recover; the rest arm the recovery
  buffer, point stdout at a pipe and read back what fits once it is over.
\<close>

definition qdos_guarded_eval ::
    "('p, 'q, 'w) machine \<Rightarrow> cstring \<Rightarrow> ('p, 'q, 'w) shell \<Rightarrow> bool \<times> ('p, 'q, 'w) shell" where
  "qdos_guarded_eval mc source sh =
     (if sh_evaluating sh then
        (case qd_interp_eval mc source sh of (r, _, sh1) \<Rightarrow> (r = Returned True, sh1))
      else
        (case qd_interp_eval mc source (sh\<lparr>sh_evaluating := True, sh_printed := []\<rparr>) of (r, printed, sh1) \<Rightarrow>
           let sh2 = sh1\<lparr>sh_evaluating := False, sh_printed := clip OUTPUT_MAX printed\<rparr>
           in case r of
                Fatal \<Rightarrow> (False, sh2\<lparr>sh_recovered := True\<rparr>)
              | Returned ok \<Rightarrow> (ok, sh2)))"

definition qdos_guarded_error ::
    "('p, 'q, 'w) machine \<Rightarrow> ('p, 'q, 'w) shell \<Rightarrow> cstring \<times> ('p, 'q, 'w) shell" where
  "qdos_guarded_error mc sh =
     (if sh_recovered sh then (''WRONG TYPE FOR THAT WORD'', sh\<lparr>sh_recovered := False\<rparr>)
      else (qd_interp_error mc sh, sh))"

section \<open>The log\<close>

text \<open>One line, wrapped to the panel, into the ring.\<close>

function log_line :: "cstring \<Rightarrow> ('p, 'q, 'w) shell \<Rightarrow> ('p, 'q, 'w) shell" where
  "log_line line sh =
     (if line = [] then sh
      else
        let n = (if QDOS_COLS < length line then QDOS_COLS else length line)
        in log_line (drop n line)
             (sh\<lparr>sh_log := (sh_log sh)[sh_log_count sh mod LOG_LINES := take n line],
                sh_log_count := sh_log_count sh + 1\<rparr>))"
  by pat_completeness auto
termination by (relation "measure (\<lambda>(line, sh). length line)") (auto simp: QDOS_COLS_def QDOS_CELL_W_def)

declare log_line.simps [simp del]

text \<open>The walk over a text that logs each of its lines; \<open>start\<close> is the line so far.\<close>

fun log_lines :: "cstring \<Rightarrow> cstring \<Rightarrow> ('p, 'q, 'w) shell \<Rightarrow> ('p, 'q, 'w) shell" where
  "log_lines start [] sh = (if start \<noteq> [] then log_line start sh else sh)"
| "log_lines start (c # cs) sh =
     (if c \<noteq> newline then log_lines (start @ [c]) cs sh
      else log_lines [] cs (if start \<noteq> [] then log_line start sh else sh))"

definition log_add :: "cstring \<Rightarrow> ('p, 'q, 'w) shell \<Rightarrow> ('p, 'q, 'w) shell" where
  "log_add s sh = (if s = [] then sh else log_lines [] s sh)"

definition log_held :: "('p, 'q, 'w) shell \<Rightarrow> nat" where
  "log_held sh = (if sh_log_count sh < LOG_LINES then sh_log_count sh else LOG_LINES)"

definition log_at :: "('p, 'q, 'w) shell \<Rightarrow> nat \<Rightarrow> cstring option" where
  "log_at sh index =
     (let held = (if sh_log_count sh < LOG_LINES then sh_log_count sh else LOG_LINES)
      in if held \<le> index then None
         else let first = sh_log_count sh - held in Some (sh_log sh ! ((first + index) mod LOG_LINES)))"

section \<open>Messages\<close>

definition set_message :: "cstring \<Rightarrow> bool \<Rightarrow> ('p, 'q, 'w) shell \<Rightarrow> ('p, 'q, 'w) shell" where
  "set_message s is_error sh =
     (let cap = 2 * MESSAGE_COLS + 1;
          msg = (if cap \<le> length s then (clip cap s)[cap - 2 := QDOS_ELIDED] else clip cap s);
          sh1 = sh\<lparr>sh_message := msg, sh_message_is_error := is_error\<rparr>
      in if is_error then log_add s sh1 else sh1)"

definition absorb_output :: "('p, 'q, 'w) shell \<Rightarrow> ('p, 'q, 'w) shell" where
  "absorb_output sh =
     (if sh_printed sh = [] then sh
      else
        let before = sh_log_count sh; sh1 = log_add (sh_printed sh) sh; held = log_held sh1
        in if 1 < sh_log_count sh1 - before then
             sh1\<lparr>sh_output_first := before, sh_output_count := sh_log_count sh1 - before, sh_output_top := 0,
                 sh_output_from := sh_mode sh1, sh_mode := QDOS_MODE_OUTPUT\<rparr>
           else if 0 < held then
             (case log_at sh1 (held - 1) of Some line \<Rightarrow> set_message line False sh1 | None \<Rightarrow> set_message [] False sh1)
           else sh1)"

text \<open>What an evaluation declared, remembered as in memory only.\<close>

definition report_declaration :: "('p, 'q, 'w) machine \<Rightarrow> ('p, 'q, 'w) shell \<Rightarrow> ('p, 'q, 'w) shell" where
  "report_declaration mc sh =
     (case qd_interp_last_declared mc sh of
        None \<Rightarrow> set_message [] False sh
      | Some name \<Rightarrow>
          let known = list_ex (\<lambda>w. w = name) (sh_line_word sh);
              sh1 = (if \<not> known \<and> length (sh_line_word sh) < QDOS_LINE_WORDS
                     then sh\<lparr>sh_line_word := sh_line_word sh @ [clip QDOS_PROGRAM_NAME_MAX name]\<rparr> else sh)
          in set_message (''DECLARED '' @ [CHR 0x27] @ take 20 name @ [CHR 0x27]) False sh1)"

definition declared_here :: "cstring \<Rightarrow> ('p, 'q, 'w) shell \<Rightarrow> bool" where
  "declared_here name sh = list_ex (\<lambda>w. w = name) (sh_line_word sh)"

text \<open>The last word takes the place of the one forgotten.\<close>

fun forget_from :: "cstring \<Rightarrow> cstring list \<Rightarrow> cstring list" where
  "forget_from name [] = []"
| "forget_from name (w # ws) =
     (if w \<noteq> name then w # forget_from name ws
      else if ws = [] then [] else last ws # butlast ws)"

definition forget_here :: "cstring \<Rightarrow> ('p, 'q, 'w) shell \<Rightarrow> ('p, 'q, 'w) shell" where
  "forget_here name sh = sh\<lparr>sh_line_word := forget_from name (sh_line_word sh)\<rparr>"

section \<open>Lemmas on the log\<close>

text \<open>The lines a text is logged as: its own, wrapped to the panel, the empty ones left out.\<close>

function wrap :: "cstring \<Rightarrow> cstring list" where
  "wrap line = (if line = [] then [] else take QDOS_COLS line # wrap (drop QDOS_COLS line))"
  by pat_completeness auto
termination by (relation "measure length") (auto simp: QDOS_COLS_def QDOS_CELL_W_def)

declare wrap.simps [simp del]

lemma wrap_Nil [simp]: "wrap [] = []"
  by (simp add: wrap.simps)

lemma log_line_Nil [simp]: "log_line [] sh = sh"
  by (simp add: log_line.simps)

text \<open>\<open>lines\<close> is everything ever logged: the ring holds the last of them, each in its slot.\<close>

definition log_holds :: "cstring list \<Rightarrow> ('p, 'q, 'w) shell \<Rightarrow> bool" where
  "log_holds ls sh \<longleftrightarrow>
     sh_log_count sh = length ls \<and> length (sh_log sh) = LOG_LINES \<and>
     (\<forall>i < length ls. length ls \<le> i + LOG_LINES \<longrightarrow> sh_log sh ! (i mod LOG_LINES) = ls ! i)"

definition same_but_log :: "('p, 'q, 'w) shell \<Rightarrow> ('p, 'q, 'w) shell \<Rightarrow> bool" where
  "same_but_log sh sh' \<longleftrightarrow> sh' = sh\<lparr>sh_log := sh_log sh', sh_log_count := sh_log_count sh'\<rparr>"

lemma ring_slot:
  assumes "i < n" and "n \<le> i + k" and "i mod k = (n :: nat) mod k" and "0 < k"
  shows "i = n - k \<and> k \<le> n"
proof -
  have "k dvd n - i" using assms(1,3) by (metis less_imp_le mod_eq_dvd_iff_nat)
  moreover have "0 < n - i" "n - i \<le> k" using assms(1,2) by auto
  ultimately have "n - i = k" by (metis dvd_imp_le le_antisym)
  then show ?thesis using assms(1) by auto
qed

lemma log_holds_put:
  assumes "log_holds ls sh"
  shows "log_holds (ls @ [l])
    (sh\<lparr>sh_log := (sh_log sh)[sh_log_count sh mod LOG_LINES := l], sh_log_count := sh_log_count sh + 1\<rparr>)"
proof -
  have "(sh_log sh)[length ls mod LOG_LINES := l] ! (i mod LOG_LINES) = (ls @ [l]) ! i"
    if "i \<le> length ls" "Suc (length ls) \<le> i + LOG_LINES" for i
  proof (cases "i = length ls")
    case True
    then show ?thesis using assms by (simp add: log_holds_def LOG_LINES_def)
  next
    case False
    then have "i mod LOG_LINES \<noteq> length ls mod LOG_LINES"
      using ring_slot [of i "length ls" LOG_LINES] that by (auto simp: LOG_LINES_def)
    then show ?thesis using assms that False by (simp add: log_holds_def nth_append)
  qed
  then show ?thesis using assms by (simp add: log_holds_def)
qed

lemma log_holds_line: "log_holds ls sh \<Longrightarrow> log_holds (ls @ wrap line) (log_line line sh)"
proof (induction line sh arbitrary: ls rule: log_line.induct)
  case (1 line sh)
  show ?case
  proof (cases "line = []")
    case True
    then show ?thesis using 1(2) by simp
  next
    case False
    let ?n = "if QDOS_COLS < length line then QDOS_COLS else length line"
    have n: "take ?n line = take QDOS_COLS line" "drop ?n line = drop QDOS_COLS line" by auto
    from 1(1) [OF False refl, of "ls @ [take QDOS_COLS line]"] log_holds_put [OF 1(2), of "take QDOS_COLS line"]
    show ?thesis using False n by (simp add: log_line.simps [of line] wrap.simps [of line])
  qed
qed

lemma log_holds_lines:
  "log_holds ls sh \<Longrightarrow> newline \<notin> set start \<Longrightarrow>
   log_holds (ls @ concat (map wrap (lines_of (start @ s)))) (log_lines start s sh)"
proof (induction start s sh arbitrary: ls rule: log_lines.induct)
  case (1 start sh)
  then show ?case using log_holds_line [of ls sh start] by (simp add: lines_of_no_nl wrap_Nil)
next
  case (2 start c cs sh)
  show ?case
  proof (cases "c = newline")
    case True
    have "log_holds (ls @ wrap start) (if start \<noteq> [] then log_line start sh else sh)"
      using 2(3) log_holds_line [of ls sh start] by (auto simp: wrap_Nil)
    from 2(2) [OF _ this] True show ?thesis using 2(4) by (simp add: lines_of_append lines_of_no_nl)
  next
    case False
    then show ?thesis using 2(1) [OF False 2(3)] 2(4) by simp
  qed
qed

definition logged :: "cstring \<Rightarrow> cstring list" where
  "logged s = concat (map wrap (lines_of s))"

lemma log_holds_add: "log_holds ls sh \<Longrightarrow> log_holds (ls @ logged s) (log_add s sh)"
  using log_holds_lines [of ls sh "[]" s] by (simp add: log_add_def logged_def wrap_Nil)

lemma concat_wrap [simp]: "concat (wrap line) = line"
  by (induction line rule: wrap.induct) (simp add: wrap.simps)

lemma wrap_fits: "list_all (\<lambda>l. l \<noteq> [] \<and> length l \<le> QDOS_COLS) (wrap line)"
  by (induction line rule: wrap.induct) (simp add: wrap.simps QDOS_COLS_def QDOS_CELL_W_def)

lemma concat_lines_of: "concat (lines_of s) = filter (\<lambda>c. c \<noteq> newline) s"
proof (induction s)
  case (Cons c cs)
  have "concat (lines_of cs) = hd (lines_of cs) @ concat (tl (lines_of cs))"
    using lines_of_not_Nil [of cs] by (cases "lines_of cs") auto
  then show ?case using Cons by auto
qed simp

lemma logged_text: "concat (logged s) = filter (\<lambda>c. c \<noteq> newline) s"
proof -
  have "concat (concat (map wrap ls)) = concat ls" for ls by (induction ls) auto
  then show ?thesis by (simp add: logged_def concat_lines_of)
qed

lemma logged_fits: "list_all (\<lambda>l. l \<noteq> [] \<and> length l \<le> QDOS_COLS) (logged s)"
  using wrap_fits by (auto simp: logged_def list_all_iff)

lemma log_at_holds:
  assumes "log_holds ls sh"
  shows "log_at sh i =
    (let held = drop (length ls - LOG_LINES) ls in if i < length held then Some (held ! i) else None)"
  using assms by (auto simp: log_holds_def log_at_def Let_def LOG_LINES_def)

text \<open>Nothing but the log changes when a text is logged.\<close>

lemma log_line_frame: "\<exists>l n. log_line line sh = sh\<lparr>sh_log := l, sh_log_count := n\<rparr>"
proof (induction line sh rule: log_line.induct)
  case (1 line sh)
  show ?case
  proof (cases "line = []")
    case True
    then show ?thesis by (intro exI [of _ "sh_log sh"] exI [of _ "sh_log_count sh"]) simp
  next
    case False
    from 1 [OF False refl] show ?thesis using False by (simp add: log_line.simps [of line] Let_def)
  qed
qed

lemma log_lines_frame: "\<exists>l n. log_lines start s sh = sh\<lparr>sh_log := l, sh_log_count := n\<rparr>"
proof (induction start s sh rule: log_lines.induct)
  case (1 start sh)
  then show ?case using log_line_frame [of start sh] log_line_frame [of "[]" sh] by auto
next
  case (2 start c cs sh)
  show ?case
  proof (cases "c = newline")
    case True
    have eq: "(if start \<noteq> [] then log_line start sh else sh) = log_line start sh" by simp
    obtain l n where "log_lines [] cs (log_line start sh) = (log_line start sh)\<lparr>sh_log := l, sh_log_count := n\<rparr>"
      using 2(2) [unfolded eq] True by blast
    moreover obtain l' n' where "log_line start sh = sh\<lparr>sh_log := l', sh_log_count := n'\<rparr>"
      using log_line_frame [of start sh] by blast
    moreover have "log_lines start (c # cs) sh = log_lines [] cs (log_line start sh)"
      using True eq by (simp only: log_lines.simps simp_thms if_False)
    ultimately show ?thesis by (intro exI [of _ l] exI [of _ n]) simp
  next
    case False
    then show ?thesis using 2(1) by simp
  qed
qed

lemma log_add_frame: "\<exists>l n. log_add s sh = sh\<lparr>sh_log := l, sh_log_count := n\<rparr>"
  using log_lines_frame [of "[]" s sh] log_line_frame [of "[]" sh] by (auto simp: log_add_def)

lemma message_frame:
  "\<exists>m l n. set_message s b sh = sh\<lparr>sh_message := m, sh_message_is_error := b, sh_log := l, sh_log_count := n\<rparr> \<and>
     length m \<le> 2 * MESSAGE_COLS"
proof -
  let ?m = "if 2 * MESSAGE_COLS + 1 \<le> length s then (clip (2 * MESSAGE_COLS + 1) s)[2 * MESSAGE_COLS + 1 - 2 := QDOS_ELIDED]
    else clip (2 * MESSAGE_COLS + 1) s"
  let ?sh = "sh\<lparr>sh_message := ?m, sh_message_is_error := b\<rparr>"
  have "length ?m \<le> 2 * MESSAGE_COLS" by (auto simp: clip_def)
  moreover have "\<exists>l n. set_message s b sh = ?sh\<lparr>sh_log := l, sh_log_count := n\<rparr>"
  proof (cases b)
    case True
    then show ?thesis using log_add_frame [of s ?sh] by (simp only: set_message_def Let_def if_True)
  next
    case False
    then show ?thesis
      by (simp only: set_message_def Let_def if_False) (intro exI [of _ "sh_log sh"] exI [of _ "sh_log_count sh"], simp)
  qed
  ultimately show ?thesis by auto
qed

end
