(* ===== verification/Undo.thy ===== *)
theory Undo
  imports Shell
begin

text \<open>
  One step back (\<^verbatim>\<open>src/shell/shell.c\<close>): the snapshot of the stack every step takes before
  it evaluates anything, what UNDO does with it, and how a step that failed part-way is put back.
\<close>

section \<open>A level of the stack as a value\<close>

text \<open>
  \<open>None\<close> when there is no such level; otherwise whether the level can be pushed again, and the
  value as the code leaves it in the slot.
\<close>

definition value_at :: "('p, 'q, 'w) machine \<Rightarrow> ('p, 'q, 'w) shell \<Rightarrow> nat \<Rightarrow> (bool \<times> qdos_value) option" where
  "value_at mc sh i =
     (if length (sh_stack sh) \<le> i then None
      else
        let element = sh_stack sh ! (length (sh_stack sh) - 1 - i)
        in Some (case qdos_cpx_of element of
             Some (re, im) \<Rightarrow> (True, zero_value\<lparr>v_type := VALUE_COMPLEX, v_f := re, v_im := im\<rparr>)
           | None \<Rightarrow>
               (case element of
                  ElInt n \<Rightarrow> (True, zero_value\<lparr>v_type := VALUE_INT, v_i := n\<rparr>)
                | ElFloat f \<Rightarrow> (True, zero_value\<lparr>v_type := VALUE_FLOAT, v_f := f\<rparr>)
                | ElStr s \<Rightarrow>
                    (length s < QDOS_VALUE_STRING_MAX,
                     zero_value\<lparr>v_type := VALUE_STRING, v_s := clip QDOS_VALUE_STRING_MAX s\<rparr>)
                | ElD128 q \<Rightarrow>
                    (True, zero_value\<lparr>v_type := VALUE_D128, v_s := clip QDOS_VALUE_STRING_MAX (value_text mc element)\<rparr>)
                | _ \<Rightarrow> (False, zero_value))))"

section \<open>The snapshot\<close>

text \<open>The loop over the levels from \<open>i\<close>, \<open>k\<close> of them; an array is kept as its text.\<close>

fun snapshot_from ::
    "('p, 'q, 'w) machine \<Rightarrow> ('p, 'q, 'w) shell \<Rightarrow> nat \<Rightarrow> nat \<Rightarrow> bool \<Rightarrow> qdos_value list \<times> bool" where
  "snapshot_from mc sh i 0 exact = ([], exact)"
| "snapshot_from mc sh i (Suc k) exact =
     (case value_at mc sh i of
        None \<Rightarrow> ([], exact)
      | Some (True, slot) \<Rightarrow> (let (vs, e) = snapshot_from mc sh (i + 1) k exact in (slot # vs, e))
      | Some (False, slot) \<Rightarrow>
          let shown = value_text mc (sh_stack sh ! (length (sh_stack sh) - 1 - i));
              slot = (if v_type slot \<noteq> VALUE_STRING
                      then slot\<lparr>v_type := VALUE_STRING, v_s := clip QDOS_VALUE_STRING_MAX shown\<rparr> else slot);
              (vs, e) = snapshot_from mc sh (i + 1) k False
          in (slot # vs, e))"

definition undo_snapshot :: "('p, 'q, 'w) machine \<Rightarrow> ('p, 'q, 'w) shell \<Rightarrow> ('p, 'q, 'w) shell" where
  "undo_snapshot mc sh =
     (let sh1 = sh\<lparr>sh_undo_prev := sh_undo sh, sh_undo_prev_ready := sh_undo_ready sh, sh_undo_prev_exact := sh_undo_exact sh\<rparr>;
          depth = length (sh_stack sh);
          undo_depth = (if UNDO_MAX < depth then UNDO_MAX else depth);
          (vs, exact) = snapshot_from mc sh 0 undo_depth (undo_depth = depth)
      in sh1\<lparr>sh_undo := vs, sh_undo_exact := exact, sh_undo_ready := True\<rparr>)"

text \<open>A value pushed back; one that cannot be pushed leaves the stack alone.\<close>

definition push_on :: "'q runtime \<Rightarrow> ('p, 'q) element list \<Rightarrow> qdos_value \<Rightarrow> ('p, 'q) element list" where
  "push_on rt st v = (case push_value rt v of Some e \<Rightarrow> st @ [e] | None \<Rightarrow> st)"

definition undo_put_back :: "('p, 'q, 'w) machine \<Rightarrow> ('p, 'q, 'w) shell \<Rightarrow> ('p, 'q, 'w) shell" where
  "undo_put_back mc sh =
     (let sh1 = snd (qdos_guarded_eval mc ''clear'' sh)
      in sh1\<lparr>sh_stack := foldl (push_on (mc_rt mc)) (sh_stack sh1) (rev (sh_undo sh1))\<rparr>)"

definition undo_restore :: "('p, 'q, 'w) machine \<Rightarrow> ('p, 'q, 'w) shell \<Rightarrow> ('p, 'q, 'w) shell" where
  "undo_restore mc sh =
     (if \<not> sh_undo_ready sh then set_message ''NOTHING TO UNDO'' False sh
      else set_message ''UNDONE'' False ((undo_put_back mc sh)\<lparr>sh_undo_ready := False\<rparr>))"

definition undo_failed :: "('p, 'q, 'w) machine \<Rightarrow> ('p, 'q, 'w) shell \<Rightarrow> ('p, 'q, 'w) shell" where
  "undo_failed mc sh =
     (if sh_undo_ready sh \<and> sh_undo_exact sh then
        let sh1 = undo_put_back mc sh
        in sh1\<lparr>sh_undo := sh_undo_prev sh1, sh_undo_ready := sh_undo_prev_ready sh1,
               sh_undo_exact := sh_undo_prev_exact sh1\<rparr>
      else sh)"

section \<open>What the interpreter is relied on for\<close>

text \<open>
  The word \<^verbatim>\<open>clear\<close> empties the stack and does nothing else, and the text of a decimal
  reads back as it. A program that opens no page of its own is quiet: it leaves the snapshots alone.
\<close>

definition machine_ok :: "('p, 'q, 'w) machine \<Rightarrow> bool" where
  "machine_ok mc \<longleftrightarrow>
     (\<forall>sh. qd_interp_eval mc ''clear'' sh = (Returned True, [], sh\<lparr>sh_stack := []\<rparr>)) \<and>
     (\<forall>q. qd_d128_parse (mc_rt mc) (value_text mc (ElD128 q)) = Some q \<and>
          length (value_text mc (ElD128 q)) < QDOS_VALUE_STRING_MAX)"

definition same_undo :: "('p, 'q, 'w) shell \<Rightarrow> ('p, 'q, 'w) shell \<Rightarrow> bool" where
  "same_undo sh sh' \<longleftrightarrow>
     sh_undo sh' = sh_undo sh \<and> sh_undo_ready sh' = sh_undo_ready sh \<and> sh_undo_exact sh' = sh_undo_exact sh \<and>
     sh_undo_prev sh' = sh_undo_prev sh \<and> sh_undo_prev_ready sh' = sh_undo_prev_ready sh \<and>
     sh_undo_prev_exact sh' = sh_undo_prev_exact sh"

definition quiet :: "('p, 'q, 'w) machine \<Rightarrow> cstring \<Rightarrow> ('p, 'q, 'w) shell \<Rightarrow> bool" where
  "quiet mc source sh \<longleftrightarrow> same_undo sh (snd (qdos_guarded_eval mc source sh))"

text \<open>A stack a snapshot takes whole: short enough, and every element one that can be pushed again.\<close>

fun keepable :: "'q runtime \<Rightarrow> ('p, 'q) element \<Rightarrow> bool" where
  "keepable rt (ElStr s) = (length s < QDOS_VALUE_STRING_MAX)"
| "keepable rt (ElPtr p) = False"
| "keepable rt e = made_here rt e"

definition undoable :: "('p, 'q, 'w) machine \<Rightarrow> ('p, 'q, 'w) shell \<Rightarrow> bool" where
  "undoable mc sh \<longleftrightarrow> length (sh_stack sh) \<le> UNDO_MAX \<and> list_all (keepable (mc_rt mc)) (sh_stack sh)"

section \<open>Lemmas\<close>

lemma value_at_kept:
  assumes "machine_ok mc" and "keepable (mc_rt mc) e" and "i < length (sh_stack sh)"
    and "sh_stack sh ! (length (sh_stack sh) - 1 - i) = e"
  shows "\<exists>v. value_at mc sh i = Some (True, v) \<and> push_value (mc_rt mc) v = Some e"
  using assms
  by (cases e) (auto simp: value_at_def Let_def machine_ok_def zero_value_def qdos_cpx_push_def QDOS_VALUE_STRING_MAX_def)

declare push_value.simps [simp del]

lemma snapshot_exact:
  assumes "machine_ok mc" and "list_all (keepable (mc_rt mc)) (sh_stack sh)" and "i + k \<le> length (sh_stack sh)"
  shows "\<exists>vs. snapshot_from mc sh i k exact = (vs, exact) \<and>
    map (push_value (mc_rt mc)) vs = map Some (take k (drop i (rev (sh_stack sh))))"
  using assms(3)
proof (induction k arbitrary: i)
  case (Suc k)
  let ?e = "sh_stack sh ! (length (sh_stack sh) - 1 - i)"
  have i: "i < length (sh_stack sh)" using Suc.prems by simp
  then have "keepable (mc_rt mc) ?e" using assms(2) by (simp add: list_all_length)
  from value_at_kept [OF assms(1) this i refl] obtain v where
    v: "value_at mc sh i = Some (True, v)" "push_value (mc_rt mc) v = Some ?e" by blast
  from Suc.IH [of "i + 1"] Suc.prems obtain vs where
    vs: "snapshot_from mc sh (i + 1) k exact = (vs, exact)"
    "map (push_value (mc_rt mc)) vs = map Some (take k (drop (i + 1) (rev (sh_stack sh))))" by auto
  have "drop i (rev (sh_stack sh)) = ?e # drop (i + 1) (rev (sh_stack sh))"
    using i by (simp add: Cons_nth_drop_Suc [symmetric] rev_nth)
  then show ?case using v vs by simp
qed simp

lemma push_all:
  "map (push_value rt) vs = map Some es \<Longrightarrow> foldl (push_on rt) st vs = st @ es"
proof (induction vs arbitrary: es st)
  case (Cons v vs)
  then obtain e es' where "es = e # es'" "push_value rt v = Some e" "map (push_value rt) vs = map Some es'"
    by (cases es) auto
  then show ?case using Cons.IH [of es' "st @ [e]"] by (simp add: push_on_def)
qed simp

text \<open>A snapshot of an undoable stack, and what putting it back gives.\<close>

lemma snapshot_undoable:
  assumes "machine_ok mc" and "undoable mc sh"
  shows "\<exists>vs. undo_snapshot mc sh = sh\<lparr>sh_undo_prev := sh_undo sh, sh_undo_prev_ready := sh_undo_ready sh,
       sh_undo_prev_exact := sh_undo_exact sh, sh_undo := vs, sh_undo_exact := True, sh_undo_ready := True\<rparr> \<and>
     foldl (push_on (mc_rt mc)) [] (rev vs) = sh_stack sh"
proof -
  from snapshot_exact [OF assms(1), of sh 0 "length (sh_stack sh)" True] assms(2) obtain vs where
    vs: "snapshot_from mc sh 0 (length (sh_stack sh)) True = (vs, True)"
    "map (push_value (mc_rt mc)) vs = map Some (rev (sh_stack sh))" by (auto simp: undoable_def)
  from vs(2) have "map (push_value (mc_rt mc)) (rev vs) = map Some (sh_stack sh)"
    by (metis rev_map rev_rev_ident)
  from push_all [OF this, of "[]"] vs(1) assms(2) show ?thesis
    by (intro exI [of _ vs]) (simp add: undo_snapshot_def undoable_def Let_def)
qed

lemma put_back:
  assumes "machine_ok mc" and "\<not> sh_evaluating sh"
  shows "undo_put_back mc sh =
    sh\<lparr>sh_printed := [], sh_stack := foldl (push_on (mc_rt mc)) [] (rev (sh_undo sh))\<rparr>"
  using assms by (simp add: undo_put_back_def qdos_guarded_eval_def machine_ok_def clip_def Let_def)

lemma message_keeps:
  "sh_stack (set_message s b sh) = sh_stack sh \<and> same_undo sh (set_message s b sh) \<and>
   sh_evaluating (set_message s b sh) = sh_evaluating sh"
  using message_frame [of s b sh] by (auto simp: same_undo_def)

text \<open>
  A step that took its snapshot of an undoable stack and then failed is as if it had not been: the
  stack is back, and so is what UNDO would have done.
\<close>

lemma failed_step:
  assumes "machine_ok mc" and "undoable mc sh" and "same_undo (undo_snapshot mc sh) sh'" and "\<not> sh_evaluating sh'"
  shows "sh_stack (undo_failed mc sh') = sh_stack sh \<and> sh_undo (undo_failed mc sh') = sh_undo sh \<and>
    sh_undo_ready (undo_failed mc sh') = sh_undo_ready sh \<and> sh_undo_exact (undo_failed mc sh') = sh_undo_exact sh"
proof -
  from snapshot_undoable [OF assms(1,2)] obtain vs where
    vs: "undo_snapshot mc sh = sh\<lparr>sh_undo_prev := sh_undo sh, sh_undo_prev_ready := sh_undo_ready sh,
       sh_undo_prev_exact := sh_undo_exact sh, sh_undo := vs, sh_undo_exact := True, sh_undo_ready := True\<rparr>"
    "foldl (push_on (mc_rt mc)) [] (rev vs) = sh_stack sh" by blast
  then show ?thesis using assms(3) put_back [OF assms(1,4)] by (simp add: undo_failed_def same_undo_def Let_def)
qed

lemma undone_step:
  assumes "machine_ok mc" and "undoable mc sh" and "same_undo (undo_snapshot mc sh) sh'" and "\<not> sh_evaluating sh'"
  shows "sh_stack (undo_restore mc sh') = sh_stack sh \<and> \<not> sh_undo_ready (undo_restore mc sh')"
proof -
  from snapshot_undoable [OF assms(1,2)] obtain vs where
    vs: "undo_snapshot mc sh = sh\<lparr>sh_undo_prev := sh_undo sh, sh_undo_prev_ready := sh_undo_ready sh,
       sh_undo_prev_exact := sh_undo_exact sh, sh_undo := vs, sh_undo_exact := True, sh_undo_ready := True\<rparr>"
    "foldl (push_on (mc_rt mc)) [] (rev vs) = sh_stack sh" by blast
  then show ?thesis using assms(3) put_back [OF assms(1,4)]
    message_keeps [of "''UNDONE''" False "(undo_put_back mc sh')\<lparr>sh_undo_ready := False\<rparr>"]
    by (simp add: undo_restore_def same_undo_def)
qed

section \<open>A machine for the witnesses\<close>

text \<open>
  Four words: \<^verbatim>\<open>clear\<close>, \<^verbatim>\<open>drop\<close>, \<^verbatim>\<open>boom\<close>, which is
  fatal once it has lost the stack, and \<^verbatim>\<open>bad\<close>, which fails after pushing; anything else pushes.
\<close>

definition small_eval :: "cstring \<Rightarrow> (unit, bool, unit) shell \<Rightarrow> outcome \<times> cstring \<times> (unit, bool, unit) shell" where
  "small_eval source sh =
     (if source = ''clear'' then (Returned True, [], sh\<lparr>sh_stack := []\<rparr>)
      else if source = ''drop'' then
        (Returned (sh_stack sh \<noteq> []), [], sh\<lparr>sh_stack := butlast (sh_stack sh)\<rparr>)
      else if source = ''boom'' then (Fatal, [], sh\<lparr>sh_stack := []\<rparr>)
      else if source = ''bad'' then (Returned False, ''no'', sh\<lparr>sh_stack := sh_stack sh @ [ElPtr ()]\<rparr>)
      else (Returned True, [], sh\<lparr>sh_stack := sh_stack sh @ [ElInt 7]\<rparr>))"

definition small_machine :: "(unit, bool, unit) machine" where
  "small_machine =
     \<lparr>mc_rt = test_runtime, qd_interp_eval = small_eval, qd_interp_error = (\<lambda>sh. ''bad: no''),
      qd_interp_last_declared = (\<lambda>sh. None), qd_interp_words = (\<lambda>sh. [''drop'', ''dup'', ''duplicate'']),
      value_text = (\<lambda>e. case e of ElD128 q \<Rightarrow> qd_d128_format test_runtime q | _ \<Rightarrow> ''?''),
      d128_is_finite = (\<lambda>q. True), strtod_is_finite = (\<lambda>s. True), modifier_reset = None\<rparr>"

text \<open>The shell as it starts, with a stack.\<close>

definition fresh_shell :: "('p, 'q) element list \<Rightarrow> 'w \<Rightarrow> ('p, 'q, 'w) shell" where
  "fresh_shell st w =
     \<lparr>sh_stack = st, sh_world = w, sh_mode = QDOS_MODE_CALC, sh_field = FIELD_NONE, sh_entry = [], sh_input = [],
      sh_cursor = 0, sh_line_minus = False, sh_line_once = False, sh_history = [], sh_history_at = 0, sh_line_word = [],
      sh_log = replicate LOG_LINES [], sh_log_count = 0, sh_message = [], sh_message_is_error = False, sh_undo = [],
      sh_undo_ready = False, sh_undo_exact = False, sh_undo_prev = [], sh_undo_prev_ready = False,
      sh_undo_prev_exact = False, sh_stack_sel = 0, sh_last_x = zero_value, sh_has_last_x = False,
      sh_register_wait = REGISTER_IDLE, sh_output_first = 0, sh_output_count = 0, sh_output_top = 0,
      sh_output_from = QDOS_MODE_CALC, sh_finite_only = False, sh_evaluating = False, sh_recovered = False,
      sh_printed = []\<rparr>"

lemma small_machine_ok: "machine_ok small_machine"
  by (auto simp: machine_ok_def small_machine_def small_eval_def test_runtime_def QDOS_VALUE_STRING_MAX_def)

text \<open>
  A fatal error whose text is never asked for is given to the next failure, whatever that was.
\<close>

lemma recovery_outlives_its_error:
  assumes "sh_recovered sh" and "\<not> sh_evaluating sh"
    and "qd_interp_eval mc source (sh\<lparr>sh_evaluating := True, sh_printed := []\<rparr>) = (Returned False, printed, sh1)"
    and "sh_recovered sh1"
  shows "fst (qdos_guarded_error mc (snd (qdos_guarded_eval mc source sh))) = ''WRONG TYPE FOR THAT WORD''"
  using assms by (simp add: qdos_guarded_eval_def qdos_guarded_error_def Let_def)

end
