(* ===== verification/Words.thy ===== *)
theory Words
  imports Programs
begin

text \<open>
  The vocabulary as the shell uses it: completing a word that is partly typed
  (\<^verbatim>\<open>src/shell/complete.c\<close>) and the sorted list of every word
  (\<^verbatim>\<open>src/shell/wordlist.c\<close>). The interpreter is third-party code: what its
  \<^verbatim>\<open>qd_interp_visit_words\<close> hands over, in its order, is the parameter \<open>words\<close>.
\<close>

section \<open>Completion\<close>

definition QDOS_WORD_MAX :: nat where "QDOS_WORD_MAX = 64"
definition QDOS_COMPLETE_LISTING :: nat where "QDOS_COMPLETE_LISTING = 120"

definition completable :: "char \<Rightarrow> bool" where
  "completable c \<longleftrightarrow> is_lower c \<or> is_upper c \<or> is_digit c \<or> c = CHR ''_'' \<or> c = CHR '':''"

definition qdos_complete_prefix_len :: "cstring \<Rightarrow> nat" where
  "qdos_complete_prefix_len input =
     (let n = length (takeWhile completable (rev input))
      in if 0 < n \<and> is_digit (input ! (length input - n)) then 0
         else if n < QDOS_WORD_MAX then n else 0)"

record qdos_completion =
  cp_matches :: nat
  cp_common :: cstring
  cp_listing :: cstring

text \<open>How many characters two strings share from the start.\<close>

fun shared_len :: "cstring \<Rightarrow> cstring \<Rightarrow> nat" where
  "shared_len (a # as) (b # bs) = (if a = b then Suc (shared_len as bs) else 0)"
| "shared_len _ _ = 0"

definition narrow_common :: "cstring \<Rightarrow> qdos_completion \<Rightarrow> qdos_completion" where
  "narrow_common name out = out\<lparr>cp_common := take (shared_len (cp_common out) name) (cp_common out)\<rparr>"

definition append_listing :: "cstring \<Rightarrow> qdos_completion \<Rightarrow> qdos_completion" where
  "append_listing name out =
     (let used = length (cp_listing out);
          need = length name + (if 0 < used then 1 else 0)
      in if QDOS_COMPLETE_LISTING \<le> used + need + 1 then
           (if used + 4 < QDOS_COMPLETE_LISTING then out\<lparr>cp_listing := cp_listing out @ '' ...''\<rparr> else out)
         else out\<lparr>cp_listing := cp_listing out @ (if 0 < used then '' '' else []) @ name\<rparr>)"

function listing_has :: "cstring \<Rightarrow> cstring \<Rightarrow> bool" where
  "listing_has p name =
     (if p = [] then False
      else
        let stop = find_char (CHR '' '') p; span = (case stop of Some i \<Rightarrow> i | None \<Rightarrow> length p)
        in if span = length name \<and> take span p = name then True
           else (case stop of None \<Rightarrow> False | Some i \<Rightarrow> listing_has (drop (i + 1) p) name))"
  by pat_completeness auto
termination by (relation "measure (\<lambda>(p, name). length p)") auto

declare listing_has.simps [simp del]

definition consider_word :: "cstring \<Rightarrow> cstring \<Rightarrow> qdos_completion \<Rightarrow> qdos_completion" where
  "consider_word prefix name out =
     (if \<not> prefix_of prefix name then out
      else if listing_has (cp_listing out) name then out
      else
        let out = (if cp_matches out = 0 then out\<lparr>cp_common := clip QDOS_WORD_MAX name\<rparr> else narrow_common name out);
            out = append_listing name out
        in out\<lparr>cp_matches := cp_matches out + 1\<rparr>)"

definition qdos_complete :: "cstring list \<Rightarrow> cstring \<Rightarrow> qdos_completion" where
  "qdos_complete words prefix =
     (let out = \<lparr>cp_matches = 0, cp_common = [], cp_listing = []\<rparr>
      in if prefix = [] then out else foldl (\<lambda>out name. consider_word prefix name out) out words)"

section \<open>The list of words\<close>

definition QDOS_WORDLIST_MAX :: nat where "QDOS_WORDLIST_MAX = 512"
definition QDOS_WORDLIST_NAME :: nat where "QDOS_WORDLIST_NAME = 32"

text \<open>The visitor, with the list as it stands: the visit stops when the list is full.\<close>

fun collect :: "cstring list \<Rightarrow> cstring list \<Rightarrow> cstring list" where
  "collect [] out = out"
| "collect (name # names) out =
     (if QDOS_WORDLIST_MAX \<le> length out then out
      else if QDOS_WORDLIST_NAME \<le> length name then collect names out
      else collect names (out @ [name]))"

text \<open>The pass over the sorted names that keeps one of each.\<close>

fun keep_one :: "cstring list \<Rightarrow> cstring list \<Rightarrow> cstring list" where
  "keep_one kept [] = kept"
| "keep_one kept (name # names) =
     (if kept \<noteq> [] \<and> last kept = name then keep_one kept names else keep_one (kept @ [name]) names)"

definition qdos_wordlist_gather :: "cstring list \<Rightarrow> cstring list" where
  "qdos_wordlist_gather words = keep_one [] (qsort str_less (collect words []))"

section \<open>Lemmas on completion\<close>

lemma shared_len_bound: "shared_len a b \<le> length a"
  by (induction a b rule: shared_len.induct) auto

lemma shared_prefix: "prefix_of (take (shared_len a b) a) b"
  by (induction a b rule: shared_len.induct) (auto simp: prefix_of_def)

lemma shared_greatest: "prefix_of p a \<Longrightarrow> prefix_of p b \<Longrightarrow> prefix_of p (take (shared_len a b) a)"
proof (induction a b arbitrary: p rule: shared_len.induct)
  case (1 a as b bs)
  then show ?case by (cases p) (auto simp: prefix_of_def)
qed (auto simp: prefix_of_def)

lemma prefix_of_trans: "prefix_of p a \<Longrightarrow> prefix_of a b \<Longrightarrow> prefix_of p b"
  unfolding prefix_of_def by (metis append_take_drop_id length_take min.cobounded1 min_def take_take)

lemma prefix_of_take [simp]: "prefix_of (take n s) s"
  by (cases "n \<le> length s") (simp_all add: prefix_of_def)

lemma prefix_of_take_iff: "length p \<le> n \<Longrightarrow> prefix_of p (take n s) \<longleftrightarrow> prefix_of p s"
  by (simp add: prefix_of_def min_def)

lemma listing_has_one: "CHR '' '' \<notin> set w \<Longrightarrow> w \<noteq> [] \<Longrightarrow> listing_has w n \<longleftrightarrow> n = w"
  by (auto simp: listing_has.simps [of w] Let_def)

lemma listing_has_append:
  assumes "w \<noteq> []" and "CHR '' '' \<notin> set w"
  shows "l \<noteq> [] \<Longrightarrow> last l \<noteq> CHR '' '' \<Longrightarrow> listing_has (l @ CHR '' '' # w) n \<longleftrightarrow> listing_has l n \<or> n = w"
proof (induction l n rule: listing_has.induct)
  case (1 l n)
  show ?case
  proof (cases "find_char (CHR '' '') l")
    case None
    then have "CHR '' '' \<notin> set l" by (simp add: find_char_None)
    then show ?thesis
      using 1(2) assms by (auto simp: listing_has.simps [of "l @ _"] find_char_append listing_has_one Let_def)
  next
    case (Some i)
    then have i: "i < length l" "l ! i = CHR '' ''" "CHR '' '' \<notin> set (take i l)" by (auto dest: find_char_Some)
    then have split: "l = take i l @ CHR '' '' # drop (i + 1) l" using id_take_nth_drop [OF i(1)] by simp
    have rest: "drop (i + 1) l \<noteq> []"
    proof
      assume "drop (i + 1) l = []"
      then have "last l = CHR '' ''" using split by (metis last_snoc)
      then show False using 1(3) by simp
    qed
    have "find_char (CHR '' '') (l @ CHR '' '' # w) = Some i"
      using find_char_append [OF i(3), of "drop (i + 1) l @ CHR '' '' # w"] split i(1)
      by (metis append_Cons append_assoc length_take min.absorb4)
    moreover have "listing_has (drop (i + 1) l @ CHR '' '' # w) n \<longleftrightarrow> listing_has (drop (i + 1) l) n \<or> n = w"
      if "\<not> (i = length n \<and> take i l = n)"
      using 1(1) [OF 1(2) refl refl _ Some] rest that 1(3) Some by (simp add: last_drop)
    ultimately show ?thesis
      using i(1) 1(2) Some by (auto simp: listing_has.simps [of l] listing_has.simps [of "l @ _"] Let_def)
  qed
qed

lemma empty_listing_has [simp]: "\<not> listing_has [] n"
  by (simp add: listing_has.simps)

text \<open>What the walk keeps true of the words it has matched so far, \<open>ms\<close>.\<close>

definition greatest_common :: "cstring list \<Rightarrow> cstring \<Rightarrow> bool" where
  "greatest_common ms common \<longleftrightarrow>
     length common < QDOS_WORD_MAX \<and> list_all (prefix_of common) ms \<and>
     (\<forall>p. length p < QDOS_WORD_MAX \<longrightarrow> list_all (prefix_of p) ms \<longrightarrow> prefix_of p common)"

definition listing_ok :: "cstring list \<Rightarrow> cstring \<Rightarrow> bool" where
  "listing_ok ms l \<longleftrightarrow>
     length l < QDOS_COMPLETE_LISTING \<and> (l \<noteq> [] \<longrightarrow> last l \<noteq> CHR '' '') \<and>
     (\<forall>n. listing_has l n \<longrightarrow> n \<in> set ms \<or> n = [] \<or> n = ''...'')"

definition completes :: "cstring list \<Rightarrow> qdos_completion \<Rightarrow> bool" where
  "completes ms out \<longleftrightarrow>
     (cp_matches out = 0 \<longleftrightarrow> ms = []) \<and> (ms \<noteq> [] \<longrightarrow> greatest_common ms (cp_common out)) \<and> listing_ok ms (cp_listing out)"

lemma greatest_common_one: "greatest_common [w] (clip QDOS_WORD_MAX w)"
  by (auto simp: greatest_common_def QDOS_WORD_MAX_def clip_def prefix_of_take_iff)

lemma greatest_common_narrow:
  assumes "greatest_common ms c"
  shows "greatest_common (ms @ [w]) (take (shared_len c w) c)"
  using assms shared_len_bound [of c w] shared_prefix [of c w] shared_greatest [of _ c w]
  by (auto simp: greatest_common_def list_all_iff intro: prefix_of_trans [OF prefix_of_take])

lemma greatest_common_again: "greatest_common ms c \<Longrightarrow> w \<in> set ms \<Longrightarrow> greatest_common (ms @ [w]) c"
  by (auto simp: greatest_common_def list_all_iff)

lemma listing_ok_append:
  assumes "listing_ok ms (cp_listing out)" and "w \<noteq> []" and "CHR '' '' \<notin> set w"
  shows "listing_ok (ms @ [w]) (cp_listing (append_listing w out))"
proof -
  let ?l = "cp_listing out"
  have last: "last w \<noteq> CHR '' ''" using assms(2,3) by (metis last_in_set)
  have cut: "listing_has (?l @ '' ...'') n \<Longrightarrow> n \<in> set ms \<or> n = [] \<or> n = ''...''" for n
  proof (cases "?l = []")
    case True
    assume "listing_has (?l @ '' ...'') n"
    then show ?thesis using True by (auto simp: listing_has.simps [of "_ # _"] Let_def split: if_splits)
  next
    case False
    assume "listing_has (?l @ '' ...'') n"
    then show ?thesis
      using assms(1) False listing_has_append [of "''...''" ?l n] by (auto simp: listing_ok_def)
  qed
  have put: "listing_has (?l @ (if 0 < length ?l then '' '' else []) @ w) n \<Longrightarrow>
      n \<in> set ms \<or> n = w \<or> n = [] \<or> n = ''...''" for n
    using assms listing_has_append [OF assms(2,3), of ?l n] by (cases "?l = []") (auto simp: listing_ok_def listing_has_one)
  show ?thesis
  proof (cases "?l = []")
    case True
    then show ?thesis using assms(1,2) last cut put
      by (simp add: append_listing_def Let_def listing_ok_def QDOS_COMPLETE_LISTING_def) blast
  next
    case False
    then show ?thesis using assms(1,2) last cut put
      by (simp add: append_listing_def Let_def listing_ok_def QDOS_COMPLETE_LISTING_def) blast
  qed
qed

lemma consider_completes:
  assumes "completes ms out" and "CHR '' '' \<notin> set w" and "prefix \<noteq> []" and "hd prefix \<noteq> CHR ''.''"
  shows "completes (if prefix_of prefix w then ms @ [w] else ms) (consider_word prefix w out)"
proof (cases "prefix_of prefix w")
  case True
  then have w: "w \<noteq> []" "hd w = hd prefix"
    using assms(3) unfolding prefix_of_def by (cases w; cases prefix; auto)+
  show ?thesis
  proof (cases "listing_has (cp_listing out) w")
    case has: True
    then have "w \<in> set ms" using assms(1,4) w by (auto simp: completes_def listing_ok_def)
    then show ?thesis using assms(1) has True
      by (auto simp: completes_def listing_ok_def consider_word_def intro: greatest_common_again)
  next
    case False
    have [simp]: "cp_matches (append_listing w o') = cp_matches o'" "cp_common (append_listing w o') = cp_common o'" for o'
      by (simp_all add: append_listing_def Let_def)
    have same: "cp_listing (append_listing w (out\<lparr>cp_common := c\<rparr>)) = cp_listing (append_listing w out)" for c
      by (simp add: append_listing_def Let_def)
    have "listing_ok (ms @ [w]) (cp_listing (append_listing w out))"
      using assms(1,2) w(1) by (auto simp: completes_def intro: listing_ok_append)
    then show ?thesis
      using assms(1) False True
      by (auto simp: completes_def consider_word_def Let_def narrow_common_def same greatest_common_one
          intro: greatest_common_narrow)
  qed
qed (use assms in \<open>simp add: consider_word_def\<close>)

lemma complete_completes:
  assumes "list_all (\<lambda>w. CHR '' '' \<notin> set w) words" and "prefix \<noteq> []" and "hd prefix \<noteq> CHR ''.''"
  shows "completes (filter (prefix_of prefix) words) (qdos_complete words prefix)"
proof -
  have "completes (filter (prefix_of prefix) words)
      (foldl (\<lambda>out name. consider_word prefix name out) \<lparr>cp_matches = 0, cp_common = [], cp_listing = []\<rparr> words)"
    using assms(1)
  proof (induction words rule: rev_induct)
    case Nil
    then show ?case by (simp add: completes_def listing_ok_def QDOS_COMPLETE_LISTING_def)
  next
    case (snoc w ws)
    then show ?case using consider_completes [OF _ _ assms(2,3), of "filter (prefix_of prefix) ws" _ w] by auto
  qed
  then show ?thesis using assms(2) by (simp add: qdos_complete_def)
qed

text \<open>The names a walk meets, each once, and a listing of them all.\<close>

definition firsts :: "cstring list \<Rightarrow> cstring list" where
  "firsts ms = rev (remdups (rev ms))"

fun joined :: "cstring list \<Rightarrow> cstring" where
  "joined [] = []"
| "joined (n # ns) = n @ concat (map (\<lambda>m. CHR '' '' # m) ns)"

lemma firsts_snoc: "firsts (ms @ [w]) = (if w \<in> set ms then firsts ms else firsts ms @ [w])"
  by (simp add: firsts_def)

lemma set_firsts [simp]: "set (firsts ms) = set ms"
  by (simp add: firsts_def)

lemma joined_snoc: "joined (ns @ [w]) = joined ns @ (if ns = [] then w else CHR '' '' # w)"
  by (cases ns) auto

lemma joined_nonempty: "[] \<notin> set ns \<Longrightarrow> joined ns = [] \<longleftrightarrow> ns = []"
  by (cases ns) auto

definition plain_name :: "cstring \<Rightarrow> bool" where
  "plain_name w \<longleftrightarrow> w \<noteq> [] \<and> CHR '' '' \<notin> set w"

lemma last_joined: "list_all plain_name ns \<Longrightarrow> ns \<noteq> [] \<Longrightarrow> last (joined ns) \<noteq> CHR '' ''"
  by (induction ns rule: rev_induct) (auto simp: joined_snoc plain_name_def dest: last_in_set)

lemma listing_has_joined: "list_all plain_name ns \<Longrightarrow> listing_has (joined ns) n \<longleftrightarrow> n \<in> set ns"
proof (induction ns rule: rev_induct)
  case (snoc w ns)
  then have ns: "list_all plain_name ns" "[] \<notin> set ns" "w \<noteq> []" "CHR '' '' \<notin> set w"
    by (auto simp: plain_name_def list_all_iff)
  show ?case
  proof (cases "ns = []")
    case True
    then show ?thesis using ns by (auto simp: listing_has_one)
  next
    case False
    then have "joined ns \<noteq> []" using joined_nonempty [OF ns(2)] by simp
    then show ?thesis
      using False listing_has_append [OF ns(3,4) _ last_joined [OF ns(1) False]] snoc.IH [OF ns(1)]
      by (auto simp: joined_snoc)
  qed
qed simp

text \<open>While the names fit, the listing is all of them and the count is exact.\<close>

definition lists_all :: "cstring list \<Rightarrow> qdos_completion \<Rightarrow> bool" where
  "lists_all ms out \<longleftrightarrow> cp_matches out = length (firsts ms) \<and> cp_listing out = joined (firsts ms)"

lemma consider_lists_all:
  assumes "lists_all ms out" and "list_all plain_name (ms @ [w])"
    and "length (joined (firsts (ms @ [w]))) + 1 < QDOS_COMPLETE_LISTING" and "prefix_of prefix w"
  shows "lists_all (ms @ [w]) (consider_word prefix w out)"
proof -
  have plain: "list_all plain_name (firsts ms)" "[] \<notin> set (firsts ms)"
    using assms(2) by (auto simp: list_all_iff plain_name_def)
  show ?thesis
    using assms listing_has_joined [OF plain(1), of w] joined_nonempty [OF plain(2)]
    by (auto simp: lists_all_def consider_word_def Let_def append_listing_def narrow_common_def firsts_snoc joined_snoc
        split: if_splits)
qed

lemma joined_prefix_fits: "length (joined (firsts ms)) \<le> length (joined (firsts (ms @ [w])))"
  by (simp add: firsts_snoc joined_snoc)

lemma complete_lists_all:
  assumes "list_all plain_name words" and "prefix \<noteq> []"
    and "length (joined (firsts (filter (prefix_of prefix) words))) + 1 < QDOS_COMPLETE_LISTING"
  shows "lists_all (filter (prefix_of prefix) words) (qdos_complete words prefix)"
proof -
  have "lists_all (filter (prefix_of prefix) words)
      (foldl (\<lambda>out name. consider_word prefix name out) \<lparr>cp_matches = 0, cp_common = [], cp_listing = []\<rparr> words)"
    using assms(1,3)
  proof (induction words rule: rev_induct)
    case Nil
    then show ?case by (simp add: lists_all_def firsts_def)
  next
    case (snoc w ws)
    show ?case
    proof (cases "prefix_of prefix w")
      case True
      have "length (joined (firsts (filter (prefix_of prefix) ws))) + 1 < QDOS_COMPLETE_LISTING"
        using snoc.prems(2) joined_prefix_fits [of "filter (prefix_of prefix) ws" w] True by simp
      then show ?thesis using snoc True consider_lists_all [of "filter (prefix_of prefix) ws" _ w prefix]
        by (auto simp: list_all_iff)
    next
      case False
      then show ?thesis using snoc by (simp add: consider_word_def)
    qed
  qed
  then show ?thesis using assms(2) by (simp add: qdos_complete_def)
qed

section \<open>Lemmas on the list of words\<close>

lemma collect_is_take:
  "length out \<le> QDOS_WORDLIST_MAX \<Longrightarrow>
   collect names out = out @ take (QDOS_WORDLIST_MAX - length out) (filter (\<lambda>n. length n < QDOS_WORDLIST_NAME) names)"
proof (induction names arbitrary: out)
  case (Cons n ns)
  show ?case
  proof (cases "length out < QDOS_WORDLIST_MAX")
    case True
    then obtain k where k: "QDOS_WORDLIST_MAX - length out = Suc k" by (metis Suc_diff_Suc)
    then have "QDOS_WORDLIST_MAX - length (out @ [n]) = k" by simp
    then show ?thesis using Cons.IH [of out] Cons.IH [of "out @ [n]"] True k by auto
  qed (use Cons.prems in simp)
qed simp

text \<open>On sorted names, keeping one of each leaves them strictly sorted.\<close>

lemma keep_one_sorted:
  assumes "sorted_wrt (\<lambda>a b. \<not> str_less b a) names" and "sorted_wrt str_less kept"
    and "\<forall>k\<in>set kept. \<forall>n\<in>set names. \<not> str_less n k"
  shows "sorted_wrt str_less (keep_one kept names) \<and> set (keep_one kept names) = set kept \<union> set names"
  using assms
proof (induction names arbitrary: kept)
  case (Cons n ns)
  show ?case
  proof (cases "kept \<noteq> [] \<and> last kept = n")
    case True
    then have "n \<in> set kept" by auto
    then show ?thesis using Cons.IH [of kept] Cons.prems True by auto
  next
    case False
    have "str_less k n" if "k \<in> set kept" for k
    proof (rule ccontr)
      assume "\<not> str_less k n"
      then have "k = n" using Cons.prems(3) that str_less_total by fastforce
      then show False
        using False Cons.prems(2,3) that by (cases kept rule: rev_cases) (auto simp: sorted_wrt_append)
    qed
    then have "sorted_wrt str_less (kept @ [n])" using Cons.prems(2) by (auto simp: sorted_wrt_append)
    then show ?thesis using Cons.IH [of "kept @ [n]"] Cons.prems False by auto
  qed
qed simp

lemma strictly_sorted_distinct: "sorted_wrt str_less names \<Longrightarrow> distinct names"
  by (induction names) auto

section \<open>Properties\<close>

text \<open>
  C21. Completing the word at the end of a line types only what every word that starts like it has in
  common: the completion extends what was typed, all the matches start with it and no longer text
  does; nothing matches exactly when no word starts like that. While they fit, the listing is every
  match once, in the interpreter's order, and the count is theirs; the listing never leaves its buffer.
\<close>

theorem completion_is_the_shared_prefix:
  assumes "list_all plain_name words" and "qdos_complete_prefix_len input = n" and "0 < n"
  shows "let prefix = drop (length input - n) input; out = qdos_complete words prefix;
             ms = filter (prefix_of prefix) words
         in (cp_matches out = 0 \<longleftrightarrow> ms = []) \<and>
            (ms \<noteq> [] \<longrightarrow> prefix_of prefix (cp_common out) \<and> greatest_common ms (cp_common out)) \<and>
            length (cp_listing out) < QDOS_COMPLETE_LISTING \<and>
            (length (joined (firsts ms)) + 1 < QDOS_COMPLETE_LISTING \<longrightarrow>
               cp_matches out = length (firsts ms) \<and> cp_listing out = joined (firsts ms))"
proof -
  let ?p = "drop (length input - n) input"
  have n: "n = length (takeWhile completable (rev input))" "n < QDOS_WORD_MAX"
    using assms(2,3) by (auto simp: qdos_complete_prefix_len_def Let_def split: if_splits)
  then have le: "n \<le> length input" using length_takeWhile_le [of completable "rev input"] by simp
  have "takeWhile completable (rev input) = take n (rev input)" unfolding n(1) by (metis takeWhile_eq_take)
  also have "\<dots> = rev ?p" using le by (simp add: take_rev)
  finally have "set ?p = set (takeWhile completable (rev input))" by simp
  then have chars: "\<forall>c\<in>set ?p. completable c" by (auto dest: set_takeWhileD)
  have "?p \<noteq> []" using assms(3) le by simp
  moreover have "\<not> completable (CHR ''.'')" by (simp add: completable_def ctype_simps)
  ultimately have p: "?p \<noteq> []" "hd ?p \<noteq> CHR ''.''" "length ?p < QDOS_WORD_MAX"
    using chars le n(2) by (metis hd_in_set, metis hd_in_set, simp)
  have words: "list_all (\<lambda>w. CHR '' '' \<notin> set w) words" using assms(1) by (auto simp: list_all_iff plain_name_def)
  show ?thesis
    using complete_completes [OF words p(1,2)] complete_lists_all [OF assms(1) p(1)] p(3)
    by (auto simp: Let_def completes_def listing_ok_def lists_all_def greatest_common_def list_all_iff)
qed

lemma completion_is_the_shared_prefix_witness:
  "let out = qdos_complete [''sqrt'', ''sq'', ''dup'', ''sqrt'', ''sqroot''] ''sq''
   in cp_matches out = 3 \<and> cp_common out = ''sq'' \<and> cp_listing out = ''sqrt sq sqroot''"
proof -
  have "list_all plain_name [''sqrt'', ''sq'', ''dup'', ''sqrt'', ''sqroot'']"
    "qdos_complete_prefix_len ''2.0 sq'' = 2" by code_simp+
  from completion_is_the_shared_prefix [OF this]
  have *: "let out = qdos_complete [''sqrt'', ''sq'', ''dup'', ''sqrt'', ''sqroot''] ''sq''
    in cp_matches out = 3 \<and> cp_listing out = ''sqrt sq sqroot''"
    by (simp add: Let_def prefix_of_def firsts_def QDOS_COMPLETE_LISTING_def)
  moreover have "cp_common (qdos_complete [''sqrt'', ''sq'', ''dup'', ''sqrt'', ''sqroot''] ''sq'') = ''sq''"
    by code_simp
  ultimately show ?thesis by (simp add: Let_def)
qed

text \<open>
  The list of words is what the catalogue needs it to be: every name strictly before the next,
  so each once however often it is declared, none too long for its row, and when the vocabulary fits
  it is exactly the words short enough to show.
\<close>

theorem gathered_words_are_the_vocabulary:
  "sorted_wrt str_less (qdos_wordlist_gather words) \<and> length (qdos_wordlist_gather words) \<le> QDOS_WORDLIST_MAX \<and>
   set (qdos_wordlist_gather words) =
     set (take QDOS_WORDLIST_MAX (filter (\<lambda>n. length n < QDOS_WORDLIST_NAME) words))"
proof -
  let ?names = "take QDOS_WORDLIST_MAX (filter (\<lambda>n. length n < QDOS_WORDLIST_NAME) words)"
  have collected: "collect words [] = ?names" by (simp add: collect_is_take)
  have "weak_order str_less"
    unfolding weak_order_def using str_less_irrefl str_less_trans str_less_neg_trans by blast
  from sorted_qsort [OF this, of ?names]
  have *: "sorted_wrt str_less (qdos_wordlist_gather words) \<and> set (qdos_wordlist_gather words) = set ?names"
    using keep_one_sorted [of "qsort str_less ?names" "[]"] by (simp add: qdos_wordlist_gather_def collected)
  have "distinct (qdos_wordlist_gather words)"
    using * by (simp add: strictly_sorted_distinct)
  then have "length (qdos_wordlist_gather words) = card (set ?names)" using * distinct_card by metis
  also have "\<dots> \<le> length ?names" by (rule card_length)
  finally show ?thesis using * by simp
qed

end
