(* ===== verification/Line.thy ===== *)
theory Line
  imports Undo Words Infix
begin

text \<open>
  The input line (\<^verbatim>\<open>src/shell/shell.c\<close>): editing it, the lines entered before, what the
  keypad's keys type into it, the hints for a line written as it is said aloud, and evaluating it.
\<close>

section \<open>Editing\<close>

definition input_append :: "cstring \<Rightarrow> ('p, 'q, 'w) shell \<Rightarrow> ('p, 'q, 'w) shell" where
  "input_append s sh =
     (if INPUT_MAX \<le> length (sh_input sh) + length s then sh
      else sh\<lparr>sh_input := insert_at (sh_cursor sh) s (sh_input sh), sh_cursor := sh_cursor sh + length s\<rparr>)"

definition input_backspace :: "('p, 'q, 'w) shell \<Rightarrow> ('p, 'q, 'w) shell" where
  "input_backspace sh =
     (if sh_cursor sh = 0 then sh
      else sh\<lparr>sh_input := delete_before (sh_cursor sh) (sh_input sh), sh_cursor := sh_cursor sh - 1\<rparr>)"

definition input_clear :: "('p, 'q, 'w) shell \<Rightarrow> ('p, 'q, 'w) shell" where
  "input_clear sh = sh\<lparr>sh_cursor := 0, sh_input := []\<rparr>"

definition history_add :: "('p, 'q, 'w) shell \<Rightarrow> ('p, 'q, 'w) shell" where
  "history_add sh =
     (let h = sh_history sh
      in if h \<noteq> [] \<and> last h = sh_input sh then sh\<lparr>sh_history_at := length h\<rparr>
         else
           let h = (if length h = HISTORY_MAX then tl h else h); h = h @ [clip INPUT_MAX (sh_input sh)]
           in sh\<lparr>sh_history := h, sh_history_at := length h\<rparr>)"

definition history_step :: "int \<Rightarrow> ('p, 'q, 'w) shell \<Rightarrow> ('p, 'q, 'w) shell" where
  "history_step dir sh =
     (case (if dir < 0 \<and> 0 < sh_history_at sh then Some (sh_history_at sh - 1)
            else if 0 < dir \<and> sh_history_at sh < length (sh_history sh) then Some (sh_history_at sh + 1)
            else None) of
        None \<Rightarrow> sh
      | Some at \<Rightarrow>
          let sh1 = input_clear (sh\<lparr>sh_history_at := at\<rparr>)
          in if at < length (sh_history sh1) then
               let line = clip INPUT_MAX (sh_history sh1 ! at)
               in sh1\<lparr>sh_input := line, sh_cursor := length line\<rparr>
             else sh1)"

section \<open>Reading the line\<close>

text \<open>Whether a bracket is still open: strings are passed over, with their escapes.\<close>

function open_depth :: "cstring \<Rightarrow> int \<Rightarrow> bool \<Rightarrow> int" where
  "open_depth [] n in_string = n"
| "open_depth (c # cs) n in_string =
     (if in_string then
        (if c = CHR 0x5C \<and> cs \<noteq> [] then open_depth (tl cs) n True
         else open_depth cs n (c \<noteq> CHR 0x22))
      else if c = CHR 0x22 then open_depth cs n True
      else if c \<in> set ''{(['' then open_depth cs (n + 1) False
      else if c \<in> set ''})]'' then open_depth cs (n - 1) False
      else open_depth cs n False)"
  by pat_completeness auto
termination by (relation "measure (\<lambda>(cs, d, s). length cs)") auto

definition input_is_complete :: "('p, 'q, 'w) shell \<Rightarrow> bool" where
  "input_is_complete sh \<longleftrightarrow> open_depth (sh_input sh) 0 False \<le> 0"

text \<open>Inside a string or a comment, where a key types its character and nothing else.\<close>

function literal_from :: "cstring \<Rightarrow> nat \<Rightarrow> nat \<Rightarrow> bool \<Rightarrow> bool \<Rightarrow> bool" where
  "literal_from s i cursor string comment =
     (if cursor \<le> i then string \<or> comment
      else
        let ch = char_at s i
        in if comment then literal_from s (i + 1) cursor string (ch \<noteq> newline)
           else if string then
             (if ch = CHR 0x5C then literal_from s (i + 2) cursor string comment
              else literal_from s (i + 1) cursor (ch \<noteq> CHR 0x22) comment)
           else if ch = CHR 0x22 then literal_from s (i + 1) cursor True comment
           else if ch = CHR ''/'' \<and> i + 1 < length s \<and> char_at s (i + 1) = CHR ''/'' then
             literal_from s (i + 1) cursor string True
           else literal_from s (i + 1) cursor string comment)"
  by pat_completeness auto
termination by (relation "measure (\<lambda>(s, i, cursor, string, comment). cursor - i)") auto

declare literal_from.simps [simp del]

definition text_is_literal :: "cstring \<Rightarrow> nat \<Rightarrow> bool" where
  "text_is_literal s cursor = literal_from s 0 cursor False False"

definition line_is_literal :: "('p, 'q, 'w) shell \<Rightarrow> bool" where
  "line_is_literal sh = text_is_literal (sh_input sh) (sh_cursor sh)"

definition char_before_cursor :: "('p, 'q, 'w) shell \<Rightarrow> char" where
  "char_before_cursor sh = (if 0 < sh_cursor sh then char_at (sh_input sh) (sh_cursor sh - 1) else CHR '' '')"

definition after_exponent :: "('p, 'q, 'w) shell \<Rightarrow> bool" where
  "after_exponent sh \<longleftrightarrow>
     (let at = sh_cursor sh
      in 2 \<le> at \<and> (char_at (sh_input sh) (at - 1) = CHR ''e'' \<or> char_at (sh_input sh) (at - 1) = CHR ''E'') \<and>
         (is_digit (char_at (sh_input sh) (at - 2)) \<or> char_at (sh_input sh) (at - 2) = CHR ''.''))"

section \<open>What the keys type\<close>

definition input_word :: "cstring \<Rightarrow> ('p, 'q, 'w) shell \<Rightarrow> ('p, 'q, 'w) shell" where
  "input_word word sh =
     (let before = char_before_cursor sh;
          sh1 = (if before \<noteq> CHR '' '' \<and> before \<noteq> newline then input_append '' '' sh else sh);
          sh2 = input_append word sh1;
          after = char_at (sh_input sh2) (sh_cursor sh2)
      in if after \<noteq> CHR '' '' \<and> after \<noteq> newline then input_append '' '' sh2
         else sh2\<lparr>sh_cursor := sh_cursor sh2 + 1\<rparr>)"

definition op_text :: "('p, 'q, 'w) shell \<Rightarrow> cstring \<Rightarrow> cstring" where
  "op_text sh word =
     (if sh_mode sh = QDOS_MODE_PLOT_EDIT then
        (case map_of [(''plus'', ''+''), (''minus'', ''-''), (''multiply'', ''*'')] word of
           Some symbol \<Rightarrow> symbol | None \<Rightarrow> word)
      else word)"

text \<open>The key that says a minus just typed was a sign, or part of an arrow; \<open>None\<close> when it was not.\<close>

definition sign_text :: "qdos_key_event \<Rightarrow> cstring option" where
  "sign_text ev =
     (let key = ev_key ev; ch = ev_ch ev
      in if QDOS_KEY_0 \<le> key \<and> key \<le> QDOS_KEY_9 then Some [digit_char (key - QDOS_KEY_0)]
         else if key = QDOS_KEY_DOT then Some ''.''
         else if key = QDOS_KEY_SUB then Some ''- ''
         else if key = QDOS_KEY_CHAR \<and> ch = CHR ''>'' then Some ''> ''
         else if key = QDOS_KEY_CHAR \<and> (is_digit ch \<or> ch = CHR ''.'') then Some [ch]
         else None)"

definition line_minus_fixup :: "qdos_key_event \<Rightarrow> ('p, 'q, 'w) shell \<Rightarrow> ('p, 'q, 'w) shell option" where
  "line_minus_fixup ev sh =
     (let typed = op_text sh ''minus'' @ '' ''; n = length typed
      in if sh_cursor sh < n \<or> take n (drop (sh_cursor sh - n) (sh_input sh)) \<noteq> typed then None
         else
           (case sign_text ev of
              None \<Rightarrow> None
            | Some s \<Rightarrow> Some (input_append s (input_append ''-'' ((input_backspace ^^ n) sh)))))"

definition FUNCTION_WORD :: "cstring list" where
  "FUNCTION_WORD =
     [''sin'', ''cos'', ''tan'', ''ln'', ''log'', ''sqrt'', ''sq'', ''pow'', ''inv'', ''abs'', ''floor'', ''ceil'',
      ''round'', ''percent'', ''rot'', ''over'']"

definition FUNCTION_WORD2 :: "cstring list" where
  "FUNCTION_WORD2 = [''asin'', ''acos'', ''atan'', ''exp'']"

definition FUNCTION_WORD3 :: "cstring list" where
  "FUNCTION_WORD3 = [''alog'', ''fac'', ''rolld'', ''lastx'']"

definition function_word :: "qdos_key \<Rightarrow> cstring option" where
  "function_word key =
     (if QDOS_KEY_FN_FIRST \<le> key \<and> key \<le> QDOS_KEY_FN_LAST then Some (FUNCTION_WORD ! (key - QDOS_KEY_FN_FIRST))
      else if QDOS_KEY_FN2_FIRST \<le> key \<and> key \<le> QDOS_KEY_FN2_LAST then Some (FUNCTION_WORD2 ! (key - QDOS_KEY_FN2_FIRST))
      else if QDOS_KEY_FN3_FIRST \<le> key \<and> key \<le> QDOS_KEY_FN3_LAST then Some (FUNCTION_WORD3 ! (key - QDOS_KEY_FN3_FIRST))
      else None)"

section \<open>Hints\<close>

definition infix_operator :: "char \<Rightarrow> bool" where
  "infix_operator ch \<longleftrightarrow> ch = CHR ''+'' \<or> ch = CHR ''-'' \<or> ch = CHR ''*'' \<or> ch = CHR ''/''"

definition infix_operator_token :: "cstring \<Rightarrow> bool" where
  "infix_operator_token token =
     (if length token = 1 then infix_operator (token ! 0)
      else list_ex (\<lambda>w. w = token) [''plus'', ''minus'', ''multiply'', ''divide''])"

fun infix_number_from :: "nat \<Rightarrow> bool \<Rightarrow> bool \<Rightarrow> cstring \<Rightarrow> bool" where
  "infix_number_from i digit point [] = digit"
| "infix_number_from i digit point (c # cs) =
     (if is_digit c then infix_number_from (i + 1) True point cs
      else if c = CHR ''.'' \<and> \<not> point then infix_number_from (i + 1) digit True cs
      else if c \<noteq> CHR ''-'' \<or> i \<noteq> 0 then False
      else infix_number_from (i + 1) digit point cs)"

definition infix_number :: "cstring \<Rightarrow> bool" where
  "infix_number s = infix_number_from 0 False False s"

text \<open>The tokens of a line, its runs between spaces.\<close>

fun tokens_from :: "cstring \<Rightarrow> cstring \<Rightarrow> cstring list" where
  "tokens_from cur [] = (if cur = [] then [] else [cur])"
| "tokens_from cur (c # cs) =
     (if c \<noteq> CHR '' '' then tokens_from (cur @ [c]) cs
      else if cur = [] then tokens_from [] cs else cur # tokens_from [] cs)"

definition tokens_of :: "cstring \<Rightarrow> cstring list" where
  "tokens_of line = tokens_from [] line"

text \<open>A token of the translation as it is shown: the keypad's word for it, a float as it was typed.\<close>

definition shown_token :: "cstring \<Rightarrow> cstring" where
  "shown_token token =
     (case map_of [(''+'', ''plus''), (''-'', ''minus''), (''*'', ''multiply'')] token of
        Some w \<Rightarrow> w
      | None \<Rightarrow>
          if 2 < length token \<and> suffix_of ''.0'' token \<and> is_digit (token ! 0)
          then take (length token - 2) token else token)"

fun hint_from :: "nat \<Rightarrow> cstring list \<Rightarrow> cstring \<Rightarrow> cstring option" where
  "hint_from cap [] out = (if length out < cap then Some out else None)"
| "hint_from cap (t # ts) out =
     (if length out < cap then hint_from cap ts (out @ CHR '' '' # shown_token t) else None)"

definition HINT_CAP :: nat where "HINT_CAP = 2 * MESSAGE_COLS + 1"

definition rpn_hint :: "cstring \<Rightarrow> nat \<Rightarrow> cstring option" where
  "rpn_hint line cap =
     (if HINT_CAP \<le> length line then None
      else
        (case qdos_infix_to_rpn line HINT_CAP (MESSAGE_COLS + 1) of
           Some (Some results, rpn, _) \<Rightarrow>
             if results \<noteq> 1 then None else hint_from cap (tokens_of rpn) ''RPN: TRY''
         | _ \<Rightarrow> None))"

text \<open>The first operator in a token, past its first character and before its last.\<close>

fun operator_at :: "nat \<Rightarrow> cstring \<Rightarrow> nat option" where
  "operator_at i (c # d # cs) = (if 0 < i \<and> infix_operator c then Some i else operator_at (i + 1) (d # cs))"
| "operator_at i _ = None"

definition operands :: "cstring list \<Rightarrow> (cstring \<times> cstring \<times> cstring) option" where
  "operands toks =
     (let count = length toks;
          alternating = 3 \<le> count \<and> count mod 2 = 1 \<and>
            list_all (\<lambda>i. if i mod 2 = 0 then infix_number (toks ! i) else infix_operator_token (toks ! i)) [0..<count]
      in if alternating then Some (toks ! 0, toks ! 1, toks ! 2)
         else if count = 1 then
           (case operator_at 0 (toks ! 0) of
              Some i \<Rightarrow> Some (take i (toks ! 0), [toks ! 0 ! i], drop (i + 1) (toks ! 0))
            | None \<Rightarrow> None)
         else None)"

definition infix_hint :: "cstring \<Rightarrow> nat \<Rightarrow> cstring option" where
  "infix_hint line cap =
     (let toks = tokens_of line
      in if 16 < length toks then None
         else
           (case operands toks of
              None \<Rightarrow> None
            | Some (left, op, right) \<Rightarrow>
                if \<not> infix_number left \<or> \<not> infix_number right then None
                else
                  (case rpn_hint line cap of
                     Some hint \<Rightarrow> Some hint
                   | None \<Rightarrow> Some (clip cap (''RPN: TRY '' @ take 6 left @ '' '' @ take 6 right @ '' '' @ op)))))"

definition infix_word_char :: "char \<Rightarrow> bool" where
  "infix_word_char ch \<longleftrightarrow> is_digit ch \<or> is_lower ch \<or> is_upper ch \<or> ch = CHR ''.'' \<or> ch = CHR ''_''"

text \<open>The run of word characters that ends before an offset.\<close>

definition word_before :: "cstring \<Rightarrow> nat \<Rightarrow> cstring" where
  "word_before line at = rev (takeWhile infix_word_char (rev (take at line)))"

definition brackets_hint :: "cstring \<Rightarrow> nat \<Rightarrow> nat \<Rightarrow> cstring" where
  "brackets_hint line at cap =
     (let name = word_before line at;
          close = find_char (CHR '')'') (drop at line);
          arg = (case close of Some c \<Rightarrow> take (c - 1) (drop (at + 1) line) | None \<Rightarrow> []);
          simple = close \<noteq> None \<and> arg \<noteq> [] \<and> name \<noteq> [] \<and> list_all (\<lambda>c. infix_word_char c \<or> c = CHR '' '') arg
      in case rpn_hint line HINT_CAP of
           Some whole \<Rightarrow> clip cap (''RPN, NO BRACKETS: '' @ drop (length ''RPN: '') whole)
         | None \<Rightarrow>
             if simple then clip cap (''RPN, NO BRACKETS: TRY '' @ arg @ '' '' @ name)
             else clip cap ''RPN HAS NO BRACKETS: WHAT A WORD TAKES GOES BEFORE IT'')"

text \<open>An operator between two words, and not the sign of an exponent.\<close>

definition glued_at :: "cstring \<Rightarrow> nat \<Rightarrow> bool" where
  "glued_at line i \<longleftrightarrow>
     (infix_operator (char_at line i) \<or> char_at line i = CHR ''^'') \<and> 0 < i \<and>
     infix_word_char (char_at line (i - 1)) \<and> infix_word_char (char_at line (i + 1)) \<and>
     \<not> ((char_at line i = CHR ''-'' \<or> char_at line i = CHR ''+'') \<and>
        (char_at line (i - 1) = CHR ''e'' \<or> char_at line (i - 1) = CHR ''E'') \<and> 2 \<le> i \<and>
        is_digit (char_at line (i - 2)))"

definition infix_explain :: "cstring \<Rightarrow> nat \<Rightarrow> cstring option" where
  "infix_explain line cap =
     (if CHR ''{'' \<in> set line \<or> CHR 0x22 \<in> set line \<or> prefix_of ''fn '' line \<or> prefix_of ''def '' line then None
      else
        (case find_char (CHR ''('') line of
           Some at \<Rightarrow> Some (brackets_hint line at cap)
         | None \<Rightarrow>
             (case filter (glued_at line) [0..<length line] of
                [] \<Rightarrow> None
              | i # _ \<Rightarrow>
                  (case rpn_hint line cap of
                     Some hint \<Rightarrow> Some hint
                   | None \<Rightarrow>
                       let ch = char_at line i
                       in Some (clip cap
                            (''RPN: TRY '' @ word_before line i @ '' '' @
                             takeWhile infix_word_char (drop (i + 1) line) @ '' '' @
                             (if ch = CHR ''^'' then ''pow'' else if ch = CHR ''/'' then ''divide'' else [ch])))))))"

section \<open>Evaluating the line\<close>

definition submit :: "('p, 'q, 'w) machine \<Rightarrow> ('p, 'q, 'w) shell \<Rightarrow> ('p, 'q, 'w) shell" where
  "submit mc sh =
     (if sh_input sh = [] then sh
      else
        (case infix_hint (sh_input sh) HINT_CAP of
           Some hint \<Rightarrow> set_message hint True sh
         | None \<Rightarrow>
             let before = sh_mode sh;
                 (ok, sh2) = qdos_guarded_eval mc (sh_input sh) (undo_snapshot mc (history_add sh));
                 finish = (\<lambda>sh. input_clear (if sh_mode sh = before then absorb_output sh else sh))
             in if ok then finish (if sh_mode sh2 = before then report_declaration mc sh2 else sh2)
                else
                  let (hint, sh3) =
                        (case infix_explain (sh_input sh2) HINT_CAP of
                           Some hint \<Rightarrow> (hint, sh2)
                         | None \<Rightarrow> let (e, sh3) = qdos_guarded_error mc sh2 in (clip HINT_CAP e, sh3));
                      sh4 = set_message hint True (undo_failed mc sh3)
                  in if sh_mode sh4 = before then sh4 else finish sh4))"

definition complete_word :: "('p, 'q, 'w) machine \<Rightarrow> ('p, 'q, 'w) shell \<Rightarrow> ('p, 'q, 'w) shell" where
  "complete_word mc sh =
     (let n = qdos_complete_prefix_len (sh_input sh)
      in if n = 0 then sh
         else
           let prefix = drop (length (sh_input sh) - n) (sh_input sh);
               found = qdos_complete (qd_interp_words mc sh) prefix
           in if cp_matches found = 0 then set_message ''NO MATCH'' False sh
              else
                let sh1 = (if n < length (cp_common found) then input_append (drop n (cp_common found)) sh else sh)
                in if cp_matches found = 1 then set_message [] False (input_append '' '' sh1)
                   else set_message (cp_listing found) False sh1)"

definition line_closed :: "('p, 'q, 'w) machine \<Rightarrow> ('p, 'q, 'w) shell \<Rightarrow> ('p, 'q, 'w) shell" where
  "line_closed mc sh =
     (let sh1 = sh\<lparr>sh_mode := QDOS_MODE_CALC, sh_line_once := False\<rparr>
      in case modifier_reset mc of None \<Rightarrow> sh1 | Some f \<Rightarrow> sh1\<lparr>sh_world := f (sh_world sh1)\<rparr>)"

definition leave_line_mode :: "('p, 'q, 'w) machine \<Rightarrow> ('p, 'q, 'w) shell \<Rightarrow> ('p, 'q, 'w) shell" where
  "leave_line_mode mc sh = set_message [] False (input_clear (line_closed mc sh))"

section \<open>The keys\<close>

text \<open>The operators of the keypad: a word of their own, or the character where one is meant.\<close>

definition line_operator :: "qdos_key \<Rightarrow> ('p, 'q, 'w) shell \<Rightarrow> ('p, 'q, 'w) shell" where
  "line_operator key sh =
     (if key = QDOS_KEY_ADD then
        (if line_is_literal sh \<or> after_exponent sh then input_append ''+'' sh else input_word (op_text sh ''plus'') sh)
      else if key = QDOS_KEY_SUB then
        (let before = char_before_cursor sh
         in if line_is_literal sh \<or> after_exponent sh then input_append ''-'' sh
            else (input_word (op_text sh ''minus'') sh)
                   \<lparr>sh_line_minus := before = CHR '' '' \<or> before = newline \<or> before = CHR ''(''\<rparr>)
      else if key = QDOS_KEY_MUL then
        (if line_is_literal sh then input_append ''*'' sh else input_word (op_text sh ''multiply'') sh)
      else
        (if line_is_literal sh then input_append ''/'' sh else input_word ''divide'' sh))"

text \<open>The keys that type one word.\<close>

definition LINE_WORDS :: "(qdos_key \<times> cstring) list" where
  "LINE_WORDS =
     [(QDOS_KEY_DUP, ''dup''), (QDOS_KEY_DROP, ''drop''), (QDOS_KEY_SWAP, ''swap''), (QDOS_KEY_NEG, ''neg''),
      (QDOS_KEY_PI, ''pi''), (QDOS_KEY_E, ''e''), (QDOS_KEY_I, ''i''), (QDOS_KEY_COMPLEX, ''complex''),
      (QDOS_KEY_STO, ''sto''), (QDOS_KEY_RCL, ''rcl'')]"

definition line_enter :: "('p, 'q, 'w) machine \<Rightarrow> ('p, 'q, 'w) shell \<Rightarrow> ('p, 'q, 'w) shell" where
  "line_enter mc sh =
     (if \<not> input_is_complete sh then input_append [newline] sh
      else
        let sh1 = submit mc sh
        in if sh_line_once sh1 \<and> sh_mode sh1 = QDOS_MODE_LINE \<and> sh_input sh1 = [] then line_closed mc sh1 else sh1)"

definition line_key :: "('p, 'q, 'w) machine \<Rightarrow> qdos_key_event \<Rightarrow> ('p, 'q, 'w) shell \<Rightarrow> ('p, 'q, 'w) shell" where
  "line_key mc ev sh =
     (let key = ev_key ev; ch = ev_ch ev
      in if QDOS_KEY_0 \<le> key \<and> key \<le> QDOS_KEY_9 then input_append [digit_char (key - QDOS_KEY_0)] sh
         else if key = QDOS_KEY_DOT then input_append ''.'' sh
         else if QDOS_KEY_ADD \<le> key \<and> key \<le> QDOS_KEY_DIV then line_operator key sh
         else if key = QDOS_KEY_EE then input_append ''e'' sh
         else if key = QDOS_KEY_CLEAR_STACK then
           set_message ''STACK CLEARED'' False (snd (qdos_guarded_eval mc ''clear'' (undo_snapshot mc sh)))
         else if key = QDOS_KEY_UNDO then undo_restore mc sh
         else if key = QDOS_KEY_UP \<or> key = QDOS_KEY_DOWN then
           (if sh_mode sh = QDOS_MODE_LINE then history_step (if key = QDOS_KEY_UP then -1 else 1) sh else sh)
         else if map_of LINE_WORDS key \<noteq> None then input_word (the (map_of LINE_WORDS key)) sh
         else if key = QDOS_KEY_CHAR then
           (if ch = CHR '' '' \<and> char_before_cursor sh = CHR '' '' \<and> 0 < sh_cursor sh \<and> \<not> line_is_literal sh then sh
            else if ch \<noteq> nul then input_append [ch] sh else sh)
         else if key = QDOS_KEY_ENTER then line_enter mc sh
         else if key = QDOS_KEY_BACKSPACE then input_backspace sh
         else if key = QDOS_KEY_TAB then complete_word mc sh
         else if key = QDOS_KEY_LEFT then (if 0 < sh_cursor sh then sh\<lparr>sh_cursor := sh_cursor sh - 1\<rparr> else sh)
         else if key = QDOS_KEY_RIGHT then
           (if sh_cursor sh < length (sh_input sh) then sh\<lparr>sh_cursor := sh_cursor sh + 1\<rparr> else sh)
         else if key = QDOS_KEY_CLEAR then
           (if sh_input sh \<noteq> [] then input_clear sh else leave_line_mode mc sh)
         else if key = QDOS_KEY_MODE then leave_line_mode mc sh
         else sh)"

definition handle_line_key ::
    "('p, 'q, 'w) machine \<Rightarrow> qdos_key_event \<Rightarrow> ('p, 'q, 'w) shell \<Rightarrow> ('p, 'q, 'w) shell" where
  "handle_line_key mc ev sh =
     (let after_minus = sh_line_minus sh;
          sh1 = sh\<lparr>sh_line_minus := False\<rparr>;
          fixed = (if after_minus then line_minus_fixup ev sh1 else None)
      in case fixed of
           Some sh2 \<Rightarrow> sh2
         | None \<Rightarrow>
             let key = ev_key ev;
                 sh2 = (if key \<noteq> QDOS_KEY_UP \<and> key \<noteq> QDOS_KEY_DOWN
                        then sh1\<lparr>sh_history_at := length (sh_history sh1)\<rparr> else sh1)
             in case function_word key of
                  Some word \<Rightarrow> input_word word sh2
                | None \<Rightarrow>
                    if QDOS_KEY_ADD \<le> key \<and> key \<le> QDOS_KEY_DIV \<and> ev_ch ev \<noteq> nul then input_append [ev_ch ev] sh2
                    else line_key mc ev sh2)"

section \<open>The line stays in its buffer\<close>

text \<open>The sizes of what the line keeps, as the declarations in the struct have them.\<close>

definition line_ok :: "('p, 'q, 'w) shell \<Rightarrow> bool" where
  "line_ok sh \<longleftrightarrow>
     sh_cursor sh \<le> length (sh_input sh) \<and> length (sh_input sh) < INPUT_MAX \<and>
     length (sh_history sh) \<le> HISTORY_MAX \<and> sh_history_at sh \<le> length (sh_history sh) \<and>
     list_all (\<lambda>l. length l < INPUT_MAX) (sh_history sh) \<and>
     length (sh_line_word sh) \<le> QDOS_LINE_WORDS \<and> length (sh_message sh) \<le> 2 * MESSAGE_COLS \<and>
     length (sh_undo sh) \<le> UNDO_MAX \<and> length (sh_undo_prev sh) \<le> UNDO_MAX"

definition keeps_line :: "('p, 'q, 'w) machine \<Rightarrow> bool" where
  "keeps_line mc \<longleftrightarrow> (\<forall>source sh. line_ok sh \<longrightarrow> line_ok (snd (snd (qd_interp_eval mc source sh))))"

named_theorems line_intros "operations that keep the line in its buffers"

lemma line_ok_append [line_intros]: "line_ok sh \<Longrightarrow> line_ok (input_append s sh)"
  by (auto simp: line_ok_def input_append_def)

lemma line_ok_backspace [line_intros]: "line_ok sh \<Longrightarrow> line_ok (input_backspace sh)"
  by (auto simp: line_ok_def input_backspace_def)

lemma line_ok_backspaces [line_intros]: "line_ok sh \<Longrightarrow> line_ok ((input_backspace ^^ n) sh)"
  by (induction n) (auto intro: line_intros)

lemma line_ok_clear [line_intros]: "line_ok sh \<Longrightarrow> line_ok (input_clear sh)"
  by (auto simp: line_ok_def input_clear_def)

lemma line_ok_history_add [line_intros]: "line_ok sh \<Longrightarrow> line_ok (history_add sh)"
  by (cases "sh_history sh") (auto simp: line_ok_def history_add_def Let_def HISTORY_MAX_def INPUT_MAX_def)

lemma line_ok_history_step [line_intros]: "line_ok sh \<Longrightarrow> line_ok (history_step dir sh)"
  by (auto simp: line_ok_def history_step_def Let_def input_clear_def INPUT_MAX_def clip_def)

lemma line_ok_message [line_intros]: "line_ok sh \<Longrightarrow> line_ok (set_message s b sh)"
  using message_frame [of s b sh] by (auto simp: line_ok_def)

lemma line_ok_log [line_intros]: "line_ok sh \<Longrightarrow> line_ok (log_add s sh)"
  using log_add_frame [of s sh] by (auto simp: line_ok_def)

lemma line_ok_absorb [line_intros]:
  assumes "line_ok sh"
  shows "line_ok (absorb_output sh)"
proof -
  let ?sh = "log_add (sh_printed sh) sh"
  have "line_ok ?sh" using assms by (rule line_intros)
  moreover have "line_ok (?sh\<lparr>sh_output_first := a, sh_output_count := b, sh_output_top := c, sh_output_from := m, sh_mode := m'\<rparr>)"
    for a b c m m' using \<open>line_ok ?sh\<close> by (simp add: line_ok_def)
  ultimately show ?thesis
    using assms by (auto simp: absorb_output_def Let_def intro: line_intros split: option.split)
qed

lemma line_ok_declared [line_intros]: "line_ok sh \<Longrightarrow> line_ok (report_declaration mc sh)"
  by (auto simp: report_declaration_def Let_def split: option.split intro!: line_intros) (auto simp: line_ok_def)

lemma line_ok_eval [line_intros]:
  assumes "keeps_line mc" and "line_ok sh"
  shows "line_ok (snd (qdos_guarded_eval mc source sh))"
proof -
  let ?sh = "if sh_evaluating sh then sh else sh\<lparr>sh_evaluating := True, sh_printed := []\<rparr>"
  have "line_ok ?sh" using assms(2) by (simp add: line_ok_def)
  then have "line_ok (snd (snd (qd_interp_eval mc source ?sh)))" using assms(1) by (auto simp: keeps_line_def)
  then show ?thesis
    by (auto simp: qdos_guarded_eval_def line_ok_def Let_def split: prod.splits outcome.splits)
qed

lemma length_snapshot: "length (fst (snapshot_from mc sh i k exact)) \<le> k"
proof (induction k arbitrary: i exact)
  case (Suc k)
  show ?case
    using Suc [of "i + 1" exact] Suc [of "i + 1" False]
    by (auto simp: Let_def split: option.split bool.split prod.split)
qed simp

lemma line_ok_snapshot [line_intros]:
  assumes "line_ok sh"
  shows "line_ok (undo_snapshot mc sh)"
proof -
  let ?k = "if UNDO_MAX < length (sh_stack sh) then UNDO_MAX else length (sh_stack sh)"
  obtain vs e where s: "snapshot_from mc sh 0 ?k (?k = length (sh_stack sh)) = (vs, e)"
    by (cases "snapshot_from mc sh 0 ?k (?k = length (sh_stack sh))")
  then have "length vs \<le> ?k" using length_snapshot [of mc sh 0 ?k "?k = length (sh_stack sh)"] by simp
  then have "length vs \<le> UNDO_MAX" by (auto split: if_splits)
  then show ?thesis using assms by (simp only: undo_snapshot_def Let_def s split_conv) (simp add: line_ok_def)
qed

lemma line_ok_stack: "line_ok (sh\<lparr>sh_stack := st\<rparr>) = line_ok sh"
  by (simp add: line_ok_def)

lemma line_ok_put_back [line_intros]: "keeps_line mc \<Longrightarrow> line_ok sh \<Longrightarrow> line_ok (undo_put_back mc sh)"
  by (simp add: undo_put_back_def Let_def line_ok_stack line_ok_eval)

lemma line_ok_undo [line_intros]:
  assumes "keeps_line mc" and "line_ok sh"
  shows "line_ok (undo_restore mc sh)" and "line_ok (undo_failed mc sh)"
proof -
  have *: "line_ok (undo_put_back mc sh)" using assms by (rule line_intros)
  then have "line_ok ((undo_put_back mc sh)\<lparr>sh_undo_ready := False\<rparr>)" by (simp add: line_ok_def)
  then show "line_ok (undo_restore mc sh)" using assms by (auto simp: undo_restore_def intro: line_intros)
  show "line_ok (undo_failed mc sh)" using * assms by (auto simp: undo_failed_def Let_def line_ok_def)
qed

lemma line_ok_error [line_intros]: "line_ok sh \<Longrightarrow> line_ok (snd (qdos_guarded_error mc sh))"
  by (simp add: qdos_guarded_error_def line_ok_def)

lemma line_ok_submit [line_intros]:
  assumes "keeps_line mc" and "line_ok sh"
  shows "line_ok (submit mc sh)"
proof -
  obtain ok sh2 where e: "qdos_guarded_eval mc (sh_input sh) (undo_snapshot mc (history_add sh)) = (ok, sh2)"
    by (cases "qdos_guarded_eval mc (sh_input sh) (undo_snapshot mc (history_add sh))")
  have "line_ok sh2" using line_ok_eval [OF assms(1) line_ok_snapshot [OF line_ok_history_add [OF assms(2)]]] e by (metis snd_conv)
  then show ?thesis
    using assms line_ok_error [of sh2 mc]
    by (auto simp: submit_def Let_def e intro!: line_intros split: option.split prod.split)
qed

lemma line_ok_complete [line_intros]: "line_ok sh \<Longrightarrow> line_ok (complete_word mc sh)"
  by (auto simp: complete_word_def Let_def intro!: line_intros)

lemma line_ok_closed [line_intros]: "line_ok sh \<Longrightarrow> line_ok (line_closed mc sh)"
  by (auto simp: line_closed_def line_ok_def Let_def split: option.split)

lemma line_ok_leave [line_intros]: "line_ok sh \<Longrightarrow> line_ok (leave_line_mode mc sh)"
  by (auto simp: leave_line_mode_def intro!: line_intros)

lemma line_ok_word [line_intros]:
  assumes "line_ok sh"
  shows "line_ok (input_word word sh)"
proof -
  have step: "line_ok (sh'\<lparr>sh_cursor := sh_cursor sh' + 1\<rparr>)"
    if "line_ok sh'" "char_at (sh_input sh') (sh_cursor sh') \<in> {CHR '' '', newline}" for sh' :: "('p, 'q, 'w) shell"
    using that by (auto simp: line_ok_def char_at_def split: if_splits)
  define sh1 where "sh1 = (if char_before_cursor sh \<noteq> CHR '' '' \<and> char_before_cursor sh \<noteq> newline
    then input_append '' '' sh else sh)"
  define sh2 where "sh2 = input_append word sh1"
  have "line_ok sh2" unfolding sh2_def sh1_def using assms by (auto intro: line_intros)
  moreover have "input_word word sh =
      (if char_at (sh_input sh2) (sh_cursor sh2) \<noteq> CHR '' '' \<and> char_at (sh_input sh2) (sh_cursor sh2) \<noteq> newline
       then input_append '' '' sh2 else sh2\<lparr>sh_cursor := sh_cursor sh2 + 1\<rparr>)"
    unfolding sh2_def sh1_def input_word_def Let_def by (rule refl)
  ultimately show ?thesis using step [of sh2] line_ok_append [of sh2 "'' ''"] by auto
qed

lemma line_ok_minus: "line_ok (sh\<lparr>sh_line_minus := b\<rparr>) = line_ok sh"
  by (simp add: line_ok_def)

lemma line_ok_operator [line_intros]: "line_ok sh \<Longrightarrow> line_ok (line_operator key sh)"
  by (auto simp: line_operator_def Let_def line_ok_minus intro!: line_intros)

lemma line_ok_enter [line_intros]: "keeps_line mc \<Longrightarrow> line_ok sh \<Longrightarrow> line_ok (line_enter mc sh)"
  by (auto simp: line_enter_def Let_def intro!: line_intros)

lemma line_ok_cursor: "line_ok sh \<Longrightarrow> c \<le> length (sh_input sh) \<Longrightarrow> line_ok (sh\<lparr>sh_cursor := c\<rparr>)"
  by (simp add: line_ok_def)

lemma line_ok_if: "(c \<Longrightarrow> line_ok a) \<Longrightarrow> (\<not> c \<Longrightarrow> line_ok b) \<Longrightarrow> line_ok (if c then a else b)"
  by simp

lemma line_ok_key [line_intros]:
  assumes "keeps_line mc" and "line_ok sh"
  shows "line_ok (line_key mc ev sh)"
proof -
  have "sh_cursor sh \<le> length (sh_input sh)" using assms(2) by (simp add: line_ok_def)
  then show ?thesis
    unfolding line_key_def Let_def
    by (intro line_ok_if line_intros line_ok_cursor assms) (simp_all only: less_imp_le diff_le_self le_trans [OF diff_le_self] Suc_leI add_Suc_right add_0_right One_nat_def)
qed

lemma line_ok_fixup: "line_ok sh \<Longrightarrow> line_minus_fixup ev sh = Some sh' \<Longrightarrow> line_ok sh'"
  by (auto simp: line_minus_fixup_def Let_def split: if_splits option.splits intro!: line_intros)

lemma line_ok_history_at: "line_ok sh \<Longrightarrow> line_ok (sh\<lparr>sh_history_at := length (sh_history sh)\<rparr>)"
  by (simp add: line_ok_def)

text \<open>
  C8. Whatever is typed, the input line, the cursor in it, the lines entered before, the words declared,
  the message and both snapshots stay in their buffers, as long as what is evaluated leaves them there.
\<close>

theorem line_stays_in_its_buffers:
  assumes "keeps_line mc" and "line_ok sh"
  shows "line_ok (handle_line_key mc ev sh)"
proof -
  let ?sh = "sh\<lparr>sh_line_minus := False\<rparr>"
  have 1: "line_ok ?sh" using assms(2) by (simp add: line_ok_minus)
  show ?thesis
  proof (cases "if sh_line_minus sh then line_minus_fixup ev ?sh else None")
    case (Some sh2)
    then show ?thesis using line_ok_fixup [OF 1, of ev sh2] by (simp add: handle_line_key_def split: if_splits)
  next
    case None
    define sh2 where "sh2 = (if ev_key ev \<noteq> QDOS_KEY_UP \<and> ev_key ev \<noteq> QDOS_KEY_DOWN
      then ?sh\<lparr>sh_history_at := length (sh_history ?sh)\<rparr> else ?sh)"
    have 2: "line_ok sh2" unfolding sh2_def by (intro line_ok_if line_ok_history_at 1)
    have "handle_line_key mc ev sh = (case function_word (ev_key ev) of Some word \<Rightarrow> input_word word sh2
        | None \<Rightarrow> if QDOS_KEY_ADD \<le> ev_key ev \<and> ev_key ev \<le> QDOS_KEY_DIV \<and> ev_ch ev \<noteq> nul
                 then input_append [ev_ch ev] sh2 else line_key mc ev sh2)"
      using None unfolding sh2_def handle_line_key_def Let_def by (simp only: option.case)
    then show ?thesis using 2 assms(1) by (auto split: option.split intro: line_intros)
  qed
qed

lemma small_keeps_line: "keeps_line small_machine"
  by (auto simp: keeps_line_def small_machine_def small_eval_def line_ok_def)

lemma fresh_line_ok: "line_ok (fresh_shell st w)"
  by (simp add: line_ok_def fresh_shell_def INPUT_MAX_def)

lemma line_stays_in_its_buffers_witness:
  "line_ok (handle_line_key small_machine (key_event QDOS_KEY_MOD) (fresh_shell [] ()))"
  by (rule line_stays_in_its_buffers [OF small_keeps_line fresh_line_ok])

section \<open>The lines entered before\<close>

text \<open>The last sixteen of the lines entered, one entered twice in a row kept once.\<close>

definition last_lines :: "cstring list \<Rightarrow> cstring list" where
  "last_lines ls = (let kept = remdups_adj ls in drop (length kept - HISTORY_MAX) kept)"

lemma remdups_adj_snoc:
  "remdups_adj (ls @ [l]) = (if ls \<noteq> [] \<and> last ls = l then remdups_adj ls else remdups_adj ls @ [l])"
  by (induction ls rule: remdups_adj.induct) auto

lemma last_lines_snoc:
  "last_lines (ls @ [l]) =
     (if last_lines ls \<noteq> [] \<and> last (last_lines ls) = l then last_lines ls
      else (if length (last_lines ls) = HISTORY_MAX then tl (last_lines ls) else last_lines ls) @ [l])"
proof -
  let ?k = "remdups_adj ls"
  have k: "?k = [] \<longleftrightarrow> ls = []" by simp
  then have ne: "last_lines ls \<noteq> [] \<longleftrightarrow> ls \<noteq> []"
    by (cases ?k) (auto simp: last_lines_def Let_def HISTORY_MAX_def)
  have la: "ls \<noteq> [] \<Longrightarrow> last (last_lines ls) = last ls" by (simp add: last_lines_def Let_def HISTORY_MAX_def)
  show ?thesis
  proof (cases "ls \<noteq> [] \<and> last ls = l")
    case True
    then show ?thesis using ne la by (simp add: last_lines_def remdups_adj_snoc)
  next
    case False
    then have "last_lines (ls @ [l]) = drop (length ?k + 1 - HISTORY_MAX) (?k @ [l])"
      by (auto simp: last_lines_def remdups_adj_snoc)
    also have "\<dots> = (if length (last_lines ls) = HISTORY_MAX then tl (last_lines ls) else last_lines ls) @ [l]"
    proof (cases "HISTORY_MAX \<le> length ?k")
      case True
      then obtain m where "length ?k = HISTORY_MAX + m" by (auto simp: le_iff_add)
      then show ?thesis by (simp add: last_lines_def Let_def HISTORY_MAX_def tl_drop drop_Suc)
    next
      case False
      then show ?thesis by (simp add: last_lines_def Let_def)
    qed
    finally show ?thesis using False ne la by auto
  qed
qed

lemma step_up:
  assumes "0 < sh_history_at sh" and "sh_history_at sh \<le> length (sh_history sh)"
    and "list_all (\<lambda>l. length l < INPUT_MAX) (sh_history sh)"
  shows "history_step (-1) sh = sh\<lparr>sh_history_at := sh_history_at sh - 1, sh_input := sh_history sh ! (sh_history_at sh - 1),
    sh_cursor := length (sh_history sh ! (sh_history_at sh - 1))\<rparr>"
proof -
  have "length (sh_history sh ! (sh_history_at sh - 1)) < INPUT_MAX"
    using assms by (simp add: list_all_length)
  then show ?thesis using assms by (simp add: history_step_def Let_def input_clear_def)
qed

lemma steps_up:
  assumes "j \<le> sh_history_at sh" and "sh_history_at sh \<le> length (sh_history sh)"
    and "list_all (\<lambda>l. length l < INPUT_MAX) (sh_history sh)"
  shows "sh_history ((history_step (-1) ^^ j) sh) = sh_history sh \<and>
    sh_history_at ((history_step (-1) ^^ j) sh) = sh_history_at sh - j \<and>
    (0 < j \<longrightarrow> sh_input ((history_step (-1) ^^ j) sh) = sh_history sh ! (sh_history_at sh - j))"
  using assms(1)
proof (induction j)
  case (Suc j)
  let ?sh = "(history_step (-1) ^^ j) sh"
  from Suc have "sh_history ?sh = sh_history sh" "sh_history_at ?sh = sh_history_at sh - j" by auto
  moreover from this have "history_step (-1) ?sh = ?sh\<lparr>sh_history_at := sh_history_at ?sh - 1,
      sh_input := sh_history ?sh ! (sh_history_at ?sh - 1), sh_cursor := length (sh_history ?sh ! (sh_history_at ?sh - 1))\<rparr>"
    using Suc.prems assms(2,3) by (intro step_up) auto
  ultimately show ?case by simp
qed simp

text \<open>Past the newest is an empty line.\<close>

lemma step_down:
  assumes "sh_history_at sh < length (sh_history sh)"
  shows "sh_history (history_step 1 sh) = sh_history sh \<and> sh_history_at (history_step 1 sh) = sh_history_at sh + 1 \<and>
    (sh_history_at sh + 1 = length (sh_history sh) \<longrightarrow> sh_input (history_step 1 sh) = [] \<and> sh_cursor (history_step 1 sh) = 0)"
  using assms by (simp add: history_step_def Let_def input_clear_def)

lemma steps_down:
  assumes "j = length (sh_history sh) - sh_history_at sh" and "0 < j"
  shows "sh_input ((history_step 1 ^^ j) sh) = [] \<and> sh_cursor ((history_step 1 ^^ j) sh) = 0"
proof -
  have walk: "i \<le> j \<Longrightarrow> sh_history ((history_step 1 ^^ i) sh) = sh_history sh \<and>
      sh_history_at ((history_step 1 ^^ i) sh) = sh_history_at sh + i" for i
  proof (induction i)
    case (Suc i)
    then show ?case using assms(1) step_down [of "(history_step 1 ^^ i) sh"] by simp
  qed simp
  obtain k where k: "j = Suc k" using assms(2) by (cases j) auto
  from walk [of k] k assms(1) step_down [of "(history_step 1 ^^ k) sh"] show ?thesis by simp
qed

text \<open>
  The lines entered come back in order: after a line is entered the history is the last sixteen
  lines, one repeated kept once, the jth press of up shows the jth from the end, and as many presses
  of down end on an empty line.
\<close>

theorem history_brings_back_the_lines:
  assumes "line_ok sh" and "sh_history sh = last_lines ls"
  shows "let sh1 = history_add sh; h = last_lines (ls @ [sh_input sh])
    in sh_history sh1 = h \<and>
       (\<forall>j \<in> {1..length h}.
          sh_input ((history_step (-1) ^^ j) sh1) = h ! (length h - j) \<and>
          sh_input ((history_step 1 ^^ j) ((history_step (-1) ^^ j) sh1)) = [])"
proof -
  let ?sh = "history_add sh" and ?h = "last_lines (ls @ [sh_input sh])"
  have len: "length (sh_input sh) < INPUT_MAX" using assms(1) by (simp add: line_ok_def)
  have h: "sh_history ?sh = ?h" "sh_history_at ?sh = length ?h"
    using len assms(2) by (auto simp: history_add_def Let_def last_lines_snoc)
  have fits: "list_all (\<lambda>l. length l < INPUT_MAX) (sh_history ?sh)"
    using line_ok_history_add [OF assms(1)] by (simp add: line_ok_def)
  have "sh_input ((history_step (-1) ^^ j) ?sh) = ?h ! (length ?h - j) \<and>
      sh_input ((history_step 1 ^^ j) ((history_step (-1) ^^ j) ?sh)) = []" if "j \<in> {1..length ?h}" for j
    using steps_up [of j ?sh] steps_down [of j "(history_step (-1) ^^ j) ?sh"] h fits that by auto
  then show ?thesis using h by (simp add: Let_def)
qed

lemma history_brings_back_the_lines_witness:
  "\<exists>sh :: (unit, bool, unit) shell. sh_input ((history_step (-1) ^^ 2) sh) = ''one'' \<and> sh_input sh = ''two''"
proof -
  let ?sh = "(fresh_shell [] ())\<lparr>sh_history := [''one''], sh_input := ''two'', sh_cursor := 3\<rparr> :: (unit, bool, unit) shell"
  have "line_ok ?sh" by (simp add: line_ok_def fresh_shell_def INPUT_MAX_def HISTORY_MAX_def)
  moreover have "sh_history ?sh = last_lines [''one'']" "last_lines [''one'', ''two''] = [''one'', ''two'']"
    by (simp_all add: last_lines_def HISTORY_MAX_def)
  ultimately have "sh_input ((history_step (-1) ^^ 2) (history_add ?sh)) = ''one''"
    using history_brings_back_the_lines [of ?sh "[''one'']"] by (simp add: Let_def)
  moreover have "sh_input (history_add ?sh) = ''two''" by (simp add: history_add_def Let_def)
  ultimately show ?thesis by blast
qed

section \<open>A line that fails\<close>

text \<open>
  C5. A line that fails leaves everything as it was, when it opened no page and the stack can be kept:
  the stack, what UNDO would do and the line itself, which stays to be corrected.
\<close>

theorem failed_line_changes_nothing:
  assumes "machine_ok mc" and "undoable mc sh" and "\<not> sh_evaluating sh"
    and "qdos_guarded_eval mc (sh_input sh) (undo_snapshot mc (history_add sh)) = (False, sh2)"
    and "same_undo (undo_snapshot mc (history_add sh)) sh2" and "\<not> sh_evaluating sh2"
    and "sh_input sh2 = sh_input sh" and "sh_mode sh2 = sh_mode sh"
  shows "sh_stack (submit mc sh) = sh_stack sh \<and> sh_input (submit mc sh) = sh_input sh \<and>
    sh_mode (submit mc sh) = sh_mode sh \<and> sh_undo (submit mc sh) = sh_undo sh \<and>
    sh_undo_ready (submit mc sh) = sh_undo_ready sh"
proof -
  have same: "sh_stack (history_add sh) = sh_stack sh" "sh_undo (history_add sh) = sh_undo sh"
    "sh_undo_ready (history_add sh) = sh_undo_ready sh" by (auto simp: history_add_def Let_def)
  have und: "undoable mc (history_add sh)" using assms(2) by (simp add: undoable_def same)
  have keep: "sh_input (undo_failed mc s) = sh_input s \<and> sh_mode (undo_failed mc s) = sh_mode s"
    if "\<not> sh_evaluating s" for s using put_back [OF assms(1) that] by (simp add: undo_failed_def Let_def)
  have msg: "sh_stack (set_message m b s) = sh_stack s" "sh_input (set_message m b s) = sh_input s"
    "sh_mode (set_message m b s) = sh_mode s" "sh_undo (set_message m b s) = sh_undo s"
    "sh_undo_ready (set_message m b s) = sh_undo_ready s" for m b and s :: "('a, 'b, 'c) shell"
    using message_frame [of m b s] by auto
  consider (empty) "sh_input sh = []" | (hint) hint where "infix_hint (sh_input sh) HINT_CAP = Some hint" "sh_input sh \<noteq> []"
    | (run) "infix_hint (sh_input sh) HINT_CAP = None" "sh_input sh \<noteq> []" by fastforce
  then show ?thesis
  proof cases
    case run
    define p where "p = (case infix_explain (sh_input sh2) HINT_CAP of Some hint \<Rightarrow> (hint, sh2)
      | None \<Rightarrow> let (e, sh3) = qdos_guarded_error mc sh2 in (clip HINT_CAP e, sh3))"
    have p: "same_undo (undo_snapshot mc (history_add sh)) (snd p) \<and> \<not> sh_evaluating (snd p) \<and>
        sh_input (snd p) = sh_input sh \<and> sh_mode (snd p) = sh_mode sh"
      using assms(5-8) by (auto simp: p_def qdos_guarded_error_def same_undo_def split: option.split prod.split)
    note * = failed_step [OF assms(1) und, of "snd p"]
    have "submit mc sh = set_message (fst p) True (undo_failed mc (snd p))"
      using run assms(4) p keep [of "snd p"] msg(3)
      by (simp add: submit_def p_def [symmetric] Let_def split_beta)
    then show ?thesis using * p keep [of "snd p"] msg same by simp
  qed (use msg in \<open>simp_all add: submit_def\<close>)
qed

lemma failed_line_changes_nothing_witness:
  "sh_stack (submit small_machine ((fresh_shell [ElInt 1, ElInt 2] ())\<lparr>sh_input := ''boom''\<rparr>)) = [ElInt 1, ElInt 2]"
proof -
  let ?sh = "(fresh_shell [ElInt 1, ElInt 2] ())\<lparr>sh_input := ''boom''\<rparr> :: (unit, bool, unit) shell"
  obtain ok sh2 where e: "qdos_guarded_eval small_machine (sh_input ?sh) (undo_snapshot small_machine (history_add ?sh)) = (ok, sh2)"
    by (cases "qdos_guarded_eval small_machine (sh_input ?sh) (undo_snapshot small_machine (history_add ?sh))")
  have in': "sh_input ?sh = ''boom''" by simp
  have ev: "\<not> sh_evaluating (undo_snapshot small_machine (history_add ?sh))"
    by (simp add: undo_snapshot_def history_add_def Let_def fresh_shell_def split: prod.split)
  have 2: "\<not> ok \<and> sh2 = (undo_snapshot small_machine (history_add ?sh))
      \<lparr>sh_stack := [], sh_evaluating := False, sh_printed := [], sh_recovered := True\<rparr>"
    using e ev by (simp add: qdos_guarded_eval_def small_machine_def small_eval_def Let_def clip_def)
  have "undoable small_machine ?sh"
    by (simp add: undoable_def small_machine_def fresh_shell_def UNDO_MAX_def QDOS_REGISTER_MAX_def)
  from failed_line_changes_nothing [OF small_machine_ok this, of sh2] e 2
  show ?thesis
    by (simp add: same_undo_def undo_snapshot_def history_add_def Let_def fresh_shell_def split: prod.splits)
qed

section \<open>What a minus means\<close>

text \<open>The line on each side of the cursor; and typing at its end.\<close>

definition line_at :: "cstring \<Rightarrow> cstring \<Rightarrow> ('p, 'q, 'w) shell \<Rightarrow> bool" where
  "line_at a b sh \<longleftrightarrow> sh_input sh = a @ b \<and> sh_cursor sh = length a"

definition at_end :: "cstring \<Rightarrow> ('p, 'q, 'w) shell \<Rightarrow> bool" where
  "at_end s sh \<longleftrightarrow> sh_input sh = s \<and> sh_cursor sh = length s"

lemma line_at_append:
  "line_at a b sh \<Longrightarrow> length a + length b + length r < INPUT_MAX \<Longrightarrow> line_at (a @ r) b (input_append r sh) \<and>
     sh_mode (input_append r sh) = sh_mode sh \<and> sh_line_minus (input_append r sh) = sh_line_minus sh"
  by (simp add: line_at_def input_append_def insert_at_def)

lemma at_end_append:
  "at_end s sh \<Longrightarrow> length s + length r < INPUT_MAX \<Longrightarrow> at_end (s @ r) (input_append r sh) \<and>
     sh_mode (input_append r sh) = sh_mode sh \<and> sh_line_minus (input_append r sh) = sh_line_minus sh"
  using line_at_append [of s "[]" sh r] by (simp add: at_end_def line_at_def)

lemma line_at_backspaces:
  "line_at (a @ r) b sh \<Longrightarrow> length r = n \<Longrightarrow> line_at a b ((input_backspace ^^ n) sh)"
proof (induction r arbitrary: sh n rule: rev_induct)
  case (snoc c r)
  from snoc.prems(1) have "line_at (a @ r) b (input_backspace sh)"
    by (simp add: line_at_def input_backspace_def delete_before_def)
  from snoc.IH [OF this, of "length r"] snoc.prems(2) show ?case by (auto simp: funpow_swap1)
qed simp

definition before_end :: "cstring \<Rightarrow> char" where
  "before_end s = (if s = [] then CHR '' '' else last s)"

lemma char_before_line: "line_at a b sh \<Longrightarrow> char_before_cursor sh = before_end a"
  by (cases a rule: rev_cases) (simp_all add: line_at_def char_before_cursor_def before_end_def char_at_def nth_append)

lemma char_before_end: "at_end s sh \<Longrightarrow> char_before_cursor sh = before_end s"
  using char_before_line [of s "[]" sh] by (simp add: at_end_def line_at_def)

text \<open>A word typed takes a space before it where there is none, and goes past one after it or puts one there.\<close>

definition blank_first :: "cstring \<Rightarrow> bool" where
  "blank_first b \<longleftrightarrow> b \<noteq> [] \<and> (hd b = CHR '' '' \<or> hd b = newline)"

lemma line_at_word:
  assumes "line_at a b sh" and "length a + length b + length word + 2 < INPUT_MAX" and "word \<noteq> []"
  shows "line_at (a @ (if before_end a \<noteq> CHR '' '' \<and> before_end a \<noteq> newline then '' '' else []) @ word @
        (if blank_first b then [hd b] else '' '')) (if blank_first b then tl b else b) (input_word word sh) \<and>
    sh_mode (input_word word sh) = sh_mode sh"
proof -
  let ?gap = "if before_end a \<noteq> CHR '' '' \<and> before_end a \<noteq> newline then '' '' else []"
  define sh1 where "sh1 = (if char_before_cursor sh \<noteq> CHR '' '' \<and> char_before_cursor sh \<noteq> newline
    then input_append '' '' sh else sh)"
  have 1: "line_at (a @ ?gap) b sh1 \<and> sh_mode sh1 = sh_mode sh"
    using line_at_append [OF assms(1), of "'' ''"] assms char_before_line [OF assms(1)] by (simp add: sh1_def)
  define sh2 where "sh2 = input_append word sh1"
  have 2: "line_at ((a @ ?gap) @ word) b sh2 \<and> sh_mode sh2 = sh_mode sh"
    using line_at_append [of "a @ ?gap" b sh1 word] 1 assms(2) by (simp add: sh2_def)
  then have after: "char_at (sh_input sh2) (sh_cursor sh2) = (if b = [] then nul else hd b)"
    by (cases b) (simp_all add: line_at_def char_at_def nth_append)
  have word: "input_word word sh = (if char_at (sh_input sh2) (sh_cursor sh2) \<noteq> CHR '' '' \<and> char_at (sh_input sh2) (sh_cursor sh2) \<noteq> newline
      then input_append '' '' sh2 else sh2\<lparr>sh_cursor := sh_cursor sh2 + 1\<rparr>)"
    by (simp add: input_word_def sh1_def [symmetric] sh2_def [symmetric] Let_def)
  show ?thesis
  proof (cases "blank_first b")
    case True
    then have "input_word word sh = sh2\<lparr>sh_cursor := sh_cursor sh2 + 1\<rparr>" using after word by (auto simp: blank_first_def)
    then show ?thesis using 2 True by (cases b) (simp_all add: line_at_def blank_first_def)
  next
    case False
    then have "input_word word sh = input_append '' '' sh2" using after word by (auto simp: blank_first_def)
    then show ?thesis using line_at_append [of "(a @ ?gap) @ word" b sh2 "'' ''"] 2 assms(2) False by simp
  qed
qed



end
