(* ===== verification/Calc.thy ===== *)
theory Calc
  imports Line
begin

text \<open>
  The calculator's keys (\<^verbatim>\<open>src/shell/shell.c\<close>): the number being typed and how it goes on
  the stack, the words the keys stand for, the registers, and the level picked out with the arrows.
\<close>

section \<open>The number being typed\<close>

definition entry_append :: "char \<Rightarrow> ('p, 'q, 'w) shell \<Rightarrow> ('p, 'q, 'w) shell" where
  "entry_append ch sh =
     (if ENTRY_MAX \<le> length (sh_entry sh) + 1 then sh else sh\<lparr>sh_entry := sh_entry sh @ [ch]\<rparr>)"

definition entry_clear :: "('p, 'q, 'w) shell \<Rightarrow> ('p, 'q, 'w) shell" where
  "entry_clear sh = sh\<lparr>sh_entry := []\<rparr>"

text \<open>
  The text the number is evaluated as: a digit on each side of the point, an exponent only with
  digits, and \<^verbatim>\<open>.0\<close> when it is a whole number too big for an integer.
\<close>

definition entry_mantissa :: "cstring \<Rightarrow> cstring" where
  "entry_mantissa mantissa =
     (let (sign, p) = (if char_at mantissa 0 = CHR ''-'' then (''-'', tl mantissa) else ([], mantissa));
          s = sign @ (if char_at p 0 = CHR ''.'' then ''0'' else []) @ p
      in if last s = CHR ''.'' then s @ ''0'' else s)"

text \<open>\<open>strtoll\<close> gives \<open>ERANGE\<close>: the digits do not fit a signed 64-bit integer.\<close>

definition out_of_range :: "cstring \<Rightarrow> bool" where
  "out_of_range s =
     (let (negative, p) = (if char_at s 0 = CHR ''-'' then (True, tl s) else (False, s));
          n = undec (takeWhile is_digit p)
      in if negative then 2 ^ 63 < n else 2 ^ 63 \<le> n)"

definition entry_text :: "cstring \<Rightarrow> cstring" where
  "entry_text entry =
     (let cut = find_char (CHR ''e'') entry;
          mantissa = (case cut of Some i \<Rightarrow> take i entry | None \<Rightarrow> entry);
          s = entry_mantissa mantissa;
          s = (case cut of
                 Some i \<Rightarrow>
                   let exponent = drop (i + 1) entry
                   in if dropWhile (\<lambda>c. c = CHR ''-'') exponent \<noteq> [] then s @ CHR ''e'' # exponent else s
               | None \<Rightarrow> s)
      in if CHR ''.'' \<notin> set s \<and> CHR ''e'' \<notin> set s \<and> out_of_range s then s @ ''.0'' else s)"

definition overflows :: "('p, 'q, 'w) machine \<Rightarrow> cstring \<Rightarrow> bool" where
  "overflows mc s =
     (if decimal_mode (mc_rt mc) then
        (case qd_d128_parse (mc_rt mc) s of None \<Rightarrow> True | Some q \<Rightarrow> \<not> d128_is_finite mc q)
      else \<not> strtod_is_finite mc s)"

definition entry_commit :: "('p, 'q, 'w) machine \<Rightarrow> ('p, 'q, 'w) shell \<Rightarrow> bool \<times> ('p, 'q, 'w) shell" where
  "entry_commit mc sh =
     (if sh_entry sh = [] then (True, sh)
      else if sh_entry sh = ''-'' then (True, entry_clear sh)
      else
        let s = entry_text (sh_entry sh)
        in if overflows mc s then (False, set_message ''OVERFLOW'' True sh)
           else
             let (ok, sh1) = qdos_guarded_eval mc s (undo_snapshot mc sh)
             in if \<not> ok then
                  let (e, sh2) = qdos_guarded_error mc sh1 in (False, undo_failed mc (set_message e True sh2))
                else (True, entry_clear sh1))"

definition entry_exponent :: "('p, 'q, 'w) shell \<Rightarrow> ('p, 'q, 'w) shell" where
  "entry_exponent sh =
     (if CHR ''e'' \<in> set (sh_entry sh) then sh
      else entry_append (CHR ''e'')
             (if sh_entry sh = [] \<or> sh_entry sh = ''-'' then entry_append (CHR ''1'') sh else sh))"

section \<open>Words\<close>

text \<open>\<open>strstr\<close>: the offset of the first occurrence.\<close>

fun find_sub :: "cstring \<Rightarrow> cstring \<Rightarrow> nat option" where
  "find_sub w [] = (if w = [] then Some 0 else None)"
| "find_sub w (c # cs) = (if prefix_of w (c # cs) then Some 0 else map_option Suc (find_sub w cs))"

abbreviation (input) quote :: char where "quote \<equiv> CHR 0x27"

definition set_key_error ::
    "cstring \<Rightarrow> cstring \<Rightarrow> cstring option \<Rightarrow> ('p, 'q, 'w) shell \<Rightarrow> ('p, 'q, 'w) shell" where
  "set_key_error error word label sh =
     (let quoted = clip 40 (quote # word @ [quote])
      in case label of
           None \<Rightarrow> set_message error True sh
         | Some cap \<Rightarrow>
             (case find_sub quoted error of
                Some at \<Rightarrow>
                  set_message (clip HINT_CAP (take at error @ quote # cap @ quote # drop (at + length quoted) error)) True sh
              | None \<Rightarrow>
                  if prefix_of word error \<and> char_at error (length word) = CHR '':'' then
                    set_message (clip HINT_CAP (cap @ drop (length word) error)) True sh
                  else set_message error True sh))"

definition STACK_WORDS :: "cstring list" where
  "STACK_WORDS =
     [''dup'', ''drop'', ''swap'', ''rot'', ''over'', ''nip'', ''pi'', ''e'', ''i'', ''lastx'', ''rolld'', ''rollu'',
      ''neg'', ''-1 multiply'', ''complex'', ''csplit'']"

definition keeps_last_x :: "cstring \<Rightarrow> bool" where
  "keeps_last_x word = (\<not> list_ex (\<lambda>w. w = word) STACK_WORDS)"

definition apply_key_word ::
    "('p, 'q, 'w) machine \<Rightarrow> cstring \<Rightarrow> cstring option \<Rightarrow> ('p, 'q, 'w) shell \<Rightarrow> ('p, 'q, 'w) shell" where
  "apply_key_word mc word label sh =
     (case entry_commit mc sh of
        (False, sh1) \<Rightarrow> sh1
      | (True, sh1) \<Rightarrow>
          let x = (if keeps_last_x word then value_at mc sh1 0 else None);
              (ok, sh2) = qdos_guarded_eval mc word ((undo_snapshot mc sh1)\<lparr>sh_finite_only := True\<rparr>);
              sh3 = sh2\<lparr>sh_finite_only := False\<rparr>
          in if ok then
               let sh4 = (case x of Some (True, v) \<Rightarrow> sh3\<lparr>sh_last_x := v, sh_has_last_x := True\<rparr> | _ \<Rightarrow> sh3)
               in absorb_output (set_message [] False sh4)
             else
               let (e, sh4) = qdos_guarded_error mc sh3
               in set_key_error (clip HINT_CAP e) word label (undo_failed mc sh4))"

definition apply_word :: "('p, 'q, 'w) machine \<Rightarrow> cstring \<Rightarrow> ('p, 'q, 'w) shell \<Rightarrow> ('p, 'q, 'w) shell" where
  "apply_word mc word sh = apply_key_word mc word None sh"

definition enter_line_mode :: "('p, 'q, 'w) machine \<Rightarrow> ('p, 'q, 'w) shell \<Rightarrow> ('p, 'q, 'w) shell" where
  "enter_line_mode mc sh =
     set_message [] False (input_clear ((snd (entry_commit mc sh))\<lparr>sh_mode := QDOS_MODE_LINE, sh_line_once := False\<rparr>))"

text \<open>The sign key: of the number being typed, of its exponent once it has one, or of x.\<close>

definition is_number_element :: "('p, 'q) element \<Rightarrow> bool" where
  "is_number_element e = (case e of ElStr _ \<Rightarrow> False | ElPtr _ \<Rightarrow> False | _ \<Rightarrow> True)"

definition entry_negate :: "('p, 'q, 'w) machine \<Rightarrow> ('p, 'q, 'w) shell \<Rightarrow> ('p, 'q, 'w) shell" where
  "entry_negate mc sh =
     (if sh_entry sh = [] then
        apply_word mc (if sh_stack sh \<noteq> [] \<and> is_number_element (last (sh_stack sh)) then ''-1 multiply'' else ''neg'') sh
      else
        let at = (case find_char (CHR ''e'') (sh_entry sh) of Some i \<Rightarrow> i + 1 | None \<Rightarrow> 0)
        in if char_at (sh_entry sh) at = CHR ''-'' then
             sh\<lparr>sh_entry := take at (sh_entry sh) @ drop (at + 1) (sh_entry sh)\<rparr>
           else if length (sh_entry sh) + 1 < ENTRY_MAX then sh\<lparr>sh_entry := insert_at at ''-'' (sh_entry sh)\<rparr>
           else sh)"

section \<open>Registers\<close>

text \<open>The key after STO or RCL; \<open>None\<close> when neither was pressed.\<close>

definition register_digit ::
    "('p, 'q, 'w) machine \<Rightarrow> qdos_key_event \<Rightarrow> ('p, 'q, 'w) shell \<Rightarrow> ('p, 'q, 'w) shell option" where
  "register_digit mc ev sh =
     (if sh_register_wait sh = REGISTER_IDLE then None
      else
        let storing = (sh_register_wait sh = REGISTER_STORING);
            sh1 = sh\<lparr>sh_register_wait := REGISTER_IDLE\<rparr>
        in Some (
             if ev_key ev < QDOS_KEY_0 \<or> QDOS_KEY_9 < ev_key ev then set_message ''CANCELLED'' False sh1
             else if storing \<and> sh_stack sh1 = [] then set_message ''NOTHING TO STORE'' True sh1
             else
               let digit = dec (ev_key ev - QDOS_KEY_0);
                   line = (if storing then ''dup '' else []) @ digit @ (if storing then '' sto'' else '' rcl'');
                   (ok, sh2) = qdos_guarded_eval mc (clip 24 line) (undo_snapshot mc sh1)
               in if \<not> ok then let (e, sh3) = qdos_guarded_error mc sh2 in set_message e True sh3
                  else set_message ((if storing then ''STORED '' else ''RECALLED '') @ digit) False sh2))"

definition key_label :: "cstring \<Rightarrow> cstring option" where
  "key_label word =
     map_of [(''percent'', ''%''), (''inv'', ''1/x''), (''sq'', ''x^2''), (''plus'', ''+''), (''minus'', ''-''),
             (''multiply'', ''*''), (''divide'', ''/'')] word"

section \<open>A level picked out with the arrows\<close>

definition stack_raise :: "nat \<Rightarrow> 'a list \<Rightarrow> 'a list" where
  "stack_raise level st =
     (let at = length st - level in take at st @ drop (at + 1) st @ [st ! at])"

definition stack_select_key ::
    "('p, 'q, 'w) machine \<Rightarrow> qdos_key_event \<Rightarrow> ('p, 'q, 'w) shell \<Rightarrow> ('p, 'q, 'w) shell option" where
  "stack_select_key mc ev sh =
     (let depth = length (sh_stack sh)
      in if ev_key ev = QDOS_KEY_UP \<and> sh_entry sh = [] then
           Some (if sh_stack_sel sh < depth then sh\<lparr>sh_stack_sel := sh_stack_sel sh + 1\<rparr> else sh)
         else if sh_stack_sel sh = 0 then None
         else if ev_key ev = QDOS_KEY_DOWN then Some (sh\<lparr>sh_stack_sel := sh_stack_sel sh - 1\<rparr>)
         else if ev_key ev = QDOS_KEY_ENTER then
           let level = sh_stack_sel sh; sh1 = sh\<lparr>sh_stack_sel := 0\<rparr>
           in Some (case value_at mc sh1 (level - 1) of
                Some (True, v) \<Rightarrow>
                  let sh2 = undo_snapshot mc sh1 in sh2\<lparr>sh_stack := push_on (mc_rt mc) (sh_stack sh2) v\<rparr>
              | _ \<Rightarrow> set_message ''CANNOT COPY THAT'' True sh1)
         else if ev_key ev = QDOS_KEY_BACKSPACE \<or> ev_key ev = QDOS_KEY_DROP then
           let sh1 = undo_snapshot mc sh;
               sh2 = snd (qdos_guarded_eval mc ''drop'' (sh1\<lparr>sh_stack := stack_raise (sh_stack_sel sh1) (sh_stack sh1)\<rparr>))
           in Some (if depth - 1 < sh_stack_sel sh2 then sh2\<lparr>sh_stack_sel := depth - 1\<rparr> else sh2)
         else None)"

section \<open>The keys\<close>

text \<open>The keys that apply one word.\<close>

definition CALC_WORDS :: "(qdos_key \<times> cstring \<times> cstring option) list" where
  "CALC_WORDS =
     [(QDOS_KEY_ADD, ''plus'', Some ''+''), (QDOS_KEY_SUB, ''minus'', Some ''-''), (QDOS_KEY_MUL, ''multiply'', Some ''*''),
      (QDOS_KEY_DIV, ''divide'', Some ''/''), (QDOS_KEY_DUP, ''dup'', None), (QDOS_KEY_DROP, ''drop'', None),
      (QDOS_KEY_SWAP, ''swap'', None), (QDOS_KEY_PI, ''pi'', None), (QDOS_KEY_E, ''e'', None), (QDOS_KEY_I, ''i'', None)]"

definition calc_key :: "('p, 'q, 'w) machine \<Rightarrow> qdos_key_event \<Rightarrow> ('p, 'q, 'w) shell \<Rightarrow> ('p, 'q, 'w) shell" where
  "calc_key mc ev sh =
     (let key = ev_key ev
      in if QDOS_KEY_0 \<le> key \<and> key \<le> QDOS_KEY_9 then entry_append (digit_char (key - QDOS_KEY_0)) sh
         else if key = QDOS_KEY_DOT then
           (if CHR ''.'' \<notin> set (sh_entry sh) \<and> CHR ''e'' \<notin> set (sh_entry sh) then entry_append (CHR ''.'') sh else sh)
         else if key = QDOS_KEY_EE then entry_exponent sh
         else if key = QDOS_KEY_CLEAR_STACK then
           set_message ''STACK CLEARED'' False (snd (qdos_guarded_eval mc ''clear'' (undo_snapshot mc (entry_clear sh))))
         else if key = QDOS_KEY_NEG then entry_negate mc sh
         else if key = QDOS_KEY_UNDO then undo_restore mc sh
         else if key = QDOS_KEY_STO \<or> key = QDOS_KEY_RCL then
           (case entry_commit mc sh of
              (False, sh1) \<Rightarrow> sh1
            | (True, sh1) \<Rightarrow>
                set_message (if key = QDOS_KEY_STO then ''STO: WHICH? 0-9'' else ''RCL: WHICH? 0-9'') False
                  (sh1\<lparr>sh_register_wait := (if key = QDOS_KEY_STO then REGISTER_STORING else REGISTER_RECALLING)\<rparr>))
         else if key = QDOS_KEY_ENTER then
           (if sh_entry sh \<noteq> [] then
              (case entry_commit mc sh of (True, sh1) \<Rightarrow> set_message [] False sh1 | (False, sh1) \<Rightarrow> sh1)
            else apply_word mc ''dup'' sh)
         else if key = QDOS_KEY_BACKSPACE then
           (if sh_entry sh \<noteq> [] then sh\<lparr>sh_entry := butlast (sh_entry sh)\<rparr>
            else if sh_stack sh \<noteq> [] then apply_word mc ''drop'' sh else sh)
         else if key = QDOS_KEY_CLEAR then entry_clear sh
         else if key = QDOS_KEY_COMPLEX then
           (case entry_commit mc sh of
              (False, sh1) \<Rightarrow> sh1
            | (True, sh1) \<Rightarrow>
                apply_word mc (if sh_stack sh1 \<noteq> [] \<and> qdos_cpx_of (last (sh_stack sh1)) \<noteq> None then ''csplit'' else ''complex'') sh1)
         else if key = QDOS_KEY_MODE then enter_line_mode mc sh
         else if key = QDOS_KEY_CHAR then
           (if ev_ch ev = CHR '':'' then enter_line_mode mc sh
            else if (ev_ch ev = CHR ''e'' \<or> ev_ch ev = CHR ''E'') \<and> sh_entry sh \<noteq> [] then entry_exponent sh
            else if ev_ch ev \<noteq> CHR '' '' then handle_line_key mc ev ((enter_line_mode mc sh)\<lparr>sh_line_once := True\<rparr>)
            else sh)
         else
           (case map_of CALC_WORDS key of Some (word, label) \<Rightarrow> apply_key_word mc word label sh | None \<Rightarrow> sh))"

definition handle_calc_key ::
    "('p, 'q, 'w) machine \<Rightarrow> qdos_key_event \<Rightarrow> ('p, 'q, 'w) shell \<Rightarrow> ('p, 'q, 'w) shell" where
  "handle_calc_key mc ev sh =
     (case register_digit mc ev sh of
        Some sh1 \<Rightarrow> sh1
      | None \<Rightarrow>
          (case stack_select_key mc ev sh of
             Some sh1 \<Rightarrow> sh1
           | None \<Rightarrow>
               let (word, sh1) =
                     (if ev_key ev = QDOS_KEY_MOD then
                        let (ok, sh1) = entry_commit mc sh
                        in (if ok \<and> length (sh_stack sh1) = 1 then Some ''100.0 divide'' else function_word (ev_key ev), sh1)
                      else (function_word (ev_key ev), sh))
               in case word of
                    Some w \<Rightarrow> apply_key_word mc w (key_label w) sh1
                  | None \<Rightarrow> calc_key mc ev sh1))"

section \<open>What only the calculator changes\<close>

text \<open>
  The number being typed, the level picked out, the last x and the register waited for are the
  calculator's own: no operation of the line, the log or the undo touches them, and neither does an
  evaluation that opens no page of its own.
\<close>

definition own :: "('p, 'q, 'w) shell \<Rightarrow> cstring \<times> field_target \<times> nat \<times> qdos_value \<times> bool \<times> register_wait" where
  "own sh = (sh_entry sh, sh_field sh, sh_stack_sel sh, sh_last_x sh, sh_has_last_x sh, sh_register_wait sh)"

definition keeps_own :: "('p, 'q, 'w) machine \<Rightarrow> bool" where
  "keeps_own mc \<longleftrightarrow> (\<forall>source sh. own (snd (snd (qd_interp_eval mc source sh))) = own sh)"

named_theorems own_simps "operations that leave the calculator's own state alone"

lemma own_fields:
  "own sh = own sh' \<Longrightarrow> sh_entry sh = sh_entry sh' \<and> sh_stack_sel sh = sh_stack_sel sh' \<and>
    sh_register_wait sh = sh_register_wait sh'"
  by (simp add: own_def)

lemma own_message [own_simps]: "own (set_message s b sh) = own sh"
  using message_frame [of s b sh] by (auto simp: own_def)

lemma own_log [own_simps]: "own (log_add s sh) = own sh"
  using log_add_frame [of s sh] by (auto simp: own_def)

lemma own_absorb [own_simps]: "own (absorb_output sh) = own sh"
proof -
  let ?sh = "log_add (sh_printed sh) sh"
  have "own (?sh\<lparr>sh_output_first := a, sh_output_count := b, sh_output_top := c, sh_output_from := m, sh_mode := m'\<rparr>) = own sh"
    for a b c m m' using own_log [of "sh_printed sh" sh] by (simp add: own_def)
  then show ?thesis by (auto simp: absorb_output_def Let_def own_simps split: option.split)
qed

lemma own_declaration [own_simps]: "own (report_declaration mc sh) = own sh"
proof -
  have "own (sh\<lparr>sh_line_word := ws\<rparr>) = own sh" for ws by (simp add: own_def)
  then show ?thesis by (auto simp: report_declaration_def Let_def own_simps split: option.split)
qed

lemma own_eval [own_simps]:
  assumes "keeps_own mc"
  shows "own (snd (qdos_guarded_eval mc source sh)) = own sh"
proof -
  let ?sh = "if sh_evaluating sh then sh else sh\<lparr>sh_evaluating := True, sh_printed := []\<rparr>"
  have "own (snd (snd (qd_interp_eval mc source ?sh))) = own ?sh" using assms by (simp only: keeps_own_def)
  then show ?thesis
    by (auto simp: qdos_guarded_eval_def own_def Let_def split: prod.splits outcome.splits)
qed

lemma own_error [own_simps]: "own (snd (qdos_guarded_error mc sh)) = own sh"
  by (simp add: qdos_guarded_error_def own_def)

lemma own_snapshot [own_simps]: "own (undo_snapshot mc sh) = own sh"
  by (simp add: undo_snapshot_def own_def Let_def split: prod.split)

lemma own_put_back [own_simps]: "keeps_own mc \<Longrightarrow> own (undo_put_back mc sh) = own sh"
  using own_eval [of mc "''clear''" sh] by (simp add: undo_put_back_def own_def Let_def)

lemma own_undo [own_simps]:
  assumes "keeps_own mc"
  shows "own (undo_restore mc sh) = own sh" "own (undo_failed mc sh) = own sh"
proof -
  have "own ((undo_put_back mc sh)\<lparr>sh_undo_ready := False\<rparr>) = own sh"
    using own_put_back [OF assms, of sh] by (simp add: own_def)
  then show "own (undo_restore mc sh) = own sh" by (simp add: undo_restore_def own_simps)
  show "own (undo_failed mc sh) = own sh"
    using own_put_back [OF assms, of sh] by (simp add: undo_failed_def own_def Let_def)
qed

lemma own_edit [own_simps]:
  "own (input_append s sh) = own sh" "own (input_backspace sh) = own sh" "own (input_clear sh) = own sh"
  "own (history_add sh) = own sh" "own (history_step dir sh) = own sh"
  by (auto simp: input_append_def input_backspace_def input_clear_def history_add_def history_step_def own_def Let_def
      split: option.split)

lemma own_backspaces [own_simps]: "own ((input_backspace ^^ n) sh) = own sh"
  by (induction n) (simp_all add: own_simps)

lemma own_updates [own_simps]:
  "own (sh\<lparr>sh_cursor := c\<rparr>) = own sh" "own (sh\<lparr>sh_line_minus := b\<rparr>) = own sh" "own (sh\<lparr>sh_line_once := b\<rparr>) = own sh"
  "own (sh\<lparr>sh_history_at := n\<rparr>) = own sh" "own (sh\<lparr>sh_mode := m\<rparr>) = own sh" "own (sh\<lparr>sh_world := w\<rparr>) = own sh"
  "own (sh\<lparr>sh_stack := st\<rparr>) = own sh" "own (sh\<lparr>sh_finite_only := b\<rparr>) = own sh"
  by (simp_all add: own_def)

lemma own_word [own_simps]: "own (input_word word sh) = own sh"
  by (simp add: input_word_def Let_def own_simps)

lemma own_submit [own_simps]:
  assumes "keeps_own mc"
  shows "own (submit mc sh) = own sh"
proof -
  obtain ok sh2 where e: "qdos_guarded_eval mc (sh_input sh) (undo_snapshot mc (history_add sh)) = (ok, sh2)"
    by (cases "qdos_guarded_eval mc (sh_input sh) (undo_snapshot mc (history_add sh))")
  have "own sh2 = own sh"
    using own_eval [OF assms, of "sh_input sh" "undo_snapshot mc (history_add sh)"] e by (simp add: own_simps)
  moreover have err: "qdos_guarded_error mc sh2 = (m, sh3) \<Longrightarrow> own sh3 = own sh2" for m sh3
    using own_error [of mc sh2] by simp
  ultimately show ?thesis
    using assms by (auto simp: submit_def Let_def e own_simps split: option.split prod.split dest: err)
qed

lemma own_complete [own_simps]: "own (complete_word mc sh) = own sh"
  by (simp add: complete_word_def Let_def own_simps)

lemma own_closed [own_simps]: "own (line_closed mc sh) = own sh"
  by (simp add: line_closed_def Let_def own_simps split: option.split)

lemma own_line_key [own_simps]: "keeps_own mc \<Longrightarrow> own (line_key mc ev sh) = own sh"
  unfolding line_key_def line_operator_def line_enter_def leave_line_mode_def Let_def
  by (simp only: own_simps if_distrib [where f = own] if_cancel cong: if_cong)

lemma own_handle_line_key [own_simps]:
  assumes "keeps_own mc"
  shows "own (handle_line_key mc ev sh) = own sh"
proof -
  have "line_minus_fixup ev sh' = Some sh'' \<Longrightarrow> own sh'' = own sh'" for sh' sh'' :: "('a, 'b, 'c) shell"
    by (auto simp: line_minus_fixup_def Let_def own_simps split: if_splits option.splits)
  then show ?thesis
    using assms by (fastforce simp: handle_line_key_def Let_def own_simps split: option.split if_split)
qed

section \<open>The language of the numbers typed\<close>

definition digits :: "cstring \<Rightarrow> bool" where
  "digits s = list_all is_digit s"

definition signs :: "cstring set" where
  "signs = {[], ''-''}"

text \<open>What can be in the entry: a sign, digits with at most one point, and an exponent after them.\<close>

definition entry_ok :: "cstring \<Rightarrow> bool" where
  "entry_ok s \<longleftrightarrow> length s < ENTRY_MAX \<and>
     (\<exists>sg a p b x. s = sg @ a @ p @ b @ x \<and> sg \<in> signs \<and> digits a \<and> digits b \<and>
        (p = [] \<and> b = [] \<or> p = ''.'') \<and>
        (x = [] \<or> a @ p \<noteq> [] \<and> (\<exists>esg ds. x = CHR ''e'' # esg @ ds \<and> esg \<in> signs \<and> digits ds)))"

text \<open>A number as Quadrate reads one: digits on each side of a point, digits in an exponent.\<close>

definition numeral_text :: "cstring \<Rightarrow> bool" where
  "numeral_text s \<longleftrightarrow>
     (\<exists>sg a f x. s = sg @ a @ f @ x \<and> sg \<in> signs \<and> digits a \<and> a \<noteq> [] \<and>
        (f = [] \<or> (\<exists>b. f = CHR ''.'' # b \<and> digits b \<and> b \<noteq> [])) \<and>
        (x = [] \<or> (\<exists>esg ds. x = CHR ''e'' # esg @ ds \<and> esg \<in> signs \<and> digits ds \<and> ds \<noteq> [])))"

lemma digit_chars: "is_digit c \<Longrightarrow> c \<noteq> CHR ''.'' \<and> c \<noteq> CHR ''-'' \<and> c \<noteq> CHR ''e''"
  by (auto simp: ctype_simps)

lemma digits_simps [simp]:
  "digits []" "digits (c # s) \<longleftrightarrow> is_digit c \<and> digits s" "digits (s @ t) \<longleftrightarrow> digits s \<and> digits t"
  by (auto simp: digits_def)

lemma digits_no: "digits s \<Longrightarrow> CHR ''.'' \<notin> set s \<and> CHR ''-'' \<notin> set s \<and> CHR ''e'' \<notin> set s"
  using digit_chars by (induction s) auto

lemma entryE:
  assumes "entry_ok s"
  obtains sg a p b x where "s = sg @ a @ p @ b @ x" "sg \<in> signs" "digits a" "digits b"
    "p = [] \<and> b = [] \<or> p = ''.''" "length s < ENTRY_MAX"
    "x = [] \<or> a @ p \<noteq> [] \<and> (\<exists>esg ds. x = CHR ''e'' # esg @ ds \<and> esg \<in> signs \<and> digits ds)"
  using assms unfolding entry_ok_def by blast

lemma entryI:
  assumes "sg \<in> signs" "digits a" "digits b" "p = [] \<and> b = [] \<or> p = ''.''" "s = sg @ a @ p @ b @ x"
    "x = [] \<or> a @ p \<noteq> [] \<and> (\<exists>esg ds. x = CHR ''e'' # esg @ ds \<and> esg \<in> signs \<and> digits ds)"
    "length s < ENTRY_MAX"
  shows "entry_ok s"
  using assms unfolding entry_ok_def by blast

text \<open>Where the exponent starts, in an entry that has one.\<close>

lemma exponent_at:
  assumes "sg \<in> signs" "digits a" "digits b" "p = [] \<and> b = [] \<or> p = ''.''"
  shows "find_char (CHR ''e'') (sg @ a @ p @ b @ CHR ''e'' # r) = Some (length (sg @ a @ p @ b))"
    and "CHR ''e'' \<notin> set (sg @ a @ p @ b)"
proof -
  show *: "CHR ''e'' \<notin> set (sg @ a @ p @ b)" using assms digits_no by (auto simp: signs_def)
  then have "find_char (CHR ''e'') ((sg @ a @ p @ b) @ CHR ''e'' # r) = Some (length (sg @ a @ p @ b))"
    by (rule find_char_append)
  then show "find_char (CHR ''e'') (sg @ a @ p @ b @ CHR ''e'' # r) = Some (length (sg @ a @ p @ b))" by simp
qed

lemma mantissa_reads:
  assumes "sg \<in> signs" "digits a" "digits b" "p = [] \<and> b = [] \<or> p = ''.''" "a @ p \<noteq> []"
  shows "\<exists>a' f. entry_mantissa (sg @ a @ p @ b) = sg @ a' @ f \<and> digits a' \<and> a' \<noteq> [] \<and>
    (f = [] \<or> (\<exists>b. f = CHR ''.'' # b \<and> digits b \<and> b \<noteq> [])) \<and> (f = [] \<longrightarrow> p = []) \<and>
    length (entry_mantissa (sg @ a @ p @ b)) \<le> length (sg @ a @ p @ b) + 2"
proof -
  have sign: "(if char_at (sg @ a @ p @ b) 0 = CHR ''-'' then (''-'', tl (sg @ a @ p @ b)) else ([], sg @ a @ p @ b)) = (sg, a @ p @ b)"
    using assms digits_no [of a] digits_no [of b] by (cases a) (auto simp: signs_def char_at_def)
  let ?a = "if a = [] then ''0'' else a"
  have a: "(if char_at (a @ p @ b) 0 = CHR ''.'' then ''0'' else []) @ a @ p @ b = ?a @ p @ b"
    using assms digits_no [of a] by (cases a) auto
  have "digits ?a" using assms(2) by (simp add: ctype_simps)
  moreover have "last (sg @ ?a @ p @ b) = CHR ''.'' \<longleftrightarrow> p = ''.'' \<and> b = []"
  proof (cases "b = []")
    case True
    have "a \<noteq> [] \<Longrightarrow> last a \<noteq> CHR ''.''" using digits_no [OF assms(2)] last_in_set [of a] by metis
    then show ?thesis using True assms(4) by (auto simp: last_append)
  next
    case False
    then have "last b \<noteq> CHR ''.''" using digits_no [OF assms(3)] last_in_set [of b] by metis
    then show ?thesis using False assms(4) by (auto simp: last_append)
  qed
  ultimately have "entry_mantissa (sg @ a @ p @ b) = sg @ ?a @ p @ (if p = ''.'' \<and> b = [] then ''0'' else b)"
    unfolding entry_mantissa_def Let_def sign split_conv a using assms(4) by auto
  then show ?thesis
    using assms(3,4) \<open>digits ?a\<close>
    by (intro exI [of _ ?a] exI [of _ "p @ (if p = ''.'' \<and> b = [] then ''0'' else b)"]) (auto simp: ctype_simps)
qed

lemma entry_reads:
  assumes "entry_ok s" and "s \<noteq> []" and "s \<noteq> ''-''"
  shows "numeral_text (entry_text s) \<and> length (entry_text s) < ENTRY_MAX + 8"
proof -
  from assms(1) obtain sg a p b x where s: "s = sg @ a @ p @ b @ x" "sg \<in> signs" "digits a" "digits b"
    "p = [] \<and> b = [] \<or> p = ''.''" "length s < ENTRY_MAX"
    "x = [] \<or> a @ p \<noteq> [] \<and> (\<exists>esg ds. x = CHR ''e'' # esg @ ds \<and> esg \<in> signs \<and> digits ds)" by (rule entryE)
  have ne: "a @ p \<noteq> []" using s assms(2,3) by (auto simp: signs_def)
  from mantissa_reads [OF s(2-5) ne] obtain a' f where m: "entry_mantissa (sg @ a @ p @ b) = sg @ a' @ f" "digits a'" "a' \<noteq> []"
    "f = [] \<or> (\<exists>b. f = CHR ''.'' # b \<and> digits b \<and> b \<noteq> [])"
    "length (entry_mantissa (sg @ a @ p @ b)) \<le> length (sg @ a @ p @ b) + 2" by blast
  define t where "t = (case find_char (CHR ''e'') s of
      Some i \<Rightarrow> let exponent = drop (i + 1) s
        in if dropWhile (\<lambda>c. c = CHR ''-'') exponent \<noteq> [] then entry_mantissa (take i s) @ CHR ''e'' # exponent else entry_mantissa (take i s)
    | None \<Rightarrow> entry_mantissa s)"
  have reads: "entry_text s = (if CHR ''.'' \<notin> set t \<and> CHR ''e'' \<notin> set t \<and> out_of_range t then t @ ''.0'' else t)"
    unfolding entry_text_def t_def Let_def by (auto split: option.split)
  have "\<exists>x'. t = sg @ a' @ f @ x' \<and>
      (x' = [] \<or> (\<exists>esg ds. x' = CHR ''e'' # esg @ ds \<and> esg \<in> signs \<and> digits ds \<and> ds \<noteq> [])) \<and> length t \<le> length s + 2"
  proof (cases "x = []")
    case True
    then have "find_char (CHR ''e'') s = None" using exponent_at(2) [OF s(2-5)] s(1) by simp
    then show ?thesis using m(1,5) True s(1) by (auto simp: t_def)
  next
    case False
    then obtain esg ds where x: "x = CHR ''e'' # esg @ ds" "esg \<in> signs" "digits ds" using s(7) by blast
    have cut: "find_char (CHR ''e'') s = Some (length (sg @ a @ p @ b))"
      unfolding s(1) x(1) by (rule exponent_at(1) [OF s(2-5)])
    have parts: "take (length (sg @ a @ p @ b)) s = sg @ a @ p @ b" "drop (length (sg @ a @ p @ b) + 1) s = esg @ ds"
      using s(1) x(1) by auto
    have dw: "dropWhile (\<lambda>c. c = CHR ''-'') (esg @ ds) \<noteq> [] \<longleftrightarrow> ds \<noteq> []"
      using x(2,3) digits_no [of ds] by (cases ds) (auto simp: signs_def)
    have "t = (if ds \<noteq> [] then (sg @ a' @ f) @ x else sg @ a' @ f)"
      unfolding t_def cut option.case Let_def parts m(1) dw x(1) by simp
    then show ?thesis using m(5) x s(1) m(1) by auto
  qed
  then obtain x' where t: "t = sg @ a' @ f @ x'" "length t \<le> length s + 2"
    "x' = [] \<or> (\<exists>esg ds. x' = CHR ''e'' # esg @ ds \<and> esg \<in> signs \<and> digits ds \<and> ds \<noteq> [])" by blast
  have "numeral_text t" unfolding numeral_text_def using t s(2) m(2-4) by blast
  moreover have "numeral_text (t @ ''.0'')" if "CHR ''.'' \<notin> set t" "CHR ''e'' \<notin> set t"
  proof -
    have "x' = []" "f = []" using that t m(4) by auto
    then have "t @ ''.0'' = sg @ a' @ ''.0'' @ []" using t(1) by simp
    moreover have "digits ''0''" by (simp add: ctype_simps)
    ultimately show ?thesis unfolding numeral_text_def using s(2) m(2,3) by blast
  qed
  ultimately show ?thesis using reads t(2) s(6) by auto
qed

section \<open>The keys keep it a number\<close>

lemma entry_digit: "entry_ok s \<Longrightarrow> is_digit d \<Longrightarrow> length s + 1 < ENTRY_MAX \<Longrightarrow> entry_ok (s @ [d])"
proof (elim entryE)
  fix sg a p b x
  assume d: "is_digit d" "length s + 1 < ENTRY_MAX" and s: "s = sg @ a @ p @ b @ x" "sg \<in> signs" "digits a" "digits b"
    "p = [] \<and> b = [] \<or> p = ''.''"
    "x = [] \<or> a @ p \<noteq> [] \<and> (\<exists>esg ds. x = CHR ''e'' # esg @ ds \<and> esg \<in> signs \<and> digits ds)"
  show "entry_ok (s @ [d])"
  proof (cases "x = []")
    case True
    then show ?thesis
      using s d by (cases "p = []") (auto intro: entryI [of sg "a @ [d]" "[]" "[]" _ "[]"] entryI [of sg a "b @ [d]" "''.''" _ "[]"])
  next
    case False
    then obtain esg ds where "x = CHR ''e'' # esg @ ds" "esg \<in> signs" "digits ds" using s(6) by blast
    then show ?thesis
      using False s d by (intro entryI [of sg a b p _ "x @ [d]"]) (auto intro: exI [of _ esg])
  qed
qed

lemma entry_point:
  assumes "entry_ok s" and "CHR ''.'' \<notin> set s" and "CHR ''e'' \<notin> set s" and "length s + 1 < ENTRY_MAX"
  shows "entry_ok (s @ ''.'')"
  using assms(1)
proof (elim entryE)
  fix sg a p b x
  assume s: "s = sg @ a @ p @ b @ x" "sg \<in> signs" "digits a" "digits b"
    "p = [] \<and> b = [] \<or> p = ''.''"
    "x = [] \<or> a @ p \<noteq> [] \<and> (\<exists>esg ds. x = CHR ''e'' # esg @ ds \<and> esg \<in> signs \<and> digits ds)"
  then have "x = []" "p = []" "b = []" using assms(2,3) by auto
  then show ?thesis using s assms(4) by (intro entryI [of sg a "[]" "''.''" _ "[]"]) auto
qed

lemma entry_e:
  assumes "entry_ok s" and "s \<noteq> []" and "s \<noteq> ''-''" and "CHR ''e'' \<notin> set s" and "length s + 1 < ENTRY_MAX"
  shows "entry_ok (s @ ''e'')"
  using assms(1)
proof (elim entryE)
  fix sg a p b x
  assume s: "s = sg @ a @ p @ b @ x" "sg \<in> signs" "digits a" "digits b"
    "p = [] \<and> b = [] \<or> p = ''.''"
    "x = [] \<or> a @ p \<noteq> [] \<and> (\<exists>esg ds. x = CHR ''e'' # esg @ ds \<and> esg \<in> signs \<and> digits ds)"
  then have "x = []" using assms(4) by auto
  moreover have "a @ p \<noteq> []" using s assms(2,3) \<open>x = []\<close> by (auto simp: signs_def)
  ultimately show ?thesis using s assms(5)
    by (intro entryI [of sg a b p _ "''e''"]) (auto intro: exI [of _ "[]"] simp: signs_def)
qed

lemma entry_butlast: "entry_ok s \<Longrightarrow> entry_ok (butlast s)"
proof (elim entryE)
  fix sg a p b x
  assume s: "s = sg @ a @ p @ b @ x" "sg \<in> signs" "digits a" "digits b"
    "p = [] \<and> b = [] \<or> p = ''.''" "length s < ENTRY_MAX"
    "x = [] \<or> a @ p \<noteq> [] \<and> (\<exists>esg ds. x = CHR ''e'' # esg @ ds \<and> esg \<in> signs \<and> digits ds)"
  have len: "length (butlast s) < ENTRY_MAX" using s(6) by simp
  have bl: "digits (butlast ds)" if "digits ds" for ds
    using that by (auto simp: digits_def list_all_iff dest: in_set_butlastD)
  show "entry_ok (butlast s)"
  proof (cases "x = []")
    case True
    note x = True
    show ?thesis
    proof (cases "p = []")
      case True
      then show ?thesis
        using s x len bl [OF s(3)] by (cases "a = []")
          (auto simp: signs_def butlast_append intro: entryI [of "[]" "[]" "[]" "[]" _ "[]"] entryI [of sg "butlast a" "[]" "[]" _ "[]"])
    next
      case False
      then show ?thesis
        using s x len bl [OF s(4)] by (cases "b = []")
          (auto simp: butlast_append intro: entryI [of sg a "[]" "[]" _ "[]"] entryI [of sg a "butlast b" "''.''" _ "[]"])
    qed
  next
    case False
    then obtain esg ds where x: "x = CHR ''e'' # esg @ ds" "esg \<in> signs" "digits ds" "a @ p \<noteq> []" using s(7) by blast
    have "butlast x = [] \<or> (\<exists>esg ds. butlast x = CHR ''e'' # esg @ ds \<and> esg \<in> signs \<and> digits ds)"
      using x bl [OF x(3)] by (cases "ds = []") (auto simp: signs_def butlast_append)
    then show ?thesis
      using s x(4) len False by (intro entryI [of sg a b p _ "butlast x"]) (auto simp: butlast_append)
  qed
qed

text \<open>The sign key on a number being typed, away from the rest of the shell.\<close>

definition flip_sign :: "cstring \<Rightarrow> cstring" where
  "flip_sign s =
     (let at = (case find_char (CHR ''e'') s of Some i \<Rightarrow> i + 1 | None \<Rightarrow> 0)
      in if char_at s at = CHR ''-'' then take at s @ drop (at + 1) s
         else if length s + 1 < ENTRY_MAX then insert_at at ''-'' s else s)"

lemma entry_flip: "entry_ok s \<Longrightarrow> entry_ok (flip_sign s)"
proof (elim entryE)
  fix sg a p b x
  assume s: "s = sg @ a @ p @ b @ x" "sg \<in> signs" "digits a" "digits b"
    "p = [] \<and> b = [] \<or> p = ''.''" "length s < ENTRY_MAX"
    "x = [] \<or> a @ p \<noteq> [] \<and> (\<exists>esg ds. x = CHR ''e'' # esg @ ds \<and> esg \<in> signs \<and> digits ds)"
  show "entry_ok (flip_sign s)"
  proof (cases "x = []")
    case True
    then have f: "find_char (CHR ''e'') s = None" using exponent_at(2) [OF s(2-5)] s(1) by simp
    show ?thesis
    proof (cases "sg = []")
      case sg: True
      have "char_at s 0 \<noteq> CHR ''-''"
        using s True sg digits_no [of a] by (cases a) (auto simp: char_at_def)
      then have "flip_sign s = (if length s + 1 < ENTRY_MAX then ''-'' @ s else s)"
        by (simp add: flip_sign_def f insert_at_def)
      then show ?thesis using s sg True
        by (auto intro: entryI [of "''-''" a b p _ "[]"] entryI [of "[]" a b p _ "[]"] simp: signs_def)
    next
      case False
      then have "char_at s 0 = CHR ''-''" "drop (0 + 1) s = a @ p @ b" using s True by (auto simp: signs_def char_at_def)
      then have "flip_sign s = a @ p @ b" unfolding flip_sign_def f Let_def option.case by simp
      then show ?thesis using s by (intro entryI [of "[]" a b p _ "[]"]) (auto simp: signs_def)
    qed
  next
    case False
    then obtain esg ds where x: "x = CHR ''e'' # esg @ ds" "esg \<in> signs" "digits ds" "a @ p \<noteq> []" using s(7) by blast
    let ?m = "sg @ a @ p @ b"
    have f: "find_char (CHR ''e'') s = Some (length ?m)"
      unfolding s(1) x(1) by (rule exponent_at(1) [OF s(2-5)])
    have tail: "drop (length ?m + 1) s = esg @ ds" using s(1) x(1) by simp
    have "drop (length ?m + 1 + 1) s = tl (drop (length ?m + 1) s)" by (simp add: drop_Suc tl_drop)
    then have cut: "take (length ?m + 1) s = ?m @ ''e''" "drop (length ?m + 1) s = esg @ ds" "drop (length ?m + 1 + 1) s = tl (esg @ ds)"
      "char_at s (length ?m + 1) = char_at (esg @ ds) 0"
      using s(1) x(1) tail by (auto simp: char_at_def nth_append)
    have flip: "flip_sign s = (if char_at (esg @ ds) 0 = CHR ''-'' then (?m @ ''e'') @ tl (esg @ ds)
        else if length s + 1 < ENTRY_MAX then (?m @ ''e'') @ ''-'' @ esg @ ds else s)"
      unfolding flip_sign_def Let_def f option.case cut insert_at_def by simp
    show ?thesis
    proof (cases "esg = []")
      case True
      then have "char_at (esg @ ds) 0 \<noteq> CHR ''-''" using digits_no [OF x(3)] by (cases ds) (auto simp: char_at_def)
      then have "flip_sign s = (if length s + 1 < ENTRY_MAX then ?m @ CHR ''e'' # ''-'' @ ds else s)" using flip True by simp
      moreover have "entry_ok (?m @ CHR ''e'' # ''-'' @ ds)" if "length s + 1 < ENTRY_MAX"
      proof -
        have "\<exists>esg ds'. CHR ''e'' # ''-'' @ ds = CHR ''e'' # esg @ ds' \<and> esg \<in> signs \<and> digits ds'"
          using x(3) True by (intro exI [of _ "''-''"] exI [of _ ds]) (simp add: signs_def)
        then show ?thesis using that s(1) x(1,4) True by (intro entryI [OF s(2-5)]) auto
      qed
      moreover have "entry_ok s" by (rule entryI [OF s(2-5) s(1,7,6)])
      ultimately show ?thesis by simp
    next
      case False
      then have "flip_sign s = ?m @ CHR ''e'' # ds" using x(2) flip by (auto simp: signs_def char_at_def)
      then show ?thesis using s x
        by (intro entryI [of sg a b p _ "CHR ''e'' # ds"]) (auto simp: signs_def)
    qed
  qed
qed

text \<open>Keying a number in, one key at a time.\<close>

lemma entry_append_ok:
  "entry_ok (sh_entry sh) \<Longrightarrow> is_digit d \<Longrightarrow> entry_ok (sh_entry (entry_append d sh))"
  using entry_digit [of "sh_entry sh" d] by (simp add: entry_append_def)

lemma entry_exponent_ok:
  assumes "entry_ok (sh_entry sh)"
  shows "entry_ok (sh_entry (entry_exponent sh))"
proof (cases "CHR ''e'' \<in> set (sh_entry sh)")
  case False
  let ?sh = "if sh_entry sh = [] \<or> sh_entry sh = ''-'' then entry_append (CHR ''1'') sh else sh"
  have "is_digit (CHR ''1'')" by (simp add: ctype_simps)
  then have "entry_ok (sh_entry ?sh)" using assms entry_append_ok [of sh "CHR ''1''"] by simp
  moreover have "sh_entry ?sh \<noteq> []" "sh_entry ?sh \<noteq> ''-''" "CHR ''e'' \<notin> set (sh_entry ?sh)"
    using False by (auto simp: entry_append_def ENTRY_MAX_def)
  ultimately show ?thesis using False entry_e [of "sh_entry ?sh"]
    by (simp only: entry_exponent_def if_False) (simp add: entry_append_def [of "CHR ''e''"])
qed (use assms in \<open>simp add: entry_exponent_def\<close>)

lemma entry_ok_Nil [simp]: "entry_ok []"
  by (rule entryI [of "[]" "[]" "[]" "[]" _ "[]"]) (auto simp: signs_def ENTRY_MAX_def)

lemma entry_frame:
  "sh_entry (set_message s b sh) = sh_entry sh" "sh_entry (absorb_output sh) = sh_entry sh"
  "sh_entry (undo_snapshot mc sh) = sh_entry sh" "sh_entry (input_clear sh) = sh_entry sh"
  by (simp_all add: own_message [THEN own_fields] own_absorb [THEN own_fields] own_snapshot [THEN own_fields]
      own_edit [THEN own_fields])

lemma entry_frame_undo:
  "keeps_own mc \<Longrightarrow> sh_entry (undo_failed mc sh) = sh_entry sh" "keeps_own mc \<Longrightarrow> sh_entry (undo_restore mc sh) = sh_entry sh"
  "keeps_own mc \<Longrightarrow> sh_entry (handle_line_key mc ev sh) = sh_entry sh"
  by (simp_all add: own_undo [THEN own_fields] own_handle_line_key [THEN own_fields])

lemma entry_after_error:
  "qdos_guarded_error mc sh = (e, sh') \<Longrightarrow> sh_entry sh' = sh_entry sh"
  using own_error [of mc sh, THEN own_fields] by simp

lemma entry_after_eval:
  "keeps_own mc \<Longrightarrow> qdos_guarded_eval mc source sh = (ok, sh') \<Longrightarrow> sh_entry sh' = sh_entry sh"
  using own_eval [of mc source sh, THEN own_fields] by simp

lemma entry_after_commit:
  assumes "keeps_own mc" and "entry_commit mc sh = (ok, sh')"
  shows "sh_entry sh' = [] \<or> sh_entry sh' = sh_entry sh"
  using assms(2)
  by (auto simp: entry_commit_def Let_def entry_clear_def entry_frame entry_frame_undo [OF assms(1)] split: if_splits prod.splits
      dest!: entry_after_error entry_after_eval [OF assms(1)])

lemma entry_after_key_error: "sh_entry (set_key_error e w l sh) = sh_entry sh"
  by (simp add: set_key_error_def Let_def entry_frame split: option.split)

lemma entry_after_word:
  assumes "keeps_own mc"
  shows "sh_entry (apply_key_word mc w l sh) = [] \<or> sh_entry (apply_key_word mc w l sh) = sh_entry sh"
proof -
  have *: "sh_entry (case x of Some (True, v) \<Rightarrow> sh3\<lparr>sh_last_x := v, sh_has_last_x := True\<rparr> | _ \<Rightarrow> sh3) = sh_entry sh3"
    for x :: "(bool \<times> qdos_value) option" and sh3 :: "('a, 'b, 'c) shell"
    by (auto split: option.split bool.split)
  obtain ok sh1 where c: "entry_commit mc sh = (ok, sh1)" by (cases "entry_commit mc sh")
  obtain ok' sh2 where e: "qdos_guarded_eval mc w ((undo_snapshot mc sh1)\<lparr>sh_finite_only := True\<rparr>) = (ok', sh2)"
    by (cases "qdos_guarded_eval mc w ((undo_snapshot mc sh1)\<lparr>sh_finite_only := True\<rparr>)")
  obtain m sh4 where g: "qdos_guarded_error mc (sh2\<lparr>sh_finite_only := False\<rparr>) = (m, sh4)"
    by (cases "qdos_guarded_error mc (sh2\<lparr>sh_finite_only := False\<rparr>)")
  have "sh_entry sh2 = sh_entry sh1" "sh_entry sh4 = sh_entry sh2"
    using entry_after_eval [OF assms e] entry_after_error [OF g] by (simp_all add: entry_frame)
  then have "sh_entry (apply_key_word mc w l sh) = sh_entry sh1"
    unfolding apply_key_word_def c split_conv Let_def e g
    by (cases ok; cases ok') (simp_all add: * entry_after_key_error entry_frame entry_frame_undo [OF assms])
  then show ?thesis using entry_after_commit [OF assms c] by simp
qed

lemma entry_negate_ok:
  assumes "keeps_own mc" and "entry_ok (sh_entry sh)"
  shows "entry_ok (sh_entry (entry_negate mc sh))"
proof (cases "sh_entry sh = []")
  case True
  then show ?thesis using entry_after_word [OF assms(1)] by (simp add: entry_negate_def apply_word_def) (metis entry_ok_Nil)
next
  case False
  then have "sh_entry (entry_negate mc sh) = flip_sign (sh_entry sh)"
    by (simp add: entry_negate_def flip_sign_def Let_def)
  then show ?thesis using entry_flip [OF assms(2)] by simp
qed

lemma entry_word_ok:
  "keeps_own mc \<Longrightarrow> entry_ok (sh_entry sh) \<Longrightarrow> entry_ok (sh_entry (apply_key_word mc w l sh))"
  using entry_after_word [of mc w l sh] by auto

lemma entry_commit_ok:
  "keeps_own mc \<Longrightarrow> entry_ok (sh_entry sh) \<Longrightarrow> entry_commit mc sh = (ok, sh') \<Longrightarrow> entry_ok (sh_entry sh')"
  using entry_after_commit [of mc sh ok sh'] by auto

lemma entry_line_mode_ok:
  assumes "keeps_own mc" and "entry_ok (sh_entry sh)"
  shows "entry_ok (sh_entry (enter_line_mode mc sh))"
  using entry_commit_ok [OF assms, of "fst (entry_commit mc sh)" "snd (entry_commit mc sh)"]
  by (simp add: enter_line_mode_def entry_frame)

lemma entry_if: "(c \<Longrightarrow> entry_ok (sh_entry a)) \<Longrightarrow> (\<not> c \<Longrightarrow> entry_ok (sh_entry b)) \<Longrightarrow> entry_ok (sh_entry (if c then a else b))"
  by simp

lemma entry_case_word:
  "(\<And>w l. entry_ok (sh_entry (f w l))) \<Longrightarrow> entry_ok (sh_entry sh) \<Longrightarrow>
   entry_ok (sh_entry (case m of Some (w, l) \<Rightarrow> f w l | None \<Rightarrow> sh))"
  by (auto split: option.split)

lemma entry_case_commit:
  "keeps_own mc \<Longrightarrow> entry_ok (sh_entry sh) \<Longrightarrow>
   (\<And>sh'. entry_ok (sh_entry sh') \<Longrightarrow> entry_ok (sh_entry (f sh'))) \<Longrightarrow> (\<And>sh'. entry_ok (sh_entry sh') \<Longrightarrow> entry_ok (sh_entry (g sh'))) \<Longrightarrow>
   entry_ok (sh_entry (case entry_commit mc sh of (True, sh') \<Rightarrow> f sh' | (False, sh') \<Rightarrow> g sh'))"
  using entry_commit_ok [of mc sh "fst (entry_commit mc sh)" "snd (entry_commit mc sh)"]
  by (auto split: prod.split bool.split)

lemma digit_char_digit: "n \<le> 9 \<Longrightarrow> is_digit (digit_char n)"
  by simp

lemma entry_calc_key_ok:
  assumes k: "keeps_own mc" and e: "entry_ok (sh_entry sh)"
  shows "entry_ok (sh_entry (calc_key mc ev sh))"
proof -
  have clear: "entry_ok (sh_entry (entry_clear sh'))" for sh' :: "('a, 'b, 'c) shell" by (simp add: entry_clear_def)
  have cleared: "entry_ok (sh_entry (snd (qdos_guarded_eval mc ''clear'' (undo_snapshot mc (entry_clear sh)))))"
    using own_eval [OF k, THEN own_fields] by (simp add: entry_frame entry_clear_def)
  have point: "entry_ok (sh_entry (if CHR ''.'' \<notin> set (sh_entry sh) \<and> CHR ''e'' \<notin> set (sh_entry sh) then entry_append (CHR ''.'') sh else sh))"
    using e entry_point [OF e] by (simp add: entry_append_def)
  show ?thesis
    unfolding calc_key_def Let_def
    by (intro entry_if entry_case_word entry_case_commit entry_append_ok entry_exponent_ok entry_negate_ok entry_word_ok
          entry_line_mode_ok k e clear point digit_char_digit)
      (use e cleared entry_butlast [OF e] entry_line_mode_ok [OF k e] k in
        \<open>auto simp: entry_frame entry_frame_undo apply_word_def intro: entry_word_ok\<close>)
qed

lemma entry_digit_key_ok: "entry_ok (sh_entry sh) \<Longrightarrow> register_digit mc ev sh = Some sh' \<Longrightarrow> keeps_own mc \<Longrightarrow> entry_ok (sh_entry sh')"
  by (auto simp: register_digit_def Let_def entry_frame split: if_splits prod.splits
      dest!: entry_after_error dest: entry_after_eval)

lemma entry_select_ok: "entry_ok (sh_entry sh) \<Longrightarrow> stack_select_key mc ev sh = Some sh' \<Longrightarrow> keeps_own mc \<Longrightarrow> entry_ok (sh_entry sh')"
  using own_eval [of mc, THEN own_fields]
  by (auto simp: stack_select_key_def Let_def entry_frame split: if_splits option.splits prod.splits bool.splits)

lemma entry_key_ok:
  assumes k: "keeps_own mc" and e: "entry_ok (sh_entry sh)"
  shows "entry_ok (sh_entry (handle_calc_key mc ev sh))"
proof -
  let ?p = "if ev_key ev = QDOS_KEY_MOD then
      let (ok, sh1) = entry_commit mc sh
      in (if ok \<and> length (sh_stack sh1) = 1 then Some ''100.0 divide'' else function_word (ev_key ev), sh1)
    else (function_word (ev_key ev), sh)"
  obtain word sh1 where p: "?p = (word, sh1)" by (cases ?p)
  then have "entry_ok (sh_entry sh1)"
    using e entry_commit_ok [OF k e] by (auto split: if_splits prod.splits)
  then show ?thesis
    unfolding handle_calc_key_def Let_def [of "?p"] p
    using entry_digit_key_ok [OF e _ k] entry_select_ok [OF e _ k] entry_word_ok [OF k] entry_calc_key_ok [OF k]
    by (auto split: option.split)
qed

text \<open>C7. A number being typed stays one: whatever key is pressed, the entry goes on being a sign, digits with at most one
  point and an exponent, inside its buffer; and unless it is empty or a sign alone, what is evaluated for it is a number
  with a digit on each side of the point and digits in the exponent, whatever was left out while typing.\<close>

theorem typed_number_is_a_numeral:
  fixes ev :: qdos_key_event
  assumes "keeps_own mc" and "entry_ok (sh_entry sh)"
  defines "s \<equiv> sh_entry (handle_calc_key mc ev sh)"
  shows "entry_ok s \<and> (s \<noteq> [] \<and> s \<noteq> ''-'' \<longrightarrow> numeral_text (entry_text s) \<and> length (entry_text s) < ENTRY_MAX + 8)"
  using entry_key_ok [OF assms(1,2)] entry_reads by (auto simp: s_def)

lemma small_keeps_own: "keeps_own small_machine"
  by (auto simp: keeps_own_def own_def small_machine_def small_eval_def)

lemma typed_number_is_a_numeral_witness:
  "sh_entry (handle_calc_key small_machine \<lparr>ev_key = QDOS_KEY_EE, ev_ch = nul\<rparr> ((fresh_shell [] ())\<lparr>sh_entry := ''-.5''\<rparr>)) = ''-.5e'' \<and>
   numeral_text (entry_text ''-.5e'') \<and> entry_text ''-.5e'' = ''-0.5''"
proof -
  let ?sh = "(fresh_shell [] ())\<lparr>sh_entry := ''-.5''\<rparr> :: (unit, bool, unit) shell"
  have "entry_ok (sh_entry ?sh)"
    by (rule entryI [of "''-''" "[]" "''5''" "''.''" _ "[]"]) (auto simp: signs_def ctype_simps ENTRY_MAX_def)
  note this = typed_number_is_a_numeral [OF small_keeps_own this, of "\<lparr>ev_key = QDOS_KEY_EE, ev_ch = nul\<rparr>"]
  moreover have "sh_entry (handle_calc_key small_machine \<lparr>ev_key = QDOS_KEY_EE, ev_ch = nul\<rparr> ?sh) = ''-.5e''" by code_simp
  moreover have "entry_text ''-.5e'' = ''-0.5''" by code_simp
  ultimately show ?thesis by simp
qed

section \<open>Keys that fail, and keys taken back\<close>

lemma message_undo:
  "sh_stack (set_message m b s) = sh_stack s" "sh_undo (set_message m b s) = sh_undo s"
  "sh_undo_ready (set_message m b s) = sh_undo_ready s" "sh_undo_exact (set_message m b s) = sh_undo_exact s"
  "sh_stack_sel (set_message m b s) = sh_stack_sel s"
  using message_frame [of m b s] by auto

lemma key_error_undo:
  "sh_stack (set_key_error e w l s) = sh_stack s \<and> sh_undo (set_key_error e w l s) = sh_undo s \<and>
   sh_undo_ready (set_key_error e w l s) = sh_undo_ready s"
  by (simp add: set_key_error_def Let_def message_undo split: option.split)

lemma key_error_evaluating: "sh_evaluating (set_key_error e w l s) = sh_evaluating s"
proof -
  have "sh_evaluating (set_message m b s) = sh_evaluating s" for m b using message_keeps [of m b s] by simp
  then show ?thesis by (simp add: set_key_error_def Let_def split: option.split)
qed

lemma absorb_undo:
  "same_undo s (absorb_output s) \<and> sh_evaluating (absorb_output s) = sh_evaluating s"
proof -
  obtain l n where *: "log_add (sh_printed s) s = s\<lparr>sh_log := l, sh_log_count := n\<rparr>"
    using log_add_frame [of "sh_printed s" s] by blast
  show ?thesis
  proof (cases "sh_printed s = []")
    case False
    then show ?thesis
      using message_keeps [of _ False "s\<lparr>sh_log := l, sh_log_count := n\<rparr>"]
      by (auto simp: absorb_output_def Let_def * same_undo_def split: option.split)
  qed (simp add: absorb_output_def same_undo_def)
qed

lemma same_undo_trans: "same_undo a b \<Longrightarrow> same_undo b c \<Longrightarrow> same_undo a c"
  by (simp add: same_undo_def)

text \<open>The number being typed is a step of its own: it is taken back whole, or UNDO takes it back.\<close>

lemma commit_step:
  assumes "machine_ok mc" and "undoable mc sh" and "\<not> sh_evaluating sh"
    and "sh_entry sh = [] \<or> sh_entry sh = ''-'' \<or> quiet mc (entry_text (sh_entry sh)) (undo_snapshot mc sh)"
    and "entry_commit mc sh = (committed, sh1)"
  shows "\<not> sh_evaluating sh1"
    and "\<not> committed \<or> sh_entry sh = [] \<or> sh_entry sh = ''-'' \<Longrightarrow>
      sh_stack sh1 = sh_stack sh \<and> sh_undo sh1 = sh_undo sh \<and> sh_undo_ready sh1 = sh_undo_ready sh"
    and "committed \<Longrightarrow> sh_entry sh \<noteq> [] \<Longrightarrow> sh_entry sh \<noteq> ''-'' \<Longrightarrow> same_undo (undo_snapshot mc sh) sh1"
proof -
  let ?snap = "undo_snapshot mc sh" and ?s = "entry_text (sh_entry sh)"
  obtain ok sh2 where ev: "qdos_guarded_eval mc ?s ?snap = (ok, sh2)" by fastforce
  have snap: "\<not> sh_evaluating ?snap" using assms(3) by (simp add: undo_snapshot_def Let_def split: prod.split)
  then have off: "\<not> sh_evaluating sh2" using ev by (auto simp: qdos_guarded_eval_def Let_def split: prod.splits outcome.splits)
  have same: "same_undo ?snap sh2" if "sh_entry sh \<noteq> []" "sh_entry sh \<noteq> ''-''" using assms(4) ev that by (simp add: quiet_def)
  obtain e sh3 where g: "qdos_guarded_error mc sh2 = (e, sh3)" by fastforce
  have err: "same_undo ?snap (set_message e True sh3) \<and> \<not> sh_evaluating (set_message e True sh3)"
    if "sh_entry sh \<noteq> []" "sh_entry sh \<noteq> ''-''"
  proof -
    have "same_undo ?snap sh3 \<and> \<not> sh_evaluating sh3" using g same [OF that] off by (auto simp: qdos_guarded_error_def same_undo_def split: if_splits)
    then show ?thesis using message_keeps [of e True sh3] same_undo_trans by auto
  qed
  note taken = failed_step [OF assms(1,2) conjunct1 [OF err] conjunct2 [OF err]]
  have still: "\<not> sh_evaluating (undo_failed mc (set_message e True sh3))" if "sh_entry sh \<noteq> []" "sh_entry sh \<noteq> ''-''"
    using err [OF that] put_back [OF assms(1), of "set_message e True sh3"] by (auto simp: undo_failed_def Let_def)
  consider (bare) "sh_entry sh = [] \<or> sh_entry sh = ''-''" | (wide) "sh_entry sh \<noteq> []" "sh_entry sh \<noteq> ''-''" "overflows mc ?s"
    | (failed) "sh_entry sh \<noteq> []" "sh_entry sh \<noteq> ''-''" "\<not> overflows mc ?s" "\<not> ok"
    | (pushed) "sh_entry sh \<noteq> []" "sh_entry sh \<noteq> ''-''" "\<not> overflows mc ?s" ok by blast
  then have "\<not> sh_evaluating sh1 \<and>
      (\<not> committed \<or> sh_entry sh = [] \<or> sh_entry sh = ''-'' \<longrightarrow>
        sh_stack sh1 = sh_stack sh \<and> sh_undo sh1 = sh_undo sh \<and> sh_undo_ready sh1 = sh_undo_ready sh) \<and>
      (committed \<and> sh_entry sh \<noteq> [] \<and> sh_entry sh \<noteq> ''-'' \<longrightarrow> same_undo ?snap sh1)"
  proof cases
    case bare
    then show ?thesis using assms(3,5) by (auto simp: entry_commit_def entry_clear_def)
  next
    case wide
    then have "committed = False" "sh1 = set_message ''OVERFLOW'' True sh" using assms(5) by (simp_all add: entry_commit_def Let_def)
    then show ?thesis using assms(3) message_undo [of "''OVERFLOW''" True sh] message_keeps [of "''OVERFLOW''" True sh] by simp
  next
    case failed
    then have "committed = False" "sh1 = undo_failed mc (set_message e True sh3)"
      using assms(5) ev g by (simp_all add: entry_commit_def Let_def)
    then show ?thesis using taken still failed(1,2) by simp
  next
    case pushed
    then have "committed" "sh1 = sh2\<lparr>sh_entry := []\<rparr>" using assms(5) ev by (simp_all add: entry_commit_def entry_clear_def Let_def)
    then show ?thesis using pushed same [OF pushed(1,2)] off by (simp add: same_undo_def)
  qed
  then show "\<not> sh_evaluating sh1"
    "\<not> committed \<or> sh_entry sh = [] \<or> sh_entry sh = ''-'' \<Longrightarrow>
      sh_stack sh1 = sh_stack sh \<and> sh_undo sh1 = sh_undo sh \<and> sh_undo_ready sh1 = sh_undo_ready sh"
    "committed \<Longrightarrow> sh_entry sh \<noteq> [] \<Longrightarrow> sh_entry sh \<noteq> ''-'' \<Longrightarrow> same_undo ?snap sh1" by blast+
qed

text \<open>What UNDO would put back is what the snapshot has, wherever it came from.\<close>

lemma undo_by_snapshot:
  assumes "machine_ok mc" and "\<not> sh_evaluating sh" and "\<not> sh_evaluating sh'"
    and "sh_undo sh' = sh_undo sh" and "sh_undo_ready sh' = sh_undo_ready sh" and "sh_undo_ready sh"
  shows "sh_stack (undo_restore mc sh') = sh_stack (undo_restore mc sh)"
  using assms put_back [OF assms(1,2)] put_back [OF assms(1,3)] by (simp add: undo_restore_def message_undo)



text \<open>
  The digit after RCL is not such a key: where the register is empty the word fails and nothing is put back, but the snapshot taken
  for it stays, and UNDO then gives the stack as it already is: the step before can no longer be taken back.
\<close>

lemma failed_recall_forgets_the_step_before:
  assumes "machine_ok mc" and "undoable mc sh" and "\<not> sh_evaluating sh" and "sh_register_wait sh = REGISTER_RECALLING"
    and "QDOS_KEY_0 \<le> ev_key ev" and "ev_key ev \<le> QDOS_KEY_9"
    and "qdos_guarded_eval mc (clip 24 (dec (ev_key ev - QDOS_KEY_0) @ '' rcl'')) (undo_snapshot mc (sh\<lparr>sh_register_wait := REGISTER_IDLE\<rparr>)) =
      (False, sh2)" and "same_undo (undo_snapshot mc (sh\<lparr>sh_register_wait := REGISTER_IDLE\<rparr>)) sh2" and "\<not> sh_evaluating sh2"
  shows "sh_stack (undo_restore mc (handle_calc_key mc ev sh)) = sh_stack sh"
proof -
  let ?idle = "sh\<lparr>sh_register_wait := REGISTER_IDLE\<rparr>"
  obtain e sh3 where g: "qdos_guarded_error mc sh2 = (e, sh3)" by fastforce
  have key: "handle_calc_key mc ev sh = set_message e True sh3"
    using assms(4-7) g by (simp add: handle_calc_key_def register_digit_def Let_def)
  have "same_undo (undo_snapshot mc ?idle) sh3 \<and> \<not> sh_evaluating sh3"
    using g assms(8,9) by (auto simp: qdos_guarded_error_def same_undo_def split: if_splits)
  then have "same_undo (undo_snapshot mc ?idle) (set_message e True sh3)" "\<not> sh_evaluating (set_message e True sh3)"
    using message_keeps [of e True sh3] same_undo_trans by auto
  moreover have "undoable mc ?idle" using assms(2) by (simp add: undoable_def)
  ultimately show ?thesis using undone_step [OF assms(1), of ?idle "set_message e True sh3"] unfolding key by simp
qed

section \<open>The level picked out\<close>

definition drops :: "('p, 'q, 'w) machine \<Rightarrow> bool" where
  "drops mc \<longleftrightarrow> (\<forall>sh. sh_stack sh \<noteq> [] \<longrightarrow>
     qd_interp_eval mc ''drop'' sh = (Returned True, [], sh\<lparr>sh_stack := butlast (sh_stack sh)\<rparr>))"

text \<open>C9. DROP with a level picked out takes that level and no other off the stack, and moves the mark off a level that is no
  longer there. On a stack a snapshot holds whole, of at most 99 levels and no arrays, UNDO then puts the level back in its place.\<close>

theorem picked_level_is_dropped:
  assumes "machine_ok mc" and "drops mc" and "\<not> sh_evaluating sh"
    and "0 < sh_stack_sel sh" and "sh_stack_sel sh \<le> length (sh_stack sh)"
  shows "\<exists>sh'. stack_select_key mc (key_event QDOS_KEY_DROP) sh = Some sh' \<and>
    sh_stack sh' = take (length (sh_stack sh) - sh_stack_sel sh) (sh_stack sh) @
      drop (length (sh_stack sh) - sh_stack_sel sh + 1) (sh_stack sh) \<and>
    sh_stack_sel sh' = min (sh_stack_sel sh) (length (sh_stack sh) - 1) \<and>
    (undoable mc sh \<longrightarrow> sh_stack (undo_restore mc sh') = sh_stack sh)"
proof -
  let ?st = "sh_stack sh" and ?n = "length (sh_stack sh) - sh_stack_sel sh"
  let ?rest = "take ?n ?st @ drop (?n + 1) ?st"
  let ?sh1 = "undo_snapshot mc sh"
  have frame: "sh_stack ?sh1 = ?st" "sh_stack_sel ?sh1 = sh_stack_sel sh" "sh_evaluating ?sh1 = sh_evaluating sh"
    by (simp_all add: undo_snapshot_def Let_def split: prod.split)
  have raised: "stack_raise (sh_stack_sel ?sh1) (sh_stack ?sh1) = ?rest @ [?st ! ?n]"
    by (simp add: frame stack_raise_def Let_def)
  have "\<not> sh_evaluating (?sh1\<lparr>sh_stack := ?rest @ [?st ! ?n]\<rparr>)" using assms(3) by (simp add: frame)
  then have ev: "qdos_guarded_eval mc ''drop'' (?sh1\<lparr>sh_stack := ?rest @ [?st ! ?n]\<rparr>) =
      (True, ?sh1\<lparr>sh_stack := ?rest, sh_evaluating := False, sh_printed := []\<rparr>)"
    using assms(2) by (simp add: qdos_guarded_eval_def drops_def Let_def clip_def butlast_append)
  define sh' where "sh' = ?sh1\<lparr>sh_stack := ?rest, sh_evaluating := False, sh_printed := [],
      sh_stack_sel := min (sh_stack_sel sh) (length ?st - 1)\<rparr>"
  have "stack_select_key mc (key_event QDOS_KEY_DROP) sh = Some sh'"
    using assms(4,5) unfolding stack_select_key_def Let_def raised ev sh'_def by (simp add: frame min_def)
  moreover have "sh_stack (undo_restore mc sh') = sh_stack sh" if "undoable mc sh"
    using undone_step [OF assms(1) that, of sh'] by (simp add: sh'_def same_undo_def)
  ultimately show ?thesis by (simp add: sh'_def)
qed

lemma picked_level_is_dropped_witness:
  "map_option sh_stack (stack_select_key small_machine (key_event QDOS_KEY_DROP)
     ((fresh_shell [ElInt 1, ElInt 2, ElInt 3] ())\<lparr>sh_stack_sel := 3\<rparr>)) = Some [ElInt 2, ElInt 3] \<and>
   map_option (\<lambda>sh. sh_stack (undo_restore small_machine sh)) (stack_select_key small_machine (key_event QDOS_KEY_DROP)
     ((fresh_shell [ElInt 1, ElInt 2, ElInt 3] ())\<lparr>sh_stack_sel := 3\<rparr>)) = Some [ElInt 1, ElInt 2, ElInt 3]"
proof -
  let ?sh = "(fresh_shell [ElInt 1, ElInt 2, ElInt 3] ())\<lparr>sh_stack_sel := 3\<rparr> :: (unit, bool, unit) shell"
  have "undoable small_machine ?sh"
    by (simp add: undoable_def small_machine_def fresh_shell_def UNDO_MAX_def QDOS_REGISTER_MAX_def)
  moreover have "drops small_machine" by (simp add: drops_def small_machine_def small_eval_def)
  ultimately show ?thesis using picked_level_is_dropped [OF small_machine_ok, of ?sh]
    by (auto simp: fresh_shell_def)
qed

section \<open>What the log keeps\<close>

text \<open>The lines of a text, and a line cut to the width of the panel: full rows, then what is left.\<close>

fun joined :: "cstring list \<Rightarrow> cstring" where
  "joined [] = []"
| "joined [l] = l"
| "joined (l # ls) = l @ newline # joined ls"

definition in_rows :: "cstring \<Rightarrow> cstring list \<Rightarrow> bool" where
  "in_rows line rows \<longleftrightarrow>
     concat rows = line \<and> list_all (\<lambda>r. length r = QDOS_COLS) (butlast rows) \<and> list_all (\<lambda>r. r \<noteq> [] \<and> length r \<le> QDOS_COLS) rows"

lemma wrap_rows: "in_rows line (wrap line)"
proof -
  have "list_all (\<lambda>r. length r = QDOS_COLS) (butlast (wrap line))"
  proof (induction line rule: wrap.induct)
    case (1 line)
    show ?case
    proof (cases "line = [] \<or> drop QDOS_COLS line = []")
      case True
      then show ?thesis by (auto simp: wrap.simps [of line] wrap.simps [of "[]"])
    next
      case False
      then have "QDOS_COLS < length line" by simp
      moreover from False have "wrap (drop QDOS_COLS line) \<noteq> []" by (simp add: wrap.simps [of "drop QDOS_COLS line"])
      ultimately show ?thesis using 1 False by (simp add: wrap.simps [of line])
    qed
  qed
  then show ?thesis using wrap_fits [of line] by (simp add: in_rows_def)
qed

lemma joined_Cons: "ls \<noteq> [] \<Longrightarrow> joined (l # ls) = l @ newline # joined ls"
  by (cases ls) simp_all

lemma joined_lines: "joined (lines_of s) = s \<and> list_all (\<lambda>l. newline \<notin> set l) (lines_of s)"
proof (induction s)
  case (Cons c cs)
  obtain l ls where ls: "lines_of cs = l # ls" using lines_of_not_Nil [of cs] by (cases "lines_of cs") auto
  then show ?case using Cons by (cases ls) auto
qed simp

text \<open>C11. The log is the end of everything said. When it holds the rows \<open>rows\<close>, logging a text adds its lines, those between its
  newlines, each in rows the width of the panel with the last one shorter, an empty line taking none; and what can be read back is the last
  \<open>LOG_LINES\<close> rows of them all, oldest first.\<close>

theorem log_keeps_the_last_lines:
  assumes "log_holds rows sh"
  shows "\<exists>ls new. s = joined ls \<and> list_all (\<lambda>l. newline \<notin> set l) ls \<and> list_all2 in_rows ls new \<and>
    log_holds (rows @ concat new) (log_add s sh) \<and>
    map (log_at (log_add s sh)) [0..<log_held (log_add s sh)] =
      map Some (drop (length (rows @ concat new) - LOG_LINES) (rows @ concat new))"
proof -
  let ?new = "map wrap (lines_of s)"
  have held: "log_holds (rows @ concat ?new) (log_add s sh)" using log_holds_add [OF assms, of s] by (simp add: logged_def)
  define d where "d = drop (length (rows @ concat ?new) - LOG_LINES) (rows @ concat ?new)"
  have "log_held (log_add s sh) = length d"
    using held by (auto simp: log_held_def log_holds_def d_def)
  moreover have "log_at (log_add s sh) i = Some (d ! i)" if "i < length d" for i
    using that log_at_holds [OF held, of i] unfolding Let_def d_def [symmetric] by simp
  ultimately have "map (log_at (log_add s sh)) [0..<log_held (log_add s sh)] = map Some d"
    by (auto intro: nth_equalityI)
  moreover have "list_all2 in_rows (lines_of s) ?new" by (simp add: list_all2_conv_all_nth wrap_rows)
  ultimately show ?thesis using held joined_lines [of s] unfolding d_def by (intro exI [of _ "lines_of s"] exI [of _ ?new]) auto
qed

lemma log_keeps_the_last_lines_witness:
  "\<exists>ls new. CHR ''a'' # newline # ''b'' = joined ls \<and> list_all2 in_rows ls new \<and>
     log_holds (concat new) (log_add (CHR ''a'' # newline # ''b'') (fresh_shell [] () :: (unit, bool, unit) shell))"
proof -
  have "log_holds [] (fresh_shell [] () :: (unit, bool, unit) shell)" by (simp add: log_holds_def fresh_shell_def)
  from log_keeps_the_last_lines [OF this, of "CHR ''a'' # newline # ''b''"] show ?thesis by auto
qed

end
