(* ===== verification/Lcd.thy ===== *)
theory Lcd
  imports Keypad "HOL-Library.Word"
begin

text \<open>
  The two panels of the ESP32: the Sharp memory LCD over SPI (\<^verbatim>\<open>esp32/main/sharp_lcd.c\<close>)
  and the display QEMU has in its place (\<^verbatim>\<open>esp32/main/qemu_lcd.c\<close>).

  A frame is its grey levels row after row. What a driver sends is the list of its SPI transfers, or
  the registers and video memory it leaves; what the hardware makes of them, as the drivers' comments
  have it, is the specification the drivers are proved against: the glass of the one and the window of the other.
\<close>

unbundle bit_operations_syntax

section \<open>A frame as lines of bits\<close>

definition SCREEN_W :: nat where "SCREEN_W = nat QDOS_SCREEN_W"
definition SCREEN_H :: nat where "SCREEN_H = nat QDOS_SCREEN_H"
definition LINE_BYTES :: nat where "LINE_BYTES = SCREEN_W div 8"
definition INK_BELOW :: "8 word" where "INK_BELOW = 128"

definition is_ink :: "8 word list \<Rightarrow> nat \<Rightarrow> nat \<Rightarrow> bool" where
  "is_ink gray y x \<longleftrightarrow> gray ! (y * SCREEN_W + x) < INK_BELOW"

definition ink_bit :: "8 word \<Rightarrow> nat \<Rightarrow> 8 word" where
  "ink_bit b k = b OR push_bit k 1"

definition paper_bit :: "8 word \<Rightarrow> nat \<Rightarrow> 8 word" where
  "paper_bit b k = b AND NOT (push_bit k 1)"

text \<open>The loop over a row: the bit of every ink pixel, set or cleared as \<open>f\<close> does.\<close>

definition mark_ink :: "(8 word \<Rightarrow> nat \<Rightarrow> 8 word) \<Rightarrow> 8 word list \<Rightarrow> nat \<Rightarrow> 8 word list \<Rightarrow> nat \<Rightarrow> 8 word list" where
  "mark_ink f gray y line x = (if is_ink gray y x then line[x div 8 := f (line ! (x div 8)) (x mod 8)] else line)"

lemmas screen_size = SCREEN_W_def SCREEN_H_def QDOS_SCREEN_W_def QDOS_SCREEN_H_def

lemma LINE_BYTES: "LINE_BYTES = 50"
  by (simp add: LINE_BYTES_def screen_size)

lemma length_mark: "length (foldl (mark_ink f gray y) line xs) = length line"
  by (induction xs arbitrary: line) (simp_all add: mark_ink_def)

lemma foldl_upto_Suc: "foldl f a [0..<Suc n] = f (foldl f a [0..<n]) n"
  by simp

lemma mark_bits:
  assumes "\<And>b j k. j < 8 \<Longrightarrow> k < 8 \<Longrightarrow> bit (f b k) j = (if j = k then v else bit b j)"
    and "length line = LINE_BYTES" and "n \<le> SCREEN_W" and "x < SCREEN_W"
  shows "bit (foldl (mark_ink f gray y) line [0..<n] ! (x div 8)) (x mod 8) =
    (if x < n \<and> is_ink gray y x then v else bit (line ! (x div 8)) (x mod 8))"
  using assms(3)
proof (induction n)
  case (Suc n)
  let ?l = "foldl (mark_ink f gray y) line [0..<n]"
  have IH: "bit (?l ! (x div 8)) (x mod 8) = (if x < n \<and> is_ink gray y x then v else bit (line ! (x div 8)) (x mod 8))"
    using Suc by simp
  have lens: "n div 8 < length ?l" "x div 8 < length ?l"
    using Suc.prems assms(2,4) by (auto simp: length_mark LINE_BYTES screen_size)
  have put: "bit (?l[n div 8 := f (?l ! (n div 8)) (n mod 8)] ! (x div 8)) (x mod 8) =
      (if x = n then v else bit (?l ! (x div 8)) (x mod 8))"
  proof (cases "x div 8 = n div 8")
    case True
    then have "x mod 8 = n mod 8 \<longleftrightarrow> x = n" by (metis mod_mult_div_eq)
    then show ?thesis using True lens assms(1) [of "x mod 8" "n mod 8"] by simp
  next
    case False
    then show ?thesis by auto
  qed
  show ?case
    unfolding foldl_upto_Suc mark_ink_def [of f gray y ?l n] using put IH by auto
qed simp

lemma ink_bit_bits: "j < 8 \<Longrightarrow> k < 8 \<Longrightarrow> bit (ink_bit b k) j = (if j = k then True else bit b j)"
  by (auto simp: ink_bit_def bit_or_iff bit_push_bit_iff bit_exp_iff)

lemma paper_bit_bits: "j < 8 \<Longrightarrow> k < 8 \<Longrightarrow> bit (paper_bit b k) j = (if j = k then False else bit b j)"
  by (auto simp: paper_bit_def bit_and_iff bit_not_iff bit_push_bit_iff bit_exp_iff)

section \<open>The Sharp panel\<close>

definition LINE_FRAME :: nat where "LINE_FRAME = 1 + LINE_BYTES + 1"
definition TX_MAX :: nat where "TX_MAX = 1 + SCREEN_H * LINE_FRAME + 1"
definition CMD_WRITE :: "8 word" where "CMD_WRITE = 0x01"
definition CMD_VCOM :: "8 word" where "CMD_VCOM = 0x02"
definition CMD_CLEAR :: "8 word" where "CMD_CLEAR = 0x04"

record lcd =
  lcd_shown :: "8 word list list"
  lcd_vcom :: bool

definition vcom_bit :: "lcd \<Rightarrow> 8 word" where
  "vcom_bit lcd = (if lcd_vcom lcd then CMD_VCOM else 0)"

text \<open>Each operation gives what it sends, a transfer at a time, and the driver after it.\<close>

definition vcom_tick :: "lcd \<Rightarrow> 8 word list list \<times> lcd" where
  "vcom_tick lcd = (let lcd1 = lcd\<lparr>lcd_vcom := \<not> lcd_vcom lcd\<rparr> in ([[vcom_bit lcd1, 0]], lcd1))"

definition lcd_start :: "8 word list list \<times> lcd" where
  "lcd_start = ([[CMD_CLEAR, 0]], \<lparr>lcd_shown = replicate SCREEN_H (replicate LINE_BYTES 0xFF), lcd_vcom = False\<rparr>)"

definition panel_line :: "8 word list \<Rightarrow> nat \<Rightarrow> 8 word list" where
  "panel_line gray y = foldl (mark_ink paper_bit gray y) (replicate LINE_BYTES 0xFF) [0..<SCREEN_W]"

text \<open>The loop over the rows: the lines that changed, after the bytes sent so far.\<close>

fun send_lines :: "8 word list \<Rightarrow> nat list \<Rightarrow> 8 word list \<times> 8 word list list \<Rightarrow> 8 word list \<times> 8 word list list" where
  "send_lines gray [] (tx, shown) = (tx, shown)"
| "send_lines gray (y # ys) (tx, shown) =
     (let line = panel_line gray y
      in if line = shown ! y then send_lines gray ys (tx, shown)
         else send_lines gray ys (tx @ of_nat (y + 1) # line @ [0], shown[y := line]))"

definition sharp_present :: "8 word list \<Rightarrow> lcd \<Rightarrow> 8 word list list \<times> lcd" where
  "sharp_present gray lcd =
     (let (tx, shown) = send_lines gray [0..<SCREEN_H] ([CMD_WRITE OR vcom_bit lcd], lcd_shown lcd);
          lcd1 = lcd\<lparr>lcd_shown := shown\<rparr>
      in if 1 < length tx then ([tx @ [0]], lcd1) else ([], lcd1))"

subsection \<open>The glass\<close>

text \<open>
  What the panel does with a transfer: a command byte, then lines, each its address from one, its
  bytes and a trailer, up to a trailer where an address would be. A set bit is white.
\<close>

function take_lines :: "8 word list \<Rightarrow> 8 word list list \<Rightarrow> 8 word list list" where
  "take_lines [] glass = glass"
| "take_lines (a # rest) glass =
     (if a = 0 then glass
      else take_lines (drop (LINE_BYTES + 1) rest) (glass[unat a - 1 := take LINE_BYTES rest]))"
  by pat_completeness auto
termination by (relation "measure (\<lambda>(bytes, glass). length bytes)") auto

definition glass_takes :: "8 word list list \<Rightarrow> 8 word list \<Rightarrow> 8 word list list" where
  "glass_takes glass tx =
     (let cmd = tx ! 0
      in if bit cmd 2 then replicate SCREEN_H (replicate LINE_BYTES 0xFF)
         else if bit cmd 0 then take_lines (drop 1 tx) glass
         else glass)"

definition white_at :: "8 word list list \<Rightarrow> nat \<Rightarrow> nat \<Rightarrow> bool" where
  "white_at glass y x = bit (glass ! y ! (x div 8)) (x mod 8)"

datatype lcd_event = Vcom_tick | Present "8 word list"

fun lcd_step :: "lcd_event \<Rightarrow> lcd \<Rightarrow> 8 word list list \<times> lcd" where
  "lcd_step Vcom_tick lcd = vcom_tick lcd"
| "lcd_step (Present gray) lcd = sharp_present gray lcd"

text \<open>A run of the driver: everything it sends, and what it is left as.\<close>

fun lcd_run :: "lcd_event list \<Rightarrow> 8 word list list \<times> lcd" where
  "lcd_run [] = lcd_start"
| "lcd_run (e # es) = (let (sent, lcd) = lcd_run es; (next_bytes, lcd') = lcd_step e lcd in (sent @ next_bytes, lcd'))"

subsection \<open>The glass shows the frame\<close>

declare take_lines.simps [simp del]

lemma length_panel_line [simp]: "length (panel_line gray y) = LINE_BYTES"
  by (simp add: panel_line_def length_mark)

lemma white_line: "x < SCREEN_W \<Longrightarrow> bit (replicate LINE_BYTES (0xFF :: 8 word) ! (x div 8)) (x mod 8)"
proof -
  assume x: "x < SCREEN_W"
  have "(0xFF :: 8 word) = - 1" by simp
  then show ?thesis
    using x by (simp only: nth_replicate LINE_BYTES screen_size) (simp add: bit_minus_1_iff)
qed

lemma panel_line_bits:
  "x < SCREEN_W \<Longrightarrow> bit (panel_line gray y ! (x div 8)) (x mod 8) \<longleftrightarrow> \<not> is_ink gray y x"
  using mark_bits [where f = paper_bit and v = False and line = "replicate LINE_BYTES 0xFF" and n = SCREEN_W and gray = gray and y = y]
    paper_bit_bits white_line by (simp add: panel_line_def)

text \<open>One frame of a transfer, as the panel takes it.\<close>

lemma take_frame:
  assumes "y < SCREEN_H" and "length line = LINE_BYTES"
  shows "take_lines (of_nat (y + 1) # line @ 0 # next_bytes) glass = take_lines next_bytes (glass[y := line])"
proof -
  have u: "unat (of_nat (y + 1) :: 8 word) = y + 1"
    using assms(1) by (simp only: unsigned_of_nat) (simp add: take_bit_nat_eq_self screen_size)
  then have "(of_nat (y + 1) :: 8 word) \<noteq> 0" by (metis unat_0 add_is_0 one_neq_zero)
  then show ?thesis
    unfolding take_lines.simps(2) u using assms(2) by simp
qed

lemma take_end [simp]: "take_lines [] glass = glass" "take_lines (0 # next_bytes) glass = glass"
  by (simp_all add: take_lines.simps)

lemma sent_lines:
  assumes "\<forall>y \<in> set ys. y < SCREEN_H" and "length shown = SCREEN_H"
  shows "\<exists>frames shown'. send_lines gray ys (tx, shown) = (tx @ frames, shown') \<and> length shown' = SCREEN_H \<and>
    length frames \<le> length ys * LINE_FRAME \<and> take_lines (frames @ [0]) shown = shown' \<and>
    (\<forall>y < SCREEN_H. shown' ! y = (if y \<in> set ys then panel_line gray y else shown ! y)) \<and> (frames = [] \<longrightarrow> shown' = shown)"
  using assms
proof (induction ys arbitrary: tx shown)
  case (Cons y ys)
  let ?line = "panel_line gray y"
  show ?case
  proof (cases "?line = shown ! y")
    case True
    from Cons.IH [of shown tx] Cons.prems obtain frames shown' where
      IH: "send_lines gray ys (tx, shown) = (tx @ frames, shown')" "length shown' = SCREEN_H"
      "length frames \<le> length ys * LINE_FRAME" "take_lines (frames @ [0]) shown = shown'"
      "\<forall>y < SCREEN_H. shown' ! y = (if y \<in> set ys then panel_line gray y else shown ! y)" "frames = [] \<longrightarrow> shown' = shown" by auto
    have "send_lines gray (y # ys) (tx, shown) = (tx @ frames, shown')" using True IH(1) by simp
    moreover have "length frames \<le> length (y # ys) * LINE_FRAME" using IH(3) by simp
    moreover have "\<forall>z < SCREEN_H. shown' ! z = (if z \<in> set (y # ys) then panel_line gray z else shown ! z)"
      using IH(5) True by auto
    ultimately show ?thesis using IH by blast
  next
    case False
    let ?frame = "of_nat (y + 1) # ?line @ [0]"
    from Cons.IH [of "shown[y := ?line]" "tx @ ?frame"] Cons.prems obtain frames shown' where
      IH: "send_lines gray ys (tx @ ?frame, shown[y := ?line]) = ((tx @ ?frame) @ frames, shown')" "length shown' = SCREEN_H"
      "length frames \<le> length ys * LINE_FRAME" "take_lines (frames @ [0]) (shown[y := ?line]) = shown'"
      "\<forall>z < SCREEN_H. shown' ! z = (if z \<in> set ys then panel_line gray z else shown[y := ?line] ! z)" by auto
    have y: "y < SCREEN_H" "length shown = SCREEN_H" using Cons.prems by auto
    have "send_lines gray (y # ys) (tx, shown) = (tx @ (?frame @ frames), shown')" using False IH(1) by (simp add: Let_def)
    moreover have "length (?frame @ frames) \<le> length (y # ys) * LINE_FRAME" using IH(3) by (simp add: LINE_FRAME_def)
    moreover have "take_lines ((?frame @ frames) @ [0]) shown = shown'"
      using take_frame [OF y(1), of ?line "frames @ [0]" shown] IH(4) by simp
    moreover have "\<forall>z < SCREEN_H. shown' ! z = (if z \<in> set (y # ys) then panel_line gray z else shown ! z)"
      using IH(5) y by (auto simp: nth_list_update)
    ultimately show ?thesis using IH(2) by (intro exI [of _ "?frame @ frames"] exI [of _ shown']) simp
  qed
qed auto

lemma present_on_glass:
  assumes "length (lcd_shown lcd) = SCREEN_H" and "sharp_present gray lcd = (sent, lcd')"
  shows "foldl glass_takes (lcd_shown lcd) sent = lcd_shown lcd' \<and> lcd_shown lcd' = map (panel_line gray) [0..<SCREEN_H] \<and>
    lcd_vcom lcd' = lcd_vcom lcd \<and> list_all (\<lambda>tx. length tx \<le> TX_MAX \<and> bit (tx ! 0) 1 = lcd_vcom lcd) sent"
proof -
  let ?cmd = "CMD_WRITE OR vcom_bit lcd"
  have cmd: "bit ?cmd 0" "\<not> bit ?cmd 2" "bit ?cmd 1 \<longleftrightarrow> lcd_vcom lcd" by (simp_all add: CMD_WRITE_def vcom_bit_def CMD_VCOM_def)
  from sent_lines [of "[0..<SCREEN_H]" "lcd_shown lcd" gray "[?cmd]"] assms(1) obtain frames shown' where
    f: "send_lines gray [0..<SCREEN_H] ([?cmd], lcd_shown lcd) = ([?cmd] @ frames, shown')" "length shown' = SCREEN_H"
    "length frames \<le> SCREEN_H * LINE_FRAME" "take_lines (frames @ [0]) (lcd_shown lcd) = shown'"
    "\<forall>y < SCREEN_H. shown' ! y = panel_line gray y" "frames = [] \<longrightarrow> shown' = lcd_shown lcd" by auto
  have all: "shown' = map (panel_line gray) [0..<SCREEN_H]" using f(2,5) by (intro nth_equalityI) auto
  show ?thesis
  proof (cases "frames = []")
    case True
    then show ?thesis using assms(2) f all by (auto simp: sharp_present_def)
  next
    case False
    then have e: "sent = [?cmd # frames @ [0]]" "lcd' = lcd\<lparr>lcd_shown := shown'\<rparr>"
      using assms(2) f(1) by (auto simp: sharp_present_def split: if_splits)
    then show ?thesis using f(3,4) cmd all by (simp add: glass_takes_def TX_MAX_def)
  qed
qed

definition last_frame :: "lcd_event list \<Rightarrow> 8 word list option" where
  "last_frame es = (case filter (\<lambda>e. e \<noteq> Vcom_tick) es of Present gray # _ \<Rightarrow> Some gray | _ \<Rightarrow> None)"

lemma run_on_glass:
  assumes "lcd_run es = (sent, lcd)"
  shows "foldl glass_takes glass sent = lcd_shown lcd \<and>
    lcd_shown lcd = (case last_frame es of Some gray \<Rightarrow> map (panel_line gray) [0..<SCREEN_H]
      | None \<Rightarrow> replicate SCREEN_H (replicate LINE_BYTES 0xFF)) \<and> list_all (\<lambda>tx. length tx \<le> TX_MAX) sent"
  using assms
proof (induction es arbitrary: sent lcd)
  case Nil
  then show ?case by (auto simp: lcd_start_def glass_takes_def CMD_CLEAR_def last_frame_def TX_MAX_def)
next
  case (Cons e es)
  obtain sent1 lcd1 next_bytes where r: "lcd_run es = (sent1, lcd1)" "lcd_step e lcd1 = (next_bytes, lcd)" "sent = sent1 @ next_bytes"
    using Cons.prems by (auto split: prod.splits)
  note IH = Cons.IH [OF r(1)]
  show ?case
  proof (cases e)
    case Vcom_tick
    then have "next_bytes = [[vcom_bit lcd, 0]]" "lcd_shown lcd = lcd_shown lcd1" using r(2) by (auto simp: vcom_tick_def Let_def)
    moreover have "\<not> bit (vcom_bit lcd) 2" "\<not> bit (vcom_bit lcd) 0" by (simp_all add: vcom_bit_def CMD_VCOM_def)
    ultimately show ?thesis using IH r(3) Vcom_tick by (simp add: glass_takes_def last_frame_def TX_MAX_def)
  next
    case (Present gray)
    have "length (lcd_shown lcd1) = SCREEN_H" using IH by (auto split: option.splits)
    from present_on_glass [OF this, of gray next_bytes lcd] show ?thesis
      using IH r Present by (auto simp: last_frame_def list_all_iff)
  qed
qed

text \<open>
  C29. The glass shows the last frame, whatever was on it when the machine started and however the
  frames and the ticks of the timer fell: every pixel is white exactly where the frame is not ink (or
  where there has been no frame), although only the lines that changed were sent. No transfer is longer
  than the buffer it is built in, and the driver's VCOM bit has changed once for every tick.
\<close>

theorem glass_shows_the_last_frame:
  assumes "lcd_run es = (sent, lcd)" and "y < SCREEN_H" and "x < SCREEN_W"
  shows "white_at (foldl glass_takes glass sent) y x =
      (case last_frame es of None \<Rightarrow> True | Some gray \<Rightarrow> \<not> is_ink gray y x) \<and>
    list_all (\<lambda>tx. length tx \<le> TX_MAX) sent \<and> lcd_vcom lcd = odd (length (filter (\<lambda>e. e = Vcom_tick) es))"
proof -
  have "lcd_vcom lcd = odd (length (filter (\<lambda>e. e = Vcom_tick) es))"
    using assms(1)
  proof (induction es arbitrary: sent lcd)
    case (Cons e es)
    then show ?case
      by (cases e) (auto simp: vcom_tick_def sharp_present_def Let_def split: prod.splits if_splits)
  qed (auto simp: lcd_start_def)
  moreover have "white_at (replicate SCREEN_H (replicate LINE_BYTES 0xFF)) y x"
    using white_line [OF assms(3)] assms(2) by (simp add: white_at_def)
  ultimately show ?thesis
    using run_on_glass [OF assms(1), of glass] assms(2,3) panel_line_bits [of x _ y]
    by (auto simp: white_at_def split: option.splits)
qed

lemma glass_shows_the_last_frame_witness:
  "\<not> white_at (foldl glass_takes [] (fst (lcd_run [Vcom_tick, Present (replicate 96000 0)]))) 3 7"
proof -
  obtain sent lcd where r: "lcd_run [Vcom_tick, Present (replicate 96000 0)] = (sent, lcd)" by (cases "lcd_run [Vcom_tick, Present (replicate 96000 0)]")
  have "is_ink (replicate 96000 0) 3 7" by (simp add: is_ink_def screen_size INK_BELOW_def)
  with glass_shows_the_last_frame [OF r, of 3 7 "[]"] show ?thesis by (simp add: r last_frame_def screen_size del: lcd_run.simps)
qed

section \<open>The panel under QEMU\<close>

definition SCALE :: nat where "SCALE = 2"
definition WIN_W :: nat where "WIN_W = SCREEN_W * SCALE"
definition INK :: "32 word" where "INK = 0x1A1C1A"
definition PAPER :: "32 word" where "PAPER = 0xC9CEC6"

text \<open>The driver's state, and the registers and memory of the device.\<close>

record qemu =
  qm_shown :: "8 word list list"
  qm_lo :: int
  qm_hi :: int
  qm_whole :: bool
  rg_from :: "32 word"
  rg_to :: "32 word"
  rg_busy :: bool
  qm_vram :: "32 word list list"

definition qemu_line :: "8 word list \<Rightarrow> nat \<Rightarrow> 8 word list" where
  "qemu_line gray y = foldl (mark_ink ink_bit gray y) (replicate LINE_BYTES 0) [0..<SCREEN_W]"

fun changed_rows :: "8 word list \<Rightarrow> nat list \<Rightarrow> int \<times> int \<times> 8 word list list \<Rightarrow> int \<times> int \<times> 8 word list list" where
  "changed_rows gray [] (lo, hi, shown) = (lo, hi, shown)"
| "changed_rows gray (y # ys) (lo, hi, shown) =
     (let line = qemu_line gray y
      in if line \<noteq> shown ! y
         then changed_rows gray ys (if int y < lo then int y else lo, if hi < int y then int y else hi, shown[y := line])
         else changed_rows gray ys (lo, hi, shown))"

text \<open>A row of the window, each panel pixel \<open>SCALE\<close> wide.\<close>

definition vram_row :: "8 word list \<Rightarrow> 32 word list" where
  "vram_row line = concat (map (\<lambda>x. replicate SCALE (if bit (line ! (x div 8)) (x mod 8) then INK else PAPER)) [0..<SCREEN_W])"

fun draw_rows :: "8 word list list \<Rightarrow> nat \<Rightarrow> nat list \<Rightarrow> 32 word list list \<Rightarrow> 32 word list list" where
  "draw_rows shown lo [] vram = vram"
| "draw_rows shown lo (y # ys) vram =
     draw_rows shown lo ys
       (foldl (\<lambda>v s. v[(y - lo) * SCALE + s := vram_row (shown ! y)]) vram [0..<SCALE])"

text \<open>The update up to the registers, and whether there is one; then the registers.\<close>

definition qemu_draw :: "8 word list \<Rightarrow> qemu \<Rightarrow> bool \<times> qemu" where
  "qemu_draw gray q =
     (let (lo, hi) = (if \<not> rg_busy q then (int SCREEN_H, -1) else (qm_lo q, qm_hi q));
          (lo, hi) = (if qm_whole q then (0, int SCREEN_H - 1) else (lo, hi));
          (lo, hi, shown) = changed_rows gray [0..<SCREEN_H] (lo, hi, qm_shown q);
          q1 = q\<lparr>qm_lo := lo, qm_hi := hi, qm_whole := False, qm_shown := shown\<rparr>
      in if hi < lo then (False, q1)
         else (True, q1\<lparr>qm_vram := draw_rows shown (nat lo) [nat lo..<nat hi + 1] (qm_vram q)\<rparr>))"

definition qemu_ask :: "qemu \<Rightarrow> qemu" where
  "qemu_ask q =
     q\<lparr>rg_from := of_int (qm_lo q * int SCALE),
       rg_to := push_bit 16 (of_nat WIN_W) OR of_int ((qm_hi q + 1) * int SCALE), rg_busy := True\<rparr>"

definition qemu_present :: "8 word list \<Rightarrow> qemu \<Rightarrow> qemu" where
  "qemu_present gray q = (case qemu_draw gray q of (True, q1) \<Rightarrow> qemu_ask q1 | (False, q1) \<Rightarrow> q1)"

definition qemu_start :: qemu where
  "qemu_start =
     \<lparr>qm_shown = replicate SCREEN_H (replicate LINE_BYTES 0), qm_lo = int SCREEN_H, qm_hi = -1, qm_whole = True,
      rg_from = 0, rg_to = 0, rg_busy = False, qm_vram = replicate (SCREEN_H * SCALE) (replicate WIN_W 0)\<rparr>"

subsection \<open>The window\<close>

text \<open>
  What QEMU does when it refreshes the window: it copies the rectangle the registers give, the pixels
  packed row after row, and is no longer busy. It may do that at any moment, also while the driver is
  writing the next update; what it then copies is anything at all, but only within the rows the driver
  is about to ask for.
\<close>

type_synonym window = "nat \<Rightarrow> nat \<Rightarrow> 32 word"

definition window_takes :: "qemu \<Rightarrow> window \<Rightarrow> window" where
  "window_takes q win y x =
     (let x0 = unat (drop_bit 16 (rg_from q)); y0 = unat (take_bit 16 (rg_from q));
          x1 = unat (drop_bit 16 (rg_to q)); y1 = unat (take_bit 16 (rg_to q))
      in if x0 \<le> x \<and> x < x1 \<and> y0 \<le> y \<and> y < y1 then qm_vram q ! (y - y0) ! (x - x0) else win y x)"

definition pending :: "qemu \<Rightarrow> nat \<Rightarrow> bool" where
  "pending q y \<longleftrightarrow> qm_lo q \<le> int (y div SCALE) \<and> int (y div SCALE) \<le> qm_hi q"

datatype phase = Waiting | Drawing

inductive window_run :: "phase \<Rightarrow> qemu \<Rightarrow> window \<Rightarrow> bool" where
  start: "window_run Waiting qemu_start win"
| nothing: "window_run Waiting q win \<Longrightarrow> qemu_draw gray q = (False, q') \<Longrightarrow> window_run Waiting q' win"
| draw: "window_run Waiting q win \<Longrightarrow> qemu_draw gray q = (True, q') \<Longrightarrow> window_run Drawing q' win"
| ask: "window_run Drawing q win \<Longrightarrow> window_run Waiting (qemu_ask q) win"
| refresh: "window_run Waiting q win \<Longrightarrow> rg_busy q \<Longrightarrow> window_run Waiting (q\<lparr>rg_busy := False\<rparr>) (window_takes q win)"
| torn: "window_run Drawing q win \<Longrightarrow> (\<And>y x. \<not> pending q y \<Longrightarrow> win' y x = win y x) \<Longrightarrow>
    window_run Drawing (q\<lparr>rg_busy := False\<rparr>) win'"

lemma qemu_line_bits:
  "x < SCREEN_W \<Longrightarrow> bit (qemu_line gray y ! (x div 8)) (x mod 8) \<longleftrightarrow> is_ink gray y x"
  using mark_bits [where f = ink_bit and v = True and line = "replicate LINE_BYTES 0" and n = SCREEN_W and gray = gray and y = y]
    ink_bit_bits by (simp add: qemu_line_def LINE_BYTES screen_size)

lemma twice: "concat (map (\<lambda>x. replicate SCALE (f x)) [0..<n]) = map (\<lambda>i. f (i div SCALE)) [0..<n * SCALE]"
proof -
  have "replicate SCALE a = [a, a]" for a :: 'a by (simp add: SCALE_def numeral_2_eq_2)
  then show ?thesis by (induction n) (simp_all add: SCALE_def)
qed

lemma vram_row_nth: "x < WIN_W \<Longrightarrow>
    vram_row line ! x = (if bit (line ! (x div SCALE div 8)) (x div SCALE mod 8) then INK else PAPER)"
  by (simp add: vram_row_def twice WIN_W_def)

lemma changed_rows_spec:
  assumes "\<forall>y \<in> set ys. y < SCREEN_H" and "length shown = SCREEN_H" and "0 \<le> lo" and "hi < int SCREEN_H"
    and "changed_rows gray ys (lo, hi, shown) = (lo', hi', shown')"
  shows "length shown' = SCREEN_H \<and> 0 \<le> lo' \<and> lo' \<le> lo \<and> hi \<le> hi' \<and> hi' < int SCREEN_H \<and>
    (\<forall>y < SCREEN_H. shown' ! y = (if y \<in> set ys then qemu_line gray y else shown ! y)) \<and>
    (\<forall>y < SCREEN_H. shown' ! y \<noteq> shown ! y \<longrightarrow> lo' \<le> int y \<and> int y \<le> hi')"
  using assms
proof (induction ys arbitrary: lo hi shown)
  case (Cons y ys)
  let ?l = "qemu_line gray y"
  have y: "y < SCREEN_H" using Cons.prems by simp
  show ?case
  proof (cases "?l = shown ! y")
    case True
    then have "changed_rows gray ys (lo, hi, shown) = (lo', hi', shown')" using Cons.prems(5) by simp
    from Cons.IH [OF _ Cons.prems(2-4) this] Cons.prems(1) True show ?thesis by auto
  next
    case False
    let ?lo = "if int y < lo then int y else lo" and ?hi = "if hi < int y then int y else hi"
    have e: "changed_rows gray ys (?lo, ?hi, shown[y := ?l]) = (lo', hi', shown')" using Cons.prems(5) False by (simp add: Let_def)
    have IH: "length shown' = SCREEN_H \<and> 0 \<le> lo' \<and> lo' \<le> ?lo \<and> ?hi \<le> hi' \<and> hi' < int SCREEN_H \<and>
      (\<forall>z < SCREEN_H. shown' ! z = (if z \<in> set ys then qemu_line gray z else shown[y := ?l] ! z)) \<and>
      (\<forall>z < SCREEN_H. shown' ! z \<noteq> shown[y := ?l] ! z \<longrightarrow> lo' \<le> int z \<and> int z \<le> hi')"
      using Cons.IH [OF _ _ _ _ e] Cons.prems y by auto
    have "lo' \<le> int y \<and> int y \<le> hi'" using IH by (auto split: if_splits)
    then have "\<forall>z < SCREEN_H. shown' ! z \<noteq> shown ! z \<longrightarrow> lo' \<le> int z \<and> int z \<le> hi'"
      using IH by (metis nth_list_update_neq)
    moreover have "\<forall>z < SCREEN_H. shown' ! z = (if z \<in> set (y # ys) then qemu_line gray z else shown ! z)"
      using IH y Cons.prems(2) by (auto simp: nth_list_update)
    moreover have "lo' \<le> lo" "hi \<le> hi'" using IH by (auto split: if_splits)
    ultimately show ?thesis using IH by blast
  qed
qed auto

lemma draw_rows_spec:
  assumes "\<forall>y \<in> set ys. lo \<le> y"
  shows "length (draw_rows shown lo ys vram) = length vram \<and> (\<forall>j < length vram. draw_rows shown lo ys vram ! j =
    (if lo + j div SCALE \<in> set ys then vram_row (shown ! (lo + j div SCALE)) else vram ! j))"
  using assms
proof (induction ys arbitrary: vram)
  case (Cons y ys)
  let ?v = "vram[(y - lo) * 2 := vram_row (shown ! y), Suc ((y - lo) * 2) := vram_row (shown ! y)]"
  have "foldl (\<lambda>v s. v[(y - lo) * SCALE + s := vram_row (shown ! y)]) vram [0..<SCALE] = ?v"
    by (simp add: SCALE_def numeral_2_eq_2)
  then have e: "draw_rows shown lo (y # ys) vram = draw_rows shown lo ys ?v" by simp
  have "?v ! j = (if lo + j div 2 = y then vram_row (shown ! y) else vram ! j)" if "j < length vram" for j
  proof (cases "lo + j div 2 = y")
    case True
    then have "j = (y - lo) * 2 \<or> j = Suc ((y - lo) * 2)" by auto
    then show ?thesis using True that by (auto simp: nth_list_update)
  next
    case False
    then have "j \<noteq> (y - lo) * 2 \<and> j \<noteq> Suc ((y - lo) * 2)" using Cons.prems by auto
    then show ?thesis using False by simp
  qed
  then show ?case unfolding e using Cons.IH [of ?v] Cons.prems by (auto simp: SCALE_def)
qed simp

text \<open>What a row of the window should be: that of the line the driver believes shown.\<close>

definition shows_row :: "qemu \<Rightarrow> window \<Rightarrow> nat \<Rightarrow> bool" where
  "shows_row q win y \<longleftrightarrow> (\<forall>x < WIN_W. win y x = vram_row (qm_shown q ! (y div SCALE)) ! x)"

definition update_ok :: "qemu \<Rightarrow> bool" where
  "update_ok q \<longleftrightarrow> 0 \<le> qm_lo q \<and> qm_lo q \<le> qm_hi q \<and> qm_hi q < int SCREEN_H \<and>
     (\<forall>j. int (j div SCALE) \<le> qm_hi q - qm_lo q \<longrightarrow> qm_vram q ! j = vram_row (qm_shown q ! (nat (qm_lo q) + j div SCALE)))"

definition driver_ok :: "qemu \<Rightarrow> bool" where
  "driver_ok q \<longleftrightarrow> length (qm_shown q) = SCREEN_H \<and> length (qm_vram q) = SCREEN_H * SCALE"

fun window_ok :: "phase \<Rightarrow> qemu \<Rightarrow> window \<Rightarrow> bool" where
  "window_ok Waiting q win \<longleftrightarrow> driver_ok q \<and>
     (if qm_whole q then \<not> rg_busy q
      else if rg_busy q then update_ok q \<and> (\<exists>q0. q = qemu_ask q0) \<and> (\<forall>y < SCREEN_H * SCALE. pending q y \<or> shows_row q win y)
      else \<forall>y < SCREEN_H * SCALE. shows_row q win y)"
| "window_ok Drawing q win \<longleftrightarrow> driver_ok q \<and> \<not> qm_whole q \<and> update_ok q \<and>
     (\<forall>y < SCREEN_H * SCALE. pending q y \<or> shows_row q win y)"

lemma draw_ok:
  assumes "window_ok Waiting q win" and "qemu_draw gray q = (ask, q')"
  shows "(\<forall>y < SCREEN_H. qm_shown q' ! y = qemu_line gray y) \<and> window_ok (if ask then Drawing else Waiting) q' win \<and>
    (ask \<or> \<not> rg_busy q' \<and> \<not> qm_whole q')"
proof -
  define lo0 hi0 where "lo0 = (if qm_whole q then 0 else if rg_busy q then qm_lo q else int SCREEN_H)"
    and "hi0 = (if qm_whole q then int SCREEN_H - 1 else if rg_busy q then qm_hi q else -1)"
  obtain lo hi shown where c: "changed_rows gray [0..<SCREEN_H] (lo0, hi0, qm_shown q) = (lo, hi, shown)"
    by (cases "changed_rows gray [0..<SCREEN_H] (lo0, hi0, qm_shown q)") auto
  have d: "driver_ok q" using assms(1) by simp
  have H: "SCREEN_H = 240" by (simp add: screen_size)
  have b: "0 \<le> lo0" "hi0 < int SCREEN_H"
    using assms(1) by (auto simp: lo0_def hi0_def update_ok_def H)
  from changed_rows_spec [OF _ _ b c] d have s: "length shown = SCREEN_H" "0 \<le> lo" "lo \<le> lo0" "hi0 \<le> hi" "hi < int SCREEN_H"
    "\<forall>y < SCREEN_H. shown ! y = qemu_line gray y" "\<forall>y < SCREEN_H. shown ! y \<noteq> qm_shown q ! y \<longrightarrow> lo \<le> int y \<and> int y \<le> hi"
    by (auto simp: driver_ok_def)
  let ?q1 = "q\<lparr>qm_lo := lo, qm_hi := hi, qm_whole := False, qm_shown := shown\<rparr>"
  have q': "(ask, q') = (if hi < lo then (False, ?q1) else (True, ?q1\<lparr>qm_vram := draw_rows shown (nat lo) [nat lo..<nat hi + 1] (qm_vram q)\<rparr>))"
    using assms(2) c by (auto simp: qemu_draw_def lo0_def hi0_def split: if_splits)
  have others: "pending q' y \<or> shows_row q' win y" if "y < SCREEN_H * SCALE" for y
  proof (cases "pending q' y")
    case False
    have y: "y div SCALE < SCREEN_H" using that by (simp add: SCALE_def less_mult_imp_div_less)
    have out: "\<not> (lo \<le> int (y div SCALE) \<and> int (y div SCALE) \<le> hi)" using False q' by (auto simp: pending_def split: if_splits)
    have "\<not> qm_whole q" using out s(2-5) y b H by (auto simp: lo0_def hi0_def)
    moreover have "\<not> (rg_busy q \<and> pending q y)" using out s(3,4) \<open>\<not> qm_whole q\<close> by (auto simp: pending_def lo0_def hi0_def)
    ultimately have "shows_row q win y" using assms(1) that by (auto split: if_splits)
    moreover have "shown ! (y div SCALE) = qm_shown q ! (y div SCALE)" using s(7) y out by blast
    ultimately show ?thesis using q' by (auto simp: shows_row_def split: if_splits)
  qed simp
  show ?thesis
  proof (cases "hi < lo")
    case True
    then have e: "ask = False" "q' = ?q1" using q' by auto
    have n: "\<not> qm_whole q" "\<not> rg_busy q" using True s(3,4) assms(1) H by (auto simp: lo0_def hi0_def update_ok_def split: if_splits)
    have "\<not> pending q' y" for y using True e by (auto simp: pending_def)
    then show ?thesis using e others s n d by (auto simp: driver_ok_def)
  next
    case False
    define ys where "ys = [nat lo..<nat hi + 1]"
    let ?v = "draw_rows shown (nat lo) ys (qm_vram q)"
    have e: "ask = True" "q' = ?q1\<lparr>qm_vram := ?v\<rparr>" using q' False by (auto simp: ys_def)
    have v: "length ?v = SCREEN_H * SCALE" "\<And>j. j < SCREEN_H * SCALE \<Longrightarrow> ?v ! j =
        (if nat lo + j div SCALE \<in> set ys then vram_row (shown ! (nat lo + j div SCALE)) else qm_vram q ! j)"
      using draw_rows_spec [of ys "nat lo" shown "qm_vram q"] d by (auto simp: driver_ok_def ys_def simp del: upt_Suc)
    have "?v ! j = vram_row (shown ! (nat lo + j div SCALE))" if "int (j div SCALE) \<le> hi - lo" for j
    proof -
      have "j div SCALE < SCREEN_H" using that s(2,5) by auto
      then have "j < SCREEN_H * SCALE" by (simp add: SCALE_def H)
      moreover have "nat lo + j div SCALE \<in> set ys" using that s(2) False by (auto simp: ys_def)
      ultimately show ?thesis using v(2) by simp
    qed
    then have "update_ok q'" using e False s by (simp add: update_ok_def)
    then show ?thesis using e others s v by (simp add: driver_ok_def)
  qed
qed

text \<open>The rectangle the registers give.\<close>

lemma registers:
  assumes "update_ok q"
  shows "unat (drop_bit 16 (rg_from (qemu_ask q))) = 0" "unat (take_bit 16 (rg_from (qemu_ask q))) = nat (qm_lo q) * SCALE"
    "unat (drop_bit 16 (rg_to (qemu_ask q))) = WIN_W" "unat (take_bit 16 (rg_to (qemu_ask q))) = nat (qm_hi q + 1) * SCALE"
proof -
  define n m where "n = nat (qm_lo q) * 2" and "m = nat (qm_hi q + 1) * 2"
  have b: "n < 512" "m < 512" using assms by (auto simp: update_ok_def n_def m_def screen_size)
  have f: "rg_from (qemu_ask q) = of_nat n" "rg_to (qemu_ask q) = push_bit 16 800 OR of_nat m"
  proof -
    have "qm_lo q * int SCALE = int n" "(qm_hi q + 1) * int SCALE = int m"
      using assms by (simp_all add: n_def m_def SCALE_def update_ok_def)
    moreover have "of_nat WIN_W = (800 :: 32 word)" by (simp add: WIN_W_def SCALE_def screen_size)
    ultimately show "rg_from (qemu_ask q) = of_nat n" "rg_to (qemu_ask q) = push_bit 16 800 OR of_nat m"
      unfolding qemu_ask_def by (simp_all only: of_int_of_nat_eq) simp_all
  qed
  have u: "unat (of_nat n :: 32 word) = n" "unat (of_nat m :: 32 word) = m"
    using b by (simp_all add: unsigned_of_nat take_bit_nat_eq_self)
  have small: "take_bit 16 n = n" "take_bit 16 m = m" "drop_bit 16 n = 0" "drop_bit 16 m = 0" "take_bit 32 m = m" "take_bit 32 n = n"
    using b by (simp_all add: take_bit_nat_eq_self drop_bit_eq_div)
  have "unat (rg_to (qemu_ask q)) = push_bit 16 800 OR m" unfolding f by (simp add: unsigned_or_eq u)
  then have "unat (take_bit 16 (rg_to (qemu_ask q))) = take_bit 16 (push_bit 16 800) OR take_bit 16 m"
    "unat (drop_bit 16 (rg_to (qemu_ask q))) = drop_bit 16 (push_bit 16 800) OR drop_bit 16 m"
    using small by (simp_all add: unsigned_take_bit_eq unsigned_drop_bit_eq take_bit_or drop_bit_or)
  then show "unat (drop_bit 16 (rg_to (qemu_ask q))) = WIN_W" "unat (take_bit 16 (rg_to (qemu_ask q))) = nat (qm_hi q + 1) * SCALE"
    using small by (simp_all add: WIN_W_def SCALE_def screen_size m_def drop_bit_eq_div push_bit_eq_mult take_bit_eq_mod)
  show "unat (drop_bit 16 (rg_from (qemu_ask q))) = 0" "unat (take_bit 16 (rg_from (qemu_ask q))) = nat (qm_lo q) * SCALE"
    unfolding f(1) using small u(1) by (simp_all add: unsigned_take_bit_eq unsigned_drop_bit_eq n_def SCALE_def)
qed

lemma takes_update:
  assumes "update_ok q" and "\<forall>y < SCREEN_H * SCALE. pending q y \<or> shows_row q win y" and "y < SCREEN_H * SCALE"
  shows "shows_row q (window_takes (qemu_ask q) win) y"
proof -
  have r: "window_takes (qemu_ask q) win y x =
      (if x < WIN_W \<and> nat (qm_lo q) * SCALE \<le> y \<and> y < nat (qm_hi q + 1) * SCALE then qm_vram q ! (y - nat (qm_lo q) * SCALE) ! x else win y x)" for x
    unfolding window_takes_def Let_def registers [OF assms(1)] by (simp add: qemu_ask_def)
  have p: "pending q y \<longleftrightarrow> nat (qm_lo q) * SCALE \<le> y \<and> y < nat (qm_hi q + 1) * SCALE"
    using assms(1) by (auto simp: pending_def update_ok_def SCALE_def)
  show ?thesis
  proof (cases "pending q y")
    case True
    then have le: "nat (qm_lo q) * SCALE \<le> y" using p by simp
    have j: "(y - nat (qm_lo q) * SCALE) div SCALE = y div SCALE - nat (qm_lo q)" by (simp add: SCALE_def)
    then have "int ((y - nat (qm_lo q) * SCALE) div SCALE) \<le> qm_hi q - qm_lo q" "nat (qm_lo q) + (y div SCALE - nat (qm_lo q)) = y div SCALE"
      using True assms(1) by (auto simp: pending_def update_ok_def)
    then have "qm_vram q ! (y - nat (qm_lo q) * SCALE) = vram_row (qm_shown q ! (y div SCALE))"
      using assms(1) unfolding update_ok_def j [symmetric] by (metis j)
    then show ?thesis using True p by (simp add: shows_row_def r)
  next
    case False
    then show ?thesis using assms(2,3) p by (auto simp: shows_row_def r)
  qed
qed

lemma window_run_ok: "window_run ph q win \<Longrightarrow> window_ok ph q win"
proof (induction rule: window_run.induct)
  case (start win)
  then show ?case by (simp add: qemu_start_def driver_ok_def)
next
  case (nothing q win gray q')
  from draw_ok [OF nothing.IH nothing.hyps(2)] show ?case by simp
next
  case (draw q win gray q')
  from draw_ok [OF draw.IH draw.hyps(2)] show ?case by simp
next
  case (ask q win)
  have "update_ok (qemu_ask q) = update_ok q" "driver_ok (qemu_ask q) = driver_ok q" "pending (qemu_ask q) = pending q"
    "shows_row (qemu_ask q) = shows_row q" "qm_whole (qemu_ask q) = qm_whole q" "rg_busy (qemu_ask q)"
    by (auto simp: update_ok_def driver_ok_def pending_def shows_row_def qemu_ask_def fun_eq_iff)
  then show ?case using ask by auto
next
  case (refresh q win)
  then obtain q0 where q: "q = qemu_ask q0" "update_ok q" "driver_ok q" "\<not> qm_whole q"
    "\<forall>y < SCREEN_H * SCALE. pending q y \<or> shows_row q win y" by (auto split: if_splits)
  have "qemu_ask q = q" using q(1) by (simp add: qemu_ask_def)
  then have "\<forall>y < SCREEN_H * SCALE. shows_row q (window_takes q win) y" using takes_update [OF q(2,5)] by simp
  then show ?case using q by (simp add: shows_row_def driver_ok_def)
next
  case (torn q win win')
  have "pending (q\<lparr>rg_busy := False\<rparr>) = pending q" "update_ok (q\<lparr>rg_busy := False\<rparr>) = update_ok q"
    "driver_ok (q\<lparr>rg_busy := False\<rparr>) = driver_ok q" by (auto simp: pending_def update_ok_def driver_ok_def)
  moreover have "pending q y \<or> shows_row (q\<lparr>rg_busy := False\<rparr>) win' y" if "y < SCREEN_H * SCALE" for y
    using torn.IH torn.hyps(2) [of y] that by (cases "pending q y") (auto simp: shows_row_def)
  ultimately show ?case using torn.IH by simp
qed

text \<open>
  C30. Under QEMU the window catches up with the panel. Whatever was drawn before, whenever QEMU took
  those updates and however it tore them, once it has taken what the driver asked for after a frame
  every pixel of the window is the frame's, twice as wide and twice as high.
\<close>

theorem window_catches_up:
  assumes "window_run Waiting q win" and "q' = qemu_present gray q" and "y < SCREEN_H * SCALE" and "x < WIN_W"
  shows "(if rg_busy q' then window_takes q' win else win) y x =
    (if is_ink gray (y div SCALE) (x div SCALE) then INK else PAPER)"
proof -
  obtain ask q1 where d: "qemu_draw gray q = (ask, q1)" by (cases "qemu_draw gray q")
  from draw_ok [OF window_run_ok [OF assms(1)] d] have s: "\<forall>y < SCREEN_H. qm_shown q1 ! y = qemu_line gray y"
    and ok: "window_ok (if ask then Drawing else Waiting) q1 win" "ask \<or> \<not> rg_busy q1 \<and> \<not> qm_whole q1" by auto
  have "shows_row q1 (if rg_busy q' then window_takes q' win else win) y"
  proof (cases ask)
    case True
    then have "q' = qemu_ask q1" using assms(2) d by (simp add: qemu_present_def)
    then show ?thesis using True ok takes_update [of q1 win y] assms(3) by (simp add: qemu_ask_def)
  next
    case False
    then have q': "q' = q1" using assms(2) d by (simp add: qemu_present_def)
    then show ?thesis using False ok q' assms(3) by simp
  qed
  then show ?thesis
    using assms(3,4) s qemu_line_bits [of "x div SCALE" gray "y div SCALE"]
    by (simp add: shows_row_def vram_row_nth WIN_W_def SCALE_def less_mult_imp_div_less)
qed

lemma window_catches_up_witness:
  "window_takes (qemu_present (replicate 96000 0) qemu_start) (\<lambda>_ _. 0) 5 9 = INK"
proof -
  let ?q = "qemu_present (replicate 96000 0) qemu_start"
  obtain lo hi shown where c: "changed_rows (replicate 96000 0) [0..<SCREEN_H] (0, int SCREEN_H - 1, qm_shown qemu_start) = (lo, hi, shown)"
    by (cases "changed_rows (replicate 96000 0) [0..<SCREEN_H] (0, int SCREEN_H - 1, qm_shown qemu_start)") auto
  from changed_rows_spec [OF _ _ _ _ c] have "lo \<le> 0" "int SCREEN_H - 1 \<le> hi" by (auto simp: qemu_start_def)
  then have "rg_busy ?q" using c by (simp add: qemu_present_def qemu_draw_def qemu_start_def qemu_ask_def screen_size)
  moreover have "is_ink (replicate 96000 0) 2 4" by (simp add: is_ink_def screen_size INK_BELOW_def)
  ultimately show ?thesis
    using window_catches_up [OF window_run.start refl, of 5 9 "replicate 96000 0" "\<lambda>_ _. 0"]
    by (simp add: SCALE_def WIN_W_def screen_size)
qed

end
