(* ===== verification/Framebuffer.thy ===== *)
theory Framebuffer
  imports Keypad "HOL-Library.Word"
begin

text \<open>
  The panel's image in a Linux framebuffer (\<^verbatim>\<open>src/hal/device/framebuffer.c\<close>): which
  framebuffers are served, the two pixel formats, and the copy into the middle of the screen. The
  mapped memory is the list of its bytes.
\<close>

unbundle bit_operations_syntax

record qdos_fb_info =
  fb_width :: "32 word"
  fb_height :: "32 word"
  fb_pitch :: "32 word"
  fb_bpp :: "32 word"

definition qdos_fb_gray_to_rgb565 :: "8 word \<Rightarrow> 16 word" where
  "qdos_fb_gray_to_rgb565 gray =
     (let r = ucast (drop_bit 3 (gray AND 0xF8));
          g = ucast (drop_bit 2 (gray AND 0xFC));
          b = ucast (drop_bit 3 gray)
      in push_bit 11 r OR push_bit 5 g OR b)"

definition qdos_fb_supported :: "qdos_fb_info \<Rightarrow> bool" where
  "qdos_fb_supported info =
     (if fb_width info = 0 \<or> fb_height info = 0 then False
      else if fb_bpp info \<noteq> 16 \<and> fb_bpp info \<noteq> 32 then False
      else fb_width info * (fb_bpp info div 8) \<le> fb_pitch info)"

text \<open>The bytes of a pixel, and the two loops that lay them out.\<close>

definition pixel_bytes :: "32 word \<Rightarrow> 8 word \<Rightarrow> 8 word list" where
  "pixel_bytes bpp gray =
     (if bpp = 32 then [gray, gray, gray, 0xFF]
      else let packed = qdos_fb_gray_to_rgb565 gray in [ucast (packed AND 0xFF), ucast (drop_bit 8 packed)])"

definition put_bytes :: "nat \<Rightarrow> 8 word list \<Rightarrow> 8 word list \<Rightarrow> 8 word list" where
  "put_bytes at bs dst = foldl (\<lambda>d k. d[at + k := bs ! k]) dst [0..<length bs]"

definition copy_size :: "int \<Rightarrow> 32 word \<Rightarrow> nat" where
  "copy_size screen there = (if nat screen < unat there then nat screen else unat there)"

definition blit_row :: "32 word \<Rightarrow> nat \<Rightarrow> nat \<Rightarrow> 8 word list \<Rightarrow> 8 word list \<Rightarrow> 8 word list" where
  "blit_row bpp px copy_w row dst =
     foldl (\<lambda>d x. put_bytes (px + x * (if bpp = 32 then 4 else 2)) (pixel_bytes bpp (row ! x)) d) dst [0..<copy_w]"

definition qdos_fb_blit :: "qdos_fb_info \<Rightarrow> 8 word list \<Rightarrow> 8 word list \<Rightarrow> 8 word list" where
  "qdos_fb_blit info dst src =
     (if \<not> qdos_fb_supported info then dst
      else
        let copy_w = copy_size QDOS_SCREEN_W (fb_width info);
            copy_h = copy_size QDOS_SCREEN_H (fb_height info);
            off_x = (unat (fb_width info) - copy_w) div 2;
            off_y = (unat (fb_height info) - copy_h) div 2
        in foldl (\<lambda>d y.
             let row = drop (y * nat QDOS_SCREEN_W) src;
                 line = (y + off_y) * unat (fb_pitch info)
             in blit_row (fb_bpp info) (line + off_x * (if fb_bpp info = 32 then 4 else 2)) copy_w row d)
           dst [0..<copy_h])"

section \<open>Memory painted by a rule\<close>

text \<open>\<open>d'\<close> is \<open>d\<close> with the bytes at \<open>S\<close> as \<open>F\<close> says.\<close>

definition painted :: "(nat \<Rightarrow> 'a) \<Rightarrow> nat set \<Rightarrow> 'a list \<Rightarrow> 'a list \<Rightarrow> bool" where
  "painted F S d d' \<longleftrightarrow> length d' = length d \<and> (\<forall>i < length d. d' ! i = (if i \<in> S then F i else d ! i))"

lemma painted_none: "painted F {} d d"
  by (simp add: painted_def)

lemma painted_byte: "v = F at \<Longrightarrow> painted F {at} d (d[at := v])"
  by (auto simp: painted_def nth_list_update)

lemma painted_then: "painted F S d d' \<Longrightarrow> painted F T d' d'' \<Longrightarrow> painted F (S \<union> T) d d''"
  by (auto simp: painted_def)

lemma painted_each:
  assumes "\<And>x d. x \<in> set xs \<Longrightarrow> painted F (S x) d (f d x)"
  shows "painted F (\<Union>x \<in> set xs. S x) d (foldl f d xs)"
  using assms
proof (induction xs arbitrary: d)
  case (Cons x xs)
  then have "painted F (S x \<union> (\<Union>x \<in> set xs. S x)) d (foldl f (f d x) xs)"
    by (intro painted_then [of F "S x" d "f d x"]) auto
  then show ?case by simp
qed (simp add: painted_none)

lemma painted_bytes:
  assumes "\<And>k. k < length bs \<Longrightarrow> F (at + k) = bs ! k"
  shows "painted F {at..<at + length bs} d (put_bytes at bs d)"
proof -
  have "painted F (\<Union>k \<in> set [0..<length bs]. {at + k}) d (put_bytes at bs d)"
    unfolding put_bytes_def by (rule painted_each) (auto intro: painted_byte simp: assms)
  moreover have "(\<Union>k \<in> set [0..<length bs]. {at + k}) = {at..<at + length bs}"
    by (auto simp: image_iff) (metis le_add_diff_inverse add_less_cancel_left atLeastLessThan_iff le0)
  ultimately show ?thesis by simp
qed

section \<open>The image, centred\<close>

text \<open>What every byte of the memory should be afterwards.\<close>

definition byte_at :: "qdos_fb_info \<Rightarrow> 8 word list \<Rightarrow> 8 word list \<Rightarrow> nat \<Rightarrow> 8 word" where
  "byte_at info dst src i =
     (let n = unat (fb_bpp info) div 8;
          copy_w = copy_size QDOS_SCREEN_W (fb_width info);
          copy_h = copy_size QDOS_SCREEN_H (fb_height info);
          left = (unat (fb_width info) - copy_w) div 2;
          upper = (unat (fb_height info) - copy_h) div 2;
          row = i div unat (fb_pitch info); at = i mod unat (fb_pitch info)
      in if upper \<le> row \<and> row < upper + copy_h \<and> left \<le> at div n \<and> at div n < left + copy_w
         then pixel_bytes (fb_bpp info) (src ! ((row - upper) * nat QDOS_SCREEN_W + (at div n - left))) ! (at mod n)
         else dst ! i)"

lemma pixel_address:
  fixes y x k n P left upper :: nat
  assumes "(left + x) * n + k < P" and "k < n"
  shows "((y + upper) * P + left * n + x * n + k) div P = y + upper"
    "((y + upper) * P + left * n + x * n + k) mod P div n = left + x"
    "((y + upper) * P + left * n + x * n + k) mod P mod n = k"
proof -
  have e: "(y + upper) * P + left * n + x * n + k = (y + upper) * P + ((left + x) * n + k)" by (simp add: algebra_simps)
  show "((y + upper) * P + left * n + x * n + k) div P = y + upper" unfolding e using assms(1) by (simp add: div_mult_self3)
  have m: "((y + upper) * P + left * n + x * n + k) mod P = (left + x) * n + k" unfolding e using assms(1) by simp
  have d: "((left + x) * n + k) div n = left + x" using assms(2) by (simp add: div_mult_self3)
  show "((y + upper) * P + left * n + x * n + k) mod P div n = left + x" unfolding m by (rule d)
  show "((y + upper) * P + left * n + x * n + k) mod P mod n = k" unfolding m using assms(2) by simp
qed

text \<open>The first byte of a pixel, and the bytes of all of them.\<close>

definition pixel_start :: "nat \<Rightarrow> nat \<Rightarrow> nat \<Rightarrow> nat \<Rightarrow> nat \<Rightarrow> nat \<Rightarrow> nat" where
  "pixel_start P n left upper y x = (y + upper) * P + left * n + x * n"

lemma pixel_fits:
  fixes x :: nat
  assumes "x < cw" and "k < n" and "(left + cw) * n \<le> P"
  shows "(left + x) * n + k < P"
proof -
  have "(left + x) * n + k < (left + x + 1) * n" using assms(2) by simp
  also have "\<dots> \<le> (left + cw) * n" using assms(1) by (intro mult_le_mono1) simp
  finally show ?thesis using assms(3) by simp
qed

lemma pixel_of_address:
  assumes "x < cw" and "k < n" and "(left + cw) * n \<le> P"
  shows "(pixel_start P n left upper y x + k) div P = y + upper" "(pixel_start P n left upper y x + k) mod P div n = left + x"
    "(pixel_start P n left upper y x + k) mod P mod n = k"
  unfolding pixel_start_def using pixel_address [OF pixel_fits [OF assms] assms(2)] by blast+

lemma pixels_covered:
  assumes "0 < n" and "(left + cw) * n \<le> P"
  shows "i \<in> (\<Union>y \<in> set [0..<ch]. \<Union>x \<in> set [0..<cw]. {pixel_start P n left upper y x..<pixel_start P n left upper y x + n}) \<longleftrightarrow>
    upper \<le> i div P \<and> i div P < upper + ch \<and> left \<le> i mod P div n \<and> i mod P div n < left + cw" (is "i \<in> ?S \<longleftrightarrow> ?in")
proof
  assume "i \<in> ?S"
  then obtain y x k where "y < ch" "x < cw" "i = pixel_start P n left upper y x + k" "k < n"
    by (auto simp: le_iff_add)
  then show ?in using pixel_of_address [of x cw k n left P upper y] assms(2) by simp
next
  assume a: ?in
  let ?y = "i div P - upper" and ?x = "i mod P div n - left" and ?k = "i mod P mod n"
  have "left * n + ?x * n = i mod P div n * n" using a by (simp flip: add_mult_distrib)
  moreover have "(i div P - upper + upper) * P = i div P * P" using a by simp
  ultimately have "pixel_start P n left upper ?y ?x + ?k = i" 
    using a div_mult_mod_eq [of i P] div_mult_mod_eq [of "i mod P" n] unfolding pixel_start_def by linarith
  moreover have "?y < ch" "?x < cw" "?k < n" using a assms(1) by auto
  ultimately have "?y \<in> set [0..<ch]" "?x \<in> set [0..<cw]"
    "i \<in> {pixel_start P n left upper ?y ?x..<pixel_start P n left upper ?y ?x + n}" by auto
  then show "i \<in> ?S" by blast
qed

lemma length_pixel: "bpp = 16 \<or> bpp = 32 \<Longrightarrow> length (pixel_bytes bpp gray) = (if bpp = 32 then 4 else 2)"
  by (auto simp: pixel_bytes_def Let_def)

lemma copy_fits: "copy_size screen there \<le> unat there" "(unat there - copy_size screen there) div 2 + copy_size screen there \<le> unat there"
  by (auto simp: copy_size_def)

lemma supported_pitch:
  assumes "qdos_fb_supported info" and "unat (fb_width info) * (unat (fb_bpp info) div 8) < 2 ^ 32"
  shows "unat (fb_width info) * (unat (fb_bpp info) div 8) \<le> unat (fb_pitch info)"
proof -
  have "unat (fb_bpp info div 8) = unat (fb_bpp info) div 8" by (simp add: unat_div)
  then have "unat (fb_width info * (fb_bpp info div 8)) = unat (fb_width info) * (unat (fb_bpp info) div 8)"
    using assms(2) unat_mult_lem [of "fb_width info" "fb_bpp info div 8"] by simp
  moreover have "unat (fb_width info * (fb_bpp info div 8)) \<le> unat (fb_pitch info)"
    using assms(1) by (auto simp: qdos_fb_supported_def word_le_nat_alt split: if_splits)
  ultimately show ?thesis by simp
qed



end
