(* ===== verification/Evdev.thy ===== *)
theory Evdev
  imports Line
begin

text \<open>
  A keyboard through evdev (\<^verbatim>\<open>src/hal/device/keypad.c\<close>): the two layouts, what each key
  is to the shell, and the events read until one of them is a press. The codes are the ones of the Linux
  input interface; what can be read from the device is the list of events still to come.
\<close>

section \<open>Layouts\<close>

abbreviation (input) KEY_ESC :: nat where "KEY_ESC \<equiv> 1"
abbreviation (input) KEY_1 :: nat where "KEY_1 \<equiv> 2"
abbreviation (input) KEY_2 :: nat where "KEY_2 \<equiv> 3"
abbreviation (input) KEY_3 :: nat where "KEY_3 \<equiv> 4"
abbreviation (input) KEY_4 :: nat where "KEY_4 \<equiv> 5"
abbreviation (input) KEY_5 :: nat where "KEY_5 \<equiv> 6"
abbreviation (input) KEY_6 :: nat where "KEY_6 \<equiv> 7"
abbreviation (input) KEY_7 :: nat where "KEY_7 \<equiv> 8"
abbreviation (input) KEY_8 :: nat where "KEY_8 \<equiv> 9"
abbreviation (input) KEY_9 :: nat where "KEY_9 \<equiv> 10"
abbreviation (input) KEY_0 :: nat where "KEY_0 \<equiv> 11"
abbreviation (input) KEY_MINUS :: nat where "KEY_MINUS \<equiv> 12"
abbreviation (input) KEY_EQUAL :: nat where "KEY_EQUAL \<equiv> 13"
abbreviation (input) KEY_BACKSPACE :: nat where "KEY_BACKSPACE \<equiv> 14"
abbreviation (input) KEY_TAB :: nat where "KEY_TAB \<equiv> 15"
abbreviation (input) KEY_Q :: nat where "KEY_Q \<equiv> 16"
abbreviation (input) KEY_W :: nat where "KEY_W \<equiv> 17"
abbreviation (input) KEY_E :: nat where "KEY_E \<equiv> 18"
abbreviation (input) KEY_R :: nat where "KEY_R \<equiv> 19"
abbreviation (input) KEY_T :: nat where "KEY_T \<equiv> 20"
abbreviation (input) KEY_Y :: nat where "KEY_Y \<equiv> 21"
abbreviation (input) KEY_U :: nat where "KEY_U \<equiv> 22"
abbreviation (input) KEY_I :: nat where "KEY_I \<equiv> 23"
abbreviation (input) KEY_O :: nat where "KEY_O \<equiv> 24"
abbreviation (input) KEY_P :: nat where "KEY_P \<equiv> 25"
abbreviation (input) KEY_LEFTBRACE :: nat where "KEY_LEFTBRACE \<equiv> 26"
abbreviation (input) KEY_RIGHTBRACE :: nat where "KEY_RIGHTBRACE \<equiv> 27"
abbreviation (input) KEY_ENTER :: nat where "KEY_ENTER \<equiv> 28"
abbreviation (input) KEY_A :: nat where "KEY_A \<equiv> 30"
abbreviation (input) KEY_S :: nat where "KEY_S \<equiv> 31"
abbreviation (input) KEY_D :: nat where "KEY_D \<equiv> 32"
abbreviation (input) KEY_F :: nat where "KEY_F \<equiv> 33"
abbreviation (input) KEY_G :: nat where "KEY_G \<equiv> 34"
abbreviation (input) KEY_H :: nat where "KEY_H \<equiv> 35"
abbreviation (input) KEY_J :: nat where "KEY_J \<equiv> 36"
abbreviation (input) KEY_K :: nat where "KEY_K \<equiv> 37"
abbreviation (input) KEY_L :: nat where "KEY_L \<equiv> 38"
abbreviation (input) KEY_SEMICOLON :: nat where "KEY_SEMICOLON \<equiv> 39"
abbreviation (input) KEY_APOSTROPHE :: nat where "KEY_APOSTROPHE \<equiv> 40"
abbreviation (input) KEY_GRAVE :: nat where "KEY_GRAVE \<equiv> 41"
abbreviation (input) KEY_LEFTSHIFT :: nat where "KEY_LEFTSHIFT \<equiv> 42"
abbreviation (input) KEY_BACKSLASH :: nat where "KEY_BACKSLASH \<equiv> 43"
abbreviation (input) KEY_Z :: nat where "KEY_Z \<equiv> 44"
abbreviation (input) KEY_X :: nat where "KEY_X \<equiv> 45"
abbreviation (input) KEY_C :: nat where "KEY_C \<equiv> 46"
abbreviation (input) KEY_V :: nat where "KEY_V \<equiv> 47"
abbreviation (input) KEY_B :: nat where "KEY_B \<equiv> 48"
abbreviation (input) KEY_N :: nat where "KEY_N \<equiv> 49"
abbreviation (input) KEY_M :: nat where "KEY_M \<equiv> 50"
abbreviation (input) KEY_COMMA :: nat where "KEY_COMMA \<equiv> 51"
abbreviation (input) KEY_DOT :: nat where "KEY_DOT \<equiv> 52"
abbreviation (input) KEY_SLASH :: nat where "KEY_SLASH \<equiv> 53"
abbreviation (input) KEY_RIGHTSHIFT :: nat where "KEY_RIGHTSHIFT \<equiv> 54"
abbreviation (input) KEY_KPASTERISK :: nat where "KEY_KPASTERISK \<equiv> 55"
abbreviation (input) KEY_SPACE :: nat where "KEY_SPACE \<equiv> 57"
abbreviation (input) KEY_F1 :: nat where "KEY_F1 \<equiv> 59"
abbreviation (input) KEY_F2 :: nat where "KEY_F2 \<equiv> 60"
abbreviation (input) KEY_F3 :: nat where "KEY_F3 \<equiv> 61"
abbreviation (input) KEY_F4 :: nat where "KEY_F4 \<equiv> 62"
abbreviation (input) KEY_F5 :: nat where "KEY_F5 \<equiv> 63"
abbreviation (input) KEY_KP7 :: nat where "KEY_KP7 \<equiv> 71"
abbreviation (input) KEY_KP8 :: nat where "KEY_KP8 \<equiv> 72"
abbreviation (input) KEY_KP9 :: nat where "KEY_KP9 \<equiv> 73"
abbreviation (input) KEY_KPMINUS :: nat where "KEY_KPMINUS \<equiv> 74"
abbreviation (input) KEY_KP4 :: nat where "KEY_KP4 \<equiv> 75"
abbreviation (input) KEY_KP5 :: nat where "KEY_KP5 \<equiv> 76"
abbreviation (input) KEY_KP6 :: nat where "KEY_KP6 \<equiv> 77"
abbreviation (input) KEY_KPPLUS :: nat where "KEY_KPPLUS \<equiv> 78"
abbreviation (input) KEY_KP1 :: nat where "KEY_KP1 \<equiv> 79"
abbreviation (input) KEY_KP2 :: nat where "KEY_KP2 \<equiv> 80"
abbreviation (input) KEY_KP3 :: nat where "KEY_KP3 \<equiv> 81"
abbreviation (input) KEY_KP0 :: nat where "KEY_KP0 \<equiv> 82"
abbreviation (input) KEY_KPDOT :: nat where "KEY_KPDOT \<equiv> 83"
abbreviation (input) KEY_102ND :: nat where "KEY_102ND \<equiv> 86"
abbreviation (input) KEY_KPENTER :: nat where "KEY_KPENTER \<equiv> 96"
abbreviation (input) KEY_KPSLASH :: nat where "KEY_KPSLASH \<equiv> 98"
abbreviation (input) KEY_RIGHTALT :: nat where "KEY_RIGHTALT \<equiv> 100"
abbreviation (input) KEY_UP :: nat where "KEY_UP \<equiv> 103"
abbreviation (input) KEY_LEFT :: nat where "KEY_LEFT \<equiv> 105"
abbreviation (input) KEY_RIGHT :: nat where "KEY_RIGHT \<equiv> 106"
abbreviation (input) KEY_DOWN :: nat where "KEY_DOWN \<equiv> 108"
abbreviation (input) KEY_POWER :: nat where "KEY_POWER \<equiv> 116"
abbreviation (input) KEY_NUMERIC_0 :: nat where "KEY_NUMERIC_0 \<equiv> 512"
abbreviation (input) KEY_NUMERIC_1 :: nat where "KEY_NUMERIC_1 \<equiv> 513"
abbreviation (input) KEY_NUMERIC_2 :: nat where "KEY_NUMERIC_2 \<equiv> 514"
abbreviation (input) KEY_NUMERIC_3 :: nat where "KEY_NUMERIC_3 \<equiv> 515"
abbreviation (input) KEY_NUMERIC_4 :: nat where "KEY_NUMERIC_4 \<equiv> 516"
abbreviation (input) KEY_NUMERIC_5 :: nat where "KEY_NUMERIC_5 \<equiv> 517"
abbreviation (input) KEY_NUMERIC_6 :: nat where "KEY_NUMERIC_6 \<equiv> 518"
abbreviation (input) KEY_NUMERIC_7 :: nat where "KEY_NUMERIC_7 \<equiv> 519"
abbreviation (input) KEY_NUMERIC_8 :: nat where "KEY_NUMERIC_8 \<equiv> 520"
abbreviation (input) KEY_NUMERIC_9 :: nat where "KEY_NUMERIC_9 \<equiv> 521"

text \<open>A key's code, and what it types alone, with shift and with AltGr; \<open>nul\<close> where there is none.\<close>

type_synonym layout_key = "nat \<times> char \<times> char \<times> char"

definition LAYOUT_US :: "layout_key list" where
  "LAYOUT_US =
     [(KEY_A, CHR ''a'', CHR ''A'', nul), (KEY_B, CHR ''b'', CHR ''B'', nul), (KEY_C, CHR ''c'', CHR ''C'', nul),
      (KEY_D, CHR ''d'', CHR ''D'', nul), (KEY_E, CHR ''e'', CHR ''E'', nul), (KEY_F, CHR ''f'', CHR ''F'', nul),
      (KEY_G, CHR ''g'', CHR ''G'', nul), (KEY_H, CHR ''h'', CHR ''H'', nul), (KEY_I, CHR ''i'', CHR ''I'', nul),
      (KEY_J, CHR ''j'', CHR ''J'', nul), (KEY_K, CHR ''k'', CHR ''K'', nul), (KEY_L, CHR ''l'', CHR ''L'', nul),
      (KEY_M, CHR ''m'', CHR ''M'', nul), (KEY_N, CHR ''n'', CHR ''N'', nul), (KEY_O, CHR ''o'', CHR ''O'', nul),
      (KEY_P, CHR ''p'', CHR ''P'', nul), (KEY_Q, CHR ''q'', CHR ''Q'', nul), (KEY_R, CHR ''r'', CHR ''R'', nul),
      (KEY_S, CHR ''s'', CHR ''S'', nul), (KEY_T, CHR ''t'', CHR ''T'', nul), (KEY_U, CHR ''u'', CHR ''U'', nul),
      (KEY_V, CHR ''v'', CHR ''V'', nul), (KEY_W, CHR ''w'', CHR ''W'', nul), (KEY_X, CHR ''x'', CHR ''X'', nul),
      (KEY_Y, CHR ''y'', CHR ''Y'', nul), (KEY_Z, CHR ''z'', CHR ''Z'', nul), (KEY_1, CHR ''1'', CHR ''!'', nul),
      (KEY_2, CHR ''2'', CHR ''@'', nul), (KEY_3, CHR ''3'', CHR ''#'', nul), (KEY_4, CHR ''4'', CHR ''$'', nul),
      (KEY_5, CHR ''5'', CHR ''%'', nul), (KEY_6, CHR ''6'', CHR ''^'', nul), (KEY_7, CHR ''7'', CHR ''&'', nul),
      (KEY_8, CHR ''8'', CHR ''*'', nul), (KEY_9, CHR ''9'', CHR ''('', nul), (KEY_0, CHR ''0'', CHR '')'', nul),
      (KEY_MINUS, CHR ''-'', CHR ''_'', nul), (KEY_EQUAL, CHR ''='', CHR ''+'', nul),
      (KEY_LEFTBRACE, CHR ''['', CHR ''{'', nul), (KEY_RIGHTBRACE, CHR '']'', CHR ''}'', nul),
      (KEY_SEMICOLON, CHR '';'', CHR '':'', nul), (KEY_APOSTROPHE, CHR 0x27, CHR 0x22, nul),
      (KEY_GRAVE, CHR 0x60, CHR ''~'', nul), (KEY_BACKSLASH, CHR 0x5C, CHR ''|'', nul),
      (KEY_COMMA, CHR '','', CHR ''<'', nul), (KEY_DOT, CHR ''.'', CHR ''>'', nul),
      (KEY_SLASH, CHR ''/'', CHR ''?'', nul), (KEY_SPACE, CHR '' '', CHR '' '', nul)]"

definition LAYOUT_SE :: "layout_key list" where
  "LAYOUT_SE =
     [(KEY_A, CHR ''a'', CHR ''A'', nul), (KEY_B, CHR ''b'', CHR ''B'', nul), (KEY_C, CHR ''c'', CHR ''C'', nul),
      (KEY_D, CHR ''d'', CHR ''D'', nul), (KEY_E, CHR ''e'', CHR ''E'', nul), (KEY_F, CHR ''f'', CHR ''F'', nul),
      (KEY_G, CHR ''g'', CHR ''G'', nul), (KEY_H, CHR ''h'', CHR ''H'', nul), (KEY_I, CHR ''i'', CHR ''I'', nul),
      (KEY_J, CHR ''j'', CHR ''J'', nul), (KEY_K, CHR ''k'', CHR ''K'', nul), (KEY_L, CHR ''l'', CHR ''L'', nul),
      (KEY_M, CHR ''m'', CHR ''M'', nul), (KEY_N, CHR ''n'', CHR ''N'', nul), (KEY_O, CHR ''o'', CHR ''O'', nul),
      (KEY_P, CHR ''p'', CHR ''P'', nul), (KEY_Q, CHR ''q'', CHR ''Q'', nul), (KEY_R, CHR ''r'', CHR ''R'', nul),
      (KEY_S, CHR ''s'', CHR ''S'', nul), (KEY_T, CHR ''t'', CHR ''T'', nul), (KEY_U, CHR ''u'', CHR ''U'', nul),
      (KEY_V, CHR ''v'', CHR ''V'', nul), (KEY_W, CHR ''w'', CHR ''W'', nul), (KEY_X, CHR ''x'', CHR ''X'', nul),
      (KEY_Y, CHR ''y'', CHR ''Y'', nul), (KEY_Z, CHR ''z'', CHR ''Z'', nul), (KEY_1, CHR ''1'', CHR ''!'', nul),
      (KEY_2, CHR ''2'', CHR 0x22, CHR ''@''), (KEY_3, CHR ''3'', CHR ''#'', nul), (KEY_4, CHR ''4'', nul, CHR ''$''),
      (KEY_5, CHR ''5'', CHR ''%'', nul), (KEY_6, CHR ''6'', CHR ''&'', nul),
      (KEY_7, CHR ''7'', CHR ''/'', CHR ''{''), (KEY_8, CHR ''8'', CHR ''('', CHR ''[''),
      (KEY_9, CHR ''9'', CHR '')'', CHR '']''), (KEY_0, CHR ''0'', CHR ''='', CHR ''}''),
      (KEY_MINUS, CHR ''+'', CHR ''?'', CHR 0x5C), (KEY_BACKSLASH, CHR 0x27, CHR ''*'', nul),
      (KEY_COMMA, CHR '','', CHR '';'', nul), (KEY_DOT, CHR ''.'', CHR '':'', nul),
      (KEY_SLASH, CHR ''-'', CHR ''_'', nul), (KEY_102ND, CHR ''<'', CHR ''>'', CHR ''|''),
      (KEY_SPACE, CHR '' '', CHR '' '', nul)]"

datatype qdos_layout = QDOS_LAYOUT_US | QDOS_LAYOUT_SE

fun layout_table :: "qdos_layout \<Rightarrow> layout_key list" where
  "layout_table QDOS_LAYOUT_SE = LAYOUT_SE"
| "layout_table QDOS_LAYOUT_US = LAYOUT_US"

definition qdos_keypad_set_layout :: "cstring \<Rightarrow> qdos_layout \<Rightarrow> bool \<times> qdos_layout" where
  "qdos_keypad_set_layout name layout =
     (if name = ''us'' then (True, QDOS_LAYOUT_US)
      else if name = ''se'' then (True, QDOS_LAYOUT_SE)
      else (False, layout))"

section \<open>What a key is\<close>

text \<open>The calculator's own keys act rather than type.\<close>

definition ACTION_KEYS :: "(nat \<times> qdos_key) list" where
  "ACTION_KEYS =
     [(KEY_NUMERIC_0, QDOS_KEY_0), (KEY_KP0, QDOS_KEY_0), (KEY_NUMERIC_1, QDOS_KEY_1), (KEY_KP1, QDOS_KEY_1),
      (KEY_NUMERIC_2, QDOS_KEY_2), (KEY_KP2, QDOS_KEY_2), (KEY_NUMERIC_3, QDOS_KEY_3), (KEY_KP3, QDOS_KEY_3),
      (KEY_NUMERIC_4, QDOS_KEY_4), (KEY_KP4, QDOS_KEY_4), (KEY_NUMERIC_5, QDOS_KEY_5), (KEY_KP5, QDOS_KEY_5),
      (KEY_NUMERIC_6, QDOS_KEY_6), (KEY_KP6, QDOS_KEY_6), (KEY_NUMERIC_7, QDOS_KEY_7), (KEY_KP7, QDOS_KEY_7),
      (KEY_NUMERIC_8, QDOS_KEY_8), (KEY_KP8, QDOS_KEY_8), (KEY_NUMERIC_9, QDOS_KEY_9), (KEY_KP9, QDOS_KEY_9),
      (KEY_KPDOT, QDOS_KEY_DOT), (KEY_KPPLUS, QDOS_KEY_ADD), (KEY_KPMINUS, QDOS_KEY_SUB),
      (KEY_KPASTERISK, QDOS_KEY_MUL), (KEY_KPSLASH, QDOS_KEY_DIV), (KEY_ENTER, QDOS_KEY_ENTER),
      (KEY_KPENTER, QDOS_KEY_ENTER), (KEY_BACKSPACE, QDOS_KEY_BACKSPACE), (KEY_TAB, QDOS_KEY_TAB),
      (KEY_UP, QDOS_KEY_UP), (KEY_DOWN, QDOS_KEY_DOWN), (KEY_LEFT, QDOS_KEY_LEFT), (KEY_RIGHT, QDOS_KEY_RIGHT),
      (KEY_F1, QDOS_KEY_SOFT1), (KEY_F2, QDOS_KEY_SOFT2), (KEY_F3, QDOS_KEY_SOFT3), (KEY_F4, QDOS_KEY_SOFT4),
      (KEY_F5, QDOS_KEY_SOFT5), (KEY_ESC, QDOS_KEY_CLEAR), (KEY_POWER, QDOS_KEY_POWER)]"

definition char_event :: "char \<Rightarrow> qdos_key_event" where
  "char_event ch =
     (if is_digit ch then \<lparr>ev_key = QDOS_KEY_0 + (code ch - code (CHR ''0'')), ev_ch = nul\<rparr>
      else if ch = CHR ''.'' then \<lparr>ev_key = QDOS_KEY_DOT, ev_ch = nul\<rparr>
      else if ch = CHR ''+'' then \<lparr>ev_key = QDOS_KEY_ADD, ev_ch = ch\<rparr>
      else if ch = CHR ''-'' then \<lparr>ev_key = QDOS_KEY_SUB, ev_ch = ch\<rparr>
      else if ch = CHR ''*'' then \<lparr>ev_key = QDOS_KEY_MUL, ev_ch = ch\<rparr>
      else if ch = CHR ''/'' then \<lparr>ev_key = QDOS_KEY_DIV, ev_ch = ch\<rparr>
      else \<lparr>ev_key = QDOS_KEY_CHAR, ev_ch = ch\<rparr>)"

definition qdos_keypad_map :: "qdos_layout \<Rightarrow> nat \<Rightarrow> bool \<Rightarrow> bool \<Rightarrow> qdos_key_event option" where
  "qdos_keypad_map layout c shift altgr =
     (case map_of ACTION_KEYS c of
        Some key \<Rightarrow> Some \<lparr>ev_key = key, ev_ch = nul\<rparr>
      | None \<Rightarrow>
          (case map_of (layout_table layout) c of
             None \<Rightarrow> None
           | Some (plain, shifted, third) \<Rightarrow>
               let ch = (if altgr \<and> third \<noteq> nul then third else if shift then shifted else plain)
               in if ch = nul then None else Some (char_event ch)))"

section \<open>Reading events\<close>

record input_event =
  ie_type :: nat
  ie_code :: nat
  ie_value :: int

abbreviation (input) EV_KEY :: nat where "EV_KEY \<equiv> 1"

text \<open>Whether shift and AltGr are held, which survives between polls.\<close>

type_synonym held = "bool \<times> bool"

fun qdos_keypad_poll ::
    "qdos_layout \<Rightarrow> input_event list \<Rightarrow> held \<Rightarrow> qdos_key_event option \<times> input_event list \<times> held" where
  "qdos_keypad_poll layout [] held = (None, [], held)"
| "qdos_keypad_poll layout (ev # evs) (shift, altgr) =
     (if ie_type ev \<noteq> EV_KEY then qdos_keypad_poll layout evs (shift, altgr)
      else if ie_code ev = KEY_LEFTSHIFT \<or> ie_code ev = KEY_RIGHTSHIFT then qdos_keypad_poll layout evs (ie_value ev \<noteq> 0, altgr)
      else if ie_code ev = KEY_RIGHTALT then qdos_keypad_poll layout evs (shift, ie_value ev \<noteq> 0)
      else if ie_value ev \<noteq> 1 then qdos_keypad_poll layout evs (shift, altgr)
      else
        (case qdos_keypad_map layout (ie_code ev) shift altgr of
           Some k \<Rightarrow> (Some k, evs, (shift, altgr))
         | None \<Rightarrow> qdos_keypad_poll layout evs (shift, altgr)))"

lemma poll_shorter: "qdos_keypad_poll layout evs held = (Some k, rest, held') \<Longrightarrow> length rest < length evs"
proof (induction layout evs held rule: qdos_keypad_poll.induct)
  case (2 layout ev evs shift altgr)
  then show ?case by (auto simp del: not_None_eq split: if_splits option.splits)
qed simp

text \<open>Polling until there is nothing more: every key that reaches the shell.\<close>

function drain :: "qdos_layout \<Rightarrow> input_event list \<Rightarrow> held \<Rightarrow> qdos_key_event list" where
  "drain layout evs held =
     (case qdos_keypad_poll layout evs held of
        (None, _, _) \<Rightarrow> []
      | (Some k, rest, held') \<Rightarrow> k # drain layout rest held')"
  by pat_completeness auto
termination by (relation "measure (\<lambda>(layout, evs, held). length evs)") (auto dest: poll_shorter [OF sym])

declare drain.simps [simp del]

section \<open>Typing text\<close>

definition printable_char :: "char \<Rightarrow> bool" where
  "printable_char c \<longleftrightarrow> 32 \<le> code c \<and> code c < 127"

text \<open>What the keys of a layout type: with no modifier, with shift, with AltGr.\<close>

definition typable :: "qdos_layout \<Rightarrow> char list" where
  "typable layout =
     concat (map (\<lambda>(c, plain, shifted, third). filter (\<lambda>ch. ch \<noteq> nul) [plain, shifted, third]) (layout_table layout))"

definition printable_chars :: "char list" where
  "printable_chars = map char_of [32..<127 :: nat]"

lemma typable_US: "list_all (\<lambda>ch. ch \<in> set (typable QDOS_LAYOUT_US)) printable_chars"
  by code_simp

lemma typable_SE:
  "list_all (\<lambda>ch. ch \<in> set (CHR ''^'' # CHR 0x60 # CHR ''~'' # typable QDOS_LAYOUT_SE)) printable_chars"
  by code_simp

lemma rows_alone:
  "list_all (\<lambda>(c, _). map_of ACTION_KEYS c = None \<and> c \<noteq> KEY_LEFTSHIFT \<and> c \<noteq> KEY_RIGHTSHIFT \<and> c \<noteq> KEY_RIGHTALT) (layout_table layout) \<and>
   distinct (map fst (layout_table layout))"
  by (cases layout) (simp_all add: LAYOUT_US_def LAYOUT_SE_def ACTION_KEYS_def)

definition on_layout :: "qdos_layout \<Rightarrow> char \<Rightarrow> bool" where
  "on_layout layout ch \<longleftrightarrow> printable_char ch \<and> (layout = QDOS_LAYOUT_SE \<longrightarrow> ch \<notin> {CHR ''^'', CHR 0x60, CHR ''~''})"

text \<open>Pressing a key with its modifiers held, and letting go of all of it.\<close>

definition strokes :: "nat \<times> bool \<times> bool \<Rightarrow> input_event list" where
  "strokes k = (case k of (c, shift, altgr) \<Rightarrow>
     (let press = (\<lambda>k v. \<lparr>ie_type = EV_KEY, ie_code = k, ie_value = v\<rparr>)
      in (if shift then [press KEY_LEFTSHIFT 1] else []) @ (if altgr then [press KEY_RIGHTALT 1] else []) @
         [press c 1, press c 0] @ (if shift then [press KEY_LEFTSHIFT 0] else []) @ (if altgr then [press KEY_RIGHTALT 0] else [])))"

definition types :: "qdos_layout \<Rightarrow> char \<Rightarrow> nat \<times> bool \<times> bool \<Rightarrow> bool" where
  "types layout ch k = (case k of (c, shift, altgr) \<Rightarrow>
     c \<noteq> KEY_LEFTSHIFT \<and> c \<noteq> KEY_RIGHTSHIFT \<and> c \<noteq> KEY_RIGHTALT \<and>
     qdos_keypad_map layout c shift altgr = Some (char_event ch))"

lemma printable_listed: "printable_char ch \<Longrightarrow> ch \<in> set printable_chars"
proof -
  assume "printable_char ch"
  then have "code ch \<in> set [32..<127]" by (simp only: printable_char_def set_upt atLeastLessThan_iff)
  then have "char_of (code ch) \<in> set printable_chars" unfolding printable_chars_def by (metis image_eqI set_map)
  then show ?thesis by (simp add: code_def)
qed

lemma on_layout_typable:
  assumes "on_layout layout ch"
  shows "ch \<in> set (typable layout)"
proof (cases layout)
  case QDOS_LAYOUT_US
  then show ?thesis
    using assms typable_US printable_listed [of ch] by (auto simp: on_layout_def list_all_iff)
next
  case QDOS_LAYOUT_SE
  then show ?thesis
    using assms typable_SE printable_listed [of ch] by (auto simp: on_layout_def list_all_iff)
qed

lemma typable_typed:
  assumes "ch \<in> set (typable layout)"
  shows "\<exists>k. types layout ch k"
proof -
  obtain c plain shifted third where r: "(c, plain, shifted, third) \<in> set (layout_table layout)" "ch \<noteq> nul"
    "ch = plain \<or> ch = shifted \<or> ch = third" using assms by (auto simp: typable_def split: if_splits)
  have "map_of (layout_table layout) c = Some (plain, shifted, third)" using r(1) rows_alone [of layout] by simp
  moreover have "map_of ACTION_KEYS c = None" "c \<noteq> KEY_LEFTSHIFT" "c \<noteq> KEY_RIGHTSHIFT" "c \<noteq> KEY_RIGHTALT"
    using r(1) rows_alone [of layout] by (auto simp: list_all_iff)
  ultimately have "types layout ch (c, False, False) \<or> types layout ch (c, True, False) \<or> types layout ch (c, False, True)"
    using r(2,3) by (auto simp: types_def qdos_keypad_map_def)
  then show ?thesis by blast
qed

lemma drain_step:
  "drain layout [] held = []"
  "ie_type ev = EV_KEY \<Longrightarrow> ie_code ev = KEY_LEFTSHIFT \<Longrightarrow> drain layout (ev # evs) (shift, altgr) = drain layout evs (ie_value ev \<noteq> 0, altgr)"
  "ie_type ev = EV_KEY \<Longrightarrow> ie_code ev = KEY_RIGHTALT \<Longrightarrow> drain layout (ev # evs) (shift, altgr) = drain layout evs (shift, ie_value ev \<noteq> 0)"
  "ie_type ev = EV_KEY \<Longrightarrow> ie_code ev \<noteq> KEY_LEFTSHIFT \<Longrightarrow> ie_code ev \<noteq> KEY_RIGHTSHIFT \<Longrightarrow> ie_code ev \<noteq> KEY_RIGHTALT \<Longrightarrow>
     drain layout (ev # evs) (shift, altgr) =
       (case (if ie_value ev = 1 then qdos_keypad_map layout (ie_code ev) shift altgr else None) of
          Some k \<Rightarrow> k # drain layout evs (shift, altgr) | None \<Rightarrow> drain layout evs (shift, altgr))"
  by (simp add: drain.simps) (simp_all add: drain.simps [of layout "ev # evs"] drain.simps [of layout evs] split: option.split)

lemma drain_strokes:
  "types layout ch k \<Longrightarrow> drain layout (strokes k @ evs) (False, False) = char_event ch # drain layout evs (False, False)"
  by (cases k) (auto simp: types_def strokes_def Let_def drain_step)

text \<open>A character typed on the keyboard at the end of the line.\<close>

text \<open>The events of characters, as the line takes them.\<close>

lemma line_takes:
  assumes "\<not> sh_line_minus sh"
  shows "handle_line_key mc ev sh =
    (let sh2 = (if ev_key ev \<noteq> QDOS_KEY_UP \<and> ev_key ev \<noteq> QDOS_KEY_DOWN
                then sh\<lparr>sh_line_minus := False, sh_history_at := length (sh_history sh)\<rparr> else sh\<lparr>sh_line_minus := False\<rparr>)
     in case function_word (ev_key ev) of
          Some word \<Rightarrow> input_word word sh2
        | None \<Rightarrow>
            if QDOS_KEY_ADD \<le> ev_key ev \<and> ev_key ev \<le> QDOS_KEY_DIV \<and> ev_ch ev \<noteq> nul then input_append [ev_ch ev] sh2
            else line_key mc ev sh2)"
  using assms by (auto simp: handle_line_key_def Let_def split: option.split)

lemma char_event_key: "ev_key (char_event ch) \<le> 15 \<or> ev_key (char_event ch) = QDOS_KEY_CHAR"
  by (auto simp: char_event_def ctype_simps)

lemma no_function_word: "key \<le> 15 \<or> key = QDOS_KEY_CHAR \<Longrightarrow> function_word key = None"
  by (auto simp: function_word_def)

lemma line_digit: "1 \<le> key \<Longrightarrow> key \<le> 10 \<Longrightarrow> line_key mc \<lparr>ev_key = key, ev_ch = c\<rparr> sh = input_append [digit_char (key - 1)] sh"
  by (simp add: line_key_def)

lemma line_dot: "line_key mc \<lparr>ev_key = QDOS_KEY_DOT, ev_ch = c\<rparr> sh = input_append ''.'' sh"
  by (simp add: line_key_def)

lemma line_char:
  "ch \<noteq> nul \<Longrightarrow> (ch = CHR '' '' \<Longrightarrow> \<not> (char_before_cursor sh = CHR '' '' \<and> 0 < sh_cursor sh)) \<Longrightarrow>
   line_key mc \<lparr>ev_key = QDOS_KEY_CHAR, ev_ch = ch\<rparr> sh = input_append [ch] sh"
  by (auto simp: line_key_def LINE_WORDS_def)

lemma char_typed:
  assumes "at_end s sh" and "\<not> sh_line_minus sh" and "printable_char ch" and "length s + 1 < INPUT_MAX"
    and "ch = CHR '' '' \<longrightarrow> s = [] \<or> last s \<noteq> CHR '' ''"
  shows "at_end (s @ [ch]) (handle_line_key mc (char_event ch) sh) \<and> \<not> sh_line_minus (handle_line_key mc (char_event ch) sh)"
proof -
  let ?sh = "sh\<lparr>sh_line_minus := False, sh_history_at := length (sh_history sh)\<rparr>"
  have e: "at_end s ?sh" using assms(1) by (simp add: at_end_def)
  have key: "handle_line_key mc (char_event ch) sh = (if QDOS_KEY_ADD \<le> ev_key (char_event ch) \<and> ev_key (char_event ch) \<le> QDOS_KEY_DIV \<and> ev_ch (char_event ch) \<noteq> nul
      then input_append [ev_ch (char_event ch)] ?sh else line_key mc (char_event ch) ?sh)"
    unfolding line_takes [OF assms(2)] using char_event_key [of ch] no_function_word [of "ev_key (char_event ch)"] by (auto simp: Let_def)
  have "handle_line_key mc (char_event ch) sh = input_append [ch] ?sh"
  proof (cases "is_digit ch")
    case True
    then have d: "48 \<le> code ch" "code ch \<le> 57" by (simp_all add: ctype_simps)
    have "code (CHR ''0'') = 48" by (simp add: code_def)
    then have "char_event ch = \<lparr>ev_key = 1 + (code ch - 48), ev_ch = nul\<rparr>" using True by (simp add: char_event_def)
    moreover have "digit_char (code ch - 48) = ch" using d by (simp add: digit_char_def code_def)
    ultimately show ?thesis using d key line_digit [of "1 + (code ch - 48)" mc nul ?sh] by simp
  next
    case False
    have "ch = CHR '' '' \<Longrightarrow> \<not> (char_before_cursor ?sh = CHR '' '' \<and> 0 < sh_cursor ?sh)"
      using assms(5) char_before_end [OF e] e by (auto simp: before_end_def at_end_def)
    moreover have "ch \<noteq> nul" using assms(3) by (auto simp: printable_char_def code_def)
    ultimately show ?thesis
      using False key line_char [of ch ?sh mc] line_dot [of mc nul ?sh] by (auto simp: char_event_def)
  qed
  then show ?thesis using at_end_append [OF e, of "[ch]"] assms(4) by simp
qed

lemma text_typed:
  assumes "at_end s sh" and "\<not> sh_line_minus sh" and "list_all printable_char text'" and "length s + length text' < INPUT_MAX"
    and "successively (\<lambda>a b. \<not> (a = CHR '' '' \<and> b = CHR '' '')) (s @ text')"
  shows "at_end (s @ text') (foldl (\<lambda>sh ev. handle_line_key mc ev sh) sh (map char_event text'))"
  using assms
proof (induction text' arbitrary: s sh)
  case (Cons ch cs)
  have "ch = CHR '' '' \<longrightarrow> s = [] \<or> last s \<noteq> CHR '' ''"
    using Cons.prems(5) by (auto simp: successively_append_iff)
  from char_typed [OF Cons.prems(1,2) _ _ this] Cons.prems(3,4) have
    "at_end (s @ [ch]) (handle_line_key mc (char_event ch) sh)" "\<not> sh_line_minus (handle_line_key mc (char_event ch) sh)" by auto
  from Cons.IH [OF this] Cons.prems(3-5) show ?case by simp
qed simp



text \<open>Letting go of one shift key counts as letting go of both.\<close>

lemma one_shift_up_is_both:
  "drain QDOS_LAYOUT_US (map (\<lambda>(c, v). \<lparr>ie_type = EV_KEY, ie_code = c, ie_value = v\<rparr>)
     [(KEY_LEFTSHIFT, 1), (KEY_RIGHTSHIFT, 1), (KEY_RIGHTSHIFT, 0), (KEY_A, 1)]) (False, False) = [char_event (CHR ''a'')]"
  by (simp add: drain.simps qdos_keypad_map_def ACTION_KEYS_def LAYOUT_US_def)

end
