(* ===== verification/Matrix.thy ===== *)
theory Matrix
  imports Keypad
begin

text \<open>
  The keypad of the ESP32 read as a matrix of pins (\<^verbatim>\<open>esp32/main/keymatrix.c\<close>): the list of
  pins, and the scans that settle each key before a press is sent. What the pins read while a row is
  driven is an argument of a scan: a reading is true where a key pulls its column low.
\<close>

section \<open>Pins\<close>

function parse_pins :: "cstring \<Rightarrow> nat \<Rightarrow> int list" where
  "parse_pins p cap =
     (if p = [] \<or> cap = 0 then []
      else
        (case strtol10 p of
           None \<Rightarrow> []
         | Some (pin, end) \<Rightarrow> pin # parse_pins (if end \<noteq> [] \<and> hd end = CHR '','' then tl end else end) (cap - 1)))"
  by pat_completeness auto
termination by (relation "measure snd") auto

section \<open>Scanning\<close>

definition DEBOUNCE_SCANS :: nat where "DEBOUNCE_SCANS = 2"
definition IDLE_SCANS :: nat where "IDLE_SCANS = 4"

type_synonym reading = "nat \<Rightarrow> nat \<Rightarrow> bool"

record matrix =
  mx_down :: "bool list list"
  mx_streak :: "nat list list"

definition cell :: "'a list list \<Rightarrow> nat \<Rightarrow> nat \<Rightarrow> 'a" where
  "cell a r c = a ! r ! c"

definition put_cell :: "'a list list \<Rightarrow> nat \<Rightarrow> nat \<Rightarrow> 'a \<Rightarrow> 'a list list" where
  "put_cell a r c v = a[r := (a ! r)[c := v]]"

text \<open>One key: whether anything is down, the matrix after it, and the press it sends.\<close>

definition scan_key :: "reading \<Rightarrow> nat \<Rightarrow> nat \<Rightarrow> matrix \<Rightarrow> bool \<times> matrix \<times> (nat \<times> nat) list" where
  "scan_key low r c mx =
     (let now = low r c; was = cell (mx_down mx) r c; any = (now \<or> was)
      in if now = was then (any, mx\<lparr>mx_streak := put_cell (mx_streak mx) r c 0\<rparr>, [])
         else
           let streak = cell (mx_streak mx) r c + 1
           in if streak < DEBOUNCE_SCANS then (any, mx\<lparr>mx_streak := put_cell (mx_streak mx) r c streak\<rparr>, [])
              else (any, mx\<lparr>mx_streak := put_cell (mx_streak mx) r c 0, mx_down := put_cell (mx_down mx) r c now\<rparr>,
                    if now then [(r, c)] else []))"

text \<open>The keys of every row in turn.\<close>

fun scan_keys :: "reading \<Rightarrow> (nat \<times> nat) list \<Rightarrow> matrix \<Rightarrow> bool \<times> matrix \<times> (nat \<times> nat) list" where
  "scan_keys low [] mx = (False, mx, [])"
| "scan_keys low ((r, c) # ks) mx =
     (let (any, mx1, sent) = scan_key low r c mx; (any', mx2, sent') = scan_keys low ks mx1
      in (any \<or> any', mx2, sent @ sent'))"

definition scan_once :: "nat \<Rightarrow> nat \<Rightarrow> reading \<Rightarrow> matrix \<Rightarrow> bool \<times> matrix \<times> (nat \<times> nat) list" where
  "scan_once rows cols low mx = scan_keys low [(r, c). r \<leftarrow> [0..<rows], c \<leftarrow> [0..<cols]] mx"

definition all_up :: matrix where
  "all_up =
     \<lparr>mx_down = replicate QDOS_PAD_ROWS (replicate QDOS_PAD_COLS False),
      mx_streak = replicate QDOS_PAD_ROWS (replicate QDOS_PAD_COLS 0)\<rparr>"

text \<open>
  The scans of one waking, over what the pins read at each of them: the presses sent, the matrix they
  end with, and the readings left once the pad has been idle long enough.
\<close>

fun scan_loop ::
    "nat \<Rightarrow> nat \<Rightarrow> nat \<Rightarrow> reading list \<Rightarrow> matrix \<Rightarrow> (nat \<times> nat) list \<times> matrix \<times> reading list" where
  "scan_loop rows cols idle [] mx = ([], mx, [])"
| "scan_loop rows cols idle (low # lows) mx =
     (if IDLE_SCANS \<le> idle then ([], mx, low # lows)
      else
        let (any, mx1, sent) = scan_once rows cols low mx;
            (sent', mx2, left) = scan_loop rows cols (if any then 0 else idle + 1) lows mx1
        in (sent @ sent', mx2, left))"

definition scan_task :: "nat \<Rightarrow> nat \<Rightarrow> reading list \<Rightarrow> (nat \<times> nat) list \<times> matrix \<times> reading list" where
  "scan_task rows cols lows = scan_loop rows cols 0 lows all_up"

section \<open>Each key on its own\<close>

text \<open>What a key has read, the latest first, and what it has settled on: the last reading seen twice running.\<close>

fun settled :: "bool list \<Rightarrow> bool" where
  "settled (a # b # xs) = (if a = b then a else settled (b # xs))"
| "settled _ = False"

fun presses_of :: "bool list \<Rightarrow> nat" where
  "presses_of [] = 0"
| "presses_of (a # xs) = presses_of xs + (if settled (a # xs) \<and> \<not> settled xs then 1 else 0)"

definition view :: "matrix \<Rightarrow> nat \<Rightarrow> nat \<Rightarrow> bool \<times> nat" where
  "view mx r c = (cell (mx_down mx) r c, cell (mx_streak mx) r c)"

definition sized :: "'a list list \<Rightarrow> bool" where
  "sized a \<longleftrightarrow> length a = QDOS_PAD_ROWS \<and> (\<forall>r < QDOS_PAD_ROWS. length (a ! r) = QDOS_PAD_COLS)"

definition matrix_ok :: "matrix \<Rightarrow> bool" where
  "matrix_ok mx \<longleftrightarrow> sized (mx_down mx) \<and> sized (mx_streak mx)"

definition on_pad :: "nat \<Rightarrow> nat \<Rightarrow> bool" where
  "on_pad r c \<longleftrightarrow> r < QDOS_PAD_ROWS \<and> c < QDOS_PAD_COLS"

text \<open>A key that has read \<open>xs\<close>, and the scan of it.\<close>

definition seen :: "bool list \<Rightarrow> bool \<times> nat" where
  "seen xs = (settled xs, if xs \<noteq> [] \<and> hd xs \<noteq> settled xs then 1 else 0)"

lemma sized_put: "sized a \<Longrightarrow> sized (put_cell a r c v)"
proof -
  assume "sized a"
  moreover have "length (a[r := (a ! r)[c := v]] ! i) = length (a ! i)" for i
    by (cases "r = i"; cases "r < length a") (auto simp: list_update_beyond)
  ultimately show ?thesis by (simp add: sized_def put_cell_def)
qed

lemma cell_put:
  "sized a \<Longrightarrow> on_pad r c \<Longrightarrow> cell (put_cell a r c v) r' c' = (if r' = r \<and> c' = c then v else cell a r' c')"
  by (auto simp: sized_def put_cell_def cell_def on_pad_def nth_list_update)

lemma settled_step:
  "settled (a # xs) = (if a = settled xs then a else if xs \<noteq> [] \<and> hd xs \<noteq> settled xs then a else settled xs)"
  by (cases xs) auto

lemma scan_key_seen:
  assumes "matrix_ok mx" and "on_pad r c" and "view mx r c = seen xs" and "scan_key low r c mx = (any, mx', sent)"
  shows "matrix_ok mx' \<and> view mx' r c = seen (low r c # xs) \<and> (\<forall>r' c'. (r', c') \<noteq> (r, c) \<longrightarrow> view mx' r' c' = view mx r' c') \<and>
    sent = (if settled (low r c # xs) \<and> \<not> settled xs then [(r, c)] else []) \<and> (any \<longleftrightarrow> low r c \<or> settled xs)"
proof -
  have ok: "sized (mx_down mx)" "sized (mx_streak mx)" using assms(1) by (simp_all add: matrix_ok_def)
  have now: "cell (mx_down mx) r c = settled xs" "cell (mx_streak mx) r c = (if xs \<noteq> [] \<and> hd xs \<noteq> settled xs then 1 else 0)"
    using assms(3) by (simp_all add: view_def seen_def)
  consider (same) "low r c = settled xs" | (first) "low r c \<noteq> settled xs" "\<not> (xs \<noteq> [] \<and> hd xs \<noteq> settled xs)"
    | (second) "low r c \<noteq> settled xs" "xs \<noteq> [] \<and> hd xs \<noteq> settled xs" by blast
  then show ?thesis
    using assms(2,4) ok
    by cases (auto simp: scan_key_def now Let_def DEBOUNCE_SCANS_def matrix_ok_def sized_put view_def seen_def cell_put settled_step simp del: settled.simps)
qed

lemma scan_keys_seen:
  assumes "matrix_ok mx" and "\<forall>(r, c) \<in> set ks. on_pad r c" and "distinct ks"
    and "\<forall>(r, c) \<in> set ks. view mx r c = seen (xs r c)" and "scan_keys low ks mx = (any, mx', sent)"
  shows "matrix_ok mx' \<and> (\<forall>(r, c) \<in> set ks. view mx' r c = seen (low r c # xs r c)) \<and>
    (\<forall>r c. (r, c) \<notin> set ks \<longrightarrow> view mx' r c = view mx r c) \<and>
    sent = filter (\<lambda>(r, c). settled (low r c # xs r c) \<and> \<not> settled (xs r c)) ks \<and>
    (any \<longleftrightarrow> (\<exists>(r, c) \<in> set ks. low r c \<or> settled (xs r c)))"
  using assms
proof (induction ks arbitrary: mx any sent)
  case (Cons k ks)
  obtain r c where k: "k = (r, c)" by (cases k)
  obtain any1 mx1 sent1 where s: "scan_key low r c mx = (any1, mx1, sent1)" by (cases "scan_key low r c mx")
  obtain any2 sent2 where l: "scan_keys low ks mx1 = (any2, mx', sent2)" "any = (any1 \<or> any2)" "sent = sent1 @ sent2"
    using Cons.prems(5) s by (auto simp: k split: prod.splits)
  have here: "on_pad r c" "view mx r c = seen (xs r c)" using Cons.prems(2,4) by (auto simp: k)
  note one = scan_key_seen [OF Cons.prems(1) here s]
  have rest: "\<forall>(r', c') \<in> set ks. view mx1 r' c' = seen (xs r' c')"
  proof (clarify)
    fix r' c' assume in_ks: "(r', c') \<in> set ks"
    then have "(r', c') \<noteq> (r, c)" using Cons.prems(3) k by auto
    then have "view mx1 r' c' = view mx r' c'" using one by blast
    then show "view mx1 r' c' = seen (xs r' c')" using Cons.prems(4) in_ks by auto
  qed
  from Cons.IH [OF _ _ _ this l(1)] one Cons.prems(2,3) have IH:
    "matrix_ok mx' \<and> (\<forall>(r, c) \<in> set ks. view mx' r c = seen (low r c # xs r c)) \<and>
    (\<forall>r c. (r, c) \<notin> set ks \<longrightarrow> view mx' r c = view mx1 r c) \<and>
    sent2 = filter (\<lambda>(r, c). settled (low r c # xs r c) \<and> \<not> settled (xs r c)) ks \<and>
    (any2 \<longleftrightarrow> (\<exists>(r, c) \<in> set ks. low r c \<or> settled (xs r c)))" by auto
  have "(r, c) \<notin> set ks" using Cons.prems(3) k by simp
  then show ?case using IH one k l(2,3) by auto
qed simp

lemma all_keys: "(r, c) \<in> set [(r, c). r \<leftarrow> [0..<rows], c \<leftarrow> [0..<cols]] \<longleftrightarrow> r < rows \<and> c < cols"
  by (auto simp: image_iff)

lemma distinct_keys: "distinct [(r, c). r \<leftarrow> [0..<rows], c \<leftarrow> [0..<cols]]"
proof (induction rows)
  case (Suc rows)
  moreover have "distinct (map (Pair rows) [0..<cols])" by (simp add: distinct_map inj_on_def)
  ultimately show ?case by auto
qed simp

lemma filter_one: "distinct ks \<Longrightarrow> k \<in> set ks \<Longrightarrow> filter (\<lambda>x. x = k) (filter P ks) = (if P k then [k] else [])"
proof (induction ks)
  case (Cons x xs)
  have "k \<notin> set xs \<Longrightarrow> filter (\<lambda>x. x = k) (filter P xs) = []" by (induction xs) auto
  then show ?case using Cons by (cases "x = k") auto
qed simp

text \<open>The readings of a key in a run of scans, the latest first.\<close>

definition read_by :: "nat \<Rightarrow> nat \<Rightarrow> reading list \<Rightarrow> bool list" where
  "read_by r c lows = rev (map (\<lambda>low. low r c) lows)"

lemma read_by_simps: "read_by r c [] = []" "read_by r c (lows @ [low]) = low r c # read_by r c lows"
  by (simp_all add: read_by_def)

lemma scan_once_seen:
  assumes "matrix_ok mx" and "rows \<le> QDOS_PAD_ROWS" and "cols \<le> QDOS_PAD_COLS"
    and "\<forall>r c. r < rows \<and> c < cols \<longrightarrow> view mx r c = seen (read_by r c past)"
    and "scan_once rows cols low mx = (any, mx', sent)"
  shows "matrix_ok mx' \<and> (\<forall>r c. r < rows \<and> c < cols \<longrightarrow> view mx' r c = seen (read_by r c (past @ [low]))) \<and>
    (\<forall>r c. r < rows \<and> c < cols \<longrightarrow> filter (\<lambda>k. k = (r, c)) sent =
       (if settled (read_by r c (past @ [low])) \<and> \<not> settled (read_by r c past) then [(r, c)] else [])) \<and>
    (any \<or> (\<forall>r c. r < rows \<and> c < cols \<longrightarrow> view mx' r c = (False, 0)))"
proof -
  let ?ks = "[(r, c). r \<leftarrow> [0..<rows], c \<leftarrow> [0..<cols]]"
  have "\<forall>(r, c) \<in> set ?ks. on_pad r c" using assms(2,3) by (auto simp: on_pad_def)
  moreover have "\<forall>(r, c) \<in> set ?ks. view mx r c = seen (read_by r c past)" using assms(4) all_keys by auto
  moreover have "scan_keys low ?ks mx = (any, mx', sent)" using assms(5) by (simp only: scan_once_def)
  ultimately have s: "matrix_ok mx'" "\<forall>(r, c) \<in> set ?ks. view mx' r c = seen (low r c # read_by r c past)"
    "sent = filter (\<lambda>(r, c). settled (low r c # read_by r c past) \<and> \<not> settled (read_by r c past)) ?ks"
    "any \<longleftrightarrow> (\<exists>(r, c) \<in> set ?ks. low r c \<or> settled (read_by r c past))"
    using scan_keys_seen [OF assms(1) _ distinct_keys, of cols rows "\<lambda>r c. read_by r c past" low any mx' sent] by simp_all
  have v: "view mx' r c = seen (low r c # read_by r c past)" if "r < rows" "c < cols" for r c
    using s(2) all_keys [of r c cols rows] that by auto
  have "filter (\<lambda>k. k = (r, c)) sent =
      (if settled (low r c # read_by r c past) \<and> \<not> settled (read_by r c past) then [(r, c)] else [])" if "r < rows" "c < cols" for r c
    unfolding s(3)
    using filter_one [OF distinct_keys all_keys [THEN iffD2, OF conjI, OF that],
        of "\<lambda>(r, c). settled (low r c # read_by r c past) \<and> \<not> settled (read_by r c past)"] by simp
  moreover have "view mx' r c = (False, 0)" if "\<not> any" "r < rows" "c < cols" for r c
  proof -
    have "\<not> (low r c \<or> settled (read_by r c past))"
      using s(4) that(1) all_keys [of r c cols rows] that(2,3) by (metis (mono_tags, lifting) case_prodI)
    then show ?thesis using v [OF that(2,3)] by (auto simp: seen_def settled_step simp del: settled.simps)
  qed
  ultimately show ?thesis using s(1) v unfolding read_by_simps by (cases any) simp_all
qed

lemma scan_loop_seen:
  assumes "matrix_ok mx" and "rows \<le> QDOS_PAD_ROWS" and "cols \<le> QDOS_PAD_COLS"
    and "\<forall>r c. r < rows \<and> c < cols \<longrightarrow> view mx r c = seen (read_by r c past)"
    and "0 < idle \<longrightarrow> (\<forall>r c. r < rows \<and> c < cols \<longrightarrow> view mx r c = (False, 0))"
    and "scan_loop rows cols idle lows mx = (sent, mx', left)"
  shows "\<exists>scanned. lows = scanned @ left \<and>
    (\<forall>r c. r < rows \<and> c < cols \<longrightarrow> view mx' r c = seen (read_by r c (past @ scanned)) \<and>
      presses_of (read_by r c (past @ scanned)) = presses_of (read_by r c past) + length (filter (\<lambda>k. k = (r, c)) sent)) \<and>
    (left \<noteq> [] \<longrightarrow> (\<forall>r c. r < rows \<and> c < cols \<longrightarrow> view mx' r c = (False, 0)))"
  using assms
proof (induction lows arbitrary: idle mx past sent)
  case (Cons low lows)
  show ?case
  proof (cases "IDLE_SCANS \<le> idle")
    case True
    then have "0 < idle" by (simp add: IDLE_SCANS_def)
    then show ?thesis using True Cons.prems by (intro exI [of _ "[]"]) auto
  next
    case False
    obtain any mx1 sent1 where s: "scan_once rows cols low mx = (any, mx1, sent1)" by (cases "scan_once rows cols low mx")
    obtain sent2 where l: "scan_loop rows cols (if any then 0 else idle + 1) lows mx1 = (sent2, mx', left)" "sent = sent1 @ sent2"
      using Cons.prems(6) False s by (auto split: prod.splits)
    note one = scan_once_seen [OF Cons.prems(1-4) s]
    from Cons.IH [OF _ Cons.prems(2,3) _ _ l(1), of "past @ [low]"] one obtain scanned where IH: "lows = scanned @ left"
      "\<forall>r c. r < rows \<and> c < cols \<longrightarrow> view mx' r c = seen (read_by r c ((past @ [low]) @ scanned)) \<and>
        presses_of (read_by r c ((past @ [low]) @ scanned)) = presses_of (read_by r c (past @ [low])) + length (filter (\<lambda>k. k = (r, c)) sent2)"
      "left \<noteq> [] \<longrightarrow> (\<forall>r c. r < rows \<and> c < cols \<longrightarrow> view mx' r c = (False, 0))" by (auto split: if_splits)
    have "presses_of (read_by r c (past @ low # scanned)) = presses_of (read_by r c past) + length (filter (\<lambda>k. k = (r, c)) sent)"
      if "r < rows" "c < cols" for r c
      using IH(2) that one l(2) by (auto simp: read_by_simps)
    then show ?thesis using IH by (intro exI [of _ "low # scanned"]) simp
  qed
qed auto

text \<open>
  C31. Every key of the matrix is debounced on its own, whatever the others do. Over the scans of one waking a key
  is sent once for each time it settles down, where it settles on whatever it reads twice running; what it reads
  once between two equal readings is nothing. And the pad goes back to waiting only with every key up
  and settled, so that starting the next waking from scratch loses nothing.
\<close>

theorem matrix_is_debounced:
  assumes "scan_task rows cols lows = (sent, mx, left)" and "rows \<le> QDOS_PAD_ROWS" and "cols \<le> QDOS_PAD_COLS"
    and "r < rows" and "c < cols"
  shows "\<exists>scanned. lows = scanned @ left \<and>
    length (filter (\<lambda>k. k = (r, c)) sent) = presses_of (read_by r c scanned) \<and>
    (left \<noteq> [] \<longrightarrow> view mx r c = (False, 0))"
proof -
  have ok: "matrix_ok all_up" by (simp add: matrix_ok_def all_up_def sized_def)
  have up: "view all_up r c = seen (read_by r c [])" if "r < rows" "c < cols" for r c
    using that assms(2,3) by (simp add: view_def all_up_def cell_def seen_def read_by_simps)
  from scan_loop_seen [OF ok assms(2,3), of "[]" 0 lows sent mx left] up assms(1) obtain scanned where "lows = scanned @ left"
    "\<forall>r c. r < rows \<and> c < cols \<longrightarrow> presses_of (read_by r c scanned) = presses_of (read_by r c []) + length (filter (\<lambda>k. k = (r, c)) sent)"
    "left \<noteq> [] \<longrightarrow> (\<forall>r c. r < rows \<and> c < cols \<longrightarrow> view mx r c = (False, 0))" by (auto simp: scan_task_def)
  then show ?thesis using assms(4,5) by (auto simp: read_by_simps)
qed

text \<open>A bouncing press of one key, and a longer one of another.\<close>

lemma matrix_is_debounced_witness:
  "\<exists>sent mx. scan_task 2 2 (map (\<lambda>xs r c. (r, c) \<in> set xs) [[(0, 1)], [], [(0, 1), (1, 0)], [(0, 1), (1, 0)], [(1, 0)], [], []]) = (sent, mx, []) \<and>
     length (filter (\<lambda>k. k = (0, 1)) sent) = 1"
proof -
  let ?lows = "map (\<lambda>xs r c. (r, c) \<in> set xs) [[(0, 1)], [], [(0, 1), (1, 0)], [(0, 1), (1, 0)], [(1, 0)], [], []] :: reading list"
  have "snd (snd (scan_task 2 2 ?lows)) = []" by code_simp
  then obtain sent mx where s: "scan_task 2 2 ?lows = (sent, mx, [])" by (metis prod.collapse)
  from matrix_is_debounced [OF s, of 0 1] show ?thesis
    using s by (auto simp: QDOS_PAD_ROWS_def QDOS_PAD_COLS_def read_by_def)
qed

end
