(* ===== verification/Console.thy ===== *)
theory Console
  imports Lcd "HOL-Library.Signed_Division"
begin

text \<open>
  The character console over the panel's grey levels (\<^verbatim>\<open>src/ui/console.c\<close>): glyphs in cells and
  at any pixel, text clipped at the right edge, right-aligned text that is cut with a mark, inversion and rules.

  An operation gives the console it leaves, or \<open>None\<close> where it would write outside the framebuffer.
  The bitmaps of the two fonts are an argument: the bits of a row of a character, the least significant on the left.
\<close>

section \<open>The console\<close>

definition QDOS_FONT_W :: nat where "QDOS_FONT_W = 16"
definition QDOS_FONT_H :: nat where "QDOS_FONT_H = 24"
definition QDOS_FONT_SCALE :: nat where "QDOS_FONT_SCALE = 1"
definition CELL_W :: int where "CELL_W = int (QDOS_FONT_W * QDOS_FONT_SCALE)"
definition CELL_H :: int where "CELL_H = int (QDOS_FONT_H * QDOS_FONT_SCALE)"
definition COLS :: int where "COLS = QDOS_SCREEN_W div CELL_W"
definition ROWS :: int where "ROWS = QDOS_SCREEN_H div CELL_H"
definition SMALL_FONT_W :: nat where "SMALL_FONT_W = 8"
definition SMALL_FONT_H :: nat where "SMALL_FONT_H = 16"
definition ELIDED :: char where "ELIDED = CHR ''~''"

record qdos_console =
  con_fb :: "8 word list"
  con_ink :: "8 word"
  con_paper :: "8 word"

record fonts =
  qdos_font_row :: "char \<Rightarrow> nat \<Rightarrow> 16 word"
  qdos_small_font_row :: "char \<Rightarrow> nat \<Rightarrow> 8 word"

type_synonym drawing = "qdos_console \<Rightarrow> qdos_console option"

definition pixel_index :: "int \<Rightarrow> int \<Rightarrow> int" where
  "pixel_index x y = y * QDOS_SCREEN_W + x"

definition change_pixel :: "int \<Rightarrow> int \<Rightarrow> (8 word \<Rightarrow> 8 word) \<Rightarrow> drawing" where
  "change_pixel x y f con =
     (let at = pixel_index x y
      in if at < 0 \<or> int (length (con_fb con)) \<le> at then None
         else Some (con\<lparr>con_fb := (con_fb con)[nat at := f (con_fb con ! nat at)]\<rparr>))"

fun each :: "'a list \<Rightarrow> ('a \<Rightarrow> drawing) \<Rightarrow> drawing" where
  "each [] f con = Some con"
| "each (x # xs) f con = Option.bind (f x con) (each xs f)"

definition DEFAULT_INK :: "8 word" where "DEFAULT_INK = 0x10"
definition DEFAULT_PAPER :: "8 word" where "DEFAULT_PAPER = 0xD8"

definition qdos_console_clear :: "qdos_console \<Rightarrow> qdos_console" where
  "qdos_console_clear con = con\<lparr>con_fb := replicate (nat (QDOS_SCREEN_W * QDOS_SCREEN_H)) (con_paper con)\<rparr>"

definition qdos_console_init :: "qdos_console \<Rightarrow> qdos_console" where
  "qdos_console_init con = qdos_console_clear (con\<lparr>con_ink := DEFAULT_INK, con_paper := DEFAULT_PAPER\<rparr>)"

section \<open>Glyphs and text\<close>

definition blit_glyph :: "fonts \<Rightarrow> int \<Rightarrow> int \<Rightarrow> char \<Rightarrow> nat \<Rightarrow> bool \<Rightarrow> drawing" where
  "blit_glyph fonts x0 y0 ch scale paper_too =
     each [0..<QDOS_FONT_H] (\<lambda>gy.
       let bits = qdos_font_row fonts ch gy
       in each [0..<QDOS_FONT_W] (\<lambda>gx.
            let on = bit bits gx
            in if \<not> on \<and> \<not> paper_too then Some
               else each [0..<scale] (\<lambda>sy.
                 let y = y0 + int (gy * scale + sy)
                 in if y < 0 \<or> QDOS_SCREEN_H \<le> y then Some
                    else each [0..<scale] (\<lambda>sx.
                      let x = x0 + int (gx * scale + sx)
                      in if x < 0 \<or> QDOS_SCREEN_W \<le> x then Some
                         else (\<lambda>con. change_pixel x y (\<lambda>_. if on then con_ink con else con_paper con) con)))))"

definition qdos_console_putc :: "fonts \<Rightarrow> int \<Rightarrow> int \<Rightarrow> char \<Rightarrow> drawing" where
  "qdos_console_putc fonts col row ch =
     (if col < 0 \<or> row < 0 \<or> COLS \<le> col \<or> ROWS \<le> row then Some
      else blit_glyph fonts (col * CELL_W) (row * CELL_H) ch QDOS_FONT_SCALE True)"

text \<open>The loop of \<open>puts\<close>: what is drawn, and how much of it.\<close>

fun puts_from :: "fonts \<Rightarrow> int \<Rightarrow> int \<Rightarrow> cstring \<Rightarrow> int \<Rightarrow> qdos_console \<Rightarrow> (int \<times> qdos_console) option" where
  "puts_from fonts col row [] drawn con = Some (drawn, con)"
| "puts_from fonts col row (c # cs) drawn con =
     (if \<not> col + drawn < COLS then Some (drawn, con)
      else Option.bind (qdos_console_putc fonts (col + drawn) row c con) (puts_from fonts col row cs (drawn + 1)))"

definition qdos_console_puts :: "fonts \<Rightarrow> int \<Rightarrow> int \<Rightarrow> cstring \<Rightarrow> qdos_console \<Rightarrow> (int \<times> qdos_console) option" where
  "qdos_console_puts fonts col row s con = puts_from fonts col row s 0 con"

definition qdos_console_puts_right_within :: "fonts \<Rightarrow> int \<Rightarrow> int \<Rightarrow> cstring \<Rightarrow> drawing" where
  "qdos_console_puts_right_within fonts row from s con =
     (if from < 0 \<or> COLS \<le> from then Some con
      else
        let room = COLS - from
        in if room < int (length s) then
             let keep = room - 1
             in map_option snd (qdos_console_puts fonts from row (take (nat keep) s @ [ELIDED]) con)
           else map_option snd (qdos_console_puts fonts (COLS - int (length s)) row s con))"

definition qdos_console_puts_right :: "fonts \<Rightarrow> int \<Rightarrow> cstring \<Rightarrow> drawing" where
  "qdos_console_puts_right fonts row s = qdos_console_puts_right_within fonts row 0 s"

text \<open>The small font, and the reading font at any pixel.\<close>

definition qdos_console_putc_small :: "fonts \<Rightarrow> int \<Rightarrow> int \<Rightarrow> char \<Rightarrow> drawing" where
  "qdos_console_putc_small fonts x y ch =
     each [0..<SMALL_FONT_H] (\<lambda>gy.
       let py = y + int gy
       in if py < 0 \<or> QDOS_SCREEN_H \<le> py then Some
          else
            let bits = qdos_small_font_row fonts ch gy
            in each [0..<SMALL_FONT_W] (\<lambda>gx.
                 let px = x + int gx
                 in if px < 0 \<or> QDOS_SCREEN_W \<le> px then Some
                    else (\<lambda>con. change_pixel px py (\<lambda>_. if bit bits gx then con_ink con else con_paper con) con)))"

fun qdos_console_puts_small :: "fonts \<Rightarrow> int \<Rightarrow> int \<Rightarrow> cstring \<Rightarrow> drawing" where
  "qdos_console_puts_small fonts x y [] con = Some con"
| "qdos_console_puts_small fonts x y (c # cs) con =
     (if x + int SMALL_FONT_W \<le> QDOS_SCREEN_W
      then Option.bind (qdos_console_putc_small fonts x y c con) (qdos_console_puts_small fonts (x + int SMALL_FONT_W) y cs)
      else Some con)"

fun puts_at_from :: "fonts \<Rightarrow> int \<Rightarrow> int \<Rightarrow> cstring \<Rightarrow> nat \<Rightarrow> drawing" where
  "puts_at_from fonts x y [] scale con = Some con"
| "puts_at_from fonts x y (c # cs) scale con =
     Option.bind (blit_glyph fonts x y c scale False con) (puts_at_from fonts (x + int (QDOS_FONT_W * scale)) y cs scale)"

definition qdos_console_puts_at :: "fonts \<Rightarrow> int \<Rightarrow> int \<Rightarrow> cstring \<Rightarrow> int \<Rightarrow> drawing" where
  "qdos_console_puts_at fonts x y s scale =
     (if scale < 1 then Some else puts_at_from fonts x y s (nat scale))"

definition qdos_console_puts_centered :: "fonts \<Rightarrow> int \<Rightarrow> cstring \<Rightarrow> int \<Rightarrow> drawing" where
  "qdos_console_puts_centered fonts row s scale =
     (if scale < 1 then Some
      else
        let len = int (length s);
            x0 = (QDOS_SCREEN_W - len * int QDOS_FONT_W * scale) sdiv 2
        in each [0..<length s] (\<lambda>i.
             blit_glyph fonts (x0 + int i * int QDOS_FONT_W * scale) (row * CELL_H) (s ! i) (nat scale) False))"

section \<open>Inversion and rules\<close>

definition qdos_console_invert :: "int \<Rightarrow> int \<Rightarrow> int \<Rightarrow> drawing" where
  "qdos_console_invert col row count =
     (if row < 0 \<or> ROWS \<le> row then Some
      else each [col..col + count - 1] (\<lambda>c.
        if c < 0 \<or> COLS \<le> c then Some
        else each [0..CELL_H - 1] (\<lambda>y. each [0..CELL_W - 1] (\<lambda>x.
               change_pixel (c * CELL_W + x) (row * CELL_H + y) (\<lambda>v. 0xFF - v)))))"

definition qdos_console_rule :: "int \<Rightarrow> drawing" where
  "qdos_console_rule row =
     (if row < 0 \<or> ROWS \<le> row then Some
      else
        let y = row * CELL_H + CELL_H - 1
        in each [0..QDOS_SCREEN_W - 1] (\<lambda>x con. change_pixel x y (\<lambda>_. con_ink con) con))"

definition qdos_console_invert_rect :: "int \<Rightarrow> int \<Rightarrow> int \<Rightarrow> int \<Rightarrow> drawing" where
  "qdos_console_invert_rect x y w h =
     each [y..y + h - 1] (\<lambda>py.
       if py < 0 \<or> QDOS_SCREEN_H \<le> py then Some
       else each [x..x + w - 1] (\<lambda>px.
         if px < 0 \<or> QDOS_SCREEN_W \<le> px then Some
         else change_pixel px py (\<lambda>v. 0xFF - v)))"


section \<open>What a drawing does to each pixel\<close>

text \<open>
  An effect says what becomes of each pixel of the panel: the ink, the paper, the place and the level that was there.
  A drawing has an effect when on any full framebuffer it stays inside, and changes the pixels just so.
\<close>

type_synonym effect = "8 word \<Rightarrow> 8 word \<Rightarrow> int \<Rightarrow> int \<Rightarrow> 8 word \<Rightarrow> 8 word"

definition on_screen :: "int \<Rightarrow> int \<Rightarrow> bool" where
  "on_screen x y = (0 \<le> x \<and> x < QDOS_SCREEN_W \<and> 0 \<le> y \<and> y < QDOS_SCREEN_H)"

definition pixel :: "qdos_console \<Rightarrow> int \<Rightarrow> int \<Rightarrow> 8 word" where
  "pixel con x y = con_fb con ! nat (pixel_index x y)"

definition full_size :: "qdos_console \<Rightarrow> bool" where
  "full_size con = (length (con_fb con) = nat (QDOS_SCREEN_W * QDOS_SCREEN_H))"

definition becomes :: "effect \<Rightarrow> qdos_console \<Rightarrow> qdos_console \<Rightarrow> bool" where
  "becomes E con con' =
     (full_size con' \<and> con_ink con' = con_ink con \<and> con_paper con' = con_paper con
      \<and> (\<forall>x y. on_screen x y \<longrightarrow> pixel con' x y = E (con_ink con) (con_paper con) x y (pixel con x y)))"

definition has_effect :: "drawing \<Rightarrow> effect \<Rightarrow> bool" where
  "has_effect d E = (\<forall>con. full_size con \<longrightarrow> (\<exists>con'. d con = Some con' \<and> becomes E con con'))"

lemma screen_size [simp]: "QDOS_SCREEN_W = 400" "QDOS_SCREEN_H = 240"
  by (simp_all add: QDOS_SCREEN_W_def QDOS_SCREEN_H_def)

lemma cell_size [simp]: "QDOS_FONT_W = 16" "QDOS_FONT_H = 24" "QDOS_FONT_SCALE = Suc 0" "CELL_W = 16" "CELL_H = 24"
    "COLS = 25" "ROWS = 10" "SMALL_FONT_W = 8" "SMALL_FONT_H = 16"
  by (simp_all add: QDOS_FONT_W_def QDOS_FONT_H_def QDOS_FONT_SCALE_def CELL_W_def CELL_H_def COLS_def ROWS_def
      SMALL_FONT_W_def SMALL_FONT_H_def)

lemma becomes_trans: "becomes E con con' \<Longrightarrow> becomes E' con' con'' \<Longrightarrow>
    becomes (\<lambda>i p x y v. E' i p x y (E i p x y v)) con con''"
  by (simp add: becomes_def)

lemma effect_none: "has_effect Some (\<lambda>i p x y v. v)"
  by (simp add: has_effect_def becomes_def)

lemma effect_bind:
  assumes "has_effect d E" "has_effect d' E'"
  shows "has_effect (\<lambda>con. Option.bind (d con) d') (\<lambda>i p x y v. E' i p x y (E i p x y v))"
  unfolding has_effect_def
proof (intro allI impI)
  fix con assume "full_size con"
  then obtain con' where d: "d con = Some con'" "becomes E con con'" using assms(1) by (auto simp: has_effect_def)
  then have "full_size con'" by (simp add: becomes_def)
  then obtain con'' where "d' con' = Some con''" "becomes E' con' con''" using assms(2) by (auto simp: has_effect_def)
  then show "\<exists>con''. Option.bind (d con) d' = Some con'' \<and> becomes (\<lambda>i p x y v. E' i p x y (E i p x y v)) con con''"
    using d becomes_trans by auto
qed

lemma effect_cong:
  assumes "has_effect d E" "\<And>i p x y v. on_screen x y \<Longrightarrow> E i p x y v = E' i p x y v"
  shows "has_effect d E'"
  using assms by (simp add: has_effect_def becomes_def)

lemma effect_each:
  "(\<And>a. a \<in> set xs \<Longrightarrow> has_effect (f a) (E a)) \<Longrightarrow>
     has_effect (each xs f) (\<lambda>i p x y. fold (\<lambda>a. E a i p x y) xs)"
proof (induction xs)
  case Nil then show ?case using effect_none by (simp add: has_effect_def)
next
  case (Cons a xs)
  then have "has_effect (\<lambda>con. Option.bind (f a con) (each xs f))
      (\<lambda>i p x y v. fold (\<lambda>a. E a i p x y) xs (E a i p x y v))"
    by (intro effect_bind) auto
  then show ?case by (simp add: comp_def has_effect_def)
qed

lemma same_pixel:
  assumes "on_screen x y" "on_screen x' y'" "pixel_index x y = pixel_index x' y'"
  shows "x = x' \<and> y = y'"
proof -
  have "pixel_index a b div 400 = b \<and> pixel_index a b mod 400 = a" if "on_screen a b" for a b
    using that by (simp add: on_screen_def pixel_index_def)
  then show ?thesis using assms by metis
qed

lemma same_console:
  assumes "full_size con" "full_size con'" "con_ink con = con_ink con'" "con_paper con = con_paper con'"
    and "\<And>x y. on_screen x y \<Longrightarrow> pixel con x y = pixel con' x y"
  shows "con = con'"
proof -
  have "con_fb con ! k = con_fb con' ! k" if "k < nat (QDOS_SCREEN_W * QDOS_SCREEN_H)" for k
  proof -
    have "on_screen (int k mod 400) (int k div 400)" using that by (auto simp: on_screen_def)
    from assms(5) [OF this] show ?thesis by (simp add: pixel_def pixel_index_def)
  qed
  then have "con_fb con = con_fb con'" using assms by (intro nth_equalityI) (auto simp: full_size_def)
  then show ?thesis using assms by simp
qed

lemma effect_change:
  assumes "on_screen X Y"
  shows "has_effect (\<lambda>con. change_pixel X Y (f (con_ink con) (con_paper con)) con)
    (\<lambda>i p x y v. if x = X \<and> y = Y then f i p v else v)"
  unfolding has_effect_def
proof (intro allI impI)
  fix con assume full: "full_size con"
  let ?at = "nat (pixel_index X Y)"
  let ?con = "con\<lparr>con_fb := (con_fb con)[?at := f (con_ink con) (con_paper con) (con_fb con ! ?at)]\<rparr>"
  have inside: "0 \<le> pixel_index x y" "nat (pixel_index x y) < length (con_fb con)" if "on_screen x y" for x y
    using that full by (auto simp: on_screen_def pixel_index_def full_size_def nat_less_iff)
  have "change_pixel X Y (f (con_ink con) (con_paper con)) con = Some ?con"
    using inside [OF assms] by (auto simp: change_pixel_def Let_def)
  moreover have "pixel ?con x y = (if x = X \<and> y = Y then f (con_ink con) (con_paper con) (pixel con x y) else pixel con x y)"
    if "on_screen x y" for x y
    using inside [OF that] inside [OF assms] same_pixel [OF that assms]
    by (auto simp: pixel_def nth_list_update eq_nat_nat_iff)
  ultimately show "\<exists>con'. change_pixel X Y (f (con_ink con) (con_paper con)) con = Some con' \<and>
      becomes (\<lambda>i p x y v. if x = X \<and> y = Y then f i p v else v) con con'"
    using full by (simp add: becomes_def full_size_def)
qed

text \<open>A loop over places next to each other reaches each of them once.\<close>

lemma fold_tiles:
  fixes z start s :: int
  assumes "0 < s"
  shows "fold (\<lambda>g v. if start + int g * s \<le> z \<and> z < start + int g * s + s then G g v else v) [0..<n] v =
    (if start \<le> z \<and> z < start + int n * s then G (nat ((z - start) div s)) v else v)"
proof (induction n)
  case 0 then show ?case by auto
next
  case (Suc n)
  have at: "(z - start) div s = int n" if "start + int n * s \<le> z" "z < start + int n * s + s"
    using that by (intro int_div_pos_eq [where r = "z - start - s * int n"]) (auto simp: algebra_simps)
  define k where "k = int n * s"
  have "int (Suc n) * s = k + s" by (simp add: algebra_simps k_def)
  moreover have "0 \<le> k" using assms by (simp add: k_def)
  ultimately show ?case using Suc at assms unfolding k_def [symmetric] by (simp add: k_def [symmetric])
qed

lemma fold_nothing [simp]: "fold (\<lambda>g v. v) xs v = v"
  by (induction xs) auto

lemma fold_steps:
  "fold (\<lambda>g v. if z = start + int g then G g v else v) [0..<n] v =
    (if start \<le> z \<and> z < start + int n then G (nat (z - start)) v else v)"
proof -
  have "(z = start + int g) = (start + int g * 1 \<le> z \<and> z < start + int g * 1 + 1)" for g by auto
  then show ?thesis using fold_tiles [of 1 start z G n v] by simp
qed

lemma fold_range:
  "fold (\<lambda>g v. if z = g then G g v else v) [a..b] v = (if a \<le> z \<and> z \<le> b then G z v else v)" for z :: int
proof (induction "nat (b + 1 - a)" arbitrary: a v)
  case 0 then show ?case by (auto simp: upto.simps)
next
  case (Suc n)
  then have "n = nat (b + 1 - (a + 1))" "a \<le> b" by auto
  then show ?case using Suc(1) [of "a + 1"] by (auto simp: upto.simps [of a])
qed


section \<open>The effect of each operation\<close>

text \<open>A glyph's dot at a place counted from its corner.\<close>

definition dot :: "fonts \<Rightarrow> char \<Rightarrow> nat \<Rightarrow> int \<Rightarrow> int \<Rightarrow> bool" where
  "dot fonts ch scale dx dy = bit (qdos_font_row fonts ch (nat (dy div int scale))) (nat (dx div int scale))"

definition glyph_effect :: "fonts \<Rightarrow> int \<Rightarrow> int \<Rightarrow> char \<Rightarrow> nat \<Rightarrow> bool \<Rightarrow> effect" where
  "glyph_effect fonts x0 y0 ch scale paper_too i p x y v =
     (if x0 \<le> x \<and> x < x0 + 16 * int scale \<and> y0 \<le> y \<and> y < y0 + 24 * int scale
      then if dot fonts ch scale (x - x0) (y - y0) then i else if paper_too then p else v
      else v)"

lemma effect_tiles:
  fixes c :: "int \<Rightarrow> int \<Rightarrow> int"
  assumes "0 < s"
    and "\<And>g. g < n \<Longrightarrow> has_effect (f g)
      (\<lambda>i p x y v. if B x y \<and> start + int g * s \<le> c x y \<and> c x y < start + int g * s + s then G g i p x y v else v)"
  shows "has_effect (each [0..<n] f)
      (\<lambda>i p x y v. if B x y \<and> start \<le> c x y \<and> c x y < start + int n * s then G (nat ((c x y - start) div s)) i p x y v else v)"
proof (rule effect_cong, rule effect_each)
  fix g assume "g \<in> set [0..<n]"
  then show "has_effect (f g)
      (\<lambda>i p x y v. if B x y \<and> start + int g * s \<le> c x y \<and> c x y < start + int g * s + s then G g i p x y v else v)"
    using assms(2) by simp
next
  fix i p x y v
  show "fold (\<lambda>g v. if B x y \<and> start + int g * s \<le> c x y \<and> c x y < start + int g * s + s then G g i p x y v else v) [0..<n] v =
      (if B x y \<and> start \<le> c x y \<and> c x y < start + int n * s then G (nat ((c x y - start) div s)) i p x y v else v)"
  proof (cases "B x y")
    case True then show ?thesis using fold_tiles [OF assms(1), of start "c x y" "\<lambda>g. G g i p x y" n v] by simp
  next
    case False then show ?thesis by simp
  qed
qed

lemma effect_steps:
  fixes c :: "int \<Rightarrow> int \<Rightarrow> int"
  assumes "\<And>g. g < n \<Longrightarrow> has_effect (f g)
      (\<lambda>i p x y v. if B x y \<and> c x y = start + int g then G g i p x y v else v)"
  shows "has_effect (each [0..<n] f)
      (\<lambda>i p x y v. if B x y \<and> start \<le> c x y \<and> c x y < start + int n then G (nat (c x y - start)) i p x y v else v)"
proof (rule effect_cong, rule effect_tiles [where s = 1 and start = start and c = c and B = B and G = G])
  fix g assume "g < n"
  from effect_cong [OF assms [OF this]]
  show "has_effect (f g)
      (\<lambda>i p x y v. if B x y \<and> start + int g * 1 \<le> c x y \<and> c x y < start + int g * 1 + 1 then G g i p x y v else v)"
    by auto
qed auto

lemma effect_off:
  "(\<And>x y. on_screen x y \<Longrightarrow> \<not> B x y) \<Longrightarrow> has_effect Some (\<lambda>i p x y v. if B x y then E i p x y v else v)"
  by (rule effect_cong [OF effect_none]) auto

lemma effect_dot:
  "has_effect (if x0 < 0 \<or> QDOS_SCREEN_W \<le> x0 \<or> y0 < 0 \<or> QDOS_SCREEN_H \<le> y0 then Some
      else (\<lambda>con. change_pixel x0 y0 (f (con_ink con) (con_paper con)) con))
    (\<lambda>i p x y v. if y = y0 \<and> x = x0 then f i p v else v)"
proof (cases "on_screen x0 y0")
  case True
  then show ?thesis using effect_cong [OF effect_change [OF True, of f]] by (auto simp: on_screen_def conj_commute)
next
  case False
  then have "has_effect Some (\<lambda>i p x y v. if y = y0 \<and> x = x0 then f i p v else v)" by (intro effect_off) auto
  then show ?thesis using False by (auto simp: on_screen_def)
qed

lemma effect_glyph:
  assumes "0 < scale"
  shows "has_effect (blit_glyph fonts x0 y0 ch scale paper_too) (glyph_effect fonts x0 y0 ch scale paper_too)"
proof -
  let ?s = "int scale"
  have pos: "0 < ?s" using assms by simp
  let ?on = "\<lambda>gy gx. bit (qdos_font_row fonts ch gy) gx"
  let ?G = "\<lambda>gy gx (i::8 word) p (x::int) (y::int) v. if ?on gy gx then i else if paper_too then p else v"
  have line: "has_effect (if y < 0 \<or> QDOS_SCREEN_H \<le> y then Some else each [0..<scale] (\<lambda>sx.
        let x = x0 + int (gx * scale + sx) in if x < 0 \<or> QDOS_SCREEN_W \<le> x then Some
          else (\<lambda>con. change_pixel x y (\<lambda>_. if on then con_ink con else con_paper con) con)))
      (\<lambda>i p x y' v. if (y' = y \<and> x0 + int gx * ?s \<le> x \<and> x < x0 + int gx * ?s + ?s) then if on then i else p else v)"
    for y gx on
  proof (cases "y < 0 \<or> QDOS_SCREEN_H \<le> y")
    case True
    then show ?thesis by (auto intro!: effect_off simp: on_screen_def)
  next
    case False
    show ?thesis
    proof (rule effect_cong)
      show "has_effect (if y < 0 \<or> QDOS_SCREEN_H \<le> y then Some else each [0..<scale] (\<lambda>sx.
          let x = x0 + int (gx * scale + sx) in if x < 0 \<or> QDOS_SCREEN_W \<le> x then Some
            else (\<lambda>con. change_pixel x y (\<lambda>_. if on then con_ink con else con_paper con) con)))
        (\<lambda>i p x y' v. if y' = y \<and> x0 + int gx * ?s \<le> x \<and> x < x0 + int gx * ?s + ?s then if on then i else p else v)"
        unfolding Let_def
      proof (simp only: False if_False, rule effect_steps [where c = "\<lambda>x y. x"])
        fix sx
        show "has_effect (if x0 + int (gx * scale + sx) < 0 \<or> QDOS_SCREEN_W \<le> x0 + int (gx * scale + sx) then Some
            else (\<lambda>con. change_pixel (x0 + int (gx * scale + sx)) y (\<lambda>_. if on then con_ink con else con_paper con) con))
          (\<lambda>i p x y' v. if y' = y \<and> x = x0 + int gx * ?s + int sx then if on then i else p else v)"
          using effect_dot [of "x0 + int (gx * scale + sx)" y "\<lambda>i p _. if on then i else p"] False
          by (simp add: add.assoc)
      qed
    qed simp
  qed
  have cell: "has_effect (if \<not> ?on gy gx \<and> \<not> paper_too then Some
      else each [0..<scale] (\<lambda>sy. let y = y0 + int (gy * scale + sy)
         in if y < 0 \<or> QDOS_SCREEN_H \<le> y then Some else each [0..<scale] (\<lambda>sx.
          let x = x0 + int (gx * scale + sx) in if x < 0 \<or> QDOS_SCREEN_W \<le> x then Some
            else (\<lambda>con. change_pixel x y (\<lambda>_. if ?on gy gx then con_ink con else con_paper con) con))))
    (\<lambda>i p x y v. if (y0 + int gy * ?s \<le> y \<and> y < y0 + int gy * ?s + ?s) \<and> x0 + int gx * ?s \<le> x \<and> x < x0 + int gx * ?s + ?s
       then ?G gy gx i p x y v else v)" for gy gx
  proof (cases "\<not> ?on gy gx \<and> \<not> paper_too")
    case True
    then show ?thesis using effect_cong [OF effect_none] by auto
  next
    case False
    show ?thesis unfolding if_not_P [OF False] Let_def
    proof (rule effect_cong, rule effect_steps [where c = "\<lambda>x y. y" and start = "y0 + int gy * ?s"
            and B = "\<lambda>x y. x0 + int gx * ?s \<le> x \<and> x < x0 + int gx * ?s + ?s" and G = "\<lambda>_. ?G gy gx"], goal_cases)
      case (1 sy)
      show ?case using effect_cong [OF line [of "y0 + int (gy * scale + sy)" gx "?on gy gx"]] False
        unfolding Let_def by (auto simp: add.assoc)
    next
      case (2 i p x y v) then show ?case by auto
    qed
  qed
  show ?thesis unfolding blit_glyph_def Let_def
  proof (rule effect_cong, rule effect_tiles [OF pos, where c = "\<lambda>x y. y" and start = y0
          and B = "\<lambda>x y. x0 \<le> x \<and> x < x0 + int 16 * ?s"
          and G = "\<lambda>gy i p x y v. ?G gy (nat ((x - x0) div ?s)) i p x y v"], goal_cases)
    case (1 gy)
    show ?case
    proof (rule effect_cong, unfold cell_size, rule effect_tiles [OF pos, where c = "\<lambda>x y. x" and start = x0
          and B = "\<lambda>x y. y0 + int gy * ?s \<le> y \<and> y < y0 + int gy * ?s + ?s" and G = "?G gy"], goal_cases)
      case (1 gx) then show ?case using cell [of gy gx] unfolding Let_def by simp
    next
      case (2 i p x y v) then show ?case by simp
    qed
  next
    case (2 i p x y v) then show ?case by (simp add: glyph_effect_def dot_def)
  qed
qed


text \<open>Text over a row of cells, counted from a column.\<close>

definition shown_text :: "fonts \<Rightarrow> int \<Rightarrow> int \<Rightarrow> cstring \<Rightarrow> effect" where
  "shown_text fonts col row s i p x y v =
     (let c = x div CELL_W
      in if y div CELL_H = row \<and> col \<le> c \<and> c < col + int (length s)
         then if dot fonts (s ! nat (c - col)) 1 (x mod CELL_W) (y mod CELL_H) then i else p
         else v)"

lemma effect_putc: "has_effect (qdos_console_putc fonts col row ch) (glyph_effect fonts (col * 16) (row * 24) ch 1 True)"
proof (cases "col < 0 \<or> row < 0 \<or> COLS \<le> col \<or> ROWS \<le> row")
  case True
  then have off: "\<not> (col * 16 \<le> x \<and> x < col * 16 + 16 \<and> row * 24 \<le> y \<and> y < row * 24 + 24)" if "on_screen x y" for x y
    using that by (auto simp: on_screen_def)
  have "has_effect Some (glyph_effect fonts (col * 16) (row * 24) ch 1 True)"
  proof (rule effect_cong [OF effect_none])
    fix i p v :: "8 word" and x y :: int assume "on_screen x y"
    from off [OF this] show "v = glyph_effect fonts (col * 16) (row * 24) ch 1 True i p x y v"
      by (auto simp: glyph_effect_def)
  qed
  then show ?thesis unfolding qdos_console_putc_def if_P [OF True] .
next
  case False
  show ?thesis unfolding qdos_console_putc_def if_not_P [OF False]
    using effect_glyph [of 1 fonts "col * 16" "row * 24" ch True] by simp
qed

lemma glyph_is_text: "glyph_effect fonts (col * 16) (row * 24) ch 1 True = shown_text fonts col row [ch]"
proof (intro ext)
  fix i p v :: "8 word" and x y :: int
  have at: "(col * 16 \<le> x \<and> x < col * 16 + 16 * int 1 \<and> row * 24 \<le> y \<and> y < row * 24 + 24 * int 1)
      = (y div CELL_H = row \<and> col \<le> x div CELL_W \<and> x div CELL_W < col + int (length [ch]))"
    by auto
  have m: "x - col * 16 = x mod CELL_W" "y - row * 24 = y mod CELL_H" "[ch] ! nat (x div CELL_W - col) = ch"
    if "y div CELL_H = row \<and> col \<le> x div CELL_W \<and> x div CELL_W < col + int (length [ch])"
    using that by (auto simp: minus_div_mult_eq_mod [symmetric])
  show "glyph_effect fonts (col * 16) (row * 24) ch 1 True i p x y v = shown_text fonts col row [ch] i p x y v"
    unfolding glyph_effect_def shown_text_def Let_def at using m by (simp cong: if_cong del: cell_size)
qed

lemma shown_text_cons:
  "shown_text fonts (col + 1) row s i p x y (shown_text fonts col row [c] i p x y v) = shown_text fonts col row (c # s) i p x y v"
proof -
  have "s ! nat (x div 16 - (col + 1)) = (c # s) ! nat (x div 16 - col)" if "col + 1 \<le> x div 16"
  proof -
    have "nat (x div 16 - col) = Suc (nat (x div 16 - (col + 1)))" using that by simp
    then show ?thesis by simp
  qed
  moreover have "x div 16 = col" if "\<not> col + 1 \<le> x div 16" "col \<le> x div 16" using that by simp
  ultimately show ?thesis
    unfolding shown_text_def Let_def cell_size by (cases "col + 1 \<le> x div 16"; cases "col \<le> x div 16") auto
qed

lemma puts_from_shows:
  assumes "full_size con"
  shows "\<exists>con'. puts_from fonts col row s drawn con
      = Some (if COLS \<le> col + drawn then drawn else min (drawn + int (length s)) (COLS - col), con')
    \<and> becomes (shown_text fonts (col + drawn) row s) con con'"
  using assms
proof (induction s arbitrary: drawn con)
  case Nil
  then show ?case by (auto simp: becomes_def shown_text_def Let_def)
next
  case (Cons c s)
  show ?case
  proof (cases "col + drawn < COLS")
    case True
    obtain con' where one: "qdos_console_putc fonts (col + drawn) row c con = Some con'"
        "becomes (shown_text fonts (col + drawn) row [c]) con con'"
      using effect_putc [of fonts "col + drawn" row c] Cons.prems unfolding glyph_is_text has_effect_def by blast
    then have "full_size con'" by (simp add: becomes_def)
    from Cons.IH [OF this, of "drawn + 1"] obtain con'' where
      two: "puts_from fonts col row s (drawn + 1) con'
          = Some (if COLS \<le> col + (drawn + 1) then drawn + 1 else min (drawn + 1 + int (length s)) (COLS - col), con'')"
        "becomes (shown_text fonts (col + drawn + 1) row s) con' con''"
      by (auto simp: add.assoc)
    have "becomes (shown_text fonts (col + drawn) row (c # s)) con con''"
      using becomes_trans [OF one(2) two(2)] by (simp add: shown_text_cons)
    then show ?thesis using one two True by auto
  next
    case False
    then have "shown_text fonts (col + drawn) row (c # s) i p x y v = v" if "on_screen x y" for i p x y v
      using that by (auto simp: shown_text_def on_screen_def Let_def)
    then show ?thesis using False Cons.prems by (auto simp: becomes_def)
  qed
qed

text \<open>C34. \<open>qdos_console_puts\<close> on a full framebuffer always returns, having written inside it only: each cell of the row
from the column on shows its character's glyph in ink on paper up to the right edge, every other pixel keeps its level,
and what is returned is how many characters were drawn.\<close>

theorem text_is_shown:
  assumes "full_size con" "0 \<le> col"
  shows "\<exists>con'. qdos_console_puts fonts col row s con
      = Some (if COLS \<le> col then 0 else min (int (length s)) (COLS - col), con')
    \<and> becomes (shown_text fonts col row s) con con'"
  unfolding qdos_console_puts_def
  using puts_from_shows [OF assms(1), of fonts col row s 0, unfolded add_0_left add_0_right] .


definition blank_console :: qdos_console where
  "blank_console = qdos_console_init \<lparr>con_fb = [], con_ink = 0, con_paper = 0\<rparr>"

lemma init_is_full: "full_size (qdos_console_init con)"
  by (simp add: full_size_def qdos_console_init_def qdos_console_clear_def)

lemma text_is_shown_witness:
  "full_size blank_console \<and> (0::int) \<le> 20 \<and>
   (\<forall>fonts. \<exists>con'. qdos_console_puts fonts 20 3 ''overflow'' blank_console = Some (5, con')
    \<and> becomes (shown_text fonts 20 3 ''overflow'') blank_console con')"
proof (intro conjI allI)
  show full: "full_size blank_console" by (simp add: blank_console_def init_is_full)
  fix fonts
  show "\<exists>con'. qdos_console_puts fonts 20 3 ''overflow'' blank_console = Some (5, con')
    \<and> becomes (shown_text fonts 20 3 ''overflow'') blank_console con'"
    using text_is_shown [OF full, of 20 fonts 3 "''overflow''"] by simp
qed simp

text \<open>The text a right-aligned line shows, and the column it starts at.\<close>

definition right_fit :: "int \<Rightarrow> cstring \<Rightarrow> int \<times> cstring" where
  "right_fit from s =
     (if COLS - from < int (length s) then (from, take (nat (COLS - from - 1)) s @ [ELIDED])
      else (COLS - int (length s), s))"

lemma puts_effect: "has_effect (\<lambda>con. map_option snd (qdos_console_puts fonts col row s con)) (shown_text fonts col row s)"
  unfolding has_effect_def qdos_console_puts_def
proof (intro allI impI)
  fix con assume "full_size con"
  from puts_from_shows [OF this, of fonts col row s 0]
  show "\<exists>con'. map_option snd (puts_from fonts col row s 0 con) = Some con' \<and> becomes (shown_text fonts col row s) con con'"
    unfolding add_0_right by fastforce
qed

text \<open>Right-aligned text on a full framebuffer: inside the field's columns the text is shown whole with its last
character in the last column when there is room, and otherwise its first characters fill the field up to the mark for
what was dropped, which is in the last column: the head of a number is never lost, and no cell left of the field changes.\<close>

theorem right_text_keeps_its_head:
  assumes "full_size con" "0 \<le> left" "left < COLS" "right_fit left s = (col, shown)"
  shows "(\<exists>con'. qdos_console_puts_right_within fonts row left s con = Some con' \<and> becomes (shown_text fonts col row shown) con con')
    \<and> left \<le> col \<and> col + int (length shown) = COLS
    \<and> shown = (if COLS - left < int (length s) then take (nat (COLS - col - 1)) s @ [ELIDED] else s)"
proof (intro conjI)
  have "qdos_console_puts_right_within fonts row left s con = map_option snd (qdos_console_puts fonts col row shown con)"
    using assms by (auto simp: qdos_console_puts_right_within_def right_fit_def Let_def split: if_splits)
  then show "\<exists>con'. qdos_console_puts_right_within fonts row left s con = Some con' \<and> becomes (shown_text fonts col row shown) con con'"
    using puts_effect assms(1) unfolding has_effect_def by metis
  show "left \<le> col" "col + int (length shown) = COLS"
      "shown = (if COLS - left < int (length s) then take (nat (COLS - col - 1)) s @ [ELIDED] else s)"
    using assms by (auto simp: right_fit_def min_def split: if_splits)
qed

lemma right_text_keeps_its_head_witness:
  "\<forall>fonts. \<exists>con'. qdos_console_puts_right_within fonts 0 20 ''123456'' blank_console = Some con'
     \<and> becomes (shown_text fonts 20 0 ''1234~'') blank_console con'"
proof
  fix fonts
  have full: "full_size blank_console" by (simp add: blank_console_def init_is_full)
  have fit: "right_fit 20 ''123456'' = (20, ''1234~'')" by (simp add: right_fit_def ELIDED_def)
  show "\<exists>con'. qdos_console_puts_right_within fonts 0 20 ''123456'' blank_console = Some con'
     \<and> becomes (shown_text fonts 20 0 ''1234~'') blank_console con'"
    by (rule conjunct1 [OF right_text_keeps_its_head [OF full _ _ fit]]) simp_all
qed

section \<open>The other drawings\<close>

definition small_effect :: "fonts \<Rightarrow> int \<Rightarrow> int \<Rightarrow> char \<Rightarrow> effect" where
  "small_effect fonts x0 y0 ch i p x y v =
     (if x0 \<le> x \<and> x < x0 + 8 \<and> y0 \<le> y \<and> y < y0 + 16
      then if bit (qdos_small_font_row fonts ch (nat (y - y0))) (nat (x - x0)) then i else p
      else v)"

lemma effect_putc_small: "has_effect (qdos_console_putc_small fonts x0 y0 ch) (small_effect fonts x0 y0 ch)"
proof -
  have line: "has_effect (if py < 0 \<or> QDOS_SCREEN_H \<le> py then Some else each [0..<8] (\<lambda>gx. let px = x0 + int gx
      in if px < 0 \<or> QDOS_SCREEN_W \<le> px then Some
         else (\<lambda>con. change_pixel px py (\<lambda>_. if bit bits gx then con_ink con else con_paper con) con)))
    (\<lambda>i p x y v. if (x0 \<le> x \<and> x < x0 + 8) \<and> y = py then if bit bits (nat (x - x0)) then i else p else v)"
    for py and bits :: "8 word"
  proof (cases "py < 0 \<or> QDOS_SCREEN_H \<le> py")
    case True
    then show ?thesis by (auto intro!: effect_off simp: on_screen_def)
  next
    case False
    show ?thesis unfolding if_not_P [OF False]
    proof (rule effect_cong, rule effect_steps [where c = "\<lambda>x y. x" and start = x0 and B = "\<lambda>x y. y = py"
            and G = "\<lambda>gx i p x y v. if bit bits gx then i else p"], goal_cases)
      case (1 gx)
      show ?case using effect_dot [of "x0 + int gx" py "\<lambda>i p _. if bit bits gx then i else p"] False
        unfolding Let_def by simp
    qed auto
  qed
  show ?thesis unfolding qdos_console_putc_small_def Let_def
  proof (rule effect_cong, rule effect_steps [where c = "\<lambda>x y. y" and start = y0 and B = "\<lambda>x y. x0 \<le> x \<and> x < x0 + 8"
          and G = "\<lambda>gy i p x y v. if bit (qdos_small_font_row fonts ch gy) (nat (x - x0)) then i else p"], goal_cases)
    case (1 gy)
    show ?case using line [of "y0 + int gy" "qdos_small_font_row fonts ch gy"] unfolding Let_def cell_size .
  qed (auto simp: small_effect_def)
qed


lemma effect_flip:
  assumes "on_screen X Y"
  shows "has_effect (change_pixel X Y (\<lambda>v. 0xFF - v)) (\<lambda>i p x y v. if y = Y \<and> x = X then 0xFF - v else v)"
  using effect_cong [OF effect_change [OF assms, of "\<lambda>_ _ v. 0xFF - v"]] by (simp add: conj_commute)

lemma effect_each_of_range:
  fixes c :: "int \<Rightarrow> int \<Rightarrow> int"
  assumes "\<And>g. a \<le> g \<Longrightarrow> g \<le> b \<Longrightarrow> has_effect (f g) (\<lambda>i p x y v. if B x y \<and> c x y = g then G g i p x y v else v)"
  shows "has_effect (each [a..b] f) (\<lambda>i p x y v. if B x y \<and> a \<le> c x y \<and> c x y \<le> b then G (c x y) i p x y v else v)"
proof (rule effect_cong, rule effect_each)
  fix g assume "g \<in> set [a..b]"
  then show "has_effect (f g) (\<lambda>i p x y v. if B x y \<and> c x y = g then G g i p x y v else v)" using assms by simp
next
  fix i p x y v
  show "fold (\<lambda>g v. if B x y \<and> c x y = g then G g i p x y v else v) [a..b] v
      = (if B x y \<and> a \<le> c x y \<and> c x y \<le> b then G (c x y) i p x y v else v)"
    using fold_range [of "c x y" "\<lambda>g. G g i p x y" a b v] by (cases "B x y") simp_all
qed

definition flipped :: "(int \<Rightarrow> int \<Rightarrow> bool) \<Rightarrow> effect" where
  "flipped P i p x y v = (if P x y then 0xFF - v else v)"

lemma effect_invert_rect:
  "has_effect (qdos_console_invert_rect x0 y0 w h) (flipped (\<lambda>x y. x0 \<le> x \<and> x < x0 + w \<and> y0 \<le> y \<and> y < y0 + h))"
proof -
  have line: "has_effect (if py < 0 \<or> QDOS_SCREEN_H \<le> py then Some else each [x0..x0 + w - 1] (\<lambda>px.
      if px < 0 \<or> QDOS_SCREEN_W \<le> px then Some else change_pixel px py (\<lambda>v. 0xFF - v)))
    (\<lambda>i p x y v. if (x0 \<le> x \<and> x < x0 + w) \<and> y = py then 0xFF - v else v)" for py
  proof (cases "py < 0 \<or> QDOS_SCREEN_H \<le> py")
    case True
    then show ?thesis by (auto intro!: effect_off simp: on_screen_def)
  next
    case False
    show ?thesis unfolding if_not_P [OF False]
    proof (rule effect_cong, rule effect_each_of_range [where c = "\<lambda>x y. x" and B = "\<lambda>x y. y = py"
            and G = "\<lambda>g i p x y v. 0xFF - v"], goal_cases)
      case (1 px)
      show ?case using effect_flip [of px py] False
        by (auto simp: on_screen_def intro!: effect_off)
    qed auto
  qed
  show ?thesis unfolding qdos_console_invert_rect_def
  proof (rule effect_cong, rule effect_each_of_range [where c = "\<lambda>x y. y" and B = "\<lambda>x y. x0 \<le> x \<and> x < x0 + w"
          and G = "\<lambda>g i p x y v. 0xFF - v"], goal_cases)
    case (1 py) show ?case using line [of py] .
  qed (auto simp: flipped_def)
qed

lemma effect_invert:
  "has_effect (qdos_console_invert col row count)
     (flipped (\<lambda>x y. y div CELL_H = row \<and> col \<le> x div CELL_W \<and> x div CELL_W < col + count))"
proof (cases "row < 0 \<or> ROWS \<le> row")
  case True
  then have "\<not> (y div 24 = row)" if "on_screen x y" for x y using that by (auto simp: on_screen_def)
  then show ?thesis using True by (auto simp: qdos_console_invert_def flipped_def intro!: effect_cong [OF effect_none])
next
  case False
  have dots: "has_effect (each [0..CELL_H - 1] (\<lambda>y. each [0..CELL_W - 1] (\<lambda>x.
      change_pixel (c * CELL_W + x) (row * CELL_H + y) (\<lambda>v. 0xFF - v))))
    (\<lambda>i p x y v. if y div CELL_H = row \<and> x div CELL_W = c then 0xFF - v else v)" if "0 \<le> c" "c < COLS" for c
  proof (rule effect_cong, rule effect_each_of_range [where c = "\<lambda>x y. y - row * 24" and B = "\<lambda>x y. c * 16 \<le> x \<and> x < c * 16 + 16"
          and G = "\<lambda>g i p x y v. 0xFF - v"], goal_cases)
    case (1 dy)
    show ?case
    proof (rule effect_cong, rule effect_each_of_range [where c = "\<lambda>x y. x - c * 16" and B = "\<lambda>x y. y = row * 24 + dy"
            and G = "\<lambda>g i p x y v. 0xFF - v"], goal_cases)
      case (1 dx)
      have "on_screen (c * 16 + dx) (row * 24 + dy)" using 1 \<open>0 \<le> dy\<close> \<open>dy \<le> CELL_H - 1\<close> that False
        by (auto simp: on_screen_def)
      from effect_cong [OF effect_flip [OF this]] show ?case by auto
    qed auto
  qed auto
  show ?thesis unfolding qdos_console_invert_def if_not_P [OF False]
  proof (rule effect_cong, rule effect_each_of_range [where c = "\<lambda>x y. x div CELL_W" and B = "\<lambda>x y. y div CELL_H = row"
          and G = "\<lambda>g i p x y v. 0xFF - v"], goal_cases)
    case (1 c)
    then show ?case using dots [of c] by (auto simp: on_screen_def intro!: effect_off)
  qed (auto simp: flipped_def)
qed


text \<open>Inverting cells, on a full framebuffer, always returns, complements each pixel of those cells of the row that
are on the panel and no other, and inverting the same cells again gives back the framebuffer it began with.\<close>

theorem inverting_twice_restores:
  assumes "full_size con"
  shows "\<exists>con'. qdos_console_invert col row count con = Some con'
    \<and> becomes (flipped (\<lambda>x y. y div CELL_H = row \<and> col \<le> x div CELL_W \<and> x div CELL_W < col + count)) con con'
    \<and> qdos_console_invert col row count con' = Some con"
proof -
  let ?P = "\<lambda>x y. y div CELL_H = row \<and> col \<le> x div CELL_W \<and> x div CELL_W < col + count"
  obtain con' where one: "qdos_console_invert col row count con = Some con'" "becomes (flipped ?P) con con'"
    using effect_invert assms unfolding has_effect_def by blast
  then have full: "full_size con'" by (simp add: becomes_def)
  then obtain con'' where two: "qdos_console_invert col row count con' = Some con''" "becomes (flipped ?P) con' con''"
    using effect_invert unfolding has_effect_def by blast
  have "con'' = con"
  proof (rule same_console)
    fix x y assume "on_screen x y"
    then show "pixel con'' x y = pixel con x y" using one(2) two(2) by (simp add: becomes_def flipped_def)
  qed (use one two assms in \<open>auto simp: becomes_def\<close>)
  then show ?thesis using one two by auto
qed

lemma inverting_twice_restores_witness:
  "\<exists>con'. qdos_console_invert 3 9 4 blank_console = Some con'
    \<and> becomes (flipped (\<lambda>x y. y div CELL_H = 9 \<and> 3 \<le> x div CELL_W \<and> x div CELL_W < 3 + 4)) blank_console con'
    \<and> qdos_console_invert 3 9 4 con' = Some blank_console"
  by (rule inverting_twice_restores) (simp add: blank_console_def init_is_full)

lemma effect_rule:
  "has_effect (qdos_console_rule row)
    (\<lambda>i p x y v. if 0 \<le> row \<and> row < ROWS \<and> y = row * CELL_H + CELL_H - 1 then i else v)"
proof (cases "row < 0 \<or> ROWS \<le> row")
  case True
  then show ?thesis by (auto simp: qdos_console_rule_def intro!: effect_cong [OF effect_none])
next
  case False
  show ?thesis unfolding qdos_console_rule_def if_not_P [OF False] Let_def
  proof (rule effect_cong, rule effect_each_of_range [where c = "\<lambda>x y. x" and B = "\<lambda>x y. y = row * CELL_H + CELL_H - 1"
          and G = "\<lambda>g i p x y v. i"], goal_cases)
    case (1 x)
    have "on_screen x (row * CELL_H + CELL_H - 1)" using 1 False by (auto simp: on_screen_def)
    from effect_cong [OF effect_change [OF this, of "\<lambda>i p _. i"]] show ?case by (auto simp: conj_commute)
  next
    case 2 then show ?case using False by (auto simp: on_screen_def)
  qed
qed

text \<open>Text at any pixel and size, drawn over what is there.\<close>

definition scaled_text :: "fonts \<Rightarrow> int \<Rightarrow> int \<Rightarrow> nat \<Rightarrow> cstring \<Rightarrow> effect" where
  "scaled_text fonts x0 y0 scale s i p x y v =
     (let w = int (QDOS_FONT_W * scale); at = (x - x0) div w
      in if 0 \<le> at \<and> at < int (length s) \<and> y0 \<le> y \<and> y < y0 + int (QDOS_FONT_H * scale)
            \<and> dot fonts (s ! nat at) scale ((x - x0) mod w) (y - y0)
         then i else v)"

lemma scaled_text_cons:
  assumes "0 < scale"
  shows "scaled_text fonts (x0 + int (QDOS_FONT_W * scale)) y0 scale s i p x y (glyph_effect fonts x0 y0 c scale False i p x y v)
    = scaled_text fonts x0 y0 scale (c # s) i p x y v"
proof -
  let ?w = "int (QDOS_FONT_W * scale)"
  let ?at = "(x - x0) div ?w"
  have w: "0 < ?w" using assms by simp
  have next_at: "(x - (x0 + ?w)) div ?w = ?at - 1" "(x - (x0 + ?w)) mod ?w = (x - x0) mod ?w"
  proof -
    have e: "x - (x0 + ?w) = (x - x0) + (- 1) * ?w" by simp
    show "(x - (x0 + ?w)) div ?w = ?at - 1" unfolding e using w by (subst div_mult_self1) auto
    show "(x - (x0 + ?w)) mod ?w = (x - x0) mod ?w" unfolding e by (rule mod_mult_self1)
  qed
  have first: "(x0 \<le> x \<and> x < x0 + 16 * int scale) = (?at = 0)"
  proof
    assume "?at = 0"
    then have "(x - x0) mod ?w = x - x0" using div_mult_mod_eq [of "x - x0" ?w] by simp
    then show "x0 \<le> x \<and> x < x0 + 16 * int scale"
      using pos_mod_sign [OF w, of "x - x0"] pos_mod_bound [OF w, of "x - x0"] by simp
  qed (simp add: div_pos_pos_trivial)
  have zero: "(x - x0) mod ?w = x - x0" if "?at = 0" using div_mult_mod_eq [of "x - x0" ?w] that by simp
  have glyph: "glyph_effect fonts x0 y0 c scale False i p x y v =
      (if ?at = 0 \<and> y0 \<le> y \<and> y < y0 + int (QDOS_FONT_H * scale) \<and> dot fonts c scale (x - x0) (y - y0) then i else v)"
    unfolding glyph_effect_def first [symmetric] by (simp add: conj_ac)
  consider "?at < 0" | "?at = 0" | "0 < ?at" by linarith
  then show ?thesis
  proof cases
    case 1
    then show ?thesis unfolding glyph scaled_text_def Let_def next_at by (simp del: cell_size)
  next
    case 2
    then show ?thesis using zero unfolding glyph scaled_text_def Let_def next_at by (simp del: cell_size)
  next
    case 3
    then have "(c # s) ! nat ?at = s ! nat (?at - 1)" by (simp add: nth_Cons' nat_diff_distrib del: cell_size)
    then show ?thesis using 3 unfolding glyph scaled_text_def Let_def next_at by (simp del: cell_size)
  qed
qed

lemma effect_puts_at_from:
  "0 < scale \<Longrightarrow> has_effect (puts_at_from fonts x0 y0 s scale) (scaled_text fonts x0 y0 scale s)"
proof (induction s arbitrary: x0)
  case Nil
  show ?case using effect_none by (auto simp: has_effect_def scaled_text_def Let_def becomes_def)
next
  case (Cons c s)
  from effect_bind [OF effect_glyph [OF Cons.prems, of fonts x0 y0 c False]
      Cons.IH [OF Cons.prems, of "x0 + int (QDOS_FONT_W * scale)"]]
  show ?case unfolding scaled_text_cons [OF Cons.prems] has_effect_def puts_at_from.simps .
qed


text \<open>Centred text is text at the pixel that leaves the same room on both sides.\<close>

lemma puts_at_from_each:
  "puts_at_from fonts x0 y0 s scale con
    = each [0..<length s] (\<lambda>i. blit_glyph fonts (x0 + int i * int (QDOS_FONT_W * scale)) y0 (s ! i) scale False) con"
proof (induction s arbitrary: x0 con)
  case Nil then show ?case by simp
next
  case (Cons c s)
  have shift: "each (map Suc ks) f con = each ks (\<lambda>i. f (Suc i)) con" for ks and f :: "nat \<Rightarrow> drawing" and con
    by (induction ks arbitrary: con) (auto split: bind_splits)
  have eq: "x0 + int (QDOS_FONT_W * scale) + int i * int (QDOS_FONT_W * scale) = x0 + int (Suc i) * int (QDOS_FONT_W * scale)" for i
    by (simp add: algebra_simps)
  have upt: "[0..<length (c # s)] = 0 # map Suc [0..<length s]" by (simp add: upt_conv_Cons map_Suc_upt del: upt_Suc)
  have ih: "puts_at_from fonts (x0 + int (QDOS_FONT_W * scale)) y0 s scale
      = each [0..<length s] (\<lambda>i. blit_glyph fonts (x0 + int (Suc i) * int (QDOS_FONT_W * scale)) y0 (s ! i) scale False)"
    by (rule ext) (simp only: Cons.IH eq)
  have tail: "each (map Suc ks) f = each ks (\<lambda>i. f (Suc i))" for ks and f :: "nat \<Rightarrow> drawing"
    by (rule ext) (rule shift)
  show ?case unfolding upt each.simps puts_at_from.simps ih tail by simp
qed

lemma centered_is_at:
  assumes "1 \<le> scale"
  shows "qdos_console_puts_centered fonts row s scale
    = qdos_console_puts_at fonts ((QDOS_SCREEN_W - int (length s) * int QDOS_FONT_W * scale) sdiv 2) (row * CELL_H) s scale"
proof
  fix con
  show "qdos_console_puts_centered fonts row s scale con
    = qdos_console_puts_at fonts ((QDOS_SCREEN_W - int (length s) * int QDOS_FONT_W * scale) sdiv 2) (row * CELL_H) s scale con"
    using assms unfolding qdos_console_puts_centered_def qdos_console_puts_at_def Let_def puts_at_from_each by (simp add: mult.assoc)
qed

text \<open>The lines of the start page: text centred at a whole scale that fits the panel, on a full framebuffer, is
drawn there and nowhere else, over what was under it, with as much of the panel left of it as right of it, to a pixel.\<close>

theorem centered_text_is_centred:
  assumes "full_size con" "1 \<le> scale" "int (length s) * 16 * scale \<le> QDOS_SCREEN_W"
    "x0 = (QDOS_SCREEN_W - int (length s) * 16 * scale) sdiv 2"
  shows "(\<exists>con'. qdos_console_puts_centered fonts row s scale con = Some con'
      \<and> becomes (scaled_text fonts x0 (row * CELL_H) (nat scale) s) con con')
    \<and> 0 \<le> x0 \<and> (QDOS_SCREEN_W - (x0 + int (length s) * 16 * scale)) - x0 \<in> {0, 1}"
proof (intro conjI)
  have "has_effect (qdos_console_puts_centered fonts row s scale) (scaled_text fonts x0 (row * CELL_H) (nat scale) s)"
    using effect_puts_at_from [of "nat scale" fonts x0 "row * CELL_H" s] assms
    by (simp add: centered_is_at qdos_console_puts_at_def)
  then show "\<exists>con'. qdos_console_puts_centered fonts row s scale con = Some con'
      \<and> becomes (scaled_text fonts x0 (row * CELL_H) (nat scale) s) con con'"
    using assms(1) unfolding has_effect_def by blast
  have nonneg: "a sdiv 2 = a div 2" if "0 \<le> a" for a :: int using that by (cases "a = 0") (simp_all add: signed_divide_int_def)
  then have x0: "x0 = (QDOS_SCREEN_W - int (length s) * 16 * scale) div 2" using assms by simp
  then show "0 \<le> x0" using assms(3) by simp
  define w where "w = int (length s) * 16 * scale"
  show "(QDOS_SCREEN_W - (x0 + int (length s) * 16 * scale)) - x0 \<in> {0, 1}"
    using x0 unfolding w_def [symmetric] by simp presburger
qed

lemma centered_text_is_centred_witness:
  "\<forall>fonts. \<exists>con'. qdos_console_puts_centered fonts 2 ''qdos'' 3 blank_console = Some con'
     \<and> becomes (scaled_text fonts 104 (2 * CELL_H) 3 ''qdos'') blank_console con'"
proof
  fix fonts
  have full: "full_size blank_console" by (simp add: blank_console_def init_is_full)
  show "\<exists>con'. qdos_console_puts_centered fonts 2 ''qdos'' 3 blank_console = Some con'
     \<and> becomes (scaled_text fonts 104 (2 * CELL_H) 3 ''qdos'') blank_console con'"
    using conjunct1 [OF centered_text_is_centred [OF full, of 3 "''qdos''" 104 fonts 2]]
    by (simp add: signed_divide_int_def)
qed

lemma effect_puts_at: "\<exists>E. has_effect (qdos_console_puts_at fonts x0 y0 s scale) E"
proof (cases "scale < 1")
  case True then show ?thesis using effect_none by (auto simp: qdos_console_puts_at_def)
next
  case False
  then show ?thesis using effect_puts_at_from [of "nat scale" fonts x0 y0 s] by (auto simp: qdos_console_puts_at_def)
qed

lemma effect_puts_small: "\<exists>E. has_effect (qdos_console_puts_small fonts x0 y0 s) E"
proof (induction s arbitrary: x0)
  case Nil then show ?case using effect_none by (auto simp: has_effect_def)
next
  case (Cons c s)
  then obtain E where "has_effect (qdos_console_puts_small fonts (x0 + int SMALL_FONT_W) y0 s) E" by blast
  from effect_bind [OF effect_putc_small this, of fonts x0 y0 c] effect_none
  show ?case unfolding has_effect_def qdos_console_puts_small.simps by (cases "x0 + int SMALL_FONT_W \<le> QDOS_SCREEN_W") auto
qed

inductive console_drawing :: "fonts \<Rightarrow> drawing \<Rightarrow> bool" for fonts where
  draw_putc: "console_drawing fonts (qdos_console_putc fonts col row c)"
| draw_puts: "console_drawing fonts (\<lambda>con. map_option snd (qdos_console_puts fonts col row s con))"
| draw_right: "console_drawing fonts (qdos_console_puts_right_within fonts row left s)"
| draw_putc_small: "console_drawing fonts (qdos_console_putc_small fonts x y c)"
| draw_puts_small: "console_drawing fonts (qdos_console_puts_small fonts x y s)"
| draw_at: "console_drawing fonts (qdos_console_puts_at fonts x y s scale)"
| draw_centered: "console_drawing fonts (qdos_console_puts_centered fonts row s scale)"
| draw_invert: "console_drawing fonts (qdos_console_invert col row count)"
| draw_rule: "console_drawing fonts (qdos_console_rule row)"
| draw_invert_rect: "console_drawing fonts (qdos_console_invert_rect x y w h)"

lemma effect_right_within: "\<exists>E. has_effect (qdos_console_puts_right_within fonts row left s) E"
proof (cases "left < 0 \<or> COLS \<le> left")
  case True then show ?thesis using effect_none by (auto simp: qdos_console_puts_right_within_def has_effect_def)
next
  case False
  have "qdos_console_puts_right_within fonts row left s =
      (\<lambda>con. map_option snd (qdos_console_puts fonts (fst (right_fit left s)) row (snd (right_fit left s)) con))"
    using False by (auto simp: qdos_console_puts_right_within_def right_fit_def Let_def)
  then show ?thesis using puts_effect by metis
qed

lemma effect_centered: "\<exists>E. has_effect (qdos_console_puts_centered fonts row s scale) E"
proof (cases "scale < 1")
  case True then show ?thesis using effect_none by (auto simp: qdos_console_puts_centered_def)
next
  case False then show ?thesis using effect_puts_at by (simp add: centered_is_at)
qed

lemma drawing_has_effect: "console_drawing fonts d \<Longrightarrow> \<exists>E. has_effect d E"
  by (induction rule: console_drawing.induct)
     (rule exI effect_right_within effect_puts_small effect_puts_at effect_centered,
      (rule effect_putc puts_effect effect_putc_small effect_invert effect_rule effect_invert_rect)?)+

text \<open>C35. Any sequence of drawing operations, with any places, sizes, lengths and text, on or off the panel, is carried
out to its end inside the framebuffer: none writes past it, and it keeps its size and the colours chosen.\<close>

theorem drawings_stay_inside:
  assumes "full_size con" "\<forall>d\<in>set ds. console_drawing fonts d"
  shows "\<exists>con'. each ds id con = Some con' \<and> full_size con' \<and> con_ink con' = con_ink con \<and> con_paper con' = con_paper con"
  using assms
proof (induction ds arbitrary: con)
  case Nil then show ?case by simp
next
  case (Cons d ds)
  then obtain E where "has_effect d E" using drawing_has_effect by fastforce
  then obtain con' where one: "d con = Some con'" "becomes E con con'" using Cons.prems by (auto simp: has_effect_def)
  then have "full_size con'" by (simp add: becomes_def)
  then show ?case using Cons.IH [of con'] Cons.prems one by (auto simp: becomes_def)
qed

lemma drawings_stay_inside_witness:
  "\<exists>con'. each [qdos_console_rule 12, qdos_console_invert_rect (- 7) 230 1000 50, qdos_console_invert 24 9 3] id blank_console = Some con'
     \<and> full_size con' \<and> con_ink con' = con_ink blank_console \<and> con_paper con' = con_paper blank_console"
  by (rule drawings_stay_inside [where fonts = "\<lparr>qdos_font_row = \<lambda>_ _. 0, qdos_small_font_row = \<lambda>_ _. 0\<rparr>"])
     (simp_all add: blank_console_def init_is_full console_drawing.intros)

end
