(* ===== verification/Numbers.thy ===== *)
theory Numbers
  imports Complex_Main Base "HOL-Library.Word"
begin

text \<open>
  How the calculator shows a number (\<^verbatim>\<open>src/shell/shell.c\<close>, the formatting of values): the digits
  of a decimal, plain and in exponent form, as many of them as the row has room for.

  The decimal library of the Quadrate runtime and the doubles of the machine are arguments: the operations
  the code calls of them. A text is read back as a rational number, which is what the lemmas compare.
\<close>

section \<open>The libraries\<close>

record 'd d128 =
  qd_d128_format :: "'d \<Rightarrow> cstring"
  qd_d128_parse :: "cstring \<Rightarrow> 'd option"
  qd_d128_quantize :: "'d \<Rightarrow> 'd \<Rightarrow> 'd"
  qd_d128_reduce :: "'d \<Rightarrow> 'd"
  qd_d128_is_finite :: "'d \<Rightarrow> bool"
  qd_d128_is_nan :: "'d \<Rightarrow> bool"
  qd_d128_is_zero :: "'d \<Rightarrow> bool"
  qd_d128_nan :: 'd
  qd_d128_to_f64 :: "'d \<Rightarrow> 64 word"

text \<open>
  The operations on doubles: the exponent is \<open>(int)floor(log10(fabs(x)))\<close>, and \<open>f_at_least\<close> compares
  the size of a text read back with a bound.
\<close>

record libm =
  f_isfinite :: "64 word \<Rightarrow> bool"
  f_is_zero :: "64 word \<Rightarrow> bool"
  f_exponent :: "64 word \<Rightarrow> int"
  f_div_pow10 :: "64 word \<Rightarrow> int \<Rightarrow> 64 word"
  f_div :: "64 word \<Rightarrow> int \<Rightarrow> 64 word"
  f_at_least :: "cstring \<Rightarrow> int \<Rightarrow> bool"
  f_print :: "int \<Rightarrow> 64 word \<Rightarrow> cstring"
  f_print_e :: "nat \<Rightarrow> 64 word \<Rightarrow> cstring"
  f_of_int :: "int \<Rightarrow> 64 word"

datatype number_notation = NOTATION_NORMAL | NOTATION_SCI | NOTATION_ENG

definition DECIMALS_AUTO :: int where "DECIMALS_AUTO = -1"
definition DECIMAL_PLAIN_MAX :: int where "DECIMAL_PLAIN_MAX = 19"

definition show_int :: "int \<Rightarrow> cstring" where
  "show_int i = (if i < 0 then CHR ''-'' # dec (nat (- i)) else dec (nat i))"

definition atoi :: "cstring \<Rightarrow> int" where
  "atoi s = (case strtol10 s of None \<Rightarrow> 0 | Some (n, rest) \<Rightarrow> n)"

section \<open>Doubles\<close>

text \<open>Trailing zeros dropped, and a point left at the end with them.\<close>

definition strip_zeros :: "cstring \<Rightarrow> cstring" where
  "strip_zeros s =
     (let t = rev (dropWhile (\<lambda>c. c = CHR ''0'') (rev s))
      in if t \<noteq> [] \<and> last t = CHR ''.'' then butlast t else t)"

definition format_exponent :: "libm \<Rightarrow> 64 word \<Rightarrow> bool \<Rightarrow> int \<Rightarrow> nat \<Rightarrow> cstring" where
  "format_exponent lm x eng decimals cap =
     (let e0 = (if f_is_zero lm x \<or> \<not> f_isfinite lm x then 0 else f_exponent lm x);
          e1 = (if eng then e0 div 3 * 3 else e0);
          m0 = (if e1 = 0 then x else f_div_pow10 lm x e1);
          auto_shown = (if eng then 12 else 14);
          shown = (if decimals = DECIMALS_AUTO then auto_shown else decimals);
          over = f_at_least lm (clip 40 (f_print lm shown m0)) (if eng then 1000 else 10);
          e2 = (if over then e1 + (if eng then 3 else 1) else e1);
          m1 = (if over then f_div lm m0 (if eng then 1000 else 10) else m0);
          digits = (if decimals = DECIMALS_AUTO then strip_zeros (clip 40 (f_print lm auto_shown m1))
                    else clip 40 (f_print lm decimals m1))
      in clip cap (digits @ CHR ''e'' # show_int e2))"

text \<open>The zeros in front of a number, all but the last digit.\<close>

fun drop_zeros :: "cstring \<Rightarrow> cstring" where
  "drop_zeros [] = []"
| "drop_zeros (c # cs) = (if c = CHR ''0'' \<and> cs \<noteq> [] then drop_zeros cs else c # cs)"

definition tidy_exponent :: "cstring \<Rightarrow> cstring" where
  "tidy_exponent t =
     (case find_char (CHR ''e'') t of
        None \<Rightarrow> t
      | Some e \<Rightarrow>
          let ds = drop (e + 1) t
          in if ds \<noteq> [] \<and> hd ds = CHR ''+'' then take (e + 1) t @ drop_zeros (tl ds)
             else if ds \<noteq> [] \<and> hd ds = CHR ''-'' then take (e + 1) t @ CHR ''-'' # drop_zeros (tl ds)
             else take (e + 1) t @ drop_zeros ds)"

section \<open>Decimals\<close>

record decimal_digits =
  dd_negative :: bool
  dd_digits :: cstring
  dd_point :: int

definition dd_count :: "decimal_digits \<Rightarrow> int" where
  "dd_count d = int (length (dd_digits d))"

definition exponent_mark :: "char \<Rightarrow> bool" where
  "exponent_mark c \<longleftrightarrow> c = CHR ''e'' \<or> c = CHR ''E''"

text \<open>The loop over the text: the digits, how many came before the point, and the rest from the exponent on.\<close>

fun take_digits :: "cstring \<Rightarrow> cstring \<Rightarrow> int \<Rightarrow> cstring \<times> int \<times> cstring" where
  "take_digits [] ds before = (ds, before, [])"
| "take_digits (c # cs) ds before =
     (if exponent_mark c then (ds, before, c # cs)
      else if c = CHR ''.'' then take_digits cs ds (int (length ds))
      else take_digits cs (ds @ [c]) before)"

definition decimal_digits_of :: "'d d128 \<Rightarrow> 'd \<Rightarrow> decimal_digits" where
  "decimal_digits_of lib q =
     (let t = qd_d128_format lib q;
          p = (if t \<noteq> [] \<and> (hd t = CHR ''-'' \<or> hd t = CHR ''+'') then tl t else t);
          (ds, before, rest) = take_digits p [] (-1);
          point = (if before < 0 then int (length ds) else before) + (if rest \<noteq> [] then atoi (tl rest) else 0);
          kept = drop_zeros ds
      in \<lparr>dd_negative = (t \<noteq> [] \<and> hd t = CHR ''-''), dd_digits = kept,
          dd_point = point - int (length ds - length kept)\<rparr>)"

text \<open>The loops of the plain form: the digits before the point, those after it, and the zeros that fill it out.\<close>

function plain_whole :: "decimal_digits \<Rightarrow> nat \<Rightarrow> int \<Rightarrow> cstring \<Rightarrow> cstring" where
  "plain_whole d cap i out =
     (if i < dd_point d \<and> length out + 1 < cap
      then plain_whole d cap (i + 1) (out @ [if i < dd_count d then dd_digits d ! nat i else CHR ''0''])
      else out)"
  by pat_completeness auto
termination by (relation "measure (\<lambda>(d, cap, i, out). nat (dd_point d - i))") auto

function plain_fraction :: "decimal_digits \<Rightarrow> nat \<Rightarrow> int \<Rightarrow> int \<Rightarrow> cstring \<Rightarrow> int \<times> cstring" where
  "plain_fraction d cap i fraction out =
     (if i < dd_count d \<and> length out + 2 < cap
      then plain_fraction d cap (i + 1) (fraction + 1)
             (out @ (if fraction = 0 then ''.'' else []) @ [if i < 0 then CHR ''0'' else dd_digits d ! nat i])
      else (fraction, out))"
  by pat_completeness auto
termination by (relation "measure (\<lambda>(d, cap, i, fraction, out). nat (dd_count d - i))") auto

function plain_fill :: "int \<Rightarrow> nat \<Rightarrow> int \<Rightarrow> cstring \<Rightarrow> cstring" where
  "plain_fill decimals cap fraction out =
     (if fraction < decimals \<and> length out + 2 < cap
      then plain_fill decimals cap (fraction + 1) (out @ (if fraction = 0 then ''.'' else []) @ ''0'')
      else out)"
  by pat_completeness auto
termination by (relation "measure (\<lambda>(decimals, cap, fraction, out). nat (decimals - fraction))") auto

declare plain_whole.simps [simp del] plain_fraction.simps [simp del] plain_fill.simps [simp del]

definition decimal_plain :: "decimal_digits \<Rightarrow> int \<Rightarrow> nat \<Rightarrow> cstring" where
  "decimal_plain d decimals cap =
     (let zero = (dd_digits d = ''0'');
          sign = (if dd_negative d \<and> 1 < cap then ''-'' else []);
          out0 = (if dd_point d \<le> 0 \<or> zero then sign @ ''0'' else sign);
          out1 = (if zero then out0 else plain_whole d cap 0 out0);
          (fraction, out2) = (if zero then (0, out1) else plain_fraction d cap (dd_point d) 0 out1)
      in plain_fill decimals cap fraction out2)"

definition decimal_scientific :: "decimal_digits \<Rightarrow> nat \<Rightarrow> cstring" where
  "decimal_scientific d cap =
     clip cap ((if dd_negative d then ''-'' else []) @ char_at (dd_digits d) 0 # (if 1 < dd_count d then ''.'' else [])
       @ drop 1 (dd_digits d) @ CHR ''e'' # show_int (dd_point d - 1))"

definition decimal_round :: "'d d128 \<Rightarrow> 'd \<Rightarrow> int \<Rightarrow> int \<Rightarrow> 'd" where
  "decimal_round lib q point count =
     (case qd_d128_parse lib (clip 24 (''1e'' @ show_int (point - count))) of
        None \<Rightarrow> q
      | Some unit \<Rightarrow> qd_d128_reduce lib (qd_d128_quantize lib q unit))"

text \<open>
  The loop of the general form, from the most digits down: the first text that fits, or the last one tried,
  which is what the buffer holds when none does.
\<close>

fun show_rounded :: "'d d128 \<Rightarrow> 'd \<Rightarrow> int \<Rightarrow> nat \<Rightarrow> nat \<Rightarrow> nat \<Rightarrow> cstring \<Rightarrow> cstring" where
  "show_rounded lib q point cap room 0 shown = shown"
| "show_rounded lib q point cap room (Suc k) shown =
     (let r = decimal_digits_of lib (decimal_round lib q point (int (Suc k)));
          plain = decimal_plain r 0 cap;
          sci = decimal_scientific r cap
      in if -4 < dd_point r \<and> dd_point r \<le> DECIMAL_PLAIN_MAX \<and> length plain \<le> room then plain
         else if length sci \<le> room then sci
         else show_rounded lib q point cap room k sci)"

definition format_general :: "'d d128 \<Rightarrow> 'd \<Rightarrow> nat \<Rightarrow> nat \<Rightarrow> cstring \<Rightarrow> cstring" where
  "format_general lib q cap room shown =
     (let d = decimal_digits_of lib (qd_d128_reduce lib q)
      in show_rounded lib q (dd_point d) cap room (length (dd_digits d)) shown)"

definition format_decimal ::
    "'d d128 \<Rightarrow> libm \<Rightarrow> number_notation \<Rightarrow> int \<Rightarrow> 'd \<Rightarrow> nat \<Rightarrow> nat \<Rightarrow> cstring" where
  "format_decimal lib lm notation decimals q cap room =
     (if \<not> qd_d128_is_finite lib q then clip cap (qd_d128_format lib q)
      else
        let near = qd_d128_to_f64 lib q
        in if notation \<noteq> NOTATION_NORMAL \<and> f_isfinite lm near \<and> (\<not> f_is_zero lm near \<or> qd_d128_is_zero lib q) then
             let out = format_exponent lm near (notation = NOTATION_ENG) decimals cap
             in if length out \<le> room then out else format_general lib q cap room out
           else if decimals \<noteq> DECIMALS_AUTO then
             let fixed = (case qd_d128_parse lib (clip 24 (''1e-'' @ show_int decimals)) of
                            Some unit \<Rightarrow> qd_d128_quantize lib q unit | None \<Rightarrow> qd_d128_nan lib)
             in if \<not> qd_d128_is_nan lib fixed then
                  let out = decimal_plain (decimal_digits_of lib fixed) decimals cap
                  in if length out \<le> room then out else format_general lib q cap room out
                else format_general lib q cap room []
           else format_general lib q cap room [])"

text \<open>A value of the interpreter, as its type and text say.\<close>

datatype shown_value = ShownInt int cstring | ShownFloat "64 word" cstring | ShownDecimal cstring | ShownText cstring

fun value_own_text :: "shown_value \<Rightarrow> cstring" where
  "value_own_text (ShownInt i t) = t"
| "value_own_text (ShownFloat x t) = t"
| "value_own_text (ShownDecimal t) = t"
| "value_own_text (ShownText t) = t"

fun shown_number :: "libm \<Rightarrow> shown_value \<Rightarrow> 64 word option" where
  "shown_number lm (ShownInt i t) = Some (f_of_int lm i)"
| "shown_number lm (ShownFloat x t) = Some x"
| "shown_number lm _ = None"

fun is_shown_float :: "shown_value \<Rightarrow> bool" where
  "is_shown_float (ShownFloat x t) = True"
| "is_shown_float _ = False"

text \<open>The loop that gives up digits of a double until it fits.\<close>

fun shorten :: "libm \<Rightarrow> 64 word \<Rightarrow> nat \<Rightarrow> nat \<Rightarrow> nat list \<Rightarrow> cstring \<Rightarrow> cstring" where
  "shorten lm x cap room [] out = out"
| "shorten lm x cap room (k # ks) out =
     (let t = tidy_exponent (clip cap (f_print_e lm k x))
      in if length t \<le> room then t else shorten lm x cap room ks t)"

definition format_number ::
    "libm \<Rightarrow> number_notation \<Rightarrow> int \<Rightarrow> shown_value \<Rightarrow> nat \<Rightarrow> nat \<Rightarrow> cstring" where
  "format_number lm notation decimals v cap room =
     (let out = (case shown_number lm v of
                   None \<Rightarrow> clip cap (value_own_text v)
                 | Some x \<Rightarrow>
                     if notation \<noteq> NOTATION_NORMAL \<and> f_isfinite lm x then format_exponent lm x (notation = NOTATION_ENG) decimals cap
                     else if decimals = DECIMALS_AUTO then
                       (let t = clip cap (value_own_text v) in if is_shown_float v then tidy_exponent t else t)
                     else clip cap (f_print lm decimals x))
      in case shown_number lm v of
           None \<Rightarrow> out
         | Some x \<Rightarrow> if length out \<le> room then out else shorten lm x cap room (rev [0..<10]) out)"

definition format_value ::
    "'d d128 \<Rightarrow> libm \<Rightarrow> number_notation \<Rightarrow> int \<Rightarrow> shown_value \<Rightarrow> nat \<Rightarrow> nat \<Rightarrow> cstring" where
  "format_value lib lm notation decimals v cap room =
     (case v of
        ShownDecimal t \<Rightarrow>
          (case qd_d128_parse lib t of
             Some q \<Rightarrow> format_decimal lib lm notation decimals q cap room
           | None \<Rightarrow> format_number lm notation decimals v cap room)
      | _ \<Rightarrow> format_number lm notation decimals v cap room)"


section \<open>Reading a text back\<close>

definition scaled :: "nat \<Rightarrow> int \<Rightarrow> rat" where
  "scaled n e = of_nat n * 10 powi e"

definition unsigned_part :: "cstring \<Rightarrow> cstring" where
  "unsigned_part s = (if s \<noteq> [] \<and> (hd s = CHR ''-'' \<or> hd s = CHR ''+'') then tl s else s)"

definition mantissa :: "cstring \<Rightarrow> cstring" where
  "mantissa s = takeWhile (\<lambda>c. \<not> exponent_mark c) (unsigned_part s)"

definition exponent_part :: "cstring \<Rightarrow> cstring" where
  "exponent_part s = dropWhile (\<lambda>c. \<not> exponent_mark c) (unsigned_part s)"

definition whole_part :: "cstring \<Rightarrow> cstring" where
  "whole_part m = takeWhile (\<lambda>c. c \<noteq> CHR ''.'') m"

definition fraction_part :: "cstring \<Rightarrow> cstring" where
  "fraction_part m = tl (dropWhile (\<lambda>c. c \<noteq> CHR ''.'') m)"

definition reads :: "cstring \<Rightarrow> rat" where
  "reads s =
     (let m = mantissa s; ex = exponent_part s
      in (if s \<noteq> [] \<and> hd s = CHR ''-'' then -1 else 1)
         * scaled (undec (whole_part m @ fraction_part m)) ((if ex = [] then 0 else atoi (tl ex)) - int (length (fraction_part m))))"

definition numeral_text :: "cstring \<Rightarrow> bool" where
  "numeral_text s \<longleftrightarrow>
     (let m = mantissa s; ds = whole_part m @ fraction_part m in ds \<noteq> [] \<and> list_all is_digit ds)"

text \<open>A numeral: a sign or none, digits, a point with digits after it or none, and an exponent in whole digits or none.\<close>

definition is_numeral :: "cstring \<Rightarrow> bool" where
  "is_numeral s \<longleftrightarrow>
     numeral_text s \<and> whole_part (mantissa s) \<noteq> [] \<and> (exponent_part s = [] \<or> (\<exists>e. exponent_part s = CHR ''e'' # show_int e))"

definition dd_value :: "decimal_digits \<Rightarrow> rat" where
  "dd_value d = (if dd_negative d then -1 else 1) * scaled (undec (dd_digits d)) (dd_point d - dd_count d)"

definition dd_ok :: "decimal_digits \<Rightarrow> bool" where
  "dd_ok d \<longleftrightarrow> dd_digits d \<noteq> [] \<and> list_all is_digit (dd_digits d) \<and> (hd (dd_digits d) = CHR ''0'' \<longrightarrow> dd_digits d = ''0'')"

lemma not_a_digit [simp]: "\<not> is_digit (CHR ''.'')" "\<not> is_digit (CHR ''-'')" "\<not> is_digit (CHR ''+'')" "\<not> is_digit (CHR ''e'')" "\<not> is_digit (CHR ''E'')"
  and zero_digit [simp]: "is_digit (CHR ''0'')"
  by (simp_all add: ctype_simps)

lemma digit_not_mark: "is_digit c \<Longrightarrow> \<not> exponent_mark c"
  by (auto simp: exponent_mark_def)

lemma undec_snoc: "undec (xs @ [c]) = 10 * undec xs + digit_val c"
  by (simp add: undec_def)

lemma undec_append: "undec (xs @ ys) = undec xs * 10 ^ length ys + undec ys"
proof (induction ys rule: rev_induct)
  case Nil then show ?case by (simp add: undec_def)
next
  case (snoc c ys)
  have "undec (xs @ ys @ [c]) = 10 * undec (xs @ ys) + digit_val c" using undec_snoc [of "xs @ ys"] by simp
  then show ?case using snoc by (simp add: undec_snoc algebra_simps)
qed

lemma undec_Nil [simp]: "undec [] = 0" and undec_zero [simp]: "undec (CHR ''0'' # xs) = undec xs"
  by (simp_all add: undec_def digit_val_def code_def)

lemma undec_zeros [simp]: "undec (replicate n (CHR ''0'')) = 0"
  by (induction n) simp_all

lemma undec_less: "list_all is_digit xs \<Longrightarrow> undec xs < 10 ^ length xs"
proof (induction xs rule: rev_induct)
  case (snoc c xs)
  then have "undec xs < 10 ^ length xs" by simp
  moreover have "digit_val c < 10" using snoc by (auto simp: digit_val_def is_digit_def between_def code_def)
  ultimately show ?case by (simp add: undec_snoc)
qed simp

lemma scaled_zeros: "scaled (n * 10 ^ k) e = scaled n (e + int k)"
  by (simp add: scaled_def power_int_add)

lemma drop_zeros_eq: "xs \<noteq> [] \<Longrightarrow> drop_zeros xs \<noteq> [] \<and> (hd (drop_zeros xs) = CHR ''0'' \<longrightarrow> drop_zeros xs = ''0'')
    \<and> undec (drop_zeros xs) = undec xs \<and> set (drop_zeros xs) \<subseteq> set xs \<and> length (drop_zeros xs) \<le> length xs"
  by (induction xs rule: drop_zeros.induct) auto

lemma take_digits_run:
  "list_all (\<lambda>c. c \<noteq> CHR ''.'' \<and> \<not> exponent_mark c) m \<Longrightarrow> take_digits (m @ x) ds b = take_digits x (ds @ m) b"
  by (induction m arbitrary: ds) auto

lemma take_digits_end: "x = [] \<or> exponent_mark (hd x) \<Longrightarrow> take_digits x ds b = (ds, b, x)"
  by (cases x) auto

lemma digits_plain: "list_all is_digit m \<Longrightarrow> list_all (\<lambda>c. c \<noteq> CHR ''.'' \<and> \<not> exponent_mark c) m"
  by (induction m) (auto simp: exponent_mark_def)

lemma digits_of_text:
  assumes "numeral_text (qd_d128_format lib q)"
  shows "dd_ok (decimal_digits_of lib q)" "dd_value (decimal_digits_of lib q) = reads (qd_d128_format lib q)"
proof -
  let ?t = "qd_d128_format lib q"
  let ?m = "mantissa ?t" let ?x = "exponent_part ?t"
  let ?w = "whole_part ?m" let ?f = "fraction_part ?m"
  have p: "unsigned_part ?t = ?m @ ?x" by (simp add: mantissa_def exponent_part_def)
  have x: "?x = [] \<or> exponent_mark (hd ?x)"
    unfolding exponent_part_def by (metis hd_dropWhile)
  have ds: "?w @ ?f \<noteq> []" "list_all is_digit ?w" "list_all is_digit ?f"
    using assms by (auto simp: numeral_text_def Let_def)
  define dot where "dot \<longleftrightarrow> CHR ''.'' \<in> set ?m"
  have m: "?m = ?w @ (if dot then CHR ''.'' # ?f else [])" "\<not> dot \<Longrightarrow> ?f = []"
  proof -
    have "?m = ?w @ dropWhile (\<lambda>c. c \<noteq> CHR ''.'') ?m" unfolding whole_part_def by simp
    moreover have "dropWhile (\<lambda>c. c \<noteq> CHR ''.'') ?m = (if dot then CHR ''.'' # ?f else [])"
    proof (cases dot)
      case True
      then have ne: "dropWhile (\<lambda>c. c \<noteq> CHR ''.'') ?m \<noteq> []" by (auto simp: dot_def dropWhile_eq_Nil_conv)
      then have "hd (dropWhile (\<lambda>c. c \<noteq> CHR ''.'') ?m) = CHR ''.''" using hd_dropWhile by blast
      then show ?thesis using ne True unfolding fraction_part_def by (metis list.exhaust_sel)
    next
      case False then show ?thesis by (auto simp: dot_def dropWhile_eq_Nil_conv)
    qed
    ultimately show "?m = ?w @ (if dot then CHR ''.'' # ?f else [])" by metis
    show "\<not> dot \<Longrightarrow> ?f = []" unfolding fraction_part_def dot_def by (subst dropWhile_eq_Nil_conv [THEN iffD2]) auto
  qed
  have run: "take_digits (unsigned_part ?t) [] (-1) = (?w @ ?f, if dot then int (length ?w) else -1, ?x)"
  proof (cases dot)
    case True
    then have "unsigned_part ?t = ?w @ CHR ''.'' # ?f @ ?x" using p m(1) by (metis append_Cons append_assoc)
    then show ?thesis
      using True take_digits_run [OF digits_plain [OF ds(2)], of "CHR ''.'' # ?f @ ?x"]
        take_digits_run [OF digits_plain [OF ds(3)], of ?x] take_digits_end [OF x]
      by (simp add: exponent_mark_def)
  next
    case False
    then have "unsigned_part ?t = ?w @ ?x" using p m(1) by simp
    then show ?thesis
      using False m(2) take_digits_run [OF digits_plain [OF ds(2)], of ?x] take_digits_end [OF x] by simp
  qed
  have d: "decimal_digits_of lib q = \<lparr>dd_negative = (?t \<noteq> [] \<and> hd ?t = CHR ''-''), dd_digits = drop_zeros (?w @ ?f),
      dd_point = (if dot then int (length ?w) else int (length (?w @ ?f))) + (if ?x \<noteq> [] then atoi (tl ?x) else 0)
        - int (length (?w @ ?f) - length (drop_zeros (?w @ ?f)))\<rparr>"
    using run unfolding decimal_digits_of_def unsigned_part_def Let_def by simp
  note z = drop_zeros_eq [OF ds(1)]
  show "dd_ok (decimal_digits_of lib q)"
    using z ds unfolding dd_ok_def d by (auto simp: list_all_iff)
  show "dd_value (decimal_digits_of lib q) = reads ?t"
    using z m(2) unfolding dd_value_def d reads_def Let_def dd_count_def by (auto simp: of_nat_diff)
qed


section \<open>The plain form\<close>

definition plain_before :: "decimal_digits \<Rightarrow> cstring" where
  "plain_before d =
     (if dd_point d \<le> 0 \<or> dd_digits d = ''0'' then ''0''
      else take (nat (dd_point d)) (dd_digits d) @ replicate (nat (dd_point d) - length (dd_digits d)) (CHR ''0''))"

definition plain_after :: "decimal_digits \<Rightarrow> cstring" where
  "plain_after d =
     (if dd_digits d = ''0'' then [] else replicate (nat (- dd_point d)) (CHR ''0'') @ drop (nat (dd_point d)) (dd_digits d))"

definition plain_text :: "decimal_digits \<Rightarrow> int \<Rightarrow> cstring" where
  "plain_text d decimals =
     (let f = plain_after d @ replicate (nat decimals - length (plain_after d)) (CHR ''0'')
      in (if dd_negative d then ''-'' else []) @ plain_before d @ (if f = [] then [] else CHR ''.'' # f))"

lemma plain_whole_eq:
  fixes i :: int and d :: decimal_digits
  assumes "0 \<le> i" "i \<le> max 0 (dd_point d)" "length out < cap"
  defines "rest \<equiv> map (\<lambda>k. if int k < dd_count d then dd_digits d ! k else CHR ''0'') [nat i..<nat (dd_point d)]"
  shows "plain_whole d cap i out = out @ rest \<or> cap \<le> length (plain_whole d cap i out) + 1"
  using assms(1-3) unfolding rest_def
proof (induction d cap i out rule: plain_whole.induct)
  case (1 d cap i out)
  show ?case
  proof (cases "i < dd_point d \<and> length out + 1 < cap")
    case True
    then have "[nat i..<nat (dd_point d)] = nat i # [nat (i + 1)..<nat (dd_point d)]"
      using 1(2) by (subst upt_conv_Cons) (auto simp: nat_add_distrib)
    then show ?thesis using 1 True by (subst (1 2) plain_whole.simps) simp
  next
    case False
    then show ?thesis using 1 by (subst (1 2) plain_whole.simps) auto
  qed
qed

lemma plain_fraction_eq:
  fixes i :: int and d :: decimal_digits
  assumes "0 \<le> fraction"
  defines "rest \<equiv> map (\<lambda>k. if k < 0 then CHR ''0'' else dd_digits d ! nat k) [i..dd_count d - 1]"
  shows "plain_fraction d cap i fraction out
      = (fraction + int (length rest), out @ (if fraction = 0 \<and> rest \<noteq> [] then ''.'' else []) @ rest)
    \<or> cap \<le> length (snd (plain_fraction d cap i fraction out)) + 2"
  using assms(1) unfolding rest_def
proof (induction d cap i fraction out rule: plain_fraction.induct)
  case (1 d cap i fraction out)
  show ?case
  proof (cases "i < dd_count d \<and> length out + 2 < cap")
    case True
    then have "[i..dd_count d - 1] = i # [i + 1..dd_count d - 1]" by (simp add: upto.simps)
    then show ?thesis using 1 True by (subst (1 2) plain_fraction.simps) simp
  next
    case False
    then show ?thesis by (subst (1 2) plain_fraction.simps) auto
  qed
qed

lemma plain_fill_eq:
  assumes "0 \<le> fraction"
  shows "plain_fill decimals cap fraction out
      = out @ (if fraction = 0 \<and> 0 < decimals then ''.'' else []) @ replicate (nat (decimals - fraction)) (CHR ''0'')
    \<or> cap \<le> length (plain_fill decimals cap fraction out) + 2"
  using assms
proof (induction decimals cap fraction out rule: plain_fill.induct)
  case (1 decimals cap fraction out)
  show ?case
  proof (cases "fraction < decimals \<and> length out + 2 < cap")
    case True
    then have "nat (decimals - fraction) = Suc (nat (decimals - (fraction + 1)))" by auto
    then show ?thesis using 1 True by (subst (1 2) plain_fill.simps) simp
  next
    case False
    then show ?thesis by (subst (1 2) plain_fill.simps) auto
  qed
qed

lemma plain_fill_grows: "length out \<le> length (plain_fill decimals cap fraction out)"
proof (induction decimals cap fraction out rule: plain_fill.induct)
  case (1 decimals cap fraction out)
  then show ?case by (subst plain_fill.simps) (auto split: if_splits)
qed

lemma plain_fraction_grows: "length out \<le> length (snd (plain_fraction d cap i fraction out))"
proof (induction d cap i fraction out rule: plain_fraction.induct)
  case (1 d cap i fraction out)
  then show ?case by (subst plain_fraction.simps) (auto split: if_splits)
qed

lemma whole_digits:
  "map (\<lambda>k. if int k < dd_count d then dd_digits d ! k else CHR ''0'') [0..<n] =
     take n (dd_digits d) @ replicate (n - length (dd_digits d)) (CHR ''0'')"
  by (rule nth_equalityI) (auto simp: dd_count_def nth_append min_def)

lemma fraction_digits:
  "map (\<lambda>k. if k < 0 then CHR ''0'' else dd_digits d ! nat k) [i..dd_count d - 1] =
     replicate (nat (- i)) (CHR ''0'') @ drop (nat i) (dd_digits d)"
proof (rule nth_equalityI)
  show "length (map (\<lambda>k. if k < 0 then CHR ''0'' else dd_digits d ! nat k) [i..dd_count d - 1]) =
      length (replicate (nat (- i)) (CHR ''0'') @ drop (nat i) (dd_digits d))"
    by (auto simp: dd_count_def)
next
  fix k assume "k < length (map (\<lambda>k. if k < 0 then CHR ''0'' else dd_digits d ! nat k) [i..dd_count d - 1])"
  then have "k < nat (dd_count d - i)" by simp
  moreover have "nat (i + int k) = nat i + k - nat (- i)" if "nat (- i) \<le> k" using that by linarith
  ultimately show "map (\<lambda>k. if k < 0 then CHR ''0'' else dd_digits d ! nat k) [i..dd_count d - 1] ! k =
      (replicate (nat (- i)) (CHR ''0'') @ drop (nat i) (dd_digits d)) ! k"
    by (auto simp: nth_append dd_count_def)
qed

lemma decimal_plain_eq:
  assumes "2 < cap"
  shows "decimal_plain d decimals cap = plain_text d decimals \<or> cap \<le> length (decimal_plain d decimals cap) + 2"
proof -
  define sign where "sign = (if dd_negative d then ''-'' else [])"
  define zero where "zero \<longleftrightarrow> dd_digits d = ''0''"
  define out0 where "out0 = (if dd_point d \<le> 0 \<or> zero then sign @ ''0'' else sign)"
  define out1 where "out1 = (if zero then out0 else plain_whole d cap 0 out0)"
  define fr where "fr = (if zero then (0, out1) else plain_fraction d cap (dd_point d) 0 out1)"
  have plain: "decimal_plain d decimals cap = plain_fill decimals cap (fst fr) (snd fr)"
    unfolding decimal_plain_def Let_def sign_def zero_def out0_def out1_def fr_def using assms by (simp add: case_prod_beta)
  have grows: "length out1 \<le> length (snd fr)" "length (snd fr) \<le> length (decimal_plain d decimals cap)"
    unfolding plain using plain_fraction_grows plain_fill_grows by (simp_all add: fr_def)
  show ?thesis
  proof (cases "cap \<le> length (decimal_plain d decimals cap) + 2")
    case False
    then have short: "\<not> cap \<le> length (snd fr) + 2" "\<not> cap \<le> length out1 + 1" using grows by auto
    have w: "out1 = sign @ plain_before d"
    proof (cases "zero \<or> dd_point d \<le> 0")
      case True
      then show ?thesis
        by (auto simp: out1_def out0_def plain_before_def zero_def plain_whole.simps [of d cap 0])
    next
      case False
      then have "length out0 < cap" using assms by (auto simp: out0_def sign_def)
      then show ?thesis
        using False plain_whole_eq [of 0 d out0 cap] short(2) whole_digits [of d "nat (dd_point d)"]
        by (auto simp: out1_def out0_def plain_before_def zero_def)
    qed
    have f: "fr = (int (length (plain_after d)), out1 @ (if plain_after d = [] then [] else CHR ''.'' # plain_after d))"
    proof (cases zero)
      case True then show ?thesis by (simp add: fr_def plain_after_def zero_def)
    next
      case False
      then have "fr = plain_fraction d cap (dd_point d) 0 out1" by (simp add: fr_def)
      then show ?thesis
        using plain_fraction_eq [of 0 d cap "dd_point d" out1] short(1) False unfolding fraction_digits
        by (auto simp: plain_after_def zero_def)
    qed
    have "plain_fill decimals cap (fst fr) (snd fr) = snd fr @ (if fst fr = 0 \<and> 0 < decimals then ''.'' else [])
        @ replicate (nat (decimals - fst fr)) (CHR ''0'')"
      using plain_fill_eq [of "fst fr" decimals cap "snd fr"] False unfolding plain f by auto
    then show ?thesis
      unfolding plain f plain_text_def Let_def w sign_def by (auto simp: nat_diff_distrib')
  qed simp
qed

lemma numeral_parts:
  assumes b: "list_all is_digit b" "b \<noteq> []" and f: "list_all is_digit f" and x: "x = [] \<or> exponent_mark (hd x)"
    and s: "s = (if neg then ''-'' else []) @ b @ (if f = [] then [] else CHR ''.'' # f) @ x"
  shows "whole_part (mantissa s) = b" "fraction_part (mantissa s) = f" "exponent_part s = x" "(s \<noteq> [] \<and> hd s = CHR ''-'') = neg"
proof -
  define m where "m = b @ (if f = [] then [] else CHR ''.'' # f)"
  have s: "s = (if neg then ''-'' else []) @ m @ x" by (simp add: s m_def)
  have "is_digit (hd b)" using b by (cases b) auto
  then have b0: "hd b \<noteq> CHR ''-''" "hd b \<noteq> CHR ''+''" by auto
  have ne: "m \<noteq> []" "hd m = hd b" using b(2) by (simp_all add: m_def)
  have un: "unsigned_part s = m @ x"
  proof (cases neg)
    case True then show ?thesis by (simp add: unsigned_part_def s)
  next
    case False then show ?thesis using b0 ne by (simp add: unsigned_part_def s)
  qed
  have "\<not> exponent_mark c" if "c \<in> set b \<or> c \<in> set f" for c
    using b(1) f that by (auto simp: list_all_iff digit_not_mark)
  then have marks: "\<forall>c\<in>set m. \<not> exponent_mark c" by (auto simp: m_def exponent_mark_def split: if_splits)
  have "takeWhile (\<lambda>c. \<not> exponent_mark c) x = []" "dropWhile (\<lambda>c. \<not> exponent_mark c) x = x" using x by (cases x; simp)+
  then have me: "mantissa s = m" "exponent_part s = x"
    unfolding mantissa_def exponent_part_def un using marks by simp_all
  have dots: "\<forall>c\<in>set b. c \<noteq> CHR ''.''" using b(1) by (auto simp: list_all_iff)
  have parts: "whole_part m = b" "fraction_part m = f"
    unfolding m_def whole_part_def fraction_part_def
    using takeWhile_append2 [of b "\<lambda>c. c \<noteq> CHR ''.''"] dropWhile_append2 [of b "\<lambda>c. c \<noteq> CHR ''.''"] dots by auto
  show "(s \<noteq> [] \<and> hd s = CHR ''-'') = neg" using b0 ne by (cases neg) (simp_all add: s)
  show "whole_part (mantissa s) = b" "fraction_part (mantissa s) = f" "exponent_part s = x" using me parts by simp_all
qed

lemma reads_numeral:
  assumes b: "list_all is_digit b" "b \<noteq> []" and f: "list_all is_digit f" and x: "x = [] \<or> exponent_mark (hd x)"
  shows "reads ((if neg then ''-'' else []) @ b @ (if f = [] then [] else CHR ''.'' # f) @ x) =
    (if neg then -1 else 1) * scaled (undec (b @ f)) ((if x = [] then 0 else atoi (tl x)) - int (length f))"
  unfolding reads_def Let_def numeral_parts [OF b f x refl] by simp

lemma written_numeral:
  assumes b: "list_all is_digit b" "b \<noteq> []" and f: "list_all is_digit f" and x: "x = [] \<or> (\<exists>e. x = CHR ''e'' # show_int e)"
  shows "is_numeral ((if neg then ''-'' else []) @ b @ (if f = [] then [] else CHR ''.'' # f) @ x)"
proof -
  have "x = [] \<or> exponent_mark (hd x)" using x by (auto simp: exponent_mark_def)
  note parts = numeral_parts [OF b f this refl, of neg]
  show ?thesis unfolding is_numeral_def numeral_text_def Let_def parts using b f x by simp
qed

lemma plain_value:
  assumes "dd_ok d"
  shows "reads (plain_text d decimals) = dd_value d" "is_numeral (plain_text d decimals)"
proof -
  let ?f = "plain_after d @ replicate (nat decimals - length (plain_after d)) (CHR ''0'')"
  let ?b = "plain_before d"
  have ds: "dd_digits d \<noteq> []" "list_all is_digit (dd_digits d)" using assms by (auto simp: dd_ok_def)
  then have digits: "list_all is_digit ?b" "list_all is_digit ?f" "?b \<noteq> []"
    by (auto simp: plain_before_def plain_after_def list_all_iff dest: in_set_takeD in_set_dropD)
  have "reads (plain_text d decimals) = (if dd_negative d then -1 else 1) * scaled (undec (?b @ ?f)) (- int (length ?f))"
    unfolding plain_text_def Let_def using reads_numeral [OF digits(1,3,2), of "[]" "dd_negative d"] by simp
  moreover have "scaled (undec (?b @ ?f)) (- int (length ?f)) = scaled (undec (?b @ plain_after d)) (- int (length (plain_after d)))"
    using scaled_zeros [of "undec (?b @ plain_after d)" "nat decimals - length (plain_after d)" "- int (length ?f)"]
      undec_append [of "?b @ plain_after d" "replicate (nat decimals - length (plain_after d)) (CHR ''0'')"] by simp
  moreover have "scaled (undec (?b @ plain_after d)) (- int (length (plain_after d))) = scaled (undec (dd_digits d)) (dd_point d - dd_count d)"
  proof (cases "dd_digits d = ''0''")
    case True
    then show ?thesis by (simp add: plain_before_def plain_after_def scaled_def)
  next
    case False
    show ?thesis
    proof (cases "dd_point d \<le> 0")
      case True
      then show ?thesis using False by (simp add: plain_before_def plain_after_def dd_count_def undec_append)
    next
      case pos: False
      let ?n = "nat (dd_point d)" let ?k = "?n - length (dd_digits d)"
      have "?b @ plain_after d = dd_digits d @ replicate ?k (CHR ''0'')"
        using False pos by (cases "?n \<le> length (dd_digits d)") (auto simp: plain_before_def plain_after_def)
      then have "undec (?b @ plain_after d) = undec (dd_digits d) * 10 ^ ?k" by (simp add: undec_append)
      moreover have "int ?k - int (length (plain_after d)) = dd_point d - dd_count d"
        using False pos by (auto simp: plain_after_def dd_count_def)
      ultimately show ?thesis using scaled_zeros [of "undec (dd_digits d)" ?k "- int (length (plain_after d))"] by simp
    qed
  qed
  ultimately show "reads (plain_text d decimals) = dd_value d" by (simp add: dd_value_def)
  show "is_numeral (plain_text d decimals)"
    unfolding plain_text_def Let_def using written_numeral [OF digits(1,3,2), of "[]" "dd_negative d"] by simp
qed

lemma show_int_atoi:
  assumes "- (2 ^ 31) \<le> e" "e < 2 ^ 31"
  shows "atoi (show_int e) = e"
proof -
  have ds: "takeWhile is_digit (dec n) = dec n" "dropWhile is_digit (dec n) = []" for n
    using digits_dec by (auto simp: takeWhile_eq_all_conv dropWhile_eq_Nil_conv)
  have first: "\<not> is_space (hd (dec n))" "hd (dec n) \<noteq> CHR ''-''" "hd (dec n) \<noteq> CHR ''+''" for n
  proof -
    have "is_digit (hd (dec n))" by (rule digits_dec [of _ n]) simp
    then show "\<not> is_space (hd (dec n))" "hd (dec n) \<noteq> CHR ''-''" "hd (dec n) \<noteq> CHR ''+''"
      by (auto simp: is_space_def is_digit_def between_def code_def)
  qed
  have skip: "dropWhile is_space (dec n) = dec n" for n
    using first(1) [of n] dec_not_Nil [of n] by (cases "dec n") auto
  have "strtol10 (show_int e) = Some (e, [])"
  proof (cases "e < 0")
    case True
    then show ?thesis using assms by (simp add: strtol10_def show_int_def is_space_def between_def code_def ds skip Let_def)
  next
    case False
    then show ?thesis using assms by (simp add: strtol10_def show_int_def ds skip first Let_def)
  qed
  then show ?thesis by (simp add: atoi_def)
qed

lemma clip_short: "length (clip cap s) + 1 < cap \<Longrightarrow> clip cap s = s"
  by (auto simp: clip_def min_def split: if_splits)

lemma scientific_value:
  assumes "dd_ok d" "length (decimal_scientific d cap) + 1 < cap" "\<bar>dd_point d\<bar> < 2 ^ 30"
  shows "reads (decimal_scientific d cap) = dd_value d" "is_numeral (decimal_scientific d cap)"
proof -
  have ds: "dd_digits d \<noteq> []" "list_all is_digit (dd_digits d)" using assms by (auto simp: dd_ok_def)
  let ?c = "hd (dd_digits d)" let ?f = "tl (dd_digits d)"
  have d: "dd_digits d = ?c # ?f" "list_all is_digit [?c]" "list_all is_digit ?f" using ds by (cases "dd_digits d"; simp)+
  have sci: "decimal_scientific d cap = (if dd_negative d then ''-'' else []) @ [?c] @ (if ?f = [] then [] else CHR ''.'' # ?f)
      @ CHR ''e'' # show_int (dd_point d - 1)"
  proof -
    have parts: "(1 < dd_count d) = (?f \<noteq> [])" "char_at (dd_digits d) 0 = ?c" "drop 1 (dd_digits d) = ?f"
      using ds by (cases "dd_digits d"; simp add: dd_count_def)+
    have "decimal_scientific d cap = clip cap ((if dd_negative d then ''-'' else []) @ [?c]
        @ (if ?f = [] then [] else CHR ''.'' # ?f) @ CHR ''e'' # show_int (dd_point d - 1))"
      unfolding decimal_scientific_def parts by simp
    then show ?thesis using assms(2) by (metis clip_short)
  qed
  have "reads (decimal_scientific d cap)
      = (if dd_negative d then -1 else 1) * scaled (undec ([?c] @ ?f)) (dd_point d - 1 - int (length ?f))"
    unfolding sci using reads_numeral [OF d(2) _ d(3), of "CHR ''e'' # show_int (dd_point d - 1)" "dd_negative d"]
      show_int_atoi [of "dd_point d - 1"] assms(3) by (simp add: exponent_mark_def)
  also have "dd_point d - 1 - int (length ?f) = dd_point d - dd_count d"
    using d(1) by (metis dd_count_def length_Cons of_nat_Suc diff_diff_eq)
  also have "[?c] @ ?f = dd_digits d" using d(1) by simp
  finally show "reads (decimal_scientific d cap) = dd_value d" by (simp only: dd_value_def)
  show "is_numeral (decimal_scientific d cap)"
    unfolding sci using d by (intro written_numeral) auto
qed

section \<open>What the library promises\<close>

text \<open>
  The laws of decimal128 the formatting relies on, over the rational number each finite value stands for: its text
  reads as it, with at most 34 digits down to the smallest unit; reducing keeps it and, below the largest
  exponent, leaves no zeros at its end; a power of ten parses;
  and quantizing to such a power gives the nearest multiple of it, with its exponent, within 34 digits.
\<close>

definition text_law :: "'d d128 \<Rightarrow> ('d \<Rightarrow> rat) \<Rightarrow> 'd \<Rightarrow> bool" where
  "text_law lib dval x \<longleftrightarrow>
     (let d = decimal_digits_of lib x
      in numeral_text (qd_d128_format lib x) \<and> reads (qd_d128_format lib x) = dval x
         \<and> dd_count d \<le> 34 \<and> -6176 \<le> dd_point d - dd_count d \<and> dd_point d \<le> 6145)"

definition below_top :: "rat \<Rightarrow> bool" where
  "below_top v \<longleftrightarrow> \<bar>v\<bar> < 10 powi 6112"

definition reduce_law :: "'d d128 \<Rightarrow> ('d \<Rightarrow> rat) \<Rightarrow> 'd \<Rightarrow> bool" where
  "reduce_law lib dval x \<longleftrightarrow>
     (let r = qd_d128_reduce lib x; ds = dd_digits (decimal_digits_of lib r)
      in qd_d128_is_finite lib r \<and> dval r = dval x \<and> (below_top (dval x) \<longrightarrow> ds = ''0'' \<or> last ds \<noteq> CHR ''0''))"

definition quantize_law :: "'d d128 \<Rightarrow> ('d \<Rightarrow> rat) \<Rightarrow> 'd \<Rightarrow> int \<Rightarrow> 'd \<Rightarrow> bool" where
  "quantize_law lib dval u e x \<longleftrightarrow>
     (let r = qd_d128_quantize lib x u; d = decimal_digits_of lib r
      in \<bar>dval x\<bar> \<le> (10 ^ 34 - 1) * 10 powi e \<longrightarrow>
           qd_d128_is_finite lib r \<and> \<bar>dval r - dval x\<bar> \<le> 10 powi e / 2 \<and> (\<exists>m::int. dval r = of_int m * 10 powi e)
           \<and> dd_point d - dd_count d = e)"

definition d128_ok :: "'d d128 \<Rightarrow> ('d \<Rightarrow> rat) \<Rightarrow> bool" where
  "d128_ok lib dval \<longleftrightarrow>
     (\<forall>x. qd_d128_is_finite lib x \<longrightarrow> \<not> qd_d128_is_nan lib x \<and> text_law lib dval x \<and> reduce_law lib dval x)
     \<and> (\<forall>e. -6176 \<le> e \<and> e \<le> 6111 \<longrightarrow> (\<exists>u. qd_d128_parse lib (''1e'' @ show_int e) = Some u
          \<and> (\<forall>x. qd_d128_is_finite lib x \<longrightarrow> quantize_law lib dval u e x)))"

lemma d128_reduce:
  assumes "d128_ok lib dval" "qd_d128_is_finite lib x"
  shows "qd_d128_is_finite lib (qd_d128_reduce lib x)" "dval (qd_d128_reduce lib x) = dval x"
    "below_top (dval x) \<Longrightarrow> dd_digits (decimal_digits_of lib (qd_d128_reduce lib x)) = ''0''
       \<or> last (dd_digits (decimal_digits_of lib (qd_d128_reduce lib x))) \<noteq> CHR ''0''"
proof -
  have "reduce_law lib dval x" using assms by (simp add: d128_ok_def)
  then show "qd_d128_is_finite lib (qd_d128_reduce lib x)" "dval (qd_d128_reduce lib x) = dval x"
    "below_top (dval x) \<Longrightarrow> dd_digits (decimal_digits_of lib (qd_d128_reduce lib x)) = ''0''
       \<or> last (dd_digits (decimal_digits_of lib (qd_d128_reduce lib x))) \<noteq> CHR ''0''"
    by (simp_all add: reduce_law_def Let_def)
qed

lemma d128_text:
  assumes "d128_ok lib dval" "qd_d128_is_finite lib x"
  shows "dd_ok (decimal_digits_of lib x)" "dd_value (decimal_digits_of lib x) = dval x"
    "\<bar>dd_point (decimal_digits_of lib x)\<bar> < 2 ^ 30" "dd_count (decimal_digits_of lib x) \<le> 34" "0 < dd_count (decimal_digits_of lib x)"
    "-6176 \<le> dd_point (decimal_digits_of lib x) - dd_count (decimal_digits_of lib x)" "dd_point (decimal_digits_of lib x) \<le> 6145"
proof -
  have "text_law lib dval x" using assms by (simp add: d128_ok_def)
  then have laws: "numeral_text (qd_d128_format lib x)" "reads (qd_d128_format lib x) = dval x"
      "dd_count (decimal_digits_of lib x) \<le> 34" "-6176 \<le> dd_point (decimal_digits_of lib x) - dd_count (decimal_digits_of lib x)"
      "dd_point (decimal_digits_of lib x) \<le> 6145"
    by (simp_all add: text_law_def Let_def)
  show "dd_ok (decimal_digits_of lib x)" "dd_value (decimal_digits_of lib x) = dval x"
    using digits_of_text [OF laws(1)] laws(2) by simp_all
  then show "0 < dd_count (decimal_digits_of lib x)" by (simp add: dd_ok_def dd_count_def)
  then show "\<bar>dd_point (decimal_digits_of lib x)\<bar> < 2 ^ 30" using laws by simp
  show "dd_count (decimal_digits_of lib x) \<le> 34" "-6176 \<le> dd_point (decimal_digits_of lib x) - dd_count (decimal_digits_of lib x)"
    "dd_point (decimal_digits_of lib x) \<le> 6145"
    using laws by simp_all
qed

lemma nearest_multiple:
  fixes x :: rat
  assumes "\<bar>of_int m * u - x\<bar> \<le> u / 2" "x = of_int n * u" "0 < u"
  shows "of_int m * u = x"
proof -
  have "of_int m * u - x = of_int (m - n) * u" using assms(2) by (simp add: left_diff_distrib)
  then have "\<bar>of_int (m - n)\<bar> * u \<le> 1 / 2 * u" using assms(1,3) by (simp add: abs_mult)
  then have "\<bar>of_int (m - n) :: rat\<bar> \<le> 1 / 2" using assms(3) by (simp only: mult_le_cancel_right_pos)
  then have "m = n" by linarith
  then show ?thesis using assms(2) by simp
qed

text \<open>Rounded to \<open>k\<close> of its digits a number is within half a unit of the last of them, and with all of them it is itself.\<close>

lemma rounded:
  assumes ok: "d128_ok lib dval" and fin: "qd_d128_is_finite lib q"
    and d: "d = decimal_digits_of lib (qd_d128_reduce lib q)" and k: "1 \<le> k" "k \<le> length (dd_digits d)"
    and top: "dd_point d - int k \<le> 6111"
  defines "r \<equiv> decimal_round lib q (dd_point d) (int k)"
  shows "qd_d128_is_finite lib r" "\<bar>dval r - dval q\<bar> \<le> 10 powi (dd_point d - int k) / 2"
    "k = length (dd_digits d) \<Longrightarrow> dval r = dval q"
    "\<exists>m::int. dval r = of_int m * 10 powi (dd_point d - int k)"
    "\<exists>x. r = qd_d128_reduce lib x \<and> qd_d128_is_finite lib x"
    "\<bar>dval q\<bar> < 10 powi dd_point d"
proof -
  have fin': "qd_d128_is_finite lib (qd_d128_reduce lib q)" "dval (qd_d128_reduce lib q) = dval q"
    using d128_reduce [OF ok fin] by simp_all
  note dt = d128_text [OF ok fin'(1), folded d]
  let ?e = "dd_point d - int k" let ?u = "10 powi ?e :: rat"
  have e: "-6176 \<le> ?e" "?e \<le> 6111" using dt(6) k top by (auto simp: dd_count_def)
  then obtain u where u: "qd_d128_parse lib (''1e'' @ show_int ?e) = Some u" "quantize_law lib dval u ?e q"
    using ok fin unfolding d128_ok_def by blast
  have upos: "0 < ?u" by simp
  let ?n = "length (dd_digits d)"
  let ?U = "undec (dd_digits d)" let ?un = "10 powi (dd_point d - int ?n) :: rat"
  have q: "dval q = (if dd_negative d then - 1 else 1) * (of_nat ?U * ?un)"
    using dt(2) fin'(2) by (simp add: dd_value_def scaled_def dd_count_def)
  have ulast: "?un * 10 ^ (?n - k) = ?u"
    using k by (simp flip: power_int_of_nat power_int_add)
  have "?U < 10 ^ ?n" using undec_less dt(1) by (simp add: dd_ok_def)
  also have "(10::nat) ^ ?n \<le> 10 ^ 34" using dt(4) by (intro power_increasing) (auto simp: dd_count_def)
  finally have "?U + 1 \<le> 10 ^ 34" by simp
  then have "(of_nat (?U + 1) :: rat) \<le> of_nat (10 ^ 34)" by (simp only: of_nat_le_iff)
  then have U: "(of_nat ?U :: rat) \<le> 10 ^ 34 - 1" by simp
  have "?un * 1 \<le> ?un * 10 ^ (?n - k)" by (intro mult_left_mono) simp_all
  then have "of_nat ?U * ?un \<le> (10 ^ 34 - 1) * ?u" using U unfolding ulast by (intro mult_mono) simp_all
  then have small: "\<bar>dval q\<bar> \<le> (10 ^ 34 - 1) * ?u" by (simp add: q abs_mult)
  have quantized: "qd_d128_is_finite lib (qd_d128_quantize lib q u)" "\<bar>dval (qd_d128_quantize lib q u) - dval q\<bar> \<le> ?u / 2"
      "\<exists>m::int. dval (qd_d128_quantize lib q u) = of_int m * ?u"
    using u(2) small unfolding quantize_law_def Let_def by blast+
  note reduced = d128_reduce [OF ok quantized(1)]
  have "length (''1e'' @ show_int ?e) < 24"
  proof -
    have "length (dec (nat \<bar>?e\<bar>)) \<le> 4" using e by (simp add: dec.simps)
    then show ?thesis by (auto simp: show_int_def)
  qed
  then have r: "r = qd_d128_reduce lib (qd_d128_quantize lib q u)"
    using u(1) by (simp add: r_def decimal_round_def)
  show "qd_d128_is_finite lib r" "\<bar>dval r - dval q\<bar> \<le> 10 powi (dd_point d - int k) / 2"
    "\<exists>m::int. dval r = of_int m * 10 powi (dd_point d - int k)" "\<exists>x. r = qd_d128_reduce lib x \<and> qd_d128_is_finite lib x"
    using quantized reduced unfolding r by auto
  have "of_nat ?U * ?un < 10 ^ ?n * ?un"
  proof (rule mult_strict_right_mono)
    have "(of_nat ?U :: rat) < of_nat (10 ^ ?n)" using undec_less dt(1) by (simp only: of_nat_less_iff) (simp add: dd_ok_def)
    then show "(of_nat ?U :: rat) < 10 ^ ?n" by simp
  qed simp
  also have "10 ^ ?n * ?un = 10 powi dd_point d" by (simp flip: power_int_of_nat power_int_add)
  finally show "\<bar>dval q\<bar> < 10 powi dd_point d" by (simp add: q abs_mult)
  show "dval r = dval q" if "k = ?n"
  proof -
    obtain m :: int where m: "dval (qd_d128_quantize lib q u) = of_int m * ?u" using quantized by blast
    have "dval q = of_int ((if dd_negative d then - 1 else 1) * int ?U) * ?u" using q that by simp
    moreover have "\<bar>of_int m * ?u - dval q\<bar> \<le> ?u / 2" using quantized m by simp
    ultimately have "dval (qd_d128_quantize lib q u) = dval q" using nearest_multiple [OF _ _ upos] m by metis
    then show ?thesis using reduced unfolding r by simp
  qed
qed


text \<open>With one digit the exponent form is at most eight characters.\<close>

lemma length_dec_le: "n < 10 ^ k \<Longrightarrow> 0 < k \<Longrightarrow> length (dec n) \<le> k"
proof (induction k arbitrary: n)
  case (Suc k)
  show ?case
  proof (cases "n < 10")
    case True then show ?thesis by (simp add: dec.simps [of n])
  next
    case False
    then have "0 < k" using Suc.prems by (cases k) auto
    moreover have "n div 10 < 10 ^ k" using Suc.prems by (simp add: less_mult_imp_div_less)
    ultimately show ?thesis using Suc.IH [of "n div 10"] False by (simp add: dec.simps [of n])
  qed
qed simp

lemma one_digit:
  assumes ok: "dd_ok d" and v: "dd_value d = of_int m * 10 powi e" "\<bar>m\<bar> \<le> 10"
    and last: "dd_digits d = ''0'' \<or> last (dd_digits d) \<noteq> CHR ''0''"
  shows "length (dd_digits d) = 1"
proof (rule ccontr)
  let ?ds = "dd_digits d" let ?U = "undec ?ds" let ?L = "length ?ds"
  assume "?L \<noteq> 1"
  moreover have "?ds \<noteq> []" using ok by (simp add: dd_ok_def)
  ultimately have L: "2 \<le> ?L" by (cases ?ds; cases "tl ?ds") auto
  have ds: "?ds = butlast ?ds @ [last ?ds]" "list_all is_digit ?ds" "hd ?ds \<noteq> CHR ''0''"
    using L ok by (auto simp: dd_ok_def)
  have last': "last ?ds \<noteq> CHR ''0''" "is_digit (last ?ds)" using L last ds(2) \<open>?ds \<noteq> []\<close> by (auto simp: list_all_iff)
  have digit: "is_digit c \<Longrightarrow> digit_val c < 10" "is_digit c \<Longrightarrow> c \<noteq> CHR ''0'' \<Longrightarrow> 0 < digit_val c" for c
  proof -
    assume c: "is_digit c"
    then have *: "48 \<le> code c" "code c \<le> 57" by (simp_all add: is_digit_def between_def code_def)
    then show "digit_val c < 10" by (simp add: digit_val_def)
    assume "c \<noteq> CHR ''0''"
    then have "code c \<noteq> code (CHR ''0'')" using code_inj by blast
    then show "0 < digit_val c" using * by (simp add: digit_val_def code_def)
  qed
  have U: "?U = 10 * undec (butlast ?ds) + digit_val (last ?ds)" using undec_snoc ds(1) by metis
  have "?U mod 10 = digit_val (last ?ds)" using digit(1) [OF last'(2)] by (simp add: U)
  then have ndvd: "\<not> 10 dvd ?U" using digit(2) [OF last'(2,1)] by (simp add: dvd_eq_mod_eq_0)
  have "0 < undec (butlast ?ds)"
  proof -
    have hd: "is_digit (hd ?ds)" using ds(2) \<open>?ds \<noteq> []\<close> by (cases ?ds) auto
    have "butlast ?ds = hd ?ds # tl (butlast ?ds)" using L by (cases ?ds; cases "tl ?ds") auto
    then have "undec (butlast ?ds) = undec [hd ?ds] * 10 ^ length (tl (butlast ?ds)) + undec (tl (butlast ?ds))"
      using undec_append [of "[hd ?ds]" "tl (butlast ?ds)"] by simp
    moreover have "0 < undec [hd ?ds]" using digit(2) [OF hd ds(3)] by (simp add: undec_def)
    ultimately show ?thesis by simp
  qed
  then have big: "10 < ?U" using U digit(2) [OF last'(2,1)] by simp
  let ?k = "dd_point d - dd_count d - e"
  have eq: "(if dd_negative d then - 1 else 1) * (of_nat ?U * 10 powi ?k) = (of_int m :: rat)"
  proof -
    have "(if dd_negative d then - 1 else 1) * (of_nat ?U * (10 powi ?k * 10 powi e)) = (of_int m :: rat) * 10 powi e"
      using v(1) by (simp add: dd_value_def scaled_def flip: power_int_add)
    then show ?thesis by (metis (no_types, lifting) mult.assoc mult_cancel_right power_int_eq_0_iff zero_neq_numeral)
  qed
  show False
  proof (cases "0 \<le> ?k")
    case True
    then have "10 powi ?k = (10 ^ nat ?k :: rat)" by (metis int_nat_eq power_int_of_nat)
    then have "\<bar>of_int m :: rat\<bar> = \<bar>(if dd_negative d then - 1 else 1) * (of_nat ?U * 10 ^ nat ?k)\<bar>" using eq by simp
    then have "\<bar>of_int m :: rat\<bar> = of_nat ?U * 10 ^ nat ?k" by (simp add: abs_mult split: if_splits)
    then have "(of_nat ?U :: rat) \<le> \<bar>of_int m\<bar>" by (simp add: mult_le_cancel_left1)
    then have "int ?U \<le> \<bar>m\<bar>" by (metis of_int_abs of_int_le_iff of_int_of_nat_eq)
    then show False using big v(2) by simp
  next
    case False
    define j where "j = nat (- ?k)"
    have "0 < j" "?k = - int j" using False by (simp_all add: j_def)
    then have "10 powi ?k = (inverse (10 ^ j) :: rat)" by (simp add: power_int_minus)
    then have "\<bar>of_int m :: rat\<bar> = \<bar>(if dd_negative d then - 1 else 1) * (of_nat ?U * inverse (10 ^ j))\<bar>" using eq by simp
    then have "\<bar>of_int m :: rat\<bar> = of_nat ?U * inverse (10 ^ j)" by (simp add: abs_mult split: if_splits)
    then have "(of_nat ?U :: rat) = \<bar>of_int m\<bar> * 10 ^ j" by (simp add: field_simps)
    then have "(of_int (int ?U) :: rat) = of_int (\<bar>m\<bar> * 10 ^ j)" by simp
    then have "int ?U = \<bar>m\<bar> * 10 ^ j" by (simp only: of_int_eq_iff)
    then have "10 dvd int ?U" using \<open>0 < j\<close> by (cases j) auto
    then show False using ndvd by presburger
  qed
qed


section \<open>What is shown\<close>

text \<open>The text for a number of digits, if it fits.\<close>

definition shown_with :: "'d d128 \<Rightarrow> 'd \<Rightarrow> int \<Rightarrow> nat \<Rightarrow> nat \<Rightarrow> nat \<Rightarrow> cstring option" where
  "shown_with lib q point cap room k =
     (let r = decimal_digits_of lib (decimal_round lib q point (int k)); plain = decimal_plain r 0 cap; sci = decimal_scientific r cap
      in if -4 < dd_point r \<and> dd_point r \<le> DECIMAL_PLAIN_MAX \<and> length plain \<le> room then Some plain
         else if length sci \<le> room then Some sci else None)"

lemma show_rounded_first:
  "\<exists>j. 1 \<le> j \<and> j \<le> k \<and> shown_with lib q point cap room j \<noteq> None \<Longrightarrow>
     \<exists>j. 1 \<le> j \<and> j \<le> k \<and> shown_with lib q point cap room j = Some (show_rounded lib q point cap room k shown)
       \<and> (\<forall>i. j < i \<and> i \<le> k \<longrightarrow> shown_with lib q point cap room i = None)"
proof (induction k arbitrary: shown)
  case (Suc k)
  show ?case
  proof (cases "shown_with lib q point cap room (Suc k)")
    case (Some s)
    then have "shown_with lib q point cap room (Suc k) = Some (show_rounded lib q point cap room (Suc k) shown)"
      by (auto simp: shown_with_def Let_def split: if_splits)
    then show ?thesis by (intro exI [of _ "Suc k"]) auto
  next
    case None
    let ?sci = "decimal_scientific (decimal_digits_of lib (decimal_round lib q point (int (Suc k)))) cap"
    have step: "show_rounded lib q point cap room (Suc k) shown = show_rounded lib q point cap room k ?sci"
      using None by (auto simp: shown_with_def Let_def split: if_splits)
    have "\<exists>j. 1 \<le> j \<and> j \<le> k \<and> shown_with lib q point cap room j \<noteq> None"
      using Suc.prems None by (metis le_SucE)
    from Suc.IH [OF this, of ?sci] obtain j where j: "1 \<le> j" "j \<le> k"
        "shown_with lib q point cap room j = Some (show_rounded lib q point cap room k ?sci)"
        "\<forall>i. j < i \<and> i \<le> k \<longrightarrow> shown_with lib q point cap room i = None" by blast
    then show ?thesis unfolding step using None by (intro exI [of _ j]) (metis le_SucE le_SucI)
  qed
qed simp

lemma shown_with_reads:
  assumes ok: "d128_ok lib dval" and fin: "qd_d128_is_finite lib (decimal_round lib q point (int k))"
    and some: "shown_with lib q point cap room k = Some s" and cap: "room + 2 < cap"
  shows "length s \<le> room" "reads s = dval (decimal_round lib q point (int k))" "is_numeral s"
proof -
  let ?r = "decimal_digits_of lib (decimal_round lib q point (int k))"
  note r = d128_text [OF ok fin]
  show len: "length s \<le> room" using some by (auto simp: shown_with_def Let_def split: if_splits)
  consider "s = decimal_plain ?r 0 cap" | "s = decimal_scientific ?r cap"
    using some by (auto simp: shown_with_def Let_def split: if_splits)
  then have "reads s = dval (decimal_round lib q point (int k)) \<and> is_numeral s"
  proof cases
    case 1
    then have "s = plain_text ?r 0" using decimal_plain_eq [of cap ?r 0] len cap by auto
    then show ?thesis using plain_value [OF r(1)] r(2) by simp
  next
    case 2
    then have "length (decimal_scientific ?r cap) + 1 < cap" using len cap by simp
    then show ?thesis using scientific_value [OF r(1) _ r(3)] r(2) 2 by simp
  qed
  then show "reads s = dval (decimal_round lib q point (int k))" "is_numeral s" by auto
qed

lemma one_digit_fits:
  assumes ok: "d128_ok lib dval" and fin: "qd_d128_is_finite lib q"
    and d: "d = decimal_digits_of lib (qd_d128_reduce lib q)" and top: "dd_point d \<le> 6111" and room: "8 \<le> room" "room + 2 < cap"
  shows "shown_with lib q (dd_point d) cap room 1 \<noteq> None"
proof -
  let ?q1 = "decimal_round lib q (dd_point d) (int 1)" let ?r = "decimal_digits_of lib ?q1"
  have fin': "qd_d128_is_finite lib (qd_d128_reduce lib q)" using d128_reduce [OF ok fin] by simp
  have n: "(1::nat) \<le> length (dd_digits d)" using d128_text(5) [OF ok fin', folded d] by (cases "dd_digits d") (auto simp: dd_count_def)
  have q1: "qd_d128_is_finite lib ?q1" "\<bar>dval ?q1 - dval q\<bar> \<le> 10 powi (dd_point d - 1) / 2" "\<bar>dval q\<bar> < 10 powi dd_point d"
      "\<exists>m::int. dval ?q1 = of_int m * 10 powi (dd_point d - 1)" "\<exists>x. ?q1 = qd_d128_reduce lib x \<and> qd_d128_is_finite lib x"
    using rounded [OF ok fin d _ n] top by simp_all
  note r = d128_text [OF ok q1(1)]
  let ?u = "10 powi (dd_point d - 1) :: rat"
  have u: "0 < ?u" "10 powi dd_point d = 10 * ?u" by (simp_all add: power_int_diff)
  obtain m :: int where m: "dval ?q1 = of_int m * ?u" using q1(4) by blast
  have "\<bar>dval ?q1\<bar> \<le> \<bar>dval ?q1 - dval q\<bar> + \<bar>dval q\<bar>" by simp
  then have "\<bar>dval ?q1\<bar> < ?u / 2 + 10 * ?u" using q1(2,3) unfolding u(2) by linarith
  then have "\<bar>of_int m * ?u\<bar> < (10 + 1 / 2) * ?u" unfolding m by (simp add: algebra_simps)
  then have "\<bar>of_int m :: rat\<bar> < 10 + 1 / 2" using u(1) by (simp only: abs_mult abs_of_pos mult_less_cancel_right_pos)
  then have m10: "\<bar>m\<bar> \<le> 10" by linarith
  have "\<bar>dval ?q1\<bar> \<le> 10 powi dd_point d" using m m10 u by (simp add: abs_mult)
  also have "10 powi dd_point d < (10 powi 6112 :: rat)" by (rule power_int_strict_increasing) (use top in simp_all)
  finally have "below_top (dval ?q1)" by (simp only: below_top_def)
  then have "dd_digits ?r = ''0'' \<or> last (dd_digits ?r) \<noteq> CHR ''0''"
    using q1(5) d128_reduce [OF ok] by metis
  moreover have "dd_value ?r = of_int m * 10 powi (dd_point d - 1)" using r(2) m by simp
  ultimately have "length (dd_digits ?r) = 1" using one_digit [OF r(1) _ m10] by blast
  then obtain c where c: "dd_digits ?r = [c]" by (metis length_0_conv length_Suc_conv One_nat_def)
  have "nat \<bar>dd_point ?r - 1\<bar> < 10 ^ 4" using r(6,7) c by (simp add: dd_count_def)
  then have "length (dec (nat \<bar>dd_point ?r - 1\<bar>)) \<le> 4" by (rule length_dec_le) simp
  then have "length (show_int (dd_point ?r - 1)) \<le> 5" by (auto simp: show_int_def)
  then have "length ((if dd_negative ?r then ''-'' else []) @ char_at (dd_digits ?r) 0 # (if 1 < dd_count ?r then ''.'' else [])
       @ drop 1 (dd_digits ?r) @ CHR ''e'' # show_int (dd_point ?r - 1)) \<le> 8"
    unfolding c dd_count_def by simp
  then have "length (decimal_scientific ?r cap) \<le> room" unfolding decimal_scientific_def clip_def using room(1) by simp
  then show ?thesis by (simp add: shown_with_def Let_def)
qed

text \<open>C20. A finite decimal under \<open>10 ^ 6111\<close> in size, shown in normal notation with automatic decimals in a row of at least
eight columns: the text is a numeral that fits the row, and
reads as the number rounded to some of its digits, within half a unit of the last one kept; it is the number itself when
no digit was dropped, and digits are dropped only when the text with more of them does not fit.\<close>

theorem shown_decimal_is_the_number:
  assumes ok: "d128_ok lib dval" and fin: "qd_d128_is_finite lib q"
    and d: "d = decimal_digits_of lib (qd_d128_reduce lib q)" and top: "dd_point d \<le> 6111" and room: "8 \<le> room" "room + 2 < cap"
    and s: "s = format_decimal lib lm NOTATION_NORMAL DECIMALS_AUTO q cap room"
  shows "length s \<le> room \<and> is_numeral s
    \<and> (\<exists>k. 1 \<le> k \<and> k \<le> length (dd_digits d) \<and> \<bar>reads s - dval q\<bar> \<le> 10 powi (dd_point d - int k) / 2
         \<and> (k = length (dd_digits d) \<longrightarrow> reads s = dval q)
         \<and> (\<forall>i. k < i \<and> i \<le> length (dd_digits d) \<longrightarrow> shown_with lib q (dd_point d) cap room i = None))"
proof -
  have fin': "qd_d128_is_finite lib (qd_d128_reduce lib q)" using d128_reduce [OF ok fin] by simp
  have n: "1 \<le> length (dd_digits d)"
    using d128_text(5) [OF ok fin', folded d] by (cases "dd_digits d") (auto simp: dd_count_def)
  have s': "s = show_rounded lib q (dd_point d) cap room (length (dd_digits d)) []"
    using fin by (simp add: s d format_decimal_def format_general_def Let_def)
  have "\<exists>j. 1 \<le> j \<and> j \<le> length (dd_digits d) \<and> shown_with lib q (dd_point d) cap room j \<noteq> None"
    using one_digit_fits [OF ok fin d top room] n by auto
  from show_rounded_first [OF this, of "[]", folded s'] obtain k where k: "1 \<le> k" "k \<le> length (dd_digits d)"
      "shown_with lib q (dd_point d) cap room k = Some s"
      "\<forall>i. k < i \<and> i \<le> length (dd_digits d) \<longrightarrow> shown_with lib q (dd_point d) cap room i = None" by blast
  have "dd_point d - int k \<le> 6111" using top k(1) by simp
  note r = rounded [OF ok fin d k(1,2) this]
  note read = shown_with_reads [OF ok r(1) k(3) room(2)]
  show ?thesis using read r(2,3) k by (intro conjI exI [of _ k]) auto
qed


section \<open>A column of decimals\<close>

lemma plain_fraction_length:
  assumes "dd_ok d" "dd_count d - dd_point d = int n"
  shows "length (fraction_part (mantissa (plain_text d (int n)))) = n"
proof -
  let ?f = "plain_after d @ replicate (nat (int n) - length (plain_after d)) (CHR ''0'')"
  have ds: "dd_digits d \<noteq> []" "list_all is_digit (dd_digits d)" using assms by (auto simp: dd_ok_def)
  then have digits: "list_all is_digit (plain_before d)" "list_all is_digit ?f" "plain_before d \<noteq> []"
    by (auto simp: plain_before_def plain_after_def list_all_iff dest: in_set_takeD in_set_dropD)
  have "plain_text d (int n) = (if dd_negative d then ''-'' else []) @ plain_before d @ (if ?f = [] then [] else CHR ''.'' # ?f) @ []"
    by (simp add: plain_text_def Let_def)
  from numeral_parts(2) [OF digits(1,3,2) _ this] have "fraction_part (mantissa (plain_text d (int n))) = ?f" by simp
  moreover have "length (plain_after d) \<le> n" using assms(2) by (auto simp: plain_after_def dd_count_def)
  ultimately show ?thesis by simp
qed

text \<open>A finite decimal shown with a fixed number of decimals, where that fits the row: the text has just that many
digits after its point, whatever the number, and reads as the number to within half a unit of the last of them.\<close>

theorem decimals_line_up:
  assumes ok: "d128_ok lib dval" and fin: "qd_d128_is_finite lib q" and n: "1 \<le> n" "n \<le> 9"
    and size: "\<bar>dval q\<bar> \<le> (10 ^ 34 - 1) * 10 powi (- int n)"
    and s: "s = format_decimal lib lm NOTATION_NORMAL (int n) q cap room" and cap: "room + 2 < cap"
    and fits: "qd_d128_parse lib (''1e-'' @ show_int (int n)) = Some u"
      "length (decimal_plain (decimal_digits_of lib (qd_d128_quantize lib q u)) (int n) cap) \<le> room"
  shows "length (fraction_part (mantissa s)) = n \<and> \<bar>reads s - dval q\<bar> \<le> 10 powi (- int n) / 2"
proof -
  let ?r = "qd_d128_quantize lib q u" let ?d = "decimal_digits_of lib ?r"
  have like: "''1e-'' @ show_int (int n) = ''1e'' @ show_int (- int n)" using n by (simp add: show_int_def)
  have "-6176 \<le> - int n \<and> - int n \<le> 6111" using n by simp
  then have "\<exists>v. qd_d128_parse lib (''1e'' @ show_int (- int n)) = Some v
      \<and> (\<forall>x. qd_d128_is_finite lib x \<longrightarrow> quantize_law lib dval v (- int n) x)"
    using ok unfolding d128_ok_def by blast
  then have "quantize_law lib dval u (- int n) q" using fin fits(1) unfolding like by auto
  then have r: "qd_d128_is_finite lib ?r" "\<bar>dval ?r - dval q\<bar> \<le> 10 powi (- int n) / 2" "dd_point ?d - dd_count ?d = - int n"
    using size unfolding quantize_law_def Let_def by blast+
  have "\<not> qd_d128_is_nan lib ?r" using ok r(1) by (simp add: d128_ok_def)
  moreover have "length (show_int (int n)) = 1" using n by (simp add: show_int_def dec.simps)
  ultimately have s': "s = decimal_plain ?d (int n) cap"
    using fin n fits by (simp add: s format_decimal_def DECIMALS_AUTO_def)
  note t = d128_text [OF ok r(1)]
  have "s = plain_text ?d (int n)" using decimal_plain_eq [of cap ?d "int n"] fits(2) cap unfolding s' by auto
  then show ?thesis using plain_value [OF t(1), of "int n"] plain_fraction_length [OF t(1), of n] r(2,3) t(2) by simp
qed


section \<open>A decimal library\<close>

text \<open>The promises can be kept: a decimal as its coefficient and exponent.\<close>

type_synonym pair = "int \<times> int"

definition coefficient_text :: "int \<Rightarrow> cstring" where
  "coefficient_text c = dec (nat \<bar>c\<bar>)"

definition coefficient_digits :: "int \<Rightarrow> int" where
  "coefficient_digits c = int (length (coefficient_text c))"

fun strip :: "nat \<Rightarrow> int \<Rightarrow> int \<Rightarrow> pair" where
  "strip 0 c e = (c, e)"
| "strip (Suc n) c e = (if c = 0 then (0, 0) else if c mod 10 = 0 then strip n (c div 10) (e + 1) else (c, e))"

definition nearest :: "int \<Rightarrow> int \<Rightarrow> int \<Rightarrow> int" where
  "nearest c e u = (if u \<le> e then c * 10 ^ nat (e - u) else (2 * c + 10 ^ nat (u - e)) div (2 * 10 ^ nat (u - e)))"

definition pair_d128 :: "pair d128" where
  "pair_d128 =
     \<lparr>qd_d128_format = (\<lambda>(c, e). (if c < 0 then ''-'' else []) @ coefficient_text c @ ''E'' @ show_int e),
      qd_d128_parse = (\<lambda>s. if take 2 s = ''1e'' then Some (1, atoi (drop 2 s)) else None),
      qd_d128_quantize = (\<lambda>(c, e) (one, u). (nearest c e u, u)),
      qd_d128_reduce = (\<lambda>(c, e). strip 34 c e),
      qd_d128_is_finite = (\<lambda>(c, e). \<bar>c\<bar> < 10 ^ 34 \<and> -6176 \<le> e \<and> e + coefficient_digits c \<le> 6145),
      qd_d128_is_nan = (\<lambda>q. False), qd_d128_is_zero = (\<lambda>(c, e). c = 0), qd_d128_nan = (0, 0), qd_d128_to_f64 = (\<lambda>q. 0)\<rparr>"

definition pair_value :: "pair \<Rightarrow> rat" where
  "pair_value q = of_int (fst q) * 10 powi snd q"

lemma dec_first: "0 < n \<Longrightarrow> hd (dec n) \<noteq> CHR ''0''"
proof (induction n rule: dec.induct)
  case (1 n)
  show ?case
  proof (cases "n < 10")
    case True
    have "code (digit_char n) = 48 + n" "code (CHR ''0'') = 48" using True by (simp, simp add: code_def)
    then have "digit_char n \<noteq> CHR ''0''" using 1(2) by force
    then show ?thesis using True by (simp add: dec.simps [of n])
  next
    case False
    then show ?thesis using 1 by (simp add: dec.simps [of n])
  qed
qed

lemma dec_zero: "dec 0 = ''0''"
proof -
  have "code (digit_char 0) = code (CHR ''0'')" by (simp, simp add: code_def)
  then have "digit_char 0 = CHR ''0''" by (rule code_inj)
  then show ?thesis by (simp add: dec.simps)
qed

lemma drop_zeros_dec: "drop_zeros (dec n) = dec n"
proof (cases "n = 0")
  case True then show ?thesis by (simp add: dec_zero)
next
  case False
  then show ?thesis using dec_first [of n] by (cases "dec n") auto
qed

lemma dec_digits: "list_all is_digit (dec n)"
  using digits_dec by (auto simp: list_all_iff)

lemma coefficient_text: "list_all is_digit (coefficient_text c)" "coefficient_text c \<noteq> []"
    "drop_zeros (coefficient_text c) = coefficient_text c" "undec (coefficient_text c) = nat \<bar>c\<bar>"
  by (simp_all add: coefficient_text_def dec_digits drop_zeros_dec)

lemma pair_digits:
  "decimal_digits_of pair_d128 (c, e) =
     \<lparr>dd_negative = (c < 0), dd_digits = coefficient_text c, dd_point = coefficient_digits c + atoi (show_int e)\<rparr>"
proof -
  let ?ds = "coefficient_text c"
  have first: "hd ?ds \<noteq> CHR ''-''" "hd ?ds \<noteq> CHR ''+''" using coefficient_text(1,2) [of c] by (cases ?ds; auto)+
  have run: "take_digits (?ds @ ''E'' @ show_int e) [] (-1) = (?ds, -1, ''E'' @ show_int e)"
    using take_digits_run [OF digits_plain [OF coefficient_text(1)], of c "''E'' @ show_int e"] by (simp add: exponent_mark_def)
  show ?thesis
    unfolding decimal_digits_of_def pair_d128_def using first run
    by (cases "c < 0") (simp_all add: Let_def coefficient_text coefficient_digits_def)
qed

lemma coefficient_digits_pos: "1 \<le> coefficient_digits c"
  using coefficient_text(2) [of c] by (cases "coefficient_text c") (auto simp: coefficient_digits_def)

lemma coefficient_digits_le: "\<bar>c\<bar> < 10 ^ 34 \<Longrightarrow> coefficient_digits c \<le> 34"
  using length_dec_le [of "nat \<bar>c\<bar>" 34] by (simp add: coefficient_digits_def coefficient_text_def)

lemma coefficient_digits_div:
  assumes "c \<noteq> 0" "c mod 10 = 0"
  shows "coefficient_digits (c div 10) = coefficient_digits c - 1"
proof -
  obtain k where k: "c = 10 * k" using assms(2) by (metis mod_0_imp_dvd dvdE)
  then have "nat \<bar>c\<bar> = 10 * nat \<bar>k\<bar>" "\<not> nat \<bar>c\<bar> < 10" using assms(1) by (auto simp: abs_mult nat_mult_distrib)
  then have "dec (nat \<bar>c\<bar>) = dec (nat \<bar>k\<bar>) @ [digit_char 0]" by (subst dec.simps) simp
  then show ?thesis using k by (simp add: coefficient_digits_def coefficient_text_def)
qed

lemma strip_spec:
  assumes "\<bar>c\<bar> < 10 ^ n"
  shows "pair_value (strip n c e) = pair_value (c, e)"
    "c \<noteq> 0 \<Longrightarrow> snd (strip n c e) + coefficient_digits (fst (strip n c e)) = e + coefficient_digits c"
    "c \<noteq> 0 \<Longrightarrow> e \<le> snd (strip n c e)" "\<bar>fst (strip n c e)\<bar> \<le> \<bar>c\<bar>"
    "fst (strip n c e) = 0 \<or> fst (strip n c e) mod 10 \<noteq> 0"
    "c = 0 \<Longrightarrow> 0 < n \<Longrightarrow> strip n c e = (0, 0)"
  using assms
proof (induction n arbitrary: c e)
  case 0
  { case 1 then show ?case by simp next case 2 then show ?case by simp next case 3 then show ?case by simp
    next case 4 then show ?case by simp next case 5 then show ?case by simp next case 6 then show ?case by simp }
next
  case (Suc n)
  have small: "\<bar>c div 10\<bar> < 10 ^ n" "c = 10 * (c div 10)" if "c mod 10 = 0" "\<bar>c\<bar> < 10 ^ Suc n" for c :: int
  proof -
    show c: "c = 10 * (c div 10)" using that(1) by auto
    then have "\<bar>c\<bar> = 10 * \<bar>c div 10\<bar>" by (simp add: abs_mult)
    then show "\<bar>c div 10\<bar> < 10 ^ n" using that(2) by simp
  qed
  { case 1
    show ?case
    proof (cases "c = 0 \<or> c mod 10 \<noteq> 0")
      case True then show ?thesis by (auto simp: pair_value_def)
    next
      case False
      then have "of_int c * 10 powi e = (of_int (c div 10) * 10 powi (e + 1) :: rat)"
        using small(2) [OF _ 1] by (metis (no_types, opaque_lifting) of_int_mult of_int_numeral power_int_add_1' mult.assoc mult.commute zero_neq_numeral)
      then show ?thesis using Suc(1) [of "c div 10" "e + 1", OF small(1) [of c]] False 1 by (simp add: pair_value_def)
    qed
  next case 2 then show ?case using Suc(2) [of "c div 10" "e + 1"] coefficient_digits_div [of c] small [of c] by auto
  next case 3 then show ?case using Suc(3) [of "c div 10" "e + 1"] small [of c] by auto
  next case 4
    then show ?case using Suc(4) [of "c div 10" "e + 1"] small [of c] by (auto simp: abs_if split: if_splits)
  next case 5 then show ?case using Suc(5) [of "c div 10" "e + 1"] small [of c] by auto
  next case 6 then show ?case by simp }
qed


lemma pair_finite: "qd_d128_is_finite pair_d128 (c, e) \<longleftrightarrow> \<bar>c\<bar> < 10 ^ 34 \<and> -6176 \<le> e \<and> e + coefficient_digits c \<le> 6145"
  by (simp add: pair_d128_def)

lemma pair_text:
  assumes "qd_d128_is_finite pair_d128 (c, e)"
  shows "text_law pair_d128 pair_value (c, e)"
proof -
  have e: "atoi (show_int e) = e" using assms coefficient_digits_pos [of c] by (intro show_int_atoi) (simp_all add: pair_finite)
  let ?s = "(if c < 0 then ''-'' else []) @ coefficient_text c @ (if ([]::cstring) = [] then [] else CHR ''.'' # []) @ ''E'' @ show_int e"
  have s: "qd_d128_format pair_d128 (c, e) = ?s" by (simp add: pair_d128_def)
  note parts = numeral_parts [OF coefficient_text(1,2), of "[]" "''E'' @ show_int e" ?s "c < 0" c, simplified exponent_mark_def, simplified]
  have "numeral_text ?s"
    using numeral_parts(1,2) [OF coefficient_text(1,2), of "[]" "''E'' @ show_int e" ?s "c < 0" c] coefficient_text(1,2) [of c]
    by (simp add: numeral_text_def exponent_mark_def)
  moreover have "reads ?s = pair_value (c, e)"
    using reads_numeral [OF coefficient_text(1,2), of "[]" "''E'' @ show_int e" "c < 0" c] e
    by (simp add: exponent_mark_def scaled_def coefficient_text pair_value_def of_nat_nat)
  ultimately show ?thesis
    using assms e coefficient_digits_le [of c] unfolding text_law_def s pair_digits Let_def
    by (simp add: pair_finite dd_count_def flip: coefficient_digits_def)
qed

lemma pair_reduce:
  assumes "qd_d128_is_finite pair_d128 (c, e)"
  shows "reduce_law pair_d128 pair_value (c, e)"
proof -
  have c: "\<bar>c\<bar> < 10 ^ 34" using assms by (simp add: pair_finite)
  note st = strip_spec [OF c, of e]
  obtain c' e' where r: "strip 34 c e = (c', e')" by (cases "strip 34 c e")
  have red: "qd_d128_reduce pair_d128 (c, e) = (c', e')" by (simp add: pair_d128_def r)
  have one: "coefficient_digits 0 = 1" by (simp add: coefficient_digits_def coefficient_text_def dec.simps)
  have "qd_d128_is_finite pair_d128 (c', e')"
  proof (cases "c = 0")
    case True
    then have "c' = 0" "e' = 0" using st(6) r by auto
    then show ?thesis using one by (simp add: pair_finite)
  next
    case False then show ?thesis using st(2,3,4) assms by (simp add: pair_finite r)
  qed
  moreover have "coefficient_text c' = ''0'' \<or> last (coefficient_text c') \<noteq> CHR ''0''"
  proof (cases "c' = 0")
    case True then show ?thesis by (simp add: coefficient_text_def dec_zero)
  next
    case False
    then have "c' mod 10 \<noteq> 0" using st(5) by (simp add: r)
    have m: "nat \<bar>c'\<bar> mod 10 \<noteq> 0"
    proof
      assume "nat \<bar>c'\<bar> mod 10 = 0"
      then obtain k where "nat \<bar>c'\<bar> = 10 * k" by (metis mod_0_imp_dvd dvdE)
      then have "\<bar>c'\<bar> = 10 * int k" by linarith
      then have "10 dvd \<bar>c'\<bar>" by simp
      then show False using \<open>c' mod 10 \<noteq> 0\<close> by simp
    qed
    let ?n = "nat \<bar>c'\<bar>"
    have "last (dec ?n) = digit_char (?n mod 10)" by (cases "?n < 10") (simp_all add: dec.simps [of ?n])
    moreover have "digit_char (?n mod 10) \<noteq> CHR ''0''"
    proof
      assume zero: "digit_char (?n mod 10) = CHR ''0''"
      have "48 + ?n mod 10 = code (digit_char (?n mod 10))" by (rule code_digit_char [symmetric]) simp
      also have "\<dots> = code (CHR ''0'')" by (simp only: zero)
      also have "\<dots> = 48" by (simp add: code_def)
      finally show False using m by simp
    qed
    ultimately show ?thesis by (auto simp: coefficient_text_def)
  qed
  ultimately show ?thesis using st(1) by (simp add: reduce_law_def Let_def red r pair_digits)
qed

lemma nearest_spec:
  "\<bar>pair_value (nearest c e u, u) - pair_value (c, e)\<bar> \<le> 10 powi u / 2"
proof (cases "u \<le> e")
  case True
  then have "(10 ^ nat (e - u) * 10 powi u :: rat) = 10 powi e" by (simp flip: power_int_of_nat power_int_add)
  then have "pair_value (nearest c e u, u) = pair_value (c, e)" using True by (simp add: pair_value_def nearest_def mult.assoc)
  then show ?thesis by simp
next
  case False
  let ?t = "10 ^ nat (u - e) :: int" let ?m = "(2 * c + ?t) div (2 * ?t)"
  have t: "(10 powi u :: rat) = of_int ?t * 10 powi e" using False by (simp flip: power_int_of_nat power_int_add)
  have half: "\<bar>2 * y\<bar> \<le> T \<Longrightarrow> \<bar>y\<bar> \<le> T / 2" for y T :: rat by (simp add: abs_mult)
  have "\<bar>2 * (m * T - c)\<bar> \<le> T" if "0 < T" "m = (2 * c + T) div (2 * T)" for T m :: int
  proof -
    define R where "R = (2 * c + T) mod (2 * T)"
    have "2 * (T * m) + R = 2 * c + T" using that(2) mult_div_mod_eq [of "2 * T" "2 * c + T"] by (simp add: R_def mult.assoc)
    moreover have "0 \<le> R" "R < 2 * T" using that(1) by (simp_all add: R_def)
    ultimately show ?thesis by (simp add: abs_le_iff mult.commute)
  qed
  then have "\<bar>2 * (?m * ?t - c)\<bar> \<le> ?t" by simp
  then have "(of_int \<bar>2 * (?m * ?t - c)\<bar> :: rat) \<le> of_int ?t" by (simp only: of_int_le_iff)
  then have "\<bar>2 * (of_int ?m * of_int ?t - of_int c)\<bar> \<le> (of_int ?t :: rat)"
    by (simp only: of_int_abs of_int_mult of_int_diff of_int_numeral)
  then have bound: "\<bar>of_int ?m * of_int ?t - of_int c :: rat\<bar> \<le> of_int ?t / 2" by (rule half)
  have "pair_value (nearest c e u, u) - pair_value (c, e) = (of_int ?m * of_int ?t - of_int c) * 10 powi e"
    using False t by (simp add: pair_value_def nearest_def algebra_simps)
  then have "\<bar>pair_value (nearest c e u, u) - pair_value (c, e)\<bar> = \<bar>of_int ?m * of_int ?t - of_int c :: rat\<bar> * 10 powi e"
    by (simp only: abs_mult) simp
  also have "\<dots> \<le> of_int ?t / 2 * 10 powi e" using bound by (intro mult_right_mono) simp_all
  finally show ?thesis using t by simp
qed

lemma pair_quantize:
  assumes "-6176 \<le> u" "u \<le> 6111"
  shows "quantize_law pair_d128 pair_value (1, u) u (c, e)"
proof -
  let ?m = "nearest c e u"
  have r: "qd_d128_quantize pair_d128 (c, e) (1, u) = (?m, u)" by (simp add: pair_d128_def)
  have fin: "qd_d128_is_finite pair_d128 (?m, u)" if "\<bar>pair_value (c, e)\<bar> \<le> (10 ^ 34 - 1) * 10 powi u"
  proof -
    have "\<bar>pair_value (?m, u)\<bar> \<le> \<bar>pair_value (?m, u) - pair_value (c, e)\<bar> + \<bar>pair_value (c, e)\<bar>" by simp
    then have "\<bar>pair_value (?m, u)\<bar> \<le> 10 powi u / 2 + (10 ^ 34 - 1) * 10 powi u" using nearest_spec [of c e u] that by linarith
    then have "\<bar>of_int ?m :: rat\<bar> * 10 powi u \<le> (1 / 2 + (10 ^ 34 - 1)) * 10 powi u"
      by (simp add: pair_value_def abs_mult algebra_simps)
    then have "\<bar>of_int ?m :: rat\<bar> \<le> 1 / 2 + (10 ^ 34 - 1)" by (simp only: mult_le_cancel_right_pos zero_less_power_int)
    then have "(of_int \<bar>?m\<bar> :: rat) < of_int (10 ^ 34)" by simp
    then have "\<bar>?m\<bar> < 10 ^ 34" by (simp only: of_int_less_iff)
    then show ?thesis using coefficient_digits_le [of ?m] assms by (simp add: pair_finite)
  qed
  have "atoi (show_int u) = u" using assms by (intro show_int_atoi) simp_all
  then show ?thesis
    using fin nearest_spec [of c e u] unfolding quantize_law_def Let_def r pair_digits
    by (auto simp: pair_value_def dd_count_def coefficient_digits_def)
qed

lemma pair_ok: "d128_ok pair_d128 pair_value"
  unfolding d128_ok_def
proof (intro conjI allI impI)
  fix x assume x: "qd_d128_is_finite pair_d128 x"
  show "\<not> qd_d128_is_nan pair_d128 x" by (simp add: pair_d128_def)
  show "text_law pair_d128 pair_value x" "reduce_law pair_d128 pair_value x" using x pair_text pair_reduce by (cases x; blast)+
next
  fix e :: int assume e: "-6176 \<le> e \<and> e \<le> 6111"
  then have "atoi (show_int e) = e" by (intro show_int_atoi) simp_all
  then have "qd_d128_parse pair_d128 (''1e'' @ show_int e) = Some (1, e)" by (simp add: pair_d128_def)
  then show "\<exists>u. qd_d128_parse pair_d128 (''1e'' @ show_int e) = Some u
      \<and> (\<forall>x. qd_d128_is_finite pair_d128 x \<longrightarrow> quantize_law pair_d128 pair_value u e x)"
    using pair_quantize e by (intro exI [of _ "(1, e)"]) auto
qed


definition idle_libm :: libm where
  "idle_libm = \<lparr>f_isfinite = (\<lambda>x. False), f_is_zero = (\<lambda>x. True), f_exponent = (\<lambda>x. 0), f_div_pow10 = (\<lambda>x e. x),
     f_div = (\<lambda>x n. x), f_at_least = (\<lambda>s n. False), f_print = (\<lambda>n x. []), f_print_e = (\<lambda>n x. []), f_of_int = (\<lambda>i. 0)\<rparr>"

lemma strip_done: "c mod 10 \<noteq> 0 \<Longrightarrow> strip 34 c e = (c, e)"
  by (cases "c = 0") (simp_all add: numeral_eq_Suc)

lemma chars_of_digits: "char_of (48::nat) = CHR ''0''" "char_of (49::nat) = CHR ''1''" "char_of (50::nat) = CHR ''2''"
    "char_of (51::nat) = CHR ''3''" "char_of (52::nat) = CHR ''4''" "char_of (53::nat) = CHR ''5''" "char_of (54::nat) = CHR ''6''"
    "char_of (55::nat) = CHR ''7''" "char_of (56::nat) = CHR ''8''" "char_of (57::nat) = CHR ''9''"
  by code_simp+

lemma shown_decimal_is_the_number_witness:
  "let q = (123456789012345678901, -4); s = format_decimal pair_d128 idle_libm NOTATION_NORMAL DECIMALS_AUTO q 64 12
   in length s \<le> 12 \<and> (\<exists>k. 1 \<le> k \<and> \<bar>reads s - pair_value q\<bar> \<le> 10 powi (17 - int k) / 2)"
proof -
  let ?q = "(123456789012345678901, -4) :: pair"
  have digits: "coefficient_text 123456789012345678901 = ''123456789012345678901''"
    by (simp add: coefficient_text_def dec.simps digit_char_def chars_of_digits)
  have fin: "qd_d128_is_finite pair_d128 ?q" by (simp add: pair_finite coefficient_digits_def digits)
  have d: "decimal_digits_of pair_d128 (qd_d128_reduce pair_d128 ?q) =
      \<lparr>dd_negative = False, dd_digits = ''123456789012345678901'', dd_point = 17\<rparr>"
  proof -
    have "qd_d128_reduce pair_d128 ?q = ?q" by (simp add: pair_d128_def strip_done)
    moreover have "atoi (show_int (-4)) = -4" by (rule show_int_atoi) simp_all
    ultimately show ?thesis by (simp add: pair_digits coefficient_digits_def digits)
  qed
  have "(8::nat) \<le> 12" "(12::nat) + 2 < 64" by simp_all
  from shown_decimal_is_the_number [OF pair_ok fin d [symmetric] _ this refl, of idle_libm]
  show ?thesis by (auto simp: Let_def)
qed

lemma decimals_line_up_witness:
  "let q = (271828, -5); s = format_decimal pair_d128 idle_libm NOTATION_NORMAL (int 2) q 64 25
   in length (fraction_part (mantissa s)) = 2 \<and> \<bar>reads s - pair_value q\<bar> \<le> 10 powi (- int 2) / 2"
proof -
  let ?q = "(271828, -5) :: pair"
  have digits: "coefficient_text 271828 = ''271828''" "coefficient_text 272 = ''272''"
    by (simp_all add: coefficient_text_def dec.simps digit_char_def chars_of_digits)
  have fin: "qd_d128_is_finite pair_d128 ?q" by (simp add: pair_finite coefficient_digits_def digits)
  have atoi: "atoi (show_int (-2)) = -2" by (rule show_int_atoi) simp_all
  have parse: "qd_d128_parse pair_d128 (''1e-'' @ show_int (int 2)) = Some (1, -2)"
    using atoi by (simp add: pair_d128_def show_int_def)
  have quantized: "qd_d128_quantize pair_d128 ?q (1, -2) = (272, -2)" by (simp add: pair_d128_def nearest_def)
  have "decimal_digits_of pair_d128 (272, -2) = \<lparr>dd_negative = False, dd_digits = ''272'', dd_point = 1\<rparr>"
    using atoi by (simp add: pair_digits coefficient_digits_def digits)
  then have fits: "length (decimal_plain (decimal_digits_of pair_d128 (qd_d128_quantize pair_d128 ?q (1, -2))) (int 2) 64) \<le> 25"
    unfolding quantized by (simp add: decimal_plain_def dd_count_def plain_whole.simps plain_fraction.simps plain_fill.simps)
  have size: "\<bar>pair_value ?q\<bar> \<le> (10 ^ 34 - 1) * 10 powi (- int 2)" by (simp add: pair_value_def power_int_minus)
  show ?thesis unfolding Let_def
    by (rule decimals_line_up [OF pair_ok fin _ _ size refl _ parse fits]) simp_all
qed

end
