(* ===== verification/Kept.thy ===== *)
theory Kept
  imports Calc
begin

text \<open>
  What the calculator and its line do to the rest of the machine: nothing. A property of everything else
  that the words evaluated keep is kept by every key of the calculator and of the line. The rules take the operations apart
  case by case, so that whatever keeps a property of the pages around the calculator is proved the same way.
\<close>

definition on_world :: "('w \<Rightarrow> bool) \<Rightarrow> ('p, 'q, 'w) shell \<Rightarrow> bool" where
  "on_world W sh \<longleftrightarrow> W (sh_world sh)"

definition keeps_world :: "('p, 'q, 'w) machine \<Rightarrow> ('w \<Rightarrow> bool) \<Rightarrow> bool" where
  "keeps_world mc W \<longleftrightarrow>
     (\<forall>source sh. on_world W sh \<longrightarrow> on_world W (snd (snd (qd_interp_eval mc source sh)))) \<and>
     (\<forall>f w. modifier_reset mc = Some f \<longrightarrow> W w \<longrightarrow> W (f w))"

named_theorems kept "operations that keep a property of the world"

section \<open>Taking an operation apart\<close>

lemma kept_if [kept]: "(c \<Longrightarrow> on_world W a) \<Longrightarrow> (\<not> c \<Longrightarrow> on_world W b) \<Longrightarrow> on_world W (if c then a else b)"
  by simp

lemma kept_if_snd [kept]: "(c \<Longrightarrow> on_world W (snd a)) \<Longrightarrow> (\<not> c \<Longrightarrow> on_world W (snd b)) \<Longrightarrow> on_world W (snd (if c then a else b))"
  by simp

lemma kept_pair [kept]: "on_world W b \<Longrightarrow> on_world W (snd (a, b))"
  by simp

lemma kept_case [kept]:
  "on_world W (snd r) \<Longrightarrow> (\<And>a b. on_world W b \<Longrightarrow> on_world W (g a b)) \<Longrightarrow> on_world W (case r of (a, b) \<Rightarrow> g a b)"
  by (cases r) simp

lemma kept_case_snd [kept]:
  "on_world W (snd r) \<Longrightarrow> (\<And>a b. on_world W b \<Longrightarrow> on_world W (snd (g a b))) \<Longrightarrow> on_world W (snd (case r of (a, b) \<Rightarrow> g a b))"
  by (cases r) simp

lemma kept_option [kept]:
  "(r = None \<Longrightarrow> on_world W n) \<Longrightarrow> (\<And>x. r = Some x \<Longrightarrow> on_world W (s x)) \<Longrightarrow> on_world W (case r of None \<Rightarrow> n | Some x \<Rightarrow> s x)"
  by (cases r) simp_all

lemma kept_option_snd [kept]:
  "(r = None \<Longrightarrow> on_world W (snd n)) \<Longrightarrow> (\<And>x. r = Some x \<Longrightarrow> on_world W (snd (s x))) \<Longrightarrow>
   on_world W (snd (case r of None \<Rightarrow> n | Some x \<Rightarrow> s x))"
  by (cases r) simp_all

lemma kept_bool [kept]: "(b \<Longrightarrow> on_world W t) \<Longrightarrow> (\<not> b \<Longrightarrow> on_world W f) \<Longrightarrow> on_world W (case b of True \<Rightarrow> t | False \<Rightarrow> f)"
  by (cases b) simp_all

lemma kept_let_pair [kept]:
  "on_world W (snd r) \<Longrightarrow> (\<And>a b. on_world W b \<Longrightarrow> on_world W (g a b)) \<Longrightarrow> on_world W (let (a, b) = r in g a b)"
  by (cases r) simp

lemma kept_let_pair_snd [kept]:
  "on_world W (snd r) \<Longrightarrow> (\<And>a b. on_world W b \<Longrightarrow> on_world W (snd (g a b))) \<Longrightarrow> on_world W (snd (let (a, b) = r in g a b))"
  by (cases r) simp

lemma kept_let_shell:
  fixes e :: "('p, 'q, 'w) shell"
  shows "on_world W e \<Longrightarrow> (\<And>s. on_world W s \<Longrightarrow> on_world W (g s)) \<Longrightarrow> on_world W (Let e g)"
    "on_world W e \<Longrightarrow> (\<And>s. on_world W s \<Longrightarrow> on_world W' (snd (h s))) \<Longrightarrow> on_world W' (snd (Let e h))"
  by (simp_all add: Let_def)

lemma kept_let:
  "(\<And>x. x = e \<Longrightarrow> on_world W (g x)) \<Longrightarrow> on_world W (Let e g)"
  "(\<And>x. x = e \<Longrightarrow> on_world W (snd (h x))) \<Longrightarrow> on_world W (snd (Let e h))"
  by (simp_all add: Let_def)

section \<open>Operations that leave the world alone\<close>

lemma kept_fields [simp]:
  "on_world W (sh\<lparr>sh_stack := st\<rparr>) = on_world W sh" "on_world W (sh\<lparr>sh_mode := m\<rparr>) = on_world W sh"
  "on_world W (sh\<lparr>sh_field := f\<rparr>) = on_world W sh" "on_world W (sh\<lparr>sh_entry := e\<rparr>) = on_world W sh"
  "on_world W (sh\<lparr>sh_input := i\<rparr>) = on_world W sh" "on_world W (sh\<lparr>sh_cursor := n\<rparr>) = on_world W sh"
  "on_world W (sh\<lparr>sh_line_minus := b\<rparr>) = on_world W sh" "on_world W (sh\<lparr>sh_line_once := b\<rparr>) = on_world W sh"
  "on_world W (sh\<lparr>sh_history := h\<rparr>) = on_world W sh" "on_world W (sh\<lparr>sh_history_at := n\<rparr>) = on_world W sh"
  "on_world W (sh\<lparr>sh_line_word := ws\<rparr>) = on_world W sh" "on_world W (sh\<lparr>sh_log := l\<rparr>) = on_world W sh"
  "on_world W (sh\<lparr>sh_log_count := n\<rparr>) = on_world W sh" "on_world W (sh\<lparr>sh_message := t\<rparr>) = on_world W sh"
  "on_world W (sh\<lparr>sh_message_is_error := b\<rparr>) = on_world W sh" "on_world W (sh\<lparr>sh_undo := u\<rparr>) = on_world W sh"
  "on_world W (sh\<lparr>sh_undo_ready := b\<rparr>) = on_world W sh" "on_world W (sh\<lparr>sh_undo_exact := b\<rparr>) = on_world W sh"
  "on_world W (sh\<lparr>sh_undo_prev := u\<rparr>) = on_world W sh" "on_world W (sh\<lparr>sh_undo_prev_ready := b\<rparr>) = on_world W sh"
  "on_world W (sh\<lparr>sh_undo_prev_exact := b\<rparr>) = on_world W sh" "on_world W (sh\<lparr>sh_stack_sel := n\<rparr>) = on_world W sh"
  "on_world W (sh\<lparr>sh_last_x := v\<rparr>) = on_world W sh" "on_world W (sh\<lparr>sh_has_last_x := b\<rparr>) = on_world W sh"
  "on_world W (sh\<lparr>sh_register_wait := r\<rparr>) = on_world W sh" "on_world W (sh\<lparr>sh_output_first := n\<rparr>) = on_world W sh"
  "on_world W (sh\<lparr>sh_output_count := n\<rparr>) = on_world W sh" "on_world W (sh\<lparr>sh_output_top := n\<rparr>) = on_world W sh"
  "on_world W (sh\<lparr>sh_output_from := m\<rparr>) = on_world W sh" "on_world W (sh\<lparr>sh_finite_only := b\<rparr>) = on_world W sh"
  "on_world W (sh\<lparr>sh_evaluating := b\<rparr>) = on_world W sh" "on_world W (sh\<lparr>sh_recovered := b\<rparr>) = on_world W sh"
  "on_world W (sh\<lparr>sh_printed := t\<rparr>) = on_world W sh"
  by (simp_all add: on_world_def)

lemma kept_message [simp]: "on_world W (set_message s b sh) = on_world W sh"
  using message_frame [of s b sh] by (auto simp: on_world_def)

lemma kept_log [simp]: "on_world W (log_add s sh) = on_world W sh"
  using log_add_frame [of s sh] by (auto simp: on_world_def)

lemma kept_absorb [simp]: "on_world W (absorb_output sh) = on_world W sh"
  by (simp add: absorb_output_def Let_def split: option.split)

lemma kept_declaration [simp]: "on_world W (report_declaration mc sh) = on_world W sh"
  by (simp add: report_declaration_def Let_def split: option.split)

lemma kept_forget [simp]: "on_world W (forget_here name sh) = on_world W sh"
  by (simp add: forget_here_def)

lemma kept_error [simp]: "on_world W (snd (qdos_guarded_error mc sh)) = on_world W sh"
  by (simp add: qdos_guarded_error_def)

lemma kept_snapshot [simp]: "on_world W (undo_snapshot mc sh) = on_world W sh"
  by (simp add: undo_snapshot_def Let_def split: prod.split)

lemma kept_input [simp]:
  "on_world W (input_append s sh) = on_world W sh" "on_world W (input_backspace sh) = on_world W sh"
  "on_world W (input_clear sh) = on_world W sh" "on_world W (history_add sh) = on_world W sh"
  "on_world W (history_step dir sh) = on_world W sh"
  by (simp_all add: input_append_def input_backspace_def input_clear_def history_add_def history_step_def Let_def)

lemma kept_backspaces [simp]: "on_world W ((input_backspace ^^ n) sh) = on_world W sh"
  by (induction n) simp_all

lemma kept_word [simp]: "on_world W (input_word word sh) = on_world W sh"
  by (simp add: input_word_def Let_def)

lemma kept_operator [simp]: "on_world W (line_operator key sh) = on_world W sh"
  by (simp add: line_operator_def Let_def)

lemma kept_complete [simp]: "on_world W (complete_word mc sh) = on_world W sh"
  by (simp add: complete_word_def Let_def)

lemma kept_fixup: "line_minus_fixup ev sh = Some sh' \<Longrightarrow> on_world W sh' = on_world W sh"
  by (auto simp: line_minus_fixup_def Let_def split: if_splits option.splits)

lemma kept_key_error [simp]: "on_world W (set_key_error e w l sh) = on_world W sh"
  by (simp add: set_key_error_def Let_def split: option.split)

lemma kept_entry [simp]:
  "on_world W (entry_append c sh) = on_world W sh" "on_world W (entry_clear sh) = on_world W sh"
  "on_world W (entry_exponent sh) = on_world W sh"
  by (simp_all add: entry_append_def entry_clear_def entry_exponent_def)

section \<open>Operations that evaluate\<close>

lemma kept_eval [kept]:
  assumes "keeps_world mc W" and "on_world W sh"
  shows "on_world W (snd (qdos_guarded_eval mc source sh))"
proof -
  let ?sh = "if sh_evaluating sh then sh else sh\<lparr>sh_evaluating := True, sh_printed := []\<rparr>"
  have "on_world W ?sh" using assms(2) by simp
  then have "on_world W (snd (snd (qd_interp_eval mc source ?sh)))" using assms(1) by (simp add: keeps_world_def)
  then show ?thesis by (auto simp: qdos_guarded_eval_def Let_def split: prod.splits outcome.splits)
qed

lemma kept_put_back [kept]: "keeps_world mc W \<Longrightarrow> on_world W sh \<Longrightarrow> on_world W (undo_put_back mc sh)"
  by (simp add: undo_put_back_def Let_def kept_eval)

lemma kept_undo [kept]:
  "keeps_world mc W \<Longrightarrow> on_world W sh \<Longrightarrow> on_world W (undo_restore mc sh)"
  "keeps_world mc W \<Longrightarrow> on_world W sh \<Longrightarrow> on_world W (undo_failed mc sh)"
  by (simp_all add: undo_restore_def undo_failed_def Let_def kept_put_back)

lemma kept_submit [kept]:
  assumes "keeps_world mc W" and "on_world W sh"
  shows "on_world W (submit mc sh)"
  unfolding submit_def
  by (intro kept kept_let_shell kept_let assms | simp add: assms kept_undo)+

lemma kept_line_key [kept]:
  assumes "keeps_world mc W" and "on_world W sh"
  shows "on_world W (line_key mc ev sh)"
proof -
  have closed: "on_world W (line_closed mc sh')" if "on_world W sh'" for sh'
    using that assms(1) by (auto simp: line_closed_def Let_def keeps_world_def on_world_def split: option.split)
  have enter: "on_world W (line_enter mc sh)"
    using assms closed kept_submit [OF assms] by (simp add: line_enter_def Let_def)
  show ?thesis
    unfolding line_key_def Let_def
    by (intro kept_if) (simp_all add: assms kept_eval kept_undo closed enter leave_line_mode_def)
qed

lemma kept_handle_line_key [kept]:
  assumes "keeps_world mc W" and "on_world W sh"
  shows "on_world W (handle_line_key mc ev sh)"
  unfolding handle_line_key_def Let_def
  using assms by (intro kept) (auto simp: kept_fixup kept_line_key split: if_splits)

lemma kept_commit [kept]:
  assumes "keeps_world mc W" and "on_world W sh"
  shows "on_world W (snd (entry_commit mc sh))"
  unfolding entry_commit_def
  by (intro kept kept_let_shell kept_let assms | simp add: assms kept_undo)+

lemma kept_key_word [kept]:
  assumes "keeps_world mc W" and "on_world W sh"
  shows "on_world W (apply_key_word mc word label sh)"
  unfolding apply_key_word_def
  by (intro kept kept_let_shell kept_let assms | simp add: assms kept_undo kept_commit split: option.split bool.split)+

lemma kept_apply [kept]: "keeps_world mc W \<Longrightarrow> on_world W sh \<Longrightarrow> on_world W (apply_word mc word sh)"
  by (simp add: apply_word_def kept_key_word)

lemma kept_enter_line [kept]: "keeps_world mc W \<Longrightarrow> on_world W sh \<Longrightarrow> on_world W (enter_line_mode mc sh)"
  by (simp add: enter_line_mode_def kept_commit)

lemma kept_negate [kept]: "keeps_world mc W \<Longrightarrow> on_world W sh \<Longrightarrow> on_world W (entry_negate mc sh)"
  by (simp add: entry_negate_def Let_def kept_apply)

lemma kept_commit_case:
  assumes "keeps_world mc W" and "on_world W sh"
    and "\<And>sh1. on_world W sh1 \<Longrightarrow> on_world W (f sh1)" and "\<And>sh1. on_world W sh1 \<Longrightarrow> on_world W (g sh1)"
  shows "on_world W (case entry_commit mc sh of (True, sh1) \<Rightarrow> f sh1 | (False, sh1) \<Rightarrow> g sh1)"
  using assms kept_commit [OF assms(1,2)] by (cases "entry_commit mc sh") (auto split: bool.split)

lemma kept_calc_key [kept]:
  assumes "keeps_world mc W" and "on_world W sh"
  shows "on_world W (calc_key mc ev sh)"
  unfolding calc_key_def Let_def
  by (intro kept_if kept_option kept_commit_case assms)
    (auto simp: assms kept_eval kept_undo kept_negate kept_apply kept_enter_line kept_handle_line_key kept_key_word
      intro: kept_case)

lemma kept_register:
  assumes "keeps_world mc W" and "on_world W sh" and "register_digit mc ev sh = Some sh'"
  shows "on_world W sh'"
proof -
  have "on_world W (the (register_digit mc ev sh))" if "register_digit mc ev sh \<noteq> None"
    using that assms(1,2) kept_eval [OF assms(1)]
    by (auto simp: register_digit_def Let_def split: if_splits intro!: kept_case kept_if)
  then show ?thesis using assms(3) by simp
qed

lemma kept_select:
  assumes "keeps_world mc W" and "on_world W sh" and "stack_select_key mc ev sh = Some sh'"
  shows "on_world W sh'"
  using assms kept_eval [OF assms(1)]
  by (auto simp: stack_select_key_def Let_def split: if_splits option.splits prod.splits bool.splits)

lemma kept_handle_calc_key [kept]:
  assumes "keeps_world mc W" and "on_world W sh"
  shows "on_world W (handle_calc_key mc ev sh)"
proof -
  let ?p = "if ev_key ev = QDOS_KEY_MOD then
      let (ok, sh1) = entry_commit mc sh
      in (if ok \<and> length (sh_stack sh1) = 1 then Some ''100.0 divide'' else function_word (ev_key ev), sh1)
    else (function_word (ev_key ev), sh)"
  obtain word sh1 where p: "?p = (word, sh1)" by (cases ?p)
  then have "on_world W sh1"
    using assms kept_commit [OF assms] by (auto split: if_splits prod.splits)
  then show ?thesis
    unfolding handle_calc_key_def Let_def [of "?p"] p
    using kept_register [OF assms] kept_select [OF assms] kept_key_word [OF assms(1)] kept_calc_key [OF assms(1)]
    by (auto split: option.split)
qed

end
