(* ===== verification/Settings.thy ===== *)
theory Settings
  imports Values Numbers
begin

text \<open>
  The settings (\<^verbatim>\<open>src/shell/shell.c\<close>): what one step changes, each written to the store the moment
  one changes, and what a start puts back of them, whatever the store holds by then.
\<close>

section \<open>The settings\<close>

record settings =
  st_degrees :: bool
  st_complex :: int
  st_decimals :: int
  st_notation :: int
  st_auto_off :: nat
  st_grid_on :: bool
  st_axes_off :: bool
  st_statplot :: int
  st_statplot_x :: int
  st_statplot_y :: int

datatype qdos_setting =
    SETTING_ANGLE | SETTING_DECIMALS | SETTING_AUTO_OFF | SETTING_USB | SETTING_MODULES | SETTING_COMPLEX | SETTING_NOTATION

definition DECIMALS_MAX :: int where "DECIMALS_MAX = 9"
definition AUTO_OFF_MINUTES :: "nat list" where "AUTO_OFF_MINUTES = [0, 5, 10, 30, 60]"
definition AUTO_OFF_COUNT :: nat where "AUTO_OFF_COUNT = length AUTO_OFF_MINUTES"
definition QDOS_CPX__COUNT :: int where "QDOS_CPX__COUNT = 3"
definition NOTATION__COUNT :: int where "NOTATION__COUNT = 3"
definition STATPLOT__COUNT :: int where "STATPLOT__COUNT = 5"
definition STAT_LISTS :: int where "STAT_LISTS = 6"

section \<open>In the store\<close>

definition SETTINGS_KEY_ANGLE :: cstring where "SETTINGS_KEY_ANGLE = ''settings.angle''"
definition SETTINGS_KEY_COMPLEX :: cstring where "SETTINGS_KEY_COMPLEX = ''settings.complex''"
definition SETTINGS_KEY_DECIMALS :: cstring where "SETTINGS_KEY_DECIMALS = ''settings.decimals''"
definition SETTINGS_KEY_NOTATION :: cstring where "SETTINGS_KEY_NOTATION = ''settings.notation''"
definition SETTINGS_KEY_AUTO_OFF :: cstring where "SETTINGS_KEY_AUTO_OFF = ''settings.autooff''"
definition SETTINGS_KEY_GRID :: cstring where "SETTINGS_KEY_GRID = ''settings.grid''"
definition SETTINGS_KEY_AXES :: cstring where "SETTINGS_KEY_AXES = ''settings.axes''"
definition SETTINGS_KEY_STATPLOT :: cstring where "SETTINGS_KEY_STATPLOT = ''stat.plot''"
definition SETTINGS_KEY_XLIST :: cstring where "SETTINGS_KEY_XLIST = ''stat.xlist''"
definition SETTINGS_KEY_YLIST :: cstring where "SETTINGS_KEY_YLIST = ''stat.ylist''"

lemmas SETTINGS_KEYS = SETTINGS_KEY_ANGLE_def SETTINGS_KEY_COMPLEX_def SETTINGS_KEY_DECIMALS_def SETTINGS_KEY_NOTATION_def
  SETTINGS_KEY_AUTO_OFF_def SETTINGS_KEY_GRID_def SETTINGS_KEY_AXES_def SETTINGS_KEY_STATPLOT_def SETTINGS_KEY_XLIST_def
  SETTINGS_KEY_YLIST_def

text \<open>A write that fails is passed over.\<close>

definition save_setting :: "'d hal \<Rightarrow> cstring \<Rightarrow> int \<Rightarrow> 'd \<Rightarrow> 'd" where
  "save_setting hal key number d =
     snd (qdos_storage_save hal key (zero_value\<lparr>v_type := VALUE_INT, v_i := of_int number\<rparr>) d)"

definition load_setting :: "'d hal \<Rightarrow> cstring \<Rightarrow> 'd \<Rightarrow> int \<Rightarrow> int" where
  "load_setting hal key d out =
     (case qdos_storage_load hal key d of
        Inr v \<Rightarrow> if v_type v = VALUE_INT then sint (v_i v) else out
      | Inl _ \<Rightarrow> out)"

text \<open>The calls of \<^verbatim>\<open>save_settings\<close>, in their order.\<close>

definition setting_writes :: "settings \<Rightarrow> (cstring \<times> int) list" where
  "setting_writes s =
     [(SETTINGS_KEY_ANGLE, if st_degrees s then 1 else 0),
      (SETTINGS_KEY_COMPLEX, st_complex s),
      (SETTINGS_KEY_DECIMALS, st_decimals s),
      (SETTINGS_KEY_NOTATION, st_notation s),
      (SETTINGS_KEY_AUTO_OFF, int (st_auto_off s)),
      (SETTINGS_KEY_GRID, if st_grid_on s then 1 else 0),
      (SETTINGS_KEY_AXES, if st_axes_off s then 0 else 1),
      (SETTINGS_KEY_STATPLOT, st_statplot s),
      (SETTINGS_KEY_XLIST, st_statplot_x s),
      (SETTINGS_KEY_YLIST, st_statplot_y s)]"

definition save_settings :: "'d hal \<Rightarrow> settings \<Rightarrow> 'd \<Rightarrow> 'd" where
  "save_settings hal s d = fold (\<lambda>(key, number). save_setting hal key number) (setting_writes s) d"

definition restore_settings :: "'d hal \<Rightarrow> 'd \<Rightarrow> settings \<Rightarrow> settings" where
  "restore_settings hal d s =
     (let degrees = load_setting hal SETTINGS_KEY_ANGLE d 0;
          complex_mode = load_setting hal SETTINGS_KEY_COMPLEX d 0;
          decimals = load_setting hal SETTINGS_KEY_DECIMALS d (st_decimals s);
          notation = load_setting hal SETTINGS_KEY_NOTATION d 0;
          auto_off = load_setting hal SETTINGS_KEY_AUTO_OFF d (int (st_auto_off s));
          grid = load_setting hal SETTINGS_KEY_GRID d 0;
          axes = load_setting hal SETTINGS_KEY_AXES d 1;
          plot = load_setting hal SETTINGS_KEY_STATPLOT d 0;
          xlist = load_setting hal SETTINGS_KEY_XLIST d 0;
          ylist = load_setting hal SETTINGS_KEY_YLIST d 1
      in \<lparr>st_degrees = (degrees \<noteq> 0),
          st_complex = (if 0 \<le> complex_mode \<and> complex_mode < QDOS_CPX__COUNT then complex_mode else 0),
          st_decimals = (if DECIMALS_AUTO \<le> decimals \<and> decimals \<le> DECIMALS_MAX then decimals else st_decimals s),
          st_notation = (if 0 \<le> notation \<and> notation < NOTATION__COUNT then notation else 0),
          st_auto_off = (if 0 \<le> auto_off \<and> auto_off < int AUTO_OFF_COUNT then nat auto_off else st_auto_off s),
          st_grid_on = (grid \<noteq> 0), st_axes_off = (axes = 0),
          st_statplot = (if 0 \<le> plot \<and> plot < STATPLOT__COUNT then plot else 0),
          st_statplot_x = (if 0 \<le> xlist \<and> xlist < STAT_LISTS then xlist else 0),
          st_statplot_y = (if 0 \<le> ylist \<and> ylist < STAT_LISTS then ylist else 1)\<rparr>)"

section \<open>One step\<close>

text \<open>
  The settings that are a preference; the two that are live state leave these alone. A step of \<open>1\<close> goes
  on, any other back, as the arrows have it.
\<close>

definition step_setting :: "qdos_setting \<Rightarrow> int \<Rightarrow> settings \<Rightarrow> settings" where
  "step_setting setting dir s =
     (case setting of
        SETTING_ANGLE \<Rightarrow> s\<lparr>st_degrees := \<not> st_degrees s\<rparr>
      | SETTING_COMPLEX \<Rightarrow> s\<lparr>st_complex := (st_complex s + (if dir > 0 then 1 else QDOS_CPX__COUNT - 1)) mod QDOS_CPX__COUNT\<rparr>
      | SETTING_USB \<Rightarrow> s
      | SETTING_MODULES \<Rightarrow> s
      | SETTING_AUTO_OFF \<Rightarrow>
          s\<lparr>st_auto_off := (st_auto_off s + (if dir > 0 then 1 else AUTO_OFF_COUNT - 1)) mod AUTO_OFF_COUNT\<rparr>
      | SETTING_NOTATION \<Rightarrow>
          s\<lparr>st_notation := (st_notation s + (if dir > 0 then 1 else NOTATION__COUNT - 1)) mod NOTATION__COUNT\<rparr>
      | SETTING_DECIMALS \<Rightarrow>
          (if dir > 0 then s\<lparr>st_decimals := (if DECIMALS_MAX \<le> st_decimals s then DECIMALS_AUTO else st_decimals s + 1)\<rparr>
           else s\<lparr>st_decimals := (if st_decimals s \<le> DECIMALS_AUTO then DECIMALS_MAX else st_decimals s - 1)\<rparr>))"

text \<open>How long the machine may sit idle, in milliseconds, a card shared with a PC keeping it awake.\<close>

definition auto_off_ms :: "bool \<Rightarrow> settings \<Rightarrow> 32 word" where
  "auto_off_ms usb_exported s =
     (if usb_exported then 0 else of_nat (AUTO_OFF_MINUTES ! st_auto_off s) * 60 * 1000)"

section \<open>Lemmas\<close>

definition settings_ok :: "settings \<Rightarrow> bool" where
  "settings_ok s \<longleftrightarrow>
     0 \<le> st_complex s \<and> st_complex s < QDOS_CPX__COUNT \<and> DECIMALS_AUTO \<le> st_decimals s \<and> st_decimals s \<le> DECIMALS_MAX \<and>
     0 \<le> st_notation s \<and> st_notation s < NOTATION__COUNT \<and> st_auto_off s < AUTO_OFF_COUNT \<and>
     0 \<le> st_statplot s \<and> st_statplot s < STATPLOT__COUNT \<and> 0 \<le> st_statplot_x s \<and> st_statplot_x s < STAT_LISTS \<and>
     0 \<le> st_statplot_y s \<and> st_statplot_y s < STAT_LISTS"

lemmas setting_ranges = QDOS_CPX__COUNT_def DECIMALS_AUTO_def DECIMALS_MAX_def NOTATION__COUNT_def AUTO_OFF_COUNT_def
  AUTO_OFF_MINUTES_def STATPLOT__COUNT_def STAT_LISTS_def

lemma restored_ok: "settings_ok s \<Longrightarrow> settings_ok (restore_settings hal d s)"
  unfolding settings_ok_def restore_settings_def Let_def settings.simps
  by (intro conjI; simp add: setting_ranges; linarith?)

lemma step_ok: "settings_ok s \<Longrightarrow> settings_ok (step_setting setting dir s)"
  by (cases setting) (auto simp: step_setting_def settings_ok_def setting_ranges)

definition setting_key_ok :: "cstring \<Rightarrow> bool" where
  "setting_key_ok k \<longleftrightarrow> CHR ''/'' \<notin> set k \<and> CHR 0x5C \<notin> set k \<and> 2 < length k \<and> length k \<le> 20"

lemma setting_keys: "list_all (\<lambda>(k, n). setting_key_ok k) (setting_writes s)" "distinct (map fst (setting_writes s))"
  by (simp_all add: setting_writes_def setting_key_ok_def SETTINGS_KEYS)

lemma saved_setting:
  fixes n :: int
  assumes "dirs_apart fs" "disk_ok fs d" "setting_key_ok k" "length (fs_store_dir fs) \<le> 490" "QDOS_VALUE_ENCODED_MAX \<le> room"
    "no_folder_on fs d k"
  defines "d' \<equiv> save_setting (filestore_hal fs room) k n d"
  shows "disk_ok fs d'" "no_folder_on fs d m \<Longrightarrow> no_folder_on fs d' m"
    "sint (of_int n :: u64) = n \<Longrightarrow> load_setting (filestore_hal fs room) k d' out = n"
    "setting_key_ok m \<Longrightarrow> m \<noteq> k \<Longrightarrow> load_setting (filestore_hal fs room) m d' out = load_setting (filestore_hal fs room) m d out"
proof -
  let ?h = "filestore_hal fs room" and ?v = "zero_value\<lparr>v_type := VALUE_INT, v_i := of_int n\<rparr>"
  obtain e where e: "qdos_storage_save ?h k ?v d = (STORE_OK, e)" "disk_ok fs e" "\<forall>m. no_folder_on fs d m \<longrightarrow> no_folder_on fs e m"
    using plain_save [of fs d k room ?v] assms(2-6) by (auto simp: setting_key_ok_def)
  then have d': "d' = e" by (simp add: d'_def save_setting_def)
  show "disk_ok fs d'" "no_folder_on fs d m \<Longrightarrow> no_folder_on fs d' m" using e d' by auto
  have "qdos_storage_load ?h k e = Inr (stored_part ?v)"
    using assms(1,2) e(1) by (intro fstore.save_load [of _ d]) (auto simp: zero_value_def)
  then show "sint (of_int n :: u64) = n \<Longrightarrow> load_setting ?h k d' out = n"
    by (simp add: load_setting_def d' stored_part_def)
  show "load_setting ?h m d' out = load_setting ?h m d out" if "setting_key_ok m" "m \<noteq> k"
  proof -
    have "apart m k" using that assms(3) by (intro plain_apart) (auto simp: setting_key_ok_def)
    then show ?thesis using assms(1,2) fstore.load_frame [of fs d m k room ?v]
      by (simp add: load_setting_def d'_def save_setting_def)
  qed
qed

lemma saved_settings:
  assumes "dirs_apart fs" "disk_ok fs d" "length (fs_store_dir fs) \<le> 490" "QDOS_VALUE_ENCODED_MAX \<le> room"
    "list_all (\<lambda>(k, n). setting_key_ok k \<and> no_folder_on fs d k \<and> sint (of_int n :: u64) = n) ws" "distinct (map fst ws)"
  shows "\<forall>(k, n) \<in> set ws. \<forall>out. load_setting (filestore_hal fs room) k
      (fold (\<lambda>(key, number). save_setting (filestore_hal fs room) key number) ws d) out = n"
    "setting_key_ok m \<Longrightarrow> m \<notin> fst ` set ws \<Longrightarrow> load_setting (filestore_hal fs room) m
      (fold (\<lambda>(key, number). save_setting (filestore_hal fs room) key number) ws d) out = load_setting (filestore_hal fs room) m d out"
proof -
  have "(\<forall>(k, n) \<in> set ws. \<forall>out. load_setting (filestore_hal fs room) k
      (fold (\<lambda>(key, number). save_setting (filestore_hal fs room) key number) ws d) out = n) \<and>
    (\<forall>m out. setting_key_ok m \<longrightarrow> m \<notin> fst ` set ws \<longrightarrow> load_setting (filestore_hal fs room) m
      (fold (\<lambda>(key, number). save_setting (filestore_hal fs room) key number) ws d) out = load_setting (filestore_hal fs room) m d out)"
    using assms(2,5,6)
  proof (induction ws arbitrary: d)
    case (Cons w ws)
    obtain k n where w: "w = (k, n)" by (cases w)
    let ?e = "save_setting (filestore_hal fs room) k n d"
    have k: "setting_key_ok k" "no_folder_on fs d k" "sint (of_int n :: u64) = n" using Cons.prems w by auto
    note s = saved_setting [OF assms(1) Cons.prems(1) k(1) assms(3,4) k(2), where n = n]
    have "list_all (\<lambda>(k, n). setting_key_ok k \<and> no_folder_on fs ?e k \<and> sint (of_int n :: u64) = n) ws"
      using Cons.prems(2) s(2) by (auto simp: list_all_iff)
    note ih = Cons.IH [OF s(1) this]
    have "k \<notin> fst ` set ws" "distinct (map fst ws)" using Cons.prems(3) w by auto
    then show ?case using ih s(3,4) k w by auto
  qed simp
  then show "\<forall>(k, n) \<in> set ws. \<forall>out. load_setting (filestore_hal fs room) k
      (fold (\<lambda>(key, number). save_setting (filestore_hal fs room) key number) ws d) out = n"
    "setting_key_ok m \<Longrightarrow> m \<notin> fst ` set ws \<Longrightarrow> load_setting (filestore_hal fs room) m
      (fold (\<lambda>(key, number). save_setting (filestore_hal fs room) key number) ws d) out = load_setting (filestore_hal fs room) m d out"
    by blast+
qed

lemma small_ints: "- 1000 \<le> n \<Longrightarrow> n \<le> 1000 \<Longrightarrow> sint (of_int n :: u64) = n"
  by (simp add: signed_of_int signed_take_bit_int_eq_self)

lemma writes_small:
  assumes "settings_ok s"
  shows "list_all (\<lambda>(k, n). sint (of_int n :: u64) = n) (setting_writes s)"
proof -
  have "list_all (\<lambda>(k, n). - 1000 \<le> n \<and> n \<le> 1000) (setting_writes s)"
    using assms by (simp add: setting_writes_def settings_ok_def setting_ranges)
  then show ?thesis using small_ints by (auto simp: list_all_iff)
qed

section \<open>Settings outlive the power\<close>

text \<open>
  C16. What the settings page shows is what the next start has: on a card with room for a record and no folder in
  the way of one, the settings written after any step of any setting read back as those settings, over whatever
  the card held and whatever the defaults are. And whatever a store holds, written by this build or another, a
  start leaves every setting in its range, so the machine is never left unreadable or without a time to turn off at.
\<close>

theorem settings_survive_a_restart:
  assumes "dirs_apart fs" and "disk_ok fs d" and "length (fs_store_dir fs) \<le> 490" and "QDOS_VALUE_ENCODED_MAX \<le> room"
    and "\<forall>(k, n) \<in> set (setting_writes s). no_folder_on fs d k"
    and "settings_ok s" and "settings_ok s0" and "t = step_setting setting dir s"
  shows "restore_settings (filestore_hal fs room) (save_settings (filestore_hal fs room) t d) s0 = t
    \<and> settings_ok (restore_settings hal d' s0)"
proof
  let ?h = "filestore_hal fs room"
  have t: "settings_ok t" using step_ok assms(6,8) by simp
  have "map fst (setting_writes t) = map fst (setting_writes s)" by (simp add: setting_writes_def)
  then have "\<forall>k \<in> fst ` set (setting_writes t). no_folder_on fs d k" using assms(5) by (metis (mono_tags, lifting) case_prodE image_iff list.set_map fst_conv)
  then have "list_all (\<lambda>(k, n). setting_key_ok k \<and> no_folder_on fs d k \<and> sint (of_int n :: u64) = n) (setting_writes t)"
    using setting_keys(1) [of t] writes_small [OF t] by (auto simp: list_all_iff)
  from saved_settings(1) [OF assms(1-4) this setting_keys(2)]
  have "\<forall>(k, n) \<in> set (setting_writes t). \<forall>out. load_setting ?h k (save_settings ?h t d) out = n"
    by (simp add: save_settings_def)
  then show "restore_settings ?h (save_settings ?h t d) s0 = t"
    using t by (cases t) (simp add: restore_settings_def setting_writes_def settings_ok_def)
  show "settings_ok (restore_settings hal d' s0)" using assms(7) by (rule restored_ok)
qed

definition boot_settings :: settings where
  "boot_settings =
     \<lparr>st_degrees = False, st_complex = 0, st_decimals = DECIMALS_AUTO, st_notation = 0, st_auto_off = 2, st_grid_on = False,
      st_axes_off = False, st_statplot = 0, st_statplot_x = 0, st_statplot_y = 1\<rparr>"

lemma settings_survive_a_restart_witness:
  "let h = filestore_hal esp32_dirs 4096; t = step_setting SETTING_DECIMALS (-1) boot_settings
   in st_decimals t = 9 \<and> restore_settings h (save_settings h t esp32_disk) boot_settings = t \<and>
      settings_ok (restore_settings h esp32_disk boot_settings)"
proof -
  have none: "no_folder_on esp32_dirs esp32_disk k" if "CHR ''/'' \<notin> set k" for k
    using that by (auto simp: no_folder_on_def esp32_dirs_def esp32_disk_def)
  have keys: "\<forall>(k, n) \<in> set (setting_writes boot_settings). no_folder_on esp32_dirs esp32_disk k"
    using setting_keys(1) [of boot_settings] none by (auto simp: list_all_iff setting_key_ok_def)
  have ok: "settings_ok boot_settings" by (simp add: boot_settings_def settings_ok_def setting_ranges)
  have "length (fs_store_dir esp32_dirs) \<le> 490" "QDOS_VALUE_ENCODED_MAX \<le> 4096"
    by (simp_all add: esp32_dirs_def QDOS_VALUE_ENCODED_MAX_def QDOS_VALUE_STRING_MAX_def)
  from settings_survive_a_restart [OF esp32_dirs_apart esp32_disk_ok this keys ok ok refl, of SETTING_DECIMALS "-1"
      "filestore_hal esp32_dirs 4096" esp32_disk]
  show ?thesis by (simp add: Let_def step_setting_def boot_settings_def setting_ranges)
qed

end
