(* ===== verification/Pages.thy ===== *)
theory Pages
  imports Kept Words Programs Settings
begin

text \<open>
  The pages around the calculator (\<^verbatim>\<open>src/shell/shell.c\<close>): what the list of programs, the program
  editor, the menus and the field on the input row keep of their own, the row of soft keys, and what every page
  scrolls, types and reads programs with.
\<close>

section \<open>What the pages keep\<close>

datatype name_purpose = NAME_NEW | NAME_RENAME | NAME_COPY

datatype menu_id =
    MENU_ZOOM | MENU_CALC | MENU_GRAPH_TOOLS | MENU_PLOT_TOOLS | MENU_FORMAT | MENU_STAT_CALC | MENU_STAT_PLOT
  | MENU_APP | MENU_CUSTOM

text \<open>A module as the pages see it: its name, the app it belongs to if any, and whether it has a main of its own.\<close>

record native_entry =
  n_name :: cstring
  n_app :: cstring
  n_is_app :: bool

text \<open>
  The part of \<^verbatim>\<open>struct qdos_shell\<close> the pages use, with the store behind the hal and the words blocked
  of the modules; \<open>pg_rest\<close> is everything else, the pages that draw graphs and statistics among it.
\<close>

record ('d, 'r) pages =
  pg_store :: 'd
  pg_rest :: 'r
  pg_settings :: settings
  pg_setting_sel :: nat
  pg_usb_exported :: bool
  pg_blocked :: cstring
  pg_faulted :: cstring
  pg_called :: bool
  pg_break :: bool
  pg_natives :: "native_entry list"
  pg_apps :: "program_entry list"
  pg_app_word :: "cstring list"
  pg_list :: "cstring list"
  pg_list_all :: bool
  pg_list_user :: nat
  pg_list_find :: cstring
  pg_list_sel :: nat
  pg_list_top :: nat
  pg_list_from :: qdos_mode
  pg_delete_armed :: bool
  pg_ed :: editor
  pg_ed_top :: nat
  pg_edit_from :: qdos_mode
  pg_edit_minus :: bool
  pg_drop_armed :: bool
  pg_field_text :: cstring
  pg_field_prompt :: cstring
  pg_field_mode :: qdos_mode
  pg_field_fresh :: bool
  pg_ask_done :: bool
  pg_name_for :: name_purpose
  pg_name_from :: cstring
  pg_menu :: menu_id
  pg_menu_sel :: nat
  pg_menu_top :: nat
  pg_menu_from :: qdos_mode
  pg_menu_custom :: nat
  pg_menu_pick :: nat
  pg_about_from :: qdos_mode
  pg_page_from :: qdos_mode
  pg_log_top :: nat
  pg_powering_off :: bool

type_synonym ('p, 'q, 'd, 'r) desk = "('p, 'q, ('d, 'r) pages) shell"

text \<open>
  The machine around the pages. \<open>ho_mc\<close> is the session's interpreter, and \<open>ho_alone\<close> the one
  \<^verbatim>\<open>bare_interp\<close> makes: what it has been told it knows in \<open>pg_rest\<close>, and making one
  can fail. \<open>number_field\<close> is ENTER in a field that wants a number, \<open>other_page_key\<close> and \<open>other_menu_act\<close> the
  pages and menus of graphs and statistics, \<open>plot_open\<close> the way to them, and \<open>complex_text\<close> what a complex number
  is written as, all of which calculate with doubles.
\<close>

record ('p, 'q, 'd, 'r) host =
  ho_mc :: "('p, 'q, ('d, 'r) pages) machine"
  ho_hal :: "'d hal"
  qd_interp_undeclare :: "cstring \<Rightarrow> ('p, 'q, 'd, 'r) desk \<Rightarrow> ('p, 'q, 'd, 'r) desk"
  qd_interp_register :: "cstring \<Rightarrow> ('p, 'q, 'd, 'r) desk \<Rightarrow> ('p, 'q, 'd, 'r) desk"
  qd_interp_pop :: "('p, 'q, 'd, 'r) desk \<Rightarrow> ('p, 'q, 'd, 'r) desk option"
  ho_alone :: "('p, 'q, ('d, 'r) pages) machine"
  bare_interp :: "('p, 'q, 'd, 'r) desk \<Rightarrow> ('p, 'q, 'd, 'r) desk option"
  qd_interp_destroy :: "('p, 'q, 'd, 'r) desk \<Rightarrow> ('p, 'q, 'd, 'r) desk"
  alone_register :: "cstring \<Rightarrow> ('p, 'q, 'd, 'r) desk \<Rightarrow> ('p, 'q, 'd, 'r) desk"
  alone_depth :: "('p, 'q, 'd, 'r) desk \<Rightarrow> nat"
  alone_pop :: "('p, 'q, 'd, 'r) desk \<Rightarrow> ('p, 'q, 'd, 'r) desk option"
  qdos_lint_program :: "cstring \<Rightarrow> ('p, 'q, 'd, 'r) desk \<Rightarrow> cstring option"
  ho_d128 :: "'q d128"
  ho_libm :: libm
  complex_text :: "u64 \<Rightarrow> u64 \<Rightarrow> nat \<Rightarrow> nat \<Rightarrow> cstring"
  number_field :: "('p, 'q, 'd, 'r) desk \<Rightarrow> ('p, 'q, 'd, 'r) desk"
  plot_open :: "('p, 'q, 'd, 'r) desk \<Rightarrow> ('p, 'q, 'd, 'r) desk"
  other_page_key :: "qdos_key_event \<Rightarrow> ('p, 'q, 'd, 'r) desk \<Rightarrow> ('p, 'q, 'd, 'r) desk"
  other_menu_act :: "int \<Rightarrow> ('p, 'q, 'd, 'r) desk \<Rightarrow> ('p, 'q, 'd, 'r) desk"
  usb_export :: "(bool \<Rightarrow> ('d, 'r) pages \<Rightarrow> bool \<times> ('d, 'r) pages) option"

abbreviation (input) page ::
    "(('d, 'r) pages \<Rightarrow> ('d, 'r) pages) \<Rightarrow> ('p, 'q, 'd, 'r) desk \<Rightarrow> ('p, 'q, 'd, 'r) desk" where
  "page \<equiv> sh_world_update"

section \<open>The screen\<close>

definition SCREEN_ROWS :: nat where "SCREEN_ROWS = 240 div 24"
definition ROW_CONTENT_FIRST :: nat where "ROW_CONTENT_FIRST = 2"
definition ROW_CONTENT_LAST :: nat where "ROW_CONTENT_LAST = SCREEN_ROWS - 3"
definition LIST_ROWS :: nat where "LIST_ROWS = ROW_CONTENT_LAST - ROW_CONTENT_FIRST + 1"
definition EDIT_PANE_TOP :: nat where "EDIT_PANE_TOP = ROW_CONTENT_FIRST * 24"
definition EDIT_PANE_H :: nat where "EDIT_PANE_H = (ROW_CONTENT_LAST + 1) * 24 - 1 - EDIT_PANE_TOP"
definition EDIT_ROWS :: nat where "EDIT_ROWS = EDIT_PANE_H div 16"

lemma page_rows: "LIST_ROWS = 6" "EDIT_ROWS = 8"
  by (simp_all add: LIST_ROWS_def EDIT_ROWS_def EDIT_PANE_H_def EDIT_PANE_TOP_def ROW_CONTENT_LAST_def
      ROW_CONTENT_FIRST_def SCREEN_ROWS_def)

text \<open>The least move of the top row that brings a row into the window.\<close>

definition scroll_into_view :: "nat \<Rightarrow> nat \<Rightarrow> nat \<Rightarrow> nat" where
  "scroll_into_view rows sel first =
     (if sel < first then sel else if first + rows \<le> sel then sel - (rows - 1) else first)"

definition list_scroll_into_view :: "('p, 'q, 'd, 'r) desk \<Rightarrow> ('p, 'q, 'd, 'r) desk" where
  "list_scroll_into_view sh =
     page (\<lambda>p. p\<lparr>pg_list_top := scroll_into_view LIST_ROWS (pg_list_sel p) (pg_list_top p)\<rparr>) sh"

definition menu_scroll_into_view :: "('p, 'q, 'd, 'r) desk \<Rightarrow> ('p, 'q, 'd, 'r) desk" where
  "menu_scroll_into_view sh =
     page (\<lambda>p. p\<lparr>pg_menu_top := scroll_into_view LIST_ROWS (pg_menu_sel p) (pg_menu_top p)\<rparr>) sh"

definition edit_scroll_into_view :: "('p, 'q, 'd, 'r) desk \<Rightarrow> ('p, 'q, 'd, 'r) desk" where
  "edit_scroll_into_view sh =
     page (\<lambda>p. p\<lparr>pg_ed_top := scroll_into_view EDIT_ROWS (fst (qdos_editor_where (pg_ed p))) (pg_ed_top p)\<rparr>) sh"

section \<open>Soft keys\<close>

type_synonym soft_key = "cstring \<times> qdos_key"

definition no_soft :: soft_key where "no_soft = ([], QDOS_KEY_NONE)"

fun SOFT :: "qdos_mode \<Rightarrow> soft_key list" where
  "SOFT QDOS_MODE_CALC = [(''LINE'', QDOS_KEY_MODE), (''APPS'', QDOS_KEY_LIST), (''CAT'', QDOS_KEY_CATALOG),
     (''SET'', QDOS_KEY_SETTINGS), (''PLOT'', QDOS_KEY_GRAPH)]"
| "SOFT QDOS_MODE_LINE = [(''RPN'', QDOS_KEY_MODE), (''APPS'', QDOS_KEY_LIST), (''TAB'', QDOS_KEY_TAB),
     (''CAT'', QDOS_KEY_CATALOG), (''CLR'', QDOS_KEY_CLEAR)]"
| "SOFT QDOS_MODE_LIST = [(''ESC'', QDOS_KEY_CLEAR), (''NEW'', QDOS_KEY_NEW), (''RUN'', QDOS_KEY_ENTER),
     (''OPTS'', QDOS_KEY_MENU), (''EDIT'', QDOS_KEY_OPEN)]"
| "SOFT QDOS_MODE_EDIT = [(''ESC'', QDOS_KEY_CLEAR), (''UNDO'', QDOS_KEY_UNDO), (''CHECK'', QDOS_KEY_CHECK),
     (''RUN'', QDOS_KEY_RUN), (''SAVE'', QDOS_KEY_SAVE)]"
| "SOFT QDOS_MODE_ABOUT = [(''ESC'', QDOS_KEY_CLEAR), no_soft, no_soft, no_soft, (''LOG'', QDOS_KEY_DEBUG)]"
| "SOFT QDOS_MODE_SETTINGS = [(''ESC'', QDOS_KEY_CLEAR), (''INFO'', QDOS_KEY_ABOUT), no_soft,
     (''CHG'', QDOS_KEY_RIGHT), (''LOG'', QDOS_KEY_DEBUG)]"
| "SOFT QDOS_MODE_GRAPH = [(''ESC'', QDOS_KEY_CLEAR), (''ZOOM'', QDOS_KEY_ZOOM), (''CALC'', QDOS_KEY_CALC),
     (''MENU'', QDOS_KEY_MENU), (''TRACE'', QDOS_KEY_TRACE)]"
| "SOFT QDOS_MODE_PLOT = [(''ESC'', QDOS_KEY_CLEAR), (''EDIT'', QDOS_KEY_OPEN), (''ON'', QDOS_KEY_TOGGLE),
     (''MENU'', QDOS_KEY_MENU), (''GRAPH'', QDOS_KEY_GRAPH)]"
| "SOFT QDOS_MODE_PLOT_EDIT = [(''ESC'', QDOS_KEY_CLEAR), (''x'', QDOS_KEY_VAR_X), (''y'', QDOS_KEY_VAR_Y),
     (''t'', QDOS_KEY_VAR_T), (''theta'', QDOS_KEY_VAR_THETA)]"
| "SOFT QDOS_MODE_MENU = [(''ESC'', QDOS_KEY_CLEAR), no_soft, no_soft, (''PICK'', QDOS_KEY_ENTER), no_soft]"
| "SOFT QDOS_MODE_WINDOW = [(''ESC'', QDOS_KEY_CLEAR), no_soft, no_soft, no_soft, (''GRAPH'', QDOS_KEY_GRAPH)]"
| "SOFT QDOS_MODE_TABLE = [(''ESC'', QDOS_KEY_CLEAR), (''START'', QDOS_KEY_TBL_START), no_soft,
     (''STEP'', QDOS_KEY_TBL_STEP), (''GRAPH'', QDOS_KEY_GRAPH)]"
| "SOFT QDOS_MODE_STAT = [(''ESC'', QDOS_KEY_CLEAR), (''CALC'', QDOS_KEY_CALC), (''PLOT'', QDOS_KEY_STATPLOT),
     (''CLR'', QDOS_KEY_LIST_CLEAR), (''GRAPH'', QDOS_KEY_GRAPH)]"
| "SOFT QDOS_MODE_OUTPUT = [(''ESC'', QDOS_KEY_CLEAR), no_soft, no_soft, no_soft, no_soft]"
| "SOFT QDOS_MODE_RESULT = [(''ESC'', QDOS_KEY_CLEAR), no_soft, (''PUSH'', QDOS_KEY_ENTER),
     (''TO Y'', QDOS_KEY_TO_Y), no_soft]"
| "SOFT QDOS_MODE_GRAPH3 = [(''ESC'', QDOS_KEY_CLEAR), no_soft, no_soft, (''STD'', QDOS_KEY_STD), no_soft]"
| "SOFT QDOS_MODE_DEBUG = [(''ESC'', QDOS_KEY_CLEAR), no_soft, no_soft, (''CLR'', QDOS_KEY_BACKSPACE),
     (''SET'', QDOS_KEY_SETTINGS)]"

definition FIELD_SOFT :: "soft_key list" where
  "FIELD_SOFT = [(''ESC'', QDOS_KEY_CLEAR), no_soft, no_soft, no_soft, (''OK'', QDOS_KEY_ENTER)]"

definition soft_row :: "('p, 'q, 'w) shell \<Rightarrow> soft_key list" where
  "soft_row sh = (if sh_field sh \<noteq> FIELD_NONE then FIELD_SOFT else SOFT (sh_mode sh))"

text \<open>The key a soft key stands for; \<open>None\<close> for any other key, and for one with nothing on it.\<close>

definition expand_soft :: "qdos_key_event \<Rightarrow> ('p, 'q, 'w) shell \<Rightarrow> qdos_key_event option" where
  "expand_soft ev sh =
     (if ev_key ev < QDOS_KEY_SOFT1 \<or> QDOS_KEY_SOFT5 < ev_key ev then None
      else
        let sk = snd (soft_row sh ! (ev_key ev - QDOS_KEY_SOFT1))
        in if sk = QDOS_KEY_NONE then None
           else if sh_field sh = FIELD_NONE \<and> sh_mode sh = QDOS_MODE_LINE \<and> sk = QDOS_KEY_CLEAR \<and> sh_input sh = [] then
             Some (key_event QDOS_KEY_NONE)
           else Some (key_event sk))"

section \<open>The field on the input row\<close>

definition field_open :: "field_target \<Rightarrow> cstring \<Rightarrow> cstring \<Rightarrow> ('p, 'q, 'd, 'r) desk \<Rightarrow> ('p, 'q, 'd, 'r) desk" where
  "field_open target prompt initial sh =
     page (\<lambda>p. p\<lparr>pg_field_mode := sh_mode sh, pg_field_prompt := clip 24 prompt,
                 pg_field_text := clip ENTRY_MAX initial, pg_field_fresh := False\<rparr>) (sh\<lparr>sh_field := target\<rparr>)"

definition field_starts :: "qdos_key_event \<Rightarrow> bool" where
  "field_starts ev \<longleftrightarrow>
     QDOS_KEY_0 \<le> ev_key ev \<and> ev_key ev \<le> QDOS_KEY_9 \<or> ev_key ev = QDOS_KEY_DOT \<or> ev_key ev = QDOS_KEY_NEG \<or>
     ev_key ev = QDOS_KEY_CHAR \<and> code (CHR '' '') < code (ev_ch ev) \<and> code (ev_ch ev) < 0x7F"

definition field_append :: "cstring \<Rightarrow> ('p, 'q, 'd, 'r) desk \<Rightarrow> ('p, 'q, 'd, 'r) desk" where
  "field_append s sh =
     (if ENTRY_MAX \<le> length (pg_field_text (sh_world sh)) + length s then sh
      else page (\<lambda>p. p\<lparr>pg_field_text := pg_field_text p @ s\<rparr>) sh)"

text \<open>The sign key: on the number where there is only one.\<close>

definition field_negate :: "('p, 'q, 'd, 'r) desk \<Rightarrow> ('p, 'q, 'd, 'r) desk" where
  "field_negate sh =
     (let s = pg_field_text (sh_world sh)
      in if char_at s 0 = CHR ''-'' then page (\<lambda>p. p\<lparr>pg_field_text := tl s\<rparr>) sh
         else if length s + 1 < ENTRY_MAX then page (\<lambda>p. p\<lparr>pg_field_text := CHR ''-'' # s\<rparr>) sh
         else sh)"

section \<open>Programs\<close>

definition load_program_anywhere :: "'d hal \<Rightarrow> cstring \<Rightarrow> 'd \<Rightarrow> cstring option" where
  "load_program_anywhere hal name d = load_nearest hal NEAREST name d"

text \<open>Every app a word: found by name or given a slot of its own, until there are no more.\<close>

definition QDOS_APPS_MAX :: nat where "QDOS_APPS_MAX = 32"

fun register_found ::
    "(cstring \<Rightarrow> ('p, 'q, 'd, 'r) desk \<Rightarrow> ('p, 'q, 'd, 'r) desk) \<Rightarrow> program_entry list \<Rightarrow>
     ('p, 'q, 'd, 'r) desk \<Rightarrow> ('p, 'q, 'd, 'r) desk" where
  "register_found reg [] sh = sh"
| "register_found reg (e # es) sh =
     (if \<not> e_app e then register_found reg es sh
      else if list_ex (\<lambda>w. w = e_name e) (pg_app_word (sh_world sh)) then register_found reg es (reg (e_name e) sh)
      else if QDOS_APPS_MAX \<le> length (pg_app_word (sh_world sh)) then sh
      else register_found reg es
             (reg (clip QDOS_PROGRAM_NAME_MAX (e_name e))
               (page (\<lambda>p. p\<lparr>pg_app_word := pg_app_word p @ [clip QDOS_PROGRAM_NAME_MAX (e_name e)]\<rparr>) sh)))"

definition register_apps ::
    "'d hal \<Rightarrow> (cstring \<Rightarrow> ('p, 'q, 'd, 'r) desk \<Rightarrow> ('p, 'q, 'd, 'r) desk) \<Rightarrow>
     ('p, 'q, 'd, 'r) desk \<Rightarrow> ('p, 'q, 'd, 'r) desk" where
  "register_apps hal reg sh = register_found reg (qdos_programs_gather hal QDOS_WORDLIST_MAX (pg_store (sh_world sh))) sh"

text \<open>A word evaluated as though typed, its result in the mode it left the machine in.\<close>

definition run_word :: "('p, 'q, 'w) machine \<Rightarrow> cstring \<Rightarrow> ('p, 'q, 'w) shell \<Rightarrow> ('p, 'q, 'w) shell" where
  "run_word mc name sh =
     (let (ok, sh1) = qdos_guarded_eval mc name (undo_snapshot mc sh)
      in if \<not> ok then let (e, sh2) = qdos_guarded_error mc sh1 in set_message e True sh2
         else if sh_mode sh1 = sh_mode sh then absorb_output (set_message [] False sh1)
         else sh1)"

definition edit_open :: "cstring \<Rightarrow> cstring option \<Rightarrow> ('p, 'q, 'd, 'r) desk \<Rightarrow> ('p, 'q, 'd, 'r) desk" where
  "edit_open name source sh =
     (let sh1 = (if sh_mode sh \<noteq> QDOS_MODE_EDIT then page (\<lambda>p. p\<lparr>pg_edit_from := sh_mode sh\<rparr>) sh else sh);
          sh2 = page (\<lambda>p. p\<lparr>pg_ed := qdos_editor_open name source, pg_ed_top := 0\<rparr>) sh1
      in set_message [] False (edit_scroll_into_view (sh2\<lparr>sh_mode := QDOS_MODE_EDIT\<rparr>)))"

section \<open>The top of the stack\<close>

definition notation_of :: "int \<Rightarrow> number_notation" where
  "notation_of n = (if n = 1 then NOTATION_SCI else if n = 2 then NOTATION_ENG else NOTATION_NORMAL)"

definition shown_value_of :: "('p, 'q, 'w) machine \<Rightarrow> ('p, 'q) element \<Rightarrow> shown_value" where
  "shown_value_of mc e =
     (case e of
        ElInt i \<Rightarrow> ShownInt (sint i) (value_text mc e)
      | ElFloat f \<Rightarrow> ShownFloat f (value_text mc e)
      | ElD128 q \<Rightarrow> ShownDecimal (value_text mc e)
      | _ \<Rightarrow> ShownText (value_text mc e))"

text \<open>A level as \<^verbatim>\<open>edit_run\<close> writes it: a complex number its own way, anything else as a value.\<close>

definition shown_level :: "('p, 'q, 'd, 'r) host \<Rightarrow> settings \<Rightarrow> ('p, 'q) element \<Rightarrow> nat \<Rightarrow> nat \<Rightarrow> cstring" where
  "shown_level ho st e cap room =
     (case qdos_cpx_of e of
        Some (re, im) \<Rightarrow> complex_text ho re im cap room
      | None \<Rightarrow> format_value (ho_d128 ho) (ho_libm ho) (notation_of (st_notation st)) (st_decimals st)
                  (shown_value_of (ho_mc ho) e) cap room)"

section \<open>Menus\<close>

definition menu_open :: "menu_id \<Rightarrow> ('p, 'q, 'd, 'r) desk \<Rightarrow> ('p, 'q, 'd, 'r) desk" where
  "menu_open m sh =
     (let sh1 = (if sh_mode sh \<noteq> QDOS_MODE_MENU then page (\<lambda>p. p\<lparr>pg_menu_from := sh_mode sh\<rparr>) sh else sh)
      in set_message [] False
           ((page (\<lambda>p. p\<lparr>pg_menu := m, pg_menu_sel := 0, pg_menu_top := 0\<rparr>) sh1)\<lparr>sh_mode := QDOS_MODE_MENU\<rparr>))"

end
