(* ===== verification/Apps.thy ===== *)
theory Apps
  imports Pages
begin

text \<open>
  The page of programs and the catalog of words (\<^verbatim>\<open>src/shell/shell.c\<close>): what a row shows, finding one
  by its name, running, dropping, renaming and copying a program, and the field a name is typed in.
\<close>

section \<open>The rows\<close>

definition loose_modules :: "('d, 'r) pages \<Rightarrow> native_entry list" where
  "loose_modules p = filter (\<lambda>n. n_app n = []) (pg_natives p)"

definition module_count :: "('d, 'r) pages \<Rightarrow> nat" where
  "module_count p = length (loose_modules p)"

definition list_count :: "('d, 'r) pages \<Rightarrow> nat" where
  "list_count p = (if pg_list_all p then length (pg_list p) else module_count p + length (pg_apps p))"

definition list_module :: "('d, 'r) pages \<Rightarrow> nat \<Rightarrow> native_entry option" where
  "list_module p i = (if pg_list_all p then None else if i < module_count p then Some (loose_modules p ! i) else None)"

definition list_program :: "('d, 'r) pages \<Rightarrow> nat \<Rightarrow> program_entry option" where
  "list_program p i =
     (if pg_list_all p \<or> i < module_count p then None
      else
        let row = i - module_count p
        in if row < length (pg_apps p) then Some (pg_apps p ! row) else None)"

text \<open>Rows past the last are never asked for in the catalog.\<close>

definition list_name :: "('d, 'r) pages \<Rightarrow> nat \<Rightarrow> cstring" where
  "list_name p i =
     (if pg_list_all p then (if i < length (pg_list p) then pg_list p ! i else [])
      else (case list_module p i of
              Some m \<Rightarrow> n_name m
            | None \<Rightarrow> (case list_program p i of Some e \<Rightarrow> e_name e | None \<Rightarrow> [])))"

definition user_word :: "cstring \<Rightarrow> ('p, 'q, 'd, 'r) desk \<Rightarrow> bool" where
  "user_word name sh \<longleftrightarrow>
     declared_here name sh \<or> list_ex (\<lambda>e. e_user e \<and> e_name e = name) (pg_apps (sh_world sh))"

text \<open>The two passes, the words of your own and then the others, each in order.\<close>

definition list_user_first :: "('p, 'q, 'd, 'r) desk \<Rightarrow> ('p, 'q, 'd, 'r) desk" where
  "list_user_first sh =
     (let names = pg_list (sh_world sh); yours = filter (\<lambda>n. user_word n sh) names
      in page (\<lambda>p. p\<lparr>pg_list_user := length yours, pg_list := yours @ filter (\<lambda>n. \<not> user_word n sh) names\<rparr>) sh)"

definition list_load :: "('p, 'q, 'd, 'r) host \<Rightarrow> ('p, 'q, 'd, 'r) desk \<Rightarrow> ('p, 'q, 'd, 'r) desk" where
  "list_load ho sh =
     (let sh1 = page (\<lambda>p. p\<lparr>pg_apps := qdos_programs_gather (ho_hal ho) QDOS_WORDLIST_MAX (pg_store p), pg_list_user := 0\<rparr>) sh;
          sh2 = (if pg_list_all (sh_world sh1)
                 then list_user_first
                        (page (\<lambda>p. p\<lparr>pg_list := qdos_wordlist_gather (qd_interp_words (ho_mc ho) sh1)\<rparr>) sh1)
                 else sh1)
      in page (\<lambda>p. p\<lparr>pg_list_sel := 0, pg_list_top := 0, pg_list_find := []\<rparr>) sh2)"

definition list_open_scoped ::
    "('p, 'q, 'd, 'r) host \<Rightarrow> bool \<Rightarrow> ('p, 'q, 'd, 'r) desk \<Rightarrow> ('p, 'q, 'd, 'r) desk" where
  "list_open_scoped ho all sh =
     (let sh1 = list_load ho (page (\<lambda>p. p\<lparr>pg_list_all := all\<rparr>) sh)
      in set_message [] False ((page (\<lambda>p. p\<lparr>pg_list_from := sh_mode sh1\<rparr>) sh1)\<lparr>sh_mode := QDOS_MODE_LIST\<rparr>))"

definition list_open :: "('p, 'q, 'd, 'r) host \<Rightarrow> ('p, 'q, 'd, 'r) desk \<Rightarrow> ('p, 'q, 'd, 'r) desk" where
  "list_open ho sh = list_open_scoped ho False sh"

definition catalog_open :: "('p, 'q, 'd, 'r) host \<Rightarrow> ('p, 'q, 'd, 'r) desk \<Rightarrow> ('p, 'q, 'd, 'r) desk" where
  "catalog_open ho sh = list_open_scoped ho True sh"

text \<open>The first row with a property.\<close>

fun first_row :: "(nat \<Rightarrow> bool) \<Rightarrow> nat list \<Rightarrow> nat option" where
  "first_row P [] = None"
| "first_row P (i # rows) = (if P i then Some i else first_row P rows)"

definition list_refresh ::
    "('p, 'q, 'd, 'r) host \<Rightarrow> cstring option \<Rightarrow> ('p, 'q, 'd, 'r) desk \<Rightarrow> ('p, 'q, 'd, 'r) desk" where
  "list_refresh ho name sh =
     (let was = pg_list_sel (sh_world sh);
          sh1 = list_load ho sh;
          count = list_count (sh_world sh1);
          kept = (if was < count then was else if count > 0 then count - 1 else 0);
          sel = (case name of
                   None \<Rightarrow> kept
                 | Some n \<Rightarrow> (case first_row (\<lambda>i. list_name (sh_world sh1) i = n) [0..<count] of Some i \<Rightarrow> i | None \<Rightarrow> kept))
      in list_scroll_into_view (page (\<lambda>p. p\<lparr>pg_list_sel := sel\<rparr>) sh1))"

section \<open>Programs coming and going\<close>

definition name_refusal :: "('p, 'q, 'd, 'r) host \<Rightarrow> cstring \<Rightarrow> ('p, 'q, 'd, 'r) desk \<Rightarrow> cstring option" where
  "name_refusal ho name sh =
     (if \<not> qdos_program_name_ok name then Some ''NOT A VALID NAME''
      else if qdos_app_exists (ho_hal ho) name (pg_store (sh_world sh)) \<or>
              load_program_anywhere (ho_hal ho) name (pg_store (sh_world sh)) \<noteq> None then Some ''THAT NAME EXISTS''
      else if list_ex (\<lambda>w. w = name) (qd_interp_words (ho_mc ho) sh) then Some ''THAT WORD IS TAKEN''
      else None)"

definition redeclare_shadowed :: "('p, 'q, 'd, 'r) host \<Rightarrow> cstring \<Rightarrow> ('p, 'q, 'd, 'r) desk \<Rightarrow> ('p, 'q, 'd, 'r) desk" where
  "redeclare_shadowed ho name sh =
     (case load_nearest (ho_hal ho) [SCOPE_INBOX, SCOPE_SYSTEM] name (pg_store (sh_world sh)) of
        Some source \<Rightarrow> snd (qdos_guarded_eval (ho_mc ho) source sh)
      | None \<Rightarrow> sh)"

definition program_drop :: "('p, 'q, 'd, 'r) host \<Rightarrow> cstring \<Rightarrow> ('p, 'q, 'd, 'r) desk \<Rightarrow> ('p, 'q, 'd, 'r) desk" where
  "program_drop ho name sh =
     redeclare_shadowed ho name
       (page (\<lambda>p. p\<lparr>pg_store := snd (qdos_program_erase (ho_hal ho) name (pg_store p))\<rparr>)
         (forget_here name (qd_interp_undeclare ho name sh)))"

definition program_declare :: "('p, 'q, 'd, 'r) host \<Rightarrow> cstring \<Rightarrow> ('p, 'q, 'd, 'r) desk \<Rightarrow> ('p, 'q, 'd, 'r) desk" where
  "program_declare ho name sh =
     (if qdos_app_exists (ho_hal ho) name (pg_store (sh_world sh)) then register_apps (ho_hal ho) (qd_interp_register ho) sh
      else (case load_program_anywhere (ho_hal ho) name (pg_store (sh_world sh)) of
              Some source \<Rightarrow> snd (qdos_guarded_eval (ho_mc ho) source sh)
            | None \<Rightarrow> sh))"

definition list_run :: "('p, 'q, 'd, 'r) host \<Rightarrow> cstring \<Rightarrow> ('p, 'q, 'd, 'r) desk \<Rightarrow> ('p, 'q, 'd, 'r) desk" where
  "list_run ho name sh =
     (let word = clip QDOS_PROGRAM_NAME_MAX name;
          to = (if pg_list_from (sh_world sh) = QDOS_MODE_LINE then QDOS_MODE_LINE else QDOS_MODE_CALC);
          sh1 = sh\<lparr>sh_mode := to\<rparr>;
          sh2 = (if to = QDOS_MODE_CALC then snd (entry_commit (ho_mc ho) sh1) else sh1)
      in run_word (ho_mc ho) word sh2)"

definition name_ask ::
    "name_purpose \<Rightarrow> cstring \<Rightarrow> cstring \<Rightarrow> cstring \<Rightarrow> ('p, 'q, 'd, 'r) desk \<Rightarrow> ('p, 'q, 'd, 'r) desk" where
  "name_ask why prompt initial source sh =
     field_open FIELD_NAME prompt initial
       (page (\<lambda>p. p\<lparr>pg_name_for := why, pg_name_from := clip QDOS_PROGRAM_NAME_MAX source\<rparr>) sh)"

abbreviation (input) quoted :: "cstring \<Rightarrow> cstring \<Rightarrow> nat \<Rightarrow> cstring \<Rightarrow> cstring" where
  "quoted before name n rest \<equiv> clip (QDOS_COLS + 8) (before @ [CHR 0x27] @ take n name @ [CHR 0x27] @ rest)"

definition name_commit :: "('p, 'q, 'd, 'r) host \<Rightarrow> ('p, 'q, 'd, 'r) desk \<Rightarrow> ('p, 'q, 'd, 'r) desk" where
  "name_commit ho sh =
     (let p = sh_world sh; name = clip QDOS_PROGRAM_NAME_MAX (pg_field_text p)
      in if pg_name_for p = NAME_RENAME \<and> name = pg_name_from p then sh\<lparr>sh_field := FIELD_NONE\<rparr>
         else (case name_refusal ho name sh of
                 Some refusal \<Rightarrow> set_message refusal True sh
               | None \<Rightarrow>
                   let sh1 = sh\<lparr>sh_field := FIELD_NONE\<rparr>
                   in if pg_name_for p = NAME_NEW then edit_open name None sh1
                      else
                        let (copied, d) = qdos_program_copy (ho_hal ho) (pg_name_from p) name (pg_store p);
                            sh2 = page (\<lambda>p. p\<lparr>pg_store := d\<rparr>) sh1
                        in if copied \<noteq> STORE_OK then
                             set_message (if copied = STORE_TOO_BIG then ''TOO BIG TO COPY'' else ''COULD NOT COPY'') True sh2
                           else
                             let rename = (pg_name_for p = NAME_RENAME);
                                 sh3 = (if rename then program_drop ho (pg_name_from p) sh2 else sh2)
                             in set_message (quoted (if rename then ''RENAMED '' else ''COPIED TO '') name 12 []) False
                                  (list_refresh ho (Some name) (program_declare ho name sh3))))"

text \<open>
  A drop, which asks once; true once it is gone. Where the selection is on no row the code would follow a null
  pointer; the selection is always on one.
\<close>

definition list_drop :: "('p, 'q, 'd, 'r) host \<Rightarrow> ('p, 'q, 'd, 'r) desk \<Rightarrow> bool \<times> ('p, 'q, 'd, 'r) desk" where
  "list_drop ho sh =
     (let p = sh_world sh
      in if pg_list_all p \<or> list_count p = 0 then (False, sh)
         else if list_module p (pg_list_sel p) \<noteq> None then (False, set_message ''TAKE IT OFF THE CARD'' False sh)
         else (case list_program p (pg_list_sel p) of
                 None \<Rightarrow> (False, sh)
               | Some e \<Rightarrow>
                   if \<not> e_user e then
                     (False, set_message (if e_inbox e then ''TAKE IT OFF THE CARD'' else ''THAT ONE IS SHIPPED'') False sh)
                   else
                     let name = clip QDOS_PROGRAM_NAME_MAX (e_name e); revert = (e_system e \<or> e_inbox e)
                     in if \<not> pg_delete_armed p then
                          (False, set_message (if revert then quoted ''AGAIN TO REVERT '' name 7 []
                                               else quoted ''AGAIN TO DROP '' name 9 []) False
                             (page (\<lambda>p. p\<lparr>pg_delete_armed := True\<rparr>) sh))
                        else
                          (True, set_message (quoted (if revert then ''REVERTED '' else ''DROPPED '') name 12 []) False
                             (list_refresh ho (if revert then Some name else None)
                               (program_drop ho name (page (\<lambda>p. p\<lparr>pg_delete_armed := False\<rparr>) sh))))))"

definition list_edit :: "('p, 'q, 'd, 'r) host \<Rightarrow> ('p, 'q, 'd, 'r) desk \<Rightarrow> ('p, 'q, 'd, 'r) desk" where
  "list_edit ho sh =
     (let p = sh_world sh
      in if list_count p = 0 \<or> pg_list_all p \<or> list_module p (pg_list_sel p) \<noteq> None then sh
         else
           let name = clip QDOS_PROGRAM_NAME_MAX (list_name p (pg_list_sel p))
           in (case load_program_anywhere (ho_hal ho) name (pg_store p) of
                 Some source \<Rightarrow> edit_open name (Some source) sh
               | None \<Rightarrow> sh))"

definition list_info :: "('p, 'q, 'd, 'r) host \<Rightarrow> cstring \<Rightarrow> ('p, 'q, 'd, 'r) desk \<Rightarrow> ('p, 'q, 'd, 'r) desk" where
  "list_info ho name sh =
     (case load_program_anywhere (ho_hal ho) name (pg_store (sh_world sh)) of
        None \<Rightarrow> sh
      | Some source \<Rightarrow>
          set_message (clip (QDOS_COLS + 8)
            (dec (1 + length (filter (\<lambda>c. c = newline) source)) @ '' LINES, '' @ dec (length source) @ '' BYTES'')) False sh)"

datatype app_action = APP_RUN | APP_EDIT | APP_RENAME | APP_COPY | APP_DELETE | APP_INFO

definition APP_ITEMS :: "app_action list" where
  "APP_ITEMS = [APP_RUN, APP_EDIT, APP_RENAME, APP_COPY, APP_DELETE, APP_INFO]"

text \<open>False where the menu stays open, a drop waiting for its second press.\<close>

definition app_act :: "('p, 'q, 'd, 'r) host \<Rightarrow> app_action \<Rightarrow> ('p, 'q, 'd, 'r) desk \<Rightarrow> bool \<times> ('p, 'q, 'd, 'r) desk" where
  "app_act ho action sh =
     (let p = sh_world sh
      in if list_count p = 0 \<or> pg_list_all p \<or> list_module p (pg_list_sel p) \<noteq> None then (True, sh)
         else (case list_program p (pg_list_sel p) of
                 None \<Rightarrow> (True, sh)
               | Some e \<Rightarrow>
                   let name = clip QDOS_PROGRAM_NAME_MAX (e_name e)
                   in (case action of
                         APP_RUN \<Rightarrow> (True, list_run ho name sh)
                       | APP_EDIT \<Rightarrow> (True, list_edit ho sh)
                       | APP_RENAME \<Rightarrow>
                           (True, if \<not> e_user e then set_message ''NOT YOURS: COPY IT'' False sh
                                  else name_ask NAME_RENAME ''RENAME: '' name name sh)
                       | APP_COPY \<Rightarrow> (True, name_ask NAME_COPY ''COPY TO: '' [] name sh)
                       | APP_DELETE \<Rightarrow>
                           let (gone, sh1) = list_drop ho sh in (gone \<or> \<not> pg_delete_armed (sh_world sh1), sh1)
                       | APP_INFO \<Rightarrow> (True, list_info ho name sh))))"

section \<open>The keys\<close>

definition list_find_row :: "cstring \<Rightarrow> ('p, 'q, 'd, 'r) desk \<Rightarrow> bool \<times> ('p, 'q, 'd, 'r) desk" where
  "list_find_row start sh =
     (let p = sh_world sh
      in case first_row (\<lambda>i. prefix_of start (list_name p i)) [0..<list_count p] of
           None \<Rightarrow> (False, sh)
         | Some i \<Rightarrow> (True, list_scroll_into_view (page (\<lambda>p. p\<lparr>pg_list_sel := i, pg_list_top := i\<rparr>) sh)))"

definition list_typed :: "char \<Rightarrow> ('p, 'q, 'd, 'r) desk \<Rightarrow> ('p, 'q, 'd, 'r) desk" where
  "list_typed ch sh =
     (let want = (if code (CHR ''A'') \<le> code ch \<and> code ch \<le> code (CHR ''Z'') then char_of (code ch + 32) else ch);
          typed = pg_list_find (sh_world sh)
      in if QDOS_WORDLIST_NAME \<le> length typed + 1 then sh
         else
           let start = typed @ [want]; (found, sh1) = list_find_row start sh
           in if found then page (\<lambda>p. p\<lparr>pg_list_find := start\<rparr>) sh1
              else set_message (clip (QDOS_COLS + 1) (''NOTHING STARTS '' @ take (QDOS_COLS - 15) start)) False sh1)"

definition list_enter :: "('p, 'q, 'd, 'r) host \<Rightarrow> ('p, 'q, 'd, 'r) desk \<Rightarrow> ('p, 'q, 'd, 'r) desk" where
  "list_enter ho sh =
     (let p = sh_world sh; name = list_name p (pg_list_sel p)
      in if list_count p > 0 \<and> \<not> pg_list_all p \<and> list_module p (pg_list_sel p) = None then list_run ho name sh
         else if pg_list_all p \<and> pg_list_from p = QDOS_MODE_CALC \<and> list_count p > 0 then
           apply_word (ho_mc ho) (clip QDOS_WORDLIST_NAME name) (sh\<lparr>sh_mode := QDOS_MODE_CALC\<rparr>)
         else
           let sh1 = sh\<lparr>sh_mode := QDOS_MODE_LINE\<rparr>
           in if list_count p > 0 then
                input_append (case list_module p (pg_list_sel p) of
                                Some m \<Rightarrow> if n_is_app m then '' '' else ''::''
                              | None \<Rightarrow> '' '')
                  (input_append name sh1)
              else sh1)"

definition list_key :: "('p, 'q, 'd, 'r) host \<Rightarrow> qdos_key_event \<Rightarrow> ('p, 'q, 'd, 'r) desk \<Rightarrow> ('p, 'q, 'd, 'r) desk" where
  "list_key ho ev sh =
     (let key = ev_key ev; p = sh_world sh; sel = pg_list_sel p; count = list_count p
      in if key = QDOS_KEY_UP then
           list_scroll_into_view (if sel > 0 then page (\<lambda>p. p\<lparr>pg_list_sel := sel - 1\<rparr>) sh else sh)
         else if key = QDOS_KEY_DOWN then
           list_scroll_into_view (if sel + 1 < count then page (\<lambda>p. p\<lparr>pg_list_sel := sel + 1\<rparr>) sh else sh)
         else if key = QDOS_KEY_LEFT then
           list_scroll_into_view (page (\<lambda>p. p\<lparr>pg_list_sel := (if sel > LIST_ROWS then sel - LIST_ROWS else 0)\<rparr>) sh)
         else if key = QDOS_KEY_RIGHT then
           list_scroll_into_view
             (page (\<lambda>p. p\<lparr>pg_list_sel := (if count \<le> sel + LIST_ROWS then (if count \<noteq> 0 then count - 1 else 0)
                                           else sel + LIST_ROWS)\<rparr>) sh)
         else if key = QDOS_KEY_TAB then list_load ho (page (\<lambda>p. p\<lparr>pg_list_all := \<not> pg_list_all p\<rparr>) sh)
         else if key = QDOS_KEY_CHAR then list_typed (ev_ch ev) sh
         else if key = QDOS_KEY_ENTER then list_enter ho sh
         else if key = QDOS_KEY_NEW then (if \<not> pg_list_all p then name_ask NAME_NEW ''NEW: '' [] [] sh else sh)
         else if key = QDOS_KEY_MENU then
           (if count > 0 \<and> \<not> pg_list_all p \<and> list_module p sel = None then menu_open MENU_APP sh else sh)
         else if key = QDOS_KEY_OPEN then list_edit ho sh
         else if key = QDOS_KEY_BACKSPACE then snd (list_drop ho sh)
         else if key = QDOS_KEY_LIST \<or> key = QDOS_KEY_CLEAR then sh\<lparr>sh_mode := pg_list_from p\<rparr>
         else sh)"

definition handle_list_key ::
    "('p, 'q, 'd, 'r) host \<Rightarrow> qdos_key_event \<Rightarrow> ('p, 'q, 'd, 'r) desk \<Rightarrow> ('p, 'q, 'd, 'r) desk" where
  "handle_list_key ho ev sh =
     (let typed = pg_list_find (sh_world sh)
      in if ev_key ev = QDOS_KEY_BACKSPACE \<and> typed \<noteq> [] then
           snd (list_find_row (butlast typed) (page (\<lambda>p. p\<lparr>pg_list_find := butlast typed\<rparr>) sh))
         else
           let ev1 = (if QDOS_KEY_0 \<le> ev_key ev \<and> ev_key ev \<le> QDOS_KEY_9 \<and> typed \<noteq> []
                      then \<lparr>ev_key = QDOS_KEY_CHAR, ev_ch = digit_char (ev_key ev - QDOS_KEY_0)\<rparr> else ev);
               sh1 = (if ev_key ev1 \<noteq> QDOS_KEY_BACKSPACE then page (\<lambda>p. p\<lparr>pg_delete_armed := False\<rparr>) sh else sh);
               sh2 = (if ev_key ev1 \<noteq> QDOS_KEY_CHAR then page (\<lambda>p. p\<lparr>pg_list_find := []\<rparr>) sh1 else sh1)
           in list_key ho ev1 sh2)"

text \<open>The field, the keys every field takes and what ENTER does with a name.\<close>

definition field_enter :: "('p, 'q, 'd, 'r) host \<Rightarrow> ('p, 'q, 'd, 'r) desk \<Rightarrow> ('p, 'q, 'd, 'r) desk" where
  "field_enter ho sh =
     (let s = pg_field_text (sh_world sh)
      in if sh_field sh = FIELD_NAME \<and> s \<noteq> [] then name_commit ho sh
         else if sh_field sh = FIELD_ASK \<and> s = [] then sh
         else if sh_field sh = FIELD_TEXT then (page (\<lambda>p. p\<lparr>pg_ask_done := True\<rparr>) sh)\<lparr>sh_field := FIELD_NONE\<rparr>
         else if s = [] then sh\<lparr>sh_field := FIELD_NONE\<rparr>
         else number_field ho sh)"

definition field_key :: "('p, 'q, 'd, 'r) host \<Rightarrow> qdos_key_event \<Rightarrow> ('p, 'q, 'd, 'r) desk \<Rightarrow> ('p, 'q, 'd, 'r) desk" where
  "field_key ho ev sh =
     (let key = ev_key ev;
          fresh = pg_field_fresh (sh_world sh);
          sh1 = page (\<lambda>p. p\<lparr>pg_field_fresh := False\<rparr>) sh;
          sh2 = (if fresh \<and> key \<noteq> QDOS_KEY_ENTER \<and> key \<noteq> QDOS_KEY_CLEAR \<and> key \<noteq> QDOS_KEY_NEG
                 then page (\<lambda>p. p\<lparr>pg_field_text := []\<rparr>) sh1 else sh1)
      in case function_word key of
           Some word \<Rightarrow> field_append '' '' (field_append word (field_append '' '' sh2))
         | None \<Rightarrow>
             if QDOS_KEY_0 \<le> key \<and> key \<le> QDOS_KEY_9 then field_append [digit_char (key - QDOS_KEY_0)] sh2
             else if key = QDOS_KEY_DOT then field_append ''.'' sh2
             else if key = QDOS_KEY_ADD then field_append ''+'' sh2
             else if key = QDOS_KEY_SUB then field_append ''-'' sh2
             else if key = QDOS_KEY_MUL then field_append ''*'' sh2
             else if key = QDOS_KEY_DIV then field_append '' divide '' sh2
             else if key = QDOS_KEY_NEG then field_negate sh2
             else if key = QDOS_KEY_CHAR then
               (if code (CHR '' '') \<le> code (ev_ch ev) \<and> code (ev_ch ev) < 0x7F then field_append [ev_ch ev] sh2 else sh2)
             else if key = QDOS_KEY_BACKSPACE then page (\<lambda>p. p\<lparr>pg_field_text := butlast (pg_field_text p)\<rparr>) sh2
             else if key = QDOS_KEY_ENTER then field_enter ho sh2
             else if key = QDOS_KEY_CLEAR then sh2\<lparr>sh_field := FIELD_NONE\<rparr>
             else sh2)"

end
