(* ===== verification/EditPage.thy ===== *)
theory EditPage
  imports Apps
begin

text \<open>
  The program editor's page (\<^verbatim>\<open>src/shell/shell.c\<close>) around the text buffer of Editor: what each key types,
  saving, checking and running a program, and leaving.
\<close>

section \<open>Typing\<close>

abbreviation (input) edit :: "(editor \<Rightarrow> editor) \<Rightarrow> ('p, 'q, 'd, 'r) desk \<Rightarrow> ('p, 'q, 'd, 'r) desk" where
  "edit f \<equiv> page (\<lambda>p. p\<lparr>pg_ed := f (pg_ed p)\<rparr>)"

definition char_before :: "editor \<Rightarrow> char" where
  "char_before ed = (if 0 < ed_cursor ed then char_at (ed_text ed) (ed_cursor ed - 1) else newline)"

definition token_break :: "char \<Rightarrow> bool" where
  "token_break c \<longleftrightarrow> c = CHR '' '' \<or> c = newline \<or> c = tab"

text \<open>A space is on the cursor.\<close>

definition spaced :: "editor \<Rightarrow> bool" where
  "spaced ed \<longleftrightarrow> ed_cursor ed < length (ed_text ed) \<and> char_at (ed_text ed) (ed_cursor ed) = CHR '' ''"

definition insert_word :: "cstring \<Rightarrow> editor \<Rightarrow> editor" where
  "insert_word word ed =
     (let ed1 = (if token_break (char_before ed) then ed else qdos_editor_insert (CHR '' '') ed);
          ed2 = fold qdos_editor_insert word ed1
      in if spaced ed2 then qdos_editor_move 1 0 ed2 else qdos_editor_insert (CHR '' '') ed2)"

definition edit_insert_word :: "cstring \<Rightarrow> ('p, 'q, 'd, 'r) desk \<Rightarrow> ('p, 'q, 'd, 'r) desk" where
  "edit_insert_word word sh = edit_scroll_into_view (edit (insert_word word) sh)"

definition edit_operator ::
    "qdos_key_event \<Rightarrow> char \<Rightarrow> cstring \<Rightarrow> ('p, 'q, 'd, 'r) desk \<Rightarrow> ('p, 'q, 'd, 'r) desk" where
  "edit_operator ev symbol word sh =
     (let ed = pg_ed (sh_world sh)
      in if ev_ch ev \<noteq> nul \<or> text_is_literal (ed_text ed) (ed_cursor ed) then edit (qdos_editor_insert symbol) sh
         else
           let starts = token_break (char_before ed); was_spaced = spaced ed
           in page (\<lambda>p. p\<lparr>pg_edit_minus := (symbol = CHR ''-'' \<and> starts \<and> \<not> was_spaced)\<rparr>) (edit_insert_word word sh))"

text \<open>\<open>None\<close> where the key is no digit, and the word stays.\<close>

definition edit_minus_fixup :: "qdos_key_event \<Rightarrow> ('p, 'q, 'd, 'r) desk \<Rightarrow> ('p, 'q, 'd, 'r) desk option" where
  "edit_minus_fixup ev sh =
     (let digit = (if QDOS_KEY_0 \<le> ev_key ev \<and> ev_key ev \<le> QDOS_KEY_9 then Some (digit_char (ev_key ev - QDOS_KEY_0))
                   else if ev_key ev = QDOS_KEY_DOT then Some (CHR ''.'') else None)
      in map_option (\<lambda>c. edit_scroll_into_view
            (edit (\<lambda>ed. qdos_editor_insert c
               (qdos_editor_insert (CHR ''-'') ((qdos_editor_backspace ^^ length ''minus '') ed))) sh)) digit)"

section \<open>Leaving, saving and running\<close>

definition edit_leave :: "('p, 'q, 'd, 'r) host \<Rightarrow> cstring \<Rightarrow> ('p, 'q, 'd, 'r) desk \<Rightarrow> ('p, 'q, 'd, 'r) desk" where
  "edit_leave ho message sh =
     (let sh1 = sh\<lparr>sh_mode := pg_edit_from (sh_world sh)\<rparr>
      in set_message message False
           (if sh_mode sh1 = QDOS_MODE_LIST then list_refresh ho (Some (ed_name (pg_ed (sh_world sh1)))) sh1 else sh1))"

text \<open>The text of an app compiled alone; whether it did, the message said.\<close>

definition compile_alone :: "('p, 'q, 'd, 'r) host \<Rightarrow> ('p, 'q, 'd, 'r) desk \<Rightarrow> bool \<times> ('p, 'q, 'd, 'r) desk" where
  "compile_alone ho sh =
     (case bare_interp ho sh of
        None \<Rightarrow> (False, set_message ''CANNOT CHECK'' True sh)
      | Some sh1 \<Rightarrow>
          let (ok, sh2) = qdos_guarded_eval (ho_alone ho) (ed_text (pg_ed (sh_world sh1))) sh1
          in if ok then (True, qd_interp_destroy ho (set_message [] False sh2))
             else let (e, sh3) = qdos_guarded_error (ho_alone ho) sh2
                  in (False, qd_interp_destroy ho (set_message e True sh3)))"

text \<open>The check before a save: an app alone, a program in the session.\<close>

definition edit_compiles :: "('p, 'q, 'd, 'r) host \<Rightarrow> ('p, 'q, 'd, 'r) desk \<Rightarrow> bool \<times> ('p, 'q, 'd, 'r) desk" where
  "edit_compiles ho sh =
     (if qdos_app_exists (ho_hal ho) (ed_name (pg_ed (sh_world sh))) (pg_store (sh_world sh)) then compile_alone ho sh
      else
        let (ok, sh1) = qdos_guarded_eval (ho_mc ho) (ed_text (pg_ed (sh_world sh))) sh
        in if ok then (True, sh1)
           else let (e, sh2) = qdos_guarded_error (ho_mc ho) sh1 in (False, set_message e True sh2))"

definition edit_save :: "('p, 'q, 'd, 'r) host \<Rightarrow> ('p, 'q, 'd, 'r) desk \<Rightarrow> bool \<times> ('p, 'q, 'd, 'r) desk" where
  "edit_save ho sh =
     (let (ok, sh1) = edit_compiles ho sh
      in if \<not> ok then (False, sh1)
         else
           let ed = pg_ed (sh_world sh1);
               (saved, d) = qdos_program_save (ho_hal ho) (ed_name ed) (ed_text ed) (pg_store (sh_world sh1));
               sh2 = page (\<lambda>p. p\<lparr>pg_store := d\<rparr>) sh1
           in if saved \<noteq> STORE_OK then
                (False, set_message (if saved \<noteq> STORE_TOO_BIG then ''COULD NOT SAVE''
                                     else if ed_text ed \<noteq> [] then ''TOO BIG TO SAVE'' else ''NOTHING TO SAVE'') True sh2)
              else (True, edit (\<lambda>ed. ed\<lparr>ed_dirty := False\<rparr>) (forget_here (ed_name ed) sh2)))"

definition edit_run :: "('p, 'q, 'd, 'r) host \<Rightarrow> ('p, 'q, 'd, 'r) desk \<Rightarrow> ('p, 'q, 'd, 'r) desk" where
  "edit_run ho sh =
     (let ed = pg_ed (sh_world sh);
          stored = (load_program_anywhere (ho_hal ho) (ed_name ed) (pg_store (sh_world sh)) \<noteq> None);
          (go, sh1) = (if ed_dirty ed \<or> \<not> stored then edit_save ho sh else (True, sh))
      in if \<not> go then sh1
         else
           let sh2 = run_word (ho_mc ho) (ed_name (pg_ed (sh_world sh1))) sh1
           in if sh_mode sh2 \<noteq> QDOS_MODE_EDIT \<or> sh_message sh2 \<noteq> [] then sh2
              else set_message (clip (QDOS_COLS + 8)
                     (if sh_stack sh2 = [] then ''RAN, STACK EMPTY''
                      else ''RAN: '' @ shown_level ho (pg_settings (sh_world sh2)) (last (sh_stack sh2)) (QDOS_COLS + 1) (QDOS_COLS - 5)))
                   False sh2)"

section \<open>Checking\<close>

text \<open>The loop over an app's other files; the message of the first that does not compile.\<close>

fun load_leaves ::
    "('p, 'q, 'd, 'r) host \<Rightarrow> cstring \<Rightarrow> nat \<Rightarrow> cstring list \<Rightarrow> ('p, 'q, 'd, 'r) desk \<Rightarrow> cstring option \<times> ('p, 'q, 'd, 'r) desk" where
  "load_leaves ho app cap [] sh = (None, sh)"
| "load_leaves ho app cap (leaf # leaves) sh =
     (case qdos_app_file_load (ho_hal ho) app leaf QDOS_PROGRAM_MAX (pg_store (sh_world sh)) of
        Inl _ \<Rightarrow> load_leaves ho app cap leaves sh
      | Inr source \<Rightarrow>
          let (ok, sh1) = qdos_guarded_eval (ho_alone ho) source sh
          in if ok then load_leaves ho app cap leaves sh1
             else let (e, sh2) = qdos_guarded_error (ho_alone ho) sh1 in (Some (clip cap (leaf @ '': '' @ e)), sh2))"

definition load_app_sources ::
    "('p, 'q, 'd, 'r) host \<Rightarrow> cstring \<Rightarrow> nat \<Rightarrow> ('p, 'q, 'd, 'r) desk \<Rightarrow> cstring option \<times> ('p, 'q, 'd, 'r) desk" where
  "load_app_sources ho app cap sh =
     load_leaves ho app cap
       (map (clip QDOS_PROGRAM_NAME_MAX) (qdos_app_sources (ho_hal ho) app 16 (pg_store (sh_world sh)))) sh"

text \<open>The scratch interpreter as what stored programs are declared in.\<close>

definition alone_interp :: "('p, 'q, 'd, 'r) host \<Rightarrow> ('p, 'q, 'd, 'r) desk interp" where
  "alone_interp ho =
     \<lparr>guarded_eval = qdos_guarded_eval (ho_alone ho), last_declared = qd_interp_last_declared (ho_alone ho),
      depth = alone_depth ho, pop = alone_pop ho\<rparr>"

text \<open>The line a message of the linter starts with, counted from nought.\<close>

definition message_line :: "cstring \<Rightarrow> nat option" where
  "message_line message =
     (if char_at message 0 = CHR ''L'' \<and> code (CHR ''1'') \<le> code (char_at message 1) \<and> code (char_at message 1) \<le> code (CHR ''9'')
      then (case strtol10 (tl message) of Some (n, rest) \<Rightarrow> Some (nat n - 1) | None \<Rightarrow> None)
      else None)"

definition check_program :: "('p, 'q, 'd, 'r) host \<Rightarrow> ('p, 'q, 'd, 'r) desk \<Rightarrow> ('p, 'q, 'd, 'r) desk" where
  "check_program ho sh =
     (case bare_interp ho sh of
        None \<Rightarrow> set_message ''CANNOT CHECK'' True sh
      | Some sh0 \<Rightarrow>
          let restored = fold (\<lambda>scope sh. snd (qdos_programs_restore (ho_hal ho) scope (alone_interp ho) (pg_store (sh_world sh)) sh))
                           all_scopes sh0;
              sh1 = register_apps (ho_hal ho) (alone_register ho) restored;
              name = ed_name (pg_ed (sh_world sh1));
              cap = 2 * MESSAGE_COLS + 1;
              (wrong, sh2) = (if qdos_app_exists (ho_hal ho) name (pg_store (sh_world sh1))
                              then load_app_sources ho name cap sh1 else (None, sh1))
          in case wrong of
               Some message \<Rightarrow> set_message message True (qd_interp_destroy ho sh2)
             | None \<Rightarrow>
                 let source = ed_text (pg_ed (sh_world sh2));
                     (ok, sh3) = qdos_guarded_eval (ho_alone ho) source sh2;
                     (bad, message, sh4) =
                       (if \<not> ok then let (e, sh4) = qdos_guarded_error (ho_alone ho) sh3 in (True, clip cap e, sh4)
                        else (case qdos_lint_program ho source sh3 of
                                Some message \<Rightarrow> (True, clip cap message, sh3)
                              | None \<Rightarrow> (False, clip cap ([CHR 0x27] @ take 12 name @ [CHR 0x27] @ '' COMPILES''), sh3)));
                     sh5 = set_message message bad (qd_interp_destroy ho sh4)
                 in case (if bad then message_line message else None) of
                      Some line \<Rightarrow> edit (qdos_editor_goto line) sh5
                    | None \<Rightarrow> sh5)"

section \<open>The keys\<close>

definition EDIT_WORDS :: "(qdos_key \<times> cstring) list" where
  "EDIT_WORDS =
     [(QDOS_KEY_STO, ''sto''), (QDOS_KEY_RCL, ''rcl''), (QDOS_KEY_DUP, ''dup''), (QDOS_KEY_DROP, ''drop''),
      (QDOS_KEY_SWAP, ''swap''), (QDOS_KEY_PI, ''pi''), (QDOS_KEY_E, ''e''), (QDOS_KEY_I, ''i''), (QDOS_KEY_COMPLEX, ''complex'')]"

definition edit_clear :: "('p, 'q, 'd, 'r) host \<Rightarrow> ('p, 'q, 'd, 'r) desk \<Rightarrow> ('p, 'q, 'd, 'r) desk" where
  "edit_clear ho sh =
     (let dirty = ed_dirty (pg_ed (sh_world sh))
      in if dirty \<and> \<not> pg_drop_armed (sh_world sh) then
           set_message ''ESC AGAIN: LOSE EDITS'' False (page (\<lambda>p. p\<lparr>pg_drop_armed := True\<rparr>) sh)
         else edit_leave ho (if dirty then ''NOT SAVED'' else []) (page (\<lambda>p. p\<lparr>pg_drop_armed := False\<rparr>) sh))"

definition edit_key :: "('p, 'q, 'd, 'r) host \<Rightarrow> qdos_key_event \<Rightarrow> ('p, 'q, 'd, 'r) desk \<Rightarrow> ('p, 'q, 'd, 'r) desk" where
  "edit_key ho ev sh =
     (let key = ev_key ev
      in if key = QDOS_KEY_DOT then edit (qdos_editor_insert (CHR ''.'')) sh
         else if key = QDOS_KEY_ADD then edit_operator ev (CHR ''+'') ''plus'' sh
         else if key = QDOS_KEY_SUB then edit_operator ev (CHR ''-'') ''minus'' sh
         else if key = QDOS_KEY_MUL then edit_operator ev (CHR ''*'') ''multiply'' sh
         else if key = QDOS_KEY_DIV then edit_operator ev (CHR ''/'') ''divide'' sh
         else if key = QDOS_KEY_UP then edit (qdos_editor_move 0 (-1)) sh
         else if key = QDOS_KEY_DOWN then edit (qdos_editor_move 0 1) sh
         else if key = QDOS_KEY_LEFT then edit (qdos_editor_move (-1) 0) sh
         else if key = QDOS_KEY_RIGHT then edit (qdos_editor_move 1 0) sh
         else if key = QDOS_KEY_ENTER then edit qdos_editor_newline sh
         else if key = QDOS_KEY_TAB then edit (qdos_editor_insert tab) sh
         else if key = QDOS_KEY_NEG then edit_insert_word ''neg'' sh
         else if key = QDOS_KEY_BACKSPACE then edit qdos_editor_backspace sh
         else if key = QDOS_KEY_CHAR then (if ev_ch ev \<noteq> nul then edit (qdos_editor_insert (ev_ch ev)) sh else sh)
         else if key = QDOS_KEY_UNDO then
           (if fst (qdos_editor_undo (pg_ed (sh_world sh))) then edit (\<lambda>ed. snd (qdos_editor_undo ed)) sh
            else set_message ''NOTHING TO UNDO'' False sh)
         else if key = QDOS_KEY_CHECK then check_program ho sh
         else if key = QDOS_KEY_RUN then edit_run ho sh
         else if key = QDOS_KEY_SAVE then
           (let (ok, sh1) = edit_save ho sh
            in if ok then set_message (''SAVED '' @ [CHR 0x27] @ take 12 (ed_name (pg_ed (sh_world sh1))) @ [CHR 0x27]) False sh1
               else sh1)
         else if key = QDOS_KEY_CLEAR then edit_clear ho sh
         else sh)"

definition handle_edit_key ::
    "('p, 'q, 'd, 'r) host \<Rightarrow> qdos_key_event \<Rightarrow> ('p, 'q, 'd, 'r) desk \<Rightarrow> ('p, 'q, 'd, 'r) desk" where
  "handle_edit_key ho ev sh =
     (let key = ev_key ev;
          sh1 = (if key \<noteq> QDOS_KEY_CLEAR then page (\<lambda>p. p\<lparr>pg_drop_armed := False\<rparr>) sh else sh);
          after_minus = pg_edit_minus (sh_world sh1);
          sh2 = page (\<lambda>p. p\<lparr>pg_edit_minus := False\<rparr>) sh1
      in case (if after_minus then edit_minus_fixup ev sh2 else None) of
           Some sh3 \<Rightarrow> sh3
         | None \<Rightarrow>
             (case function_word key of
                Some word \<Rightarrow> edit_insert_word word sh2
              | None \<Rightarrow>
                  (case map_of EDIT_WORDS key of
                     Some word \<Rightarrow> edit_insert_word word sh2
                   | None \<Rightarrow>
                       if QDOS_KEY_0 \<le> key \<and> key \<le> QDOS_KEY_9 then
                         edit_scroll_into_view (edit (qdos_editor_insert (digit_char (key - QDOS_KEY_0))) sh2)
                       else
                         let sh3 = edit_key ho ev sh2
                         in if sh_mode sh3 = QDOS_MODE_EDIT then edit_scroll_into_view sh3 else sh3)))"

end
