(* ===== verification/Modes.thy ===== *)
theory Modes
  imports EditPage
begin

text \<open>
  The shell as one machine (\<^verbatim>\<open>src/shell/shell.c\<close>): the menus, the pages of settings, of the log and of
  what was printed, and where a key goes from whatever page is up.
\<close>

section \<open>Menus\<close>

text \<open>How many items a menu has.\<close>

definition menu_count :: "('d, 'r) pages \<Rightarrow> nat" where
  "menu_count p =
     (case pg_menu p of
        MENU_ZOOM \<Rightarrow> 10 | MENU_CALC \<Rightarrow> 9 | MENU_GRAPH_TOOLS \<Rightarrow> 5 | MENU_PLOT_TOOLS \<Rightarrow> 6 | MENU_FORMAT \<Rightarrow> 2
      | MENU_STAT_CALC \<Rightarrow> 7 | MENU_STAT_PLOT \<Rightarrow> 4 | MENU_APP \<Rightarrow> length APP_ITEMS | MENU_CUSTOM \<Rightarrow> pg_menu_custom p)"

text \<open>The items that carry a setting, which the arrows change.\<close>

definition has_menu_value :: "('d, 'r) pages \<Rightarrow> bool" where
  "has_menu_value p \<longleftrightarrow> pg_menu p = MENU_FORMAT \<or> pg_menu p = MENU_STAT_PLOT \<and> pg_menu_sel p < 3"

text \<open>The menus of graphs and statistics are the parameter; the others are those of programs and of FORMAT.\<close>

definition menu_act :: "('p, 'q, 'd, 'r) host \<Rightarrow> int \<Rightarrow> ('p, 'q, 'd, 'r) desk \<Rightarrow> ('p, 'q, 'd, 'r) desk" where
  "menu_act ho dir sh =
     (let p = sh_world sh
      in case pg_menu p of
           MENU_FORMAT \<Rightarrow>
             page (\<lambda>p. let st = pg_settings p;
                          st1 = (if pg_menu_sel p = 0 then st\<lparr>st_grid_on := \<not> st_grid_on st\<rparr> else st\<lparr>st_axes_off := \<not> st_axes_off st\<rparr>)
                      in p\<lparr>pg_settings := st1, pg_store := save_settings (ho_hal ho) st1 (pg_store p)\<rparr>) sh
         | MENU_CUSTOM \<Rightarrow>
             (if dir > 0 then (page (\<lambda>p. p\<lparr>pg_menu_pick := pg_menu_sel p + 1\<rparr>) sh)\<lparr>sh_mode := pg_menu_from p\<rparr> else sh)
         | MENU_APP \<Rightarrow>
             (if dir > 0 then
                let (closed, sh1) = app_act ho (APP_ITEMS ! pg_menu_sel p) (sh\<lparr>sh_mode := QDOS_MODE_LIST\<rparr>)
                in if closed then sh1 else sh1\<lparr>sh_mode := QDOS_MODE_MENU\<rparr>
              else sh)
         | _ \<Rightarrow> other_menu_act ho dir sh)"

definition handle_menu_key ::
    "('p, 'q, 'd, 'r) host \<Rightarrow> qdos_key_event \<Rightarrow> ('p, 'q, 'd, 'r) desk \<Rightarrow> ('p, 'q, 'd, 'r) desk" where
  "handle_menu_key ho ev sh =
     (let key = ev_key ev; p = sh_world sh; count = menu_count p
      in if QDOS_KEY_0 \<le> key \<and> key \<le> QDOS_KEY_9 then
           let item = (if key = QDOS_KEY_0 then 9 else key - QDOS_KEY_1)
           in if item < count then menu_act ho 1 (menu_scroll_into_view (page (\<lambda>p. p\<lparr>pg_menu_sel := item\<rparr>) sh)) else sh
         else if key = QDOS_KEY_UP then
           menu_scroll_into_view (page (\<lambda>p. p\<lparr>pg_menu_sel := (pg_menu_sel p + count - 1) mod count, pg_delete_armed := False\<rparr>) sh)
         else if key = QDOS_KEY_DOWN then
           menu_scroll_into_view (page (\<lambda>p. p\<lparr>pg_menu_sel := (pg_menu_sel p + 1) mod count, pg_delete_armed := False\<rparr>) sh)
         else if key = QDOS_KEY_ENTER then menu_act ho 1 sh
         else if key = QDOS_KEY_LEFT \<or> key = QDOS_KEY_RIGHT then
           (if has_menu_value p then menu_act ho (if key = QDOS_KEY_RIGHT then 1 else -1) sh else sh)
         else if key = QDOS_KEY_CLEAR then
           (page (\<lambda>p. p\<lparr>pg_delete_armed := False\<rparr>) sh)\<lparr>sh_mode := pg_menu_from p\<rparr>
         else sh)"

section \<open>Settings\<close>

definition qdos_natives_blocked_count :: "('d, 'r) pages \<Rightarrow> nat" where
  "qdos_natives_blocked_count p =
     (if pg_blocked p = [] then 0 else 1 + length (filter (\<lambda>c. c = CHR '' '') (pg_blocked p)))"

definition qdos_natives_unblock :: "'d hal \<Rightarrow> ('d, 'r) pages \<Rightarrow> ('d, 'r) pages" where
  "qdos_natives_unblock hal p =
     p\<lparr>pg_blocked := [], pg_faulted := [], pg_store := snd (store_write hal ''native.blocked'' [] (pg_store p))\<rparr>"

definition settings_visible :: "('p, 'q, 'd, 'r) host \<Rightarrow> ('d, 'r) pages \<Rightarrow> qdos_setting list" where
  "settings_visible ho p =
     [SETTING_ANGLE, SETTING_DECIMALS, SETTING_NOTATION, SETTING_AUTO_OFF]
     @ (if usb_export ho \<noteq> None then [SETTING_USB] else [])
     @ (if qdos_natives_blocked_count p > 0 then [SETTING_MODULES] else [])
     @ [SETTING_COMPLEX]"

definition setting_count :: "('p, 'q, 'd, 'r) host \<Rightarrow> ('d, 'r) pages \<Rightarrow> nat" where
  "setting_count ho p = length (settings_visible ho p)"

definition setting_at :: "('p, 'q, 'd, 'r) host \<Rightarrow> ('d, 'r) pages \<Rightarrow> nat \<Rightarrow> qdos_setting" where
  "setting_at ho p index =
     (if index < length (settings_visible ho p) then settings_visible ho p ! index else settings_visible ho p ! 0)"

text \<open>The session's interpreter as what stored programs are declared in.\<close>

definition session_interp :: "('p, 'q, 'd, 'r) host \<Rightarrow> ('p, 'q, 'd, 'r) desk interp" where
  "session_interp ho =
     \<lparr>guarded_eval = qdos_guarded_eval (ho_mc ho), last_declared = qd_interp_last_declared (ho_mc ho),
      depth = (\<lambda>sh. length (sh_stack sh)), pop = qd_interp_pop ho\<rparr>"

definition toggle_usb :: "('p, 'q, 'd, 'r) host \<Rightarrow> ('p, 'q, 'd, 'r) desk \<Rightarrow> ('p, 'q, 'd, 'r) desk" where
  "toggle_usb ho sh =
     (case usb_export ho of
        None \<Rightarrow> sh
      | Some export \<Rightarrow>
          let want = (\<not> pg_usb_exported (sh_world sh)); (ok, p) = export want (sh_world sh); sh1 = sh\<lparr>sh_world := p\<rparr>
          in if \<not> ok then set_message ''USB WOULD NOT SWITCH'' True sh1
             else
               let sh2 = page (\<lambda>p. p\<lparr>pg_usb_exported := want\<rparr>) sh1
               in if want then set_message ''PLUG INTO A PC'' False sh2
                  else
                    let (found, sh3) = qdos_programs_restore (ho_hal ho) SCOPE_INBOX (session_interp ho) (pg_store (sh_world sh2)) sh2
                    in set_message (clip (QDOS_COLS + 1) (dec (nat found) @ '' FROM THE CARD'')) False sh3)"

definition setting_step :: "('p, 'q, 'd, 'r) host \<Rightarrow> int \<Rightarrow> ('p, 'q, 'd, 'r) desk \<Rightarrow> ('p, 'q, 'd, 'r) desk" where
  "setting_step ho dir sh =
     (let setting = setting_at ho (sh_world sh) (pg_setting_sel (sh_world sh));
          sh1 = (if setting = SETTING_USB then toggle_usb ho sh
                 else if setting = SETTING_MODULES then
                   set_message ''ON AT NEXT START'' False (page (qdos_natives_unblock (ho_hal ho)) sh)
                 else page (\<lambda>p. p\<lparr>pg_settings := step_setting setting dir (pg_settings p)\<rparr>) sh);
          sh2 = (if setting \<noteq> SETTING_USB \<and> setting \<noteq> SETTING_MODULES
                 then page (\<lambda>p. p\<lparr>pg_store := save_settings (ho_hal ho) (pg_settings p) (pg_store p)\<rparr>) sh1 else sh1)
      in page (\<lambda>p. if setting_count ho p \<le> pg_setting_sel p \<and> 0 < pg_setting_sel p
                   then p\<lparr>pg_setting_sel := setting_count ho p - 1\<rparr> else p) sh2)"

definition handle_settings_key ::
    "('p, 'q, 'd, 'r) host \<Rightarrow> qdos_key_event \<Rightarrow> ('p, 'q, 'd, 'r) desk \<Rightarrow> ('p, 'q, 'd, 'r) desk" where
  "handle_settings_key ho ev sh =
     (let key = ev_key ev; p = sh_world sh
      in if key = QDOS_KEY_UP then
           (if 0 < pg_setting_sel p then page (\<lambda>p. p\<lparr>pg_setting_sel := pg_setting_sel p - 1\<rparr>) sh else sh)
         else if key = QDOS_KEY_DOWN then
           (if pg_setting_sel p + 1 < setting_count ho p then page (\<lambda>p. p\<lparr>pg_setting_sel := pg_setting_sel p + 1\<rparr>) sh else sh)
         else if key = QDOS_KEY_RIGHT then setting_step ho 1 sh
         else if key = QDOS_KEY_LEFT then setting_step ho (-1) sh
         else if QDOS_KEY_0 \<le> key \<and> key \<le> QDOS_KEY_9 then
           (if setting_at ho p (pg_setting_sel p) = SETTING_DECIMALS then
              page (\<lambda>p. let st = (pg_settings p)\<lparr>st_decimals := int (key - QDOS_KEY_0)\<rparr>
                        in p\<lparr>pg_settings := st, pg_store := save_settings (ho_hal ho) st (pg_store p)\<rparr>) sh
            else sh)
         else if key = QDOS_KEY_ENTER \<or> key = QDOS_KEY_CLEAR then sh\<lparr>sh_mode := pg_page_from p\<rparr>
         else sh)"

section \<open>The log, and what was printed\<close>

definition handle_debug_key :: "qdos_key_event \<Rightarrow> ('p, 'q, 'd, 'r) desk \<Rightarrow> ('p, 'q, 'd, 'r) desk" where
  "handle_debug_key ev sh =
     (let key = ev_key ev; held = log_held sh; bottom = (if held > LIST_ROWS then held - LIST_ROWS else 0)
      in if key = QDOS_KEY_UP then page (\<lambda>p. if 0 < pg_log_top p then p\<lparr>pg_log_top := pg_log_top p - 1\<rparr> else p) sh
         else if key = QDOS_KEY_DOWN then
           page (\<lambda>p. if pg_log_top p < bottom then p\<lparr>pg_log_top := pg_log_top p + 1\<rparr> else p) sh
         else if key = QDOS_KEY_BACKSPACE then (page (\<lambda>p. p\<lparr>pg_log_top := 0\<rparr>) sh)\<lparr>sh_log_count := 0\<rparr>
         else if key = QDOS_KEY_CLEAR then sh\<lparr>sh_mode := pg_page_from (sh_world sh)\<rparr>
         else sh)"

text \<open>A line of the last output; \<open>None\<close> once the ring has moved past it.\<close>

definition output_line :: "('p, 'q, 'w) shell \<Rightarrow> nat \<Rightarrow> cstring option" where
  "output_line sh i =
     (let oldest = sh_log_count sh - log_held sh; line = sh_output_first sh + i
      in if oldest \<le> line \<and> i < sh_output_count sh then log_at sh (line - oldest) else None)"

definition handle_output_key :: "qdos_key_event \<Rightarrow> ('p, 'q, 'w) shell \<Rightarrow> ('p, 'q, 'w) shell" where
  "handle_output_key ev sh =
     (let key = ev_key ev; bottom = (if sh_output_count sh > LIST_ROWS then sh_output_count sh - LIST_ROWS else 0)
      in if key = QDOS_KEY_UP then sh\<lparr>sh_output_top := (if sh_output_top sh > 0 then sh_output_top sh - 1 else 0)\<rparr>
         else if key = QDOS_KEY_DOWN then
           sh\<lparr>sh_output_top := (if sh_output_top sh < bottom then sh_output_top sh + 1 else bottom)\<rparr>
         else if key = QDOS_KEY_CLEAR \<or> key = QDOS_KEY_ENTER then sh\<lparr>sh_mode := sh_output_from sh\<rparr>
         else sh)"

section \<open>Where a key goes\<close>

text \<open>The page that is up.\<close>

definition page_key :: "('p, 'q, 'd, 'r) host \<Rightarrow> qdos_key_event \<Rightarrow> ('p, 'q, 'd, 'r) desk \<Rightarrow> ('p, 'q, 'd, 'r) desk" where
  "page_key ho ev sh =
     (case sh_mode sh of
        QDOS_MODE_SETTINGS \<Rightarrow> handle_settings_key ho ev sh
      | QDOS_MODE_DEBUG \<Rightarrow> handle_debug_key ev sh
      | QDOS_MODE_ABOUT \<Rightarrow>
          (if ev_key ev = QDOS_KEY_CLEAR \<or> ev_key ev = QDOS_KEY_ENTER \<or> ev_key ev = QDOS_KEY_ABOUT
           then sh\<lparr>sh_mode := pg_about_from (sh_world sh)\<rparr> else sh)
      | QDOS_MODE_EDIT \<Rightarrow> handle_edit_key ho ev sh
      | QDOS_MODE_MENU \<Rightarrow> handle_menu_key ho ev sh
      | QDOS_MODE_OUTPUT \<Rightarrow> handle_output_key ev sh
      | QDOS_MODE_LIST \<Rightarrow> handle_list_key ho ev sh
      | QDOS_MODE_LINE \<Rightarrow> handle_line_key (ho_mc ho) ev sh
      | QDOS_MODE_CALC \<Rightarrow> handle_calc_key (ho_mc ho) ev sh
      | _ \<Rightarrow> other_page_key ho ev sh)"

text \<open>The pages that have GRAPH as a key of their own.\<close>

definition draws :: "qdos_mode \<Rightarrow> bool" where
  "draws m \<longleftrightarrow> m = QDOS_MODE_PLOT \<or> m = QDOS_MODE_WINDOW \<or> m = QDOS_MODE_TABLE \<or> m = QDOS_MODE_STAT"

definition open_debug :: "('p, 'q, 'd, 'r) desk \<Rightarrow> ('p, 'q, 'd, 'r) desk" where
  "open_debug sh =
     (let held = log_held sh
      in set_message [] False
           ((page (\<lambda>p. p\<lparr>pg_page_from := (if sh_mode sh = QDOS_MODE_SETTINGS then pg_page_from p else sh_mode sh),
                       pg_log_top := (if held > LIST_ROWS then held - LIST_ROWS else 0)\<rparr>) sh)\<lparr>sh_mode := QDOS_MODE_DEBUG\<rparr>))"

definition open_settings :: "('p, 'q, 'd, 'r) desk \<Rightarrow> ('p, 'q, 'd, 'r) desk" where
  "open_settings sh =
     set_message [] False
       ((page (\<lambda>p. p\<lparr>pg_page_from := (if sh_mode sh = QDOS_MODE_DEBUG then pg_page_from p else sh_mode sh)\<rparr>) sh)
          \<lparr>sh_mode := QDOS_MODE_SETTINGS\<rparr>)"

definition handle_mode_key ::
    "('p, 'q, 'd, 'r) host \<Rightarrow> qdos_key_event \<Rightarrow> ('p, 'q, 'd, 'r) desk \<Rightarrow> ('p, 'q, 'd, 'r) desk" where
  "handle_mode_key ho ev sh =
     (let key = ev_key ev; m = sh_mode sh;
          sh1 = (if m \<noteq> QDOS_MODE_CALC then sh\<lparr>sh_register_wait := REGISTER_IDLE\<rparr> else sh);
          sh2 = (if m \<noteq> QDOS_MODE_CALC \<or> sh_field sh \<noteq> FIELD_NONE \<or>
                    key \<noteq> QDOS_KEY_UP \<and> key \<noteq> QDOS_KEY_DOWN \<and> key \<noteq> QDOS_KEY_ENTER \<and> key \<noteq> QDOS_KEY_BACKSPACE \<and> key \<noteq> QDOS_KEY_DROP
                 then sh1\<lparr>sh_stack_sel := 0\<rparr> else sh1)
      in if sh_field sh \<noteq> FIELD_NONE \<and> key \<noteq> QDOS_KEY_POWER then field_key ho ev sh2
         else if key = QDOS_KEY_LIST \<and> m \<noteq> QDOS_MODE_LIST then list_open ho sh2
         else if key = QDOS_KEY_CATALOG \<and> m \<noteq> QDOS_MODE_LIST then catalog_open ho sh2
         else if key = QDOS_KEY_POWER then page (\<lambda>p. p\<lparr>pg_powering_off := True\<rparr>) sh2
         else if key = QDOS_KEY_GRAPH \<and> \<not> draws m then plot_open ho sh2
         else if key = QDOS_KEY_SETTINGS \<and> m \<noteq> QDOS_MODE_SETTINGS then open_settings sh2
         else if key = QDOS_KEY_DEBUG \<and> m \<noteq> QDOS_MODE_DEBUG then open_debug sh2
         else if key = QDOS_KEY_ABOUT \<and> m \<noteq> QDOS_MODE_ABOUT then
           set_message [] False ((page (\<lambda>p. p\<lparr>pg_about_from := m\<rparr>) sh2)\<lparr>sh_mode := QDOS_MODE_ABOUT\<rparr>)
         else page_key ho ev sh2)"

definition qdos_natives_rearm :: "('d, 'r) pages \<Rightarrow> ('d, 'r) pages" where
  "qdos_natives_rearm p = p\<lparr>pg_called := False, pg_break := False\<rparr>"

definition handle_key :: "('p, 'q, 'd, 'r) host \<Rightarrow> qdos_key_event \<Rightarrow> ('p, 'q, 'd, 'r) desk \<Rightarrow> ('p, 'q, 'd, 'r) desk" where
  "handle_key ho ev sh =
     (let sh1 = (if sh_mode sh = QDOS_MODE_CALC \<and> ev_key ev = QDOS_KEY_CHAR \<and> ev_ch ev = CHR '' '' then sh
                 else sh\<lparr>sh_message := [], sh_message_is_error := False\<rparr>);
          sh2 = page qdos_natives_rearm sh1
      in case expand_soft ev sh2 of
           Some expanded \<Rightarrow> handle_mode_key ho expanded sh2
         | None \<Rightarrow> handle_mode_key ho ev sh2)"

end
