(* ===== verification/Desk.thy ===== *)
theory Desk
  imports Modes
begin

text \<open>
  The pages in order: the selection of each on a row that is there and on screen, the line the cursor is on
  inside the editor's pane, every text in its buffer and every setting in its range. Each operation of each page keeps them
  so, and with them every key, whatever page is up.
\<close>

section \<open>In order\<close>

definition in_window :: "nat \<Rightarrow> nat \<Rightarrow> nat \<Rightarrow> bool" where
  "in_window rows sel first \<longleftrightarrow> first \<le> sel \<and> sel < first + rows"

definition list_ok :: "('d, 'r) pages \<Rightarrow> bool" where
  "list_ok p \<longleftrightarrow>
     (if list_count p = 0 then pg_list_sel p = 0 else pg_list_sel p < list_count p) \<and>
     in_window LIST_ROWS (pg_list_sel p) (pg_list_top p) \<and> length (pg_list_find p) < QDOS_WORDLIST_NAME"

definition edit_ok :: "('d, 'r) pages \<Rightarrow> bool" where
  "edit_ok p \<longleftrightarrow> editor_inv (pg_ed p) \<and> in_window EDIT_ROWS (fst (qdos_editor_where (pg_ed p))) (pg_ed_top p)"

definition menu_ok :: "('d, 'r) pages \<Rightarrow> bool" where
  "menu_ok p \<longleftrightarrow> pg_menu_sel p < menu_count p \<and> in_window LIST_ROWS (pg_menu_sel p) (pg_menu_top p)"

definition setup_ok :: "('p, 'q, 'd, 'r) host \<Rightarrow> ('d, 'r) pages \<Rightarrow> bool" where
  "setup_ok ho p \<longleftrightarrow> settings_ok (pg_settings p) \<and> pg_setting_sel p < setting_count ho p"

definition field_ok :: "('d, 'r) pages \<Rightarrow> bool" where
  "field_ok p \<longleftrightarrow>
     length (pg_field_text p) < ENTRY_MAX \<and> length (pg_field_prompt p) < 24 \<and> length (pg_name_from p) < QDOS_PROGRAM_NAME_MAX \<and>
     length (pg_app_word p) \<le> QDOS_APPS_MAX"

definition pages_ok :: "('p, 'q, 'd, 'r) host \<Rightarrow> ('d, 'r) pages \<Rightarrow> bool" where
  "pages_ok ho p \<longleftrightarrow> list_ok p \<and> edit_ok p \<and> menu_ok p \<and> setup_ok ho p \<and> field_ok p"

abbreviation (input) desk_ok :: "('p, 'q, 'd, 'r) host \<Rightarrow> ('p, 'q, 'd, 'r) desk \<Rightarrow> bool" where
  "desk_ok ho \<equiv> on_world (pages_ok ho)"

text \<open>
  What is relied on of the machine around: a word evaluated, or a page not modelled here, that has opened or changed
  a page has left it in order; and a program compiled alone opens no page.
\<close>

definition keeps_desk ::
    "('p, 'q, 'd, 'r) host \<Rightarrow> (('p, 'q, 'd, 'r) desk \<Rightarrow> ('p, 'q, 'd, 'r) desk) \<Rightarrow> bool" where
  "keeps_desk ho f \<longleftrightarrow> (\<forall>sh. desk_ok ho sh \<longrightarrow> desk_ok ho (f sh))"

definition keeps_mode :: "(('p, 'q, 'd, 'r) desk \<Rightarrow> ('p, 'q, 'd, 'r) desk) \<Rightarrow> bool" where
  "keeps_mode f \<longleftrightarrow> (\<forall>sh. sh_mode (f sh) = sh_mode sh)"

definition alone_ok :: "('p, 'q, 'd, 'r) host \<Rightarrow> (('p, 'q, 'd, 'r) desk \<Rightarrow> ('p, 'q, 'd, 'r) desk) \<Rightarrow> bool" where
  "alone_ok ho f \<longleftrightarrow> keeps_desk ho f \<and> keeps_mode f"

definition host_ok :: "('p, 'q, 'd, 'r) host \<Rightarrow> bool" where
  "host_ok ho \<longleftrightarrow>
     keeps_world (ho_mc ho) (pages_ok ho) \<and>
     (\<forall>name. keeps_desk ho (qd_interp_undeclare ho name)) \<and> (\<forall>name. keeps_desk ho (qd_interp_register ho name)) \<and>
     (\<forall>sh sh'. qd_interp_pop ho sh = Some sh' \<longrightarrow> desk_ok ho sh \<longrightarrow> desk_ok ho sh') \<and>
     keeps_world (ho_alone ho) (pages_ok ho) \<and>
     (\<forall>source. keeps_mode (\<lambda>sh. snd (snd (qd_interp_eval (ho_alone ho) source sh)))) \<and>
     (\<forall>sh sh'. bare_interp ho sh = Some sh' \<longrightarrow> sh_mode sh' = sh_mode sh \<and> (desk_ok ho sh \<longrightarrow> desk_ok ho sh')) \<and>
     alone_ok ho (qd_interp_destroy ho) \<and> (\<forall>name. alone_ok ho (alone_register ho name)) \<and>
     (\<forall>sh sh'. alone_pop ho sh = Some sh' \<longrightarrow> sh_mode sh' = sh_mode sh \<and> (desk_ok ho sh \<longrightarrow> desk_ok ho sh')) \<and>
     keeps_desk ho (number_field ho) \<and> keeps_desk ho (plot_open ho) \<and>
     (\<forall>ev. keeps_desk ho (other_page_key ho ev)) \<and> (\<forall>dir. keeps_desk ho (other_menu_act ho dir)) \<and>
     (\<forall>export on p. usb_export ho = Some export \<longrightarrow> pages_ok ho p \<longrightarrow> pages_ok ho (snd (export on p)))"

section \<open>One part at a time\<close>

lemma scrolled [simp]: "0 < rows \<Longrightarrow> in_window rows sel (scroll_into_view rows sel first)"
  by (auto simp: in_window_def scroll_into_view_def)

lemma counts:
  "list_count (p\<lparr>pg_store := d\<rparr>) = list_count p" "list_count (p\<lparr>pg_list_sel := n\<rparr>) = list_count p"
  "list_count (p\<lparr>pg_list_top := n\<rparr>) = list_count p" "list_count (p\<lparr>pg_list_find := s\<rparr>) = list_count p"
  by (simp_all add: list_count_def module_count_def loose_modules_def)

lemmas page_defs = list_ok_def edit_ok_def menu_ok_def setup_ok_def field_ok_def list_count_def module_count_def
  loose_modules_def menu_count_def setting_count_def settings_visible_def qdos_natives_blocked_count_def

text \<open>An update of a page is kept when each part of the order it touches is.\<close>

lemma on_page: "on_world W (page f sh) = W (f (sh_world sh))"
  by (simp add: on_world_def)

lemma pages_okI:
  assumes "pages_ok ho p"
    and "list_ok p \<Longrightarrow> list_ok q" "edit_ok p \<Longrightarrow> edit_ok q" "menu_ok p \<Longrightarrow> menu_ok q" "setup_ok ho p \<Longrightarrow> setup_ok ho q" "field_ok p \<Longrightarrow> field_ok q"
  shows "pages_ok ho q"
  using assms by (simp add: pages_ok_def)

lemma pages_okD: "pages_ok ho p \<Longrightarrow> list_ok p" "pages_ok ho p \<Longrightarrow> edit_ok p" "pages_ok ho p \<Longrightarrow> menu_ok p"
  "pages_ok ho p \<Longrightarrow> setup_ok ho p" "pages_ok ho p \<Longrightarrow> field_ok p"
  by (simp_all add: pages_ok_def)

text \<open>Fields no part of the order looks at.\<close>

lemma idle_fields [simp]:
  "pages_ok ho (p\<lparr>pg_store := d\<rparr>) = pages_ok ho p" "pages_ok ho (p\<lparr>pg_rest := r\<rparr>) = pages_ok ho p"
  "pages_ok ho (p\<lparr>pg_usb_exported := b\<rparr>) = pages_ok ho p" "pages_ok ho (p\<lparr>pg_faulted := s\<rparr>) = pages_ok ho p"
  "pages_ok ho (p\<lparr>pg_called := b\<rparr>) = pages_ok ho p" "pages_ok ho (p\<lparr>pg_break := b\<rparr>) = pages_ok ho p"
  "pages_ok ho (p\<lparr>pg_list_user := n\<rparr>) = pages_ok ho p" "pages_ok ho (p\<lparr>pg_list_from := m\<rparr>) = pages_ok ho p"
  "pages_ok ho (p\<lparr>pg_delete_armed := b\<rparr>) = pages_ok ho p" "pages_ok ho (p\<lparr>pg_edit_from := m\<rparr>) = pages_ok ho p"
  "pages_ok ho (p\<lparr>pg_edit_minus := b\<rparr>) = pages_ok ho p" "pages_ok ho (p\<lparr>pg_drop_armed := b\<rparr>) = pages_ok ho p"
  "pages_ok ho (p\<lparr>pg_field_mode := m\<rparr>) = pages_ok ho p" "pages_ok ho (p\<lparr>pg_field_fresh := b\<rparr>) = pages_ok ho p"
  "pages_ok ho (p\<lparr>pg_ask_done := b\<rparr>) = pages_ok ho p" "pages_ok ho (p\<lparr>pg_name_for := w\<rparr>) = pages_ok ho p"
  "pages_ok ho (p\<lparr>pg_menu_from := m\<rparr>) = pages_ok ho p" "pages_ok ho (p\<lparr>pg_menu_pick := n\<rparr>) = pages_ok ho p"
  "pages_ok ho (p\<lparr>pg_about_from := m\<rparr>) = pages_ok ho p" "pages_ok ho (p\<lparr>pg_page_from := m\<rparr>) = pages_ok ho p"
  "pages_ok ho (p\<lparr>pg_log_top := n\<rparr>) = pages_ok ho p" "pages_ok ho (p\<lparr>pg_powering_off := b\<rparr>) = pages_ok ho p"
  by (simp_all add: pages_ok_def page_defs split del: if_split cong: menu_id.case_cong if_cong)

lemma idle_desk [simp]:
  "desk_ok ho (page (\<lambda>p. p\<lparr>pg_store := x1 p\<rparr>) sh) = desk_ok ho sh" "desk_ok ho (page (\<lambda>p. p\<lparr>pg_rest := x2 p\<rparr>) sh) = desk_ok ho sh"
  "desk_ok ho (page (\<lambda>p. p\<lparr>pg_usb_exported := x3 p\<rparr>) sh) = desk_ok ho sh" "desk_ok ho (page (\<lambda>p. p\<lparr>pg_faulted := x4 p\<rparr>) sh) = desk_ok ho sh"
  "desk_ok ho (page (\<lambda>p. p\<lparr>pg_called := x5 p\<rparr>) sh) = desk_ok ho sh" "desk_ok ho (page (\<lambda>p. p\<lparr>pg_break := x6 p\<rparr>) sh) = desk_ok ho sh"
  "desk_ok ho (page (\<lambda>p. p\<lparr>pg_list_user := x7 p\<rparr>) sh) = desk_ok ho sh" "desk_ok ho (page (\<lambda>p. p\<lparr>pg_list_from := x8 p\<rparr>) sh) = desk_ok ho sh"
  "desk_ok ho (page (\<lambda>p. p\<lparr>pg_delete_armed := x9 p\<rparr>) sh) = desk_ok ho sh" "desk_ok ho (page (\<lambda>p. p\<lparr>pg_edit_from := x10 p\<rparr>) sh) = desk_ok ho sh"
  "desk_ok ho (page (\<lambda>p. p\<lparr>pg_edit_minus := x11 p\<rparr>) sh) = desk_ok ho sh" "desk_ok ho (page (\<lambda>p. p\<lparr>pg_drop_armed := x12 p\<rparr>) sh) = desk_ok ho sh"
  "desk_ok ho (page (\<lambda>p. p\<lparr>pg_field_mode := x13 p\<rparr>) sh) = desk_ok ho sh" "desk_ok ho (page (\<lambda>p. p\<lparr>pg_field_fresh := x14 p\<rparr>) sh) = desk_ok ho sh"
  "desk_ok ho (page (\<lambda>p. p\<lparr>pg_ask_done := x15 p\<rparr>) sh) = desk_ok ho sh" "desk_ok ho (page (\<lambda>p. p\<lparr>pg_name_for := x16 p\<rparr>) sh) = desk_ok ho sh"
  "desk_ok ho (page (\<lambda>p. p\<lparr>pg_menu_from := x17 p\<rparr>) sh) = desk_ok ho sh" "desk_ok ho (page (\<lambda>p. p\<lparr>pg_menu_pick := x18 p\<rparr>) sh) = desk_ok ho sh"
  "desk_ok ho (page (\<lambda>p. p\<lparr>pg_about_from := x19 p\<rparr>) sh) = desk_ok ho sh" "desk_ok ho (page (\<lambda>p. p\<lparr>pg_page_from := x20 p\<rparr>) sh) = desk_ok ho sh"
  "desk_ok ho (page (\<lambda>p. p\<lparr>pg_log_top := x21 p\<rparr>) sh) = desk_ok ho sh" "desk_ok ho (page (\<lambda>p. p\<lparr>pg_powering_off := x22 p\<rparr>) sh) = desk_ok ho sh"
  by (simp_all add: on_world_def)

lemma field_fields:
  "pages_ok ho p \<Longrightarrow> length s < ENTRY_MAX \<Longrightarrow> pages_ok ho (p\<lparr>pg_field_text := s\<rparr>)"
  "pages_ok ho p \<Longrightarrow> length s < 24 \<Longrightarrow> pages_ok ho (p\<lparr>pg_field_prompt := s\<rparr>)"
  "pages_ok ho p \<Longrightarrow> length s < QDOS_PROGRAM_NAME_MAX \<Longrightarrow> pages_ok ho (p\<lparr>pg_name_from := s\<rparr>)"
  "pages_ok ho p \<Longrightarrow> length ws \<le> QDOS_APPS_MAX \<Longrightarrow> pages_ok ho (p\<lparr>pg_app_word := ws\<rparr>)"
  by (simp_all add: pages_ok_def page_defs split del: if_split cong: menu_id.case_cong if_cong)

lemma setup_fields:
  "pages_ok ho p \<Longrightarrow> settings_ok st \<Longrightarrow> pages_ok ho (p\<lparr>pg_settings := st\<rparr>)"
  "pages_ok ho p \<Longrightarrow> n < setting_count ho p \<Longrightarrow> pages_ok ho (p\<lparr>pg_setting_sel := n\<rparr>)"
  by (simp_all add: pages_ok_def page_defs split del: if_split cong: menu_id.case_cong if_cong)

lemma menu_fields:
  "pages_ok ho p \<Longrightarrow> n < menu_count p \<Longrightarrow>
    pages_ok ho (p\<lparr>pg_menu_sel := n, pg_menu_top := scroll_into_view LIST_ROWS n k\<rparr>)"
  "pages_ok ho p \<Longrightarrow> m \<noteq> MENU_CUSTOM \<Longrightarrow> pages_ok ho (p\<lparr>pg_menu := m, pg_menu_sel := 0, pg_menu_top := 0\<rparr>)"
proof -
  show "pages_ok ho (p\<lparr>pg_menu_sel := n, pg_menu_top := scroll_into_view LIST_ROWS n k\<rparr>)"
    if "pages_ok ho p" "n < menu_count p"
    using that by (simp add: pages_ok_def page_defs page_rows split del: if_split cong: menu_id.case_cong if_cong)
  have "0 < menu_count (p\<lparr>pg_menu := m, pg_menu_sel := 0, pg_menu_top := 0\<rparr>)" if "m \<noteq> MENU_CUSTOM"
    using that by (cases m) (simp_all add: menu_count_def APP_ITEMS_def)
  then show "pages_ok ho (p\<lparr>pg_menu := m, pg_menu_sel := 0, pg_menu_top := 0\<rparr>)" if "pages_ok ho p" "m \<noteq> MENU_CUSTOM"
    using that by (simp add: pages_ok_def list_ok_def edit_ok_def menu_ok_def setup_ok_def field_ok_def in_window_def page_rows
        list_count_def module_count_def loose_modules_def setting_count_def settings_visible_def qdos_natives_blocked_count_def
        split del: if_split cong: if_cong)
qed

lemma list_fields:
  "pages_ok ho p \<Longrightarrow> (list_count p = 0 \<Longrightarrow> n = 0) \<Longrightarrow> (list_count p \<noteq> 0 \<Longrightarrow> n < list_count p) \<Longrightarrow>
    pages_ok ho (p\<lparr>pg_list_sel := n, pg_list_top := scroll_into_view LIST_ROWS n k\<rparr>)"
  "pages_ok ho p \<Longrightarrow> length s < QDOS_WORDLIST_NAME \<Longrightarrow> pages_ok ho (p\<lparr>pg_list_find := s\<rparr>)"
proof -
  note defs = pages_ok_def edit_ok_def menu_ok_def setup_ok_def field_ok_def menu_count_def setting_count_def
    settings_visible_def qdos_natives_blocked_count_def
  show "pages_ok ho (p\<lparr>pg_list_sel := n, pg_list_top := scroll_into_view LIST_ROWS n k\<rparr>)"
    if "pages_ok ho p" "list_count p = 0 \<Longrightarrow> n = 0" "list_count p \<noteq> 0 \<Longrightarrow> n < list_count p"
    using that by (simp add: defs list_ok_def counts page_rows split del: if_split cong: menu_id.case_cong if_cong)
  show "pages_ok ho (p\<lparr>pg_list_find := s\<rparr>)" if "pages_ok ho p" "length s < QDOS_WORDLIST_NAME"
    using that by (simp add: defs list_ok_def counts split del: if_split cong: menu_id.case_cong if_cong)
qed

text \<open>The list taken afresh, whatever is in it.\<close>

lemma reloaded:
  assumes "pages_ok ho p" and "pg_list_sel q = 0" and "pg_list_top q = 0" and "pg_list_find q = []"
    and "pg_ed q = pg_ed p" and "pg_ed_top q = pg_ed_top p" and "pg_menu q = pg_menu p" and "pg_menu_sel q = pg_menu_sel p"
    and "pg_menu_top q = pg_menu_top p" and "pg_menu_custom q = pg_menu_custom p" and "pg_settings q = pg_settings p"
    and "pg_setting_sel q = pg_setting_sel p" and "pg_blocked q = pg_blocked p" and "pg_field_text q = pg_field_text p"
    and "pg_field_prompt q = pg_field_prompt p" and "pg_name_from q = pg_name_from p" and "pg_app_word q = pg_app_word p"
  shows "pages_ok ho q"
proof -
  have "list_ok q" using assms(2-4) by (simp add: list_ok_def in_window_def page_rows QDOS_WORDLIST_NAME_def)
  then show ?thesis
    using assms by (simp add: pages_ok_def edit_ok_def menu_ok_def setup_ok_def field_ok_def menu_count_def setting_count_def
        settings_visible_def qdos_natives_blocked_count_def split del: if_split cong: menu_id.case_cong if_cong)
qed

text \<open>In order but for the line the cursor is on, which the scroll after every key puts right.\<close>

definition nearly_ok :: "('p, 'q, 'd, 'r) host \<Rightarrow> ('d, 'r) pages \<Rightarrow> bool" where
  "nearly_ok ho p \<longleftrightarrow> list_ok p \<and> editor_inv (pg_ed p) \<and> menu_ok p \<and> setup_ok ho p \<and> field_ok p"

lemma nearly: "pages_ok ho p \<Longrightarrow> nearly_ok ho p"
  by (simp add: nearly_ok_def pages_ok_def edit_ok_def)

lemma nearly_desk: "desk_ok ho sh \<Longrightarrow> on_world (nearly_ok ho) sh"
  by (simp add: on_world_def nearly)

lemma nearly_fields [simp]:
  "nearly_ok ho (p\<lparr>pg_edit_minus := b\<rparr>) = nearly_ok ho p" "nearly_ok ho (p\<lparr>pg_drop_armed := b\<rparr>) = nearly_ok ho p"
  by (simp_all add: nearly_ok_def page_defs split del: if_split cong: menu_id.case_cong if_cong)

lemma nearly_edit: "nearly_ok ho p \<Longrightarrow> editor_inv ed \<Longrightarrow> nearly_ok ho (p\<lparr>pg_ed := ed\<rparr>)"
  by (simp add: nearly_ok_def page_defs split del: if_split cong: menu_id.case_cong if_cong)

lemma nearly_edited: "on_world (nearly_ok ho) sh \<Longrightarrow> (\<And>ed. editor_inv ed \<Longrightarrow> editor_inv (f ed)) \<Longrightarrow> on_world (nearly_ok ho) (edit f sh)"
  by (simp add: on_world_def nearly_edit) (simp add: nearly_ok_def nearly_edit page_defs split del: if_split cong: menu_id.case_cong if_cong)

lemma scrolled_page: "on_world (nearly_ok ho) sh \<Longrightarrow> desk_ok ho (edit_scroll_into_view sh)"
  by (simp add: edit_scroll_into_view_def on_world_def nearly_ok_def pages_ok_def page_defs page_rows split del: if_split cong: menu_id.case_cong if_cong)

lemma opened_editor:
  "pages_ok ho p \<Longrightarrow> editor_inv ed \<Longrightarrow> nearly_ok ho (p\<lparr>pg_ed := ed, pg_ed_top := k\<rparr>)"
  by (simp add: nearly_ok_def pages_ok_def page_defs split del: if_split cong: menu_id.case_cong if_cong)

section \<open>The operations of every page\<close>

lemma desk_eval [kept]:
  "host_ok ho \<Longrightarrow> desk_ok ho sh \<Longrightarrow> desk_ok ho (snd (qdos_guarded_eval (ho_mc ho) source sh))"
  "host_ok ho \<Longrightarrow> desk_ok ho sh \<Longrightarrow> desk_ok ho (snd (qdos_guarded_eval (ho_alone ho) source sh))"
  by (simp_all add: host_ok_def kept_eval)

lemma host_okD:
  assumes "host_ok ho"
  shows "keeps_world (ho_mc ho) (pages_ok ho)"
    "desk_ok ho sh \<Longrightarrow> desk_ok ho (qd_interp_undeclare ho name sh)" "desk_ok ho sh \<Longrightarrow> desk_ok ho (qd_interp_register ho name sh)"
    "desk_ok ho sh \<Longrightarrow> desk_ok ho (alone_register ho name sh)" "desk_ok ho sh \<Longrightarrow> desk_ok ho (qd_interp_destroy ho sh)"
    "desk_ok ho sh \<Longrightarrow> desk_ok ho (number_field ho sh)" "desk_ok ho sh \<Longrightarrow> desk_ok ho (plot_open ho sh)"
    "desk_ok ho sh \<Longrightarrow> desk_ok ho (other_page_key ho ev sh)" "desk_ok ho sh \<Longrightarrow> desk_ok ho (other_menu_act ho dir sh)"
  using assms by (simp_all add: host_ok_def alone_ok_def keeps_desk_def)

lemma host_ok_Some:
  assumes "host_ok ho" and "desk_ok ho sh"
  shows "bare_interp ho sh = Some sh' \<Longrightarrow> desk_ok ho sh'" "qd_interp_pop ho sh = Some sh' \<Longrightarrow> desk_ok ho sh'"
    "alone_pop ho sh = Some sh' \<Longrightarrow> desk_ok ho sh'"
  using assms by (simp_all add: host_ok_def)

lemma host_ok_usb: "host_ok ho \<Longrightarrow> usb_export ho = Some export \<Longrightarrow> pages_ok ho p \<Longrightarrow> pages_ok ho (snd (export on p))"
  by (simp add: host_ok_def)

lemma message_world [simp]: "sh_world (set_message s b sh) = sh_world sh" "sh_mode (set_message s b sh) = sh_mode sh"
  "sh_field (set_message s b sh) = sh_field sh"
  using message_frame [of s b sh] by auto

lemma deskD: "desk_ok ho sh \<Longrightarrow> pages_ok ho (sh_world sh)"
  by (simp add: on_world_def)

lemma desk_scroll: "desk_ok ho sh \<Longrightarrow> desk_ok ho (edit_scroll_into_view sh)"
  by (rule scrolled_page [OF nearly_desk])

lemma desk_field_open: "desk_ok ho sh \<Longrightarrow> desk_ok ho (field_open target prompt initial sh)"
  by (simp add: field_open_def on_world_def field_fields clip_def ENTRY_MAX_def min_def)

lemma desk_field_append: "desk_ok ho sh \<Longrightarrow> desk_ok ho (field_append s sh)"
  by (auto simp: field_append_def on_world_def intro: field_fields)

lemma desk_field_negate: "desk_ok ho sh \<Longrightarrow> desk_ok ho (field_negate sh)"
  using pages_okD(5) [of ho "sh_world sh"]
  by (auto simp: field_negate_def on_world_def Let_def field_ok_def intro!: field_fields)

lemma desk_run_word: "host_ok ho \<Longrightarrow> desk_ok ho sh \<Longrightarrow> desk_ok ho (run_word (ho_mc ho) name sh)"
  unfolding run_word_def by (intro kept | simp)+

lemma desk_edit_open: "desk_ok ho sh \<Longrightarrow> desk_ok ho (edit_open name source sh)"
  unfolding edit_open_def Let_def kept_message
  by (rule scrolled_page) (simp add: on_world_def opened_editor inv_open)

lemma desk_menu_open: "desk_ok ho sh \<Longrightarrow> m \<noteq> MENU_CUSTOM \<Longrightarrow> desk_ok ho (menu_open m sh)"
  by (simp add: menu_open_def Let_def) (simp add: on_world_def menu_fields)

lemma desk_register:
  assumes "\<And>name sh. desk_ok ho sh \<Longrightarrow> desk_ok ho (reg name sh)" and "desk_ok ho sh"
  shows "desk_ok ho (register_found reg es sh)"
  using assms(2)
proof (induction es arbitrary: sh)
  case (Cons e es)
  have put: "desk_ok ho (page (\<lambda>p. p\<lparr>pg_app_word := pg_app_word p @ [w]\<rparr>) sh)"
    if "\<not> QDOS_APPS_MAX \<le> length (pg_app_word (sh_world sh))" for w
    using that Cons.prems by (simp add: on_world_def field_fields)
  have "desk_ok ho (reg w (page (\<lambda>p. p\<lparr>pg_app_word := pg_app_word p @ [w]\<rparr>) sh))"
    if "\<not> QDOS_APPS_MAX \<le> length (pg_app_word (sh_world sh))" for w
    by (rule assms(1) [OF put [OF that]])
  moreover have "desk_ok ho (reg (e_name e) sh)" by (rule assms(1) [OF Cons.prems])
  ultimately show ?case using Cons by simp
qed simp

lemma desk_list_load:
  assumes "desk_ok ho sh"
  shows "desk_ok ho (list_load ho (page (\<lambda>p. p\<lparr>pg_list_all := a p\<rparr>) sh))" "desk_ok ho (list_load ho sh)"
proof -
  show "desk_ok ho (list_load ho (page (\<lambda>p. p\<lparr>pg_list_all := a p\<rparr>) sh))"
    unfolding on_world_def by (rule reloaded [OF deskD [OF assms]]) (simp_all add: list_load_def list_user_first_def Let_def)
  show "desk_ok ho (list_load ho sh)"
    unfolding on_world_def by (rule reloaded [OF deskD [OF assms]]) (simp_all add: list_load_def list_user_first_def Let_def)
qed

end
