(* ===== verification/Bench.thy ===== *)
theory Bench
  imports Desk
begin

text \<open>
  A small calculator for the properties of the pages to be shown at: an interpreter of three words over the disk of the
  device, with two programs of the user's and one that is shipped.
\<close>

definition small_word :: "cstring \<Rightarrow> (unit, bool, disk, 'r) desk \<Rightarrow> outcome \<times> cstring \<times> (unit, bool, disk, 'r) desk" where
  "small_word source sh =
     (if source = ''clear'' then (Returned True, [], sh\<lparr>sh_stack := []\<rparr>)
      else if source = ''bad'' then (Returned False, ''no'', sh\<lparr>sh_stack := sh_stack sh @ [ElPtr ()]\<rparr>)
      else (Returned True, [], sh\<lparr>sh_stack := sh_stack sh @ [ElInt 7]\<rparr>))"

definition small_session :: "(unit, bool, (disk, 'r) pages) machine" where
  "small_session =
     \<lparr>mc_rt = test_runtime, qd_interp_eval = small_word, qd_interp_error = (\<lambda>sh. ''bad: no''),
      qd_interp_last_declared = (\<lambda>sh. None), qd_interp_words = (\<lambda>sh. [''clear'', ''sq'']),
      value_text = (\<lambda>e. ''?''), d128_is_finite = (\<lambda>q. True), strtod_is_finite = (\<lambda>s. True), modifier_reset = None\<rparr>"

definition small_alone :: "(unit, bool, (disk, 'r) pages) machine" where
  "small_alone = small_session\<lparr>qd_interp_eval := (\<lambda>source sh. (Returned (source \<noteq> ''bad''), [], sh))\<rparr>"

definition small_host :: "(unit, bool, disk, 'r) host" where
  "small_host =
     \<lparr>ho_mc = small_session, ho_hal = filestore_hal esp32_dirs 4096, qd_interp_undeclare = (\<lambda>name sh. sh),
      qd_interp_register = (\<lambda>name sh. sh), qd_interp_pop = (\<lambda>sh. if sh_stack sh = [] then None else Some (sh\<lparr>sh_stack := butlast (sh_stack sh)\<rparr>)),
      ho_alone = small_alone, bare_interp = Some, qd_interp_destroy = (\<lambda>sh. sh), alone_register = (\<lambda>name sh. sh),
      alone_depth = (\<lambda>sh. 0), alone_pop = (\<lambda>sh. None), qdos_lint_program = (\<lambda>source sh. None),
      ho_d128 = \<lparr>d128.qd_d128_format = (\<lambda>q. ''0''), qd_d128_parse = (\<lambda>s. None), qd_d128_quantize = (\<lambda>a b. a),
        qd_d128_reduce = (\<lambda>a. a), qd_d128_is_finite = (\<lambda>a. True), qd_d128_is_nan = (\<lambda>a. False), qd_d128_is_zero = (\<lambda>a. True),
        qd_d128_nan = False, qd_d128_to_f64 = (\<lambda>a. 0)\<rparr>,
      ho_libm = \<lparr>f_isfinite = (\<lambda>x. True), f_is_zero = (\<lambda>x. True), f_exponent = (\<lambda>x. 0), f_div_pow10 = (\<lambda>x n. x),
        f_div = (\<lambda>x n. x), f_at_least = (\<lambda>s n. False), f_print = (\<lambda>n x. ''0''), f_print_e = (\<lambda>n x. ''0''), f_of_int = (\<lambda>n. 0)\<rparr>,
      complex_text = (\<lambda>re im cap room. ''0''), number_field = (\<lambda>sh. sh), plot_open = (\<lambda>sh. sh), other_page_key = (\<lambda>ev sh. sh),
      other_menu_act = (\<lambda>dir sh. sh), usb_export = Some (\<lambda>on p. (True, p))\<rparr>"

definition small_pages_on :: "'r \<Rightarrow> (disk, 'r) pages" where
  "small_pages_on r =
     \<lparr>pg_store = shipped_disk, pg_rest = r, pg_settings = boot_settings, pg_setting_sel = 0, pg_usb_exported = False,
      pg_blocked = [], pg_faulted = [], pg_called = False, pg_break = False, pg_natives = [], pg_apps = [], pg_app_word = [],
      pg_list = [], pg_list_all = False, pg_list_user = 0, pg_list_find = [], pg_list_sel = 0, pg_list_top = 0,
      pg_list_from = QDOS_MODE_CALC, pg_delete_armed = False, pg_ed = qdos_editor_open ''sq'' None, pg_ed_top = 0,
      pg_edit_from = QDOS_MODE_CALC, pg_edit_minus = False, pg_drop_armed = False, pg_field_text = [], pg_field_prompt = [],
      pg_field_mode = QDOS_MODE_CALC, pg_field_fresh = False, pg_ask_done = False, pg_name_for = NAME_NEW, pg_name_from = [],
      pg_menu = MENU_ZOOM, pg_menu_sel = 0, pg_menu_top = 0, pg_menu_from = QDOS_MODE_CALC, pg_menu_custom = 0, pg_menu_pick = 0,
      pg_about_from = QDOS_MODE_CALC, pg_page_from = QDOS_MODE_CALC, pg_log_top = 0, pg_powering_off = False\<rparr>"

abbreviation small_pages :: "(disk, unit) pages" where
  "small_pages \<equiv> small_pages_on ()"

lemmas small_pages_def = small_pages_on_def

definition small_desk_on :: "'r \<Rightarrow> (unit, bool, disk, 'r) desk" where
  "small_desk_on r = fresh_shell [] (small_pages_on r)"

abbreviation small_desk :: "(unit, bool, disk, unit) desk" where
  "small_desk \<equiv> small_desk_on ()"

lemmas small_desk_def = small_desk_on_def

lemma small_world: "sh_world (snd (snd (small_word source sh))) = sh_world sh"
  by (simp add: small_word_def)

lemma small_session_keeps: "keeps_world small_session W" "keeps_world small_alone W"
  by (simp_all add: keeps_world_def on_world_def small_session_def small_alone_def small_world)

lemma small_host_ok: "host_ok small_host"
  unfolding host_ok_def
  using small_session_keeps
  by (auto simp: small_host_def keeps_desk_def keeps_mode_def alone_ok_def small_alone_def split: if_splits)

lemma small_desk_ok: "desk_ok small_host (small_desk_on r)"
proof -
  have "qdos_editor_where (qdos_editor_open ''sq'' None) = (1, 1)" by code_simp
  then show ?thesis
    by (simp add: small_desk_def fresh_shell_def on_world_def pages_ok_def list_ok_def edit_ok_def menu_ok_def setup_ok_def field_ok_def
        small_pages_def list_count_def module_count_def loose_modules_def menu_count_def setting_count_def settings_visible_def
        inv_open in_window_def page_rows QDOS_WORDLIST_NAME_def boot_settings_def settings_ok_def setting_ranges
        ENTRY_MAX_def QDOS_PROGRAM_NAME_MAX_def QDOS_APPS_MAX_def)
qed

end
