(* ===== verification/DeskKeys.thy ===== *)
theory DeskKeys
  imports Bench
begin

text \<open>
  Every key of every page keeps the pages in order (Desk): the list of programs and its menus, the field on the
  input row, the program editor, the settings and the log, and the keys that go from one page to another.
\<close>

section \<open>The list of programs\<close>

lemma first_row_Some: "first_row P rows = Some i \<Longrightarrow> i \<in> set rows \<and> P i"
  by (induction rows) (auto split: if_splits)

lemma first_row_None: "first_row P rows = None \<Longrightarrow> i \<in> set rows \<Longrightarrow> \<not> P i"
  by (induction rows) (auto split: if_splits)

text \<open>A row chosen and the window moved to it.\<close>

lemma list_chosen:
  assumes "desk_ok ho sh" and "list_count (sh_world sh) = 0 \<Longrightarrow> n = 0"
    and "list_count (sh_world sh) \<noteq> 0 \<Longrightarrow> n < list_count (sh_world sh)"
  shows "desk_ok ho (list_scroll_into_view (page (\<lambda>p. p\<lparr>pg_list_sel := n\<rparr>) sh))"
    "desk_ok ho (list_scroll_into_view (page (\<lambda>p. p\<lparr>pg_list_sel := n, pg_list_top := k\<rparr>) sh))"
  using assms list_fields(1) [of ho "sh_world sh" n] by (simp_all add: list_scroll_into_view_def on_world_def)

lemma list_stays: "desk_ok ho sh \<Longrightarrow> desk_ok ho (list_scroll_into_view sh)"
  using list_fields(1) [of ho "sh_world sh" "pg_list_sel (sh_world sh)" "pg_list_top (sh_world sh)"]
    pages_okD(1) [of ho "sh_world sh"]
  by (auto simp: list_scroll_into_view_def on_world_def list_ok_def split: if_splits)

lemma list_selected: "desk_ok ho sh \<Longrightarrow> list_count (sh_world sh) \<noteq> 0 \<Longrightarrow> pg_list_sel (sh_world sh) < list_count (sh_world sh)"
  using pages_okD(1) [of ho "sh_world sh"] by (simp add: on_world_def list_ok_def)

lemma desk_list_open: "desk_ok ho sh \<Longrightarrow> desk_ok ho (list_open_scoped ho all sh)"
  using desk_list_load(1) [of ho sh "\<lambda>_. all"] by (simp add: list_open_scoped_def Let_def)

lemma desk_list_refresh: "desk_ok ho sh \<Longrightarrow> desk_ok ho (list_refresh ho name sh)"
  unfolding list_refresh_def Let_def
  by (rule list_chosen(1) [OF desk_list_load(2)])
    (auto split: option.split dest: first_row_Some)

lemma desk_drop: "host_ok ho \<Longrightarrow> desk_ok ho sh \<Longrightarrow> desk_ok ho (program_drop ho name sh)"
  by (auto simp: program_drop_def redeclare_shadowed_def host_okD desk_eval split: option.split)

lemma desk_register_apps: "host_ok ho \<Longrightarrow> desk_ok ho sh \<Longrightarrow> desk_ok ho (register_apps (ho_hal ho) (qd_interp_register ho) sh)"
  "host_ok ho \<Longrightarrow> desk_ok ho sh \<Longrightarrow> desk_ok ho (register_apps (ho_hal ho) (alone_register ho) sh)"
  unfolding register_apps_def by (rule desk_register; simp add: host_okD)+

lemma desk_declare: "host_ok ho \<Longrightarrow> desk_ok ho sh \<Longrightarrow> desk_ok ho (program_declare ho name sh)"
  by (auto simp: program_declare_def desk_register_apps desk_eval split: option.split)

lemma desk_list_run: "host_ok ho \<Longrightarrow> desk_ok ho sh \<Longrightarrow> desk_ok ho (list_run ho name sh)"
  by (auto simp: list_run_def Let_def intro!: desk_run_word kept_commit host_okD(1))

lemma desk_name_ask: "desk_ok ho sh \<Longrightarrow> desk_ok ho (name_ask why prompt initial source sh)"
  unfolding name_ask_def
  by (rule desk_field_open) (auto simp: on_world_def clip_def QDOS_PROGRAM_NAME_MAX_def min_def intro!: field_fields)

lemma desk_name_commit:
  assumes "host_ok ho" and "desk_ok ho sh"
  shows "desk_ok ho (name_commit ho sh)"
  unfolding name_commit_def Let_def
  using assms
  by (auto simp: desk_edit_open desk_list_refresh desk_declare desk_drop split: option.split prod.split)

lemma desk_list_drop: "host_ok ho \<Longrightarrow> desk_ok ho sh \<Longrightarrow> desk_ok ho (snd (list_drop ho sh))"
  by (auto simp: list_drop_def Let_def desk_list_refresh desk_drop split: option.split)

lemma desk_list_edit: "desk_ok ho sh \<Longrightarrow> desk_ok ho (list_edit ho sh)"
  by (auto simp: list_edit_def Let_def desk_edit_open split: option.split)

lemma desk_list_info: "desk_ok ho sh \<Longrightarrow> desk_ok ho (list_info ho name sh)"
  by (auto simp: list_info_def split: option.split)

lemma desk_app_act: "host_ok ho \<Longrightarrow> desk_ok ho sh \<Longrightarrow> desk_ok ho (snd (app_act ho action sh))"
  using desk_list_drop [of ho sh]
  by (auto simp: app_act_def Let_def desk_list_run desk_list_edit desk_name_ask desk_list_info
      split: option.split app_action.split prod.split)

lemma desk_find_row: "desk_ok ho sh \<Longrightarrow> desk_ok ho (snd (list_find_row start sh))"
  by (auto simp: list_find_row_def Let_def dest: first_row_Some intro!: list_chosen split: option.split)

lemma desk_list_typed: "desk_ok ho sh \<Longrightarrow> desk_ok ho (list_typed ch sh)"
proof -
  assume ok: "desk_ok ho sh"
  have "desk_ok ho (page (\<lambda>p. p\<lparr>pg_list_find := s\<rparr>) sh1)" if "list_find_row start sh = (f, sh1)" "length s < QDOS_WORDLIST_NAME" for start s f sh1
    using desk_find_row [OF ok, of start] that by (simp add: on_world_def list_fields(2))
  moreover have "desk_ok ho sh1" if "list_find_row start sh = (f, sh1)" for start f sh1
    using desk_find_row [OF ok, of start] that by simp
  ultimately show ?thesis using ok by (auto simp: list_typed_def Let_def split: prod.split)
qed

lemma desk_apply_word: "host_ok ho \<Longrightarrow> desk_ok ho sh \<Longrightarrow> desk_ok ho (apply_word (ho_mc ho) word sh)"
  by (simp add: kept_apply host_okD(1))

lemma desk_list_enter: "host_ok ho \<Longrightarrow> desk_ok ho sh \<Longrightarrow> desk_ok ho (list_enter ho sh)"
  by (auto simp: list_enter_def Let_def desk_list_run desk_apply_word)

lemma desk_list_key:
  assumes "host_ok ho" and "desk_ok ho sh"
  shows "desk_ok ho (list_key ho ev sh)"
proof -
  let ?p = "sh_world sh"
  note chosen = list_chosen(1) [OF assms(2)]
  have "desk_ok ho (list_scroll_into_view (if pg_list_sel ?p > 0 then page (\<lambda>p. p\<lparr>pg_list_sel := pg_list_sel ?p - 1\<rparr>) sh else sh))"
    using chosen [of "pg_list_sel ?p - 1"] list_stays [OF assms(2)] list_selected [OF assms(2)] pages_okD(1) [OF deskD [OF assms(2)]]
    by (auto simp: list_ok_def split: if_splits)
  moreover have "desk_ok ho (list_scroll_into_view
      (if pg_list_sel ?p + 1 < list_count ?p then page (\<lambda>p. p\<lparr>pg_list_sel := pg_list_sel ?p + 1\<rparr>) sh else sh))"
    using chosen [of "pg_list_sel ?p + 1"] list_stays [OF assms(2)] by auto
  moreover have "desk_ok ho (list_scroll_into_view
      (page (\<lambda>p. p\<lparr>pg_list_sel := (if pg_list_sel ?p > LIST_ROWS then pg_list_sel ?p - LIST_ROWS else 0)\<rparr>) sh))"
    using list_selected [OF assms(2)] pages_okD(1) [OF deskD [OF assms(2)]]
    by (intro chosen) (auto simp: list_ok_def split: if_splits)
  moreover have "desk_ok ho (list_scroll_into_view
      (page (\<lambda>p. p\<lparr>pg_list_sel := (if list_count ?p \<le> pg_list_sel ?p + LIST_ROWS
        then (if list_count ?p \<noteq> 0 then list_count ?p - 1 else 0) else pg_list_sel ?p + LIST_ROWS)\<rparr>) sh))"
    by (intro chosen) auto
  ultimately show ?thesis
    unfolding list_key_def Let_def
    by (intro kept_if) (simp_all add: assms desk_list_load desk_list_typed desk_list_enter desk_name_ask desk_menu_open
        desk_list_edit desk_list_drop split del: if_split)
qed

lemma desk_handle_list_key:
  assumes "host_ok ho" and "desk_ok ho sh"
  shows "desk_ok ho (handle_list_key ho ev sh)"
proof -
  have found: "length (pg_list_find (sh_world sh)) < QDOS_WORDLIST_NAME"
    using pages_okD(1) [OF deskD [OF assms(2)]] by (simp add: list_ok_def)
  have shorter: "desk_ok ho (page (\<lambda>p. p\<lparr>pg_list_find := butlast (pg_list_find (sh_world sh))\<rparr>) sh)"
    using assms(2) found by (simp add: on_world_def list_fields(2))
  have emptied: "desk_ok ho (page (\<lambda>p. p\<lparr>pg_list_find := []\<rparr>) sh1)" if "desk_ok ho sh1" for sh1
    using that by (simp add: on_world_def list_fields(2) QDOS_WORDLIST_NAME_def)
  show ?thesis
    unfolding handle_list_key_def Let_def
    by (intro kept_if desk_find_row shorter desk_list_key emptied assms) (simp_all add: assms(2))
qed

section \<open>The field\<close>

lemma desk_field_enter: "host_ok ho \<Longrightarrow> desk_ok ho sh \<Longrightarrow> desk_ok ho (field_enter ho sh)"
  by (simp add: field_enter_def Let_def desk_name_commit host_okD)

lemma desk_field_key:
  assumes "host_ok ho" and "desk_ok ho sh"
  shows "desk_ok ho (field_key ho ev sh)"
proof -
  define sh1 where "sh1 = page (\<lambda>p. p\<lparr>pg_field_fresh := False\<rparr>) sh"
  define sh2 where "sh2 = (if pg_field_fresh (sh_world sh) \<and> ev_key ev \<noteq> QDOS_KEY_ENTER \<and> ev_key ev \<noteq> QDOS_KEY_CLEAR \<and> ev_key ev \<noteq> QDOS_KEY_NEG
    then page (\<lambda>p. p\<lparr>pg_field_text := []\<rparr>) sh1 else sh1)"
  have "desk_ok ho sh1" using assms(2) by (simp add: sh1_def)
  then have ok: "desk_ok ho sh2" by (simp add: sh2_def on_world_def field_fields ENTRY_MAX_def)
  have "pages_ok ho (sh_world sh2\<lparr>pg_field_text := butlast (pg_field_text (sh_world sh2))\<rparr>)"
    using deskD [OF ok] pages_okD(5) [OF deskD [OF ok]] by (intro field_fields) (auto simp: field_ok_def)
  then show ?thesis
    unfolding field_key_def Let_def sh1_def [symmetric] sh2_def [symmetric]
    by (intro kept_if kept_option) (simp_all add: assms(1) ok desk_field_append desk_field_negate desk_field_enter on_page)
qed

section \<open>The program editor\<close>

text \<open>A property kept by what a program is declared with is kept by declaring all of a scope.\<close>

lemma restore_kept:
  assumes "\<And>source i. P i \<Longrightarrow> P (snd (guarded_eval it source i))" and "\<And>i i'. P i \<Longrightarrow> pop it i = Some i' \<Longrightarrow> P i'" and "P i"
  shows "P (snd (qdos_programs_restore hal scope it d i))"
proof -
  have trimmed: "P (trim it before n i)" if "P i" for before n i
    using that assms(2) by (induction n arbitrary: i) (auto split: option.split)
  have one: "P (fst (fst (restore_one hal d it scope entry w)))" if "P (fst w)" for entry w
    using that assms(1) by (simp add: restore_one_def Let_def split_beta split: option.split sum.split)
  have "P (fst (list_visit hal scope None (restore_one hal d it scope) d (i, 0)))"
    using list_visit_inv [where P = "\<lambda>w. P (fst w)" and s = "(i, 0)" and visit = "restore_one hal d it scope"] one assms(3) by simp
  then show ?thesis
    using trimmed assms(3) by (auto simp: qdos_programs_restore_def Let_def split: prod.split)
qed

text \<open>In order, and in the mode it was.\<close>

definition desk_in :: "('p, 'q, 'd, 'r) host \<Rightarrow> qdos_mode \<Rightarrow> ('p, 'q, 'd, 'r) desk \<Rightarrow> bool" where
  "desk_in ho m sh \<longleftrightarrow> desk_ok ho sh \<and> sh_mode sh = m"

lemma alone_mode:
  assumes "host_ok ho"
  shows "sh_mode (snd (qdos_guarded_eval (ho_alone ho) source sh)) = sh_mode sh"
proof -
  have "sh_mode (snd (snd (qd_interp_eval (ho_alone ho) source sh))) = sh_mode sh" for sh
    using assms by (simp add: host_ok_def keeps_mode_def)
  from this [of sh] this [of "sh\<lparr>sh_evaluating := True, sh_printed := []\<rparr>"]
  show ?thesis by (auto simp: qdos_guarded_eval_def Let_def split: prod.split outcome.split)
qed

lemma mode_error [simp]: "sh_mode (snd (qdos_guarded_error mc sh)) = sh_mode sh"
  by (simp add: qdos_guarded_error_def)

lemma desk_in_alone:
  assumes "host_ok ho" and "desk_in ho m sh"
  shows "desk_in ho m (snd (qdos_guarded_eval (ho_alone ho) source sh))" "desk_in ho m (qd_interp_destroy ho sh)"
    "desk_in ho m (alone_register ho name sh)" "alone_pop ho sh = Some sh' \<Longrightarrow> desk_in ho m sh'"
    "bare_interp ho sh = Some sh' \<Longrightarrow> desk_in ho m sh'" "desk_in ho m (set_message s b sh)"
    "desk_in ho m (snd (qdos_guarded_error mc sh))"
proof -
  have in_order: "desk_ok ho sh" and mode: "sh_mode sh = m" using assms(2) by (simp_all add: desk_in_def)
  have modes: "keeps_mode (qd_interp_destroy ho)" "keeps_mode (alone_register ho name)"
    "alone_pop ho sh = Some sh' \<Longrightarrow> sh_mode sh' = sh_mode sh" "bare_interp ho sh = Some sh' \<Longrightarrow> sh_mode sh' = sh_mode sh"
    using assms(1) by (simp_all add: host_ok_def alone_ok_def)
  show "desk_in ho m (snd (qdos_guarded_eval (ho_alone ho) source sh))" "desk_in ho m (qd_interp_destroy ho sh)"
    "desk_in ho m (alone_register ho name sh)"
    using in_order mode modes(1,2) alone_mode [OF assms(1)]
    by (simp_all add: desk_in_def desk_eval(2) [OF assms(1)] host_okD [OF assms(1)] keeps_mode_def)
  show "desk_in ho m sh'" if "alone_pop ho sh = Some sh'"
    using that host_ok_Some(3) [OF assms(1) in_order] mode modes(3) by (simp add: desk_in_def)
  show "desk_in ho m sh'" if "bare_interp ho sh = Some sh'"
    using that host_ok_Some(1) [OF assms(1) in_order] mode modes(4) by (simp add: desk_in_def)
  show "desk_in ho m (set_message s b sh)" "desk_in ho m (snd (qdos_guarded_error mc sh))"
    using in_order mode message_frame [of s b sh] by (auto simp: desk_in_def)
qed

lemma desk_in_register:
  assumes "host_ok ho" and "desk_in ho m sh"
  shows "desk_in ho m (register_found (alone_register ho) es sh)"
  using assms(2)
proof (induction es arbitrary: sh)
  case (Cons e es)
  have "desk_in ho m (page (\<lambda>p. p\<lparr>pg_app_word := pg_app_word p @ [w]\<rparr>) sh)"
    if "\<not> QDOS_APPS_MAX \<le> length (pg_app_word (sh_world sh))" for w
    using that Cons.prems by (simp add: desk_in_def on_world_def field_fields)
  note put = desk_in_alone(3) [OF assms(1) this]
  have "desk_in ho m (alone_register ho (e_name e) sh)" by (rule desk_in_alone(3) [OF assms(1) Cons.prems])
  then show ?case using Cons put by simp
qed simp

lemma desk_in_restore:
  assumes "host_ok ho" and "desk_in ho m sh"
  shows "desk_in ho m (snd (qdos_programs_restore hal scope (alone_interp ho) d sh))"
proof (rule restore_kept [where P = "desk_in ho m"])
  show "desk_in ho m (snd (guarded_eval (alone_interp ho) source i))" if "desk_in ho m i" for source i
    using desk_in_alone(1) [OF assms(1) that] by (simp add: alone_interp_def)
  show "desk_in ho m i'" if "desk_in ho m i" "pop (alone_interp ho) i = Some i'" for i i'
    using desk_in_alone(4) [OF assms(1) that(1)] that(2) by (simp add: alone_interp_def)
qed (rule assms(2))

lemma desk_in_leaves:
  assumes "host_ok ho" and "desk_in ho m sh"
  shows "desk_in ho m (snd (load_leaves ho app cap leaves sh))"
  using assms(2)
proof (induction leaves arbitrary: sh)
  case (Cons leaf leaves)
  show ?case
  proof (cases "qdos_app_file_load (ho_hal ho) app leaf QDOS_PROGRAM_MAX (pg_store (sh_world sh))")
    case (Inl r)
    then show ?thesis using Cons by simp
  next
    case (Inr source)
    obtain ok sh1 where e: "qdos_guarded_eval (ho_alone ho) source sh = (ok, sh1)" by fastforce
    obtain err sh2 where f: "qdos_guarded_error (ho_alone ho) sh1 = (err, sh2)" by fastforce
    have "desk_in ho m sh1" using desk_in_alone(1) [OF assms(1) Cons.prems, of source] by (simp add: e)
    then have "desk_in ho m sh1" "desk_in ho m sh2"
      using desk_in_alone(7) [OF assms(1), of m sh1, where mc = "ho_alone ho"] by (simp_all add: f)
    then show ?thesis using Inr Cons.IH [of sh1] by (simp add: e f)
  qed
qed simp

text \<open>The page of the editor after a key: in order, but that the cursor may have left the pane while the page is still up.\<close>

definition editing :: "('p, 'q, 'd, 'r) host \<Rightarrow> ('p, 'q, 'd, 'r) desk \<Rightarrow> bool" where
  "editing ho sh \<longleftrightarrow> on_world (nearly_ok ho) sh \<and> (sh_mode sh \<noteq> QDOS_MODE_EDIT \<longrightarrow> desk_ok ho sh)"

lemma editing_desk: "desk_ok ho sh \<Longrightarrow> editing ho sh"
  by (simp add: editing_def nearly_desk)

lemma editing_scrolled: "editing ho sh \<Longrightarrow> desk_ok ho (if sh_mode sh = QDOS_MODE_EDIT then edit_scroll_into_view sh else sh)"
  by (simp add: editing_def scrolled_page)

lemma editing_edit:
  "desk_in ho QDOS_MODE_EDIT sh \<Longrightarrow> (\<And>ed. editor_inv ed \<Longrightarrow> editor_inv (f ed)) \<Longrightarrow> editing ho (edit f sh)"
  by (simp add: editing_def desk_in_def nearly_desk nearly_edited)

lemma inv_word: "editor_inv ed \<Longrightarrow> editor_inv (insert_word word ed)"
proof -
  assume ed: "editor_inv ed"
  have typed: "editor_inv (fold qdos_editor_insert cs ed)" if "editor_inv ed" for cs ed
    using that by (induction cs arbitrary: ed) (auto intro: inv_insert)
  show ?thesis using ed by (auto simp: insert_word_def Let_def intro!: inv_insert inv_move typed)
qed

lemma desk_edit_word: "desk_ok ho sh \<Longrightarrow> desk_ok ho (edit_insert_word word sh)"
  unfolding edit_insert_word_def by (intro scrolled_page nearly_edited nearly_desk inv_word)

lemma editing_operator: "desk_in ho QDOS_MODE_EDIT sh \<Longrightarrow> editing ho (edit_operator ev symbol word sh)"
  using desk_edit_word [of ho sh word] editing_edit [of ho sh "qdos_editor_insert symbol"]
  by (auto simp: edit_operator_def Let_def desk_in_def inv_insert intro!: editing_desk)

lemma desk_fixup:
  assumes "desk_ok ho sh" and "edit_minus_fixup ev sh = Some sh'"
  shows "desk_ok ho sh'"
proof -
  have backs: "editor_inv ((qdos_editor_backspace ^^ n) ed)" if "editor_inv ed" for n ed
    using that by (induction n) (auto intro: inv_backspace)
  have "desk_ok ho (edit_scroll_into_view (edit (\<lambda>ed. qdos_editor_insert c
      (qdos_editor_insert (CHR ''-'') ((qdos_editor_backspace ^^ n) ed))) sh))" for c n
    by (intro scrolled_page nearly_edited [OF nearly_desk [OF assms(1)]] inv_insert backs)
  then show ?thesis using assms(2) unfolding edit_minus_fixup_def by (auto simp del: funpow.simps)
qed

lemma desk_edit_leave: "desk_ok ho sh \<Longrightarrow> desk_ok ho (edit_leave ho message sh)"
  by (simp add: edit_leave_def Let_def desk_list_refresh)

lemma desk_compile:
  assumes "host_ok ho" and "desk_ok ho sh"
  shows "desk_ok ho (snd (compile_alone ho sh))"
  unfolding compile_alone_def Let_def
  using assms host_ok_Some(1) [OF assms]
  by (intro kept) (auto simp: host_okD desk_eval)

lemma saved_page:
  assumes "pages_ok ho p"
  shows "pages_ok ho (p\<lparr>pg_ed := (pg_ed p)\<lparr>ed_dirty := b\<rparr>\<rparr>)"
  using assms
  by (simp add: pages_ok_def page_defs editor_inv_def qdos_editor_where_def split del: if_split cong: menu_id.case_cong if_cong)

lemma desk_edit_save:
  assumes "host_ok ho" and "desk_ok ho sh"
  shows "desk_ok ho (snd (edit_save ho sh))"
proof -
  have saved: "desk_ok ho (edit (\<lambda>ed. ed\<lparr>ed_dirty := False\<rparr>) sh1)" if "desk_ok ho sh1" for sh1
    using that by (simp add: on_world_def saved_page)
  define tried where "tried = (if qdos_app_exists (ho_hal ho) (ed_name (pg_ed (sh_world sh))) (pg_store (sh_world sh)) then compile_alone ho sh
    else let (ok, sh1) = qdos_guarded_eval (ho_mc ho) (ed_text (pg_ed (sh_world sh))) sh
         in if ok then (True, sh1) else let (e, sh2) = qdos_guarded_error (ho_mc ho) sh1 in (False, set_message e True sh2))"
  have "desk_ok ho (snd tried)"
    unfolding tried_def by (intro kept desk_compile assms) (auto simp: assms desk_eval host_okD)
  then show ?thesis
    unfolding edit_save_def edit_compiles_def tried_def [symmetric]
    by (cases tried) (simp add: Let_def saved split: prod.split)
qed

lemma desk_edit_run:
  assumes "host_ok ho" and "desk_ok ho sh"
  shows "desk_ok ho (edit_run ho sh)"
  using desk_edit_save [OF assms] assms
  by (auto simp: edit_run_def Let_def desk_run_word split: prod.split)

lemma editing_check:
  assumes "host_ok ho" and "desk_in ho QDOS_MODE_EDIT sh"
  shows "editing ho (check_program ho sh)"
proof -
  note alone = desk_in_alone [OF assms(1)]
  let ?in = "desk_in ho QDOS_MODE_EDIT"
  have all: "?in (fold (\<lambda>scope sh. snd (qdos_programs_restore (ho_hal ho) scope (alone_interp ho) (pg_store (sh_world sh)) sh)) scopes sh0)"
    if "?in sh0" for scopes sh0
    using that by (induction scopes arbitrary: sh0) (simp_all add: desk_in_restore [OF assms(1)])
  have end1: "editing ho (set_message s b (qd_interp_destroy ho sh1))" if "?in sh1" for s b sh1
    using alone(6) [OF alone(2) [OF that]] by (simp add: editing_desk desk_in_def)
  have end2: "editing ho (case l of Some line \<Rightarrow> edit (qdos_editor_goto line) (set_message s b (qd_interp_destroy ho sh1))
      | None \<Rightarrow> set_message s b (qd_interp_destroy ho sh1))" if "?in sh1" for s b l sh1
    using end1 [OF that] editing_edit [OF alone(6) [OF alone(2) [OF that]], of "qdos_editor_goto line" for line] inv_goto
    by (cases l) simp_all
  show ?thesis
  proof (cases "bare_interp ho sh")
    case None
    then show ?thesis using assms(2) by (simp add: check_program_def editing_desk desk_in_def)
  next
    case (Some sh0)
    define sh1 where "sh1 = register_apps (ho_hal ho) (alone_register ho)
      (fold (\<lambda>scope sh. snd (qdos_programs_restore (ho_hal ho) scope (alone_interp ho) (pg_store (sh_world sh)) sh)) all_scopes sh0)"
    define name where "name = ed_name (pg_ed (sh_world sh1))"
    define r where "r = (if qdos_app_exists (ho_hal ho) name (pg_store (sh_world sh1))
      then load_app_sources ho name (2 * MESSAGE_COLS + 1) sh1 else (None, sh1))"
    have in1: "?in sh1"
      unfolding sh1_def register_apps_def by (intro desk_in_register all assms(1) alone(5) [OF assms(2) Some])
    then have "?in (snd r)" by (simp add: r_def load_app_sources_def desk_in_leaves [OF assms(1)])
    then obtain wrong sh2 where r: "r = (wrong, sh2)" and in2: "?in sh2" by (cases r) simp
    obtain ok sh3 where e: "qdos_guarded_eval (ho_alone ho) (ed_text (pg_ed (sh_world sh2))) sh2 = (ok, sh3)" by fastforce
    obtain err sh4 where f: "qdos_guarded_error (ho_alone ho) sh3 = (err, sh4)" by fastforce
    have "?in sh3" "?in sh4"
      using alone(1) [OF in2, of "ed_text (pg_ed (sh_world sh2))"] alone(7) [of QDOS_MODE_EDIT sh3 "ho_alone ho"] by (simp_all add: e f)
    then show ?thesis
      unfolding check_program_def Some option.case Let_def sh1_def [symmetric] name_def [symmetric] r_def [symmetric]
      using end1 [OF in2] end1 [OF \<open>?in sh3\<close>] end2 by (simp add: r e f split: option.split)
  qed
qed

lemma editing_keys:
  assumes "host_ok ho" and "desk_in ho QDOS_MODE_EDIT sh"
  shows "editing ho (edit_key ho ev sh)"
proof -
  have ok: "desk_ok ho sh" using assms(2) by (simp add: desk_in_def)
  note ed = editing_edit [OF assms(2)]
  have undo: "editing ho (if fst (qdos_editor_undo (pg_ed (sh_world sh))) then edit (\<lambda>ed. snd (qdos_editor_undo ed)) sh
      else set_message s b sh)" for s b
    using ed [of "\<lambda>ed. snd (qdos_editor_undo ed)"] ok by (simp add: editing_desk inv_undo)
  obtain saved sh1 where s: "edit_save ho sh = (saved, sh1)" by fastforce
  have "desk_ok ho sh1" using desk_edit_save [OF assms(1) ok] by (simp add: s)
  then have save: "editing ho (let (ok, sh1) = edit_save ho sh
      in if ok then set_message (''SAVED '' @ [CHR 0x27] @ take 12 (ed_name (pg_ed (sh_world sh1))) @ [CHR 0x27]) False sh1 else sh1)"
    by (simp add: s editing_desk)
  have esc: "desk_ok ho (edit_clear ho sh)"
    using ok by (simp add: edit_clear_def Let_def desk_edit_leave)
  have editing_if: "editing ho (if c then a else b)" if "c \<Longrightarrow> editing ho a" "\<not> c \<Longrightarrow> editing ho b" for c a b
    using that by simp
  show ?thesis
    unfolding edit_key_def Let_def [of "ev_key ev"]
    by (intro editing_if ed inv_insert inv_move inv_newline inv_backspace undo save editing_operator editing_check
        editing_desk [OF desk_edit_word] editing_desk [OF desk_edit_run] editing_desk [OF esc] editing_desk [OF ok] assms ok)
qed

lemma desk_handle_edit_key:
  assumes "host_ok ho" and "desk_ok ho sh" and "sh_mode sh = QDOS_MODE_EDIT"
  shows "desk_ok ho (handle_edit_key ho ev sh)"
proof -
  define sh2 where "sh2 = page (\<lambda>p. p\<lparr>pg_edit_minus := False\<rparr>)
    (if ev_key ev \<noteq> QDOS_KEY_CLEAR then page (\<lambda>p. p\<lparr>pg_drop_armed := False\<rparr>) sh else sh)"
  have ok: "desk_ok ho sh2" using assms(2) by (simp add: sh2_def)
  then have in_mode: "desk_in ho QDOS_MODE_EDIT sh2" using assms(3) by (simp add: desk_in_def sh2_def)
  have digit: "desk_ok ho (edit_scroll_into_view (edit (qdos_editor_insert c) sh2))" for c
    by (intro scrolled_page nearly_edited [OF nearly_desk [OF ok]] inv_insert)
  have other: "desk_ok ho (let sh3 = edit_key ho ev sh2 in if sh_mode sh3 = QDOS_MODE_EDIT then edit_scroll_into_view sh3 else sh3)"
    unfolding Let_def by (rule editing_scrolled [OF editing_keys [OF assms(1) in_mode]])
  show ?thesis
    unfolding handle_edit_key_def Let_def [of "ev_key ev"] Let_def [of "if ev_key ev \<noteq> QDOS_KEY_CLEAR then _ else _"]
      Let_def [of "page _ _"] Let_def [of "pg_edit_minus _"] sh2_def [symmetric]
    by (intro kept_option kept_if digit other desk_edit_word ok) (auto split: if_splits intro: desk_fixup [OF ok])
qed

section \<open>Menus\<close>

lemma menu_chosen: "desk_ok ho sh \<Longrightarrow> f (sh_world sh) < menu_count (sh_world sh) \<Longrightarrow>
    desk_ok ho (menu_scroll_into_view (page (\<lambda>p. p\<lparr>pg_menu_sel := f p\<rparr>) sh))"
  using menu_fields(1) [of ho "sh_world sh" "f (sh_world sh)"] by (simp add: menu_scroll_into_view_def on_world_def)

lemma menu_moved:
  assumes "desk_ok ho sh" and "f (sh_world sh) < menu_count (sh_world sh)"
  shows "desk_ok ho (menu_scroll_into_view (page (\<lambda>p. p\<lparr>pg_menu_sel := f p, pg_delete_armed := b\<rparr>) sh))"
proof -
  have "menu_scroll_into_view (page (\<lambda>p. p\<lparr>pg_menu_sel := f p, pg_delete_armed := b\<rparr>) sh) =
      page (\<lambda>p. p\<lparr>pg_delete_armed := b\<rparr>) (menu_scroll_into_view (page (\<lambda>p. p\<lparr>pg_menu_sel := f p\<rparr>) sh))"
    by (simp add: menu_scroll_into_view_def o_def)
  then show ?thesis using menu_chosen [of ho sh f] assms by simp
qed

lemma settings_kept:
  "desk_ok ho sh \<Longrightarrow> settings_ok (f (sh_world sh)) \<Longrightarrow> desk_ok ho (page (\<lambda>p. p\<lparr>pg_settings := f p\<rparr>) sh)"
  "desk_ok ho sh \<Longrightarrow> settings_ok (f (sh_world sh)) \<Longrightarrow> desk_ok ho (page (\<lambda>p. p\<lparr>pg_settings := f p, pg_store := d p\<rparr>) sh)"
  by (simp_all add: on_world_def setup_fields)

lemma desk_menu_act:
  assumes "host_ok ho" and "desk_ok ho sh"
  shows "desk_ok ho (menu_act ho dir sh)"
proof -
  have st: "settings_ok (pg_settings (sh_world sh))" using pages_okD(4) [OF deskD [OF assms(2)]] by (simp add: setup_ok_def)
  have format: "desk_ok ho (page (\<lambda>p. let st = pg_settings p;
        st1 = (if pg_menu_sel p = 0 then st\<lparr>st_grid_on := \<not> st_grid_on st\<rparr> else st\<lparr>st_axes_off := \<not> st_axes_off st\<rparr>)
      in p\<lparr>pg_settings := st1, pg_store := save_settings (ho_hal ho) st1 (pg_store p)\<rparr>) sh)"
    unfolding Let_def using st by (intro settings_kept assms(2)) (simp add: settings_ok_def)
  obtain closed sh1 where a: "app_act ho (APP_ITEMS ! pg_menu_sel (sh_world sh)) (sh\<lparr>sh_mode := QDOS_MODE_LIST\<rparr>) = (closed, sh1)"
    by fastforce
  have "desk_ok ho sh1"
    using desk_app_act [OF assms(1), of "sh\<lparr>sh_mode := QDOS_MODE_LIST\<rparr>", where action = "APP_ITEMS ! pg_menu_sel (sh_world sh)"] assms(2)
    by (simp add: a)
  then show ?thesis
    using format assms by (cases "pg_menu (sh_world sh)") (simp_all add: menu_act_def a host_okD)
qed

lemma desk_handle_menu_key:
  assumes "host_ok ho" and "desk_ok ho sh"
  shows "desk_ok ho (handle_menu_key ho ev sh)"
proof -
  let ?n = "menu_count (sh_world sh)"
  have "pg_menu_sel (sh_world sh) < ?n" using pages_okD(3) [OF deskD [OF assms(2)]] by (simp add: menu_ok_def)
  then have "0 < ?n" by simp
  then show ?thesis
    unfolding handle_menu_key_def Let_def
    by (intro kept_if desk_menu_act assms menu_chosen) (simp_all add: assms(2) menu_moved)
qed

section \<open>Settings, the log and the output\<close>

lemma desk_toggle_usb:
  assumes "host_ok ho" and "desk_ok ho sh"
  shows "desk_ok ho (toggle_usb ho sh)"
proof (cases "usb_export ho")
  case (Some export)
  obtain ok p where e: "export (\<not> pg_usb_exported (sh_world sh)) (sh_world sh) = (ok, p)" by fastforce
  define sh1 where "sh1 = sh\<lparr>sh_world := p\<rparr>"
  have ok: "desk_ok ho sh1"
    using host_ok_usb [OF assms(1) Some deskD [OF assms(2)], of "\<not> pg_usb_exported (sh_world sh)"] by (simp add: e on_world_def sh1_def)
  have "desk_ok ho (snd (qdos_programs_restore hal scope (session_interp ho) d sh1))" if "desk_ok ho sh1" for hal scope d sh1
    by (rule restore_kept) (simp_all add: that session_interp_def desk_eval(1) [OF assms(1)] host_ok_Some(2) [OF assms(1)])
  then have restored: "desk_ok ho (case qdos_programs_restore hal scope (session_interp ho) d sh2 of (found, sh3) \<Rightarrow> set_message (m found) False sh3)"
    if "desk_ok ho sh2" for hal scope d sh2 m
    using that by (simp add: split_beta)
  show ?thesis
    unfolding toggle_usb_def Some option.case Let_def e prod.case sh1_def [symmetric]
    by (intro kept_if restored) (simp_all add: ok)
qed (simp add: toggle_usb_def assms(2))

lemma setup_step:
  assumes "on_world (\<lambda>p. list_ok p \<and> edit_ok p \<and> menu_ok p \<and> field_ok p \<and> settings_ok (pg_settings p)) sh"
  shows "desk_ok ho (page (\<lambda>p. if setting_count ho p \<le> pg_setting_sel p \<and> 0 < pg_setting_sel p
    then p\<lparr>pg_setting_sel := setting_count ho p - 1\<rparr> else p) sh)"
proof -
  have "0 < setting_count ho p" for p by (simp add: setting_count_def settings_visible_def)
  moreover have "list_ok (p\<lparr>pg_setting_sel := n\<rparr>) = list_ok p" "edit_ok (p\<lparr>pg_setting_sel := n\<rparr>) = edit_ok p"
    "menu_ok (p\<lparr>pg_setting_sel := n\<rparr>) = menu_ok p" "field_ok (p\<lparr>pg_setting_sel := n\<rparr>) = field_ok p"
    "setting_count ho (p\<lparr>pg_setting_sel := n\<rparr>) = setting_count ho p" for p n
    by (simp_all add: page_defs split del: if_split cong: menu_id.case_cong if_cong)
  ultimately show ?thesis using assms by (auto simp: on_world_def pages_ok_def setup_ok_def not_le)
qed

lemma unblocked:
  "list_ok (qdos_natives_unblock hal p) = list_ok p" "edit_ok (qdos_natives_unblock hal p) = edit_ok p"
    "menu_ok (qdos_natives_unblock hal p) = menu_ok p" "field_ok (qdos_natives_unblock hal p) = field_ok p"
    "pg_settings (qdos_natives_unblock hal p) = pg_settings p"
  by (simp_all add: qdos_natives_unblock_def page_defs split del: if_split cong: menu_id.case_cong if_cong)

lemma unset: "pages_ok ho p \<Longrightarrow> list_ok p \<and> edit_ok p \<and> menu_ok p \<and> field_ok p \<and> settings_ok (pg_settings p)"
  by (simp add: pages_ok_def setup_ok_def)

lemma desk_setting_step:
  assumes "host_ok ho" and "desk_ok ho sh" and "dir = 1 \<or> dir = -1"
  shows "desk_ok ho (setting_step ho dir sh)"
proof -
  let ?s = "setting_at ho (sh_world sh) (pg_setting_sel (sh_world sh))"
  let ?W = "\<lambda>p. list_ok p \<and> edit_ok p \<and> menu_ok p \<and> field_ok p \<and> settings_ok (pg_settings p)"
  have all: "on_world ?W sh1" if "desk_ok ho sh1" for sh1 using that by (simp add: on_world_def unset)
  have "on_world ?W (set_message ''ON AT NEXT START'' False (page (qdos_natives_unblock (ho_hal ho)) sh))"
    using all [OF assms(2)] unfolding kept_message by (simp add: on_world_def unblocked)
  moreover have "desk_ok ho (page (\<lambda>p. p\<lparr>pg_store := save_settings (ho_hal ho) (pg_settings p) (pg_store p)\<rparr>)
      (page (\<lambda>p. p\<lparr>pg_settings := step_setting ?s dir (pg_settings p)\<rparr>) sh))"
    unfolding idle_desk using assms(3) pages_okD(4) [OF deskD [OF assms(2)]]
    by (intro settings_kept assms(2)) (simp add: setup_ok_def step_ok)
  ultimately show ?thesis
    unfolding setting_step_def Let_def
    using all [OF desk_toggle_usb [OF assms(1,2)]] by (intro setup_step) (auto simp: all)
qed

lemma desk_handle_settings_key:
  assumes "host_ok ho" and "desk_ok ho sh"
  shows "desk_ok ho (handle_settings_key ho ev sh)"
proof -
  have sel: "pg_setting_sel (sh_world sh) < setting_count ho (sh_world sh)" and st: "settings_ok (pg_settings (sh_world sh))"
    using pages_okD(4) [OF deskD [OF assms(2)]] by (simp_all add: setup_ok_def)
  have moved: "desk_ok ho (page (\<lambda>p. p\<lparr>pg_setting_sel := f p\<rparr>) sh)" if "f (sh_world sh) < setting_count ho (sh_world sh)" for f
    using that assms(2) by (simp add: on_world_def setup_fields)
  have digit: "desk_ok ho (page (\<lambda>p. let st = (pg_settings p)\<lparr>st_decimals := int (ev_key ev - QDOS_KEY_0)\<rparr>
      in p\<lparr>pg_settings := st, pg_store := save_settings (ho_hal ho) st (pg_store p)\<rparr>) sh)"
    if "QDOS_KEY_0 \<le> ev_key ev \<and> ev_key ev \<le> QDOS_KEY_9"
    unfolding Let_def using st that by (intro settings_kept assms(2)) (auto simp: settings_ok_def DECIMALS_MAX_def DECIMALS_AUTO_def)
  show ?thesis
    unfolding handle_settings_key_def Let_def [of "ev_key ev"] Let_def [of "sh_world sh"]
    by (intro kept_if moved digit desk_setting_step assms) (use sel in \<open>simp_all add: assms(2)\<close>)
qed

lemma desk_handle_debug_key: "desk_ok ho sh \<Longrightarrow> desk_ok ho (handle_debug_key ev sh)"
proof -
  assume ok: "desk_ok ho sh"
  have "desk_ok ho (page (\<lambda>p. if pg_log_top p < n then p\<lparr>pg_log_top := pg_log_top p + 1\<rparr> else p) sh)"
    "desk_ok ho (page (\<lambda>p. if 0 < pg_log_top p then p\<lparr>pg_log_top := pg_log_top p - 1\<rparr> else p) sh)" for n
    using ok by (simp_all add: on_world_def)
  then show ?thesis
    unfolding handle_debug_key_def Let_def using ok by (intro kept_if) simp_all
qed

lemma desk_handle_output_key: "desk_ok ho sh \<Longrightarrow> desk_ok ho (handle_output_key ev sh)"
  by (simp add: handle_output_key_def Let_def)

section \<open>Every key\<close>

lemma desk_page_key:
  assumes "host_ok ho" and "desk_ok ho sh"
  shows "desk_ok ho (page_key ho ev sh)"
  using assms
  by (cases "sh_mode sh") (simp_all add: page_key_def desk_handle_settings_key desk_handle_debug_key desk_handle_edit_key
      desk_handle_menu_key desk_handle_output_key desk_handle_list_key host_okD kept_handle_line_key kept_handle_calc_key)

lemma desk_mode_key:
  assumes "host_ok ho" and "desk_ok ho sh"
  shows "desk_ok ho (handle_mode_key ho ev sh)"
proof -
  define sh1 where "sh1 = (if sh_mode sh \<noteq> QDOS_MODE_CALC then sh\<lparr>sh_register_wait := REGISTER_IDLE\<rparr> else sh)"
  define sh2 where "sh2 = (if sh_mode sh \<noteq> QDOS_MODE_CALC \<or> sh_field sh \<noteq> FIELD_NONE \<or>
        ev_key ev \<noteq> QDOS_KEY_UP \<and> ev_key ev \<noteq> QDOS_KEY_DOWN \<and> ev_key ev \<noteq> QDOS_KEY_ENTER \<and> ev_key ev \<noteq> QDOS_KEY_BACKSPACE \<and>
        ev_key ev \<noteq> QDOS_KEY_DROP
      then sh1\<lparr>sh_stack_sel := 0\<rparr> else sh1)"
  have ok: "desk_ok ho sh2" using assms(2) by (simp add: sh1_def sh2_def)
  have "desk_ok ho (open_settings sh2)" "desk_ok ho (open_debug sh2)"
    using ok by (simp_all add: open_settings_def open_debug_def Let_def) (simp_all add: on_world_def)
  then show ?thesis
    unfolding handle_mode_key_def Let_def sh1_def [symmetric] sh2_def [symmetric] list_open_def catalog_open_def
    by (intro kept_if desk_field_key desk_list_open desk_page_key assms(1) ok)
      (simp_all add: ok host_okD [OF assms(1)])
qed

lemma desk_handle_key:
  assumes "host_ok ho" and "desk_ok ho sh"
  shows "desk_ok ho (handle_key ho ev sh)"
proof -
  define sh2 where "sh2 = page qdos_natives_rearm
    (if sh_mode sh = QDOS_MODE_CALC \<and> ev_key ev = QDOS_KEY_CHAR \<and> ev_ch ev = CHR '' '' then sh
     else sh\<lparr>sh_message := [], sh_message_is_error := False\<rparr>)"
  have "desk_ok ho (page qdos_natives_rearm sh1)" if "desk_ok ho sh1" for sh1
    using that by (simp add: on_world_def qdos_natives_rearm_def)
  then have "desk_ok ho sh2" using assms(2) by (simp add: sh2_def)
  then show ?thesis
    unfolding handle_key_def Let_def sh2_def [symmetric]
    by (intro kept_option desk_mode_key assms(1))
qed



end
