(* ===== verification/Asks.thy ===== *)
theory Asks
  imports DeskKeys
begin

text \<open>
  What the pages of programs promise: nothing is dropped and no edit is lost without being asked for twice, a name
  refused changes nothing, a program saved is the text that was in the editor, and what is typed finds the first row
  that starts with it.
\<close>

section \<open>Dropping a program\<close>

lemma keeps_worldI:
  assumes "keeps_world mc W" and "on_world W sh"
  shows "W (sh_world (snd (qdos_guarded_eval mc source sh)))"
  using kept_eval [OF assms, of source] by (simp add: on_world_def)

lemma refresh_store [simp]: "pg_store (sh_world (list_refresh ho name sh)) = pg_store (sh_world sh)"
  "pg_delete_armed (sh_world (list_refresh ho name sh)) = pg_delete_armed (sh_world sh)"
  by (simp_all add: list_refresh_def Let_def list_scroll_into_view_def list_load_def list_user_first_def)

lemma forget_world [simp]: "sh_world (forget_here name sh) = sh_world sh"
  by (simp add: forget_here_def)

text \<open>
  Forgetting a word is the interpreter's own affair, and the copy that comes back under a dropped program, a shipped one or
  one of the card, declares its words and does nothing to the files.
\<close>

definition drops_quietly :: "('p, 'q, 'd, 'r) host \<Rightarrow> cstring \<Rightarrow> bool" where
  "drops_quietly ho name \<longleftrightarrow>
     (\<forall>sh. pg_store (sh_world (qd_interp_undeclare ho name sh)) = pg_store (sh_world sh)) \<and>
     (\<forall>source sh. load_nearest (ho_hal ho) [SCOPE_INBOX, SCOPE_SYSTEM] name (pg_store (sh_world sh)) = Some source \<longrightarrow>
        pg_store (sh_world (snd (qdos_guarded_eval (ho_mc ho) source sh))) = pg_store (sh_world sh))"

lemma dropped_store:
  assumes "drops_quietly ho name"
  shows "pg_store (sh_world (program_drop ho name sh)) = snd (qdos_program_erase (ho_hal ho) name (pg_store (sh_world sh)))"
proof -
  let ?sh = "page (\<lambda>p. p\<lparr>pg_store := snd (qdos_program_erase (ho_hal ho) name (pg_store p))\<rparr>) (forget_here name (qd_interp_undeclare ho name sh))"
  have "pg_store (sh_world ?sh) = snd (qdos_program_erase (ho_hal ho) name (pg_store (sh_world sh)))"
    using assms by (simp add: drops_quietly_def)
  moreover have "pg_store (sh_world (redeclare_shadowed ho name ?sh)) = pg_store (sh_world ?sh)"
    using assms unfolding redeclare_shadowed_def drops_quietly_def by (cases "load_nearest (ho_hal ho) [SCOPE_INBOX, SCOPE_SYSTEM] name (pg_store (sh_world ?sh))") fastforce+
  ultimately show ?thesis by (simp add: program_drop_def)
qed

lemma delete_drops:
  "snd (app_act ho APP_DELETE sh) =
    (let p = sh_world sh
     in if list_count p = 0 \<or> pg_list_all p \<or> list_module p (pg_list_sel p) \<noteq> None \<or> list_program p (pg_list_sel p) = None then sh
        else snd (list_drop ho sh))"
  by (auto simp: app_act_def Let_def split: option.split prod.split)

lemma backspace_drops:
  assumes "ev_key ev = QDOS_KEY_BACKSPACE" and "pg_list_find (sh_world sh) = []"
  shows "handle_list_key ho ev sh = snd (list_drop ho sh)"
proof -
  have same: "page (\<lambda>p. p\<lparr>pg_list_find := []\<rparr>) sh = sh" using assms(2) by simp
  have "handle_list_key ho ev sh = snd (list_drop ho (page (\<lambda>p. p\<lparr>pg_list_find := []\<rparr>) sh))"
    using assms by (simp add: handle_list_key_def list_key_def Let_def)
  then show ?thesis unfolding same .
qed

lemma row_there:
  assumes "list_program p n = Some e"
  shows "\<not> pg_list_all p" "list_module p n = None" "list_count p \<noteq> 0"
  using assms by (auto simp: list_program_def list_module_def list_count_def Let_def split: if_splits)

lemma drop_outcome:
  assumes "ho_hal ho = filestore_hal fs room" and "dirs_apart fs" and "disk_ok fs (pg_store p)"
    and "p = sh_world sh"
    and "\<And>e. list_program p (pg_list_sel p) = Some e \<Longrightarrow> drops_quietly ho (clip QDOS_PROGRAM_NAME_MAX (e_name e))"
    and "sh' = snd (list_drop ho sh)"
  shows "case list_program p (pg_list_sel p) of
      Some e \<Rightarrow>
        if pg_list_all p \<or> \<not> e_user e then pg_store (sh_world sh') = pg_store p
        else if \<not> pg_delete_armed p then
          pg_store (sh_world sh') = pg_store p \<and> pg_delete_armed (sh_world sh') \<and> sh_mode sh' = sh_mode sh
        else
          (let name = clip QDOS_PROGRAM_NAME_MAX (e_name e)
           in (\<forall>m s cap. m \<noteq> name \<longrightarrow>
                 qdos_program_load (ho_hal ho) s m cap (pg_store (sh_world sh')) = qdos_program_load (ho_hal ho) s m cap (pg_store p)) \<and>
              (\<forall>k cap. fst (qdos_program_erase (ho_hal ho) name (pg_store p)) = STORE_OK \<and>
                 source_key (ho_hal ho) name KEY_CAP (pg_store p) = Some k \<longrightarrow>
                 store_read (ho_hal ho) SCOPE_USER k cap (pg_store (sh_world sh')) \<in> {Inl STORE_NOT_FOUND, Inl STORE_IO_ERROR}))
    | None \<Rightarrow> pg_store (sh_world sh') = pg_store p"
proof (cases "list_program p (pg_list_sel p)")
  case None
  then show ?thesis using assms(4,5,6) by (simp add: list_drop_def Let_def)
next
  case (Some e)
  note there = row_there [OF Some]
  let ?name = "clip QDOS_PROGRAM_NAME_MAX (e_name e)"
  have gone: "pg_store (sh_world sh') = snd (qdos_program_erase (ho_hal ho) ?name (pg_store p))"
    if "e_user e" "pg_delete_armed p"
    using Some there that by (simp add: assms(4,6) list_drop_def Let_def dropped_store [OF assms(5) [OF Some]])
  have others: "qdos_program_load (ho_hal ho) s m cap (snd (qdos_program_erase (ho_hal ho) ?name (pg_store p)))
      = qdos_program_load (ho_hal ho) s m cap (pg_store p)" if "m \<noteq> ?name" for m s cap
    unfolding assms(1)
    by (rule fstore.erase_other [of fs "pg_store p" m ?name room s cap]) (simp_all add: assms(2,3) that)
  have erased: "store_read (ho_hal ho) SCOPE_USER k cap (snd (qdos_program_erase (ho_hal ho) ?name (pg_store p)))
      \<in> {Inl STORE_NOT_FOUND, Inl STORE_IO_ERROR}"
    if "fst (qdos_program_erase (ho_hal ho) ?name (pg_store p)) = STORE_OK" "source_key (ho_hal ho) ?name KEY_CAP (pg_store p) = Some k" for k cap
    using fstore.erase_gone [of fs "pg_store p" room ?name k, OF _ that(2) [unfolded assms(1)]] that(1) assms(2,3)
    unfolding assms(1) by (cases "qdos_program_erase (filestore_hal fs room) ?name (pg_store p)") simp
  show ?thesis
  proof (cases "e_user e \<and> pg_delete_armed p")
    case True
    then show ?thesis using Some there(1) gone others erased by (simp add: Let_def)
  next
    case False
    then have "pg_store (sh_world sh') = pg_store p \<and> (e_user e \<longrightarrow> pg_delete_armed (sh_world sh') \<and> sh_mode sh' = sh_mode sh)"
      using Some there assms(4) by (simp add: assms(6) list_drop_def Let_def)
    then show ?thesis using Some there(1) False by simp
  qed
qed



section \<open>Leaving the editor\<close>

lemma leave_mode [simp]: "sh_mode (edit_leave ho message sh) = pg_edit_from (sh_world sh)"
  by (simp add: edit_leave_def Let_def list_refresh_def list_scroll_into_view_def list_load_def list_user_first_def)

lemma leave_page [simp]: "pg_ed (sh_world (edit_leave ho message sh)) = pg_ed (sh_world sh)"
  "pg_store (sh_world (edit_leave ho message sh)) = pg_store (sh_world sh)"
  by (simp_all add: edit_leave_def Let_def list_refresh_def list_scroll_into_view_def list_load_def list_user_first_def)

lemma clear_key: "handle_edit_key ho ev sh =
    (let sh3 = edit_clear ho (page (\<lambda>p. p\<lparr>pg_edit_minus := False\<rparr>) sh)
     in if sh_mode sh3 = QDOS_MODE_EDIT then edit_scroll_into_view sh3 else sh3)"
  if "ev_key ev = QDOS_KEY_CLEAR"
  using that by (simp add: handle_edit_key_def edit_minus_fixup_def function_word_def edit_key_def EDIT_WORDS_def Let_def)

text \<open>The editor up with no second ESC waited for, and the files as given.\<close>

definition asking :: "'d \<Rightarrow> ('p, 'q, 'd, 'r) desk \<Rightarrow> bool" where
  "asking d sh \<longleftrightarrow> sh_mode sh = QDOS_MODE_EDIT \<and> \<not> pg_drop_armed (sh_world sh) \<and> pg_store (sh_world sh) = d"

lemma asking_ops [simp]:
  "asking d (page (\<lambda>p. p\<lparr>pg_ed := ed p\<rparr>) sh) = asking d sh" "asking d (edit_scroll_into_view sh) = asking d sh" "asking d (set_message s b sh) = asking d sh"
  "asking d (page (\<lambda>p. p\<lparr>pg_edit_minus := b\<rparr>) sh) = asking d sh"
  by (simp_all add: asking_def edit_scroll_into_view_def)

lemma asking_word [simp]: "asking d (edit_insert_word word sh) = asking d sh"
  by (simp add: edit_insert_word_def)

lemma asking_operator [simp]: "asking d (edit_operator ev symbol word sh) = asking d sh"
  by (simp add: edit_operator_def Let_def)

lemma asking_fixup: "edit_minus_fixup ev sh = Some sh' \<Longrightarrow> asking d sh' = asking d sh"
  by (auto simp: edit_minus_fixup_def split: if_splits)

lemma asking_if: "(c \<Longrightarrow> asking d a) \<Longrightarrow> (\<not> c \<Longrightarrow> asking d b) \<Longrightarrow> asking d (if c then a else b)"
  by simp

lemma asking_key:
  assumes "asking d sh" and "ev_key ev \<notin> {QDOS_KEY_CHECK, QDOS_KEY_RUN, QDOS_KEY_SAVE, QDOS_KEY_CLEAR}"
  shows "asking d (edit_key ho ev sh)"
  unfolding edit_key_def Let_def [of "ev_key ev"]
  by (intro asking_if) (use assms in simp_all)

text \<open>
  No second ESC waited for. The interpreters of the session and of one program alone, which \<^verbatim>\<open>drop_armed\<close> is nothing
  to, are relied on not to set it.
\<close>

abbreviation (input) disarmed :: "('p, 'q, 'd, 'r) desk \<Rightarrow> bool" where
  "disarmed \<equiv> on_world (\<lambda>p. \<not> pg_drop_armed p)"

definition never_arms :: "('p, 'q, 'd, 'r) host \<Rightarrow> bool" where
  "never_arms ho \<longleftrightarrow>
     keeps_world (ho_mc ho) (\<lambda>p. \<not> pg_drop_armed p) \<and> keeps_world (ho_alone ho) (\<lambda>p. \<not> pg_drop_armed p) \<and>
     (\<forall>sh sh'. bare_interp ho sh = Some sh' \<longrightarrow> disarmed sh \<longrightarrow> disarmed sh') \<and>
     (\<forall>sh sh'. alone_pop ho sh = Some sh' \<longrightarrow> disarmed sh \<longrightarrow> disarmed sh') \<and>
     (\<forall>sh. disarmed sh \<longrightarrow> disarmed (qd_interp_destroy ho sh)) \<and>
     (\<forall>name sh. disarmed sh \<longrightarrow> disarmed (alone_register ho name sh))"

lemma never_armsD:
  assumes "never_arms ho"
  shows "keeps_world (ho_mc ho) (\<lambda>p. \<not> pg_drop_armed p)" "keeps_world (ho_alone ho) (\<lambda>p. \<not> pg_drop_armed p)"
    "bare_interp ho sh = Some sh' \<Longrightarrow> disarmed sh \<Longrightarrow> disarmed sh'" "alone_pop ho sh = Some sh' \<Longrightarrow> disarmed sh \<Longrightarrow> disarmed sh'"
    "disarmed sh \<Longrightarrow> disarmed (qd_interp_destroy ho sh)" "disarmed sh \<Longrightarrow> disarmed (alone_register ho name sh)"
  using assms unfolding never_arms_def by blast+

lemma disarmed_pages [simp]:
  "disarmed (page (\<lambda>p. p\<lparr>pg_ed := ed p\<rparr>) sh) = disarmed sh" "disarmed (edit_scroll_into_view sh) = disarmed sh"
  "disarmed (page (\<lambda>p. p\<lparr>pg_store := d p\<rparr>) sh) = disarmed sh" "disarmed (page (\<lambda>p. p\<lparr>pg_app_word := ws p\<rparr>) sh) = disarmed sh"
  by (simp_all add: on_world_def edit_scroll_into_view_def)

lemma disarmed_compiles:
  assumes "never_arms ho" and "disarmed sh"
  shows "disarmed (snd (edit_compiles ho sh))"
proof -
  note eval = kept_eval [OF never_armsD(1) [OF assms(1)]] kept_eval [OF never_armsD(2) [OF assms(1)]]
  have "disarmed (snd (compile_alone ho sh))"
    unfolding compile_alone_def Let_def
    by (intro kept) (auto simp: never_armsD [OF assms(1)] eval assms(2) dest: never_armsD(3) [OF assms(1)])
  then show ?thesis
    unfolding edit_compiles_def Let_def by (intro kept) (auto simp: eval assms(2) never_armsD [OF assms(1)])
qed

lemma disarmed_save: "never_arms ho \<Longrightarrow> disarmed sh \<Longrightarrow> disarmed (snd (edit_save ho sh))"
  using disarmed_compiles [of ho sh] by (auto simp: edit_save_def Let_def split: prod.split)

lemma disarmed_run:
  assumes "never_arms ho" and "disarmed sh"
  shows "disarmed (edit_run ho sh)"
proof -
  let ?ed = "pg_ed (sh_world sh)"
  obtain go sh1 where save: "(if ed_dirty ?ed \<or> load_program_anywhere (ho_hal ho) (ed_name ?ed) (pg_store (sh_world sh)) = None
      then edit_save ho sh else (True, sh)) = (go, sh1)"
    by fastforce
  then have "disarmed sh1" using disarmed_save [OF assms] assms(2) by (auto split: if_splits)
  then have "disarmed (run_word (ho_mc ho) name sh1)" for name
    unfolding run_word_def by (intro kept never_armsD(1) [OF assms(1)] | simp)+
  then show ?thesis
    using \<open>disarmed sh1\<close> save by (simp add: edit_run_def Let_def)
qed

lemma disarmed_register:
  assumes "never_arms ho" and "disarmed sh"
  shows "disarmed (register_found (alone_register ho) es sh)"
  using assms(2)
proof (induction es arbitrary: sh)
  case (Cons e es)
  note put = never_armsD(6) [OF assms(1)]
  have "disarmed (page (\<lambda>p. p\<lparr>pg_app_word := pg_app_word p @ [w]\<rparr>) sh)" for w using Cons.prems by simp
  note both = put [OF this] put [OF Cons.prems, of "e_name e"]
  show ?case using Cons both by simp
qed simp

lemma disarmed_leaves:
  assumes "never_arms ho" and "disarmed sh"
  shows "disarmed (snd (load_leaves ho app cap leaves sh))"
  using assms(2)
proof (induction leaves arbitrary: sh)
  case (Cons leaf leaves)
  show ?case
  proof (cases "qdos_app_file_load (ho_hal ho) app leaf QDOS_PROGRAM_MAX (pg_store (sh_world sh))")
    case (Inl r)
    then show ?thesis using Cons by simp
  next
    case (Inr source)
    obtain ok sh1 where e: "qdos_guarded_eval (ho_alone ho) source sh = (ok, sh1)" by fastforce
    obtain err sh2 where f: "qdos_guarded_error (ho_alone ho) sh1 = (err, sh2)" by fastforce
    have "disarmed sh1" using kept_eval [OF never_armsD(2) [OF assms(1)] Cons.prems, of source] by (simp add: e)
    then have "disarmed sh1" "disarmed sh2" using kept_error [of _ "ho_alone ho" sh1] by (simp_all add: f)
    then show ?thesis using Inr Cons.IH [of sh1] by (simp add: e f)
  qed
qed simp

lemma disarmed_check:
  assumes "never_arms ho" and "disarmed sh"
  shows "disarmed (check_program ho sh)"
proof (cases "bare_interp ho sh")
  case None
  then show ?thesis using assms(2) by (simp add: check_program_def)
next
  case (Some sh0)
  note eval = kept_eval [OF never_armsD(2) [OF assms(1)]]
  have restored: "disarmed (snd (qdos_programs_restore (ho_hal ho) scope (alone_interp ho) d s))" if "disarmed s" for scope d s
    using that eval never_armsD(4) [OF assms(1)]
    by (intro restore_kept [where P = disarmed]) (auto simp: alone_interp_def)
  have all: "disarmed (fold (\<lambda>scope sh. snd (qdos_programs_restore (ho_hal ho) scope (alone_interp ho) (pg_store (sh_world sh)) sh)) scopes s)"
    if "disarmed s" for scopes s
    using that by (induction scopes arbitrary: s) (simp_all add: restored)
  define sh1 where "sh1 = register_apps (ho_hal ho) (alone_register ho)
    (fold (\<lambda>scope sh. snd (qdos_programs_restore (ho_hal ho) scope (alone_interp ho) (pg_store (sh_world sh)) sh)) all_scopes sh0)"
  have one: "disarmed sh1"
    unfolding sh1_def register_apps_def by (intro disarmed_register assms(1) all never_armsD(3) [OF assms(1) Some assms(2)])
  obtain wrong sh2 where two: "(if qdos_app_exists (ho_hal ho) (ed_name (pg_ed (sh_world sh1))) (pg_store (sh_world sh1))
      then load_app_sources ho (ed_name (pg_ed (sh_world sh1))) (2 * MESSAGE_COLS + 1) sh1 else (None, sh1)) = (wrong, sh2)"
    by fastforce
  then have ok2: "disarmed sh2"
    using disarmed_leaves [OF assms(1) one] one by (auto simp: load_app_sources_def split: if_splits) (metis snd_conv)
  obtain ok sh3 where three: "qdos_guarded_eval (ho_alone ho) (ed_text (pg_ed (sh_world sh2))) sh2 = (ok, sh3)" by fastforce
  then have ok3: "disarmed sh3" using eval [OF ok2] by (metis snd_conv)
  obtain err sh4 where four: "qdos_guarded_error (ho_alone ho) sh3 = (err, sh4)" by fastforce
  then have ok4: "disarmed sh4" using ok3 kept_error [of _ "ho_alone ho" sh3] by simp
  have "disarmed (set_message m b (qd_interp_destroy ho s))" if "disarmed s" for m b s
    using never_armsD(5) [OF assms(1) that] by simp
  note last = this [OF ok2] this [OF ok3] this [OF ok4]
  show ?thesis
    unfolding check_program_def Some option.case Let_def sh1_def [symmetric] two prod.case three four
    using last by (auto split: option.split)
qed

lemma three_keys:
  "ev_key ev = QDOS_KEY_CHECK \<Longrightarrow> edit_key ho ev sh = check_program ho sh"
  "ev_key ev = QDOS_KEY_RUN \<Longrightarrow> edit_key ho ev sh = edit_run ho sh"
  "ev_key ev = QDOS_KEY_SAVE \<Longrightarrow> edit_key ho ev sh =
    (let (ok, sh1) = edit_save ho sh
     in if ok then set_message (''SAVED '' @ [CHR 0x27] @ take 12 (ed_name (pg_ed (sh_world sh1))) @ [CHR 0x27]) False sh1 else sh1)"
  by (simp_all add: edit_key_def)

text \<open>
  C14. ESC does not lose an edit it has not asked about. With nothing to lose it leaves the editor for the page it was
  opened from. With the program changed since it was saved, the first ESC says so, and the page stays up with the
  program as it was; the second leaves, the files as they were. After any other key, CHECK, RUN and SAVE too, the next ESC
  asks again; and but for those three, it stays in the editor and leaves the files alone. The interpreters are relied on not to
  touch the flag.
\<close>

theorem esc_asks_before_losing_edits:
  assumes "sh_mode sh = QDOS_MODE_EDIT" and "pg_edit_from (sh_world sh) \<noteq> QDOS_MODE_EDIT" and "p = sh_world sh"
    and "never_arms ho" and "sh' = handle_edit_key ho ev sh"
  shows "if ev_key ev = QDOS_KEY_CLEAR then
       pg_ed (sh_world sh') = pg_ed p \<and> pg_store (sh_world sh') = pg_store p \<and>
       (if ed_dirty (pg_ed p) \<and> \<not> pg_drop_armed p then sh_mode sh' = QDOS_MODE_EDIT \<and> pg_drop_armed (sh_world sh')
        else sh_mode sh' = pg_edit_from p)
     else \<not> pg_drop_armed (sh_world sh') \<and>
       (ev_key ev \<noteq> QDOS_KEY_CHECK \<and> ev_key ev \<noteq> QDOS_KEY_RUN \<and> ev_key ev \<noteq> QDOS_KEY_SAVE \<longrightarrow>
        sh_mode sh' = QDOS_MODE_EDIT \<and> pg_store (sh_world sh') = pg_store p)"
proof (cases "ev_key ev = QDOS_KEY_CLEAR")
  case True
  then show ?thesis
    using assms by (auto simp: clear_key edit_clear_def Let_def edit_scroll_into_view_def)
next
  case False
  define sh2 where "sh2 = page (\<lambda>p. p\<lparr>pg_edit_minus := False\<rparr>) (page (\<lambda>p. p\<lparr>pg_drop_armed := False\<rparr>) sh)"
  have start: "asking (pg_store p) sh2" "disarmed sh2" using assms by (simp_all add: asking_def sh2_def on_world_def)
  have unfolded: "sh' = (case (if pg_edit_minus p then edit_minus_fixup ev sh2 else None) of Some sh3 \<Rightarrow> sh3
     | None \<Rightarrow> (case function_word (ev_key ev) of Some word \<Rightarrow> edit_insert_word word sh2
       | None \<Rightarrow> (case map_of EDIT_WORDS (ev_key ev) of Some word \<Rightarrow> edit_insert_word word sh2
         | None \<Rightarrow> if QDOS_KEY_0 \<le> ev_key ev \<and> ev_key ev \<le> QDOS_KEY_9 then
                edit_scroll_into_view (edit (qdos_editor_insert (digit_char (ev_key ev - QDOS_KEY_0))) sh2)
              else let sh3 = edit_key ho ev sh2 in if sh_mode sh3 = QDOS_MODE_EDIT then edit_scroll_into_view sh3 else sh3)))"
    unfolding assms(5,3) handle_edit_key_def Let_def if_P [OF False] sh2_def [symmetric] by (simp add: sh2_def)
  have asks: "asking (pg_store p) sh'" if "ev_key ev \<notin> {QDOS_KEY_CHECK, QDOS_KEY_RUN, QDOS_KEY_SAVE, QDOS_KEY_CLEAR}"
    unfolding unfolded Let_def
    using asking_key [OF start(1) that, of ho] start(1)
    by (auto dest!: asking_fixup [of ev _ _ "pg_store p"] split: option.split if_splits)
  moreover have "disarmed sh'" if "ev_key ev \<in> {QDOS_KEY_CHECK, QDOS_KEY_RUN, QDOS_KEY_SAVE}"
  proof -
    have "disarmed (edit_key ho ev sh2)"
      using that disarmed_check [OF assms(4) start(2)] disarmed_run [OF assms(4) start(2)] disarmed_save [OF assms(4) start(2)]
      by (auto simp: three_keys split: prod.split)
    moreover have "edit_minus_fixup ev sh2 = None" using that by (auto simp: edit_minus_fixup_def)
    ultimately show ?thesis
      unfolding unfolded Let_def using that start(2) by (auto simp: edit_insert_word_def split: option.split)
  qed
  ultimately have "\<not> pg_drop_armed (sh_world sh')" using False by (cases "ev_key ev \<in> {QDOS_KEY_CHECK, QDOS_KEY_RUN, QDOS_KEY_SAVE}") (auto simp: asking_def on_world_def)
  then show ?thesis using asks False by (auto simp: asking_def)
qed

lemma esc_asks_before_losing_edits_witness:
  "let p = (sh_world small_desk)\<lparr>pg_ed := qdos_editor_insert (CHR ''x'') (pg_ed (sh_world small_desk))\<rparr>;
       sh = small_desk\<lparr>sh_world := p, sh_mode := QDOS_MODE_EDIT\<rparr>;
       once = handle_edit_key small_host (key_event QDOS_KEY_CLEAR) sh
   in sh_mode once = QDOS_MODE_EDIT \<and> pg_drop_armed (sh_world once) \<and> pg_ed (sh_world once) = pg_ed p"
proof -
  let ?p = "(sh_world small_desk)\<lparr>pg_ed := qdos_editor_insert (CHR ''x'') (pg_ed (sh_world small_desk))\<rparr>"
  let ?sh = "small_desk\<lparr>sh_world := ?p, sh_mode := QDOS_MODE_EDIT\<rparr>"
  have "pg_edit_from ?p = QDOS_MODE_CALC" "\<not> pg_drop_armed ?p" by (simp_all add: small_desk_def fresh_shell_def small_pages_def)
  moreover have "ed_dirty (qdos_editor_insert (CHR ''x'') (qdos_editor_open ''sq'' None))" by code_simp
  moreover have "never_arms (small_host :: (unit, bool, disk, unit) host)"
    using small_session_keeps by (auto simp: never_arms_def small_host_def)
  ultimately show ?thesis
    using esc_asks_before_losing_edits [of ?sh ?p small_host _ "key_event QDOS_KEY_CLEAR", OF _ _ _ _ refl]
    by (simp add: small_desk_def fresh_shell_def small_pages_def)
qed

section \<open>Saving\<close>

text \<open>
  C15. A program that says SAVED is saved. The check before it, an app alone and a program declared in the session, runs
  words, so what it leaves is where saving starts from, the text in the editor being as it was and the files in order. If it does not
  compile, nothing is written. If the save succeeds, that name loads from
  the user's files as the text in the editor, byte for byte, and the editor has nothing left to save. Whether or not it
  succeeds, the text is as it was and every other program loads from everywhere as the check left it.
\<close>

theorem saved_text_is_stored:
  assumes "ho_hal ho = filestore_hal fs room" and "dirs_apart fs"
    and "edit_compiles ho sh = (compiles, sh1)" and "p = sh_world sh1" and "pg_ed p = pg_ed (sh_world sh)"
    and "disk_ok fs (pg_store p)" and "nul \<notin> set (ed_text (pg_ed p))" and "editor_inv (pg_ed p)"
    and "edit_save ho sh = (ok, sh')"
  shows "(\<not> compiles \<longrightarrow> \<not> ok \<and> sh' = sh1) \<and>
    (ok \<longrightarrow> qdos_program_load (ho_hal ho) SCOPE_USER (ed_name (pg_ed p)) QDOS_PROGRAM_CAP (pg_store (sh_world sh')) =
            Inr (ed_text (pg_ed p)) \<and> \<not> ed_dirty (pg_ed (sh_world sh'))) \<and>
    (\<not> ok \<longrightarrow> pg_ed (sh_world sh') = pg_ed p) \<and>
    ed_text (pg_ed (sh_world sh')) = ed_text (pg_ed p) \<and>
    (m \<noteq> ed_name (pg_ed p) \<longrightarrow> qdos_program_load (ho_hal ho) s m cap (pg_store (sh_world sh')) =
       qdos_program_load (ho_hal ho) s m cap (pg_store p))"
proof (cases compiles)
  case False
  then show ?thesis using assms(3,4,9) by (auto simp: edit_save_def)
next
  case True
  let ?ed = "pg_ed p"
  obtain r d' where w: "qdos_program_save (ho_hal ho) (ed_name ?ed) (ed_text ?ed) (pg_store p) = (r, d')" by fastforce
  have "length (ed_text ?ed) < QDOS_PROGRAM_CAP"
    using assms(8) by (simp add: editor_inv_def QDOS_PROGRAM_MAX_def QDOS_PROGRAM_CAP_def)
  then have stored: "(r = STORE_OK \<longrightarrow> qdos_program_load (ho_hal ho) SCOPE_USER (ed_name ?ed) QDOS_PROGRAM_CAP d' = Inr (ed_text ?ed)) \<and>
    (m \<noteq> ed_name ?ed \<longrightarrow> qdos_program_load (ho_hal ho) s m cap d' = qdos_program_load (ho_hal ho) s m cap (pg_store p))"
    using w saved_program_loads_back [OF assms(2,6,7), of QDOS_PROGRAM_CAP room "ed_name ?ed" r d' m s cap] by (simp add: assms(1))
  have "(ok, sh') = (if r \<noteq> STORE_OK then
      (False, set_message (if r \<noteq> STORE_TOO_BIG then ''COULD NOT SAVE''
         else if ed_text ?ed \<noteq> [] then ''TOO BIG TO SAVE'' else ''NOTHING TO SAVE'') True (page (\<lambda>p. p\<lparr>pg_store := d'\<rparr>) sh1))
    else (True, edit (\<lambda>ed. ed\<lparr>ed_dirty := False\<rparr>) (forget_here (ed_name ?ed) (page (\<lambda>p. p\<lparr>pg_store := d'\<rparr>) sh1))))"
    using True assms(3,4,9) w by (cases "r = STORE_OK") (auto simp: edit_save_def Let_def)
  then show ?thesis
    using True assms(4) stored by (cases "r = STORE_OK") simp_all
qed

lemma saved_text_is_stored_witness:
  "let (ok, sh') = edit_save small_host small_desk
   in ok \<and> qdos_program_load (filestore_hal esp32_dirs 4096) SCOPE_USER ''sq'' QDOS_PROGRAM_CAP (pg_store (sh_world sh')) = Inr (new_program ''sq'')"
proof -
  let ?ed = "qdos_editor_open ''sq'' None" and ?h = "filestore_hal esp32_dirs 4096"
  have ed: "ed_text ?ed = new_program ''sq''" "ed_name ?ed = ''sq''" "nul \<notin> set (ed_text ?ed)" "nul \<notin> set (new_program ''sq'')" by code_simp+
  have store: "fst (qdos_program_save ?h ''sq'' (new_program ''sq'') shipped_disk) = STORE_OK" "\<not> qdos_app_exists ?h ''sq'' shipped_disk"
    by code_simp+
  have p: "sh_world small_desk = small_pages" "pg_ed small_pages = ?ed" "pg_store small_pages = shipped_disk"
    "ho_hal (small_host :: (unit, bool, disk, unit) host) = ?h"
    "ho_mc (small_host :: (unit, bool, disk, unit) host) = small_session" "\<not> sh_evaluating small_desk"
    by (simp_all add: small_desk_def fresh_shell_def small_pages_def small_host_def)
  obtain sh1 where e: "qdos_guarded_eval small_session (new_program ''sq'') small_desk = (True, sh1)" "sh_world sh1 = small_pages"
    using p by (simp add: qdos_guarded_eval_def small_session_def small_word_def new_program_def Let_def)
  then have checked: "edit_compiles small_host small_desk = (True, sh1)" using p ed store by (simp add: edit_compiles_def)
  obtain ok sh' where s: "edit_save small_host small_desk = (ok, sh')" by fastforce
  then have ok using checked e store by (auto simp: edit_save_def p ed Let_def split_beta)
  then show ?thesis
    using saved_text_is_stored [OF p(4) esp32_dirs_apart checked refl _ _ _ _ s] shipped_disk_ok e(2)
    by (simp add: p ed s store inv_open)
qed

section \<open>Typing a name on the list\<close>

lemma first_row_least:
  "first_row P [0..<n] = (if \<exists>i<n. P i then Some (LEAST i. i < n \<and> P i) else None)"
proof (cases "first_row P [0..<n]")
  case None
  then show ?thesis using first_row_None [OF None] by auto
next
  case (Some i)
  have below: "first_row P xs = Some i \<Longrightarrow> sorted xs \<Longrightarrow> j \<in> set xs \<Longrightarrow> P j \<Longrightarrow> i \<le> j" for xs :: "nat list" and j
    by (induction xs) (auto split: if_splits dest: first_row_Some)
  have "i < n" "P i" using first_row_Some [OF Some] by auto
  moreover have "(LEAST i. i < n \<and> P i) = i"
    using below [OF Some] \<open>i < n\<close> \<open>P i\<close> by (intro Least_equality) auto
  ultimately show ?thesis using Some by auto
qed

lemma find_row_pages:
  "list_find_row start sh = (let p = sh_world sh; hits = (\<lambda>i. i < list_count p \<and> prefix_of start (list_name p i))
     in if \<exists>i. hits i then (True, list_scroll_into_view (page (\<lambda>p. p\<lparr>pg_list_sel := (LEAST i. hits i), pg_list_top := (LEAST i. hits i)\<rparr>) sh))
        else (False, sh))"
  by (auto simp: list_find_row_def first_row_least Let_def)

text \<open>
  Typing on the list of programs, or on the catalog, goes to the first row whose name starts with what has been
  typed since the last other key, capitals counting as small letters; a letter that leaves no such row is not taken, and
  the selection stays where it was.
\<close>

theorem typing_finds_the_first_match:
  assumes "length (pg_list_find p) + 1 < QDOS_WORDLIST_NAME" and "p = sh_world sh"
    and "want = (if code (CHR ''A'') \<le> code ch \<and> code ch \<le> code (CHR ''Z'') then char_of (code ch + 32) else ch)"
    and "p' = sh_world (list_typed ch sh)"
  shows "((\<exists>i < list_count p. prefix_of (pg_list_find p @ [want]) (list_name p i)) \<longrightarrow>
      pg_list_find p' = pg_list_find p @ [want] \<and>
      pg_list_sel p' = (LEAST i. i < list_count p \<and> prefix_of (pg_list_find p @ [want]) (list_name p i))) \<and>
    (\<not> (\<exists>i < list_count p. prefix_of (pg_list_find p @ [want]) (list_name p i)) \<longrightarrow> p' = p)"
  using assms(1)
  by (auto simp: assms(2-4) list_typed_def Let_def find_row_pages list_scroll_into_view_def)

lemma typing_finds_the_first_match_witness:
  "pg_list_sel (sh_world (list_typed (CHR ''T'') (small_desk\<lparr>sh_world := small_pages\<lparr>pg_list_all := True, pg_list := [''dup'', ''tan'', ''sq'', ''tau'']\<rparr>\<rparr>))) = 1"
proof -
  define p where "p = small_pages\<lparr>pg_list_all := True, pg_list := [''dup'', ''tan'', ''sq'', ''tau'']\<rparr>"
  define sh where "sh = small_desk\<lparr>sh_world := p\<rparr>"
  define want where "want = (if code (CHR ''A'') \<le> code (CHR ''T'') \<and> code (CHR ''T'') \<le> code (CHR ''Z'') then char_of (code (CHR ''T'') + 32) else CHR ''T'')"
  have want: "want = CHR ''t''" unfolding want_def by code_simp
  define hits where "hits i \<longleftrightarrow> i < list_count p \<and> prefix_of (pg_list_find p @ [want]) (list_name p i)" for i
  have "hits 1" "\<not> hits 0" by (simp_all add: hits_def want p_def small_pages_def list_count_def list_name_def prefix_of_def)
  then have "(LEAST i. hits i) = 1" by (intro Least_equality) (auto intro: Suc_leI gr0I)
  moreover have "length (pg_list_find p) + 1 < QDOS_WORDLIST_NAME" by (simp add: p_def small_pages_def QDOS_WORDLIST_NAME_def)
  moreover have "p = sh_world sh" by (simp add: sh_def)
  ultimately have "pg_list_sel (sh_world (list_typed (CHR ''T'') sh)) = 1"
    using typing_finds_the_first_match [of p sh want "CHR ''T''", OF _ _ want_def refl] \<open>hits 1\<close> unfolding hits_def by auto
  then show ?thesis by (simp add: sh_def p_def)
qed

end
