(* ===== verification/RunLoop.thy ===== *)
theory RunLoop
  imports DeskKeys
begin

text \<open>
  The loop the machine runs in (\<^verbatim>\<open>qdos_shell_run\<close>): keys drained, the card reread when
  something lands on it, the cursor blinking and settling, the warning and the power-off of a machine left alone, and
  how long to wait for the next of them. The clock is the 32 bits of \<^verbatim>\<open>ticks_ms\<close>, which wrap.
\<close>

section \<open>What one turn of the loop is given\<close>

definition CURSOR_BLINK_MS :: "32 word" where "CURSOR_BLINK_MS = 500"
definition CURSOR_SETTLE_MS :: "32 word" where "CURSOR_SETTLE_MS = 10000"
definition AUTO_OFF_WARN_MS :: "32 word" where "AUTO_OFF_WARN_MS = 10000"
definition STATUS_POLL_MS :: int where "STATUS_POLL_MS = 60000"

text \<open>
  What the hal says during a turn: whether it is running when the turn begins and after the keys, the keys it has, which
  face of the keypad is live, whether the card changed, the ticks, the time of day where there is a clock that is set, and the
  charge, or -1 where there is no battery. The clock and the charge read the same all through a turn.
\<close>

datatype qdos_keypad_mod = QDOS_MOD_NONE | QDOS_MOD_ALPHA | QDOS_MOD_SYMBOL

record turn =
  tn_up :: bool
  tn_keys :: "qdos_key_event list"
  tn_modifier :: "qdos_keypad_mod option"
  tn_changed :: bool
  tn_now :: "32 word"
  tn_running :: bool
  tn_time :: "nat option"
  tn_battery :: int

text \<open>
  The shell with what the loop keeps: \<open>lp_face\<close> is \<^verbatim>\<open>shown_face\<close>, \<open>lp_status\<close> the band as last
  drawn, and \<open>lp_drawn\<close> the cursor as last drawn.
\<close>

record ('p, 'q, 'd, 'r) loop =
  lp_sh :: "('p, 'q, 'd, 'r) desk"
  lp_last_key :: "32 word"
  lp_last_blink :: "32 word"
  lp_cursor_on :: bool
  lp_off_warned :: bool
  lp_face :: char
  lp_status :: cstring
  lp_drawn :: bool

text \<open>
  The graph taken again before it is drawn, which evaluates, is a parameter, as is how many folders can be open at once,
  past which opening one fails.
\<close>

record ('p, 'q, 'd, 'r) board =
  bd_host :: "('p, 'q, 'd, 'r) host"
  graph_sample :: "('p, 'q, 'd, 'r) desk \<Rightarrow> ('p, 'q, 'd, 'r) desk"
  open_dirs :: nat

definition modifier_char :: "turn \<Rightarrow> char" where
  "modifier_char tn =
     (case tn_modifier tn of
        None \<Rightarrow> nul
      | Some QDOS_MOD_ALPHA \<Rightarrow> CHR ''A''
      | Some QDOS_MOD_SYMBOL \<Rightarrow> CHR ''#''
      | Some _ \<Rightarrow> nul)"

definition has_cursor :: "('p, 'q, 'w) shell \<Rightarrow> bool" where
  "has_cursor sh \<longleftrightarrow>
     (if sh_field sh \<noteq> FIELD_NONE then sh_message sh = []
      else if sh_mode sh = QDOS_MODE_EDIT then True
      else if sh_mode sh = QDOS_MODE_CALC \<or> sh_mode sh = QDOS_MODE_LINE \<or> sh_mode sh = QDOS_MODE_PLOT_EDIT then sh_message sh = []
      else False)"

section \<open>The band and drawing\<close>

definition status_text :: "turn \<Rightarrow> cstring" where
  "status_text tn =
     clip 16 ((case tn_time tn of
                 None \<Rightarrow> []
               | Some seconds \<Rightarrow> clip 8 (dec2 (seconds div 3600) @ '':'' @ dec2 (seconds div 60 mod 60)))
              @ ''|''
              @ (if 0 \<le> tn_battery tn then clip 8 (dec (nat (tn_battery tn)) @ ''%'') else []))"

definition status_stale :: "turn \<Rightarrow> ('p, 'q, 'd, 'r) loop \<Rightarrow> bool" where
  "status_stale tn lp \<longleftrightarrow> status_text tn \<noteq> lp_status lp"

definition render :: "('p, 'q, 'd, 'r) board \<Rightarrow> turn \<Rightarrow> ('p, 'q, 'd, 'r) loop \<Rightarrow> ('p, 'q, 'd, 'r) loop" where
  "render bd tn lp =
     lp\<lparr>lp_sh := (if sh_mode (lp_sh lp) = QDOS_MODE_GRAPH \<or> sh_mode (lp_sh lp) = QDOS_MODE_GRAPH3
                  then graph_sample bd (lp_sh lp) else lp_sh lp),
        lp_status := status_text tn, lp_drawn := lp_cursor_on lp\<rparr>"

section \<open>The card\<close>

definition qdos_natives_find :: "cstring \<Rightarrow> ('d, 'r) pages \<Rightarrow> bool" where
  "qdos_natives_find name p \<longleftrightarrow> list_ex (\<lambda>n. n_name n = name) (pg_natives p)"

text \<open>A folder found is looked into by its name alone; the walk stops at the first module not open.\<close>

fun spot_new_module ::
    "'d hal \<Rightarrow> ('d, 'r) pages \<Rightarrow> nat \<Rightarrow> cstring \<Rightarrow> cstring option \<Rightarrow> cstring option \<times> bool" where
  "spot_new_module hal p dirs entry w =
     (case qdos_app_name entry QDOS_PROGRAM_NAME_MAX of
        Some folder \<Rightarrow>
          let w' = (case dirs of
                      0 \<Rightarrow> w
                    | Suc n \<Rightarrow> list_visit hal SCOPE_INBOX (Some folder) (spot_new_module hal p n) (pg_store p) w)
          in (w', w' = None)
      | None \<Rightarrow>
          (case qdos_module_name entry QDOS_PROGRAM_NAME_MAX of
             None \<Rightarrow> (w, True)
           | Some name \<Rightarrow> if qdos_natives_find name p then (w, True) else (Some name, False)))"

definition card_has_new_module :: "'d hal \<Rightarrow> nat \<Rightarrow> ('d, 'r) pages \<Rightarrow> cstring option" where
  "card_has_new_module hal dirs p =
     (case dirs of
        0 \<Rightarrow> None
      | Suc n \<Rightarrow> list_visit hal SCOPE_INBOX None (spot_new_module hal p n) (pg_store p) None)"

definition reload_card :: "('p, 'q, 'd, 'r) board \<Rightarrow> ('p, 'q, 'd, 'r) desk \<Rightarrow> ('p, 'q, 'd, 'r) desk" where
  "reload_card bd sh =
     (let ho = bd_host bd;
          (found, sh1) = qdos_programs_restore (ho_hal ho) SCOPE_INBOX (session_interp ho) (pg_store (sh_world sh)) sh;
          sh2 = register_apps (ho_hal ho) (qd_interp_register ho) sh1;
          sh3 = (if sh_mode sh2 = QDOS_MODE_LIST then
                   let was = pg_list_sel (sh_world sh2); sh3 = list_load ho sh2; count = list_count (sh_world sh3)
                   in list_scroll_into_view
                        (page (\<lambda>p. p\<lparr>pg_list_sel := (if was < count then was else if count > 0 then count - 1 else 0)\<rparr>) sh3)
                 else sh2)
      in set_message
           (clip (QDOS_COLS + 1)
             (case card_has_new_module (ho_hal ho) (open_dirs bd) (sh_world sh3) of
                Some waiting \<Rightarrow> ''RESTART FOR '' @ [CHR 0x27] @ take 10 waiting @ [CHR 0x27]
              | None \<Rightarrow> dec (nat found) @ '' FROM THE CARD''))
           False sh3)"

section \<open>One turn\<close>

definition save_now :: "('p, 'q, 'd, 'r) host \<Rightarrow> ('p, 'q, 'd, 'r) desk \<Rightarrow> ('p, 'q, 'd, 'r) desk" where
  "save_now ho sh =
     page (\<lambda>p. p\<lparr>pg_store := snd (qdos_storage_save_session (ho_hal ho) (mc_rt (ho_mc ho)) (sh_stack sh) (pg_store p))\<rparr>) sh"

text \<open>The keys there are, one after another; true where one of them turned the machine off.\<close>

fun drain :: "('p, 'q, 'd, 'r) host \<Rightarrow> qdos_key_event list \<Rightarrow> ('p, 'q, 'd, 'r) desk \<Rightarrow> bool \<times> ('p, 'q, 'd, 'r) desk" where
  "drain ho [] sh = (False, sh)"
| "drain ho (ev # evs) sh =
     (let sh1 = handle_key ho ev sh in if pg_powering_off (sh_world sh1) then (True, sh1) else drain ho evs sh1)"

text \<open>The shortest of two waits, -1 being none.\<close>

definition sooner :: "int \<Rightarrow> int \<Rightarrow> int" where
  "sooner until timeout = (if timeout < 0 \<or> until < timeout then until else timeout)"

text \<open>How long the cursor stays as it is, -1 where it does not blink.\<close>

definition blink_wait :: "turn \<Rightarrow> ('p, 'q, 'd, 'r) loop \<Rightarrow> bool \<Rightarrow> int" where
  "blink_wait tn lp settled =
     (if \<not> settled \<and> has_cursor (lp_sh lp) then
        let since = tn_now tn - lp_last_blink lp in if CURSOR_BLINK_MS \<le> since then 0 else sint (CURSOR_BLINK_MS - since)
      else -1)"

text \<open>What is due next: the blink, the minute, the warning or the power-off.\<close>

definition wait_for :: "turn \<Rightarrow> ('p, 'q, 'd, 'r) loop \<Rightarrow> 32 word \<Rightarrow> bool \<Rightarrow> 32 word \<Rightarrow> int" where
  "wait_for tn lp idle settled off_after =
     (let blink = blink_wait tn lp settled;
          band = (case tn_time tn of
                    Some seconds \<Rightarrow> sooner ((60 - int seconds mod 60) * 1000) blink
                  | None \<Rightarrow> if 0 \<le> tn_battery tn then sooner STATUS_POLL_MS blink else blink)
      in if 0 < off_after then
           let due = (if lp_off_warned lp then off_after else off_after - AUTO_OFF_WARN_MS)
           in sooner (if due \<le> idle then 0 else sint (due - idle)) band
         else band)"

text \<open>The cursor settling or blinking, and the band brought up to date; then the warning.\<close>

definition blinked :: "('p, 'q, 'd, 'r) board \<Rightarrow> turn \<Rightarrow> ('p, 'q, 'd, 'r) loop \<Rightarrow> ('p, 'q, 'd, 'r) loop" where
  "blinked bd tn lp =
     (let settled = (CURSOR_SETTLE_MS \<le> tn_now tn - lp_last_key lp)
      in if settled \<and> \<not> lp_cursor_on lp then render bd tn (lp\<lparr>lp_cursor_on := True\<rparr>)
         else if status_stale tn lp then render bd tn lp
         else if \<not> settled \<and> has_cursor (lp_sh lp) \<and> CURSOR_BLINK_MS \<le> tn_now tn - lp_last_blink lp then
           render bd tn (lp\<lparr>lp_last_blink := tn_now tn, lp_cursor_on := \<not> lp_cursor_on lp\<rparr>)
         else lp)"

definition warned :: "('p, 'q, 'd, 'r) board \<Rightarrow> turn \<Rightarrow> ('p, 'q, 'd, 'r) loop \<Rightarrow> ('p, 'q, 'd, 'r) loop" where
  "warned bd tn lp = render bd tn (lp\<lparr>lp_off_warned := True, lp_sh := set_message ''TURNING OFF'' False (lp_sh lp)\<rparr>)"

text \<open>A turn returns from the loop with the session saved, breaks off, or waits.\<close>

datatype outcome = Ended | Stopped | Waits int

definition run_turn ::
    "('p, 'q, 'd, 'r) board \<Rightarrow> turn \<Rightarrow> ('p, 'q, 'd, 'r) loop \<Rightarrow> outcome \<times> ('p, 'q, 'd, 'r) loop" where
  "run_turn bd tn lp =
     (let ho = bd_host bd;
          (off, sh1) = drain ho (tn_keys tn) (lp_sh lp)
      in if \<not> tn_up tn then (Stopped, lp)
         else if off then (Ended, lp\<lparr>lp_sh := save_now ho sh1\<rparr>)
         else
           let face = modifier_char tn;
               changed = (\<not> pg_usb_exported (sh_world sh1) \<and> tn_changed tn);
               dirty = (tn_keys tn \<noteq> [] \<or> face \<noteq> lp_face lp \<or> changed);
               lp1 = lp\<lparr>lp_sh := (if changed then reload_card bd sh1 else sh1), lp_face := face\<rparr>;
               now = tn_now tn;
               lp2 = (if dirty then
                        render bd tn (lp1\<lparr>lp_last_key := now, lp_last_blink := now, lp_cursor_on := True, lp_off_warned := False\<rparr>)
                      else lp1);
               idle = now - lp_last_key lp2;
               lp3 = blinked bd tn lp2;
               off_after = auto_off_ms (pg_usb_exported (sh_world (lp_sh lp3))) (pg_settings (sh_world (lp_sh lp3)))
           in if 0 < off_after \<and> off_after \<le> idle then (Ended, lp3\<lparr>lp_sh := save_now ho (lp_sh lp3)\<rparr>)
              else
                let lp4 = (if 0 < off_after \<and> \<not> lp_off_warned lp3 \<and> off_after - AUTO_OFF_WARN_MS \<le> idle then
                             warned bd tn lp3
                           else lp3)
                in if \<not> tn_running tn then (Stopped, lp4)
                   else (Waits (wait_for tn lp4 idle (CURSOR_SETTLE_MS \<le> idle) off_after), lp4))"

text \<open>
  The turns there are input for: the loop still going, the function left from inside it, or the loop broken off, after which
  the session is saved at the end of the function.
\<close>

datatype way = Going | Left | Broke

fun run_turns :: "('p, 'q, 'd, 'r) board \<Rightarrow> turn list \<Rightarrow> ('p, 'q, 'd, 'r) loop \<Rightarrow> way \<times> ('p, 'q, 'd, 'r) loop" where
  "run_turns bd [] lp = (Going, lp)"
| "run_turns bd (tn # tns) lp =
     (case run_turn bd tn lp of
        (Ended, lp') \<Rightarrow> (Left, lp')
      | (Stopped, lp') \<Rightarrow> (Broke, lp')
      | (Waits _, lp') \<Rightarrow> run_turns bd tns lp')"

definition qdos_shell_run ::
    "('p, 'q, 'd, 'r) board \<Rightarrow> turn \<Rightarrow> turn list \<Rightarrow> ('p, 'q, 'd, 'r) loop \<Rightarrow> bool \<times> ('p, 'q, 'd, 'r) loop" where
  "qdos_shell_run bd start tns lp =
     (case run_turns bd tns
             ((render bd start lp)\<lparr>lp_last_key := tn_now start, lp_last_blink := tn_now start, lp_face := modifier_char start\<rparr>) of
        (Going, lp') \<Rightarrow> (False, lp')
      | (Left, lp') \<Rightarrow> (True, lp')
      | (Broke, lp') \<Rightarrow> (True, lp'\<lparr>lp_sh := save_now (bd_host bd) (lp_sh lp')\<rparr>))"

section \<open>The clock\<close>

lemma ticks_apart: "tk \<le> t \<Longrightarrow> t - tk < 2 ^ 32 \<Longrightarrow> unat (of_nat t - of_nat tk :: 32 word) = t - tk"
  by (simp flip: of_nat_diff add: unat_of_nat take_bit_nat_eq_self)

lemma sint_apart: "b \<le> a \<Longrightarrow> unat a < 2 ^ 31 \<Longrightarrow> sint (a - b) = int (unat a) - int (unat b)" for a b :: "32 word"
proof -
  assume "b \<le> a" "unat a < 2 ^ 31"
  then have u: "unat (a - b) = unat a - unat b" by (simp add: unat_sub)
  have "a - b = word_of_int (int (unat a - unat b))" by (simp flip: u)
  then have "sint (a - b) = signed_take_bit 31 (int (unat a - unat b))" by (simp only: signed_of_int) simp
  also have "\<dots> = int (unat a - unat b)"
    using \<open>unat a < 2 ^ 31\<close> by (intro signed_take_bit_int_eq_self) simp_all
  finally have "sint (a - b) = int (unat a - unat b)" .
  then show ?thesis using \<open>b \<le> a\<close> by (simp add: word_le_nat_alt of_nat_diff)
qed

lemma sint_over: "\<not> a \<le> b \<Longrightarrow> unat a < 2 ^ 31 \<Longrightarrow> 0 < sint (a - b)" for a b :: "32 word"
  using sint_apart [of b a] by (simp add: word_le_def)

lemma off_times: "settings_ok st \<Longrightarrow> auto_off_ms usb st \<in> {0, 300000, 600000, 1800000, 3600000}"
proof -
  assume "settings_ok st"
  then have "st_auto_off st < 5" by (simp add: settings_ok_def AUTO_OFF_COUNT_def AUTO_OFF_MINUTES_def)
  then have "st_auto_off st = 0 \<or> st_auto_off st = 1 \<or> st_auto_off st = 2 \<or> st_auto_off st = 3 \<or> st_auto_off st = 4" by linarith
  then show ?thesis by (auto simp: auto_off_ms_def AUTO_OFF_MINUTES_def)
qed

section \<open>A machine left alone\<close>

text \<open>A turn in which nothing is pressed, no face of the keypad changes and nothing lands on the card.\<close>

definition quiet :: "turn \<Rightarrow> ('p, 'q, 'd, 'r) loop \<Rightarrow> bool" where
  "quiet tn lp \<longleftrightarrow> tn_up tn \<and> tn_running tn \<and> tn_keys tn = [] \<and> modifier_char tn = lp_face lp \<and> \<not> tn_changed tn"

text \<open>When the machine goes off of itself, as it is set.\<close>

definition goes_off :: "('p, 'q, 'd, 'r) loop \<Rightarrow> 32 word" where
  "goes_off lp = auto_off_ms (pg_usb_exported (sh_world (lp_sh lp))) (pg_settings (sh_world (lp_sh lp)))"

text \<open>Taking a graph again changes no setting.\<close>

definition draws_only :: "('p, 'q, 'd, 'r) board \<Rightarrow> bool" where
  "draws_only bd \<longleftrightarrow>
     (\<forall>sh. pg_settings (sh_world (graph_sample bd sh)) = pg_settings (sh_world sh) \<and>
           pg_usb_exported (sh_world (graph_sample bd sh)) = pg_usb_exported (sh_world sh))"

lemma render_keeps [simp]:
  "lp_last_key (render bd tn lp) = lp_last_key lp" "lp_last_blink (render bd tn lp) = lp_last_blink lp"
  "lp_off_warned (render bd tn lp) = lp_off_warned lp" "lp_face (render bd tn lp) = lp_face lp"
  "lp_cursor_on (render bd tn lp) = lp_cursor_on lp" "lp_drawn (render bd tn lp) = lp_cursor_on lp"
  by (simp_all add: render_def)

lemma goes_off_render: "draws_only bd \<Longrightarrow> goes_off (render bd tn lp) = goes_off lp"
  by (simp add: goes_off_def render_def draws_only_def)

lemma goes_off_fields [simp]:
  "goes_off (lp\<lparr>lp_cursor_on := c\<rparr>) = goes_off lp" "goes_off (lp\<lparr>lp_last_blink := b\<rparr>) = goes_off lp"
  "goes_off (lp\<lparr>lp_off_warned := w\<rparr>) = goes_off lp" "goes_off (lp\<lparr>lp_face := f\<rparr>) = goes_off lp"
  "goes_off (lp\<lparr>lp_off_warned := w, lp_sh := set_message s e (lp_sh lp)\<rparr>) = goes_off lp"
  using message_frame [of s e "lp_sh lp"] by (auto simp: goes_off_def)

lemma blinked_keeps [simp]:
  "lp_last_key (blinked bd tn lp) = lp_last_key lp" "lp_off_warned (blinked bd tn lp) = lp_off_warned lp" "lp_face (blinked bd tn lp) = lp_face lp"
  by (simp_all add: blinked_def Let_def)

lemma goes_off_blinked: "draws_only bd \<Longrightarrow> goes_off (blinked bd tn lp) = goes_off lp"
  by (simp add: blinked_def Let_def goes_off_render)

lemma quiet_turn:
  assumes "quiet tn lp"
  shows "run_turn bd tn lp =
    (let idle = tn_now tn - lp_last_key lp; lp3 = blinked bd tn lp; off = goes_off lp3
     in if 0 < off \<and> off \<le> idle then (Ended, lp3\<lparr>lp_sh := save_now (bd_host bd) (lp_sh lp3)\<rparr>)
        else let lp4 = (if 0 < off \<and> \<not> lp_off_warned lp3 \<and> off - AUTO_OFF_WARN_MS \<le> idle then warned bd tn lp3 else lp3)
             in (Waits (wait_for tn lp4 idle (CURSOR_SETTLE_MS \<le> idle) off), lp4))"
  using assms by (simp add: run_turn_def quiet_def goes_off_def Let_def)

text \<open>The wait asked for ends by what is due, whatever else it is for.\<close>

lemma sooner_le: "0 \<le> a \<Longrightarrow> -1 \<le> b \<Longrightarrow> 0 \<le> sooner a b \<and> sooner a b \<le> a \<and> (0 \<le> b \<longrightarrow> sooner a b \<le> b)"
  by (auto simp: sooner_def)

lemma sooner_bound: "-1 \<le> b \<Longrightarrow> 0 \<le> a \<Longrightarrow> -1 \<le> sooner a b"
  by (auto simp: sooner_def)

lemma blink_wait_range:
  "-1 \<le> blink_wait tn lp settled" "\<not> settled \<Longrightarrow> has_cursor (lp_sh lp) \<Longrightarrow> 0 \<le> blink_wait tn lp settled \<and> blink_wait tn lp settled \<le> 500"
proof -
  have range: "0 \<le> (if CURSOR_BLINK_MS \<le> since then 0 else sint (CURSOR_BLINK_MS - since)) \<and>
      (if CURSOR_BLINK_MS \<le> since then 0 else sint (CURSOR_BLINK_MS - since)) \<le> 500" for since
  proof (cases "CURSOR_BLINK_MS \<le> since")
    case False
    then have "uint since < 500" by (simp add: CURSOR_BLINK_MS_def word_le_def)
    moreover have "0 \<le> uint since" by simp
    moreover have "sint (CURSOR_BLINK_MS - since) = 500 - uint since"
      using sint_apart [of since CURSOR_BLINK_MS] False by (simp add: CURSOR_BLINK_MS_def)
    ultimately show ?thesis unfolding if_not_P [OF False] by linarith
  qed simp
  show "-1 \<le> blink_wait tn lp settled"
    using range [of "tn_now tn - lp_last_blink lp"] by (simp add: blink_wait_def Let_def split: if_splits)
  show "0 \<le> blink_wait tn lp settled \<and> blink_wait tn lp settled \<le> 500" if "\<not> settled" "has_cursor (lp_sh lp)"
    using range [of "tn_now tn - lp_last_blink lp"] that by (simp add: blink_wait_def Let_def)
qed

lemma wait_for_le:
  assumes "0 < off" and "unat off < 2 ^ 31" and "AUTO_OFF_WARN_MS \<le> off"
    and "due = (if lp_off_warned lp then off else off - AUTO_OFF_WARN_MS)"
  shows "0 \<le> wait_for tn lp idle settled off \<and>
    wait_for tn lp idle settled off \<le> (if due \<le> idle then 0 else int (unat due) - int (unat idle))"
proof -
  let ?band = "case tn_time tn of Some seconds \<Rightarrow> sooner ((60 - int seconds mod 60) * 1000) (blink_wait tn lp settled)
     | None \<Rightarrow> if 0 \<le> tn_battery tn then sooner STATUS_POLL_MS (blink_wait tn lp settled) else blink_wait tn lp settled"
  have "0 \<le> (60 - int seconds mod 60) * 1000" for seconds by simp
  then have band: "-1 \<le> ?band"
    using blink_wait_range(1) [of tn lp settled] by (auto simp: STATUS_POLL_MS_def split: option.split intro!: sooner_bound)
  have "unat due < 2 ^ 31" using assms by (auto simp: unat_sub)
  then have "sint (due - idle) = int (unat due) - int (unat idle)" if "\<not> due \<le> idle"
    using that by (intro sint_apart) auto
  then have "0 \<le> (if due \<le> idle then 0 else sint (due - idle)) \<and>
      (if due \<le> idle then 0 else sint (due - idle)) = (if due \<le> idle then 0 else int (unat due) - int (unat idle))"
    by (auto simp: word_le_def)
  moreover have "wait_for tn lp idle settled off = sooner (if due \<le> idle then 0 else sint (due - idle)) ?band"
    using assms(1,4) by (simp add: wait_for_def Let_def)
  ultimately show ?thesis using sooner_le [OF _ band, of "if due \<le> idle then 0 else sint (due - idle)"] by simp
qed

text \<open>
  Turns at real times, each no later than the wait before it asked for, and nothing pressed: what a machine left alone
  is given. The ticks are the real time modulo \<open>2 ^ 32\<close>.
\<close>

fun left_alone :: "('p, 'q, 'd, 'r) board \<Rightarrow> nat \<Rightarrow> int \<Rightarrow> ('p, 'q, 'd, 'r) loop \<Rightarrow> (nat \<times> turn) list \<Rightarrow> bool" where
  "left_alone bd t w lp [] = True"
| "left_alone bd t w lp ((t', tn) # rest) \<longleftrightarrow>
     quiet tn lp \<and> tn_now tn = of_nat t' \<and> t \<le> t' \<and> int t' \<le> int t + w \<and>
     (case run_turn bd tn lp of (Waits w', lp') \<Rightarrow> left_alone bd t' w' lp' rest | _ \<Rightarrow> rest = [])"

text \<open>What is due next, in milliseconds since the last key.\<close>

definition due_at :: "nat \<Rightarrow> ('p, 'q, 'd, 'r) loop \<Rightarrow> nat" where
  "due_at off lp = (if lp_off_warned lp then off else off - 10000)"

definition alone_since :: "nat \<Rightarrow> nat \<Rightarrow> nat \<Rightarrow> int \<Rightarrow> ('p, 'q, 'd, 'r) loop \<Rightarrow> bool" where
  "alone_since tk off t w lp \<longleftrightarrow>
     lp_last_key lp = of_nat tk \<and> unat (goes_off lp) = off \<and> 10000 < off \<and> off < 2 ^ 31 \<and> tk \<le> t \<and>
     int t + w \<le> int (tk + due_at off lp) \<and> (lp_off_warned lp \<longrightarrow> tk + off - 10000 \<le> t)"

lemma alone_turn:
  assumes "draws_only bd" and "alone_since tk off t w lp" and "quiet tn lp" and "tn_now tn = of_nat t'" and "t \<le> t'"
    and "int t' \<le> int t + w"
  shows "t' \<le> tk + off" "t' = tk + off \<Longrightarrow> \<exists>lp'. run_turn bd tn lp = (Ended, lp')"
    "t' \<noteq> tk + off \<Longrightarrow> \<exists>w' lp'. run_turn bd tn lp = (Waits w', lp') \<and> 0 \<le> w' \<and> t' < tk + due_at off lp' \<and> alone_since tk off t' w' lp' \<and>
       (lp_off_warned lp' \<longleftrightarrow> tk + off - 10000 \<le> t')"
    "\<not> lp_off_warned lp \<Longrightarrow> t' \<le> tk + off - 10000"
proof -
  let ?idle = "tn_now tn - lp_last_key lp" and ?off = "goes_off lp"
  note since = assms(2) [unfolded alone_since_def]
  have due: "t' \<le> tk + due_at off lp" "tk \<le> t'" using since assms(5,6) by auto
  then show le: "t' \<le> tk + off" and "\<not> lp_off_warned lp \<Longrightarrow> t' \<le> tk + off - 10000"
    using since by (auto simp: due_at_def split: if_splits)
  have idle: "unat ?idle = t' - tk"
  proof -
    have "t' - tk < 2 ^ 32" using since le by simp linarith
    then show ?thesis using since assms(4) ticks_apart [OF due(2)] by simp
  qed
  have off: "0 < ?off" "AUTO_OFF_WARN_MS \<le> ?off" "unat ?off < 2 ^ 31" "unat (?off - AUTO_OFF_WARN_MS) = off - 10000" "unat ?off = off"
    using since by (auto simp: word_less_nat_alt word_le_nat_alt AUTO_OFF_WARN_MS_def unat_sub)
  have over: "?off \<le> ?idle \<longleftrightarrow> off \<le> t' - tk" "?off - AUTO_OFF_WARN_MS \<le> ?idle \<longleftrightarrow> off - 10000 \<le> t' - tk"
    using off idle by (simp_all add: word_le_nat_alt)
  let ?lp3 = "blinked bd tn lp"
  let ?lp4 = "if \<not> lp_off_warned lp \<and> off - 10000 \<le> t' - tk then warned bd tn ?lp3 else ?lp3"
  have same: "goes_off ?lp3 = ?off" "goes_off ?lp4 = ?off"
    using assms(1) by (simp_all add: goes_off_blinked warned_def goes_off_render)
  have turn: "run_turn bd tn lp = (if off \<le> t' - tk then (Ended, ?lp3\<lparr>lp_sh := save_now (bd_host bd) (lp_sh ?lp3)\<rparr>)
      else (Waits (wait_for tn ?lp4 ?idle (CURSOR_SETTLE_MS \<le> ?idle) ?off), ?lp4))"
    using off(1) over by (simp add: quiet_turn [OF assms(3)] Let_def same(1))
  then show "\<exists>lp'. run_turn bd tn lp = (Ended, lp')" if "t' = tk + off" using that by auto
  assume "t' \<noteq> tk + off"
  with le due have less: "t' - tk < off" by linarith
  have warn4: "lp_off_warned ?lp4 \<longleftrightarrow> tk + off - 10000 \<le> t'"
    using since due assms(5) by (auto simp: warned_def)
  let ?due = "if lp_off_warned ?lp4 then ?off else ?off - AUTO_OFF_WARN_MS"
  have "unat ?due = due_at off ?lp4" using off by (simp add: due_at_def)
  moreover have "\<not> ?due \<le> ?idle"
    using over less warn4 since due by (auto split: if_splits)
  ultimately have wait: "0 \<le> wait_for tn ?lp4 ?idle (CURSOR_SETTLE_MS \<le> ?idle) ?off"
    "wait_for tn ?lp4 ?idle (CURSOR_SETTLE_MS \<le> ?idle) ?off \<le> int (due_at off ?lp4) - int (t' - tk)"
    using wait_for_le [OF off(1,3,2) refl, of tn ?lp4 ?idle "CURSOR_SETTLE_MS \<le> ?idle"] idle by simp_all
  have sooner_due: "t' < tk + due_at off ?lp4"
  proof -
    have "t' - tk < due_at off ?lp4"
      using \<open>unat ?due = due_at off ?lp4\<close> \<open>\<not> ?due \<le> ?idle\<close> idle unfolding word_le_nat_alt by linarith
    then show ?thesis using due(2) by linarith
  qed
  have "alone_since tk off t' (wait_for tn ?lp4 ?idle (CURSOR_SETTLE_MS \<le> ?idle) ?off) ?lp4"
    using wait since due warn4 same(2) off(5) by (auto simp: alone_since_def warned_def)
  then show "\<exists>w' lp'. run_turn bd tn lp = (Waits w', lp') \<and> 0 \<le> w' \<and> t' < tk + due_at off lp' \<and> alone_since tk off t' w' lp' \<and> (lp_off_warned lp' \<longleftrightarrow> tk + off - 10000 \<le> t')"
    using turn less warn4 wait(1) sooner_due by auto
qed

lemma blinked_band: "lp_status (blinked bd tn lp) = status_text tn"
  by (simp add: blinked_def Let_def render_def status_stale_def)

lemma quiet_frame:
  assumes "quiet tn lp" and "run_turn bd tn lp = (Waits w, lp')"
  shows "lp_face lp' = lp_face lp" "lp_status lp' = status_text tn" "lp_off_warned lp \<Longrightarrow> lp_off_warned lp'"
  using assms(2) unfolding quiet_turn [OF assms(1)]
  by (auto simp: Let_def warned_def blinked_band split: if_splits) (simp_all add: render_def)

text \<open>A wait of nothing follows only where the band was redrawn in place of a blink, or the warning was given.\<close>

lemma no_pause:
  assumes "alone_since tk off t' 0 lp'" and "\<not> tk + due_at off lp' \<le> t'"
    and "quiet tn lp" and "run_turn bd tn lp = (Waits 0, lp')" and "tn_now tn = of_nat t'"
  shows "lp_status lp \<noteq> status_text tn \<or> \<not> lp_off_warned lp \<and> lp_off_warned lp'"
proof (rule ccontr)
  assume "\<not> ?thesis"
  then have fresh: "\<not> status_stale tn lp" and warn: "lp_off_warned lp' \<Longrightarrow> lp_off_warned lp" by (auto simp: status_stale_def)
  let ?idle = "tn_now tn - lp_last_key lp" and ?lp3 = "blinked bd tn lp"
  let ?settled = "CURSOR_SETTLE_MS \<le> ?idle"
  have turn: "lp' = (if 0 < goes_off ?lp3 \<and> \<not> lp_off_warned ?lp3 \<and> goes_off ?lp3 - AUTO_OFF_WARN_MS \<le> ?idle then warned bd tn ?lp3 else ?lp3)"
    "wait_for tn lp' ?idle ?settled (goes_off ?lp3) = 0"
    using assms(4) unfolding quiet_turn [OF assms(3)] by (auto simp: Let_def split: if_splits)
  have lp': "lp' = ?lp3"
  proof (cases "0 < goes_off ?lp3 \<and> \<not> lp_off_warned ?lp3 \<and> goes_off ?lp3 - AUTO_OFF_WARN_MS \<le> ?idle")
    case True
    then have "lp' = warned bd tn ?lp3" using turn(1) by simp
    then have "lp_off_warned lp'" by (simp add: warned_def)
    with warn True show ?thesis by simp
  next
    case False
    then show ?thesis using turn(1) by auto
  qed
  have key: "lp_last_key lp' = lp_last_key lp" by (simp add: lp')
  note since = assms(1) [unfolded alone_since_def]
  have idle: "unat ?idle = t' - tk"
  proof -
    have "t' - tk < 2 ^ 32" using since assms(2) by (auto simp: due_at_def split: if_splits)
    then show ?thesis using since assms(5) key ticks_apart [of tk t'] by simp
  qed
  let ?off = "goes_off lp'" and ?due = "if lp_off_warned lp' then goes_off lp' else goes_off lp' - AUTO_OFF_WARN_MS"
  have off: "0 < ?off" "AUTO_OFF_WARN_MS \<le> ?off" "unat ?off < 2 ^ 31" "unat ?off = off"
    using since by (auto simp: word_less_nat_alt word_le_nat_alt AUTO_OFF_WARN_MS_def)
  have due: "unat ?due = due_at off lp'" "unat ?due < 2 ^ 31"
    using off since by (auto simp: due_at_def unat_sub AUTO_OFF_WARN_MS_def)
  have "\<not> ?due \<le> ?idle" using due(1) idle assms(2) since unfolding word_le_nat_alt by linarith
  then have "0 < sint (?due - ?idle)" using due(2) by (rule sint_over)
  then have until: "0 < (if ?due \<le> ?idle then 0 else sint (?due - ?idle))" using \<open>\<not> ?due \<le> ?idle\<close> by simp
  have "0 < (60 - int seconds mod 60) * 1000" for seconds by simp
  then have "blink_wait tn lp' ?settled = 0"
    using turn(2) off(1) until lp' by (auto simp: wait_for_def Let_def sooner_def STATUS_POLL_MS_def split: option.splits if_splits)
  then have dark: "\<not> ?settled" "has_cursor (lp_sh lp')" "CURSOR_BLINK_MS \<le> tn_now tn - lp_last_blink lp'"
  proof -
    have "0 < sint (CURSOR_BLINK_MS - x)" if "\<not> CURSOR_BLINK_MS \<le> x" for x
      using sint_over [OF that] by (simp add: CURSOR_BLINK_MS_def)
    note this [of "tn_now tn - lp_last_blink lp'"]
    then show "\<not> ?settled" "has_cursor (lp_sh lp')" "CURSOR_BLINK_MS \<le> tn_now tn - lp_last_blink lp'"
      using \<open>blink_wait tn lp' ?settled = 0\<close> by (auto simp: blink_wait_def Let_def split: if_splits)
  qed
  have "lp_last_blink lp' = tn_now tn \<or> lp' = lp \<and> \<not> (has_cursor (lp_sh lp) \<and> CURSOR_BLINK_MS \<le> tn_now tn - lp_last_blink lp)"
    using fresh dark(1) lp'
    by (cases "has_cursor (lp_sh lp) \<and> CURSOR_BLINK_MS \<le> tn_now tn - lp_last_blink lp") (simp_all add: blinked_def Let_def)
  then show False using dark(2,3) by (auto simp: CURSOR_BLINK_MS_def)
qed

text \<open>
  The turns of a machine woken by its timer alone: each comes when the wait before it is over, and there is none after a wait
  for ever. \<open>env\<close> is what the hal says at each time.
\<close>

fun timer_alone :: "('p, 'q, 'd, 'r) board \<Rightarrow> (nat \<Rightarrow> turn) \<Rightarrow> nat \<Rightarrow> nat \<Rightarrow> int \<Rightarrow> ('p, 'q, 'd, 'r) loop \<Rightarrow> (nat \<times> turn) list" where
  "timer_alone bd env 0 t w lp = []"
| "timer_alone bd env (Suc n) t w lp =
     (if w < 0 then []
      else
        let t' = t + nat w
        in (t', env t') #
           (case run_turn bd (env t') lp of (Waits w', lp') \<Rightarrow> timer_alone bd env n t' w' lp' | _ \<Rightarrow> []))"

definition asleep :: "(nat \<Rightarrow> turn) \<Rightarrow> ('p, 'q, 'd, 'r) loop \<Rightarrow> bool" where
  "asleep env lp \<longleftrightarrow> (\<forall>t. quiet (env t) lp \<and> tn_now (env t) = of_nat t)"

definition turns_left :: "(nat \<Rightarrow> turn) \<Rightarrow> nat \<Rightarrow> nat \<Rightarrow> ('p, 'q, 'd, 'r) loop \<Rightarrow> nat" where
  "turns_left env over t' lp =
     3 * (over - t') + (if lp_status lp = status_text (env t') then 0 else 1) + (if lp_off_warned lp then 0 else 1)"

lemma timer_turns_it_off:
  assumes "draws_only bd"
  shows "alone_since tk off t w lp \<Longrightarrow> 0 \<le> w \<Longrightarrow> asleep env lp \<Longrightarrow> turns_left env (tk + off) (t + nat w) lp < n \<Longrightarrow>
    left_alone bd t w lp (timer_alone bd env n t w lp) \<and>
    (\<exists>lp'. run_turns bd (map snd (timer_alone bd env n t w lp)) lp = (Left, lp')) \<and>
    fst (last (timer_alone bd env n t w lp)) = tk + off"
proof (induction n arbitrary: t w lp)
  case (Suc n)
  let ?t' = "t + nat w" and ?tn = "env (t + nat w)"
  have now: "quiet ?tn lp" "tn_now ?tn = of_nat ?t'" "t \<le> ?t'" "int ?t' \<le> int t + w"
    using Suc.prems(2,3) by (simp_all add: asleep_def)
  note this_turn = alone_turn [OF assms Suc.prems(1) now]
  show ?case
  proof (cases "?t' = tk + off")
    case True
    then obtain lp1 where r: "run_turn bd ?tn lp = (Ended, lp1)" using this_turn(2) by blast
    then show ?thesis using Suc.prems(2) now True by (simp add: Let_def)
  next
    case False
    then obtain w' lp1 where r: "run_turn bd ?tn lp = (Waits w', lp1)" and w': "0 \<le> w'" and inv: "alone_since tk off ?t' w' lp1"
      and late: "?t' < tk + due_at off lp1"
      using this_turn(3) by blast
    note frame = quiet_frame [OF now(1) r]
    have env: "asleep env lp1" using Suc.prems(3) frame(1) by (simp add: asleep_def quiet_def)
    have due: "int ?t' + w' \<le> int (tk + due_at off lp1)" "tk + due_at off lp1 \<le> tk + off" using inv by (auto simp: alone_since_def due_at_def)
    have "turns_left env (tk + off) (?t' + nat w') lp1 < turns_left env (tk + off) ?t' lp"
    proof (cases "w' = 0")
      case True
      have "\<not> tk + due_at off lp1 \<le> ?t'" using late by simp
      then have "lp_status lp \<noteq> status_text ?tn \<or> \<not> lp_off_warned lp \<and> lp_off_warned lp1"
        using no_pause [OF _ _ now(1) _ now(2)] inv r True by auto
      then show ?thesis using True frame(2,3) by (auto simp: turns_left_def)
    next
      case False
      then have "?t' + nat w' \<le> tk + off" "0 < nat w'" using due w' by linarith+
      then have "3 * (tk + off - (?t' + nat w')) + 2 < 3 * (tk + off - ?t')" by linarith
      then show ?thesis unfolding turns_left_def by (auto split: if_split)
    qed
    then have less: "turns_left env (tk + off) (?t' + nat w') lp1 < n" using Suc.prems(4) by simp
    note rest = Suc.IH [OF inv w' env less]
    have "timer_alone bd env n ?t' w' lp1 \<noteq> []" using less w' by (cases n) (simp_all add: Let_def)
    moreover have "timer_alone bd env (Suc n) t w lp = (?t', ?tn) # timer_alone bd env n ?t' w' lp1"
      using Suc.prems(2) r by (simp add: Let_def)
    moreover have "left_alone bd t w lp ((?t', ?tn) # timer_alone bd env n ?t' w' lp1)"
      unfolding left_alone.simps r using now r rest by (simp only: outcome.case prod.case simp_thms)
    ultimately show ?thesis using r rest by simp
  qed
qed simp

text \<open>
  C17. A machine left alone goes off exactly when it is set to, whatever the wrap of its clock. Given turns each no later
  than the wait before it asked for, and nothing pressed since the time \<open>tk\<close>, no turn comes after \<open>tk + off\<close>, the loop ends
  in the turn at \<open>tk + off\<close> and in no other, and before it is over there is a turn at exactly ten seconds before that, from
  which the warning is given. And it does go off: woken by nothing but its timer, it never waits for ever, and after at most
  \<open>3 * off + 3\<close> turns it has ended, the last at \<open>tk + off\<close>.
\<close>

theorem left_alone_goes_off_on_time:
  assumes "draws_only bd" and "alone_since tk off t w lp" and "\<not> lp_off_warned lp" and "0 \<le> w"
    and "left_alone bd t w lp turns" and "run_turns bd (map snd turns) lp = (way, lp')"
    and "asleep env lp" and "woken = timer_alone bd env (3 * off + 3) t w lp"
  shows "(\<forall>t' \<in> fst ` set turns. t' \<le> tk + off) \<and>
    (if tk + off \<in> fst ` set turns then way = Left else way = Going) \<and>
    (way = Going \<and> turns \<noteq> [] \<longrightarrow> (lp_off_warned lp' \<longleftrightarrow> tk + off - 10000 \<le> fst (last turns))) \<and>
    ((\<exists>t' \<in> fst ` set turns. tk + off - 10000 \<le> t') \<longrightarrow> tk + off - 10000 \<in> fst ` set turns) \<and>
    left_alone bd t w lp woken \<and> fst (run_turns bd (map snd woken) lp) = Left \<and> fst (last woken) = tk + off"
proof -
  have "(\<forall>t' \<in> fst ` set turns. t' \<le> tk + off) \<and>
      (if tk + off \<in> fst ` set turns then way = Left else way = Going) \<and>
      (way = Going \<and> turns \<noteq> [] \<longrightarrow> (lp_off_warned lp' \<longleftrightarrow> tk + off - 10000 \<le> fst (last turns))) \<and>
      (\<not> lp_off_warned lp \<and> (\<exists>t' \<in> fst ` set turns. tk + off - 10000 \<le> t') \<longrightarrow> tk + off - 10000 \<in> fst ` set turns)"
    using assms(2,5,6)
  proof (induction turns arbitrary: t w lp)
    case (Cons turn turns)
    obtain t' tn where turn: "turn = (t', tn)" by fastforce
    have now: "quiet tn lp" "tn_now tn = of_nat t'" "t \<le> t'" "int t' \<le> int t + w" using Cons.prems(2) turn by auto
    note this_turn = alone_turn [OF assms(1) Cons.prems(1) now]
    have off: "10000 < off" using Cons.prems(1) by (simp add: alone_since_def)
    show ?case
    proof (cases "t' = tk + off")
      case True
      then obtain lp1 where r: "run_turn bd tn lp = (Ended, lp1)" using this_turn(2) by blast
      then have "turns = []" "way = Left" using Cons.prems(2,3) turn by auto
      then show ?thesis using True this_turn(1,4) off turn by auto
    next
      case False
      then obtain w' lp1 where r: "run_turn bd tn lp = (Waits w', lp1)" and inv: "alone_since tk off t' w' lp1"
        and warn: "lp_off_warned lp1 \<longleftrightarrow> tk + off - 10000 \<le> t'" using this_turn(3) by blast
      have rest: "left_alone bd t' w' lp1 turns" "run_turns bd (map snd turns) lp1 = (way, lp')"
        using Cons.prems(2,3) turn r by auto
      note later = Cons.IH [OF inv rest]
      have "turns = [] \<longrightarrow> lp' = lp1 \<and> way = Going" using rest(2) by auto
      then show ?thesis
        using later False this_turn(1,4) warn turn by (cases "turns = []") (auto simp: not_le)
    qed
  qed simp
  moreover
  have "turns_left env (tk + off) (t + nat w) lp < 3 * off + 3"
  proof -
    have "tk \<le> t" using assms(2) by (simp add: alone_since_def)
    then have "3 * (tk + off - (t + nat w)) \<le> 3 * off" by simp
    then show ?thesis unfolding turns_left_def by (auto split: if_split)
  qed
  note woken = timer_turns_it_off [OF assms(1,2,4,7) this]
  obtain lp2 where "run_turns bd (map snd woken) lp = (Left, lp2)" using woken assms(8) by blast
  then have "left_alone bd t w lp woken \<and> fst (run_turns bd (map snd woken) lp) = Left \<and> fst (last woken) = tk + off"
    using woken assms(8) by simp
  ultimately show ?thesis using assms(3) by blast
qed

definition small_board :: "(unit, bool, disk, unit) board" where
  "small_board = \<lparr>bd_host = small_host, graph_sample = (\<lambda>sh. sh), open_dirs = 8\<rparr>"

definition idle_turn :: "nat \<Rightarrow> turn" where
  "idle_turn t = \<lparr>tn_up = True, tn_keys = [], tn_modifier = None, tn_changed = False, tn_now = of_nat t, tn_running = True,
     tn_time = Some 0, tn_battery = -1\<rparr>"

definition small_loop :: "nat \<Rightarrow> (unit, bool, disk, unit) loop" where
  "small_loop tk = \<lparr>lp_sh = small_desk, lp_last_key = of_nat tk, lp_last_blink = of_nat tk, lp_cursor_on = True, lp_off_warned = False,
     lp_face = nul, lp_status = [], lp_drawn = True\<rparr>"

lemma small_goes_off: "goes_off (small_loop tk) = 600000"
  by (simp add: goes_off_def small_loop_def small_desk_def fresh_shell_def small_pages_def boot_settings_def auto_off_ms_def AUTO_OFF_MINUTES_def)

lemma left_alone_goes_off_on_time_witness:
  "let (way, lp) = run_turns small_board [idle_turn (2 ^ 32 + 589000)] (small_loop (2 ^ 32 - 1000)) in way = Going \<and> lp_off_warned lp"
proof -
  let ?tk = "2 ^ 32 - 1000 :: nat" and ?lp = "small_loop (2 ^ 32 - 1000)"
  obtain way lp' where r: "run_turns small_board (map snd [(2 ^ 32 + 589000 :: nat, idle_turn (2 ^ 32 + 589000))]) ?lp = (way, lp')" by fastforce
  have "draws_only small_board" by (simp add: draws_only_def small_board_def)
  moreover have "alone_since ?tk 600000 ?tk 590000 ?lp"
  proof -
    have "lp_last_key ?lp = of_nat ?tk" "\<not> lp_off_warned ?lp" by (simp_all add: small_loop_def)
    then show ?thesis using small_goes_off [of ?tk] by (simp add: alone_since_def due_at_def)
  qed
  moreover have "\<not> lp_off_warned ?lp" by (simp add: small_loop_def)
  moreover have still: "quiet (idle_turn t) ?lp" for t by (simp add: quiet_def idle_turn_def small_loop_def modifier_char_def)
  have "left_alone small_board ?tk 590000 ?lp [(2 ^ 32 + 589000 :: nat, idle_turn (2 ^ 32 + 589000))]"
    using still [of "2 ^ 32 + 589000"] by (simp add: idle_turn_def split: prod.split outcome.split)
  moreover have "asleep idle_turn ?lp" unfolding asleep_def using still by (simp add: idle_turn_def)
  ultimately show ?thesis using left_alone_goes_off_on_time [OF _ _ _ _ _ r _ refl] r by simp
qed

section \<open>What is on the panel\<close>

lemma blinked_drawn: "lp_drawn lp = lp_cursor_on lp \<Longrightarrow> lp_drawn (blinked bd tn lp) = lp_cursor_on (blinked bd tn lp)"
  by (simp add: blinked_def Let_def)

lemma blinked_settled: "CURSOR_SETTLE_MS \<le> tn_now tn - lp_last_key lp \<Longrightarrow> lp_cursor_on (blinked bd tn lp)"
  by (simp add: blinked_def Let_def)

lemma warned_panel [simp]: "lp_status (warned bd tn lp) = status_text tn" "lp_drawn (warned bd tn lp) = lp_cursor_on (warned bd tn lp)"
  "lp_cursor_on (warned bd tn lp) = lp_cursor_on lp"
  by (simp_all add: warned_def render_def)

text \<open>How a turn that waits comes to its end.\<close>

lemma turn_waits:
  assumes "run_turn bd tn lp = (Waits w, lp')" and "lp_drawn lp = lp_cursor_on lp"
  obtains lp2 off where "lp_drawn lp2 = lp_cursor_on lp2"
    and "off = goes_off (blinked bd tn lp2)" and "\<not> (0 < off \<and> off \<le> tn_now tn - lp_last_key lp2)"
    and "lp' = (if 0 < off \<and> \<not> lp_off_warned lp2 \<and> off - AUTO_OFF_WARN_MS \<le> tn_now tn - lp_last_key lp2
      then warned bd tn (blinked bd tn lp2) else blinked bd tn lp2)"
    and "w = wait_for tn lp' (tn_now tn - lp_last_key lp2) (CURSOR_SETTLE_MS \<le> tn_now tn - lp_last_key lp2) off"
proof -
  obtain off sh1 where d: "drain (bd_host bd) (tn_keys tn) (lp_sh lp) = (off, sh1)" by fastforce
  define changed where "changed \<longleftrightarrow> \<not> pg_usb_exported (sh_world sh1) \<and> tn_changed tn"
  define lp1 where "lp1 = lp\<lparr>lp_sh := (if changed then reload_card bd sh1 else sh1), lp_face := modifier_char tn\<rparr>"
  define lp2 where "lp2 = (if tn_keys tn \<noteq> [] \<or> modifier_char tn \<noteq> lp_face lp \<or> changed then
      render bd tn (lp1\<lparr>lp_last_key := tn_now tn, lp_last_blink := tn_now tn, lp_cursor_on := True, lp_off_warned := False\<rparr>) else lp1)"
  have "lp_drawn lp2 = lp_cursor_on lp2" using assms(2) by (simp add: lp2_def lp1_def)
  moreover have "run_turn bd tn lp = (Waits w, lp') \<Longrightarrow>
      \<not> (0 < goes_off (blinked bd tn lp2) \<and> goes_off (blinked bd tn lp2) \<le> tn_now tn - lp_last_key lp2) \<and>
      lp' = (if 0 < goes_off (blinked bd tn lp2) \<and> \<not> lp_off_warned lp2 \<and> goes_off (blinked bd tn lp2) - AUTO_OFF_WARN_MS \<le> tn_now tn - lp_last_key lp2
        then warned bd tn (blinked bd tn lp2) else blinked bd tn lp2) \<and>
      w = wait_for tn lp' (tn_now tn - lp_last_key lp2) (CURSOR_SETTLE_MS \<le> tn_now tn - lp_last_key lp2) (goes_off (blinked bd tn lp2))"
    unfolding run_turn_def Let_def d prod.case changed_def [symmetric] lp1_def [symmetric] lp2_def [symmetric] goes_off_def [symmetric]
    by (simp only: prod.inject split: if_splits) auto
  ultimately show ?thesis using that [of lp2 "goes_off (blinked bd tn lp2)"] assms(1) by blast
qed

text \<open>What is due, in milliseconds from now, and the first of it.\<close>

definition dues :: "turn \<Rightarrow> ('p, 'q, 'd, 'r) loop \<Rightarrow> int list" where
  "dues tn lp =
     (let idle = uint (tn_now tn - lp_last_key lp); since = uint (tn_now tn - lp_last_blink lp);
          off = unat (goes_off lp)
      in (if 0 < off then [max 0 (int (due_at off lp) - idle)] else []) @
         (case tn_time tn of Some s \<Rightarrow> [1000 * (60 - int s mod 60)] | None \<Rightarrow> if 0 \<le> tn_battery tn then [60000] else []) @
         (if idle < 10000 \<and> has_cursor (lp_sh lp) then [max 0 (500 - since)] else []))"

definition first_due :: "int list \<Rightarrow> int" where
  "first_due ds = (if ds = [] then -1 else Min (set ds))"

lemma sooner_first: "list_all (\<lambda>d. 0 \<le> d) ds \<Longrightarrow> sooner d (first_due ds) = first_due (d # ds)"
proof (cases "ds = []")
  case False
  assume "list_all (\<lambda>d. 0 \<le> d) ds"
  moreover have "Min (set ds) \<in> set ds" using False by (intro Min_in) simp_all
  ultimately have "\<not> Min (set ds) < 0" by (auto simp: list_all_iff)
  moreover have "Min (set (d # ds)) = min d (Min (set ds))" using False by simp
  moreover have "sooner d m = min d m" if "\<not> m < 0" for m using that by (simp add: sooner_def min_def)
  ultimately show ?thesis using False by (simp only: first_due_def) simp
qed (simp add: first_due_def sooner_def)

lemma left_over: "unat a < 2 ^ 31 \<Longrightarrow> (if a \<le> b then 0 else sint (a - b)) = max 0 (uint a - uint b)" for a b :: "32 word"
  using sint_apart [of b a] by (auto simp: word_le_def max_def)

lemma waits_for_first_due:
  assumes "off = 0 \<or> AUTO_OFF_WARN_MS \<le> off \<and> unat off < 2 ^ 31" and "off = goes_off lp"
    and "idle = tn_now tn - lp_last_key lp" and "settled \<longleftrightarrow> CURSOR_SETTLE_MS \<le> idle"
  shows "wait_for tn lp idle settled off = first_due (dues tn lp)"
proof -
  define cursor where "cursor = (if uint idle < 10000 \<and> has_cursor (lp_sh lp)
    then [max 0 (500 - uint (tn_now tn - lp_last_blink lp))] else [])"
  define clock where "clock = (case tn_time tn of Some s \<Rightarrow> [1000 * (60 - int s mod 60)] | None \<Rightarrow> if 0 \<le> tn_battery tn then [60000] else [])"
  have blink: "blink_wait tn lp settled = first_due cursor"
    using left_over [of CURSOR_BLINK_MS "tn_now tn - lp_last_blink lp"] assms(4)
    by (simp add: blink_wait_def cursor_def first_due_def Let_def CURSOR_BLINK_MS_def CURSOR_SETTLE_MS_def word_le_def)
  have late: "list_all (\<lambda>d. 0 \<le> d) cursor" "list_all (\<lambda>d. 0 \<le> d) (clock @ cursor)"
  proof -
    have "0 \<le> 1000 * (60 - int s mod 60)" for s by simp
    then show "list_all (\<lambda>d. 0 \<le> d) cursor" "list_all (\<lambda>d. 0 \<le> d) (clock @ cursor)"
      by (auto simp: cursor_def clock_def split: option.split)
  qed
  have band: "(case tn_time tn of Some seconds \<Rightarrow> sooner ((60 - int seconds mod 60) * 1000) (first_due cursor)
      | None \<Rightarrow> if 0 \<le> tn_battery tn then sooner STATUS_POLL_MS (first_due cursor) else first_due cursor) = first_due (clock @ cursor)"
    using sooner_first [OF late(1)] by (simp add: clock_def STATUS_POLL_MS_def mult.commute split: option.split)
  have list: "dues tn lp = (if 0 < unat off then [max 0 (int (due_at (unat off) lp) - uint idle)] else []) @ clock @ cursor"
    using assms(2,3) by (simp add: dues_def Let_def clock_def cursor_def)
  show ?thesis
  proof (cases "0 < off")
    case True
    let ?due = "if lp_off_warned lp then off else off - AUTO_OFF_WARN_MS"
    have "0 < unat off" "unat ?due < 2 ^ 31" "unat ?due = due_at (unat off) lp"
      using True assms(1) by (auto simp: word_less_nat_alt due_at_def unat_sub AUTO_OFF_WARN_MS_def word_le_nat_alt)
    then have "(if ?due \<le> idle then 0 else sint (?due - idle)) = max 0 (int (due_at (unat off) lp) - uint idle)"
      using left_over [of ?due idle] by (simp only: uint_nat)
    then show ?thesis
      unfolding wait_for_def Let_def blink band list using True \<open>0 < unat off\<close> sooner_first [OF late(2)] by simp
  next
    case False
    then have "unat off = 0" by (simp add: word_less_nat_alt)
    then show ?thesis unfolding wait_for_def Let_def blink band list using False by simp
  qed
qed

lemma wait_bound:
  assumes "off = 0 \<or> AUTO_OFF_WARN_MS \<le> off \<and> unat off < 2 ^ 31" and "w = wait_for tn lp idle settled off"
  shows "0 \<le> blink_wait tn lp settled \<Longrightarrow> 0 \<le> w \<and> w \<le> blink_wait tn lp settled"
    "tn_time tn \<noteq> None \<Longrightarrow> 0 \<le> w \<and> w \<le> 60000"
    "w < 0 \<longleftrightarrow> tn_time tn = None \<and> tn_battery tn < 0 \<and> off = 0 \<and> blink_wait tn lp settled < 0"
proof -
  let ?due = "if lp_off_warned lp then off else off - AUTO_OFF_WARN_MS"
  let ?until = "if ?due \<le> idle then 0 else sint (?due - idle)"
  let ?band = "case tn_time tn of Some seconds \<Rightarrow> sooner ((60 - int seconds mod 60) * 1000) (blink_wait tn lp settled)
     | None \<Rightarrow> if 0 \<le> tn_battery tn then sooner STATUS_POLL_MS (blink_wait tn lp settled) else blink_wait tn lp settled"
  have w: "w = (if 0 < off then sooner ?until ?band else ?band)"
    using assms(2) by (simp add: wait_for_def Let_def)
  have until: "0 \<le> ?until" if "0 < off"
  proof -
    have "unat ?due < 2 ^ 31" using assms(1) that by (auto simp: unat_sub)
    then have "sint (?due - idle) = int (unat ?due) - int (unat idle)" if "\<not> ?due \<le> idle"
      using that by (intro sint_apart) auto
    then show ?thesis by (auto simp: word_le_def)
  qed
  have minute: "0 < (60 - int seconds mod 60) * 1000 \<and> (60 - int seconds mod 60) * 1000 \<le> 60000" for seconds by simp
  note blink = blink_wait_range(1) [of tn lp settled]
  have band: "0 \<le> blink_wait tn lp settled \<longrightarrow> 0 \<le> ?band \<and> ?band \<le> blink_wait tn lp settled"
    "tn_time tn \<noteq> None \<longrightarrow> 0 \<le> ?band \<and> ?band \<le> 60000"
    "?band < 0 \<longleftrightarrow> tn_time tn = None \<and> tn_battery tn < 0 \<and> blink_wait tn lp settled < 0"
    using minute blink by (auto simp: sooner_def STATUS_POLL_MS_def split: option.split)
  have nought: "off = 0 \<longleftrightarrow> \<not> 0 < off" by (simp add: word_gt_0)
  show "0 \<le> w \<and> w \<le> blink_wait tn lp settled" if "0 \<le> blink_wait tn lp settled"
    using band(1) that until by (auto simp: w sooner_def)
  show "0 \<le> w \<and> w \<le> 60000" if "tn_time tn \<noteq> None"
    using band(2) that until by (auto simp: w sooner_def)
  show "w < 0 \<longleftrightarrow> tn_time tn = None \<and> tn_battery tn < 0 \<and> off = 0 \<and> blink_wait tn lp settled < 0"
    using band(3) until unfolding w nought by (auto simp: sooner_def)
qed

text \<open>
  C18. Whenever the loop waits, what is on the panel is the state: the band says the time and the charge of that turn and
  the cursor is drawn as it is. And it waits until exactly what is due first: the next blink of a cursor that still blinks, the
  turn of the minute where there is a clock, a minute where there is only a charge to show, and the warning or the power-off to
  come; nothing due, it waits on the keypad alone. A cursor that is dark is lit again within half a second.
\<close>

theorem panel_is_current_when_waiting:
  assumes "draws_only bd" and "run_turn bd tn lp = (Waits w, lp')" and "lp_drawn lp = lp_cursor_on lp"
    and "settings_ok (pg_settings (sh_world (lp_sh lp')))"
  shows "lp_status lp' = status_text tn \<and> lp_drawn lp' = lp_cursor_on lp' \<and>
    w = first_due (dues tn lp') \<and>
    (\<not> lp_cursor_on lp' \<and> has_cursor (lp_sh lp') \<longrightarrow> 0 \<le> w \<and> w \<le> 500)"
proof -
  obtain lp2 off where drawn: "lp_drawn lp2 = lp_cursor_on lp2" and off: "off = goes_off (blinked bd tn lp2)"
    and lp': "lp' = (if 0 < off \<and> \<not> lp_off_warned lp2 \<and> off - AUTO_OFF_WARN_MS \<le> tn_now tn - lp_last_key lp2
      then warned bd tn (blinked bd tn lp2) else blinked bd tn lp2)"
    and w: "w = wait_for tn lp' (tn_now tn - lp_last_key lp2) (CURSOR_SETTLE_MS \<le> tn_now tn - lp_last_key lp2) off"
    by (rule turn_waits [OF assms(2,3)])
  let ?settled = "CURSOR_SETTLE_MS \<le> tn_now tn - lp_last_key lp2"
  have off': "off = goes_off lp'" using assms(1) by (simp add: off lp' warned_def goes_off_render)
  then have range: "off = 0 \<or> AUTO_OFF_WARN_MS \<le> off \<and> unat off < 2 ^ 31"
    using off_times [OF assms(4), of "pg_usb_exported (sh_world (lp_sh lp'))"] by (auto simp: goes_off_def AUTO_OFF_WARN_MS_def)
  note bound = wait_bound [OF this w]
  have "lp_last_key lp' = lp_last_key lp2" by (simp add: lp' warned_def)
  then have due: "w = first_due (dues tn lp')" using waits_for_first_due [OF range off' refl refl, of tn] w by simp
  have lit: "?settled \<Longrightarrow> lp_cursor_on lp'" using blinked_settled [of tn lp2 bd] by (simp add: lp')
  have dark: "0 \<le> blink_wait tn lp' ?settled \<and> blink_wait tn lp' ?settled \<le> 500" if "\<not> lp_cursor_on lp'" "has_cursor (lp_sh lp')"
    using that lit by (intro blink_wait_range(2)) auto
  have band: "lp_status lp' = status_text tn" "lp_drawn lp' = lp_cursor_on lp'"
    using blinked_band [of bd tn lp2] blinked_drawn [OF drawn, of bd tn] by (simp_all add: lp')
  then show ?thesis using bound(1) dark due by fastforce
qed

lemma panel_is_current_when_waiting_witness:
  "let (next, lp) = run_turn small_board (idle_turn 600) (small_loop 0) in \<exists>w. next = Waits w \<and> lp_status lp = ''00:00|''"
proof -
  let ?lp = "small_loop 0" and ?tn = "idle_turn 600"
  have only: "draws_only small_board" by (simp add: draws_only_def small_board_def)
  have quiet: "quiet ?tn ?lp" by (simp add: quiet_def idle_turn_def small_loop_def modifier_char_def)
  have "goes_off (blinked small_board ?tn ?lp) = 600000"
    by (simp add: goes_off_blinked [OF only] small_goes_off)
  then obtain w lp' where r: "run_turn small_board ?tn ?lp = (Waits w, lp')"
    using quiet_turn [OF quiet, of small_board] by (simp add: idle_turn_def small_loop_def Let_def word_le_def)
  have keeps: "pg_settings (sh_world (lp_sh (render small_board tn lp))) = pg_settings (sh_world (lp_sh lp))" for tn lp
    by (simp add: render_def small_board_def)
  have "pg_settings (sh_world (lp_sh lp')) = boot_settings"
  proof -
    have "pg_settings (sh_world (lp_sh ?lp)) = boot_settings" by (simp add: small_loop_def small_desk_def fresh_shell_def small_pages_def)
    moreover have "lp' = blinked small_board ?tn ?lp \<or> lp' = warned small_board ?tn (blinked small_board ?tn ?lp)"
      using r by (simp only: quiet_turn [OF quiet] Let_def prod.inject split: if_splits) auto
    ultimately show ?thesis by (auto simp: blinked_def warned_def keeps Let_def)
  qed
  moreover have "settings_ok boot_settings" by (simp add: boot_settings_def settings_ok_def setting_ranges)
  moreover have "status_text ?tn = ''00:00|''" by code_simp
  ultimately have "lp_status lp' = ''00:00|''"
    using panel_is_current_when_waiting [OF only r] by (simp add: small_loop_def)
  then show ?thesis by (simp add: r)
qed

section \<open>The session\<close>

text \<open>A loop that is over leaves a session just saved, whichever of the three saves it was.\<close>

lemma key_off:
  assumes "run_turn bd tn lp = (Ended, lp')"
  shows "\<exists>sh. lp_sh lp' = save_now (bd_host bd) sh"
  using assms unfolding run_turn_def Let_def by (cases "drain (bd_host bd) (tn_keys tn) (lp_sh lp)") (force split: if_splits)

lemma left_saved:
  "run_turns bd tns lp = (Left, lp') \<Longrightarrow> \<exists>sh. lp_sh lp' = save_now (bd_host bd) sh"
  by (induction tns arbitrary: lp) (auto dest: key_off split: prod.splits outcome.splits)

text \<open>
  C19. However the machine is turned off, by its key, by being left alone or by what it runs on stopping, the last thing it does
  is save the session: there are three places that do, and no way out of the loop that passes all of them. So with
  \<open>d\<close> what was stored till then and the save succeeding, the next start restores the stack the loop ended with,
  level for level up to the first that cannot be stored, and 64 of them at most. Nothing else of the
  machine is changed by it.
\<close>

theorem turning_off_keeps_the_stack:
  assumes "dirs_apart fs" and "runtime_ok rt" and "ho_hal (bd_host bd) = filestore_hal fs room" and "mc_rt (ho_mc (bd_host bd)) = rt"
    and "qdos_shell_run bd start tns lp0 = (True, lp')" and "st = sh_stack (lp_sh lp')" and "\<forall>e \<in> set st. made_here rt e"
  shows "\<exists>d r. lp_sh lp' = page (\<lambda>p. p\<lparr>pg_store := snd r\<rparr>) (page (\<lambda>p. p\<lparr>pg_store := d\<rparr>) (lp_sh lp')) \<and>
    r = qdos_storage_save_session (filestore_hal fs room) rt st d \<and>
    (disk_ok fs d \<and> fst r = STORE_OK \<longrightarrow>
       qdos_storage_restore_session (filestore_hal fs room) rt (pg_store (sh_world (lp_sh lp'))) [] =
         (STORE_OK, map comes_back (take (encodable rt (take 64 st)) st)))"
proof -
  let ?h = "filestore_hal fs room"
  obtain sh where saved: "lp_sh lp' = save_now (bd_host bd) sh"
  proof -
    have "\<exists>sh. lp_sh lp' = save_now (bd_host bd) sh"
      using assms(5) left_saved by (fastforce simp: qdos_shell_run_def split: prod.splits way.splits)
    then show ?thesis using that by blast
  qed
  define d where "d = pg_store (sh_world sh)"
  obtain r d' where s: "qdos_storage_save_session ?h rt st d = (r, d')" by fastforce
  have stack: "sh_stack sh = st" using assms(6) saved by (simp add: save_now_def)
  have now: "lp_sh lp' = page (\<lambda>p. p\<lparr>pg_store := d'\<rparr>) sh" using saved s stack by (simp add: save_now_def assms(3,4) d_def)
  have "qdos_storage_restore_session ?h rt d' [] = (STORE_OK, map comes_back (take (encodable rt (take 64 st)) st))"
    if "disk_ok fs d" "r = STORE_OK"
    using s that assms(1,2,7) by (intro fstore.session_roundtrip) auto
  then show ?thesis using s now by (intro exI [of _ d] exI [of _ "(r, d')"]) simp
qed

lemma turning_off_keeps_the_stack_witness:
  "let lp0 = (small_loop 0)\<lparr>lp_sh := small_desk\<lparr>sh_stack := [ElInt 7, ElStr ''hi'']\<rparr>\<rparr>;
       (off, lp) = qdos_shell_run small_board (idle_turn 0) [(idle_turn 5)\<lparr>tn_up := False\<rparr>] lp0
   in off \<and> (\<exists>d r. r = qdos_storage_save_session (filestore_hal esp32_dirs 4096) test_runtime [ElInt 7, ElStr ''hi'' :: (unit, bool) element] d \<and>
        pg_store (sh_world (lp_sh lp)) = snd r)"
proof -
  let ?st = "[ElInt 7, ElStr ''hi''] :: (unit, bool) element list"
  let ?first = "(small_loop 0)\<lparr>lp_sh := small_desk\<lparr>sh_stack := ?st\<rparr>\<rparr>" and ?tn = "(idle_turn 5)\<lparr>tn_up := False\<rparr>" and ?start = "idle_turn 0"
  have rt: "ho_hal (bd_host small_board) = filestore_hal esp32_dirs 4096" "mc_rt (ho_mc (bd_host small_board)) = test_runtime"
    by (simp_all add: small_board_def small_host_def small_session_def)
  have made: "\<forall>e \<in> set ?st. made_here test_runtime e" by code_simp
  obtain lp' where r: "qdos_shell_run small_board ?start [?tn] ?first = (True, lp')" and st: "sh_stack (lp_sh lp') = ?st"
    using that by (simp add: qdos_shell_run_def run_turn_def idle_turn_def render_def small_loop_def small_desk_def fresh_shell_def save_now_def Let_def)
  from turning_off_keeps_the_stack [OF esp32_dirs_apart test_runtime_ok rt r refl] made
  obtain d s where s: "lp_sh lp' = page (\<lambda>p. p\<lparr>pg_store := snd s\<rparr>) (page (\<lambda>p. p\<lparr>pg_store := d\<rparr>) (lp_sh lp'))"
    "s = qdos_storage_save_session (filestore_hal esp32_dirs 4096) test_runtime ?st d"
    unfolding st by blast
  have "pg_store (sh_world (lp_sh lp')) = snd s" by (subst s(1)) simp
  then show ?thesis using r s(2) by auto
qed

end
