(* ===== verification/Spec2Isabelle.thy ===== *)
theory Spec2Isabelle
  imports Editor Rename Formula PadDraw Serial Calc Lcd Framebuffer Evdev Matrix Console Numbers Asks RunLoop
begin

text \<open>
  A verification library for QDOS, the operating system of a homebuilt RPN calculator
  (\<^verbatim>\<open>src/\<close>, \<^verbatim>\<open>esp32/main/\<close>, \<^verbatim>\<open>include/qdos/\<close>).

  \<^bold>\<open>The program.\<close> A shell (\<^verbatim>\<open>src/shell/shell.c\<close>) turns keys into words of the
  Quadrate language, which a third-party interpreter runs on a stack. Around it: a program editor, a
  translator of formulas into RPN, a store of programs and values behind the operations of
  \<^verbatim>\<open>include/qdos/hal.h\<close>, and the machine itself, as an emulated keypad and panel, as Linux
  devices and as the ESP32's peripherals, with a serial console to type and to upload through.

  \<^bold>\<open>The theories, from the bottom.\<close>
    \<^item> \<^verbatim>\<open>Base\<close>: C strings and characters, the prelude.
    \<^item> \<^verbatim>\<open>Editor\<close>: the text buffer of the program editor (\<^verbatim>\<open>editor.c\<close>): typing,
      automatic indent, one step of undo, movement. Its lemmas: no operation leaves the buffer, an undo
      takes back a run of typing, lines are the split of the text.
    \<^item> \<^verbatim>\<open>StoreName\<close>, \<^verbatim>\<open>Codec\<close>, \<^verbatim>\<open>FileStore\<close>, \<^verbatim>\<open>Values\<close>,
      \<^verbatim>\<open>Programs\<close>, \<^verbatim>\<open>Rename\<close>: the store, from names and keys (\<^verbatim>\<open>storename.c\<close>)
      through the record of a value, the directories (\<^verbatim>\<open>filestore.c\<close>) with writes that the power
      may cut, the session kept across a power-off, programs and apps of several files, and the renaming
      of a word throughout a source (\<^verbatim>\<open>storage.c\<close>). FileStore states the interface as the locales
      \<^verbatim>\<open>store_laws\<close>, \<^verbatim>\<open>store_removal\<close> and \<^verbatim>\<open>folder_removal\<close>,
      with the laws a store promises, and interprets them on the file store.
    \<^item> \<^verbatim>\<open>Infix\<close>, \<^verbatim>\<open>Formula\<close>: the recursive descent translator of formulas
      (\<^verbatim>\<open>infix.c\<close>), and its meaning: a formula printed with the fewest brackets is translated into
      its postfix form.
    \<^item> \<^verbatim>\<open>Keys\<close>, \<^verbatim>\<open>Keypad\<close>, \<^verbatim>\<open>PadFont\<close>, \<^verbatim>\<open>PadDraw\<close>: the keys, the
      layers of the emulated keypad, where a click lands, and drawing it (\<^verbatim>\<open>keypad_ui.c\<close>,
      \<^verbatim>\<open>padfont.c\<close>), with the locales \<^verbatim>\<open>drawing_rule\<close> and
      \<^verbatim>\<open>pad_drawing\<close> for what every drawing keeps.
    \<^item> \<^verbatim>\<open>Serial\<close>: the serial console (\<^verbatim>\<open>serial_console.c\<close>), over the same disk as the
      file store.
    \<^item> \<^verbatim>\<open>Words\<close>: completing a word, and the sorted vocabulary (\<^verbatim>\<open>complete.c\<close>,
      \<^verbatim>\<open>wordlist.c\<close>).
    \<^item> \<^verbatim>\<open>Shell\<close>, \<^verbatim>\<open>Undo\<close>, \<^verbatim>\<open>Line\<close>, \<^verbatim>\<open>Calc\<close>: the shell's state, its
      log and messages, the evaluation that survives a fatal error (\<^verbatim>\<open>guarded.c\<close>), the snapshots
      behind UNDO, the input line with its history and its hints, and the keys of the calculator.
    \<^item> \<^verbatim>\<open>Console\<close>: text, inversion and rules over the panel's grey levels (\<^verbatim>\<open>console.c\<close>):
      each drawing has its effect on every pixel, and none leaves the framebuffer, wherever it is told to draw.
    \<^item> \<^verbatim>\<open>Lcd\<close>, \<^verbatim>\<open>Framebuffer\<close>: where a frame goes: the Sharp panel and QEMU's window
      (\<^verbatim>\<open>sharp_lcd.c\<close>, \<^verbatim>\<open>qemu_lcd.c\<close>), which send what has changed and are shown
      to keep up with the last frame, and a Linux framebuffer (\<^verbatim>\<open>framebuffer.c\<close>).
    \<^item> \<^verbatim>\<open>Evdev\<close>, \<^verbatim>\<open>Matrix\<close>: where keys come from: a keyboard of two layouts
      (\<^verbatim>\<open>device/keypad.c\<close>), composed with the input line, and the pins of the keypad, debounced
      (\<^verbatim>\<open>keymatrix.c\<close>).
    \<^item> \<^verbatim>\<open>Numbers\<close>: how the calculator writes a number (\<^verbatim>\<open>shell.c\<close>): the digits of
      a decimal, plain or in exponent form, as many as the row takes. A text is read back as a rational, and
      shown to be the number, or the number rounded to the digits there was room for.
    \<^item> \<^verbatim>\<open>Settings\<close>: the settings of the machine, stepped one at a time, written to the store as they
      change, and read back at a start.
    \<^item> \<^verbatim>\<open>Kept\<close>: what the calculator's keys leave alone, so that the pages around it may be reasoned
      about apart from it.
    \<^item> \<^verbatim>\<open>Pages\<close>, \<^verbatim>\<open>Apps\<close>, \<^verbatim>\<open>EditPage\<close>, \<^verbatim>\<open>Modes\<close>: the
      pages of \<^verbatim>\<open>shell.c\<close>: programs and the catalog, the field a name is typed in, the page of the
      program editor, menus, settings, the log, and \<^verbatim>\<open>handle_key\<close>, which sends a key to the page that
      is up. A \<open>desk\<close> is the shell whose world is the record \<open>pages\<close>.
    \<^item> \<^verbatim>\<open>Desk\<close>, \<^verbatim>\<open>Bench\<close>, \<^verbatim>\<open>DeskKeys\<close>, \<^verbatim>\<open>Asks\<close>: the order
      the pages are in and that every key of every page keeps it; a small machine to show the properties at; that nothing
      is dropped and no edit lost unasked, and that what is saved is what was typed.
    \<^item> \<^verbatim>\<open>RunLoop\<close>: the loop of \<^verbatim>\<open>qdos_shell_run\<close>, its 32-bit clock, and the start
      and the end of a session: when a machine left alone goes off, and that the panel is up to date whenever it waits.

  \<^bold>\<open>Conventions.\<close> A C string is the list of its bytes before the NUL; a buffer of \<open>cap\<close> bytes
  holding a string is a list shorter than \<open>cap\<close>. \<open>size_t\<close> is \<open>nat\<close>, with every
  subtraction guarded as the code guards it; \<open>int\<close> is \<open>int\<close> where the code's values stay
  far inside its range; fields that are read back bit by bit are \<open>word\<close>s of their width. A double is
  its 64-bit pattern. A pointer that may be null is an option, or is never null where the code asserts so.
  A function that fills a buffer returns what it left there.

  \<^bold>\<open>Parameters.\<close> Code outside the repository is an argument: the interpreter and the decimal
  library (the records \<open>machine\<close>, \<open>runtime\<close> and \<open>d128\<close>), the operations on doubles
  (\<open>libm\<close>), the bitmaps of the panel fonts, the bytes a write manages before the medium is full
  (\<open>room\<close>) and the step at which the power goes (\<open>power\<close>), the coverage bytes of the keycap
  font. The record \<open>host\<close> holds what the pages call and the library does not model: two interpreters, the
  session's and the scratch one a program is checked in, the linter, the field of numbers, the keys and the menus of
  the pages of graphs and statistics, and the USB disk; the record \<open>board\<close> the
  sampling of a graph before it is drawn and how many folders may be open at once. What is relied on of them is a named hypothesis (\<open>machine_ok\<close>,
  \<open>d128_ok\<close>, \<open>keeps_line\<close>, \<open>keeps_own\<close>, \<open>drops\<close>, \<open>host_ok\<close>,
  \<open>files_alone\<close>, \<open>draws_only\<close>, \<open>keeps_world\<close>), and each property that has one is shown at a
  concrete instance.

  \<^bold>\<open>Loops and fuel.\<close> Loops are structural recursion or \<open>function\<close>s with a measure. The mutually
  recursive parser of Infix counts its calls down from \<open>16 * (length + 2)\<close>; that this is always enough is
  the property \<open>formula_always_answered\<close>. Serial's step counts down from the bytes still to come. The loop of the machine runs over the list of its turns, each of
  them with what the hal says while it lasts.

  \<^bold>\<open>Not modelled.\<close> Floating-point code (\<^verbatim>\<open>numeric.c\<close>, \<^verbatim>\<open>graph.c\<close>,
  \<^verbatim>\<open>surface.c\<close>, \<^verbatim>\<open>stats.c\<close>, \<^verbatim>\<open>statwords.c\<close>, \<^verbatim>\<open>mathwords.c\<close>,
  most of \<^verbatim>\<open>complex.c\<close>, and the pages of \<^verbatim>\<open>shell.c\<close> that plot, tabulate or take
  statistics), whose results rest on libm and rounding; what each page draws; the bitmaps of the two panel fonts; glue to
  SDL, to Linux devices and to the ESP32 drivers; the linter, which only calls the Quadrate front end; the help texts;
  the loader of native modules, which calls \<^verbatim>\<open>dlopen\<close>. The interpreter's step limit and the
  capacity of its stack are not part of the model.
\<close>

end
